(* ===== verification/Prelude.thy ===== *)
theory Prelude
  imports Main "HOL-Library.Word" "HOL-Library.Monad_Syntax"
begin

text \<open>
  Shared vocabulary of the development: the machine integer types of
  \<^verbatim>\<open>common/common_types.h\<close>, the wrap-around of the signed types, the collections of
  rewrite rules the component proofs use, and generic facts about lists, options and the
  option monad.

  Operations that can run into an \<^verbatim>\<open>ASSERT\<close> of the source, dereference a null pointer or
  index an array out of range return an option: \<open>None\<close> stands for the execution that does not
  go on, and the lemmas of each component say when the result is \<open>Some\<close>.
\<close>

section \<open>Machine integers\<close>

type_synonym u8 = "8 word"
type_synonym u16 = "16 word"
type_synonym u32 = "32 word"
type_synonym u64 = "64 word"

text \<open>
  The signed types \<^verbatim>\<open>s32\<close> and \<^verbatim>\<open>s64\<close> are integers kept in range by the two's complement
  wrap-around of the host; an unsigned result computed on \<open>nat\<close> is reduced modulo its width.
\<close>

definition wrap_s32 :: "int \<Rightarrow> int" where
  "wrap_s32 x = signed_take_bit 31 x"

definition wrap_s64 :: "int \<Rightarrow> int" where
  "wrap_s64 x = signed_take_bit 63 x"

definition wrap_u32 :: "nat \<Rightarrow> nat" where
  "wrap_u32 n = n mod 2 ^ 32"

definition wrap_u64 :: "int \<Rightarrow> int" where
  "wrap_u64 x = x mod 2 ^ 64"

text \<open>Unsigned 32-bit subtraction, which wraps around below zero.\<close>

definition sub_u32 :: "nat \<Rightarrow> nat \<Rightarrow> nat" where
  "sub_u32 a b = (a + 2 ^ 32 - b mod 2 ^ 32) mod 2 ^ 32"

definition in_s32 :: "int \<Rightarrow> bool" where
  "in_s32 x \<longleftrightarrow> - (2 ^ 31) \<le> x \<and> x < 2 ^ 31"

definition in_s64 :: "int \<Rightarrow> bool" where
  "in_s64 x \<longleftrightarrow> - (2 ^ 63) \<le> x \<and> x < 2 ^ 63"

lemma wrap_s32_id [simp]: "in_s32 x \<Longrightarrow> wrap_s32 x = x"
  by (simp add: wrap_s32_def in_s32_def signed_take_bit_int_eq_self)

lemma wrap_s64_id [simp]: "in_s64 x \<Longrightarrow> wrap_s64 x = x"
  by (simp add: wrap_s64_def in_s64_def signed_take_bit_int_eq_self)

lemma wrap_s32_shift: "wrap_s32 (x + 2 ^ 32) = wrap_s32 x"
  by (simp add: wrap_s32_def signed_take_bit_eq_iff_take_bit_eq take_bit_eq_mod)

lemma wrap_s64_shift: "wrap_s64 (x + 2 ^ 64) = wrap_s64 x"
  by (simp add: wrap_s64_def signed_take_bit_eq_iff_take_bit_eq take_bit_eq_mod)

lemma in_s32_wrap [simp, intro]: "in_s32 (wrap_s32 x)"
  unfolding wrap_s32_def in_s32_def
  using signed_take_bit_int_greater_eq_minus_exp [of 31 x] signed_take_bit_int_less_exp [of 31 x]
  by simp

lemma in_s64_wrap [simp, intro]: "in_s64 (wrap_s64 x)"
  unfolding wrap_s64_def in_s64_def
  using signed_take_bit_int_greater_eq_minus_exp [of 63 x] signed_take_bit_int_less_exp [of 63 x]
  by simp

lemma wrap_u32_less [simp]: "wrap_u32 n < 2 ^ 32" "wrap_u32 n < 4294967296"
  by (simp_all add: wrap_u32_def)

lemma wrap_u32_id [simp]: "n < 4294967296 \<Longrightarrow> wrap_u32 n = n"
  by (simp add: wrap_u32_def)

lemma sub_u32_le: "b \<le> a \<Longrightarrow> a < 2 ^ 32 \<Longrightarrow> sub_u32 a b = a - b"
proof -
  assume h: "b \<le> a" "a < 2 ^ 32"
  then have "sub_u32 a b = (2 ^ 32 + (a - b)) mod 2 ^ 32"
    by (simp add: sub_u32_def add.commute)
  also have "\<dots> = a - b"
    using h by (subst mod_add_self1) simp
  finally show ?thesis .
qed


section \<open>Collections of rules\<close>

named_theorems raw_codes \<open>the definitions of result codes, as 32-bit words\<close>
named_theorems tq_simps \<open>how the operations of a thread queue act on its contents\<close>
named_theorems frame_simps \<open>fields that an operation leaves alone\<close>
named_theorems inv_intros \<open>operations that keep the invariant of their component\<close>


section \<open>The option monad\<close>

definition assert_opt :: "bool \<Rightarrow> unit option" where
  "assert_opt b = (if b then Some () else None)"

lemma assert_opt_simps [simp]:
  "assert_opt True = Some ()"
  "assert_opt False = None"
  "assert_opt b = Some u \<longleftrightarrow> b"
  "assert_opt b = None \<longleftrightarrow> \<not> b"
  by (simp_all add: assert_opt_def)

lemma bind_assert_opt [simp]:
  "Option.bind (assert_opt b) f = (if b then f () else None)"
  by (simp add: assert_opt_def)

text \<open>Running a step that may fail over a list, in order.\<close>

fun fold_opt :: "('a \<Rightarrow> 's \<Rightarrow> 's option) \<Rightarrow> 'a list \<Rightarrow> 's \<Rightarrow> 's option" where
  "fold_opt f [] s = Some s"
| "fold_opt f (x # xs) s = Option.bind (f x s) (fold_opt f xs)"

lemma fold_opt_append:
  "fold_opt f (xs @ ys) s = Option.bind (fold_opt f xs s) (fold_opt f ys)"
  by (induction xs arbitrary: s) (auto split: bind_splits)

text \<open>An invariant that every successful step keeps holds of the final state.\<close>

lemma fold_opt_inv:
  assumes "fold_opt f xs s = Some t" and "P s"
    and "\<And>x s t. x \<in> set xs \<Longrightarrow> P s \<Longrightarrow> f x s = Some t \<Longrightarrow> P t"
  shows "P t"
  using assms
proof (induction xs arbitrary: s)
  case Nil
  then show ?case by simp
next
  case (Cons x xs)
  from Cons.prems(1) obtain u where u: "f x s = Some u" "fold_opt f xs u = Some t"
    by (auto split: bind_splits)
  have "P u"
    using u(1) Cons.prems(2,3) by (meson list.set_intros(1))
  with u(2) Cons.prems(3) Cons.IH show ?case
    by (meson list.set_intros(2))
qed

text \<open>If every step succeeds from every state that satisfies the invariant, the loop succeeds.\<close>

lemma fold_opt_total:
  assumes "P s" and "\<And>x s. x \<in> set xs \<Longrightarrow> P s \<Longrightarrow> \<exists>t. f x s = Some t \<and> P t"
  shows "\<exists>t. fold_opt f xs s = Some t \<and> P t"
  using assms
proof (induction xs arbitrary: s)
  case Nil
  then show ?case by simp
next
  case (Cons x xs)
  obtain u where u: "f x s = Some u" "P u"
    using Cons.prems by (meson list.set_intros(1))
  with Cons.IH [of u] Cons.prems(2) obtain t where "fold_opt f xs u = Some t \<and> P t"
    by (meson list.set_intros(2))
  with u show ?case by auto
qed


section \<open>Lists\<close>

lemma nth_list_update_if:
  "i < length xs \<Longrightarrow> xs[j := v] ! i = (if i = j then v else xs ! i)"
  by (simp add: nth_list_update)

lemma mset_like_removeAll_length: "x \<in> set xs \<Longrightarrow> length (removeAll x xs) < length xs"
  by (metis length_removeAll_less)

lemma distinct_remove1_notin: "distinct xs \<Longrightarrow> x \<notin> set (remove1 x xs)"
  by simp

lemma find_eq_hd_filter: "find P xs = (case filter P xs of [] \<Rightarrow> None | x # _ \<Rightarrow> Some x)"
  by (induction xs) auto

lemma concat_map_update_len:
  "i < length xss \<Longrightarrow> concat (xss[i := ys]) = concat (take i xss) @ ys @ concat (drop (Suc i) xss)"
  by (simp add: upd_conv_take_nth_drop)

end
