(* ===== verification/Results.thy ===== *)
theory Results
  imports Prelude
begin

text \<open>
  \<^verbatim>\<open>common/bit_field.h\<close>, \<^verbatim>\<open>core/hle/result.h\<close> and \<^verbatim>\<open>core/hle/kernel/errors.h\<close>: bit fields of a
  storage word, the 32-bit result code built from four of them, the classes of values that
  appear in each, and the kernel's error constants.  The lemmas relate the packing of a code to
  its fields and decide which of the kernel's constants a caller sees as an error.
\<close>

unbundle bit_operations_syntax

section \<open>Bit fields\<close>

text \<open>
  \<open>BitField<Position, Bits, T>\<close> for an unsigned \<open>T\<close> of the storage's width, and
  \<open>ExtractValue\<close> at a signed \<open>T\<close>.
\<close>

definition bf_mask :: "nat \<Rightarrow> nat \<Rightarrow> 'a::len word" where
  "bf_mask position bits = push_bit position (drop_bit (LENGTH('a) - bits) (NOT 0))"

definition FormatValue :: "nat \<Rightarrow> nat \<Rightarrow> 'a::len word \<Rightarrow> 'a word" where
  "FormatValue position bits v = push_bit position v AND bf_mask position bits"

definition ExtractValue :: "nat \<Rightarrow> nat \<Rightarrow> 'a::len word \<Rightarrow> 'a word" where
  "ExtractValue position bits storage = drop_bit position (storage AND bf_mask position bits)"

definition ExtractValue_signed :: "nat \<Rightarrow> nat \<Rightarrow> 'a::len word \<Rightarrow> 'a word" where
  "ExtractValue_signed position bits storage =
     (let shift = LENGTH('a) - bits
      in signed_drop_bit shift (push_bit (shift - position) storage))"

definition Assign :: "nat \<Rightarrow> nat \<Rightarrow> 'a::len word \<Rightarrow> 'a word \<Rightarrow> 'a word" where
  "Assign position bits storage v =
     (storage AND NOT (bf_mask position bits)) OR FormatValue position bits v"

lemma bit_bf_mask:
  "bit (bf_mask position bits :: 'a::len word) n \<longleftrightarrow>
     position \<le> n \<and> n < position + bits \<and> n < LENGTH('a)"
  if "position + bits \<le> LENGTH('a)"
  using that by (auto simp: bf_mask_def bit_push_bit_iff bit_drop_bit_eq bit_not_iff bit_mask_iff)

lemma bit_FormatValue:
  "bit (FormatValue position bits v :: 'a::len word) n \<longleftrightarrow>
     position \<le> n \<and> n < position + bits \<and> bit v (n - position)"
  if "position + bits \<le> LENGTH('a)"
  using that
  by (auto simp: FormatValue_def bit_and_iff bit_bf_mask bit_push_bit_iff)

lemma bit_ExtractValue:
  "bit (ExtractValue position bits s :: 'a::len word) n \<longleftrightarrow> n < bits \<and> bit s (position + n)"
  if "position + bits \<le> LENGTH('a)"
  using that
  by (auto simp: ExtractValue_def bit_drop_bit_eq bit_and_iff bit_bf_mask dest: bit_imp_le_length)

lemma ExtractValue_or:
  "ExtractValue position bits (a OR b :: 'a::len word) =
     ExtractValue position bits a OR ExtractValue position bits b"
  by (simp add: ExtractValue_def bit.conj_disj_distrib2)

text \<open>Reading a field that was just formatted gives the value cut to the field's width.\<close>

lemma ExtractValue_FormatValue:
  "ExtractValue position bits (FormatValue position bits v :: 'a::len word) = take_bit bits v"
  if "position + bits \<le> LENGTH('a)"
  by (rule bit_word_eqI)
     (use that in \<open>auto simp: bit_ExtractValue bit_FormatValue bit_take_bit_iff\<close>)

lemma ExtractValue_FormatValue_disjoint:
  "ExtractValue p b (FormatValue p' b' v :: 'a::len word) = 0"
  if "p + b \<le> LENGTH('a)" "p' + b' \<le> LENGTH('a)" "p + b \<le> p' \<or> p' + b' \<le> p"
  by (rule bit_word_eqI) (use that in \<open>auto simp: bit_ExtractValue bit_FormatValue\<close>)

lemma bit_Assign:
  "bit (Assign position bits s v :: 'a::len word) n \<longleftrightarrow>
     (if position \<le> n \<and> n < position + bits then bit v (n - position) else bit s n)"
  if "position + bits \<le> LENGTH('a)" "n < LENGTH('a)"
  using that by (auto simp: Assign_def bit_or_iff bit_and_iff bit_not_iff bit_bf_mask bit_FormatValue)


section \<open>The parts of a result code\<close>

datatype ErrorDescription =
    D_Success | D_InvalidSection | D_TooLarge | D_NotAuthorized | D_AlreadyDone | D_InvalidSize
    | D_InvalidEnumValue | D_InvalidCombination | D_NoData | D_Busy | D_MisalignedAddress
    | D_MisalignedSize | D_OutOfMemory | D_NotImplemented | D_InvalidAddress
    | D_InvalidPointer | D_InvalidHandle | D_NotInitialized | D_AlreadyInitialized
    | D_NotFound | D_CancelRequested | D_AlreadyExists | D_OutOfRange | D_Timeout
    | D_InvalidResultValue

primrec description_code :: "ErrorDescription \<Rightarrow> u32" where
    "description_code D_Success = 0"
  | "description_code D_InvalidSection = 1000"
  | "description_code D_TooLarge = 1001"
  | "description_code D_NotAuthorized = 1002"
  | "description_code D_AlreadyDone = 1003"
  | "description_code D_InvalidSize = 1004"
  | "description_code D_InvalidEnumValue = 1005"
  | "description_code D_InvalidCombination = 1006"
  | "description_code D_NoData = 1007"
  | "description_code D_Busy = 1008"
  | "description_code D_MisalignedAddress = 1009"
  | "description_code D_MisalignedSize = 1010"
  | "description_code D_OutOfMemory = 1011"
  | "description_code D_NotImplemented = 1012"
  | "description_code D_InvalidAddress = 1013"
  | "description_code D_InvalidPointer = 1014"
  | "description_code D_InvalidHandle = 1015"
  | "description_code D_NotInitialized = 1016"
  | "description_code D_AlreadyInitialized = 1017"
  | "description_code D_NotFound = 1018"
  | "description_code D_CancelRequested = 1019"
  | "description_code D_AlreadyExists = 1020"
  | "description_code D_OutOfRange = 1021"
  | "description_code D_Timeout = 1022"
  | "description_code D_InvalidResultValue = 1023"

text \<open>
  The enumeration of modules is kept as the table of its enumerators; a module is its code.
\<close>

definition error_modules :: "(string \<times> u32) list" where
  "error_modules =
    [(''Common'', 0), (''Kernel'', 1), (''Util'', 2), (''FileServer'', 3),
     (''LoaderServer'', 4), (''TCB'', 5), (''OS'', 6), (''DBG'', 7), (''DMNT'', 8),
     (''PDN'', 9), (''GX'', 10), (''I2C'', 11), (''GPIO'', 12), (''DD'', 13),
     (''CODEC'', 14), (''SPI'', 15), (''PXI'', 16), (''FS'', 17), (''DI'', 18),
     (''HID'', 19), (''CAM'', 20), (''PI'', 21), (''PM'', 22), (''PM_LOW'', 23),
     (''FSI'', 24), (''SRV'', 25), (''NDM'', 26), (''NWM'', 27), (''SOC'', 28),
     (''LDR'', 29), (''ACC'', 30), (''RomFS'', 31), (''AM'', 32), (''HIO'', 33),
     (''Updater'', 34), (''MIC'', 35), (''FND'', 36), (''MP'', 37), (''MPWL'', 38),
     (''AC'', 39), (''HTTP'', 40), (''DSP'', 41), (''SND'', 42), (''DLP'', 43),
     (''HIO_LOW'', 44), (''CSND'', 45), (''SSL'', 46), (''AM_LOW'', 47), (''NEX'', 48),
     (''Friends'', 49), (''RDT'', 50), (''Applet'', 51), (''NIM'', 52), (''PTM'', 53),
     (''MIDI'', 54), (''MC'', 55), (''SWC'', 56), (''FatFS'', 57), (''NGC'', 58),
     (''CARD'', 59), (''CARDNOR'', 60), (''SDMC'', 61), (''BOSS'', 62), (''DBM'', 63),
     (''Config'', 64), (''PS'', 65), (''CEC'', 66), (''IR'', 67), (''UDS'', 68),
     (''PL'', 69), (''CUP'', 70), (''Gyroscope'', 71), (''MCU'', 72), (''NS'', 73),
     (''News'', 74), (''RO'', 75), (''GD'', 76), (''CardSPI'', 77), (''EC'', 78),
     (''WebBrowser'', 79), (''Test'', 80), (''ENC'', 81), (''PIA'', 82), (''ACT'', 83),
     (''VCTL'', 84), (''OLV'', 85), (''NEIA'', 86), (''NPNS'', 87), (''AVD'', 90),
     (''L2B'', 91), (''MVD'', 92), (''NFC'', 93), (''UART'', 94), (''SPM'', 95),
     (''QTM'', 96), (''NFP'', 97), (''Application'', 254), (''InvalidResult'', 255)]"

definition module_code :: "string \<Rightarrow> u32" where
  "module_code name = (case map_of error_modules name of Some c \<Rightarrow> c | None \<Rightarrow> 255)"

datatype ErrorSummary =
    S_Success | S_NothingHappened | S_WouldBlock | S_OutOfResource | S_NotFound | S_InvalidState
    | S_NotSupported | S_InvalidArgument | S_WrongArgument | S_Canceled | S_StatusChanged
    | S_Internal | S_InvalidResult

primrec summary_code :: "ErrorSummary \<Rightarrow> u32" where
    "summary_code S_Success = 0"
  | "summary_code S_NothingHappened = 1"
  | "summary_code S_WouldBlock = 2"
  | "summary_code S_OutOfResource = 3"
  | "summary_code S_NotFound = 4"
  | "summary_code S_InvalidState = 5"
  | "summary_code S_NotSupported = 6"
  | "summary_code S_InvalidArgument = 7"
  | "summary_code S_WrongArgument = 8"
  | "summary_code S_Canceled = 9"
  | "summary_code S_StatusChanged = 10"
  | "summary_code S_Internal = 11"
  | "summary_code S_InvalidResult = 63"

datatype ErrorLevel =
    L_Success | L_Info | L_Status | L_Temporary | L_Permanent | L_Usage | L_Reinitialize
    | L_Reset | L_Fatal

primrec level_code :: "ErrorLevel \<Rightarrow> u32" where
    "level_code L_Success = 0"
  | "level_code L_Info = 1"
  | "level_code L_Status = 25"
  | "level_code L_Temporary = 26"
  | "level_code L_Permanent = 27"
  | "level_code L_Usage = 28"
  | "level_code L_Reinitialize = 29"
  | "level_code L_Reset = 30"
  | "level_code L_Fatal = 31"


section \<open>Result codes\<close>

type_synonym result = u32

definition Result :: "u32 \<Rightarrow> string \<Rightarrow> ErrorSummary \<Rightarrow> ErrorLevel \<Rightarrow> result" where
  "Result description module summary level =
     FormatValue 0 10 description OR FormatValue 10 8 (module_code module) OR
     FormatValue 21 6 (summary_code summary) OR FormatValue 27 5 (level_code level)"

definition result_description :: "result \<Rightarrow> u32" where
  "result_description r = ExtractValue 0 10 r"

definition result_module :: "result \<Rightarrow> u32" where
  "result_module r = ExtractValue 10 8 r"

definition result_summary :: "result \<Rightarrow> u32" where
  "result_summary r = ExtractValue 21 6 r"

definition result_level :: "result \<Rightarrow> u32" where
  "result_level r = ExtractValue 27 5 r"

definition IsSuccess :: "result \<Rightarrow> bool" where
  "IsSuccess r \<longleftrightarrow> ExtractValue 31 1 r = 0"

definition IsError :: "result \<Rightarrow> bool" where
  "IsError r \<longleftrightarrow> ExtractValue 31 1 r = 1"

definition ResultSuccess :: result where
  [raw_codes]: "ResultSuccess = 0"

definition UnimplementedFunction :: "string \<Rightarrow> result" where
  "UnimplementedFunction module =
     Result (description_code D_NotImplemented) module S_NotSupported L_Permanent"

definition ResultUnknown :: result where
  [raw_codes]: "ResultUnknown = 0xFFFFFFFF"

text \<open>
  \<open>ResultVal<T>\<close> holds a value or a code; \<open>Code\<close> reads it as a code, and the macros
  \<open>R_UNLESS\<close>, \<open>R_TRY\<close> and \<open>CASCADE_RESULT\<close> return early.  A function that returns a
  \<open>ResultVal\<close> is modelled by one into \<open>result + 'a\<close>.
\<close>

type_synonym 'a result_val = "result + 'a"

definition Code :: "'a result_val \<Rightarrow> result" where
  "Code v = (case v of Inl c \<Rightarrow> c | Inr _ \<Rightarrow> ResultSuccess)"

definition Succeeded :: "'a result_val \<Rightarrow> bool" where
  "Succeeded v \<longleftrightarrow> (case v of Inl _ \<Rightarrow> False | Inr _ \<Rightarrow> True)"

definition Unwrap :: "'a result_val \<Rightarrow> 'a option" where
  "Unwrap v = (case v of Inl _ \<Rightarrow> None | Inr x \<Rightarrow> Some x)"

definition ValueOr :: "'a result_val \<Rightarrow> 'a \<Rightarrow> 'a" where
  "ValueOr v d = (case v of Inl _ \<Rightarrow> d | Inr x \<Rightarrow> x)"


section \<open>The kernel's error constants\<close>

definition ResultOutOfHandles :: result where
  [raw_codes]: "ResultOutOfHandles = Result 19 ''Kernel'' S_OutOfResource L_Permanent"

definition ResultSessionClosed :: result where
  [raw_codes]: "ResultSessionClosed = Result 26 ''OS'' S_Canceled L_Status"

definition ResultPortNameTooLong :: result where
  [raw_codes]: "ResultPortNameTooLong = Result 30 ''OS'' S_InvalidArgument L_Usage"

definition ResultWrongPermission :: result where
  [raw_codes]: "ResultWrongPermission = Result 46 ''OS'' S_WrongArgument L_Permanent"

definition ResultInvalidBufferDescriptor :: result where
  [raw_codes]: "ResultInvalidBufferDescriptor = Result 48 ''OS'' S_WrongArgument L_Permanent"

definition ResultMaxConnectionsReached :: result where
  [raw_codes]: "ResultMaxConnectionsReached = Result 52 ''OS'' S_WouldBlock L_Temporary"

definition ResultNotAuthorized :: result where
  [raw_codes]: "ResultNotAuthorized = Result (description_code D_NotAuthorized) ''OS'' S_WrongArgument L_Permanent"

definition ResultInvalidEnumValue :: result where
  [raw_codes]: "ResultInvalidEnumValue = Result (description_code D_InvalidEnumValue) ''Kernel'' S_InvalidArgument L_Permanent"

definition ResultInvalidEnumValueFnd :: result where
  [raw_codes]: "ResultInvalidEnumValueFnd = Result (description_code D_InvalidEnumValue) ''FND'' S_InvalidArgument L_Permanent"

definition ResultInvalidCombination :: result where
  [raw_codes]: "ResultInvalidCombination = Result (description_code D_InvalidCombination) ''OS'' S_InvalidArgument L_Usage"

definition ResultInvalidCombinationKernel :: result where
  [raw_codes]: "ResultInvalidCombinationKernel = Result (description_code D_InvalidCombination) ''Kernel'' S_WrongArgument L_Permanent"

definition ResultMisalignedAddress :: result where
  [raw_codes]: "ResultMisalignedAddress = Result (description_code D_MisalignedAddress) ''OS'' S_InvalidArgument L_Usage"

definition ResultMisalignedSize :: result where
  [raw_codes]: "ResultMisalignedSize = Result (description_code D_MisalignedSize) ''OS'' S_InvalidArgument L_Usage"

definition ResultOutOfMemory :: result where
  [raw_codes]: "ResultOutOfMemory = Result (description_code D_OutOfMemory) ''Kernel'' S_OutOfResource L_Permanent"

definition ResultOutOfHeapMemory :: result where
  [raw_codes]: "ResultOutOfHeapMemory = Result (description_code D_OutOfMemory) ''OS'' S_OutOfResource L_Status"

definition ResultNotImplemented :: result where
  [raw_codes]: "ResultNotImplemented = Result (description_code D_NotImplemented) ''OS'' S_InvalidArgument L_Usage"

definition ResultInvalidAddress :: result where
  [raw_codes]: "ResultInvalidAddress = Result (description_code D_InvalidAddress) ''OS'' S_InvalidArgument L_Usage"

definition ResultInvalidAddressState :: result where
  [raw_codes]: "ResultInvalidAddressState = Result (description_code D_InvalidAddress) ''OS'' S_InvalidState L_Usage"

definition ResultInvalidPointer :: result where
  [raw_codes]: "ResultInvalidPointer = Result (description_code D_InvalidPointer) ''Kernel'' S_InvalidArgument L_Permanent"

definition ResultInvalidHandle :: result where
  [raw_codes]: "ResultInvalidHandle = Result (description_code D_InvalidHandle) ''Kernel'' S_InvalidArgument L_Permanent"

definition ResultInvalidHandleOs :: result where
  [raw_codes]: "ResultInvalidHandleOs = Result (description_code D_InvalidHandle) ''OS'' S_WrongArgument L_Permanent"

definition ResultNotFound :: result where
  [raw_codes]: "ResultNotFound = Result (description_code D_NotFound) ''Kernel'' S_NotFound L_Permanent"

definition ResultOutOfRange :: result where
  [raw_codes]: "ResultOutOfRange = Result (description_code D_OutOfRange) ''OS'' S_InvalidArgument L_Usage"

definition ResultOutOfRangeKernel :: result where
  [raw_codes]: "ResultOutOfRangeKernel = Result (description_code D_OutOfRange) ''Kernel'' S_InvalidArgument L_Permanent"

definition ResultTimeout :: result where
  [raw_codes]: "ResultTimeout = Result (description_code D_Timeout) ''OS'' S_StatusChanged L_Info"

definition ResultNoPendingSessions :: result where
  [raw_codes]: "ResultNoPendingSessions = Result 35 ''OS'' S_WouldBlock L_Permanent"

section \<open>Properties\<close>

lemmas field_simps_result =
  result_description_def result_module_def result_summary_def result_level_def
  Result_def ExtractValue_or ExtractValue_FormatValue ExtractValue_FormatValue_disjoint

lemma list_all_snd_map_of: "list_all (\<lambda>(n, c). P c) xs \<Longrightarrow> map_of xs n = Some c \<Longrightarrow> P c"
  by (auto simp: list_all_iff dest: map_of_SomeD)

lemma error_modules_small: "list_all (\<lambda>(n, c). c < 256) error_modules"
  unfolding error_modules_def by simp

lemma module_code_less: "module_code m < 256"
  by (auto simp: module_code_def split: option.split
      dest: list_all_snd_map_of [OF error_modules_small])

lemma take_bit_8_small: "x < 256 \<Longrightarrow> take_bit 8 (x :: u32) = x"
  by (simp add: word_unat_eq_iff unsigned_take_bit_eq take_bit_nat_eq_self word_less_nat_alt)

lemma module_code_fits [simp]: "take_bit 8 (module_code m) = module_code m"
  by (rule take_bit_8_small) (rule module_code_less)

lemma summary_code_fits [simp]: "take_bit 6 (summary_code s) = summary_code s"
  by (cases s) simp_all

lemma level_code_fits [simp]: "take_bit 5 (level_code l) = level_code l"
  by (cases l) simp_all

lemma description_code_fits [simp]: "take_bit 10 (description_code d) = description_code d"
  by (cases d) simp_all

text \<open>The four fields of a constructed result code read back as what went in: the description
  cut to ten bits, and the module, the summary and the level unchanged, because every enumerator
  of the three classes fits in its field.\<close>
theorem result_fields_roundtrip:
  "result_description (Result d m s l) = take_bit 10 d \<and>
   result_module (Result d m s l) = module_code m \<and>
   result_summary (Result d m s l) = summary_code s \<and>
   result_level (Result d m s l) = level_code l"
  by (simp_all add: field_simps_result)

lemma bit_1_ExtractValue_31: "ExtractValue 31 (Suc 0) (r :: u32) = (if bit r 31 then 1 else 0)"
  by (rule bit_word_eqI) (auto simp: bit_ExtractValue bit_1_iff)

lemma IsError_iff_bit: "IsError r \<longleftrightarrow> bit r 31"
  by (simp add: IsError_def bit_1_ExtractValue_31)

lemma IsSuccess_iff_bit: "IsSuccess r \<longleftrightarrow> \<not> bit r 31"
  by (simp add: IsSuccess_def bit_1_ExtractValue_31)

lemma bit_level: "bit (Result d m s l) 31 = bit (level_code l) 4"
  by (simp add: Result_def bit_or_iff bit_FormatValue)

text \<open>A code is an error or a success and never both, and a constructed code is a success
  exactly at the levels Success and Info.  In particular a code whose description says Timeout is
  not an error when its level is Info.\<close>
theorem result_error_iff_level:
  "(IsError r \<longleftrightarrow> \<not> IsSuccess r) \<and>
   (IsSuccess (Result d m s l) \<longleftrightarrow> l = L_Success \<or> l = L_Info)"
  by (cases l; simp add: IsError_iff_bit IsSuccess_iff_bit bit_level)

lemmas raw_value_simps =
  raw_codes Result_def FormatValue_def bf_mask_def mask_eq_exp_minus_1
  module_code_def error_modules_def

text \<open>The raw values of the kernel's constants are the ones their comments give, with two
  facts a caller relies on: every one of them but the timeout is an error, and the timeout is not.\<close>
theorem kernel_constants_raw:
  "ResultOutOfHandles = 0xD8600413 \<and>
   ResultSessionClosed = 0xC920181A \<and>
   ResultPortNameTooLong = 0xE0E0181E \<and>
   ResultMaxConnectionsReached = 0xD0401834 \<and>
   ResultNotAuthorized = 0xD9001BEA \<and>
   ResultInvalidEnumValue = 0xD8E007ED \<and>
   ResultInvalidEnumValueFnd = 0xD8E093ED \<and>
   ResultInvalidCombination = 0xE0E01BEE \<and>
   ResultInvalidCombinationKernel = 0xD90007EE \<and>
   ResultMisalignedAddress = 0xE0E01BF1 \<and>
   ResultMisalignedSize = 0xE0E01BF2 \<and>
   ResultOutOfMemory = 0xD86007F3 \<and>
   ResultNotImplemented = 0xE0E01BF4 \<and>
   ResultInvalidAddress = 0xE0E01BF5 \<and>
   ResultInvalidAddressState = 0xE0A01BF5 \<and>
   ResultInvalidPointer = 0xD8E007F6 \<and>
   ResultInvalidHandle = 0xD8E007F7 \<and>
   ResultInvalidHandleOs = 0xD9001BF7 \<and>
   ResultNotFound = 0xD88007FA \<and>
   ResultOutOfRange = 0xE0E01BFD \<and>
   ResultOutOfRangeKernel = 0xD8E007FD \<and>
   ResultNoPendingSessions = 0xD8401823 \<and>
   list_all IsError [ResultWrongPermission, ResultInvalidBufferDescriptor, ResultOutOfHandles, ResultSessionClosed, ResultPortNameTooLong,
     ResultMaxConnectionsReached, ResultNotAuthorized, ResultInvalidEnumValue, ResultInvalidEnumValueFnd, ResultInvalidCombination,
     ResultInvalidCombinationKernel, ResultMisalignedAddress, ResultMisalignedSize, ResultOutOfMemory, ResultOutOfHeapMemory, ResultNotImplemented,
     ResultInvalidAddress, ResultInvalidAddressState, ResultInvalidPointer, ResultInvalidHandle, ResultInvalidHandleOs, ResultNotFound, ResultOutOfRange, ResultOutOfRangeKernel, ResultNoPendingSessions] \<and>
   IsSuccess ResultTimeout"
  by (intro conjI; simp add: raw_value_simps IsError_iff_bit IsSuccess_iff_bit)

text \<open>The constant for an exhausted heap has description OutOfMemory (1011), so its raw value is
  0xC8601BF3; the comment beside it names 0xC860180A, whose description is 10.\<close>
theorem out_of_heap_memory_raw:
  "ResultOutOfHeapMemory = 0xC8601BF3 \<and> ResultOutOfHeapMemory \<noteq> 0xC860180A \<and>
   result_description 0xC860180A = 10"
  by (intro conjI; simp add: raw_value_simps result_description_def ExtractValue_def)

text \<open>A value, and only a value, is read back without an assertion failure.\<close>

lemma Unwrap_iff_Succeeded: "Unwrap v = Some x \<longleftrightarrow> v = Inr x"
  by (cases v) (auto simp: Unwrap_def)

lemma Succeeded_Unwrap: "Succeeded v \<longleftrightarrow> (\<exists>x. Unwrap v = Some x)"
  by (cases v) (auto simp: Succeeded_def Unwrap_def)

end
