(* ===== verification/Thread_Queue.thy ===== *)
theory Thread_Queue
  imports Prelude "HOL-Library.Multiset"
begin

text \<open>
  \<^verbatim>\<open>common/thread_queue_list.h\<close>: the multi-level queue of the scheduler.  An array of double-ended
  queues, one per priority level, in which the levels that were ever used are chained through
  \<open>next_nonempty\<close>; \<open>first\<close> points to the first of them.

  A pointer to a queue is a \<open>link\<close>: the tag of a level that was never linked, the null pointer, or
  the index of a level.  The loops that follow the chain take as fuel the number of levels plus
  one; they return \<open>None\<close> when a step dereferences the tag, the null pointer or an index outside
  the array, and when the fuel runs out.  The invariant \<open>tql_inv\<close> says that the chain holds exactly
  the linked levels in increasing order and that the others are empty; under it every loop returns
  and acts on the contents as the plain description of the operation says.
\<close>

section \<open>Data\<close>

datatype link = Unlinked | Null | At nat

record 'a queue =
  next_nonempty :: link
  data :: "'a list"

record 'a tql =
  first_queue :: link
  queues :: "'a queue list"

definition empty_queue :: "'a queue" where
  "empty_queue = \<lparr>next_nonempty = Unlinked, data = []\<rparr>"

text \<open>The constructor, for \<open>N\<close> priority levels.\<close>

definition ThreadQueueList :: "nat \<Rightarrow> 'a tql" where
  "ThreadQueueList N = \<lparr>first_queue = Null, queues = replicate N empty_queue\<rparr>"

abbreviation NUM_QUEUES :: "'a tql \<Rightarrow> nat" where
  "NUM_QUEUES q \<equiv> length (queues q)"

abbreviation q_data :: "'a tql \<Rightarrow> nat \<Rightarrow> 'a list" where
  "q_data q i \<equiv> data (queues q ! i)"

abbreviation q_next :: "'a tql \<Rightarrow> nat \<Rightarrow> link" where
  "q_next q i \<equiv> next_nonempty (queues q ! i)"

definition set_data :: "'a tql \<Rightarrow> nat \<Rightarrow> 'a list \<Rightarrow> 'a tql" where
  "set_data q i xs = q\<lparr>queues := (queues q)[i := (queues q ! i)\<lparr>data := xs\<rparr>]\<rparr>"

definition set_next :: "'a tql \<Rightarrow> nat \<Rightarrow> link \<Rightarrow> 'a tql" where
  "set_next q i l = q\<lparr>queues := (queues q)[i := (queues q ! i)\<lparr>next_nonempty := l\<rparr>]\<rparr>"


section \<open>Operations\<close>

text \<open>\<open>contains\<close>: the first level that holds the element; \<open>None\<close> is the result -1.\<close>

definition tql_contains :: "'a tql \<Rightarrow> 'a \<Rightarrow> nat option" where
  "tql_contains q uid = find (\<lambda>i. uid \<in> set (q_data q i)) [0..<NUM_QUEUES q]"

text \<open>
  The shared body of the three loops: follow the chain while the loop condition holds and stop at
  the first level with an element.  \<open>Some None\<close> is the loop that ends without one.
\<close>

fun first_from :: "(link \<Rightarrow> bool) \<Rightarrow> nat \<Rightarrow> 'a tql \<Rightarrow> link \<Rightarrow> nat option option" where
  "first_from go 0 q cur = None"
| "first_from go (Suc fuel) q cur =
     (if \<not> go cur then Some None
      else case cur of
        At i \<Rightarrow>
          if NUM_QUEUES q \<le> i then None
          else if q_data q i \<noteq> [] then Some (Some i)
          else first_from go fuel q (q_next q i)
      | _ \<Rightarrow> None)"

definition not_null :: "link \<Rightarrow> bool" where
  "not_null l \<longleftrightarrow> l \<noteq> Null"

text \<open>
  The comparison \<open>cur < stop\<close> of \<open>pop_first_better\<close> compares addresses: the null pointer and the
  tag are below every element of the array.
\<close>

definition below :: "nat \<Rightarrow> link \<Rightarrow> bool" where
  "below stop l \<longleftrightarrow> (case l of At i \<Rightarrow> i < stop | _ \<Rightarrow> True)"

definition get_first :: "'a tql \<Rightarrow> 'a option option" where
  "get_first q =
     do { r \<leftarrow> first_from not_null (Suc (NUM_QUEUES q)) q (first_queue q);
          Some (case r of None \<Rightarrow> None | Some i \<Rightarrow> Some (hd (q_data q i))) }"

definition pop_front_at :: "'a tql \<Rightarrow> nat option \<Rightarrow> 'a option \<times> 'a tql" where
  "pop_front_at q r =
     (case r of
        None \<Rightarrow> (None, q)
      | Some i \<Rightarrow> (Some (hd (q_data q i)), set_data q i (tl (q_data q i))))"

definition pop_first :: "'a tql \<Rightarrow> ('a option \<times> 'a tql) option" where
  "pop_first q =
     map_option (pop_front_at q) (first_from not_null (Suc (NUM_QUEUES q)) q (first_queue q))"

definition pop_first_better :: "nat \<Rightarrow> 'a tql \<Rightarrow> ('a option \<times> 'a tql) option" where
  "pop_first_better priority q =
     map_option (pop_front_at q)
       (first_from (below priority) (Suc (NUM_QUEUES q)) q (first_queue q))"

definition push_front :: "nat \<Rightarrow> 'a \<Rightarrow> 'a tql \<Rightarrow> 'a tql" where
  "push_front priority t q = set_data q priority (t # q_data q priority)"

definition push_back :: "nat \<Rightarrow> 'a \<Rightarrow> 'a tql \<Rightarrow> 'a tql" where
  "push_back priority t q = set_data q priority (q_data q priority @ [t])"

definition tql_remove :: "nat \<Rightarrow> 'a \<Rightarrow> 'a tql \<Rightarrow> 'a tql" where
  "tql_remove priority t q = set_data q priority (removeAll t (q_data q priority))"

definition tql_rotate :: "nat \<Rightarrow> 'a tql \<Rightarrow> 'a tql" where
  "tql_rotate priority q =
     (case q_data q priority of
        x # y # ys \<Rightarrow> set_data q priority ((y # ys) @ [x])
      | _ \<Rightarrow> q)"

definition tql_clear :: "'a tql \<Rightarrow> 'a tql" where
  "tql_clear q = ThreadQueueList (NUM_QUEUES q)"

definition tql_empty :: "nat \<Rightarrow> 'a tql \<Rightarrow> bool" where
  "tql_empty priority q \<longleftrightarrow> q_data q priority = []"

text \<open>\<open>link\<close>: the loop over \<open>i = priority - 1, ..., 0\<close>; its argument is \<open>i + 1\<close>.\<close>

fun link_loop :: "nat \<Rightarrow> nat \<Rightarrow> 'a tql \<Rightarrow> 'a tql" where
  "link_loop priority 0 q = (set_next q priority (first_queue q))\<lparr>first_queue := At priority\<rparr>"
| "link_loop priority (Suc i) q =
     (if q_next q i \<noteq> Unlinked
      then set_next (set_next q priority (q_next q i)) i (At priority)
      else link_loop priority i q)"

definition prepare :: "nat \<Rightarrow> 'a tql \<Rightarrow> 'a tql" where
  "prepare priority q =
     (if q_next q priority = Unlinked then link_loop priority priority q else q)"

definition tql_move :: "'a \<Rightarrow> nat \<Rightarrow> nat \<Rightarrow> 'a tql \<Rightarrow> 'a tql" where
  "tql_move t old_priority new_priority q =
     push_back new_priority t (prepare new_priority (tql_remove old_priority t q))"

text \<open>Serialization: a pointer is stored as an index, -1 for the tag and -2 for null.\<close>

fun ToIndex :: "link \<Rightarrow> int" where
  "ToIndex Null = -2"
| "ToIndex Unlinked = -1"
| "ToIndex (At i) = int i"

definition ToPointer :: "int \<Rightarrow> link" where
  "ToPointer idx = (if idx = -1 then Unlinked else if idx < 0 then Null else At (nat idx))"

definition tql_save :: "'a tql \<Rightarrow> int \<times> (int \<times> 'a list) list" where
  "tql_save q =
     (ToIndex (first_queue q), map (\<lambda>c. (ToIndex (next_nonempty c), data c)) (queues q))"

definition tql_load :: "int \<times> (int \<times> 'a list) list \<Rightarrow> 'a tql" where
  "tql_load ar =
     \<lparr>first_queue = ToPointer (fst ar),
      queues = map (\<lambda>(idx, d). \<lparr>next_nonempty = ToPointer idx, data = d\<rparr>) (snd ar)\<rparr>"


section \<open>The invariant\<close>

definition linked :: "'a tql \<Rightarrow> nat \<Rightarrow> bool" where
  "linked q i \<longleftrightarrow> i < NUM_QUEUES q \<and> q_next q i \<noteq> Unlinked"

text \<open>The pointer to the first linked level at or after \<open>i\<close>.\<close>

definition link_from :: "'a tql \<Rightarrow> nat \<Rightarrow> link" where
  "link_from q i = (case filter (linked q) [i..<NUM_QUEUES q] of [] \<Rightarrow> Null | j # _ \<Rightarrow> At j)"

definition tql_inv :: "'a tql \<Rightarrow> bool" where
  "tql_inv q \<longleftrightarrow>
     first_queue q = link_from q 0 \<and>
     (\<forall>i < NUM_QUEUES q. linked q i \<longrightarrow> q_next q i = link_from q (Suc i)) \<and>
     (\<forall>i < NUM_QUEUES q. \<not> linked q i \<longrightarrow> q_data q i = [])"

text \<open>What the queue holds: the elements of every level, most urgent level first.\<close>

definition levels :: "'a tql \<Rightarrow> 'a list list" where
  "levels q = map data (queues q)"

definition contents :: "'a tql \<Rightarrow> 'a list" where
  "contents q = concat (levels q)"


section \<open>Basic facts\<close>

lemma set_data_simps [simp, tq_simps]:
  "NUM_QUEUES (set_data q i xs) = NUM_QUEUES q"
  "first_queue (set_data q i xs) = first_queue q"
  "i < NUM_QUEUES q \<Longrightarrow> q_data (set_data q i xs) j = (if j = i then xs else q_data q j)"
  "q_next (set_data q i xs) j = q_next q j"
  "linked (set_data q i xs) j = linked q j"
  "link_from (set_data q i xs) j = link_from q j"
proof -
  show n: "NUM_QUEUES (set_data q i xs) = NUM_QUEUES q"
    and "first_queue (set_data q i xs) = first_queue q"
    by (simp_all add: set_data_def)
  show "i < NUM_QUEUES q \<Longrightarrow> q_data (set_data q i xs) j = (if j = i then xs else q_data q j)"
    by (auto simp: set_data_def)
  show nx: "q_next (set_data q i xs) j = q_next q j" for j
    by (cases "i < NUM_QUEUES q"; cases "i = j") (simp_all add: set_data_def list_update_beyond)
  then show l: "linked (set_data q i xs) j = linked q j" for j
    by (simp add: linked_def n)
  then have "linked (set_data q i xs) = linked q"
    by (intro ext)
  then show "link_from (set_data q i xs) j = link_from q j"
    by (simp add: link_from_def n)
qed

lemma levels_set_data [tq_simps]:
  "i < NUM_QUEUES q \<Longrightarrow> levels (set_data q i xs) = (levels q)[i := xs]"
  by (simp add: levels_def set_data_def map_update)

lemma length_levels [simp]: "length (levels q) = NUM_QUEUES q"
  by (simp add: levels_def)

lemma nth_levels [simp]: "i < NUM_QUEUES q \<Longrightarrow> levels q ! i = q_data q i"
  by (simp add: levels_def)

lemma tql_inv_set_data:
  "tql_inv q \<Longrightarrow> linked q i \<Longrightarrow> tql_inv (set_data q i xs)"
  by (auto simp: tql_inv_def linked_def)

lemma link_from_rec:
  "link_from q i =
     (if NUM_QUEUES q \<le> i then Null else if linked q i then At i else link_from q (Suc i))"
  by (auto simp: link_from_def upt_conv_Cons)

lemma link_from_At: "link_from q i = At j \<Longrightarrow> i \<le> j \<and> linked q j"
proof -
  assume "link_from q i = At j"
  then obtain ys where "filter (linked q) [i..<NUM_QUEUES q] = j # ys"
    by (auto simp: link_from_def split: list.splits)
  then have "j \<in> set (filter (linked q) [i..<NUM_QUEUES q])"
    by simp
  then show ?thesis by auto
qed

lemma link_from_linked: "linked q i \<Longrightarrow> link_from q i = At i"
  by (subst link_from_rec) (auto simp: linked_def)

lemma link_from_cases: "link_from q i = Null \<or> (\<exists>j. link_from q i = At j)"
  by (auto simp: link_from_def split: list.splits)


section \<open>The loops return\<close>

text \<open>The first level at or after \<open>i\<close> and below \<open>n\<close> that has an element.\<close>

definition first_level :: "nat \<Rightarrow> nat \<Rightarrow> 'a tql \<Rightarrow> nat option" where
  "first_level i n q = find (\<lambda>j. q_data q j \<noteq> []) [i..<n]"

lemma first_level_rec:
  "first_level i n q =
     (if n \<le> i then None else if q_data q i \<noteq> [] then Some i else first_level (Suc i) n q)"
  by (simp add: first_level_def upt_conv_Cons)

text \<open>
  Following the chain from the first linked level at or after \<open>i\<close> visits the levels up to \<open>n\<close>
  in order, provided the loop condition tells positions below \<open>n\<close> from the end of the walk.
\<close>

lemma first_from_link_from:
  assumes inv: "tql_inv q"
    and go: "\<And>j. j < NUM_QUEUES q \<Longrightarrow> go (At j) \<longleftrightarrow> j < n"
    and stop: "link_from q n = Null \<and> \<not> go Null \<or> linked q n"
    and n: "n \<le> NUM_QUEUES q"
  shows "NUM_QUEUES q - i < fuel \<Longrightarrow> i \<le> n \<Longrightarrow>
    first_from go fuel q (link_from q i) = Some (first_level i n q)"
proof (induction "n - i" arbitrary: i fuel)
  case 0
  then have i: "i = n" by simp
  from 0 obtain f where f: "fuel = Suc f" by (cases fuel) auto
  show ?case
    using stop by (auto simp: i f go first_level_rec link_from_linked linked_def)
next
  case (Suc d)
  then have lt: "i < n" by simp
  then have ltN: "i < NUM_QUEUES q" using n by simp
  have IH: "\<And>fuel'. NUM_QUEUES q - Suc i < fuel' \<Longrightarrow>
      first_from go fuel' q (link_from q (Suc i)) = Some (first_level (Suc i) n q)"
    using Suc lt by simp
  show ?case
  proof (cases "linked q i")
    case True
    from Suc.prems ltN obtain f where f: "fuel = Suc f" and f': "NUM_QUEUES q - Suc i < f"
      by (cases fuel) auto
    have "q_next q i = link_from q (Suc i)"
      using inv True ltN by (simp add: tql_inv_def)
    then show ?thesis
      using True lt ltN by (simp add: link_from_linked f go first_level_rec [of i] IH [OF f'])
  next
    case False
    then have "q_data q i = []" and "link_from q i = link_from q (Suc i)"
      using inv ltN by (auto simp: tql_inv_def link_from_rec [of q i])
    moreover have "NUM_QUEUES q - Suc i < fuel"
      using Suc.prems by simp
    ultimately show ?thesis
      using lt IH by (simp add: first_level_rec [of i])
  qed
qed

declare first_from.simps [simp del]

lemma link_from_end: "link_from q (NUM_QUEUES q) = Null"
  by (simp add: link_from_def)

lemma linked_bound: "linked q p \<Longrightarrow> p < NUM_QUEUES q"
  by (simp add: linked_def)

lemma unlinked_empty: "tql_inv q \<Longrightarrow> p < NUM_QUEUES q \<Longrightarrow> \<not> linked q p \<Longrightarrow> q_data q p = []"
  by (simp add: tql_inv_def)

text \<open>Levels that have an element are linked.\<close>

lemma nonempty_linked: "tql_inv q \<Longrightarrow> i < NUM_QUEUES q \<Longrightarrow> q_data q i \<noteq> [] \<Longrightarrow> linked q i"
  by (auto simp: tql_inv_def)

lemma first_level_le: "first_level i n q = Some j \<Longrightarrow> i \<le> j \<and> j < n \<and> q_data q j \<noteq> []"
  by (auto simp: first_level_def find_Some_iff)


section \<open>What the operations do\<close>

text \<open>
  \<open>get_first\<close> and \<open>pop_first\<close> take the head of the first level with an element, and
  \<open>pop_first_better\<close> looks at the levels above the given one only.  The latter needs its level to
  be linked: the loop would otherwise run past the end of the chain and compare the null pointer.
\<close>

lemma first_from_not_null:
  "tql_inv q \<Longrightarrow>
     first_from not_null (Suc (NUM_QUEUES q)) q (first_queue q) = Some (first_level 0 (NUM_QUEUES q) q)"
  using first_from_link_from [of q not_null "NUM_QUEUES q" 0 "Suc (NUM_QUEUES q)"]
  by (simp add: not_null_def link_from_end tql_inv_def)

lemma first_from_below:
  "tql_inv q \<Longrightarrow> linked q p \<Longrightarrow>
     first_from (below p) (Suc (NUM_QUEUES q)) q (first_queue q) = Some (first_level 0 p q)"
  using first_from_link_from [of q "below p" p 0 "Suc (NUM_QUEUES q)"]
  by (simp add: below_def tql_inv_def linked_def)

lemma get_first_eq:
  "tql_inv q \<Longrightarrow>
     get_first q = Some (map_option (\<lambda>i. hd (q_data q i)) (first_level 0 (NUM_QUEUES q) q))"
  by (simp add: get_first_def first_from_not_null map_option_case)

lemma pop_first_eq:
  "tql_inv q \<Longrightarrow> pop_first q = Some (pop_front_at q (first_level 0 (NUM_QUEUES q) q))"
  by (simp add: pop_first_def first_from_not_null)

lemma pop_first_better_eq:
  "tql_inv q \<Longrightarrow> linked q p \<Longrightarrow> pop_first_better p q = Some (pop_front_at q (first_level 0 p q))"
  by (simp add: pop_first_better_def first_from_below)

text \<open>Popping at a level that has an element.\<close>

lemma pop_front_at_inv [inv_intros]:
  assumes "tql_inv q" "n \<le> NUM_QUEUES q"
  shows "tql_inv (snd (pop_front_at q (first_level i n q)))"
  using assms
  by (auto simp: pop_front_at_def split: option.split
      intro!: tql_inv_set_data nonempty_linked dest!: first_level_le)

lemma pop_front_at_linked [simp]: "linked (snd (pop_front_at q r)) j = linked q j"
  by (simp add: pop_front_at_def split: option.split)

lemma pop_front_at_len [simp]: "NUM_QUEUES (snd (pop_front_at q r)) = NUM_QUEUES q"
  by (simp add: pop_front_at_def split: option.split)


subsection \<open>Linking a level\<close>

lemma set_next_simps [simp]:
  "NUM_QUEUES (set_next q i l) = NUM_QUEUES q"
  "first_queue (set_next q i l) = first_queue q"
  "q_data (set_next q i l) j = q_data q j"
  "i < NUM_QUEUES q \<Longrightarrow> q_next (set_next q i l) j = (if j = i then l else q_next q j)"
  by (cases "i < NUM_QUEUES q"; cases "i = j"; simp add: set_next_def list_update_beyond)+

lemma link_loop_frame [simp]:
  "NUM_QUEUES (link_loop p k q) = NUM_QUEUES q"
  "q_data (link_loop p k q) j = q_data q j"
  by (induction p k q rule: link_loop.induct) simp_all

lemma map_data_eqI:
  "NUM_QUEUES q' = NUM_QUEUES q \<Longrightarrow> (\<And>j. q_data q' j = q_data q j) \<Longrightarrow> levels q' = levels q"
  by (simp add: list_eq_iff_nth_eq levels_def)

lemma prepare_levels [simp, tq_simps]: "levels (prepare p q) = levels q"
  by (rule map_data_eqI) (simp_all add: prepare_def)

lemma prepare_len [simp]: "NUM_QUEUES (prepare p q) = NUM_QUEUES q"
  by (simp add: prepare_def)

lemma prepare_data [simp]: "q_data (prepare p q) j = q_data q j"
  by (simp add: prepare_def)

text \<open>
  The loop finds the nearest linked level before \<open>priority\<close>, or none; in both cases the new level
  takes over the successor and becomes the successor of its predecessor.
\<close>

lemma link_loop_spec:
  "\<lbrakk>k \<le> p; p < NUM_QUEUES q\<rbrakk> \<Longrightarrow>
   (\<exists>i < k. linked q i \<and> (\<forall>j. i < j \<and> j < k \<longrightarrow> \<not> linked q j) \<and>
      link_loop p k q = set_next (set_next q p (q_next q i)) i (At p)) \<or>
   (\<forall>j < k. \<not> linked q j) \<and>
      link_loop p k q = (set_next q p (first_queue q))\<lparr>first_queue := At p\<rparr>"
proof (induction p k q rule: link_loop.induct)
  case (1 priority q)
  then show ?case by simp
next
  case (2 priority i q)
  show ?case
  proof (cases "q_next q i = Unlinked")
    case False
    then have "linked q i"
      using 2 by (simp add: linked_def)
    with False show ?thesis
      by (intro disjI1 exI [of _ i]) auto
  next
    case True
    then have nl: "\<not> linked q i"
      by (simp add: linked_def)
    from 2 True show ?thesis
      using nl by (auto simp: less_Suc_eq)
  qed
qed

lemma link_from_skip:
  "\<lbrakk>i \<le> j; \<forall>k. i \<le> k \<and> k < j \<longrightarrow> \<not> linked q k; j \<le> NUM_QUEUES q\<rbrakk> \<Longrightarrow> link_from q i = link_from q j"
proof (induction "j - i" arbitrary: i)
  case 0
  then show ?case by simp
next
  case (Suc d)
  from Suc.prems Suc.hyps(2) have "\<not> linked q i" "i < NUM_QUEUES q"
    by auto
  then have "link_from q i = link_from q (Suc i)"
    by (subst link_from_rec) simp
  also have "\<dots> = link_from q j"
    by (rule Suc.hyps) (use Suc in auto)
  finally show ?case .
qed

text \<open>The chain after one more level \<open>p\<close> is linked, read off the old one.\<close>

lemma link_from_insert:
  assumes l: "\<And>j. linked q' j \<longleftrightarrow> linked q j \<or> j = p"
    and len: "NUM_QUEUES q' = NUM_QUEUES q" and p: "p < NUM_QUEUES q"
  shows "link_from q' i =
    (if i \<le> p \<and> (\<forall>k. i \<le> k \<and> k < p \<longrightarrow> \<not> linked q k) then At p else link_from q i)"
proof (induction "NUM_QUEUES q - i" arbitrary: i)
  case 0
  then show ?case
    using len p by (simp add: link_from_rec [of q'] link_from_rec [of q])
next
  case (Suc d)
  have IH: "link_from q' (Suc i) =
    (if Suc i \<le> p \<and> (\<forall>k. Suc i \<le> k \<and> k < p \<longrightarrow> \<not> linked q k) then At p else link_from q (Suc i))"
    by (rule Suc.hyps) (use Suc in simp)
  have lt: "i < NUM_QUEUES q"
    using Suc(2) by simp
  have here: "link_from q' i = (if linked q i \<or> i = p then At i else link_from q' (Suc i))"
    using lt by (subst link_from_rec) (simp add: len l)
  have old: "link_from q i = (if linked q i then At i else link_from q (Suc i))"
    using lt by (subst link_from_rec) simp
  have gap: "\<not> linked q i \<Longrightarrow>
      (\<forall>k. i \<le> k \<and> k < p \<longrightarrow> \<not> linked q k) \<longleftrightarrow> (\<forall>k. Suc i \<le> k \<and> k < p \<longrightarrow> \<not> linked q k)"
    by (metis Suc_leD Suc_leI le_neq_implies_less)
  consider "linked q i" "i < p" | "linked q i" "i = p" | "linked q i" "p < i"
    | "\<not> linked q i" "i = p" | "\<not> linked q i" "i < p" | "\<not> linked q i" "p < i"
    by linarith
  then show ?case
  proof cases
    case 2
    with here show ?thesis by auto
  next
    case 4
    with here show ?thesis by auto
  next
    case 5
    then show ?thesis using gap by (auto simp: here old IH)
  qed (auto simp: here old IH)
qed

lemma link_from_not_Unlinked [simp]: "link_from q i \<noteq> Unlinked"
  by (auto simp: link_from_def split: list.splits)


lemma link_new_level:
  assumes inv: "tql_inv q" and p: "p < NUM_QUEUES q" and new: "\<not> linked q p"
  shows "tql_inv (link_loop p p q) \<and> (\<forall>j. linked (link_loop p p q) j \<longleftrightarrow> linked q j \<or> j = p)"
  using link_loop_spec [of p p q, OF order_refl p]
proof (elim disjE exE conjE)
  fix i
  assume i: "i < p" "linked q i" and gap: "\<forall>j. i < j \<and> j < p \<longrightarrow> \<not> linked q j"
    and eq: "link_loop p p q = set_next (set_next q p (q_next q i)) i (At p)"
  let ?q = "set_next (set_next q p (q_next q i)) i (At p)"
  from i have iN: "i < NUM_QUEUES q" by (simp add: linked_def)
  have l: "linked ?q j \<longleftrightarrow> linked q j \<or> j = p" for j
    using i p iN by (auto simp: linked_def)
  have f: "link_from ?q k =
      (if k \<le> p \<and> (\<forall>m. k \<le> m \<and> m < p \<longrightarrow> \<not> linked q m) then At p else link_from q k)" for k
    by (rule link_from_insert) (use l p in auto)
  have nx: "q_next q i = link_from q (Suc p)"
  proof -
    have "q_next q i = link_from q (Suc i)"
      using inv i iN by (simp add: tql_inv_def)
    also have "\<dots> = link_from q (Suc p)"
      by (rule link_from_skip) (use gap i p new in \<open>auto simp: less_Suc_eq\<close>)
    finally show ?thesis .
  qed
  have before: "k = i" if "linked q k" "Suc k \<le> p" "\<forall>m. Suc k \<le> m \<and> m < p \<longrightarrow> \<not> linked q m" for k
    using that gap i by (metis Suc_leI Suc_le_eq linorder_neqE_nat)
  have "tql_inv ?q"
    unfolding tql_inv_def f l
    using inv i iN p gap new nx by (auto simp: tql_inv_def less_Suc_eq dest: before)
  with l show ?thesis by (simp add: eq)
next
  assume none: "\<forall>j < p. \<not> linked q j"
    and eq: "link_loop p p q = (set_next q p (first_queue q))\<lparr>first_queue := At p\<rparr>"
  let ?q = "(set_next q p (first_queue q))\<lparr>first_queue := At p\<rparr>"
  have fq: "first_queue q = link_from q (Suc p)"
  proof -
    have "first_queue q = link_from q 0"
      using inv by (simp add: tql_inv_def)
    also have "\<dots> = link_from q (Suc p)"
      by (rule link_from_skip) (use none p new in \<open>auto simp: less_Suc_eq\<close>)
    finally show ?thesis .
  qed
  have l: "linked ?q j \<longleftrightarrow> linked q j \<or> j = p" for j
    using p fq by (auto simp: linked_def set_next_def nth_list_update)
  have f: "link_from ?q k =
      (if k \<le> p \<and> (\<forall>m. k \<le> m \<and> m < p \<longrightarrow> \<not> linked q m) then At p else link_from q k)" for k
    by (rule link_from_insert) (use l p in \<open>auto simp: set_next_def\<close>)
  have "tql_inv ?q"
    unfolding tql_inv_def f l
    using inv p none new fq
    by (auto simp: tql_inv_def set_next_def nth_list_update)
  with l show ?thesis by (simp add: eq)
qed

lemma prepare_inv [inv_intros]: "tql_inv q \<Longrightarrow> p < NUM_QUEUES q \<Longrightarrow> tql_inv (prepare p q)"
  using link_new_level [of q p] by (auto simp: prepare_def linked_def)

lemma prepare_linked: "tql_inv q \<Longrightarrow> p < NUM_QUEUES q \<Longrightarrow> linked (prepare p q) j \<longleftrightarrow> linked q j \<or> j = p"
  using link_new_level [of q p] by (auto simp: prepare_def linked_def)


lemma tql_inv_new: "tql_inv (ThreadQueueList N)"
  by (auto simp: tql_inv_def ThreadQueueList_def linked_def link_from_def empty_queue_def)

lemma push_back_inv [inv_intros]: "tql_inv q \<Longrightarrow> linked q p \<Longrightarrow> tql_inv (push_back p t q)"
  by (simp add: push_back_def tql_inv_set_data)

lemma push_front_inv [inv_intros]: "tql_inv q \<Longrightarrow> linked q p \<Longrightarrow> tql_inv (push_front p t q)"
  by (simp add: push_front_def tql_inv_set_data)

lemma remove_inv [inv_intros]: "tql_inv q \<Longrightarrow> p < NUM_QUEUES q \<Longrightarrow> tql_inv (tql_remove p t q)"
  by (auto simp: tql_remove_def tql_inv_def linked_def)

lemma rotate_inv [inv_intros]: "tql_inv q \<Longrightarrow> linked q p \<Longrightarrow> tql_inv (tql_rotate p q)"
  by (auto simp: tql_rotate_def split: list.split intro!: tql_inv_set_data)

lemma clear_inv [inv_intros]: "tql_inv (tql_clear q)"
  by (simp add: tql_clear_def tql_inv_new)

lemma ops_len [simp]:
  "NUM_QUEUES (push_back p t q) = NUM_QUEUES q"
  "NUM_QUEUES (push_front p t q) = NUM_QUEUES q"
  "NUM_QUEUES (tql_remove p t q) = NUM_QUEUES q"
  "NUM_QUEUES (tql_rotate p q) = NUM_QUEUES q"
  by (simp_all add: push_back_def push_front_def tql_remove_def tql_rotate_def split: list.split)

lemma ops_linked [simp]:
  "linked (push_back p t q) j = linked q j"
  "linked (push_front p t q) j = linked q j"
  "linked (tql_remove p t q) j = linked q j"
  by (simp_all add: push_back_def push_front_def tql_remove_def)

lemma ops_data [tq_simps]:
  "p < NUM_QUEUES q \<Longrightarrow> q_data (push_back p t q) j = (if j = p then q_data q p @ [t] else q_data q j)"
  "p < NUM_QUEUES q \<Longrightarrow> q_data (push_front p t q) j = (if j = p then t # q_data q p else q_data q j)"
  "p < NUM_QUEUES q \<Longrightarrow>
     q_data (tql_remove p t q) j = (if j = p then removeAll t (q_data q p) else q_data q j)"
  by (simp_all add: push_back_def push_front_def tql_remove_def)

lemma move_inv [inv_intros]:
  "tql_inv q \<Longrightarrow> old < NUM_QUEUES q \<Longrightarrow> new < NUM_QUEUES q \<Longrightarrow> tql_inv (tql_move t old new q)"
  unfolding tql_move_def
  by (intro push_back_inv prepare_inv) (simp_all add: remove_inv prepare_linked)

lemma move_linked:
  "tql_inv q \<Longrightarrow> old < NUM_QUEUES q \<Longrightarrow> new < NUM_QUEUES q \<Longrightarrow>
     linked (tql_move t old new q) j \<longleftrightarrow> linked q j \<or> j = new"
  by (simp add: tql_move_def prepare_linked remove_inv)

lemma move_len [simp]: "NUM_QUEUES (tql_move t old new q) = NUM_QUEUES q"
  by (simp add: tql_move_def)

lemma move_data [tq_simps]:
  "old < NUM_QUEUES q \<Longrightarrow> new < NUM_QUEUES q \<Longrightarrow>
     q_data (tql_move t old new q) j =
       (let rest = (if j = old then removeAll t (q_data q j) else q_data q j)
        in if j = new then rest @ [t] else rest)"
  by (simp add: tql_move_def ops_data Let_def)


section \<open>The interface of a ready queue\<close>

text \<open>
  What a scheduler relies on: a state with an invariant, for every priority level the threads
  queued there, the set of levels that were prepared, and operations that act on the levels as
  their names say.  The client facts below follow from these laws alone.
\<close>

locale ready_queue =
  fixes inv :: "'q \<Rightarrow> bool"
    and size_of :: "'q \<Rightarrow> nat"
    and level :: "'q \<Rightarrow> nat \<Rightarrow> 'a list"
    and ready :: "'q \<Rightarrow> nat \<Rightarrow> bool"
    and pop :: "'q \<Rightarrow> ('a option \<times> 'q) option"
    and pop_better :: "nat \<Rightarrow> 'q \<Rightarrow> ('a option \<times> 'q) option"
    and push :: "nat \<Rightarrow> 'a \<Rightarrow> 'q \<Rightarrow> 'q"
    and prep :: "nat \<Rightarrow> 'q \<Rightarrow> 'q"
  assumes ready_bound: "ready q p \<Longrightarrow> p < size_of q"
    and unready_empty: "inv q \<Longrightarrow> p < size_of q \<Longrightarrow> \<not> ready q p \<Longrightarrow> level q p = []"
    and pop_law: "inv q \<Longrightarrow> \<exists>r q'. pop q = Some (r, q') \<and> inv q' \<and> size_of q' = size_of q \<and>
          (\<forall>p. ready q' p = ready q p) \<and>
          (case r of
             None \<Rightarrow> q' = q \<and> (\<forall>p < size_of q. level q p = [])
           | Some x \<Rightarrow> \<exists>p < size_of q. (\<forall>k < p. level q k = []) \<and> level q p = x # level q' p \<and>
               (\<forall>k. k \<noteq> p \<longrightarrow> level q' k = level q k))"
    and pop_better_law: "inv q \<Longrightarrow> ready q b \<Longrightarrow>
          \<exists>r q'. pop_better b q = Some (r, q') \<and> inv q' \<and> size_of q' = size_of q \<and>
          (\<forall>p. ready q' p = ready q p) \<and>
          (case r of
             None \<Rightarrow> q' = q \<and> (\<forall>p < b. level q p = [])
           | Some x \<Rightarrow> \<exists>p < b. (\<forall>k < p. level q k = []) \<and> level q p = x # level q' p \<and>
               (\<forall>k. k \<noteq> p \<longrightarrow> level q' k = level q k))"
    and push_law: "inv q \<Longrightarrow> ready q p \<Longrightarrow> inv (push p x q) \<and> size_of (push p x q) = size_of q \<and>
          (\<forall>k. ready (push p x q) k = ready q k) \<and> level (push p x q) p = level q p @ [x] \<and>
          (\<forall>k. k \<noteq> p \<longrightarrow> level (push p x q) k = level q k)"
    and prep_law: "inv q \<Longrightarrow> p < size_of q \<Longrightarrow> inv (prep p q) \<and> size_of (prep p q) = size_of q \<and>
          (\<forall>k. ready (prep p q) k = (ready q k \<or> k = p)) \<and> (\<forall>k. level (prep p q) k = level q k)"
begin

definition members :: "'q \<Rightarrow> 'a set" where
  "members q = (\<Union>p < size_of q. set (level q p))"

text \<open>Nothing is lost: a push at a prepared level adds one member, and a later pop finds one.\<close>

lemma members_push: "inv q \<Longrightarrow> ready q p \<Longrightarrow> members (push p x q) = insert x (members q)"
proof -
  assume a: "inv q" "ready q p"
  note law = push_law [OF a, of x]
  have "p < size_of q" by (rule ready_bound [OF a(2)])
  then have "members (push p x q) =
      (\<Union>k < size_of q. set (level q k) \<union> (if k = p then {x} else {}))"
    unfolding members_def using law by (intro SUP_cong) auto
  also have "\<dots> = insert x (members q)"
    using \<open>p < size_of q\<close> by (auto simp: members_def split: if_splits)
  finally show ?thesis .
qed

lemma pop_finds:
  assumes "inv q" "members q \<noteq> {}"
  shows "\<exists>x q'. pop q = Some (Some x, q') \<and> x \<in> members q"
proof -
  from pop_law [OF assms(1)] obtain r q' where p: "pop q = Some (r, q')"
    and c: "case r of None \<Rightarrow> q' = q \<and> (\<forall>p < size_of q. level q p = [])
      | Some x \<Rightarrow> \<exists>p < size_of q. (\<forall>k < p. level q k = []) \<and> level q p = x # level q' p \<and>
          (\<forall>k. k \<noteq> p \<longrightarrow> level q' k = level q k)"
    by blast
  show ?thesis
  proof (cases r)
    case None
    with c assms(2) show ?thesis by (auto simp: members_def)
  next
    case (Some x)
    with c obtain k where "k < size_of q" "level q k = x # level q' k" by auto
    then have "x \<in> members q" by (force simp: members_def)
    with p Some show ?thesis by blast
  qed
qed

text \<open>The element a pop returns is queued at a level no other element is ahead of.\<close>

lemma pop_most_urgent:
  assumes "inv q" "pop q = Some (Some x, q')" "y \<in> set (level q k)" "k < size_of q"
  shows "\<exists>p \<le> k. x \<in> set (level q p)"
proof -
  from pop_law [OF assms(1)] assms(2) obtain p where
    "\<forall>k < p. level q k = []" "level q p = x # level q' p"
    by auto
  with assms(3) show ?thesis
    by (intro exI [of _ p]) (metis empty_iff empty_set leI list.set_intros(1))
qed

end

lemma pop_at_law:
  assumes inv: "tql_inv q" and n: "n \<le> NUM_QUEUES q"
  shows "case pop_front_at q (first_level 0 n q) of (r, q') \<Rightarrow>
    tql_inv q' \<and> NUM_QUEUES q' = NUM_QUEUES q \<and> (\<forall>p. linked q' p = linked q p) \<and>
    (case r of
       None \<Rightarrow> q' = q \<and> (\<forall>p < n. q_data q p = [])
     | Some x \<Rightarrow> \<exists>p < n. (\<forall>k < p. q_data q k = []) \<and> q_data q p = x # q_data q' p \<and>
         (\<forall>k. k \<noteq> p \<longrightarrow> q_data q' k = q_data q k))"
proof (cases "first_level 0 n q")
  case None
  then have "\<forall>k < n. q_data q k = []"
    by (auto simp: first_level_def find_None_iff)
  with None inv show ?thesis by (simp add: pop_front_at_def)
next
  case (Some i)
  then have i: "i < n" "q_data q i \<noteq> []" "\<forall>k < i. q_data q k = []"
    by (auto simp: first_level_def find_Some_iff)
  then have "linked q i"
    using n inv by (auto intro: nonempty_linked)
  with Some i n inv show ?thesis
    by (auto simp: pop_front_at_def tql_inv_set_data intro!: exI [of _ i])
qed

interpretation tq: ready_queue tql_inv "\<lambda>q. NUM_QUEUES q" "\<lambda>q i. q_data q i" linked
  pop_first pop_first_better push_back prepare
proof unfold_locales
  fix q :: "'a tql" and p
  assume "tql_inv q"
  from pop_at_law [OF this order_refl] show "\<exists>r q'. pop_first q = Some (r, q') \<and> tql_inv q' \<and>
      NUM_QUEUES q' = NUM_QUEUES q \<and> (\<forall>p. linked q' p = linked q p) \<and>
      (case r of None \<Rightarrow> q' = q \<and> (\<forall>p < NUM_QUEUES q. q_data q p = [])
       | Some x \<Rightarrow> \<exists>p < NUM_QUEUES q. (\<forall>k < p. q_data q k = []) \<and> q_data q p = x # q_data q' p \<and>
           (\<forall>k. k \<noteq> p \<longrightarrow> q_data q' k = q_data q k))"
    by (simp add: pop_first_eq [OF \<open>tql_inv q\<close>] split: prod.splits)
next
  fix q :: "'a tql" and b
  assume a: "tql_inv q" "linked q b"
  then have "b \<le> NUM_QUEUES q" by (simp add: linked_def)
  from pop_at_law [OF a(1) this] show "\<exists>r q'. pop_first_better b q = Some (r, q') \<and> tql_inv q' \<and>
      NUM_QUEUES q' = NUM_QUEUES q \<and> (\<forall>p. linked q' p = linked q p) \<and>
      (case r of None \<Rightarrow> q' = q \<and> (\<forall>p < b. q_data q p = [])
       | Some x \<Rightarrow> \<exists>p < b. (\<forall>k < p. q_data q k = []) \<and> q_data q p = x # q_data q' p \<and>
           (\<forall>k. k \<noteq> p \<longrightarrow> q_data q' k = q_data q k))"
    by (simp add: pop_first_better_eq [OF a] split: prod.splits)
qed (auto simp: push_back_inv ops_data prepare_inv prepare_linked linked_bound unlinked_empty)



section \<open>Properties\<close>

text \<open>C16: Every operation of the ready queue keeps its chain well formed: the chain holds exactly
  the levels that were prepared, in increasing order, and no element sits in a level outside the
  chain.  Preparing a level, removing a thread from one and moving a thread between two need nothing of their levels, and
  \<open>pop_first\<close> always returns.  The pushes, \<open>rotate\<close> and \<open>pop_first_better\<close> need their level to be prepared, which \<open>SetPriority\<close>, \<open>BoostPriority\<close>
  and \<open>CreateThread\<close> see to; then \<open>pop_first_better\<close> returns too.  On a level that was never prepared it need not.\<close>
theorem thread_queue_invariant:
  fixes q :: "'a tql"
  assumes "tql_inv q" and "p < NUM_QUEUES q" and "p' < NUM_QUEUES q"
  shows "tql_inv (ThreadQueueList n :: 'a tql) \<and> tql_inv (prepare p q) \<and> (\<forall>j. linked (prepare p q) j \<longleftrightarrow> linked q j \<or> j = p) \<and>
    tql_inv (tql_remove p t q) \<and> tql_inv (tql_move t p p' q) \<and>
    (\<exists>r q'. pop_first q = Some (r, q') \<and> tql_inv q') \<and>
    (linked q p \<longrightarrow> tql_inv (push_back p t q) \<and> tql_inv (push_front p t q) \<and> tql_inv (tql_rotate p q) \<and>
       (\<exists>r q'. pop_first_better p q = Some (r, q') \<and> tql_inv q'))"
proof -
  have "\<exists>r q'. pop_first q = Some (r, q') \<and> tql_inv q'"
    using tq.pop_law [OF assms(1)] by blast
  moreover have "\<exists>r q'. pop_first_better p q = Some (r, q') \<and> tql_inv q'" if "linked q p"
    using tq.pop_better_law [OF assms(1) that] by blast
  ultimately show ?thesis
    using assms
    by (simp add: tql_inv_new push_back_inv push_front_inv rotate_inv remove_inv move_inv prepare_inv prepare_linked)
qed

theorem thread_queue_invariant_witness:
  "tql_inv (tql_move (7::nat) 1 0 (ThreadQueueList 3)) \<and> tql_inv (push_back 1 (7::nat) (prepare 1 (ThreadQueueList 3))) \<and>
   (\<exists>r q'. pop_first_better 1 (prepare 1 (ThreadQueueList 3 :: nat tql)) = Some (r, q') \<and> tql_inv q')"
proof -
  have q: "tql_inv (ThreadQueueList 3 :: nat tql)" "NUM_QUEUES (ThreadQueueList 3 :: nat tql) = 3"
    by (simp add: tql_inv_new) (simp add: ThreadQueueList_def)
  then have i: "tql_inv (tql_move (7::nat) 1 0 (ThreadQueueList 3))" "tql_inv (prepare 1 (ThreadQueueList 3 :: nat tql))"
    "linked (prepare 1 (ThreadQueueList 3 :: nat tql)) 1"
    using thread_queue_invariant [of "ThreadQueueList 3 :: nat tql" 1 0 3 7] by auto
  then show ?thesis
    using thread_queue_invariant [of "prepare 1 (ThreadQueueList 3 :: nat tql)" 1 0 3 7] q(2) by auto
qed

text \<open>\<open>pop_first\<close> always returns: with the head of the most urgent level that holds a thread,
  which it removes there and nowhere else, or with the null pointer when no level holds one.\<close>
theorem pop_first_most_urgent:
  assumes "tql_inv q"
  shows "\<exists>r q'. pop_first q = Some (r, q') \<and>
    (case r of
       None \<Rightarrow> q' = q \<and> contents q = []
     | Some x \<Rightarrow> \<exists>p < NUM_QUEUES q. (\<forall>k < p. q_data q k = []) \<and> q_data q p = x # q_data q' p \<and>
         (\<forall>k. k \<noteq> p \<longrightarrow> q_data q' k = q_data q k))"
proof -
  have "contents q = []" if "\<forall>p < NUM_QUEUES q. q_data q p = []"
    using that by (auto simp: contents_def levels_def in_set_conv_nth)
  then show ?thesis
    using tq.pop_law [OF assms] by (fastforce split: option.splits)
qed

theorem pop_first_most_urgent_witness:
  "pop_first (push_back 1 (9::nat) (prepare 1 (ThreadQueueList 3))) \<noteq> None"
proof -
  have "NUM_QUEUES (ThreadQueueList 3 :: nat tql) = 3"
    by (simp add: ThreadQueueList_def)
  then have "tql_inv (push_back 1 (9::nat) (prepare 1 (ThreadQueueList 3)))"
    by (simp add: push_back_inv prepare_inv prepare_linked tql_inv_new)
  from pop_first_most_urgent [OF this] show ?thesis by auto
qed

text \<open>\<open>pop_first_better\<close> at a linked level returns a thread of a strictly more urgent level, the
  first such, or the null pointer when every more urgent level is empty; in both cases it returns.
  At a level that was never linked, with nothing queued ahead and no linked level behind, the loop
  compares and dereferences the null pointer.\<close>
theorem pop_first_better_strict:
  assumes "tql_inv q"
  shows "(linked q b \<longrightarrow> (\<exists>r q'. pop_first_better b q = Some (r, q') \<and> tql_inv q' \<and>
      NUM_QUEUES q' = NUM_QUEUES q \<and> (\<forall>p. linked q' p = linked q p) \<and>
      (case r of
         None \<Rightarrow> q' = q \<and> (\<forall>p < b. q_data q p = [])
       | Some x \<Rightarrow> \<exists>p < b. (\<forall>k < p. q_data q k = []) \<and> q_data q p = x # q_data q' p \<and>
           (\<forall>k. k \<noteq> p \<longrightarrow> q_data q' k = q_data q k)))) \<and>
    ((\<forall>p < NUM_QUEUES q. \<not> linked q p) \<longrightarrow> pop_first_better b q = None)"
proof (intro conjI impI)
  assume "\<forall>p < NUM_QUEUES q. \<not> linked q p"
  then have "first_queue q = Null"
    using assms by (auto simp: tql_inv_def link_from_def filter_empty_conv split: list.splits)
  then show "pop_first_better b q = None"
    by (simp add: pop_first_better_def first_from.simps below_def)
qed (rule tq.pop_better_law [OF assms])

theorem pop_first_better_strict_witness:
  "pop_first_better 2 (ThreadQueueList 3 :: nat tql) = None"
proof -
  have "\<forall>p < NUM_QUEUES (ThreadQueueList 3 :: nat tql). \<not> linked (ThreadQueueList 3 :: nat tql) p"
    by (simp add: ThreadQueueList_def linked_def empty_queue_def)
  with pop_first_better_strict [OF tql_inv_new, of 3 2] show ?thesis by blast
qed

text \<open>Saving the queue list to an archive and loading it gives back the same chain and the same
  contents, whatever the pointers are.\<close>
theorem thread_queue_save_load: "tql_load (tql_save q) = (q :: 'a tql)"
proof -
  have ptr: "ToPointer (ToIndex l) = l" for l
    by (cases l) (simp_all add: ToPointer_def)
  then have "map (\<lambda>c. \<lparr>next_nonempty = ToPointer (ToIndex (next_nonempty c)), data = data c\<rparr>) (queues q)
      = queues q"
    by (intro map_idI) simp
  then show ?thesis
    by (simp add: tql_load_def tql_save_def ptr comp_def)
qed

text \<open>Moving a thread from one level to another leaves exactly one copy of it, at the back of the
  new level, and keeps every other thread where and in the order it was.\<close>
theorem thread_queue_move:
  assumes "old < NUM_QUEUES q" and "new < NUM_QUEUES q" and "j < NUM_QUEUES q"
    and "\<And>k. k < NUM_QUEUES q \<Longrightarrow> t \<in> set (q_data q k) \<Longrightarrow> k = old"
  shows "q_data (tql_move t old new q) j =
    removeAll t (q_data q j) @ (if j = new then [t] else [])"
proof (cases "j = old")
  case True
  with assms show ?thesis by (simp add: move_data Let_def)
next
  case False
  with assms have "removeAll t (q_data q j) = q_data q j"
    by (metis removeAll_id)
  with assms False show ?thesis by (simp add: move_data Let_def)
qed

theorem thread_queue_move_witness:
  "q_data (tql_move (5::nat) 0 1 (set_data (ThreadQueueList 3) 0 [4, 5])) 1 = [5]"
proof -
  let ?q = "set_data (ThreadQueueList 3) 0 [4, 5::nat]"
  have n: "NUM_QUEUES (ThreadQueueList 3 :: nat tql) = 3" by (simp add: ThreadQueueList_def)
  then have "queues (ThreadQueueList 3 :: nat tql) \<noteq> []" by auto
  moreover have "q_data (ThreadQueueList 3 :: nat tql) (Suc 0) = []"
    by (simp add: ThreadQueueList_def empty_queue_def)
  moreover have "q_data ?q k = (if k = 0 then [4, 5] else [])" if "k < 3" for k
    using that by (subst set_data_simps(3)) (simp_all add: ThreadQueueList_def empty_queue_def)
  ultimately show ?thesis
    by (subst thread_queue_move) (simp_all add: n split: if_splits)
qed

end
