(* ===== verification/Resource_Limits.thy ===== *)
theory Resource_Limits
  imports Prelude
begin

text \<open>
  Resource limits of the kernel, \<^verbatim>\<open>core/hle/kernel/resource_limit.h\<close> and
  \<^verbatim>\<open>resource_limit.cpp\<close>: the accounting object with its two arrays of ten signed 32-bit
  counters, and the table of limits of the four process categories.  A resource type reaches the
  accounting object as the number the enumeration casts to; the arrays have ten elements, so
  an operation at a number outside the enumeration is \<open>None\<close>.
\<close>

section \<open>Data\<close>

datatype ResourceLimitCategory = Application | SysApplet | LibApplet | Other

primrec category_index :: "ResourceLimitCategory \<Rightarrow> nat" where
  "category_index Application = 0"
| "category_index SysApplet = 1"
| "category_index LibApplet = 2"
| "category_index Other = 3"

datatype ResourceLimitType =
    RPriority | RCommit | RThread | REvent | RMutex | RSemaphore | RTimer | RSharedMemory
  | RAddressArbiter | RCpuTime | RMax

primrec type_index :: "ResourceLimitType \<Rightarrow> nat" where
  "type_index RPriority = 0"
| "type_index RCommit = 1"
| "type_index RThread = 2"
| "type_index REvent = 3"
| "type_index RMutex = 4"
| "type_index RSemaphore = 5"
| "type_index RTimer = 6"
| "type_index RSharedMemory = 7"
| "type_index RAddressArbiter = 8"
| "type_index RCpuTime = 9"
| "type_index RMax = 10"

record ResourceLimit =
  m_limit_values :: "int list"
  m_current_values :: "int list"
  m_name :: string


section \<open>Operations\<close>

definition ResourceLimit_Create :: "string \<Rightarrow> ResourceLimit" where
  "ResourceLimit_Create name =
     \<lparr>m_limit_values = replicate (type_index RMax) 0,
      m_current_values = replicate (type_index RMax) 0, m_name = name\<rparr>"

definition GetCurrentValue :: "ResourceLimit \<Rightarrow> nat \<Rightarrow> int option" where
  "GetCurrentValue r index =
     (if index < length (m_current_values r) then Some (m_current_values r ! index) else None)"

definition GetLimitValue :: "ResourceLimit \<Rightarrow> nat \<Rightarrow> int option" where
  "GetLimitValue r index =
     (if index < length (m_limit_values r) then Some (m_limit_values r ! index) else None)"

definition SetLimitValue :: "nat \<Rightarrow> int \<Rightarrow> ResourceLimit \<Rightarrow> ResourceLimit option" where
  "SetLimitValue index value r =
     (if index < length (m_limit_values r)
      then Some (r\<lparr>m_limit_values := (m_limit_values r)[index := value]\<rparr>) else None)"

definition Reserve :: "nat \<Rightarrow> int \<Rightarrow> ResourceLimit \<Rightarrow> (bool \<times> ResourceLimit) option" where
  "Reserve index amount r = do {
     limit \<leftarrow> GetLimitValue r index;
     current \<leftarrow> GetCurrentValue r index;
     let new_value = wrap_s32 (current + amount);
     if new_value > limit then Some (False, r)
     else Some (True, r\<lparr>m_current_values := (m_current_values r)[index := new_value]\<rparr>)
   }"

definition Release :: "nat \<Rightarrow> int \<Rightarrow> ResourceLimit \<Rightarrow> (bool \<times> ResourceLimit) option" where
  "Release index amount r = do {
     value \<leftarrow> GetCurrentValue r index;
     if amount > value then Some (False, r)
     else Some (True, r\<lparr>m_current_values :=
                          (m_current_values r)[index := wrap_s32 (value - amount)]\<rparr>)
   }"

text \<open>
  The constructor of \<^verbatim>\<open>ResourceLimitList\<close> sets the ten limits of each category in the order of
  the enumeration; the commit limit of applications is the size of their memory region, an
  unsigned 32-bit number converted to \<^verbatim>\<open>s32\<close>.
\<close>

fun set_limits :: "(ResourceLimitType \<times> int) list \<Rightarrow> ResourceLimit \<Rightarrow> ResourceLimit option" where
  "set_limits [] r = Some r"
| "set_limits ((t, v) # tvs) r = Option.bind (SetLimitValue (type_index t) v r) (set_limits tvs)"

definition application_limits :: "nat \<Rightarrow> (ResourceLimitType \<times> int) list" where
  "application_limits app_size =
     [(RPriority, 0x18), (RCommit, wrap_s32 (int app_size)), (RThread, 0x20), (REvent, 0x20),
      (RMutex, 0x20), (RSemaphore, 0x8), (RTimer, 0x8), (RSharedMemory, 0x10),
      (RAddressArbiter, 0x2), (RCpuTime, 0x0)]"

definition sysapplet_limits :: "bool \<Rightarrow> (ResourceLimitType \<times> int) list" where
  "sysapplet_limits is_new_3ds =
     [(RPriority, 0x4), (RCommit, if is_new_3ds then 0x5E06000 else 0x2606000),
      (RThread, if is_new_3ds then 0x1D else 0xE), (REvent, if is_new_3ds then 0xB else 0x8),
      (RMutex, 0x8), (RSemaphore, 0x4), (RTimer, 0x4), (RSharedMemory, 0x8),
      (RAddressArbiter, 0x3), (RCpuTime, 0x2710)]"

definition libapplet_limits :: "(ResourceLimitType \<times> int) list" where
  "libapplet_limits =
     [(RPriority, 0x4), (RCommit, 0x602000), (RThread, 0xE), (REvent, 0x8), (RMutex, 0x8),
      (RSemaphore, 0x4), (RTimer, 0x4), (RSharedMemory, 0x8), (RAddressArbiter, 0x1),
      (RCpuTime, 0x2710)]"

definition other_limits :: "bool \<Rightarrow> (ResourceLimitType \<times> int) list" where
  "other_limits is_new_3ds =
     [(RPriority, 0x4), (RCommit, if is_new_3ds then 0x2182000 else 0x1682000),
      (RThread, if is_new_3ds then 0xE1 else 0xCA), (REvent, if is_new_3ds then 0x108 else 0xF8),
      (RMutex, if is_new_3ds then 0x25 else 0x23), (RSemaphore, if is_new_3ds then 0x43 else 0x40),
      (RTimer, if is_new_3ds then 0x2C else 0x2B),
      (RSharedMemory, if is_new_3ds then 0x1F else 0x1E),
      (RAddressArbiter, if is_new_3ds then 0x2D else 0x2B), (RCpuTime, 0x3E8)]"

definition ResourceLimitList :: "bool \<Rightarrow> nat \<Rightarrow> ResourceLimit list option" where
  "ResourceLimitList is_new_3ds app_size = do {
     app \<leftarrow> set_limits (application_limits app_size) (ResourceLimit_Create ''Applications'');
     sys \<leftarrow> set_limits (sysapplet_limits is_new_3ds) (ResourceLimit_Create ''System Applets'');
     lib \<leftarrow> set_limits libapplet_limits (ResourceLimit_Create ''Library Applets'');
     oth \<leftarrow> set_limits (other_limits is_new_3ds) (ResourceLimit_Create ''Others'');
     Some [app, sys, lib, oth]
   }"

definition GetForCategory :: "ResourceLimit list \<Rightarrow> ResourceLimitCategory \<Rightarrow> ResourceLimit" where
  "GetForCategory limits category = limits ! category_index category"


section \<open>The accounting contract\<close>

text \<open>
  What a client of an accounting object may rely on, over any implementation: a ledger with a
  balance and a cap per account, where a granted reservation adds, a granted release subtracts,
  and a refusal changes nothing.
\<close>

locale ledger =
  fixes balance :: "'r \<Rightarrow> nat \<Rightarrow> int" and cap :: "'r \<Rightarrow> nat \<Rightarrow> int"
    and reserve release :: "nat \<Rightarrow> int \<Rightarrow> 'r \<Rightarrow> (bool \<times> 'r) option"
    and valid :: "'r \<Rightarrow> bool" and account :: "nat \<Rightarrow> bool" and small :: "int \<Rightarrow> bool"
  assumes reserve_law:
      "valid r \<Longrightarrow> account i \<Longrightarrow> small a \<Longrightarrow>
       \<exists>r'. reserve i a r = Some (balance r i + a \<le> cap r i, r') \<and> valid r' \<and> cap r' = cap r \<and>
            balance r' = (if balance r i + a \<le> cap r i
                          then (balance r)(i := balance r i + a) else balance r)"
    and release_law:
      "valid r \<Longrightarrow> account i \<Longrightarrow> small a \<Longrightarrow>
       \<exists>r'. release i a r = Some (a \<le> balance r i, r') \<and> valid r' \<and> cap r' = cap r \<and>
            balance r' = (if a \<le> balance r i
                          then (balance r)(i := balance r i - a) else balance r)"
    and small_nonneg: "small a \<Longrightarrow> 0 \<le> a"
begin

definition bounded :: "'r \<Rightarrow> bool" where
  "bounded r \<longleftrightarrow> (\<forall>i. account i \<longrightarrow> 0 \<le> balance r i \<and> balance r i \<le> cap r i)"

lemma reserve_bounded:
  assumes "valid r" "bounded r" "account i" "small a" "reserve i a r = Some (ok, r')"
  shows "valid r' \<and> bounded r' \<and> cap r' = cap r \<and>
         balance r' = (if ok then (balance r)(i := balance r i + a) else balance r)"
  using reserve_law [OF assms(1,3,4)] assms(2,5) small_nonneg [OF assms(4)]
  by (auto simp: bounded_def split: if_splits)

lemma release_bounded:
  assumes "valid r" "bounded r" "account i" "small a" "release i a r = Some (ok, r')"
  shows "valid r' \<and> bounded r' \<and> cap r' = cap r \<and>
         balance r' = (if ok then (balance r)(i := balance r i - a) else balance r)"
  using release_law [OF assms(1,3,4)] assms(2,5) small_nonneg [OF assms(4)]
  by (auto simp: bounded_def split: if_splits)

text \<open>A reservation that is released again leaves every balance as it was.\<close>

lemma reserve_release:
  assumes "valid r" "bounded r" "account i" "small a" "reserve i a r = Some (True, r')"
  shows "\<exists>r''. release i a r' = Some (True, r'') \<and> balance r'' = balance r"
proof -
  have r': "valid r'" "bounded r'" "balance r' = (balance r)(i := balance r i + a)"
    using reserve_bounded [OF assms] by auto
  have "0 \<le> balance r i"
    using assms(2,3) by (simp add: bounded_def)
  then show ?thesis
    using release_law [OF r'(1) assms(3,4)] r'(3) by auto
qed

end


section \<open>The model satisfies the contract\<close>

definition rl_balance :: "ResourceLimit \<Rightarrow> nat \<Rightarrow> int" where
  "rl_balance r i = (if i < type_index RMax then m_current_values r ! i else 0)"

definition rl_cap :: "ResourceLimit \<Rightarrow> nat \<Rightarrow> int" where
  "rl_cap r i = (if i < type_index RMax then m_limit_values r ! i else 0)"

text \<open>
  The object as its constructor and operations keep it: two arrays of ten elements, every value
  between zero and \<open>2 ^ 30\<close>.  The bound is what keeps the sum in \<^verbatim>\<open>Reserve\<close> from overflowing when
  the amount is below \<open>2 ^ 30\<close> as well.
\<close>

definition rl_valid :: "ResourceLimit \<Rightarrow> bool" where
  "rl_valid r \<longleftrightarrow> length (m_limit_values r) = type_index RMax \<and>
     length (m_current_values r) = type_index RMax \<and>
     (\<forall>i < type_index RMax. 0 \<le> m_current_values r ! i \<and>
        m_current_values r ! i \<le> m_limit_values r ! i \<and> m_limit_values r ! i \<le> 2 ^ 30)"

definition rl_small :: "int \<Rightarrow> bool" where
  "rl_small a \<longleftrightarrow> 0 \<le> a \<and> a < 2 ^ 30"

definition rl_account :: "nat \<Rightarrow> bool" where
  "rl_account i \<longleftrightarrow> i < type_index RMax"

lemma Reserve_cases:
  assumes "rl_valid r" "i < type_index RMax" "rl_small a"
  shows "Reserve i a r =
     (if rl_balance r i + a \<le> rl_cap r i
      then Some (True, r\<lparr>m_current_values := (m_current_values r)[i := rl_balance r i + a]\<rparr>)
      else Some (False, r))"
proof -
  have "in_s32 (m_current_values r ! i + a)"
    using assms by (force simp: rl_valid_def rl_small_def in_s32_def)
  then show ?thesis
    using assms by (simp add: Reserve_def GetLimitValue_def GetCurrentValue_def rl_valid_def
        rl_balance_def rl_cap_def not_less Let_def)
qed

lemma Release_cases:
  assumes "rl_valid r" "i < type_index RMax" "rl_small a"
  shows "Release i a r =
     (if a \<le> rl_balance r i
      then Some (True, r\<lparr>m_current_values := (m_current_values r)[i := rl_balance r i - a]\<rparr>)
      else Some (False, r))"
proof -
  have "in_s32 (m_current_values r ! i - a)"
    using assms by (force simp: rl_valid_def rl_small_def in_s32_def)
  then show ?thesis
    using assms by (simp add: Release_def GetCurrentValue_def rl_valid_def rl_balance_def)
qed

lemma rl_balance_update:
  assumes "rl_valid r" "i < type_index RMax"
  shows "rl_balance (r\<lparr>m_current_values := (m_current_values r)[i := v]\<rparr>) = (rl_balance r)(i := v)"
  using assms by (auto simp: rl_balance_def rl_valid_def nth_list_update fun_eq_iff)

lemma rl_cap_update: "rl_cap (r\<lparr>m_current_values := vs\<rparr>) = rl_cap r"
  by (simp add: rl_cap_def fun_eq_iff)

lemma rl_valid_update:
  assumes "rl_valid r" "i < type_index RMax" "0 \<le> v" "v \<le> rl_cap r i"
  shows "rl_valid (r\<lparr>m_current_values := (m_current_values r)[i := v]\<rparr>)"
  using assms by (auto simp: rl_valid_def rl_cap_def nth_list_update)

interpretation rl: ledger rl_balance rl_cap Reserve Release rl_valid rl_account rl_small
proof (unfold_locales, unfold rl_account_def, goal_cases)
  case (1 r i a)
  have "0 \<le> rl_balance r i + a"
    using 1 by (auto simp: rl_valid_def rl_balance_def rl_small_def)
  then show ?case
    using 1 Reserve_cases [OF 1] rl_balance_update rl_valid_update
    by (auto simp: rl_cap_update)
next
  case (2 r i a)
  have "rl_balance r i - a \<le> rl_cap r i"
    using 2 by (force simp: rl_valid_def rl_balance_def rl_cap_def rl_small_def)
  then show ?case
    using 2 Release_cases [OF 2] rl_balance_update rl_valid_update
    by (auto simp: rl_cap_update)
next
  case (3 a)
  then show ?case by (simp add: rl_small_def)
qed

lemma rl_valid_bounded: "rl_valid r \<Longrightarrow> rl.bounded r"
  by (simp add: rl_valid_def rl.bounded_def rl_account_def rl_balance_def rl_cap_def)


section \<open>Runs of the accounting object\<close>

datatype rl_op = DoReserve nat int | DoRelease nat int

fun rl_op_ok :: "rl_op \<Rightarrow> bool" where
  "rl_op_ok (DoReserve i a) \<longleftrightarrow> i < type_index RMax \<and> rl_small a"
| "rl_op_ok (DoRelease i a) \<longleftrightarrow> i < type_index RMax \<and> rl_small a"

fun rl_step :: "rl_op \<Rightarrow> ResourceLimit \<Rightarrow> (bool \<times> ResourceLimit) option" where
  "rl_step (DoReserve i a) = Reserve i a"
| "rl_step (DoRelease i a) = Release i a"

text \<open>A run returns the answer of every operation and the final object.\<close>

fun rl_run :: "rl_op list \<Rightarrow> ResourceLimit \<Rightarrow> (bool list \<times> ResourceLimit) option" where
  "rl_run [] r = Some ([], r)"
| "rl_run (p # ps) r = do {
     (ok, r1) \<leftarrow> rl_step p r;
     (oks, r2) \<leftarrow> rl_run ps r1;
     Some (ok # oks, r2)
   }"

text \<open>What the granted operations of a run amount to for one resource.\<close>

fun granted :: "nat \<Rightarrow> rl_op list \<Rightarrow> bool list \<Rightarrow> int" where
  "granted i (DoReserve j a # ps) (ok # oks) = (if ok \<and> i = j then a else 0) + granted i ps oks"
| "granted i (DoRelease j a # ps) (ok # oks) = granted i ps oks - (if ok \<and> i = j then a else 0)"
| "granted i _ _ = 0"

lemma rl_step_law:
  assumes "rl_valid r" "rl_op_ok p"
  shows "\<exists>ok r'. rl_step p r = Some (ok, r') \<and> rl_valid r' \<and> rl_cap r' = rl_cap r \<and>
           (\<forall>i ps oks. rl_balance r i + granted i (p # ps) (ok # oks) =
                       rl_balance r' i + granted i ps oks)"
proof (cases p)
  case (DoReserve i a)
  then show ?thesis
    using rl.reserve_law [of r i a] assms by (fastforce simp: fun_eq_iff rl_account_def)
next
  case (DoRelease i a)
  then show ?thesis
    using rl.release_law [of r i a] assms by (fastforce simp: fun_eq_iff rl_account_def)
qed

lemma rl_run_law:
  assumes "rl_valid r" "list_all rl_op_ok ps"
  shows "\<exists>oks r'. rl_run ps r = Some (oks, r') \<and> length oks = length ps \<and> rl_valid r' \<and>
           rl_cap r' = rl_cap r \<and> (\<forall>i. rl_balance r' i = rl_balance r i + granted i ps oks)"
  using assms
proof (induction ps arbitrary: r)
  case Nil
  then show ?case by simp
next
  case (Cons p ps)
  then obtain ok r1 where s: "rl_step p r = Some (ok, r1)" "rl_valid r1" "rl_cap r1 = rl_cap r"
    "\<forall>i ps oks. rl_balance r i + granted i (p # ps) (ok # oks) = rl_balance r1 i + granted i ps oks"
    using rl_step_law [of r p] by auto
  have "list_all rl_op_ok ps"
    using Cons.prems(2) by simp
  with s(2) Cons.IH [of r1] obtain oks r2 where t: "rl_run ps r1 = Some (oks, r2)" "length oks = length ps"
    "rl_valid r2" "rl_cap r2 = rl_cap r1" "\<forall>i. rl_balance r2 i = rl_balance r1 i + granted i ps oks"
    by blast
  show ?case
    using s t by (simp del: granted.simps)
qed

text \<open>C27: Accounting of resource limits.  Start from an object whose counters lie between zero and
  their limits, with limits up to \<open>2 ^ 30\<close>, and run any sequence of reservations and releases of
  amounts below \<open>2 ^ 30\<close> on valid resource types.  Every operation returns, every counter stays between zero
  and its limit, the limits do not move, and each counter has changed by exactly the granted
  reservations minus the granted releases.\<close>

theorem resource_accounting:
  assumes "rl_valid r" and "list_all rl_op_ok ps"
  shows "\<exists>oks r'. rl_run ps r = Some (oks, r') \<and>
    (\<forall>i < type_index RMax. 0 \<le> rl_balance r' i \<and> rl_balance r' i \<le> rl_cap r i \<and>
       rl_cap r' i = rl_cap r i \<and> rl_balance r' i = rl_balance r i + granted i ps oks)"
proof -
  obtain oks r' where r': "rl_run ps r = Some (oks, r')" "rl_valid r'" "rl_cap r' = rl_cap r"
    "\<forall>i. rl_balance r' i = rl_balance r i + granted i ps oks"
    using rl_run_law [OF assms] by blast
  then show ?thesis
    using rl_valid_bounded [OF r'(2)] by (auto simp: rl.bounded_def rl_account_def)
qed

definition demo_limit :: ResourceLimit where
  "demo_limit = \<lparr>m_limit_values = replicate 10 8, m_current_values = replicate 10 0, m_name = []\<rparr>"

theorem resource_accounting_witness:
  "rl_valid demo_limit \<and> list_all rl_op_ok [DoReserve 2 5, DoReserve 2 4, DoRelease 2 3] \<and>
   (\<exists>oks r'. rl_run [DoReserve 2 5, DoReserve 2 4, DoRelease 2 3] demo_limit = Some (oks, r') \<and>
      rl_balance r' 2 \<le> rl_cap demo_limit 2)"
proof -
  have v: "rl_valid demo_limit" "list_all rl_op_ok [DoReserve 2 5, DoReserve 2 4, DoRelease 2 3]"
    by (auto simp: rl_valid_def demo_limit_def rl_small_def nth_replicate)
  moreover have "(2::nat) < type_index RMax"
    by simp
  ultimately show ?thesis
    using resource_accounting [OF v] by blast
qed

text \<open>The bound on the amount is needed.  \<^verbatim>\<open>Reserve\<close> adds before it compares, in signed
  32-bit arithmetic: an amount that takes the sum past \<open>2 ^ 31 - 1\<close> wraps to a negative number, is
  granted, and leaves the counter negative.\<close>

theorem Reserve_overflow_granted:
  assumes "i < length (m_current_values r)" "i < length (m_limit_values r)"
    and "0 \<le> m_current_values r ! i" "m_current_values r ! i < 2 ^ 31" "0 \<le> m_limit_values r ! i"
    and "in_s32 a" "2 ^ 31 \<le> m_current_values r ! i + a"
  shows "\<exists>r'. Reserve i a r = Some (True, r') \<and>
           GetCurrentValue r' i = Some (m_current_values r ! i + a - 2 ^ 32) \<and>
           m_current_values r ! i + a - 2 ^ 32 < 0"
proof -
  let ?s = "m_current_values r ! i + a"
  have "wrap_s32 ?s = wrap_s32 (?s - 2 ^ 32)"
    using wrap_s32_shift [of "?s - 2 ^ 32"] by simp
  also have "\<dots> = ?s - 2 ^ 32"
    using assms by (intro wrap_s32_id) (auto simp: in_s32_def)
  finally have w: "wrap_s32 ?s = ?s - 2 ^ 32" .
  then show ?thesis
    using assms by (auto simp: Reserve_def GetLimitValue_def GetCurrentValue_def in_s32_def Let_def)
qed

theorem Reserve_overflow_granted_witness:
  "\<exists>r'. Reserve 2 0x7FFFFFFF (demo_limit\<lparr>m_current_values := replicate 10 1\<rparr>) = Some (True, r') \<and>
        GetCurrentValue r' 2 = Some (- 0x80000000)"
  using Reserve_overflow_granted [of 2 "demo_limit\<lparr>m_current_values := replicate 10 1\<rparr>" "0x7FFFFFFF"]
  by (simp add: demo_limit_def nth_replicate in_s32_def)

lemmas limit_tables = application_limits_def sysapplet_limits_def libapplet_limits_def other_limits_def

lemma set_limits_rows:
  "set_limits [(RPriority, a), (RCommit, b), (RThread, c), (REvent, d), (RMutex, e), (RSemaphore, f),
      (RTimer, g), (RSharedMemory, h), (RAddressArbiter, i), (RCpuTime, j)] (ResourceLimit_Create n) =
   Some \<lparr>m_limit_values = [a, b, c, d, e, f, g, h, i, j], m_current_values = replicate 10 0, m_name = n\<rparr>"
  by (simp add: ResourceLimit_Create_def SetLimitValue_def numeral_eq_Suc)

lemma rl_valid_row:
  "rl_valid \<lparr>m_limit_values = vs, m_current_values = replicate 10 0, m_name = n\<rparr> \<longleftrightarrow>
   length vs = 10 \<and> (\<forall>v \<in> set vs. 0 \<le> v \<and> v \<le> 2 ^ 30)"
  by (auto simp: rl_valid_def all_set_conv_all_nth nth_replicate)

text \<open>The constructor of the list of resource limits returns four objects, one per category; each starts
  empty and within its limits whatever the console model, provided the application region is at most
  1 GiB, so the accounting theorem applies to all of them.  The commit limit of applications is the
  size of their memory region.\<close>

theorem resource_limit_list_valid:
  assumes "app_size \<le> 2 ^ 30"
  shows "\<exists>ls. ResourceLimitList is_new_3ds app_size = Some ls \<and> length ls = 4 \<and>
    (\<forall>c. rl_valid (GetForCategory ls c) \<and>
         (\<forall>i < type_index RMax. GetCurrentValue (GetForCategory ls c) i = Some 0)) \<and>
    GetLimitValue (GetForCategory ls Application) (type_index RCommit) = Some (int app_size)"
proof -
  have w: "wrap_s32 (int app_size) = int app_size" "int app_size \<le> 2 ^ 30"
    using assms by (auto simp: in_s32_def)
  let ?row = "\<lambda>vs n. \<lparr>m_limit_values = map snd vs, m_current_values = replicate 10 0, m_name = n\<rparr>"
  let ?ls = "[?row (application_limits app_size) ''Applications'',
              ?row (sysapplet_limits is_new_3ds) ''System Applets'',
              ?row libapplet_limits ''Library Applets'', ?row (other_limits is_new_3ds) ''Others'']"
  have e: "ResourceLimitList is_new_3ds app_size = Some ?ls"
    unfolding ResourceLimitList_def limit_tables set_limits_rows by simp
  have "rl_valid (GetForCategory ?ls c) \<and>
        (\<forall>i < type_index RMax. GetCurrentValue (GetForCategory ?ls c) i = Some 0)" for c
    using w by (cases c) (simp_all add: GetForCategory_def rl_valid_row limit_tables
        GetCurrentValue_def)
  then show ?thesis
    using e w by (intro exI [of _ ?ls]) (simp add: GetForCategory_def GetLimitValue_def limit_tables)
qed

theorem resource_limit_list_valid_witness:
  "(0x4000000 :: nat) \<le> 2 ^ 30 \<and>
   (\<exists>ls. ResourceLimitList False 0x4000000 = Some ls \<and> length ls = 4 \<and> rl_valid (GetForCategory ls Other))"
  using resource_limit_list_valid [of "0x4000000" False] by auto

end
