(* ===== verification/Handle_Tables.thy ===== *)
theory Handle_Tables
  imports Results
begin

text \<open>
  Handles, \<^verbatim>\<open>core/hle/kernel/handle_table.h\<close>, \<^verbatim>\<open>handle_table.cpp\<close> and the type tags of
  \<^verbatim>\<open>object.h\<close>.  The table has 4096 slots; the generations of the free slots are threaded as a
  linked list of slot numbers.  The type of the objects is a parameter, since the table only
  stores pointers.  The current thread and process, which the two pseudo handles stand for, are
  arguments of the lookup.
\<close>

unbundle bit_operations_syntax

section \<open>Objects\<close>

datatype HandleType =
    HUnknown | HEvent | HMutex | HSharedMemory | HThread | HProcess | HAddressArbiter | HSemaphore
  | HTimer | HResourceLimit | HCodeSet | HClientPort | HServerPort | HClientSession | HServerSession

primrec IsWaitable :: "HandleType \<Rightarrow> bool" where
  "IsWaitable HEvent = True"
| "IsWaitable HMutex = True"
| "IsWaitable HThread = True"
| "IsWaitable HSemaphore = True"
| "IsWaitable HTimer = True"
| "IsWaitable HServerPort = True"
| "IsWaitable HServerSession = True"
| "IsWaitable HUnknown = False"
| "IsWaitable HSharedMemory = False"
| "IsWaitable HProcess = False"
| "IsWaitable HAddressArbiter = False"
| "IsWaitable HResourceLimit = False"
| "IsWaitable HCodeSet = False"
| "IsWaitable HClientPort = False"
| "IsWaitable HClientSession = False"

definition DynamicObjectCast :: "('o \<Rightarrow> HandleType) \<Rightarrow> HandleType \<Rightarrow> 'o option \<Rightarrow> 'o option" where
  "DynamicObjectCast GetHandleType T obj =
     (case obj of None \<Rightarrow> None | Some ob \<Rightarrow> if GetHandleType ob = T then Some ob else None)"


section \<open>The table\<close>

type_synonym handle = u32

definition CurrentThread :: handle where "CurrentThread = 0xFFFF8000"
definition CurrentProcess :: handle where "CurrentProcess = 0xFFFF8001"

definition MAX_COUNT :: nat where "MAX_COUNT = 4096"

record 'o HandleTable =
  objects :: "'o option list"
  generations :: "u16 list"
  next_generation :: u16
  next_free_slot :: u16

definition GetSlot :: "handle \<Rightarrow> u16" where
  "GetSlot h = ucast (drop_bit 15 h)"

definition GetGeneration :: "handle \<Rightarrow> u16" where
  "GetGeneration h = ucast (h AND 0x7FFF)"

definition HandleTable_Clear :: "'o HandleTable \<Rightarrow> 'o HandleTable" where
  "HandleTable_Clear t =
     t\<lparr>generations := map (\<lambda>i. word_of_nat (i + 1)) [0..<MAX_COUNT],
       objects := replicate MAX_COUNT None, next_free_slot := 0\<rparr>"

definition new_HandleTable :: "'o HandleTable" where
  "new_HandleTable = HandleTable_Clear
     \<lparr>objects = replicate MAX_COUNT None, generations = replicate MAX_COUNT 0,
      next_generation = 1, next_free_slot = 0\<rparr>"

definition bump_generation :: "u16 \<Rightarrow> u16" where
  "bump_generation g = (if g + 1 \<ge> 0x8000 then 1 else g + 1)"

definition HandleTable_Create :: "'o \<Rightarrow> 'o HandleTable \<Rightarrow> (handle \<times> 'o HandleTable) result_val" where
  "HandleTable_Create obj t =
     (let slot = next_free_slot t in
      if \<not> unat slot < length (generations t) then Inl ResultOutOfHandles
      else let generation = next_generation t in
        Inr (ucast generation OR push_bit 15 (ucast slot),
             t\<lparr>next_free_slot := generations t ! unat slot,
               next_generation := bump_generation generation,
               generations := (generations t)[unat slot := generation],
               objects := (objects t)[unat slot := Some obj]\<rparr>))"

definition IsValid :: "'o HandleTable \<Rightarrow> handle \<Rightarrow> bool" where
  "IsValid t h =
     (let slot = unat (GetSlot h) in
      slot < MAX_COUNT \<and> objects t ! slot \<noteq> None \<and> generations t ! slot = GetGeneration h)"

definition GetGeneric :: "'o option \<Rightarrow> 'o \<Rightarrow> 'o HandleTable \<Rightarrow> handle \<Rightarrow> 'o option" where
  "GetGeneric cur_thread cur_process t h =
     (if h = CurrentThread then cur_thread
      else if h = CurrentProcess then Some cur_process
      else if \<not> IsValid t h then None
      else objects t ! unat (GetSlot h))"

definition HandleTable_Get ::
  "('o \<Rightarrow> HandleType) \<Rightarrow> HandleType \<Rightarrow> 'o option \<Rightarrow> 'o \<Rightarrow> 'o HandleTable \<Rightarrow> handle \<Rightarrow> 'o option" where
  "HandleTable_Get GetHandleType T cur_thread cur_process t h =
     DynamicObjectCast GetHandleType T (GetGeneric cur_thread cur_process t h)"

definition HandleTable_Duplicate ::
  "'o option \<Rightarrow> 'o \<Rightarrow> handle \<Rightarrow> 'o HandleTable \<Rightarrow> (handle \<times> 'o HandleTable) result_val" where
  "HandleTable_Duplicate cur_thread cur_process h t =
     (case GetGeneric cur_thread cur_process t h of
        None \<Rightarrow> Inl ResultInvalidHandle
      | Some obj \<Rightarrow> HandleTable_Create obj t)"

definition HandleTable_Close :: "handle \<Rightarrow> 'o HandleTable \<Rightarrow> 'o HandleTable result_val" where
  "HandleTable_Close h t =
     (if \<not> IsValid t h then Inl ResultInvalidHandle
      else let slot = GetSlot h in
        Inr (t\<lparr>objects := (objects t)[unat slot := None],
               generations := (generations t)[unat slot := next_free_slot t],
               next_free_slot := slot\<rparr>))"


section \<open>Packing of a handle\<close>

lemma u16_small_bits:
  fixes g :: u16
  assumes "unat g < 2 ^ 15" "bit g n"
  shows "n < 15"
proof (rule ccontr)
  assume "\<not> n < 15"
  then have "take_bit 15 (unat g) = unat g" "bit (unat g) n"
    using assms by (auto simp: take_bit_nat_eq_self bit_simps)
  then show False
    using \<open>\<not> n < 15\<close> by (metis bit_take_bit_iff)
qed

lemma GetSlot_pack:
  fixes g s :: u16
  assumes "unat g < 2 ^ 15"
  shows "GetSlot (ucast g OR push_bit 15 (ucast s)) = s"
proof (rule bit_word_eqI)
  fix n
  assume "n < LENGTH(16)"
  then show "bit (GetSlot (ucast g OR push_bit 15 (ucast s))) n \<longleftrightarrow> bit s n"
    using u16_small_bits [OF assms, of "15 + n"]
    by (auto simp: GetSlot_def bit_simps)
qed

lemma GetGeneration_pack:
  fixes g s :: u16
  assumes "unat g < 2 ^ 15"
  shows "GetGeneration (ucast g OR push_bit 15 (ucast s)) = g"
proof (rule bit_word_eqI)
  fix n
  assume n: "n < LENGTH(16)"
  have "bit (0x7FFF :: u32) n \<longleftrightarrow> n < 15"
  proof -
    have m: "(0x7FFF :: u32) = mask 15" by (simp add: mask_eq_exp_minus_1)
    show ?thesis using n unfolding m by (simp add: bit_mask_iff)
  qed
  then show "bit (GetGeneration (ucast g OR push_bit 15 (ucast s))) n \<longleftrightarrow> bit g n"
    using u16_small_bits [OF assms, of n] n
    by (auto simp: GetGeneration_def bit_simps)
qed

lemma GetSlot_CurrentThread: "unat (GetSlot CurrentThread) = 0xFFFF"
  by (simp add: GetSlot_def CurrentThread_def drop_bit_eq_div unsigned_ucast_eq)

lemma GetSlot_CurrentProcess: "unat (GetSlot CurrentProcess) = 0xFFFF"
  by (simp add: GetSlot_def CurrentProcess_def drop_bit_eq_div unsigned_ucast_eq)


section \<open>Invariant\<close>

text \<open>
  \<open>free_chain gens head fs\<close>: the free list that starts at \<open>head\<close> visits the slots \<open>fs\<close> in order
  and ends with the number past the last slot.
\<close>

fun free_chain :: "u16 list \<Rightarrow> u16 \<Rightarrow> nat list \<Rightarrow> bool" where
  "free_chain gens head [] \<longleftrightarrow> unat head = MAX_COUNT"
| "free_chain gens head (s # fs) \<longleftrightarrow> unat head = s \<and> s < MAX_COUNT \<and> free_chain gens (gens ! s) fs"

definition gen_ok :: "u16 \<Rightarrow> bool" where
  "gen_ok g \<longleftrightarrow> 0 < unat g \<and> unat g < 2 ^ 15"

definition ht_inv :: "'o HandleTable \<Rightarrow> bool" where
  "ht_inv t \<longleftrightarrow> length (objects t) = MAX_COUNT \<and> length (generations t) = MAX_COUNT \<and>
     gen_ok (next_generation t) \<and>
     (\<forall>s < MAX_COUNT. objects t ! s \<noteq> None \<longrightarrow> gen_ok (generations t ! s)) \<and>
     (\<exists>fs. free_chain (generations t) (next_free_slot t) fs \<and> distinct fs \<and>
           set fs = {s. s < MAX_COUNT \<and> objects t ! s = None})"

lemma ht_invI:
  assumes "length (objects t) = MAX_COUNT" "length (generations t) = MAX_COUNT"
    "gen_ok (next_generation t)"
    "\<And>s. s < MAX_COUNT \<Longrightarrow> objects t ! s \<noteq> None \<Longrightarrow> gen_ok (generations t ! s)"
    "free_chain (generations t) (next_free_slot t) fs" "distinct fs"
    "set fs = {s. s < MAX_COUNT \<and> objects t ! s = None}"
  shows "ht_inv t"
  using assms unfolding ht_inv_def by blast

text \<open>What the table means: a partial map from slot and generation to objects.\<close>

type_synonym key = "u16 \<times> u16"

definition key_of :: "handle \<Rightarrow> key" where
  "key_of h = (GetSlot h, GetGeneration h)"

definition view :: "'o HandleTable \<Rightarrow> key \<Rightarrow> 'o option" where
  "view t k = (if unat (fst k) < MAX_COUNT \<and> generations t ! unat (fst k) = snd k
               then objects t ! unat (fst k) else None)"

definition open_count :: "'o HandleTable \<Rightarrow> nat" where
  "open_count t = card {s. s < MAX_COUNT \<and> objects t ! s \<noteq> None}"

lemma free_chain_update:
  "s \<notin> set fs \<Longrightarrow> free_chain (gens[s := g]) head fs = free_chain gens head fs"
proof (induction fs arbitrary: head)
  case Nil
  then show ?case by simp
next
  case (Cons x fs)
  then have "x \<noteq> s" "gens[s := g] ! x = gens ! x"
    by (auto simp: nth_list_update)
  then show ?case using Cons by simp
qed

lemma IsValid_view: "IsValid t h \<longleftrightarrow> view t (key_of h) \<noteq> None"
  by (auto simp: IsValid_def view_def key_of_def Let_def)

lemma GetGeneric_eq:
  "GetGeneric c p t h = (if h = CurrentThread then c else if h = CurrentProcess then Some p
                         else view t (key_of h))"
  by (auto simp: GetGeneric_def IsValid_def view_def key_of_def Let_def)

lemma GetGeneric_view:
  "h \<noteq> CurrentThread \<Longrightarrow> h \<noteq> CurrentProcess \<Longrightarrow> GetGeneric c p t h = view t (key_of h)"
  by (auto simp: GetGeneric_def IsValid_def view_def key_of_def Let_def)

lemma view_pseudo [simp]:
  "view t (key_of CurrentThread) = None" "view t (key_of CurrentProcess) = None"
  by (simp_all add: view_def key_of_def GetSlot_CurrentThread GetSlot_CurrentProcess MAX_COUNT_def)

lemma view_not_pseudo: "view t (key_of h) = Some ob \<Longrightarrow> h \<noteq> CurrentThread \<and> h \<noteq> CurrentProcess"
  by auto

lemma free_chain_clear:
  "k \<le> MAX_COUNT \<Longrightarrow>
   free_chain (map (\<lambda>i. word_of_nat (i + 1)) [0..<MAX_COUNT]) (word_of_nat k) [k..<MAX_COUNT]"
proof (induction "MAX_COUNT - k" arbitrary: k)
  case 0
  then have "k = MAX_COUNT" by simp
  then show ?case by (simp add: MAX_COUNT_def)
next
  case (Suc d)
  then have "k < MAX_COUNT" by simp
  moreover have u: "unat (word_of_nat k :: u16) = k"
    using \<open>k < MAX_COUNT\<close> by (simp add: MAX_COUNT_def unsigned_of_nat take_bit_nat_eq_self_iff)
  moreover have IH: "free_chain (map (\<lambda>i. word_of_nat (i + 1)) [0..<MAX_COUNT]) (word_of_nat (k + 1))
                   [k + 1..<MAX_COUNT]"
    using Suc.hyps \<open>k < MAX_COUNT\<close> by (intro Suc.hyps(1)) auto
  moreover have n: "map (\<lambda>i. word_of_nat (i + 1)) [0..<MAX_COUNT] ! k = (word_of_nat (k + 1) :: u16)"
    using \<open>k < MAX_COUNT\<close> by (subst nth_map) simp_all
  ultimately show ?case
    unfolding upt_conv_Cons [OF \<open>k < MAX_COUNT\<close>] free_chain.simps Suc_eq_plus1 n
    by (intro conjI) assumption+
qed

lemma ht_inv_Clear: "gen_ok (next_generation t) \<Longrightarrow> ht_inv (HandleTable_Clear t)"
  using free_chain_clear [of 0]
  by (auto simp: ht_inv_def HandleTable_Clear_def nth_replicate intro!: exI [of _ "[0..<MAX_COUNT]"])

lemma ht_inv_new: "ht_inv new_HandleTable"
  unfolding new_HandleTable_def by (rule ht_inv_Clear) (simp add: gen_ok_def)

lemma next_free_slot_new [simp]: "next_free_slot new_HandleTable = 0"
  by (simp add: new_HandleTable_def HandleTable_Clear_def)

lemma view_Clear: "view (HandleTable_Clear t) = Map.empty"
  by (auto simp: view_def HandleTable_Clear_def nth_replicate fun_eq_iff)

lemma gen_ok_bump: "gen_ok g \<Longrightarrow> gen_ok (bump_generation g)"
  by (auto simp: bump_generation_def gen_ok_def word_le_nat_alt unat_word_ariths)

lemma ht_inv_used: "ht_inv t \<Longrightarrow> unat (next_free_slot t) < MAX_COUNT \<longleftrightarrow>
    (\<exists>s < MAX_COUNT. objects t ! s = None)"
proof -
  assume "ht_inv t"
  then obtain fs where "free_chain (generations t) (next_free_slot t) fs"
    "set fs = {s. s < MAX_COUNT \<and> objects t ! s = None}"
    by (auto simp: ht_inv_def)
  then show ?thesis
    by (cases fs) auto
qed


section \<open>The contract of a handle table\<close>

text \<open>
  Clients see a table as a partial map from keys to objects: creating adds one fresh key, closing
  removes one, and a table that is full refuses.
\<close>

locale handle_space =
  fixes look :: "'t \<Rightarrow> 'k \<Rightarrow> 'o option" and key :: "'h \<Rightarrow> 'k"
    and create :: "'o \<Rightarrow> 't \<Rightarrow> 'e + ('h \<times> 't)" and close :: "'h \<Rightarrow> 't \<Rightarrow> 'e + 't"
    and ok full :: "'t \<Rightarrow> bool" and err_full err_invalid :: 'e
  assumes create_law: "ok t \<Longrightarrow> \<not> full t \<Longrightarrow>
      \<exists>h t'. create ob t = Inr (h, t') \<and> ok t' \<and> look t (key h) = None \<and>
             look t' = (look t)(key h \<mapsto> ob)"
    and create_full: "ok t \<Longrightarrow> full t \<Longrightarrow> create ob t = Inl err_full"
    and close_law: "ok t \<Longrightarrow> look t (key h) = Some ob \<Longrightarrow>
      \<exists>t'. close h t = Inr t' \<and> ok t' \<and> look t' = (look t)(key h := None)"
    and close_invalid: "ok t \<Longrightarrow> look t (key h) = None \<Longrightarrow> close h t = Inl err_invalid"
begin

lemma create_cases:
  assumes "ok t" "create ob t = Inr (h, t')"
  shows "\<not> full t \<and> ok t' \<and> look t (key h) = None \<and> look t' = (look t)(key h \<mapsto> ob)"
  using create_law [OF assms(1), of ob] create_full [OF assms(1), of ob] assms(2)
  by (cases "full t") auto

lemma close_cases:
  assumes "ok t" "close h t = Inr t'"
  shows "look t (key h) \<noteq> None \<and> ok t' \<and> look t' = (look t)(key h := None)"
  using close_law [OF assms(1), of h] close_invalid [OF assms(1), of h] assms(2)
  by (cases "look t (key h)") auto

text \<open>Closing a handle right after its creation gives back the map, and no handle is fresh twice.\<close>

lemma create_close:
  assumes "ok t" "create ob t = Inr (h, t')"
  shows "\<exists>t''. close h t' = Inr t'' \<and> ok t'' \<and> look t'' = look t"
  using create_cases [OF assms] close_law [of t' h ob] by (auto simp: fun_eq_iff)

lemma create_create:
  assumes "ok t" "create ob t = Inr (h, t')" "create ob' t' = Inr (h', t'')"
  shows "key h \<noteq> key h' \<and> look t'' (key h) = Some ob \<and> look t'' (key h') = Some ob'"
  using create_cases [OF assms(1,2)] create_cases [of t' ob' h' t''] assms(3) by auto

end

lemma set_slots_used:
  "length obs = n \<Longrightarrow> {s. s < n \<and> obs[i := Some ob] ! s = None} = {s. s < n \<and> obs ! s = None} - {i}"
  by (rule set_eqI) (auto simp: nth_list_update_if split: if_splits)

lemma unat_neq: "a \<noteq> b \<Longrightarrow> unat b \<noteq> unat a"
  by (simp add: word_unat_eq_iff)

lemma set_slots_freed:
  "length obs = n \<Longrightarrow> i < n \<Longrightarrow>
   {s. s < n \<and> obs[i := None] ! s = None} = insert i {s. s < n \<and> obs ! s = None}"
  by (rule set_eqI) (auto simp: nth_list_update_if)

lemma view_used:
  assumes "unat s < MAX_COUNT" "length (objects t) = MAX_COUNT" "length (generations t) = MAX_COUNT"
    "objects t ! unat s = None"
  shows "view (t\<lparr>next_free_slot := n, next_generation := m, generations := (generations t)[unat s := g],
                objects := (objects t)[unat s := Some ob]\<rparr>) = (view t)((s, g) \<mapsto> ob)"
proof (rule ext, goal_cases)
  case (1 k)
  show ?case
    using assms by (cases k, cases "fst k = s") (simp_all add: view_def unat_neq)
qed

lemma view_freed:
  assumes "unat s < MAX_COUNT" "length (objects t) = MAX_COUNT" "length (generations t) = MAX_COUNT"
    "generations t ! unat s = g"
  shows "view (t\<lparr>objects := (objects t)[unat s := None], generations := (generations t)[unat s := m],
                next_free_slot := n\<rparr>) = (view t)((s, g) := None)"
proof (rule ext, goal_cases)
  case (1 k)
  show ?case
    using assms by (cases k, cases "fst k = s") (simp_all add: view_def unat_neq)
qed

lemma HandleTable_Create_law:
  assumes inv: "ht_inv t" and free: "unat (next_free_slot t) < MAX_COUNT"
  shows "\<exists>h t'. HandleTable_Create ob t = Inr (h, t') \<and> ht_inv t' \<and> view t (key_of h) = None \<and>
    view t' = (view t)(key_of h \<mapsto> ob) \<and> key_of h = (next_free_slot t, next_generation t) \<and>
    next_generation t' = bump_generation (next_generation t)"
proof -
  let ?s = "unat (next_free_slot t)" and ?g = "next_generation t"
  let ?h = "ucast ?g OR push_bit 15 (ucast (next_free_slot t)) :: handle"
  let ?t = "t\<lparr>next_free_slot := generations t ! ?s, next_generation := bump_generation ?g,
             generations := (generations t)[?s := ?g], objects := (objects t)[?s := Some ob]\<rparr>"
  from inv obtain fs where fs: "free_chain (generations t) (next_free_slot t) fs" "distinct fs"
    "set fs = {s. s < MAX_COUNT \<and> objects t ! s = None}"
    and len: "length (objects t) = MAX_COUNT" "length (generations t) = MAX_COUNT"
    and g: "gen_ok ?g" and gens: "\<forall>s < MAX_COUNT. objects t ! s \<noteq> None \<longrightarrow> gen_ok (generations t ! s)"
    by (auto simp: ht_inv_def)
  obtain fs' where fs': "fs = ?s # fs'"
    using fs(1) free by (cases fs) auto
  then have none: "objects t ! ?s = None" and notin: "?s \<notin> set fs'"
    using fs by auto
  have key: "key_of ?h = (next_free_slot t, ?g)"
    using g by (simp add: key_of_def gen_ok_def GetSlot_pack GetGeneration_pack)
  have c: "HandleTable_Create ob t = Inr (?h, ?t)"
    using free len by (simp add: HandleTable_Create_def Let_def)
  have chain: "free_chain ((generations t)[?s := ?g]) (generations t ! ?s) fs'"
    using fs(1) fs' notin by (simp add: free_chain_update)
  have "set fs' = set fs - {?s}"
    using fs' fs(2) by auto
  then have frees: "set fs' = {s. s < MAX_COUNT \<and> (objects t)[?s := Some ob] ! s = None}"
    using fs(3) len none by (simp add: set_slots_used)
  have "gen_ok ((generations t)[?s := ?g] ! s)"
    if "s < MAX_COUNT" "(objects t)[?s := Some ob] ! s \<noteq> None" for s
    using that len g gens by (cases "s = ?s") auto
  then have "ht_inv ?t"
    using len gen_ok_bump [OF g] chain fs(2) fs' frees by (intro ht_invI [of _ fs']) simp_all
  moreover have "view ?t = (view t)(key_of ?h \<mapsto> ob)"
    using len free none unfolding key by (simp add: view_used)
  moreover have "view t (key_of ?h) = None"
    using none unfolding key by (simp add: view_def)
  ultimately show ?thesis
    using c key by auto
qed

lemma HandleTable_Create_full:
  "ht_inv t \<Longrightarrow> \<not> unat (next_free_slot t) < MAX_COUNT \<Longrightarrow> HandleTable_Create ob t = Inl ResultOutOfHandles"
  by (simp add: HandleTable_Create_def ht_inv_def Let_def)

lemma HandleTable_Close_law:
  assumes inv: "ht_inv t" and "view t (key_of h) = Some ob"
  shows "\<exists>t'. HandleTable_Close h t = Inr t' \<and> ht_inv t' \<and> view t' = (view t)(key_of h := None) \<and>
    next_generation t' = next_generation t"
proof -
  let ?s = "unat (GetSlot h)"
  let ?t = "t\<lparr>objects := (objects t)[?s := None],
             generations := (generations t)[?s := next_free_slot t], next_free_slot := GetSlot h\<rparr>"
  have s: "?s < MAX_COUNT" "objects t ! ?s = Some ob" "generations t ! ?s = GetGeneration h"
    using assms(2) by (auto simp: view_def key_of_def split: if_splits)
  from inv obtain fs where fs: "free_chain (generations t) (next_free_slot t) fs" "distinct fs"
    "set fs = {s. s < MAX_COUNT \<and> objects t ! s = None}"
    and len: "length (objects t) = MAX_COUNT" "length (generations t) = MAX_COUNT"
    and g: "gen_ok (next_generation t)"
    and gens: "\<forall>s < MAX_COUNT. objects t ! s \<noteq> None \<longrightarrow> gen_ok (generations t ! s)"
    by (auto simp: ht_inv_def)
  have notin: "?s \<notin> set fs"
    using s fs(3) by auto
  have "HandleTable_Close h t = Inr ?t"
    using s by (simp add: HandleTable_Close_def IsValid_def Let_def)
  moreover have chain: "free_chain ((generations t)[?s := next_free_slot t]) (GetSlot h) (?s # fs)"
    using fs(1) notin s len by (simp add: free_chain_update)
  moreover have frees: "set (?s # fs) = {s. s < MAX_COUNT \<and> (objects t)[?s := None] ! s = None}"
    using fs(3) s len by (simp add: set_slots_freed)
  moreover have "gen_ok ((generations t)[?s := next_free_slot t] ! s)"
    if "s < MAX_COUNT" "(objects t)[?s := None] ! s \<noteq> None" for s
    using that len gens by (cases "s = ?s") auto
  then have "ht_inv ?t"
    using len g chain frees fs(2) notin
    by (intro ht_invI [of _ "?s # fs"]) (simp_all del: free_chain.simps)
  moreover have "view ?t = (view t)(key_of h := None)"
    using s len by (simp add: view_freed key_of_def)
  ultimately show ?thesis by auto
qed

lemma HandleTable_Close_invalid:
  "view t (key_of h) = None \<Longrightarrow> HandleTable_Close h t = Inl ResultInvalidHandle"
  using IsValid_view [of t h] by (simp add: HandleTable_Close_def)

definition ht_full :: "'o HandleTable \<Rightarrow> bool" where
  "ht_full t \<longleftrightarrow> list_all (\<lambda>ob. ob \<noteq> None) (objects t)"

lemma ht_full_iff: "ht_inv t \<Longrightarrow> ht_full t \<longleftrightarrow> \<not> unat (next_free_slot t) < MAX_COUNT"
  using ht_inv_used [of t] by (auto simp: ht_full_def list_all_length ht_inv_def)

interpretation ht: handle_space view key_of HandleTable_Create HandleTable_Close ht_inv ht_full
  ResultOutOfHandles ResultInvalidHandle
proof (unfold_locales, goal_cases)
  case (1 t ob)
  then show ?case
    using HandleTable_Create_law [of t ob] ht_full_iff [of t] by blast
next
  case (2 t ob)
  then show ?case
    using HandleTable_Create_full [of t ob] ht_full_iff [of t] by blast
next
  case (3 t h ob)
  then show ?case
    using HandleTable_Close_law [of t h ob] by blast
next
  case (4 t h)
  then show ?case
    using HandleTable_Close_invalid [of t h] by blast
qed


section \<open>Runs of a handle table\<close>

datatype 'o ht_op = OpCreate 'o | OpDuplicate handle | OpClose handle

text \<open>An operation that fails leaves the table as it is.\<close>

fun ht_step :: "'o option \<Rightarrow> 'o \<Rightarrow> 'o ht_op \<Rightarrow> 'o HandleTable \<Rightarrow> 'o HandleTable" where
  "ht_step c p (OpCreate ob) t = (case HandleTable_Create ob t of Inl _ \<Rightarrow> t | Inr (_, t') \<Rightarrow> t')"
| "ht_step c p (OpDuplicate h) t =
     (case HandleTable_Duplicate c p h t of Inl _ \<Rightarrow> t | Inr (_, t') \<Rightarrow> t')"
| "ht_step c p (OpClose h) t = (case HandleTable_Close h t of Inl _ \<Rightarrow> t | Inr t' \<Rightarrow> t')"

definition ht_run :: "'o option \<Rightarrow> 'o \<Rightarrow> 'o ht_op list \<Rightarrow> 'o HandleTable \<Rightarrow> 'o HandleTable" where
  "ht_run c p ops t = fold (ht_step c p) ops t"

lemma Create_or_full:
  assumes "ht_inv t"
  obtains (full) "HandleTable_Create ob t = Inl ResultOutOfHandles"
  | (made) h t' where "HandleTable_Create ob t = Inr (h, t')" "ht_inv t'" "view t (key_of h) = None"
      "view t' = (view t)(key_of h \<mapsto> ob)" "snd (key_of h) = next_generation t"
      "next_generation t' = bump_generation (next_generation t)"
  using HandleTable_Create_law [OF assms, of ob] HandleTable_Create_full [OF assms, of ob] by fastforce

lemma ht_step_cases:
  assumes "ht_inv t"
  obtains (same) "ht_step c p x t = t"
  | (added) k ob where "view t k = None" "view (ht_step c p x t) = (view t)(k \<mapsto> ob)"
      "snd k = next_generation t" "ht_inv (ht_step c p x t)"
      "next_generation (ht_step c p x t) = bump_generation (next_generation t)"
  | (removed) h where "x = OpClose h" "view (ht_step c p x t) = (view t)(key_of h := None)"
      "ht_inv (ht_step c p x t)" "next_generation (ht_step c p x t) = next_generation t"
proof (cases x)
  case (OpCreate ob)
  then show thesis
    using same added by (cases rule: Create_or_full [OF assms, of ob]) auto
next
  case (OpDuplicate h)
  show thesis
  proof (cases "GetGeneric c p t h")
    case None
    then show thesis using OpDuplicate same by (simp add: HandleTable_Duplicate_def)
  next
    case (Some ob)
    then show thesis
      using OpDuplicate same added
      by (cases rule: Create_or_full [OF assms, of ob]) (auto simp: HandleTable_Duplicate_def)
  qed
next
  case (OpClose h)
  show thesis
  proof (cases "view t (key_of h)")
    case None
    then show thesis using OpClose same HandleTable_Close_invalid [of t h] by simp
  next
    case (Some ob)
    then show thesis using OpClose removed HandleTable_Close_law [OF assms Some] by auto
  qed
qed

lemma ht_inv_generation: "ht_inv t \<Longrightarrow> gen_ok (next_generation t)"
  by (simp add: ht_inv_def)

lemma ht_step_inv: "ht_inv t \<Longrightarrow> ht_inv (ht_step c p x t)"
  by (rule ht_step_cases [of t c p x]) auto

lemma ht_run_inv: "ht_inv t \<Longrightarrow> ht_inv (ht_run c p ops t)"
  unfolding ht_run_def by (induction ops arbitrary: t) (simp_all add: ht_step_inv)

text \<open>C12: Every operation of the handle table, in any order and failing or not, keeps its invariant: the free
  list that is threaded through the generations array visits every empty slot exactly once and ends at the
  number 4096, every used slot has a generation between 1 and 0x7FFF, and so has the counter.\<close>

theorem handle_table_invariant:
  "ht_inv (new_HandleTable :: 'o HandleTable) \<and>
   (\<forall>c p ops (t :: 'o HandleTable). ht_inv t \<longrightarrow>
      ht_inv (ht_run c p ops t) \<and> ht_inv (HandleTable_Clear (ht_run c p ops t)))"
  by (intro conjI allI impI ht_inv_new ht_run_inv ht_inv_Clear ht_inv_generation)

theorem handle_table_invariant_witness:
  "ht_inv (ht_run (Some (1::nat)) 2 [OpCreate 7, OpDuplicate 0xFFFF8000, OpClose 1] new_HandleTable)"
  using handle_table_invariant [where 'o = nat] by simp

text \<open>Creating a handle.  \<^verbatim>\<open>Create\<close> fails with \<^verbatim>\<open>ResultOutOfHandles\<close> exactly when all 4096 slots are in
  use.  Otherwise it returns a handle that was not valid before, is neither zero nor one of the two pseudo
  handles, and looks up the object; every handle that was valid before still looks up the same object, and closing the
  new handle gives back the table's old meaning.\<close>

theorem create_then_lookup:
  assumes "ht_inv t"
  shows "case HandleTable_Create ob t of
     Inl e \<Rightarrow> e = ResultOutOfHandles \<and> ht_full t
   | Inr (h, t') \<Rightarrow> \<not> ht_full t \<and> \<not> IsValid t h \<and> h \<noteq> 0 \<and> h \<noteq> CurrentThread \<and> h \<noteq> CurrentProcess \<and>
       GetGeneric c p t' h = Some ob \<and>
       (\<forall>h'. IsValid t h' \<longrightarrow> GetGeneric c p t' h' = GetGeneric c p t h') \<and>
       (\<exists>t''. HandleTable_Close h t' = Inr t'' \<and> (\<forall>h'. GetGeneric c p t'' h' = GetGeneric c p t h'))"
proof (cases rule: Create_or_full [OF assms, of ob, case_names full made])
  case full
  then show ?thesis
    using ht.create_law [OF assms, of ob] by fastforce
next
  case (made h t')
  have k: "view t' (key_of h) = Some ob" "gen_ok (snd (key_of h))"
    using made assms by (simp_all add: ht_inv_def)
  then have slot: "unat (GetSlot h) < MAX_COUNT" "gen_ok (GetGeneration h)"
    by (auto simp: view_def key_of_def split: if_splits)
  have h: "h \<noteq> 0" "h \<noteq> CurrentThread" "h \<noteq> CurrentProcess"
    using slot GetSlot_CurrentThread GetSlot_CurrentProcess
    by (auto simp: MAX_COUNT_def gen_ok_def GetGeneration_def)
  obtain t'' where t'': "HandleTable_Close h t' = Inr t''" "view t'' = view t"
    using ht.create_close [OF assms made(1)] by blast
  have "GetGeneric c p t' h' = GetGeneric c p t h'" if "IsValid t h'" for h'
    using that made(3,4) by (auto simp: GetGeneric_eq IsValid_view)
  moreover have "GetGeneric c p t'' h' = GetGeneric c p t h'" for h'
    using t''(2) by (simp add: GetGeneric_eq)
  ultimately show ?thesis
    using made h k t'' ht.create_cases [OF assms made(1)]
    by (auto simp: GetGeneric_view IsValid_view)
qed

theorem create_then_lookup_witness:
  "ht_inv (new_HandleTable :: nat HandleTable) \<and>
   (case HandleTable_Create (7 :: nat) new_HandleTable of
      Inl e \<Rightarrow> e = ResultOutOfHandles | Inr (h, t') \<Rightarrow> GetGeneric None 0 t' h = Some 7)"
  using create_then_lookup [OF ht_inv_new, where ob = "7 :: nat" and c = None and p = 0] ht_inv_new
  by (auto split: sum.splits)


text \<open>Duplicating a handle.  An invalid handle is refused.  Otherwise, unless the table is full, the result
  is a different handle to the same object, also for the pseudo handles; and closing the handle that was
  duplicated does not affect the duplicate.\<close>

theorem duplicate_independent:
  assumes "ht_inv t"
  shows "case HandleTable_Duplicate c p h t of
     Inl e \<Rightarrow> (GetGeneric c p t h = None \<and> e = ResultInvalidHandle) \<or> (ht_full t \<and> e = ResultOutOfHandles)
   | Inr (h', t') \<Rightarrow> GetGeneric c p t h \<noteq> None \<and> h' \<noteq> h \<and>
       GetGeneric c p t' h' = GetGeneric c p t h \<and>
       (\<forall>t''. HandleTable_Close h t' = Inr t'' \<longrightarrow> GetGeneric c p t'' h' = GetGeneric c p t h)"
proof (cases "GetGeneric c p t h")
  case None
  then show ?thesis by (simp add: HandleTable_Duplicate_def)
next
  case (Some ob)
  show ?thesis
  proof (cases rule: Create_or_full [OF assms, of ob, case_names full made])
    case full
    then show ?thesis
      using Some ht.create_law [OF assms, of ob] by (fastforce simp: HandleTable_Duplicate_def)
  next
    case (made h' t')
    have v: "view t' (key_of h') = Some ob"
      using made by simp
    have pseudo: "h' \<noteq> CurrentThread" "h' \<noteq> CurrentProcess"
      using view_not_pseudo [OF v] by simp_all
    have "h' \<noteq> h"
      using Some made(3) pseudo by (auto simp: GetGeneric_view)
    have "key_of h' \<noteq> key_of h" if "HandleTable_Close h t' = Inr t''" for t''
      using ht.close_cases [OF made(2) that] Some made(3) by (auto simp: GetGeneric_eq split: if_splits)
    then have "GetGeneric c p t'' h' = Some ob" if "HandleTable_Close h t' = Inr t''" for t''
      using ht.close_cases [OF made(2) that] that v pseudo by (simp add: GetGeneric_view)
    with \<open>h' \<noteq> h\<close> show ?thesis
      using Some made v pseudo by (auto simp: HandleTable_Duplicate_def GetGeneric_view)
  qed
qed

theorem duplicate_independent_witness:
  "ht_inv (new_HandleTable :: nat HandleTable) \<and>
   (case HandleTable_Duplicate (Some (5 :: nat)) 6 CurrentThread new_HandleTable of
      Inl e \<Rightarrow> ht_full (new_HandleTable :: nat HandleTable)
    | Inr (h', t') \<Rightarrow> GetGeneric (Some 5) 6 t' h' = Some 5)"
  using duplicate_independent [OF ht_inv_new, where c = "Some (5 :: nat)" and p = 6 and h = CurrentThread]
    ht_inv_new
  by (auto split: sum.splits simp: GetGeneric_def)


section \<open>Generations\<close>

text \<open>How many handles were created since the generation \<open>g\<close> was given out, modulo the wrap-around.\<close>

definition gen_dist :: "u16 \<Rightarrow> 'o HandleTable \<Rightarrow> nat" where
  "gen_dist g t = (unat (next_generation t) + 0x7FFF - unat g) mod 0x7FFF"

definition unissued :: "u16 \<Rightarrow> nat \<Rightarrow> 'o HandleTable \<Rightarrow> bool" where
  "unissued g n t \<longleftrightarrow> ht_inv t \<and> gen_ok g \<and> (0 < n \<longrightarrow> 0 < gen_dist g t \<and> gen_dist g t + n \<le> 0x7FFF)"

lemma unat_bump: "gen_ok n \<Longrightarrow> unat (bump_generation n) = (if unat n = 0x7FFF then 1 else unat n + 1)"
  by (auto simp: bump_generation_def gen_ok_def word_le_nat_alt unat_word_ariths)

lemma gen_dist_bump:
  assumes "gen_ok g" "gen_ok (next_generation t)"
    and "next_generation t' = bump_generation (next_generation t)"
  shows "gen_dist g t' = (gen_dist g t + 1) mod 0x7FFF"
proof (cases "unat (next_generation t) = 0x7FFF")
  case True
  have "(gen_dist g t + 1) mod 0x7FFF = (unat (next_generation t) + 0x7FFF - unat g + 1) mod 0x7FFF"
    by (simp add: gen_dist_def mod_Suc_eq)
  also have "\<dots> = (1 + 0x7FFF - unat g + 0x7FFF) mod 0x7FFF"
    using True assms(1) by (intro arg_cong [of _ _ "\<lambda>x. x mod 0x7FFF"]) (auto simp: gen_ok_def)
  also have "\<dots> = gen_dist g t'"
    using True assms(2,3) by (simp add: gen_dist_def unat_bump)
  finally show ?thesis by simp
next
  case False
  then show ?thesis
    using assms by (auto simp: gen_dist_def unat_bump mod_Suc_eq gen_ok_def
        intro!: arg_cong [of _ _ "\<lambda>x. x mod 0x7FFF"])
qed

lemma unissued_step:
  assumes "unissued g (Suc n) t"
  shows "unissued g n (ht_step c p x t) \<and>
    (snd k = g \<longrightarrow> view (ht_step c p x t) k = Some ob \<longrightarrow> view t k = Some ob)"
proof -
  have t: "ht_inv t" "gen_ok g" "0 < gen_dist g t" "gen_dist g t + Suc n \<le> 0x7FFF"
    using assms by (auto simp: unissued_def)
  have ne: "next_generation t \<noteq> g"
    using t(3) by (auto simp: gen_dist_def)
  show ?thesis
  proof (cases rule: ht_step_cases [OF t(1), of c p x, case_names same added removed])
    case same
    then show ?thesis using t by (simp add: unissued_def)
  next
    case (added k' ob')
    then show ?thesis
      using t ne gen_dist_bump [OF t(2) _ added(5)]
      by (auto simp: unissued_def mod_Suc ht_inv_generation split: if_splits)
  next
    case (removed h)
    then have "gen_dist g (ht_step c p x t) = gen_dist g t"
      by (simp add: gen_dist_def)
    then show ?thesis
      using t removed by (auto simp: unissued_def)
  qed
qed

lemma unissued_run:
  assumes "unissued g (length ops) t" "snd k = g" "view (ht_run c p ops t) k = Some ob"
  shows "view t k = Some ob"
  using assms
proof (induction ops arbitrary: t)
  case Nil
  then show ?case by (simp add: ht_run_def)
next
  case (Cons x ops)
  then show ?case
    using unissued_step [of g "length ops" t c p x k ob] by (auto simp: ht_run_def)
qed

lemma unissued_prefix:
  assumes "unissued g (length (ops1 @ ops2)) t" "snd k = g"
    and "view (ht_run c p (ops1 @ ops2) t) k = Some ob"
  shows "view (ht_run c p ops1 t) k = Some ob"
  using assms
proof (induction ops1 arbitrary: t)
  case Nil
  then show ?case using unissued_run [of g ops2 t k c p ob] by (simp add: ht_run_def)
next
  case (Cons x ops1)
  then show ?case
    using unissued_step [of g "length (ops1 @ ops2)" t c p x k ob] by (auto simp: ht_run_def)
qed

text \<open>C28: Generations protect against stale handles.  Take a handle just returned by \<^verbatim>\<open>Create\<close> and run at most
  0x7FFE further operations.  The handle looks up the object it was created for or nothing, never another object
  that has come to occupy the slot; and once it is invalid it stays invalid to the end of the run.\<close>

theorem stale_handle_stays_invalid:
  assumes "ht_inv t" and "HandleTable_Create ob t = Inr (h, t1)" and "length ops \<le> 0x7FFE"
  shows "GetGeneric c p (ht_run c p ops t1) h \<in> {None, Some ob} \<and>
    (\<forall>i \<le> length ops. \<not> IsValid (ht_run c p (take i ops) t1) h \<longrightarrow> \<not> IsValid (ht_run c p ops t1) h)"
proof -
  let ?g = "next_generation t"
  obtain t1_inv: "ht_inv t1" "view t1 = (view t)(key_of h \<mapsto> ob)"
    and k: "snd (key_of h) = ?g" and g1: "next_generation t1 = bump_generation ?g"
    using assms(2) by (cases rule: Create_or_full [OF assms(1), of ob]) auto
  have "gen_dist ?g t = 0"
    by (simp add: gen_dist_def)
  then have "gen_dist ?g t1 = 1"
    using gen_dist_bump [OF _ _ g1] ht_inv_generation [OF assms(1)] by simp
  then have u: "unissued ?g (length ops) t1"
    using t1_inv(1) assms(3) ht_inv_generation [OF assms(1)] by (simp add: unissued_def)
  have v: "view t1 (key_of h) = Some ob"
    using t1_inv by simp
  have pseudo: "h \<noteq> CurrentThread" "h \<noteq> CurrentProcess"
    using view_not_pseudo [OF v] by simp_all
  have "view (ht_run c p ops t1) (key_of h) \<in> {None, Some ob}"
    using unissued_run [OF u k] v
    by (cases "view (ht_run c p ops t1) (key_of h)") auto
  moreover have "\<not> IsValid (ht_run c p (take i ops) t1) h \<longrightarrow> \<not> IsValid (ht_run c p ops t1) h" for i
    using unissued_prefix [of ?g "take i ops" "drop i ops" t1 "key_of h" c p] u k
    by (fastforce simp: IsValid_view)
  ultimately show ?thesis
    using pseudo by (simp add: GetGeneric_view)
qed

theorem stale_handle_stays_invalid_witness:
  "\<exists>h t1. HandleTable_Create (9 :: nat) new_HandleTable = Inr (h, t1) \<and>
     length [OpClose h, OpCreate (3 :: nat)] \<le> 0x7FFE \<and>
     GetGeneric None 0 (ht_run None 0 [OpClose h, OpCreate 3] t1) h \<in> {None, Some 9}"
proof -
  obtain h t1 where c: "HandleTable_Create (9 :: nat) new_HandleTable = Inr (h, t1)"
    using HandleTable_Create_law [OF ht_inv_new, of "9 :: nat"]
    by (auto simp: MAX_COUNT_def)
  have l: "length [OpClose h, OpCreate (3 :: nat)] \<le> 0x7FFE"
    by simp
  show ?thesis
    by (intro exI conjI, rule c, rule l,
        rule stale_handle_stays_invalid [OF ht_inv_new c l, THEN conjunct1])
qed

text \<open>\<^verbatim>\<open>GetSlot\<close> returns 16 bits of the 17 the header gives to the slot index, so bit 31 of a handle is
  ignored: a handle and the same handle with that bit flipped are valid together and look up the same object
  (neither being a pseudo handle), although the table only ever gives out the one with the bit clear.\<close>

theorem handle_bit31_ignored:
  assumes "h \<notin> {CurrentThread, CurrentProcess, CurrentThread XOR 0x80000000, CurrentProcess XOR 0x80000000}"
  shows "IsValid t (h XOR 0x80000000) = IsValid t h \<and>
         GetGeneric c p t (h XOR 0x80000000) = GetGeneric c p t h"
proof -
  have b: "bit (0x80000000 :: u32) n \<longleftrightarrow> n = 31" for n
  proof -
    have "(0x80000000 :: u32) = 2 ^ 31" by simp
    then show ?thesis by (simp only: bit_exp_iff) auto
  qed
  have "GetSlot (h XOR 0x80000000) = GetSlot h"
  proof (rule bit_word_eqI)
    fix n assume "n < LENGTH(16)"
    then have "\<not> bit (0x80000000 :: u32) (15 + n)"
      unfolding b by simp
    then show "bit (GetSlot (h XOR 0x80000000)) n = bit (GetSlot h) n"
      by (simp add: GetSlot_def bit_ucast_iff bit_drop_bit_eq bit_xor_iff del: drop_bit_xor)
  qed
  moreover have "GetGeneration (h XOR 0x80000000) = GetGeneration h"
  proof (rule bit_word_eqI)
    fix n assume "n < LENGTH(16)"
    then have "\<not> bit (0x80000000 :: u32) n"
      unfolding b by simp
    then show "bit (GetGeneration (h XOR 0x80000000)) n = bit (GetGeneration h) n"
      by (simp add: GetGeneration_def bit_and_iff bit_xor_iff bit_ucast_iff)
  qed
  ultimately have k: "key_of (h XOR 0x80000000) = key_of h"
    by (simp add: key_of_def)
  have "h XOR 0x80000000 \<noteq> x" if "h \<noteq> x XOR 0x80000000" for x
    using that by (metis xor.assoc xor_self_eq xor.right_neutral)
  then show ?thesis
    using assms k by (simp add: IsValid_view GetGeneric_view)
qed

theorem handle_bit31_ignored_witness:
  "(1 :: handle) \<notin> {CurrentThread, CurrentProcess, CurrentThread XOR 0x80000000, CurrentProcess XOR 0x80000000} \<and>
   IsValid (new_HandleTable :: nat HandleTable) (1 XOR 0x80000000) = IsValid (new_HandleTable :: nat HandleTable) 1"
proof -
  have h: "(1 :: handle) \<notin> {CurrentThread, CurrentProcess, CurrentThread XOR 0x80000000, CurrentProcess XOR 0x80000000}"
    by (simp add: CurrentThread_def CurrentProcess_def)
  then show ?thesis
    using handle_bit31_ignored [OF h, of "new_HandleTable :: nat HandleTable"] by simp
qed

end
