(* ===== verification/Binary_Heap.thy ===== *)
theory Binary_Heap
  imports Prelude "HOL-Library.Multiset"
begin

text \<open>
  Binary heaps in a vector, as the heap functions of the standard library keep them: the element at position
  \<open>i\<close> has its children at \<open>2 * i + 1\<close> and \<open>2 * i + 2\<close>, and no element is less than its parent.  Elements are compared by a
  key.  The standard fixes what the functions establish and not the positions of all elements; these are the
  usual algorithms, which sift one element up or down.
\<close>

section \<open>Sifting\<close>

definition parent :: "nat \<Rightarrow> nat" where "parent i = (i - 1) div 2"

definition swap_at :: "nat \<Rightarrow> nat \<Rightarrow> 'e list \<Rightarrow> 'e list" where
  "swap_at i j q = q[i := q ! j, j := q ! i]"

function sift_up :: "('e \<Rightarrow> 'k :: linorder) \<Rightarrow> nat \<Rightarrow> 'e list \<Rightarrow> 'e list" where
  "sift_up key i q =
     (if 0 < i \<and> key (q ! i) < key (q ! parent i) then sift_up key (parent i) (swap_at i (parent i) q) else q)"
  by pat_completeness auto
termination by (relation "measure (\<lambda>(_, i, _). i)") (auto simp: parent_def)

definition least_child :: "('e \<Rightarrow> 'k :: linorder) \<Rightarrow> nat \<Rightarrow> 'e list \<Rightarrow> nat" where
  "least_child key i q =
     (if 2 * i + 2 < length q \<and> key (q ! (2 * i + 2)) < key (q ! (2 * i + 1)) then 2 * i + 2 else 2 * i + 1)"

lemma length_swap_at [simp]: "length (swap_at i j q) = length q"
  by (simp add: swap_at_def)

function sift_down :: "('e \<Rightarrow> 'k :: linorder) \<Rightarrow> nat \<Rightarrow> 'e list \<Rightarrow> 'e list" where
  "sift_down key i q =
     (if 2 * i + 1 < length q \<and> key (q ! least_child key i q) < key (q ! i)
      then sift_down key (least_child key i q) (swap_at i (least_child key i q) q) else q)"
  by pat_completeness auto
termination by (relation "measure (\<lambda>(_, i, q). length q - i)") (auto simp: least_child_def)

declare sift_up.simps [simp del] sift_down.simps [simp del]

text \<open>The element at the end is new; the element at the front goes to the end; any vector becomes a heap.\<close>

definition heap_push :: "('e \<Rightarrow> 'k :: linorder) \<Rightarrow> 'e list \<Rightarrow> 'e list" where
  "heap_push key q = sift_up key (length q - 1) q"

definition heap_pop :: "('e \<Rightarrow> 'k :: linorder) \<Rightarrow> 'e list \<Rightarrow> 'e list" where
  "heap_pop key q = (if length q \<le> 1 then q else sift_down key 0 ((butlast q)[0 := last q]) @ [hd q])"

definition heap_make :: "('e \<Rightarrow> 'k :: linorder) \<Rightarrow> 'e list \<Rightarrow> 'e list" where
  "heap_make key q = fold (sift_down key) (rev [0..<length q div 2]) q"


section \<open>Contents\<close>

lemma mset_swap_at [simp]: "i < length q \<Longrightarrow> j < length q \<Longrightarrow> mset (swap_at i j q) = mset q"
  by (simp add: swap_at_def mset_swap)

lemma nth_swap_at:
  "i < length q \<Longrightarrow> j < length q \<Longrightarrow> x < length q \<Longrightarrow> swap_at i j q ! x = (if x = j then q ! i else if x = i then q ! j else q ! x)"
  by (simp add: swap_at_def nth_list_update)

lemma parent_less: "0 < i \<Longrightarrow> parent i < i"
  by (auto simp: parent_def)

lemma least_child_bounds: "2 * i + 1 < length q \<Longrightarrow> least_child key i q < length q \<and> i < least_child key i q"
  by (simp add: least_child_def)

lemma parent_least_child [simp]: "parent (least_child key i q) = i"
  by (simp add: least_child_def parent_def)

lemma mset_sift_up [simp]: "i < length q \<Longrightarrow> mset (sift_up key i q) = mset q"
proof (induction key i q rule: sift_up.induct)
  case (1 key i q)
  then show ?case using parent_less [of i] by (subst sift_up.simps) (auto dest: less_trans)
qed

lemma mset_sift_down [simp]: "mset (sift_down key i q) = mset q"
proof (induction key i q rule: sift_down.induct)
  case (1 key i q)
  then show ?case using least_child_bounds [of i q key] by (subst sift_down.simps) simp
qed

lemma length_sift_down [simp]: "length (sift_down key i q) = length q"
  by (metis mset_sift_down size_mset)

lemma mset_heap_push [simp]: "mset (heap_push key q) = mset q"
  unfolding heap_push_def by (cases "q = []") (simp, subst sift_up.simps, simp_all)

lemma mset_heap_pop [simp]: "mset (heap_pop key q) = mset q"
proof (cases "length q \<le> 1")
  case False
  then obtain x xs y where q: "q = x # xs @ [y]" by (cases q; cases "tl q" rule: rev_cases) auto
  then show ?thesis by (simp add: heap_pop_def butlast_append)
qed (simp add: heap_pop_def)

lemma mset_heap_make [simp]: "mset (heap_make key q) = mset q"
proof -
  have "mset (fold (sift_down key) is q) = mset q" for "is" by (induction "is" arbitrary: q) simp_all
  then show ?thesis by (simp add: heap_make_def)
qed


section \<open>The heap property\<close>

text \<open>
  \<open>heap_from k\<close>: the elements from position \<open>k\<close> on are not less than their parents, if these are also at \<open>k\<close> or later.
  While an element is sifted it breaks the property at one position, with its children or with its parent.
\<close>

definition heap_from :: "('e \<Rightarrow> 'k :: linorder) \<Rightarrow> nat \<Rightarrow> 'e list \<Rightarrow> bool" where
  "heap_from key k q \<longleftrightarrow> (\<forall>j < length q. 0 < j \<and> k \<le> parent j \<longrightarrow> key (q ! parent j) \<le> key (q ! j))"

definition hole_down :: "('e \<Rightarrow> 'k :: linorder) \<Rightarrow> nat \<Rightarrow> nat \<Rightarrow> 'e list \<Rightarrow> bool" where
  "hole_down key k i q \<longleftrightarrow> (\<forall>j < length q. 0 < j \<and> k \<le> parent j \<longrightarrow>
     (if parent j \<noteq> i then key (q ! parent j) \<le> key (q ! j)
      else 0 < i \<and> k \<le> parent i \<longrightarrow> key (q ! parent i) \<le> key (q ! j)))"

definition hole_up :: "('e \<Rightarrow> 'k :: linorder) \<Rightarrow> nat \<Rightarrow> 'e list \<Rightarrow> bool" where
  "hole_up key i q \<longleftrightarrow> (\<forall>j < length q. 0 < j \<longrightarrow>
     (j \<noteq> i \<longrightarrow> key (q ! parent j) \<le> key (q ! j)) \<and>
     (parent j = i \<and> 0 < i \<longrightarrow> key (q ! parent i) \<le> key (q ! j)))"

lemma children: "0 < j \<Longrightarrow> parent j = i \<longleftrightarrow> j = 2 * i + 1 \<or> j = 2 * i + 2"
  by (auto simp: parent_def)

lemma least_child_least:
  assumes "parent j = i" "0 < j" "j < length q"
  shows "2 * i + 1 < length q" "key (q ! least_child key i q) \<le> key (q ! j)"
  using assms by (auto simp: children least_child_def)

lemma heap_sift_down:
  assumes "hole_down key k i q" "k \<le> i"
  shows "heap_from key k (sift_down key i q)"
  using assms
proof (induction key i q rule: sift_down.induct)
  case (1 key i q)
  let ?c = "least_child key i q"
  show ?case
  proof (cases "2 * i + 1 < length q \<and> key (q ! ?c) < key (q ! i)")
    case True
    then have c: "?c < length q" "i < ?c" "i < length q" using least_child_bounds [of i q key] by auto
    have "hole_down key k ?c (swap_at i ?c q)"
      unfolding hole_down_def
    proof (intro allI impI)
      fix j assume j: "j < length (swap_at i ?c q)" "0 < j \<and> k \<le> parent j"
      then have jl: "j < length q" "parent j < length q" "parent j < j" using parent_less [of j] by auto
      have pi: "parent i < i" if "0 < i" using parent_less that by blast
      note hole = "1.prems"(1) [unfolded hole_down_def, rule_format, of j]
      note at_c = "1.prems"(1) [unfolded hole_down_def, rule_format, of ?c]
      show "if parent j \<noteq> ?c then key (swap_at i ?c q ! parent j) \<le> key (swap_at i ?c q ! j)
        else 0 < ?c \<and> k \<le> parent ?c \<longrightarrow> key (swap_at i ?c q ! parent ?c) \<le> key (swap_at i ?c q ! j)"
      proof (cases "parent j = i")
        case True
        then show ?thesis using \<open>2 * i + 1 < length q \<and> key (q ! ?c) < key (q ! i)\<close> c jl j least_child_least(2) [OF True, of q]
          by (auto simp: nth_swap_at)
      next
        case False
        then show ?thesis using hole at_c c jl j pi "1.prems"(2) by (auto simp: nth_swap_at)
      qed
    qed
    with "1.IH" [OF True] "1.prems"(2) c(2) True show ?thesis by (subst sift_down.simps) simp
  next
    case False
    have "key (q ! parent j) \<le> key (q ! j)" if "j < length q" "0 < j" "k \<le> parent j" for j
    proof (cases "parent j = i")
      case True
      have "key (q ! least_child key i q) \<le> key (q ! j)" by (rule least_child_least(2) [OF True that(2,1)])
      then show ?thesis using False least_child_least(1) [OF True that(2,1)] True by auto
    next
      case False
      then show ?thesis using "1.prems"(1) that by (simp add: hole_down_def)
    qed
    then have "heap_from key k q" by (simp add: heap_from_def)
    with False show ?thesis by (subst sift_down.simps) auto
  qed
qed

lemma heap_sift_up:
  assumes "hole_up key i q" "i < length q"
  shows "heap_from key 0 (sift_up key i q)"
  using assms
proof (induction key i q rule: sift_up.induct)
  case (1 key i q)
  show ?case
  proof (cases "0 < i \<and> key (q ! i) < key (q ! parent i)")
    case True
    let ?p = "parent i"
    have p: "?p < i" "?p < length q" using True parent_less [of i] "1.prems"(2) by auto
    have "hole_up key ?p (swap_at i ?p q)"
      unfolding hole_up_def
    proof (intro allI impI)
      fix j assume j: "j < length (swap_at i ?p q)" "0 < j"
      then have jl: "j < length q" "parent j < length q" "parent j < j" using parent_less [of j] by auto
      have pp: "parent ?p < ?p" if "0 < ?p" using parent_less that by blast
      note hole = "1.prems"(1) [unfolded hole_up_def, rule_format, of j]
      note at_p = "1.prems"(1) [unfolded hole_up_def, rule_format, of ?p]
      show "(j \<noteq> ?p \<longrightarrow> key (swap_at i ?p q ! parent j) \<le> key (swap_at i ?p q ! j)) \<and>
        (parent j = ?p \<and> 0 < ?p \<longrightarrow> key (swap_at i ?p q ! parent ?p) \<le> key (swap_at i ?p q ! j))"
        using hole at_p True p jl j "1.prems"(2) pp by (auto simp: nth_swap_at)
    qed
    with "1.IH" [OF True] p True show ?thesis by (subst sift_up.simps) simp
  next
    case False
    have "key (q ! parent j) \<le> key (q ! j)" if "j < length q" "0 < j" for j
      using False "1.prems"(1) that by (cases "j = i") (auto simp: hole_up_def)
    then have "heap_from key 0 q" by (simp add: heap_from_def)
    with False show ?thesis by (subst sift_up.simps) auto
  qed
qed

lemma heap_front:
  assumes "heap_from key 0 q" "j < length q"
  shows "key (q ! 0) \<le> key (q ! j)"
  using assms(2)
proof (induction j rule: less_induct)
  case (less j)
  show ?case
  proof (cases "j = 0")
    case False
    then have "key (q ! parent j) \<le> key (q ! j)" using assms(1) less.prems by (simp add: heap_from_def)
    moreover have "key (q ! 0) \<le> key (q ! parent j)" using less parent_less [of j] False by simp
    ultimately show ?thesis by (rule order_trans [rotated])
  qed simp
qed

lemma heap_heap_push:
  assumes "heap_from key 0 q"
  shows "heap_from key 0 (heap_push key (q @ [e]))"
proof -
  have "hole_up key (length q) (q @ [e])"
    unfolding hole_up_def
  proof (intro allI impI)
    fix j assume j: "j < length (q @ [e])" "0 < j"
    have "parent j < length q" using parent_less [OF j(2)] j(1) by simp
    then show "(j \<noteq> length q \<longrightarrow> key ((q @ [e]) ! parent j) \<le> key ((q @ [e]) ! j)) \<and>
        (parent j = length q \<and> 0 < length q \<longrightarrow> key ((q @ [e]) ! parent (length q)) \<le> key ((q @ [e]) ! j))"
      using assms j by (auto simp: nth_append heap_from_def)
  qed
  then show ?thesis unfolding heap_push_def by (intro heap_sift_up) simp_all
qed

lemma heap_pop_shape:
  assumes "q \<noteq> []"
  shows "last (heap_pop key q) = hd q" "mset (butlast (heap_pop key q)) = mset (tl q)" "length (heap_pop key q) = length q"
proof -
  show l: "last (heap_pop key q) = hd q" using assms by (cases q; cases "tl q") (simp_all add: heap_pop_def)
  have "heap_pop key q \<noteq> []" using assms mset_heap_pop [of key q] by (metis mset_zero_iff)
  then have "mset (heap_pop key q) = add_mset (hd q) (mset (butlast (heap_pop key q)))"
    using l by (metis append_butlast_last_id mset.simps(1,2) mset_append add.commute union_mset_add_mset_left add_0)
  moreover have "mset q = add_mset (hd q) (mset (tl q))" using assms by (cases q) simp_all
  ultimately show "mset (butlast (heap_pop key q)) = mset (tl q)" by simp
  show "length (heap_pop key q) = length q" by (metis mset_heap_pop size_mset)
qed

lemma heap_heap_pop:
  assumes "heap_from key 0 q"
  shows "heap_from key 0 (butlast (heap_pop key q))"
proof (cases "length q \<le> 1")
  case True
  then show ?thesis by (cases q) (simp_all add: heap_pop_def heap_from_def)
next
  case False
  let ?q = "(butlast q)[0 := last q]"
  have "hole_down key 0 0 ?q"
    unfolding hole_down_def
  proof (intro allI impI)
    fix j assume j: "j < length ?q" "0 < j \<and> 0 \<le> parent j"
    then have "parent j < j" using parent_less by blast
    then have "?q ! parent j = (if parent j = 0 then last q else q ! parent j)" "?q ! j = q ! j"
      using j False by (auto simp: nth_butlast)
    then show "if parent j \<noteq> 0 then key (?q ! parent j) \<le> key (?q ! j) else 0 < (0 :: nat) \<and> 0 \<le> parent 0 \<longrightarrow> key (?q ! parent 0) \<le> key (?q ! j)"
      using assms j by (simp add: heap_from_def)
  qed
  then show ?thesis using False by (simp add: heap_pop_def heap_sift_down)
qed

lemma heap_heap_make: "heap_from key 0 (heap_make key q)"
proof -
  have "heap_from key 0 (fold (sift_down key) (rev [0..<k]) q)" if "heap_from key k q" for k
    using that
  proof (induction k arbitrary: q)
    case (Suc k)
    have "hole_down key k k q"
      unfolding hole_down_def
    proof (intro allI impI)
      fix j assume j: "j < length q" "0 < j \<and> k \<le> parent j"
      have "parent k < k" if "0 < k" using parent_less that by blast
      then show "if parent j \<noteq> k then key (q ! parent j) \<le> key (q ! j) else 0 < k \<and> k \<le> parent k \<longrightarrow> key (q ! parent k) \<le> key (q ! j)"
        using Suc.prems j by (auto simp: heap_from_def)
    qed
    then have "heap_from key k (sift_down key k q)" by (intro heap_sift_down) simp_all
    from Suc.IH [OF this] show ?case by simp
  qed simp
  moreover have "heap_from key (length q div 2) q" by (auto simp: heap_from_def parent_def)
  ultimately show ?thesis unfolding heap_make_def by blast
qed

end
