(* ===== verification/Core_Timing.thy ===== *)
theory Core_Timing
  imports Binary_Heap "HOL-Library.Product_Lexorder"
begin

text \<open>
  Emulated time, \<^verbatim>\<open>core/core_timing.h\<close> and \<^verbatim>\<open>core_timing.cpp\<close>: the conversions between real time
  and cycles of the ARM11, the timer of each core with its queue of events, and the operations of
  \<^verbatim>\<open>Timing\<close> on all of them.

  The queue of a timer is a vector that the source keeps as a binary heap for the order on the pair of time and
  insertion number, with the heap functions of the standard library (\<open>Binary_Heap\<close>).  Types of events are named by their registered name, which the source keeps
  unique.  A callback is an element of a type \<open>'cb\<close>, and the function that runs it is an
  argument of \<^verbatim>\<open>Advance\<close>: a callback may change the timers and the rest \<open>'w\<close> of the machine.  The
  floating point product of \<^verbatim>\<open>AddTicks\<close> is an argument as well.
\<close>

section \<open>Conversions between time and cycles\<close>

definition BASE_CLOCK_RATE_ARM11 :: int where "BASE_CLOCK_RATE_ARM11 = 268111856"

definition s64_max :: int where "s64_max = 2 ^ 63 - 1"

definition MAX_VALUE_TO_MULTIPLY :: int where
  "MAX_VALUE_TO_MULTIPLY = s64_max div BASE_CLOCK_RATE_ARM11"

text \<open>
  The rate is unsigned, so a product with it is computed modulo \<open>2 ^ 64\<close>, also for a negative
  time, and the quotient is converted to the signed type of the result.
\<close>

definition rate_div :: "int \<Rightarrow> int \<Rightarrow> int" where
  "rate_div t d = wrap_s64 (wrap_u64 (BASE_CLOCK_RATE_ARM11 * t) div d)"

text \<open>Signed division of C rounds to zero.\<close>

definition quot_s :: "int \<Rightarrow> int \<Rightarrow> int" where
  "quot_s a b = (if a < 0 then - (- a div b) else a div b)"

definition msToCycles :: "int \<Rightarrow> int" where
  "msToCycles ms = rate_div ms 1000"

definition usToCycles_int :: "int \<Rightarrow> int" where
  "usToCycles_int us = rate_div us 1000000"

definition nsToCycles_int :: "int \<Rightarrow> int" where
  "nsToCycles_int ns = rate_div ns 1000000000"

definition usToCycles_s64 :: "int \<Rightarrow> int" where
  "usToCycles_s64 us =
     (if quot_s us 1000000 > MAX_VALUE_TO_MULTIPLY then s64_max
      else if us > MAX_VALUE_TO_MULTIPLY then rate_div (quot_s us 1000000) 1
      else rate_div us 1000000)"

definition usToCycles_u64 :: "int \<Rightarrow> int" where
  "usToCycles_u64 us =
     (if us div 1000000 > MAX_VALUE_TO_MULTIPLY then s64_max
      else if us > MAX_VALUE_TO_MULTIPLY then rate_div (wrap_s64 (us div 1000000)) 1
      else rate_div (wrap_s64 us) 1000000)"

definition nsToCycles :: "int \<Rightarrow> int" where
  "nsToCycles ns =
     (if quot_s ns 1000000000 > MAX_VALUE_TO_MULTIPLY then s64_max
      else if ns > MAX_VALUE_TO_MULTIPLY then rate_div (quot_s ns 1000000000) 1
      else rate_div ns 1000000000)"

definition nsToCycles_u64 :: "int \<Rightarrow> int" where
  "nsToCycles_u64 ns =
     (if ns div 1000000000 > MAX_VALUE_TO_MULTIPLY then s64_max
      else if ns > MAX_VALUE_TO_MULTIPLY then rate_div (quot_s (wrap_s64 ns) 1000000000) 1
      else rate_div (wrap_s64 ns) 1000000000)"

text \<open>The product is signed here; the division converts it to unsigned.\<close>

definition cyclesToNs :: "int \<Rightarrow> int" where
  "cyclesToNs cycles = wrap_u64 (wrap_s64 (cycles * 1000000000)) div BASE_CLOCK_RATE_ARM11"

definition cyclesToUs :: "int \<Rightarrow> int" where
  "cyclesToUs cycles = wrap_s64 (wrap_u64 (wrap_s64 (cycles * 1000000)) div BASE_CLOCK_RATE_ARM11)"

definition cyclesToMs :: "int \<Rightarrow> int" where
  "cyclesToMs cycles = wrap_u64 (wrap_s64 (cycles * 1000)) div BASE_CLOCK_RATE_ARM11"


section \<open>Data\<close>

definition MAX_SLICE_LENGTH :: int where
  "MAX_SLICE_LENGTH = BASE_CLOCK_RATE_ARM11 div 234"

record Timing_Event =
  ev_time :: int
  fifo_order :: nat
  ev_user_data :: nat
  ev_type :: string

record Timing_Timer =
  event_queue :: "Timing_Event list"
  event_fifo_id :: nat
  ts_queue :: "Timing_Event list"
  is_timer_sane :: bool
  slice_length :: int
  downcount :: int
  executed_ticks :: int
  idled_cycles :: int
  clock_percentage :: nat

record 'cb Timing =
  event_types :: "string \<rightharpoonup> 'cb option"
  timers :: "Timing_Timer list"
  current_timer :: nat
  event_queue_locked :: bool

text \<open>\<^verbatim>\<open>Event::operator>\<close> and \<^verbatim>\<open>operator<\<close> compare the pair of time and insertion number.\<close>

definition ev_key :: "Timing_Event \<Rightarrow> int \<times> nat" where
  "ev_key e = (ev_time e, fifo_order e)"

definition event_less :: "Timing_Event \<Rightarrow> Timing_Event \<Rightarrow> bool" where
  "event_less a b \<longleftrightarrow> ev_key a < ev_key b"

text \<open>\<^verbatim>\<open>std::push_heap\<close>, \<^verbatim>\<open>std::pop_heap\<close> and \<^verbatim>\<open>std::make_heap\<close> with \<^verbatim>\<open>std::greater<>\<close>.\<close>

definition push_heap :: "Timing_Event list \<Rightarrow> Timing_Event list" where
  "push_heap q = heap_push ev_key q"

definition pop_heap :: "Timing_Event list \<Rightarrow> Timing_Event list" where
  "pop_heap q = heap_pop ev_key q"

definition make_heap :: "Timing_Event list \<Rightarrow> Timing_Event list" where
  "make_heap q = heap_make ev_key q"


section \<open>Operations of one timer\<close>

definition new_Timer :: "int \<Rightarrow> Timing_Timer" where
  "new_Timer base_ticks =
     \<lparr>event_queue = [], event_fifo_id = 0, ts_queue = [], is_timer_sane = True,
      slice_length = MAX_SLICE_LENGTH, downcount = MAX_SLICE_LENGTH, executed_ticks = base_ticks,
      idled_cycles = 0, clock_percentage = 100\<rparr>"

definition Timer_GetTicks :: "Timing_Timer \<Rightarrow> int" where
  "Timer_GetTicks t =
     (if is_timer_sane t then wrap_u64 (executed_ticks t)
      else wrap_u64 (executed_ticks t + (slice_length t - downcount t)))"

definition Timer_AddTicks :: "(nat \<Rightarrow> int \<Rightarrow> int) \<Rightarrow> int \<Rightarrow> Timing_Timer \<Rightarrow> Timing_Timer" where
  "Timer_AddTicks scale ticks t =
     t\<lparr>downcount := wrap_s64 (downcount t - scale (clock_percentage t) ticks)\<rparr>"

definition Timer_ForceExceptionCheck :: "int \<Rightarrow> Timing_Timer \<Rightarrow> Timing_Timer" where
  "Timer_ForceExceptionCheck cycles t =
     (let cycles = max 0 cycles in
      if downcount t > cycles
      then t\<lparr>slice_length := wrap_s64 (slice_length t - (downcount t - cycles)), downcount := cycles\<rparr>
      else t)"

definition push_event :: "Timing_Event \<Rightarrow> Timing_Timer \<Rightarrow> Timing_Timer" where
  "push_event ev t =
     t\<lparr>event_queue := push_heap (event_queue t @ [ev\<lparr>fifo_order := event_fifo_id t\<rparr>]),
       event_fifo_id := (event_fifo_id t + 1) mod 2 ^ 64\<rparr>"

definition Timer_MoveEvents :: "Timing_Timer \<Rightarrow> Timing_Timer" where
  "Timer_MoveEvents t = (fold push_event (ts_queue t) t)\<lparr>ts_queue := []\<rparr>"

definition Timer_GetMaxSliceLength :: "Timing_Timer \<Rightarrow> int option" where
  "Timer_GetMaxSliceLength t =
     (case event_queue t of
        [] \<Rightarrow> Some MAX_SLICE_LENGTH
      | next_event # _ \<Rightarrow>
          if wrap_s64 (ev_time next_event - executed_ticks t) > 0
          then Some (wrap_s64 (ev_time next_event - executed_ticks t)) else None)"

definition Timer_SetNextSlice :: "int \<Rightarrow> Timing_Timer \<Rightarrow> Timing_Timer" where
  "Timer_SetNextSlice max_slice_length t =
     (let slice = (case event_queue t of
                     [] \<Rightarrow> max_slice_length
                   | front # _ \<Rightarrow>
                       wrap_s32 (min (wrap_s64 (ev_time front - executed_ticks t)) max_slice_length))
      in t\<lparr>slice_length := slice, downcount := slice\<rparr>)"

definition Timer_Idle :: "Timing_Timer \<Rightarrow> Timing_Timer" where
  "Timer_Idle t = t\<lparr>idled_cycles := wrap_u64 (idled_cycles t + downcount t), downcount := 0\<rparr>"

definition advance_start :: "Timing_Timer \<Rightarrow> Timing_Timer" where
  "advance_start t0 =
     (let t = Timer_MoveEvents t0 in
      t\<lparr>idled_cycles := 0, executed_ticks := wrap_s64 (executed_ticks t + (slice_length t - downcount t)),
        slice_length := 0, downcount := 0, is_timer_sane := True\<rparr>)"


section \<open>Operations of all timers\<close>

definition upd_timer :: "nat \<Rightarrow> (Timing_Timer \<Rightarrow> Timing_Timer) \<Rightarrow> 'cb Timing \<Rightarrow> 'cb Timing" where
  "upd_timer i f T = T\<lparr>timers := (timers T)[i := f (timers T ! i)]\<rparr>"

definition UpdateClockSpeed :: "nat \<Rightarrow> 'cb Timing \<Rightarrow> 'cb Timing" where
  "UpdateClockSpeed pct T = T\<lparr>timers := map (\<lambda>t. t\<lparr>clock_percentage := pct\<rparr>) (timers T)\<rparr>"

definition new_Timing :: "nat \<Rightarrow> nat \<Rightarrow> int \<Rightarrow> int \<Rightarrow> 'cb Timing" where
  "new_Timing num_cores pct override_base_ticks generated =
     (let base_ticks = (if override_base_ticks \<ge> 0 then override_base_ticks else generated) in
      UpdateClockSpeed pct
        \<lparr>event_types = Map.empty, timers = replicate num_cores (new_Timer base_ticks),
         current_timer = 0, event_queue_locked = False\<rparr>)"

definition RegisterEvent :: "string \<Rightarrow> 'cb option \<Rightarrow> 'cb Timing \<Rightarrow> 'cb Timing" where
  "RegisterEvent name callback T =
     (let old = (case event_types T name of None \<Rightarrow> None | Some c \<Rightarrow> c) in
      T\<lparr>event_types := (event_types T)(name \<mapsto> (if callback = None then old else callback))\<rparr>)"

text \<open>
  \<open>core_id = None\<close> is the default argument, the current timer.  The source asserts that a given core exists.
\<close>

definition ScheduleEvent ::
  "int \<Rightarrow> string \<Rightarrow> nat \<Rightarrow> nat option \<Rightarrow> bool \<Rightarrow> 'cb Timing \<Rightarrow> 'cb Timing option" where
  "ScheduleEvent cycles_into_future event_type user_data core_id thread_safe_mode T =
     (if event_queue_locked T then Some T
      else let i = (case core_id of None \<Rightarrow> current_timer T | Some c \<Rightarrow> c) in
      if \<not> i < length (timers T) then None
      else let timer = timers T ! i in
      if thread_safe_mode then
        let cycles = max (MAX_SLICE_LENGTH * 2) cycles_into_future in
        Some (upd_timer i (\<lambda>t. t\<lparr>ts_queue := ts_queue t @
          [\<lparr>ev_time = wrap_s64 (Timer_GetTicks timer + cycles), fifo_order = 0,
            ev_user_data = user_data, ev_type = event_type\<rparr>]\<rparr>) T)
      else
        let timeout = wrap_s64 (Timer_GetTicks timer + cycles_into_future) in
        let ev = \<lparr>ev_time = timeout, fifo_order = 0, ev_user_data = user_data, ev_type = event_type\<rparr> in
        if current_timer T = i then
          Some (upd_timer i (\<lambda>t. push_event ev
            (if \<not> is_timer_sane t then Timer_ForceExceptionCheck cycles_into_future t else t)) T)
        else Some (upd_timer i (\<lambda>t. t\<lparr>ts_queue := ts_queue t @ [ev]\<rparr>) T))"

definition remove_events :: "(Timing_Event \<Rightarrow> bool) \<Rightarrow> Timing_Timer \<Rightarrow> Timing_Timer" where
  "remove_events P t =
     (let q = filter (\<lambda>e. \<not> P e) (event_queue t) in
      if length q \<noteq> length (event_queue t) then t\<lparr>event_queue := make_heap q\<rparr> else t)"

definition UnscheduleEvent :: "string \<Rightarrow> nat \<Rightarrow> 'cb Timing \<Rightarrow> 'cb Timing" where
  "UnscheduleEvent event_type user_data T =
     (if event_queue_locked T then T
      else T\<lparr>timers := map (remove_events (\<lambda>e. ev_type e = event_type \<and> ev_user_data e = user_data))
                         (timers T)\<rparr>)"

definition RemoveEvent :: "string \<Rightarrow> 'cb Timing \<Rightarrow> 'cb Timing" where
  "RemoveEvent event_type T =
     (if event_queue_locked T then T
      else T\<lparr>timers := map (remove_events (\<lambda>e. ev_type e = event_type)) (timers T)\<rparr>)"

definition SetCurrentTimer :: "nat \<Rightarrow> 'cb Timing \<Rightarrow> 'cb Timing option" where
  "SetCurrentTimer core_id T = (if core_id < length (timers T) then Some (T\<lparr>current_timer := core_id\<rparr>) else None)"

definition Timing_GetTicks :: "'cb Timing \<Rightarrow> int" where
  "Timing_GetTicks T = wrap_s64 (Timer_GetTicks (timers T ! current_timer T))"

text \<open>\<^verbatim>\<open>std::max_element\<close> over the timers; an empty list would dereference the end.\<close>

definition GetGlobalTicks :: "'cb Timing \<Rightarrow> int option" where
  "GetGlobalTicks T = (case map Timer_GetTicks (timers T) of [] \<Rightarrow> None | x # xs \<Rightarrow> Some (wrap_s64 (fold max xs x)))"

definition GetGlobalTimeUs :: "'cb Timing \<Rightarrow> int option" where
  "GetGlobalTimeUs T = map_option
     (\<lambda>t. wrap_s64 (wrap_u64 (wrap_s64 (t * 1000000)) div BASE_CLOCK_RATE_ARM11)) (GetGlobalTicks T)"

definition GetTimer :: "nat \<Rightarrow> 'cb Timing \<Rightarrow> Timing_Timer option" where
  "GetTimer cpu_id T = (if cpu_id < length (timers T) then Some (timers T ! cpu_id) else None)"

definition UnlockEventQueue :: "'cb Timing \<Rightarrow> 'cb Timing" where
  "UnlockEventQueue T = T\<lparr>event_queue_locked := False\<rparr>"

text \<open>
  The loop of \<^verbatim>\<open>Timer::Advance\<close> on core \<open>i\<close>.  Its callbacks run on the whole state, so the loop is
  bounded by a number of iterations; running out of it, and an assertion that fails in a callback, are \<open>None\<close>.  An
  event whose type has no callback is dropped.
\<close>

definition pop_event :: "Timing_Timer \<Rightarrow> Timing_Timer" where
  "pop_event t = t\<lparr>event_queue := butlast (pop_heap (event_queue t))\<rparr>"

type_synonym ('cb, 'w) invoker =
  "'cb \<Rightarrow> nat \<Rightarrow> int \<Rightarrow> 'cb Timing \<times> 'w \<Rightarrow> ('cb Timing \<times> 'w) option"

fun advance_loop ::
  "('cb, 'w) invoker \<Rightarrow> nat \<Rightarrow> nat \<Rightarrow> 'cb Timing \<times> 'w \<Rightarrow> ('cb Timing \<times> 'w) option" where
  "advance_loop invoke 0 i s = None"
| "advance_loop invoke (Suc n) i (T, w) =
     (let t = timers T ! i in
      case event_queue t of
        [] \<Rightarrow> Some (T, w)
      | evt # _ \<Rightarrow>
          if ev_time evt \<le> executed_ticks t then
            let T1 = upd_timer i pop_event T in
            (case event_types T1 (ev_type evt) of
               Some (Some cb) \<Rightarrow>
                 Option.bind
                   (invoke cb (ev_user_data evt) (wrap_s32 (executed_ticks t - ev_time evt)) (T1, w))
                   (advance_loop invoke n i)
             | _ \<Rightarrow> advance_loop invoke n i (T1, w))
          else Some (T, w))"

definition Advance ::
  "('cb, 'w) invoker \<Rightarrow> nat \<Rightarrow> nat \<Rightarrow> 'cb Timing \<times> 'w \<Rightarrow> ('cb Timing \<times> 'w) option" where
  "Advance invoke fuel i s = do {
     (T, w) \<leftarrow> advance_loop invoke fuel i (upd_timer i advance_start (fst s), snd s);
     Some (upd_timer i (\<lambda>t. t\<lparr>is_timer_sane := False\<rparr>) T, w)
   }"


section \<open>Conversions\<close>

lemmas time_consts = BASE_CLOCK_RATE_ARM11_def s64_max_def MAX_VALUE_TO_MULTIPLY_def

lemma wrap_u64_id [simp]: "0 \<le> x \<Longrightarrow> x < 2 ^ 64 \<Longrightarrow> wrap_u64 x = x"
  by (simp add: wrap_u64_def)

lemma wrap_u64_neg: "- (2 ^ 64) \<le> x \<Longrightarrow> x < 0 \<Longrightarrow> wrap_u64 x = x + 2 ^ 64"
proof -
  assume "- (2 ^ 64) \<le> x" "x < 0"
  then have "(x + 2 ^ 64) mod 2 ^ 64 = x + 2 ^ 64"
    by (intro mod_pos_pos_trivial) auto
  then show ?thesis
    unfolding wrap_u64_def by (metis mod_add_self2)
qed

text \<open>In range, a scaled time is the exact quotient.\<close>

lemma rate_div_exact:
  assumes "0 \<le> t" "t \<le> MAX_VALUE_TO_MULTIPLY" "0 < d"
  shows "rate_div t d = BASE_CLOCK_RATE_ARM11 * t div d"
proof -
  have b: "0 \<le> BASE_CLOCK_RATE_ARM11 * t" "BASE_CLOCK_RATE_ARM11 * t < 2 ^ 63"
    using assms by (simp_all add: time_consts)
  have "BASE_CLOCK_RATE_ARM11 * t div d \<le> BASE_CLOCK_RATE_ARM11 * t"
    using zdiv_mono2 [of "BASE_CLOCK_RATE_ARM11 * t" 1 d] b(1) assms(3) by simp
  moreover have "0 \<le> BASE_CLOCK_RATE_ARM11 * t div d"
    using b(1) assms(3) by (simp add: pos_imp_zdiv_nonneg_iff)
  ultimately have "in_s64 (BASE_CLOCK_RATE_ARM11 * t div d)"
    using b by (simp add: in_s64_def)
  then show ?thesis
    using b by (simp add: rate_div_def)
qed


lemma quot_s_nonneg [simp]: "0 \<le> a \<Longrightarrow> quot_s a b = a div b"
  by (simp add: quot_s_def)

lemma max_value [simp]: "MAX_VALUE_TO_MULTIPLY = 34401209161"
  by (simp add: time_consts)

lemma nsToCycles_exact:
  "0 \<le> ns \<Longrightarrow> ns \<le> MAX_VALUE_TO_MULTIPLY \<Longrightarrow> nsToCycles ns = BASE_CLOCK_RATE_ARM11 * ns div 1000000000"
proof -
  assume h: "0 \<le> ns" "ns \<le> MAX_VALUE_TO_MULTIPLY"
  then have "\<not> ns div 1000000000 > MAX_VALUE_TO_MULTIPLY"
    unfolding max_value by linarith
  then show ?thesis
    using h rate_div_exact [OF h, of 1000000000] by (simp add: nsToCycles_def)
qed

lemma nsToCycles_rounded:
  assumes "MAX_VALUE_TO_MULTIPLY < ns" "ns < 2 ^ 63"
  shows "nsToCycles ns = BASE_CLOCK_RATE_ARM11 * (ns div 1000000000)"
proof -
  have "ns < 9223372036854775808"
    using assms(2) by simp
  then have q: "0 \<le> ns div 1000000000" "ns div 1000000000 \<le> MAX_VALUE_TO_MULTIPLY"
    using assms(1) unfolding max_value by linarith+
  then show ?thesis
    using assms rate_div_exact [OF q, of 1] by (simp add: nsToCycles_def)
qed

text \<open>Accuracy of \<^verbatim>\<open>nsToCycles\<close>.  For every non-negative signed 64-bit duration the conversion never
  overflows or saturates and never rounds up, and it is less than one second of cycles
  below the exact value; up to \<^verbatim>\<open>MAX_VALUE_TO_MULTIPLY\<close> nanoseconds it is the exact quotient.\<close>

theorem nsToCycles_accuracy:
  assumes "0 \<le> ns" and "ns < 2 ^ 63"
  shows "nsToCycles ns \<le> BASE_CLOCK_RATE_ARM11 * ns div 1000000000 \<and>
    BASE_CLOCK_RATE_ARM11 * ns div 1000000000 - BASE_CLOCK_RATE_ARM11 < nsToCycles ns \<and>
    (ns \<le> MAX_VALUE_TO_MULTIPLY \<longrightarrow> nsToCycles ns = BASE_CLOCK_RATE_ARM11 * ns div 1000000000)"
proof (cases "ns \<le> MAX_VALUE_TO_MULTIPLY")
  case True
  then show ?thesis
    using nsToCycles_exact [OF assms(1)] by (simp add: BASE_CLOCK_RATE_ARM11_def)
next
  case False
  then show ?thesis
    using nsToCycles_rounded [of ns] assms(2) unfolding BASE_CLOCK_RATE_ARM11_def by linarith
qed

theorem nsToCycles_accuracy_witness:
  "(0 :: int) \<le> 16000000 \<and> (16000000 :: int) < 2 ^ 63 \<and> nsToCycles 16000000 = 4289789"
  using nsToCycles_accuracy [of 16000000] by (simp add: BASE_CLOCK_RATE_ARM11_def)

text \<open>The rounding of long durations drops the fraction of a second, so the conversion is not
  monotone: a wait of 34.402 seconds takes fewer cycles than a wait of 34.4 seconds.\<close>

theorem nsToCycles_not_monotone:
  "nsToCycles 34402000000 < nsToCycles 34400000000"
  using nsToCycles_rounded [of 34402000000] nsToCycles_exact [of 34400000000]
  by (simp add: BASE_CLOCK_RATE_ARM11_def)

text \<open>A negative duration.  The rate is an unsigned constant, so the product wraps around at
  \<open>2 ^ 64\<close> before the division: converting any small negative duration, in milliseconds as an \<^verbatim>\<open>int\<close> or in
  nanoseconds as an \<^verbatim>\<open>s64\<close>, gives a large positive number of cycles, although a comment says that the
  conversion of an \<^verbatim>\<open>int\<close> cannot overflow.\<close>

theorem negative_time_wraps:
  assumes "- (2 ^ 31) \<le> t" and "t < 0"
  shows "msToCycles t = (2 ^ 64 + BASE_CLOCK_RATE_ARM11 * t) div 1000 \<and> 0 < msToCycles t \<and>
         nsToCycles t = (2 ^ 64 + BASE_CLOCK_RATE_ARM11 * t) div 1000000000 \<and> 0 < nsToCycles t"
proof -
  have p: "- (2 ^ 31 * 268111856) \<le> BASE_CLOCK_RATE_ARM11 * t" "BASE_CLOCK_RATE_ARM11 * t < 0"
    using assms by (simp_all add: BASE_CLOCK_RATE_ARM11_def)
  then have u: "wrap_u64 (BASE_CLOCK_RATE_ARM11 * t) = 2 ^ 64 + BASE_CLOCK_RATE_ARM11 * t"
    using wrap_u64_neg [of "BASE_CLOCK_RATE_ARM11 * t"] by simp
  have d: "rate_div t d = (2 ^ 64 + BASE_CLOCK_RATE_ARM11 * t) div d \<and> 0 < rate_div t d"
    if "d = 1000 \<or> d = 1000000000" for d
  proof -
    have "0 < (2 ^ 64 + BASE_CLOCK_RATE_ARM11 * t) div d"
      "(2 ^ 64 + BASE_CLOCK_RATE_ARM11 * t) div d < 2 ^ 63"
      using that p by auto
    then show ?thesis
      unfolding rate_div_def u by (simp add: in_s64_def)
  qed
  have "- t div 1000000000 \<ge> 0"
    using assms by (simp add: pos_imp_zdiv_nonneg_iff)
  then have "nsToCycles t = rate_div t 1000000000"
    using assms by (simp add: nsToCycles_def quot_s_def)
  then show ?thesis
    using d [of 1000] d [of 1000000000] by (simp add: msToCycles_def)
qed

theorem negative_time_wraps_witness:
  "- (2 ^ 31) \<le> (- 2 :: int) \<and> nsToCycles (- 2) = 18446744073"
  using negative_time_wraps [of "- 2"] by (simp add: BASE_CLOCK_RATE_ARM11_def)

text \<open>Round trip between cycles and nanoseconds.  For up to 9223372036 cycles, about 34.4 seconds,
  converting to nanoseconds and back loses at most one cycle; one cycle more and the signed
  product in \<^verbatim>\<open>cyclesToNs\<close> overflows.\<close>

theorem cycles_ns_roundtrip:
  assumes "0 \<le> cycles" and "cycles \<le> 9223372036"
  shows "cyclesToNs cycles = cycles * 1000000000 div BASE_CLOCK_RATE_ARM11 \<and>
         nsToCycles (cyclesToNs cycles) \<in> {cycles - 1, cycles} \<and> \<not> in_s64 (9223372037 * 1000000000)"
proof -
  have "in_s64 (cycles * 1000000000)"
    using assms by (simp add: in_s64_def)
  then have e: "cyclesToNs cycles = cycles * 1000000000 div BASE_CLOCK_RATE_ARM11"
    using assms by (simp add: cyclesToNs_def)
  have "0 \<le> cyclesToNs cycles" "cyclesToNs cycles \<le> MAX_VALUE_TO_MULTIPLY"
    using assms unfolding e max_value BASE_CLOCK_RATE_ARM11_def by linarith+
  then have "nsToCycles (cyclesToNs cycles) = BASE_CLOCK_RATE_ARM11 * cyclesToNs cycles div 1000000000"
    by (rule nsToCycles_exact)
  moreover have "BASE_CLOCK_RATE_ARM11 * cyclesToNs cycles div 1000000000 \<in> {cycles - 1, cycles}"
    unfolding e BASE_CLOCK_RATE_ARM11_def by auto
  ultimately show ?thesis
    using e by (simp add: in_s64_def)
qed

theorem cycles_ns_roundtrip_witness:
  "cyclesToNs 268111856 = 1000000000 \<and> nsToCycles (cyclesToNs 268111856) \<in> {268111855, 268111856}"
  using cycles_ns_roundtrip [of 268111856] by (auto simp: BASE_CLOCK_RATE_ARM11_def)



section \<open>The event queue\<close>

text \<open>What the operations of \<^verbatim>\<open>Timing\<close> rely on of the standard heap functions.\<close>

locale min_heap =
  fixes key :: "'e \<Rightarrow> 'k :: linorder" and heap :: "'e list \<Rightarrow> bool"
    and push :: "'e \<Rightarrow> 'e list \<Rightarrow> 'e list" and pop :: "'e list \<Rightarrow> 'e list" and make :: "'e list \<Rightarrow> 'e list"
  assumes heap_Nil: "heap []"
    and heap_push: "heap q \<Longrightarrow> heap (push e q)"
    and mset_push: "mset (push e q) = add_mset e (mset q)"
    and heap_make: "heap (make q)"
    and mset_make: "mset (make q) = mset q"
    and heap_first: "heap (e # q) \<Longrightarrow> x \<in> set q \<Longrightarrow> key e \<le> key x"
    and heap_pop: "heap q \<Longrightarrow> heap (pop q)"
    and mset_pop: "mset (pop (e # q)) = mset q"
begin

lemma set_push: "set (push e q) = insert e (set q)"
  by (metis mset_push set_mset_add_mset_insert set_mset_mset)

lemma set_make: "set (make q) = set q"
  by (metis mset_make set_mset_mset)

lemma set_pop: "set (pop (e # q)) = set q"
  by (metis mset_pop set_mset_mset)

lemma length_push: "length (push e q) = Suc (length q)"
  by (metis mset_push size_add_mset size_mset)

text \<open>The front of a heap with distinct keys comes first in the sorted order.\<close>

lemma sort_front:
  assumes "heap (e # q)" "distinct (map key xs)" "mset xs = add_mset e (mset ys)" "set ys \<subseteq> set q"
  shows "sort_key key xs = e # sort_key key ys"
proof (rule sort_key_inj_key_eq)
  show "mset xs = mset (e # sort_key key ys)" using assms(3) by simp
  show "inj_on key (set xs)" using assms(2) by (simp add: distinct_map)
  show "sorted (map key (e # sort_key key ys))" using heap_first [OF assms(1)] assms(4) by auto
qed

end

definition is_heap :: "Timing_Event list \<Rightarrow> bool" where
  "is_heap q \<longleftrightarrow> (\<forall>j < length q. 0 < j \<longrightarrow> ev_key (q ! ((j - 1) div 2)) \<le> ev_key (q ! j))"

lemma is_heap_from: "is_heap q = heap_from ev_key 0 q"
  by (simp add: is_heap_def heap_from_def parent_def)

interpretation eq: min_heap ev_key is_heap "\<lambda>e q. push_heap (q @ [e])" "\<lambda>q. butlast (pop_heap q)" make_heap
proof unfold_locales
  fix e x :: Timing_Event and q
  assume h: "is_heap (e # q)" "x \<in> set q"
  then obtain j where "j < length q" "q ! j = x" by (auto simp: in_set_conv_nth)
  then show "ev_key e \<le> ev_key x" using heap_front [of ev_key "e # q" "Suc j"] h(1) by (simp add: is_heap_from)
qed (simp_all add: is_heap_from push_heap_def pop_heap_def make_heap_def heap_heap_push heap_heap_pop heap_heap_make
      heap_pop_shape, simp add: heap_from_def)

definition timer_inv :: "Timing_Timer \<Rightarrow> bool" where
  "timer_inv t \<longleftrightarrow> is_heap (event_queue t)"

definition timing_inv :: "'cb Timing \<Rightarrow> bool" where
  "timing_inv T \<longleftrightarrow> current_timer T < length (timers T) \<and> list_all timer_inv (timers T)"

lemma timer_inv_push [inv_intros]: "timer_inv t \<Longrightarrow> timer_inv (push_event ev t)"
  by (simp add: timer_inv_def push_event_def eq.heap_push)

lemma timer_inv_MoveEvents [inv_intros]: "timer_inv t \<Longrightarrow> timer_inv (Timer_MoveEvents t)"
proof -
  have "timer_inv t \<Longrightarrow> timer_inv (fold push_event es t)" for es
    by (induction es arbitrary: t) (simp_all add: timer_inv_push)
  then show "timer_inv t \<Longrightarrow> timer_inv (Timer_MoveEvents t)"
    by (simp add: Timer_MoveEvents_def timer_inv_def)
qed

lemma force_frame [simp]:
  "event_queue (Timer_ForceExceptionCheck c t) = event_queue t"
  "ts_queue (Timer_ForceExceptionCheck c t) = ts_queue t"
  "executed_ticks (Timer_ForceExceptionCheck c t) = executed_ticks t"
  "is_timer_sane (Timer_ForceExceptionCheck c t) = is_timer_sane t"
  by (simp_all add: Timer_ForceExceptionCheck_def Let_def)

lemma timer_inv_remove [inv_intros]: "timer_inv t \<Longrightarrow> timer_inv (remove_events P t)"
  by (simp add: timer_inv_def remove_events_def Let_def eq.heap_make)

lemma timer_inv_start [inv_intros]: "timer_inv t \<Longrightarrow> timer_inv (advance_start t)"
  using timer_inv_MoveEvents [of t] by (simp add: timer_inv_def advance_start_def Let_def)

lemma timing_inv_upd:
  assumes "timing_inv T" "i < length (timers T)" "timer_inv (timers T ! i) \<Longrightarrow> timer_inv (f (timers T ! i))"
  shows "timing_inv (upd_timer i f T)"
  using assms by (auto simp: timing_inv_def upd_timer_def list_all_length nth_list_update)

text \<open>An event without its insertion number.\<close>

definition ev_core :: "Timing_Event \<Rightarrow> string \<times> nat \<times> int" where
  "ev_core e = (ev_type e, ev_user_data e, ev_time e)"

lemma push_event_core:
  "ev_core ` set (event_queue (push_event e t)) = insert (ev_core e) (ev_core ` set (event_queue t))"
  by (simp add: push_event_def eq.set_push ev_core_def)

lemma MoveEvents_core:
  "ev_core ` set (event_queue (Timer_MoveEvents t)) = ev_core ` (set (ts_queue t) \<union> set (event_queue t))"
proof -
  have "ev_core ` set (event_queue (fold push_event es t)) =
        ev_core ` set es \<union> ev_core ` set (event_queue t)" for es
    by (induction es arbitrary: t) (simp_all add: push_event_core)
  then show ?thesis
    by (simp add: Timer_MoveEvents_def image_Un)
qed

lemma MoveEvents_frame:
  "executed_ticks (Timer_MoveEvents t) = executed_ticks t"
  "slice_length (Timer_MoveEvents t) = slice_length t"
  "downcount (Timer_MoveEvents t) = downcount t"
proof -
  have "executed_ticks (fold push_event es t) = executed_ticks t \<and>
        slice_length (fold push_event es t) = slice_length t \<and>
        downcount (fold push_event es t) = downcount t" for es
    by (induction es arbitrary: t) (simp_all add: push_event_def)
  then show "executed_ticks (Timer_MoveEvents t) = executed_ticks t"
    "slice_length (Timer_MoveEvents t) = slice_length t" "downcount (Timer_MoveEvents t) = downcount t"
    by (simp_all add: Timer_MoveEvents_def)
qed

lemma ScheduleEvent_inv:
  assumes "timing_inv T" "ScheduleEvent c ty ud core ts T = Some T'"
  shows "timing_inv T'"
proof -
  define i where "i = (case core of None \<Rightarrow> current_timer T | Some c \<Rightarrow> c)"
  show ?thesis
    using assms unfolding ScheduleEvent_def i_def [symmetric] Let_def
    by (auto split: if_splits intro!: timing_inv_upd inv_intros simp: timer_inv_def)
qed

lemma remove_events_set:
  "set (event_queue (remove_events P t)) = {e \<in> set (event_queue t). \<not> P e}"
proof (cases "length (filter (\<lambda>e. \<not> P e) (event_queue t)) = length (event_queue t)")
  case True
  then have "filter (\<lambda>e. \<not> P e) (event_queue t) = event_queue t"
    by (metis length_filter_less filter_id_conv less_irrefl)
  then have "set (event_queue t) = {e \<in> set (event_queue t). \<not> P e}"
    by (metis set_filter)
  then show ?thesis
    using True by (simp add: remove_events_def)
next
  case False
  then show ?thesis
    by (simp add: remove_events_def Let_def eq.set_make)
qed


text \<open>
  Insertion numbers: the events of a queue have distinct numbers below the number of the next event.  \<open>numbers_used\<close> bounds
  the numbers that a timer has given away or will give to the events that wait to be moved.
\<close>

definition fifo_ok :: "Timing_Timer \<Rightarrow> bool" where
  "fifo_ok t \<longleftrightarrow> distinct (map fifo_order (event_queue t)) \<and> (\<forall>e \<in> set (event_queue t). fifo_order e < event_fifo_id t)"

definition numbers_used :: "Timing_Timer \<Rightarrow> nat" where
  "numbers_used t = event_fifo_id t + length (ts_queue t)"

lemma mset_distinct: "mset xs = mset ys \<Longrightarrow> distinct (map f xs) = distinct (map f ys)"
  by (metis mset_eq_imp_distinct_iff mset_map)

lemma push_event_fifo:
  assumes "fifo_ok t" "event_fifo_id t + 1 < 2 ^ 64"
  shows "fifo_ok (push_event ev t)" "event_fifo_id (push_event ev t) = event_fifo_id t + 1"
proof -
  let ?e = "ev\<lparr>fifo_order := event_fifo_id t\<rparr>"
  have "distinct (map fifo_order (?e # event_queue t))" using assms(1) by (auto simp: fifo_ok_def)
  then have "distinct (map fifo_order (push_heap (event_queue t @ [?e])))"
    using mset_distinct [of "push_heap (event_queue t @ [?e])" "?e # event_queue t" fifo_order] eq.mset_push [of "event_queue t" ?e] by simp
  then show "fifo_ok (push_event ev t)" "event_fifo_id (push_event ev t) = event_fifo_id t + 1"
    using assms by (auto simp: fifo_ok_def push_event_def eq.set_push)
qed

lemma fifo_ok_smaller:
  assumes "fifo_ok t" "mset (event_queue t') \<subseteq># mset (event_queue t)" "event_fifo_id t' = event_fifo_id t"
  shows "fifo_ok t'"
proof -
  obtain ys where "mset (event_queue t) = mset (event_queue t' @ ys)"
    using assms(2) by (metis ex_mset mset_append subset_mset.add_diff_inverse)
  then have "distinct (map fifo_order (event_queue t' @ ys))" using assms(1) mset_distinct by (metis fifo_ok_def)
  moreover have "set (event_queue t') \<subseteq> set (event_queue t)" using assms(2) by (metis set_mset_mono set_mset_mset)
  ultimately show ?thesis using assms(1,3) by (auto simp: fifo_ok_def)
qed

lemma remove_events_fifo: "fifo_ok t \<Longrightarrow> fifo_ok (remove_events P t)"
  by (erule fifo_ok_smaller) (simp_all add: remove_events_def Let_def eq.mset_make multiset_filter_subset)

lemma pop_event_fifo: "fifo_ok t \<Longrightarrow> fifo_ok (pop_event t)"
  by (erule fifo_ok_smaller; cases "event_queue t")
    (simp_all add: pop_event_def eq.mset_pop, simp add: pop_heap_def heap_pop_def)

lemma MoveEvents_fifo:
  assumes "fifo_ok t" "numbers_used t < 2 ^ 64"
  shows "fifo_ok (Timer_MoveEvents t)" "event_fifo_id (Timer_MoveEvents t) = numbers_used t" "ts_queue (Timer_MoveEvents t) = []"
proof -
  have "fifo_ok (fold push_event es t) \<and> event_fifo_id (fold push_event es t) = event_fifo_id t + length es"
    if "fifo_ok t" "event_fifo_id t + length es < 2 ^ 64" for es t
    using that
  proof (induction es arbitrary: t)
    case (Cons e es)
    then show ?case using push_event_fifo [of t e] Cons.IH [of "push_event e t"] by simp
  qed simp
  from this [of t "ts_queue t"] show "fifo_ok (Timer_MoveEvents t)" "event_fifo_id (Timer_MoveEvents t) = numbers_used t"
    using assms by (auto simp: Timer_MoveEvents_def numbers_used_def fifo_ok_def)
  show "ts_queue (Timer_MoveEvents t) = []" by (simp add: Timer_MoveEvents_def)
qed

text \<open>
  The operations on timers, one by one.  Firing is their sequence \<open>T_start\<close>, any number of \<open>T_pop\<close> with the operations of the
  callbacks between them, and \<open>T_end\<close>.
\<close>

inductive timing_step :: "'cb Timing \<Rightarrow> 'cb Timing \<Rightarrow> bool" where
  T_schedule: "ScheduleEvent c ty ud core ts T = Some T' \<Longrightarrow> timing_step T T'"
| T_unschedule: "timing_step T (UnscheduleEvent ty ud T)"
| T_remove: "timing_step T (RemoveEvent ty T)"
| T_register: "timing_step T (RegisterEvent ty cb T)"
| T_current: "SetCurrentTimer c T = Some T' \<Longrightarrow> timing_step T T'"
| T_speed: "timing_step T (UpdateClockSpeed pct T)"
| T_unlock: "timing_step T (UnlockEventQueue T)"
| T_ticks: "i < length (timers T) \<Longrightarrow> timing_step T (upd_timer i (Timer_AddTicks scale n) T)"
| T_idle: "i < length (timers T) \<Longrightarrow> timing_step T (upd_timer i Timer_Idle T)"
| T_slice: "i < length (timers T) \<Longrightarrow> timing_step T (upd_timer i (Timer_SetNextSlice m) T)"
| T_move: "i < length (timers T) \<Longrightarrow> timing_step T (upd_timer i Timer_MoveEvents T)"
| T_start: "i < length (timers T) \<Longrightarrow> timing_step T (upd_timer i advance_start T)"
| T_pop: "i < length (timers T) \<Longrightarrow> event_queue (timers T ! i) \<noteq> [] \<Longrightarrow> timing_step T (upd_timer i pop_event T)"
| T_end: "i < length (timers T) \<Longrightarrow> timing_step T (upd_timer i (\<lambda>t. t\<lparr>is_timer_sane := False\<rparr>) T)"

text \<open>The states that are reached from new timers in a number of operations.\<close>

inductive timing_reached :: "nat \<Rightarrow> nat \<Rightarrow> 'cb Timing \<Rightarrow> bool" for cores where
  reached_new: "timing_reached cores 0 (new_Timing cores pct b g)"
| reached_step: "timing_reached cores n T \<Longrightarrow> timing_step T T' \<Longrightarrow> timing_reached cores (Suc n) T'"

definition timer_good :: "nat \<Rightarrow> Timing_Timer \<Rightarrow> bool" where
  "timer_good n t \<longleftrightarrow> timer_inv t \<and> fifo_ok t \<and> numbers_used t \<le> n"

definition timing_good :: "nat \<Rightarrow> 'cb Timing \<Rightarrow> bool" where
  "timing_good n T \<longleftrightarrow> current_timer T < length (timers T) \<and> list_all (timer_good n) (timers T)"

lemma timing_good_upd:
  assumes "timing_good n T" "i < length (timers T)" "timer_good n (timers T ! i) \<Longrightarrow> timer_good (Suc n) (f (timers T ! i))"
  shows "timing_good (Suc n) (upd_timer i f T)"
  using assms by (auto simp: timing_good_def upd_timer_def list_all_length nth_list_update timer_good_def)

lemma timing_good_map:
  assumes "timing_good n T" "\<And>t. timer_good n t \<Longrightarrow> timer_good n (f t)" "timers T' = map f (timers T)" "current_timer T' = current_timer T"
  shows "timing_good (Suc n) T'"
  using assms by (fastforce simp: timing_good_def list_all_iff timer_good_def)

lemma timer_good_frame:
  assumes "timer_good n t" "event_queue t' = event_queue t" "event_fifo_id t' = event_fifo_id t" "ts_queue t' = ts_queue t"
  shows "timer_good n t'"
  using assms by (simp add: timer_good_def timer_inv_def fifo_ok_def numbers_used_def)

lemma timer_good_mono: "timer_good n t \<Longrightarrow> timer_good (Suc n) t"
  by (simp add: timer_good_def)

lemma timer_good_push:
  assumes "timer_good n t" "n + 1 < 2 ^ 64"
  shows "timer_good (Suc n) (push_event ev t)"
proof -
  have "ts_queue (push_event ev t) = ts_queue t" by (simp add: push_event_def)
  then show ?thesis
    using assms push_event_fifo [of t ev] timer_inv_push [of t ev] by (simp add: timer_good_def numbers_used_def)
qed

lemma timer_good_ts: "timer_good n t \<Longrightarrow> timer_good (Suc n) (t\<lparr>ts_queue := ts_queue t @ [ev]\<rparr>)"
  by (simp add: timer_good_def timer_inv_def fifo_ok_def numbers_used_def)

lemma timer_good_Move:
  assumes "timer_good n t" "n < 2 ^ 64"
  shows "timer_good n (Timer_MoveEvents t)"
  using assms MoveEvents_fifo [of t] timer_inv_MoveEvents [of t] by (simp add: timer_good_def numbers_used_def)

lemma timer_good_remove: "timer_good n t \<Longrightarrow> timer_good n (remove_events P t)"
  using timer_inv_remove [of t P] remove_events_fifo [of t P] by (simp add: timer_good_def numbers_used_def remove_events_def Let_def)

lemma timer_good_pop: "timer_good n t \<Longrightarrow> timer_good n (pop_event t)"
  using pop_event_fifo [of t] by (simp add: timer_good_def numbers_used_def timer_inv_def pop_event_def eq.heap_pop)

lemma timing_good_mono: "timing_good n T \<Longrightarrow> timing_good (Suc n) T"
  by (auto simp: timing_good_def list_all_iff timer_good_mono)

lemma timing_good_remove: "timing_good n T \<Longrightarrow> timing_good (Suc n) (T\<lparr>timers := map (remove_events P) (timers T)\<rparr>)"
  by (rule timing_good_map [where f = "remove_events P"]) (simp_all add: timer_good_remove)

lemma timing_step_good:
  assumes "timing_step T T'" "timing_good n T" "n + 1 < 2 ^ 64"
  shows "timing_good (Suc n) T'"
  using assms(1)
proof cases
  case (T_schedule c ty ud core ts)
  define i where "i = (case core of None \<Rightarrow> current_timer T | Some c \<Rightarrow> c)"
  have push: "timer_good (Suc n) (push_event e (if \<not> is_timer_sane t then Timer_ForceExceptionCheck c t else t))" if "timer_good n t" for e t
    using that assms(3) timer_good_push [of n t e] timer_good_push [OF timer_good_frame [of n t "Timer_ForceExceptionCheck c t"], of e]
    by (simp add: Timer_ForceExceptionCheck_def Let_def)
  show ?thesis
    using T_schedule timing_good_mono [OF assms(2)] timing_good_upd [OF assms(2), of i] push timer_good_ts [of n] unfolding ScheduleEvent_def i_def [symmetric] Let_def
    by (auto split: if_splits)
next
  case (T_unschedule ty ud)
  then show ?thesis
    using timing_good_mono [OF assms(2)] timing_good_remove [OF assms(2)]
    by (cases "event_queue_locked T") (auto simp: UnscheduleEvent_def)
next
  case (T_remove ty)
  then show ?thesis
    using timing_good_mono [OF assms(2)] timing_good_remove [OF assms(2)]
    by (cases "event_queue_locked T") (auto simp: RemoveEvent_def)
next
  case (T_register ty cb)
  then show ?thesis using timing_good_mono [OF assms(2)] by (simp add: RegisterEvent_def Let_def timing_good_def)
next
  case (T_current c)
  then show ?thesis using timing_good_mono [OF assms(2)] by (auto simp: SetCurrentTimer_def timing_good_def split: if_splits)
next
  case (T_speed pct)
  show ?thesis
    by (rule timing_good_map [OF assms(2), of "\<lambda>t. t\<lparr>clock_percentage := pct\<rparr>"])
      (simp_all add: T_speed UpdateClockSpeed_def timer_good_frame)
next
  case T_unlock
  then show ?thesis using timing_good_mono [OF assms(2)] by (simp add: UnlockEventQueue_def timing_good_def)
next
  case (T_ticks i scale m)
  then show ?thesis
    by (auto intro!: timing_good_upd assms(2) timer_good_mono elim: timer_good_frame simp: Timer_AddTicks_def)
next
  case (T_idle i)
  then show ?thesis by (auto intro!: timing_good_upd assms(2) timer_good_mono elim: timer_good_frame simp: Timer_Idle_def)
next
  case (T_slice i m)
  then show ?thesis
    by (auto intro!: timing_good_upd assms(2) timer_good_mono elim: timer_good_frame simp: Timer_SetNextSlice_def Let_def)
next
  case (T_move i)
  then show ?thesis using assms(3) by (auto intro!: timing_good_upd assms(2) timer_good_mono timer_good_Move)
next
  case (T_start i)
  have "timer_good n (advance_start t)" if "timer_good n t" for t
    using timer_good_frame [OF timer_good_Move [OF that]] assms(3) by (simp add: advance_start_def Let_def)
  then show ?thesis using T_start by (auto intro!: timing_good_upd assms(2) timer_good_mono)
next
  case (T_pop i)
  then show ?thesis by (auto intro!: timing_good_upd assms(2) timer_good_mono timer_good_pop)
next
  case (T_end i)
  then show ?thesis by (auto intro!: timing_good_upd assms(2) timer_good_mono elim: timer_good_frame)
qed

lemma timing_reached_good: "timing_reached cores n T \<Longrightarrow> 0 < cores \<Longrightarrow> n < 2 ^ 64 - 1 \<Longrightarrow> timing_good n T"
proof (induction rule: timing_reached.induct)
  case (reached_new pct b g)
  then show ?case
    by (simp add: timing_good_def new_Timing_def UpdateClockSpeed_def Let_def list_all_iff timer_good_def timer_inv_def new_Timer_def
        eq.heap_Nil fifo_ok_def numbers_used_def)
next
  case (reached_step n T T')
  then show ?case by (intro timing_step_good [of T]) simp_all
qed

text \<open>C29: The event queues of all timers.  After any sequence of fewer than \<open>2 ^ 64 - 1\<close> operations from new timers (scheduling on any
  core and from other threads, cancelling, moving, the parts of firing with anything that callbacks do between
  them, and the operations on time), every queue is a binary heap for the order on time and insertion number, its
  events have distinct insertion numbers below the next one, and so its front is strictly before every other event.\<close>

theorem event_queue_invariant:
  assumes "timing_reached cores n T" and "0 < cores" and "n < 2 ^ 64 - 1" and "t \<in> set (timers T)"
  shows "(\<forall>j < length (event_queue t). 0 < j \<longrightarrow> ev_key (event_queue t ! ((j - 1) div 2)) \<le> ev_key (event_queue t ! j)) \<and>
    distinct (map fifo_order (event_queue t)) \<and> (\<forall>e \<in> set (event_queue t). fifo_order e < event_fifo_id t) \<and>
    (\<forall>e q. event_queue t = e # q \<longrightarrow> (\<forall>x \<in> set q. ev_key e < ev_key x))"
proof -
  have g: "timer_good n t" using timing_reached_good [OF assms(1-3)] assms(4) by (simp add: timing_good_def list_all_iff)
  have "ev_key e < ev_key x" if "event_queue t = e # q" "x \<in> set q" for e q x
  proof -
    have "ev_key e \<le> ev_key x" using g that by (intro eq.heap_first [of e q]) (simp_all add: timer_good_def timer_inv_def)
    moreover have "fifo_order e \<noteq> fifo_order x" using g that by (auto simp: timer_good_def fifo_ok_def)
    ultimately show ?thesis by (auto simp: ev_key_def)
  qed
  with g show ?thesis unfolding timer_good_def timer_inv_def is_heap_def fifo_ok_def by blast
qed

text \<open>Three events are scheduled, the last one before the others, and one is cancelled.\<close>

definition demo_events :: "unit Timing" where
  "demo_events = UnscheduleEvent ''b'' 0 (the (ScheduleEvent 5 ''c'' 0 None False (the (ScheduleEvent 20 ''b'' 0 None False
     (the (ScheduleEvent 30 ''a'' 0 None False (new_Timing 1 100 0 0)))))))"

lemma demo_events_reached: "timing_reached 1 4 demo_events"
proof -
  have s: "\<exists>T'. ScheduleEvent c ty 0 None False T = Some T' \<and> current_timer T' < length (timers T') \<and> \<not> event_queue_locked T'"
    if "current_timer T < length (timers T)" "\<not> event_queue_locked T" for T :: "unit Timing" and c ty
    using that by (simp add: ScheduleEvent_def Let_def upd_timer_def)
  have "current_timer (new_Timing 1 100 0 0 :: unit Timing) < length (timers (new_Timing 1 100 0 0 :: unit Timing))"
    "\<not> event_queue_locked (new_Timing 1 100 0 0 :: unit Timing)"
    by (simp_all add: new_Timing_def UpdateClockSpeed_def Let_def)
  then obtain T1 T2 T3 where T: "ScheduleEvent 30 ''a'' 0 None False (new_Timing 1 100 0 0 :: unit Timing) = Some T1"
    "ScheduleEvent 20 ''b'' 0 None False T1 = Some T2" "ScheduleEvent 5 ''c'' 0 None False T2 = Some T3"
    using s by meson
  then have e: "demo_events = UnscheduleEvent ''b'' 0 T3" by (simp add: demo_events_def)
  have "timing_reached 1 (Suc (Suc (Suc 0))) T3"
    by (intro reached_step [OF _ T_schedule [OF T(3)]] reached_step [OF _ T_schedule [OF T(2)]] reached_step [OF _ T_schedule [OF T(1)]] reached_new)
  then show ?thesis unfolding e using reached_step [OF _ T_unschedule] by (simp add: numeral_eq_Suc)
qed

lemma demo_events_queue:
  "timers demo_events = [timers demo_events ! 0]" "map ev_key (event_queue (timers demo_events ! 0)) = [(5, 2), (30, 0)]"
  by (simp_all add: demo_events_def new_Timing_def UpdateClockSpeed_def new_Timer_def ScheduleEvent_def UnscheduleEvent_def upd_timer_def
      Timer_GetTicks_def push_event_def remove_events_def push_heap_def make_heap_def heap_push_def heap_make_def sift_up.simps sift_down.simps
      least_child_def parent_def swap_at_def ev_key_def in_s64_def)

theorem event_queue_invariant_witness:
  "timing_reached 1 4 demo_events \<and> map ev_key (event_queue (timers demo_events ! 0)) = [(5, 2), (30, 0)] \<and>
   distinct (map fifo_order (event_queue (timers demo_events ! 0))) \<and>
   ev_key (event_queue (timers demo_events ! 0) ! 0) \<le> ev_key (event_queue (timers demo_events ! 0) ! 1)"
proof -
  let ?t = "timers demo_events ! 0"
  have t: "?t \<in> set (timers demo_events)" by (subst demo_events_queue(1)) simp
  have l: "1 < length (event_queue ?t)" using arg_cong [OF demo_events_queue(2), of length] by simp
  have "(0::nat) < 1" "(4::nat) < 2 ^ 64 - 1" by simp_all
  note inv = event_queue_invariant [OF demo_events_reached this t]
  have "ev_key (event_queue ?t ! ((1 - 1) div 2)) \<le> ev_key (event_queue ?t ! 1)" using conjunct1 [OF inv] l by auto
  then show ?thesis using inv demo_events_reached demo_events_queue(2) by simp
qed

text \<open>Cancelling an event.  \<^verbatim>\<open>UnscheduleEvent\<close> removes from the queue of every core exactly the events with the
  given type and user data; everything else stays in the queues.  Events that other threads scheduled
  and that have not been moved yet are not cancelled: they stay pending, and moving them brings them into
  the queue.\<close>

theorem unschedule_exact:
  assumes "\<not> event_queue_locked T" and "i < length (timers T)"
  shows "let t = timers T ! i; t' = timers (UnscheduleEvent ty ud T) ! i in
    set (event_queue t') = {e \<in> set (event_queue t). \<not> (ev_type e = ty \<and> ev_user_data e = ud)} \<and>
    ts_queue t' = ts_queue t \<and> executed_ticks t' = executed_ticks t \<and>
    ev_core ` set (event_queue (Timer_MoveEvents t')) = ev_core ` (set (ts_queue t) \<union> set (event_queue t'))"
proof -
  let ?t = "timers T ! i" and ?t' = "remove_events (\<lambda>e. ev_type e = ty \<and> ev_user_data e = ud) (timers T ! i)"
  have t': "timers (UnscheduleEvent ty ud T) ! i = ?t'"
    using assms by (simp add: UnscheduleEvent_def)
  have frame: "ts_queue ?t' = ts_queue ?t" "executed_ticks ?t' = executed_ticks ?t"
    by (simp_all add: remove_events_def Let_def)
  show ?thesis
    unfolding t' Let_def by (simp add: remove_events_set MoveEvents_core frame image_Un)
qed

theorem unschedule_exact_witness:
  "\<not> event_queue_locked (new_Timing 1 100 0 0 :: unit Timing) \<and>
   ts_queue (timers (UnscheduleEvent ''e'' 1 (new_Timing 1 100 0 0 :: unit Timing)) ! 0) = []"
  using unschedule_exact [of "new_Timing 1 100 0 0 :: unit Timing" 0 "''e''" 1]
  by (simp add: new_Timing_def UpdateClockSpeed_def new_Timer_def Let_def)



section \<open>Firing events\<close>

definition due :: "int \<Rightarrow> Timing_Event \<Rightarrow> bool" where
  "due now e \<longleftrightarrow> ev_time e \<le> now"

lemma due_antimono: "ev_key e \<le> ev_key e' \<Longrightarrow> due now e' \<Longrightarrow> due now e"
  by (auto simp: due_def ev_key_def)

text \<open>
  The events that a timer has when it starts to fire: those of its queue, and those that wait to be moved, which
  get the next insertion numbers in the order in which they came.
\<close>

fun numbered :: "nat \<Rightarrow> Timing_Event list \<Rightarrow> Timing_Event list" where
  "numbered k [] = []"
| "numbered k (e # es) = e\<lparr>fifo_order := k\<rparr> # numbered (k + 1) es"

definition pending :: "Timing_Timer \<Rightarrow> Timing_Event list" where
  "pending t = event_queue t @ numbered (event_fifo_id t) (ts_queue t)"

text \<open>What firing one event does to the rest of the machine, and the events it adds.\<close>

definition fire :: "('cb \<Rightarrow> nat \<Rightarrow> int \<Rightarrow> 'w \<Rightarrow> 'w) \<Rightarrow> (string \<rightharpoonup> 'cb option) \<Rightarrow> int \<Rightarrow> Timing_Event \<Rightarrow> 'w \<Rightarrow> 'w" where
  "fire act types now e w =
     (case types (ev_type e) of
        Some (Some cb) \<Rightarrow> act cb (ev_user_data e) (wrap_s32 (now - ev_time e)) w
      | _ \<Rightarrow> w)"

definition added ::
  "('cb \<Rightarrow> nat \<Rightarrow> int \<Rightarrow> (string \<times> nat \<times> int) multiset) \<Rightarrow> (string \<rightharpoonup> 'cb option) \<Rightarrow> int \<Rightarrow> Timing_Event \<Rightarrow> (string \<times> nat \<times> int) multiset" where
  "added new types now e =
     (case types (ev_type e) of
        Some (Some cb) \<Rightarrow> new cb (ev_user_data e) (wrap_s32 (now - ev_time e))
      | _ \<Rightarrow> {#})"

text \<open>
  \<open>same_clock\<close>: a state of the timers while core \<open>i\<close> fires at the time \<open>now\<close>.  \<open>adds_later\<close>: in such states callbacks return, do
  \<open>act\<close> to the rest of the machine, and to the queue of the core they only add events \<open>new\<close>, none of them due.
\<close>

definition same_clock :: "nat \<Rightarrow> int \<Rightarrow> 'cb Timing \<Rightarrow> 'cb Timing \<Rightarrow> bool" where
  "same_clock i now T S \<longleftrightarrow> timing_inv S \<and> length (timers S) = length (timers T) \<and> event_types S = event_types T \<and>
     event_queue_locked S = event_queue_locked T \<and> current_timer S = current_timer T \<and>
     is_timer_sane (timers S ! i) \<and> executed_ticks (timers S ! i) = now"

definition due_events :: "nat \<Rightarrow> int \<Rightarrow> 'cb Timing \<Rightarrow> Timing_Event multiset" where
  "due_events i now S = mset (filter (due now) (event_queue (timers S ! i)))"

definition later_events :: "nat \<Rightarrow> int \<Rightarrow> 'cb Timing \<Rightarrow> (string \<times> nat \<times> int) multiset" where
  "later_events i now S = image_mset ev_core (mset (filter (\<lambda>e. \<not> due now e) (event_queue (timers S ! i))))"

definition adds_later ::
  "('cb, 'w) invoker \<Rightarrow> ('cb \<Rightarrow> nat \<Rightarrow> int \<Rightarrow> 'w \<Rightarrow> 'w) \<Rightarrow> ('cb \<Rightarrow> nat \<Rightarrow> int \<Rightarrow> (string \<times> nat \<times> int) multiset) \<Rightarrow>
   nat \<Rightarrow> int \<Rightarrow> 'cb Timing \<Rightarrow> bool" where
  "adds_later invoke act new i now T \<longleftrightarrow> (\<forall>cb ud late S w. same_clock i now T S \<longrightarrow>
     (\<exists>S'. invoke cb ud late (S, w) = Some (S', act cb ud late w) \<and> same_clock i now T S' \<and>
        due_events i now S' = due_events i now S \<and> later_events i now S' = later_events i now S + new cb ud late))"

lemma upd_timer_simps [simp]:
  "event_types (upd_timer i f T) = event_types T"
  "current_timer (upd_timer i f T) = current_timer T"
  "event_queue_locked (upd_timer i f T) = event_queue_locked T"
  "length (timers (upd_timer i f T)) = length (timers T)"
  "i < length (timers T) \<Longrightarrow> timers (upd_timer i f T) ! i = f (timers T ! i)"
  "upd_timer i g (upd_timer i f T) = (if i < length (timers T) then upd_timer i (g \<circ> f) T else upd_timer i f T)"
  by (simp_all add: upd_timer_def list_update_beyond)

lemma upd_timer_cong: "f (timers T ! i) = g (timers T ! i) \<Longrightarrow> upd_timer i f T = upd_timer i g T"
  by (simp add: upd_timer_def)

lemma numbered_fifo: "map fifo_order (numbered k es) = [k..<k + length es]"
  by (induction es arbitrary: k) (simp_all add: upt_rec)

lemma pending_distinct:
  assumes "fifo_ok t"
  shows "distinct (map ev_key (pending t))"
proof -
  have "set (map fifo_order (event_queue t)) \<subseteq> {..<event_fifo_id t}" using assms by (auto simp: fifo_ok_def)
  then have "set (map fifo_order (event_queue t)) \<inter> {event_fifo_id t..<n} = {}" for n by auto
  then have "distinct (map fifo_order (pending t))"
    using assms by (simp add: pending_def numbered_fifo fifo_ok_def)
  then show ?thesis by (auto simp: distinct_map ev_key_def inj_on_def)
qed

lemma MoveEvents_pending:
  assumes "numbers_used t < 2 ^ 64"
  shows "mset (event_queue (Timer_MoveEvents t)) = mset (pending t)"
proof -
  have "mset (event_queue (fold push_event es t)) = mset (event_queue t) + mset (numbered (event_fifo_id t) es)"
    if "event_fifo_id t + length es < 2 ^ 64" for es t
    using that
  proof (induction es arbitrary: t)
    case (Cons e es)
    have "event_fifo_id (push_event e t) = event_fifo_id t + 1" using Cons.prems by (simp add: push_event_def)
    moreover have "mset (event_queue (push_event e t)) = add_mset (e\<lparr>fifo_order := event_fifo_id t\<rparr>) (mset (event_queue t))"
      by (simp add: push_event_def eq.mset_push)
    ultimately show ?case using Cons.IH [of "push_event e t"] Cons.prems by simp
  qed simp
  then show ?thesis using assms by (simp add: Timer_MoveEvents_def pending_def numbers_used_def)
qed

lemma same_clock_pop:
  assumes "same_clock i now T S" "i < length (timers T)"
  shows "same_clock i now T (upd_timer i pop_event S)"
  using assms timing_inv_upd [of S i pop_event]
  by (simp add: same_clock_def pop_event_def timer_inv_def eq.heap_pop)

lemma pop_events:
  assumes "event_queue (timers S ! i) = e # q" "i < length (timers S)" "due now e"
  shows "due_events i now S = add_mset e (due_events i now (upd_timer i pop_event S))"
    "later_events i now (upd_timer i pop_event S) = later_events i now S"
proof -
  have "mset (event_queue (timers (upd_timer i pop_event S) ! i)) = mset q"
    using assms by (simp add: pop_event_def eq.mset_pop)
  then show "due_events i now S = add_mset e (due_events i now (upd_timer i pop_event S))"
    "later_events i now (upd_timer i pop_event S) = later_events i now S"
    using assms by (simp_all add: due_events_def later_events_def)
qed

lemma advance_loop_order:
  assumes cb: "adds_later invoke act new i now T" and "i < length (timers T)" and types: "types = event_types T"
    and "same_clock i now T S" "due_events i now S = mset D" "distinct (map ev_key D)" "length D < n"
  shows "\<exists>S'. advance_loop invoke n i (S, w) = Some (S', fold (fire act types now) (sort_key ev_key D) w) \<and>
    same_clock i now T S' \<and> due_events i now S' = {#} \<and>
    later_events i now S' = later_events i now S + sum_list (map (added new types now) (sort_key ev_key D))"
  using assms(4-)
proof (induction n arbitrary: S w D)
  case (Suc n)
  let ?t = "timers S ! i"
  have i: "i < length (timers S)" and ex: "executed_ticks ?t = now" and types': "event_types S = types" and h: "is_heap (event_queue ?t)"
    using Suc.prems(1) assms(2) types by (auto simp: same_clock_def timing_inv_def timer_inv_def list_all_length)
  show ?case
  proof (cases "D = []")
    case True
    then have "\<not> due now e" if "e \<in> set (event_queue ?t)" for e
      using Suc.prems(2) that by (auto simp: due_events_def filter_empty_conv)
    then have "advance_loop invoke (Suc n) i (S, w) = Some (S, w)"
      using ex by (cases "event_queue ?t") (auto simp: due_def)
    then show ?thesis using True Suc.prems by simp
  next
    case False
    then obtain x where x: "x \<in> set (event_queue ?t)" "due now x"
      using Suc.prems(2) by (metis due_events_def filter_empty_conv mset_zero_iff)
    then obtain e q where q: "event_queue ?t = e # q" by (cases "event_queue ?t") auto
    have e: "due now e"
    proof (cases "x = e")
      case False
      then have "ev_key e \<le> ev_key x" using eq.heap_first [of e q x] h x(1) by (simp add: q)
      then show ?thesis using due_antimono x(2) by blast
    qed (use x in simp)
    let ?S = "upd_timer i pop_event S"
    note sc = same_clock_pop [OF Suc.prems(1) assms(2)] and pop = pop_events [OF q i e]
    define D' where "D' = filter (due now) (event_queue (timers ?S ! i))"
    have D': "due_events i now ?S = mset D'" "set D' \<subseteq> set q"
      using q i eq.set_pop [of e q] by (auto simp: D'_def due_events_def pop_event_def)
    have D: "mset D = add_mset e (mset D')" using pop(1) Suc.prems(2) D'(1) by simp
    have sort: "sort_key ev_key D = e # sort_key ev_key D'" using eq.sort_front [OF _ Suc.prems(3) D D'(2)] h by (simp add: q)
    have dist: "distinct (map ev_key D')" using Suc.prems(3) mset_distinct [of D "e # D'" ev_key] D by simp
    have len: "length D' < n" using Suc.prems(4) D by (metis Suc_less_eq size_add_mset size_mset)
    have head: "advance_loop invoke (Suc n) i (S, w) =
        (case types (ev_type e) of
           Some (Some cb) \<Rightarrow> Option.bind (invoke cb (ev_user_data e) (wrap_s32 (now - ev_time e)) (?S, w)) (advance_loop invoke n i)
         | _ \<Rightarrow> advance_loop invoke n i (?S, w))"
      using q e ex types' by (auto simp: due_def Let_def split: option.splits)
    show ?thesis
    proof (cases "\<exists>c. types (ev_type e) = Some (Some c)")
      case True
      then obtain c where c: "types (ev_type e) = Some (Some c)" by blast
      let ?late = "wrap_s32 (now - ev_time e)"
      obtain S1 where S1: "invoke c (ev_user_data e) ?late (?S, w) = Some (S1, act c (ev_user_data e) ?late w)" "same_clock i now T S1"
        "due_events i now S1 = mset D'" "later_events i now S1 = later_events i now S + new c (ev_user_data e) ?late"
        using cb sc D'(1) pop(2) unfolding adds_later_def by metis
      show ?thesis
        using Suc.IH [OF S1(2,3) dist len] head S1(1,4) c sort by (auto simp: fire_def added_def add.assoc)
    next
      case False
      then have n: "advance_loop invoke (Suc n) i (S, w) = advance_loop invoke n i (?S, w)" "fire act types now e w = w" "added new types now e = {#}"
        using head by (auto simp: fire_def added_def split: option.splits)
      show ?thesis using Suc.IH [OF sc D'(1) dist len, of w] sort pop(2) unfolding n(1) by (simp add: n(2,3))
    qed
  qed
qed simp

text \<open>C13: Firing.  \<^verbatim>\<open>Advance\<close> on a core adds the cycles of the slice to its time and takes in the events that other threads scheduled,
  which come after those already there.  If the callbacks return, keep the clock of this core, the registered types, the current
  core and the lock of the queues, and add to the queue of this core only events that are not due (they may do anything to the rest of the
  machine, and to the other timers as long as their queues stay heaps), it returns: it runs exactly the callbacks of the events that are due at the new time, in the order of time and insertion, each with
  the cycles by which it is late, and afterwards the queue holds exactly the later events and those the callbacks
  added.\<close>

theorem Advance_fires_in_order:
  fixes T :: "'cb Timing"
  assumes "timing_inv T" and "i < length (timers T)" and "t = timers T ! i" and "fifo_ok t" and "numbers_used t < 2 ^ 64"
    and "now = wrap_s64 (executed_ticks t + (slice_length t - downcount t))"
    and "fired = sort_key ev_key (filter (due now) (pending t))" and "length fired < n"
    and "adds_later invoke act new i now T"
  shows "\<exists>T'. Advance invoke n i (T, w) = Some (T', fold (fire act (event_types T) now) fired w) \<and> timing_inv T' \<and>
    executed_ticks (timers T' ! i) = now \<and> \<not> is_timer_sane (timers T' ! i) \<and>
    (\<forall>e \<in> set (event_queue (timers T' ! i)). \<not> due now e) \<and>
    image_mset ev_core (mset (event_queue (timers T' ! i))) =
      image_mset ev_core (mset (filter (\<lambda>e. \<not> due now e) (pending t))) + sum_list (map (added new (event_types T) now) fired)"
proof -
  let ?S = "upd_timer i advance_start T"
  have ex: "executed_ticks (advance_start t) = now" "is_timer_sane (advance_start t)"
    by (simp_all add: advance_start_def Let_def MoveEvents_frame assms(6))
  have q: "mset (event_queue (advance_start t)) = mset (pending t)"
    using MoveEvents_pending [OF assms(5)] by (simp add: advance_start_def Let_def)
  have sc: "same_clock i now T ?S"
    using timing_inv_upd [OF assms(1,2) timer_inv_start] assms(2,3) ex by (simp add: same_clock_def)
  have at: "timers ?S ! i = advance_start t" using assms(2,3) by simp
  have d: "due_events i now ?S = mset (filter (due now) (pending t))" unfolding due_events_def at by (metis mset_filter q)
  have l: "later_events i now ?S = image_mset ev_core (mset (filter (\<lambda>e. \<not> due now e) (pending t)))"
    unfolding later_events_def at by (metis mset_filter q)
  have "distinct (map ev_key (filter (due now) (pending t)))" using pending_distinct [OF assms(4)] by (rule distinct_map_filter)
  from advance_loop_order [OF assms(9,2) refl sc d this, of n w] obtain S' where
    S': "advance_loop invoke n i (?S, w) = Some (S', fold (fire act (event_types T) now) fired w)" "same_clock i now T S'"
    "due_events i now S' = {#}" "later_events i now S' = later_events i now ?S + sum_list (map (added new (event_types T) now) fired)"
    using assms(7,8) by auto
  have i': "i < length (timers S')" using S'(2) assms(2) by (simp add: same_clock_def)
  have no: "\<forall>e \<in> set (event_queue (timers S' ! i)). \<not> due now e" using S'(3) by (auto simp: due_events_def filter_empty_conv)
  then have "filter (\<lambda>e. \<not> due now e) (event_queue (timers S' ! i)) = event_queue (timers S' ! i)" by (simp add: filter_id_conv)
  with S' l no i' timing_inv_upd [of S' i "\<lambda>t. t\<lparr>is_timer_sane := False\<rparr>"] show ?thesis
    by (simp add: Advance_def same_clock_def timer_inv_def later_events_def)
qed

definition demo_timing :: "nat Timing" where
  "demo_timing = \<lparr>event_types = [''a'' \<mapsto> Some 7],
     timers = [(new_Timer 100)\<lparr>event_queue := [\<lparr>ev_time = 90, fifo_order = 0, ev_user_data = 3, ev_type = ''a''\<rparr>]\<rparr>],
     current_timer = 0, event_queue_locked = False\<rparr>"

lemma demo_timing_start:
  "advance_start (timers demo_timing ! 0) = (timers demo_timing ! 0)\<lparr>slice_length := 0, downcount := 0\<rparr>"
  by (simp add: demo_timing_def new_Timer_def advance_start_def Timer_MoveEvents_def in_s64_def)

lemma demo_timing_inv: "timing_inv demo_timing"
  by (simp add: timing_inv_def demo_timing_def timer_inv_def new_Timer_def is_heap_def)

text \<open>A callback that schedules its event again.\<close>

definition again :: "int \<Rightarrow> ('cb \<Rightarrow> nat \<Rightarrow> int \<Rightarrow> 'w \<Rightarrow> 'w) \<Rightarrow> string \<Rightarrow> ('cb, 'w) invoker" where
  "again period act ty cb ud late = (\<lambda>(S, w). map_option (\<lambda>S'. (S', act cb ud late w)) (ScheduleEvent period ty ud None False S))"

lemma again_adds_later:
  assumes "0 < period" "0 \<le> now" "now + period < 2 ^ 63" "current_timer T = i" "\<not> event_queue_locked T"
  shows "adds_later (again period act ty) act (\<lambda>cb ud late. {#(ty, ud, now + period)#}) i now T"
  unfolding adds_later_def
proof (intro allI impI)
  fix cb ud late S and w :: 'b
  assume sc: "same_clock i now T S"
  then have i: "i < length (timers S)" "current_timer S = i" "\<not> event_queue_locked S" "is_timer_sane (timers S ! i)"
    "executed_ticks (timers S ! i) = now" "timing_inv S"
    using assms(4,5) by (auto simp: same_clock_def timing_inv_def)
  let ?ev = "\<lparr>ev_time = now + period, fifo_order = 0, ev_user_data = ud, ev_type = ty\<rparr>" and ?f = "push_event"
  let ?S = "upd_timer i (push_event ?ev) S"
  have time: "wrap_s64 (Timer_GetTicks (timers S ! i) + period) = now + period"
    using i(4,5) assms(1-3) by (simp add: Timer_GetTicks_def in_s64_def)
  have e: "ScheduleEvent period ty ud None False S = Some ?S"
    using i time by (auto simp: ScheduleEvent_def Let_def intro!: upd_timer_cong)
  have "timing_inv ?S" by (rule timing_inv_upd [OF i(6,1) timer_inv_push])
  then have "same_clock i now T ?S" using sc i(1) by (simp add: same_clock_def push_event_def)
  moreover have "\<not> due now (?ev\<lparr>fifo_order := k\<rparr>)" "ev_core (?ev\<lparr>fifo_order := k\<rparr>) = (ty, ud, now + period)" for k
    using assms(1) by (simp_all add: due_def ev_core_def)
  then have "due_events i now ?S = due_events i now S" "later_events i now ?S = later_events i now S + {#(ty, ud, now + period)#}"
    using i(1) by (simp_all add: due_events_def later_events_def push_event_def eq.mset_push)
  ultimately show "\<exists>S'. again period act ty cb ud late (S, w) = Some (S', act cb ud late w) \<and> same_clock i now T S' \<and>
      due_events i now S' = due_events i now S \<and> later_events i now S' = later_events i now S + {#(ty, ud, now + period)#}"
    using e by (auto simp: again_def)
qed

text \<open>Two events of a kind that is scheduled again: one in the queue, and an earlier one that another thread scheduled.\<close>

definition demo_firing :: "nat Timing" where
  "demo_firing = upd_timer 0 (\<lambda>t. t\<lparr>event_fifo_id := 1, ts_queue := [\<lparr>ev_time = 80, fifo_order = 0, ev_user_data = 4, ev_type = ''a''\<rparr>]\<rparr>) demo_timing"

lemma demo_firing_ok:
  "timing_inv demo_firing" "fifo_ok (timers demo_firing ! 0)" "numbers_used (timers demo_firing ! 0) < 2 ^ 64"
  "wrap_s64 (executed_ticks (timers demo_firing ! 0) + (slice_length (timers demo_firing ! 0) - downcount (timers demo_firing ! 0))) = 100"
  "sort_key ev_key (filter (due 100) (pending (timers demo_firing ! 0))) =
     [\<lparr>ev_time = 80, fifo_order = 1, ev_user_data = 4, ev_type = ''a''\<rparr>, \<lparr>ev_time = 90, fifo_order = 0, ev_user_data = 3, ev_type = ''a''\<rparr>]"
  by (simp_all add: timing_inv_def demo_firing_def demo_timing_def upd_timer_def timer_inv_def new_Timer_def is_heap_def fifo_ok_def
      numbers_used_def in_s64_def pending_def due_def ev_key_def)

theorem Advance_fires_in_order_witness:
  "\<exists>T'. Advance (again 50 (\<lambda>cb ud late w. (cb, ud, late) # w) ''a'') 3 0 (demo_firing, []) = Some (T', [(7, 3, 10), (7, 4, 20)]) \<and>
     image_mset ev_core (mset (event_queue (timers T' ! 0))) = {#(''a'', 4, 150), (''a'', 3, 150)#}"
proof -
  let ?act = "\<lambda>cb ud late w. (cb, ud, late) # w :: (nat \<times> nat \<times> int) list"
  have a: "adds_later (again 50 ?act ''a'') ?act (\<lambda>cb ud late. {#(''a'', ud, 150)#}) 0 100 demo_firing"
    using again_adds_later [of 50 100 demo_firing 0 ?act "''a''"] by (simp add: demo_firing_def demo_timing_def upd_timer_def)
  have p: "filter (\<lambda>e. \<not> due 100 e) (pending (timers demo_firing ! 0)) = []" "0 < length (timers demo_firing)" "event_types demo_firing = [''a'' \<mapsto> Some 7]"
    by (simp_all add: demo_firing_def demo_timing_def upd_timer_def new_Timer_def pending_def due_def)
  from Advance_fires_in_order [OF demo_firing_ok(1) p(2) refl demo_firing_ok(2,3) demo_firing_ok(4) [symmetric] demo_firing_ok(5) [symmetric] _ a, of 3 "[]"]
  show ?thesis by (auto simp: p fire_def added_def in_s32_def)
qed

definition due_count :: "nat \<Rightarrow> 'cb Timing \<Rightarrow> nat" where
  "due_count i T = length (filter (due (executed_ticks (timers T ! i))) (event_queue (timers T ! i)))"

lemma advance_loop_returns:
  assumes "timing_inv T" "i < length (timers T)" "due_count i T < n"
    and cb: "\<And>cb ud late S w. timing_inv S \<Longrightarrow> i < length (timers S) \<Longrightarrow>
      \<exists>S' w'. invoke cb ud late (S, w) = Some (S', w') \<and> timing_inv S' \<and> i < length (timers S') \<and>
              due_count i S' \<le> due_count i S"
  shows "\<exists>T' w'. advance_loop invoke n i (T, w) = Some (T', w') \<and> timing_inv T' \<and> i < length (timers T') \<and>
    due_count i T' = 0"
  using assms(1-3)
proof (induction n arbitrary: T w)
  case 0
  then show ?case by simp
next
  case (Suc n)
  let ?t = "timers T ! i"
  have h: "is_heap (event_queue ?t)"
    using Suc.prems(1,2) by (simp add: timing_inv_def timer_inv_def list_all_length)
  show ?case
  proof (cases "event_queue ?t")
    case Nil
    then show ?thesis using Suc.prems by (simp add: due_count_def)
  next
    case (Cons e q)
    show ?thesis
    proof (cases "due (executed_ticks ?t) e")
      case False
      have "\<not> due (executed_ticks ?t) x" if "x \<in> set q" for x
        using eq.heap_first [OF h [unfolded Cons] that] False by (auto simp: due_def ev_key_def)
      then have "due_count i T = 0"
        using Cons False by (simp add: due_count_def filter_empty_conv)
      then show ?thesis using Suc.prems Cons False by (simp add: due_def)
    next
      case True
      let ?T1 = "upd_timer i pop_event T"
      have "due_count i T = Suc (due_count i ?T1)"
        using pop_events(1) [OF Cons Suc.prems(2) True] Suc.prems(2)
        by (simp add: due_count_def due_events_def pop_event_def) (metis mset_filter size_add_mset size_mset)
      then have T1: "timing_inv ?T1" "i < length (timers ?T1)" "due_count i ?T1 < n"
        using Suc.prems h by (auto intro!: timing_inv_upd simp: timer_inv_def pop_event_def eq.heap_pop)
      show ?thesis
      proof (cases "event_types ?T1 (ev_type e)")
        case (Some c)
        show ?thesis
        proof (cases c)
          case None
          then show ?thesis using Some Cons True Suc.IH [OF T1] by (simp add: due_def)
        next
          case (Some cb)
          obtain S' w' where "invoke cb (ev_user_data e) (wrap_s32 (executed_ticks ?t - ev_time e)) (?T1, w) =
              Some (S', w')" "timing_inv S'" "i < length (timers S')" "due_count i S' < n"
            using cb [OF T1(1,2), of cb "ev_user_data e" "wrap_s32 (executed_ticks ?t - ev_time e)" w] T1(3)
            by auto
          then show ?thesis
            using \<open>event_types ?T1 (ev_type e) = Some c\<close> Some Cons True Suc.IH [of S' w'] by (simp add: due_def)
        qed
      next
        case None
        then show ?thesis using Cons True Suc.IH [OF T1] by (simp add: due_def)
      qed
    qed
  qed
qed

text \<open>C30: \<^verbatim>\<open>Advance\<close> terminates with callbacks that reschedule.  If every callback returns, keeps
  the queues heaps, and does not add to the events that are already due on this core (what it schedules
  lies in the future), then as many iterations as there are due events suffice, and when \<^verbatim>\<open>Advance\<close> returns no due event
  is left.\<close>

theorem Advance_returns:
  assumes "timing_inv T" and "i < length (timers T)" and "due_count i (upd_timer i advance_start T) < n"
    and "\<And>cb ud late S w. timing_inv S \<Longrightarrow> i < length (timers S) \<Longrightarrow>
      \<exists>S' w'. invoke cb ud late (S, w) = Some (S', w') \<and> timing_inv S' \<and> i < length (timers S') \<and>
              due_count i S' \<le> due_count i S"
  shows "\<exists>T' w'. Advance invoke n i (T, w) = Some (T', w') \<and> timing_inv T' \<and> due_count i T' = 0 \<and>
    \<not> is_timer_sane (timers T' ! i)"
proof -
  have "timing_inv (upd_timer i advance_start T)"
    using assms(1,2) by (intro timing_inv_upd timer_inv_start)
  then obtain T' w' where "advance_loop invoke n i (upd_timer i advance_start T, w) = Some (T', w')"
    "timing_inv T'" "i < length (timers T')" "due_count i T' = 0"
    using advance_loop_returns [of "upd_timer i advance_start T" i n invoke w] assms(2-4) by auto
  then show ?thesis
    using timing_inv_upd [of T' i "\<lambda>t. t\<lparr>is_timer_sane := False\<rparr>"]
    by (simp add: Advance_def due_count_def timer_inv_def)
qed

text \<open>A callback of the witness: it cancels its own kind of event on all cores.\<close>

definition cancel_invoke :: "(nat, nat) invoker" where
  "cancel_invoke cb ud late = (\<lambda>(T, w). Some (UnscheduleEvent ''a'' ud T, w + 1))"

lemma cancel_due:
  "i < length (timers S) \<Longrightarrow> due_count i (UnscheduleEvent ''a'' ud S) \<le> due_count i S"
proof -
  assume i: "i < length (timers S)"
  let ?P = "\<lambda>e. ev_type e = ''a'' \<and> ev_user_data e = ud"
  have "mset (event_queue (remove_events ?P t)) \<subseteq># mset (event_queue t)" for t
    by (simp add: remove_events_def Let_def eq.mset_make multiset_filter_subset)
  then have "length (filter (due n) (event_queue (remove_events ?P t)))
             \<le> length (filter (due n) (event_queue t))" for t n
    by (metis mset_filter size_mset size_mset_mono multiset_filter_mono)
  moreover have "executed_ticks (remove_events ?P t) = executed_ticks t" for t
    by (simp add: remove_events_def Let_def)
  ultimately show ?thesis
    using i by (simp add: due_count_def UnscheduleEvent_def)
qed

theorem Advance_returns_witness:
  "\<exists>T' w'. Advance cancel_invoke 2 0 (demo_timing, 0) = Some (T', w') \<and> due_count 0 T' = 0"
proof -
  have c: "\<exists>S' w'. cancel_invoke cb ud late (S, w) = Some (S', w') \<and> timing_inv S' \<and> 0 < length (timers S') \<and>
      due_count 0 S' \<le> due_count 0 S" if "timing_inv S" "0 < length (timers S)" for cb ud late S w
    using that cancel_due [of 0 S ud] timer_inv_remove
    by (auto simp: cancel_invoke_def timing_inv_def UnscheduleEvent_def list_all_iff)
  have "due_count 0 (upd_timer 0 advance_start demo_timing) < 2"
    using demo_timing_start by (simp add: due_count_def demo_timing_def new_Timer_def upd_timer_def)
  then show ?thesis
    using Advance_returns [OF demo_timing_inv, of 0 2 cancel_invoke 0] c by (simp add: demo_timing_def) blast
qed



section \<open>Slices\<close>

text \<open>
  A timer while its core executes a slice: the slice ends no later than the first event.  The bound \<open>2 ^ 60\<close> is
  over a century of cycles; it keeps every sum below the signed range.
\<close>

definition in_slice :: "Timing_Timer \<Rightarrow> bool" where
  "in_slice t \<longleftrightarrow> \<not> is_timer_sane t \<and> 0 \<le> executed_ticks t \<and> executed_ticks t \<le> 2 ^ 60 \<and>
     0 \<le> slice_length t \<and> slice_length t \<le> MAX_SLICE_LENGTH \<and>
     - (2 ^ 60) \<le> downcount t \<and> downcount t \<le> slice_length t \<and>
     (\<forall>e \<in> set (event_queue t) \<union> set (ts_queue t). executed_ticks t + slice_length t \<le> ev_time e)"

lemma max_slice [simp]: "MAX_SLICE_LENGTH = 1145777"
  by (simp add: MAX_SLICE_LENGTH_def BASE_CLOCK_RATE_ARM11_def)

lemma in_slice_ticks:
  assumes "in_slice t" "0 \<le> c" "c \<le> 2 ^ 60"
  shows "wrap_s64 (Timer_GetTicks t + c) = executed_ticks t + slice_length t - downcount t + c"
proof -
  have "Timer_GetTicks t = executed_ticks t + (slice_length t - downcount t)"
    using assms(1) by (simp add: Timer_GetTicks_def in_slice_def)
  then show ?thesis
    using assms by (simp add: in_slice_def in_s64_def algebra_simps)
qed

lemma in_slice_force:
  assumes "in_slice t" "0 \<le> c"
  shows "in_slice (Timer_ForceExceptionCheck c t) \<and>
    executed_ticks t + slice_length (Timer_ForceExceptionCheck c t)
      \<le> executed_ticks t + slice_length t - downcount t + c"
proof (cases "downcount t > c")
  case True
  have "in_s64 (slice_length t - (downcount t - c))"
    using assms True by (auto simp: in_slice_def in_s64_def)
  then have "slice_length (Timer_ForceExceptionCheck c t) = slice_length t - (downcount t - c)"
    "downcount (Timer_ForceExceptionCheck c t) = c"
    using True assms(2) by (simp_all add: Timer_ForceExceptionCheck_def)
  then show ?thesis
    using assms True by (force simp: in_slice_def)
next
  case False
  then have "Timer_ForceExceptionCheck c t = t"
    using assms(2) by (simp add: Timer_ForceExceptionCheck_def)
  then show ?thesis
    using assms False by simp
qed

lemma in_slice_push:
  assumes "in_slice t" "executed_ticks t + slice_length t \<le> ev_time ev"
  shows "in_slice (push_event ev t)"
  using assms by (auto simp: in_slice_def push_event_def eq.set_push)

lemma in_slice_ts:
  assumes "in_slice t" "executed_ticks t + slice_length t \<le> ev_time ev"
  shows "in_slice (t\<lparr>ts_queue := ts_queue t @ [ev]\<rparr>)"
  using assms by (auto simp: in_slice_def)

lemma in_slice_Schedule:
  assumes "in_slice (timers T ! current_timer T)" "current_timer T < length (timers T)"
    "\<not> event_queue_locked T" "0 \<le> c" "c \<le> 2 ^ 60"
  shows "\<exists>T'. ScheduleEvent c ty ud None ts T = Some T' \<and> in_slice (timers T' ! current_timer T)"
proof (cases ts)
  case True
  let ?t = "timers T ! current_timer T" and ?c = "max (MAX_SLICE_LENGTH * 2) c"
  have "0 \<le> ?c" "?c \<le> 2 ^ 60"
    using assms(5) by simp_all
  then have "executed_ticks ?t + slice_length ?t \<le> wrap_s64 (Timer_GetTicks ?t + ?c)"
    using in_slice_ticks [OF assms(1), of ?c] assms(1) by (simp add: in_slice_def le_max_iff_disj)
  then show ?thesis
    using assms True in_slice_ts [OF assms(1)] by (simp add: ScheduleEvent_def Let_def)
next
  case False
  let ?t = "timers T ! current_timer T"
  have "\<not> is_timer_sane ?t"
    using assms(1) by (simp add: in_slice_def)
  then show ?thesis
    using assms False in_slice_force [OF assms(1,4)] in_slice_ticks [OF assms(1,4,5)]
    by (simp add: ScheduleEvent_def Let_def in_slice_push)
qed

lemma in_slice_SetNextSlice:
  assumes "\<not> is_timer_sane t" "timer_inv t" "0 \<le> executed_ticks t" "executed_ticks t \<le> 2 ^ 60"
    and "0 < m" "m \<le> MAX_SLICE_LENGTH"
    and "\<forall>e \<in> set (event_queue t). executed_ticks t < ev_time e \<and> ev_time e \<le> 2 ^ 62"
    and "\<forall>e \<in> set (ts_queue t). executed_ticks t + m \<le> ev_time e"
  shows "in_slice (Timer_SetNextSlice m t) \<and> 0 < downcount (Timer_SetNextSlice m t) \<and>
         downcount (Timer_SetNextSlice m t) \<le> m"
proof (cases "event_queue t")
  case Nil
  then show ?thesis
    using assms by (auto simp: in_slice_def Timer_SetNextSlice_def)
next
  case (Cons f q)
  have f: "executed_ticks t < ev_time f" "ev_time f \<le> 2 ^ 62"
    using assms(7) Cons by auto
  have w: "wrap_s64 (ev_time f - executed_ticks t) = ev_time f - executed_ticks t"
    using f assms(3) by (intro wrap_s64_id) (auto simp: in_s64_def)
  have "wrap_s32 (min (ev_time f - executed_ticks t) m) = min (ev_time f - executed_ticks t) m"
    using f assms(5,6) by (intro wrap_s32_id) (auto simp: in_s32_def)
  then have d: "downcount (Timer_SetNextSlice m t) = min (ev_time f - executed_ticks t) m"
    "slice_length (Timer_SetNextSlice m t) = min (ev_time f - executed_ticks t) m"
    using Cons w by (simp_all add: Timer_SetNextSlice_def Let_def)
  have "ev_time f \<le> ev_time e" if "e \<in> set q" for e
    using eq.heap_first [of f q e] that assms(2) Cons by (auto simp: timer_inv_def ev_key_def)
  then show ?thesis
    using assms f d Cons by (force simp: in_slice_def Timer_SetNextSlice_def Let_def)
qed

text \<open>No event is overshot by more than the core overruns its slice.  \<^verbatim>\<open>SetNextSlice\<close> starts a slice that
  is positive and ends no later than the first event; scheduling an event from the running core,
  in either mode, keeps this true by cutting the slice short when needed; executing and idling keep
  it; and so when \<^verbatim>\<open>Advance\<close> reads the clock, every event is late by at most the cycles executed
  past the end of the slice, which is what a negative downcount measures.\<close>

theorem slice_never_overshoots:
  assumes "timing_inv T" and "\<not> event_queue_locked T" and "t = timers T ! current_timer T"
  shows "(in_slice t \<longrightarrow>
     (\<forall>c ty ud ts. 0 \<le> c \<and> c \<le> 2 ^ 60 \<longrightarrow>
        (\<exists>T'. ScheduleEvent c ty ud None ts T = Some T' \<and> in_slice (timers T' ! current_timer T))) \<and>
     in_slice (Timer_Idle t) \<and>
     (\<forall>scale n. 0 \<le> scale (clock_percentage t) n \<and> - (2 ^ 60) \<le> downcount t - scale (clock_percentage t) n \<longrightarrow>
        in_slice (Timer_AddTicks scale n t)) \<and>
     (\<forall>e \<in> set (event_queue (advance_start t)).
        executed_ticks (advance_start t) - ev_time e \<le> - downcount t)) \<and>
   (\<not> is_timer_sane t \<and> 0 \<le> executed_ticks t \<and> executed_ticks t \<le> 2 ^ 60 \<and> ts_queue t = [] \<and>
      (\<forall>e \<in> set (event_queue t). executed_ticks t < ev_time e \<and> ev_time e \<le> 2 ^ 62) \<longrightarrow>
      in_slice (Timer_SetNextSlice MAX_SLICE_LENGTH t) \<and>
      0 < downcount (Timer_SetNextSlice MAX_SLICE_LENGTH t))"
proof -
  have c: "current_timer T < length (timers T)" and ti: "timer_inv t"
    using assms(1,3) by (auto simp: timing_inv_def list_all_length)
  have late: "executed_ticks (advance_start t) - ev_time e \<le> - downcount t"
    if "in_slice t" "e \<in> set (event_queue (advance_start t))" for e
  proof -
    have ex: "executed_ticks (Timer_MoveEvents t) = executed_ticks t"
      "slice_length (Timer_MoveEvents t) = slice_length t" "downcount (Timer_MoveEvents t) = downcount t"
      by (simp_all add: MoveEvents_frame)
    then have "executed_ticks (advance_start t) = executed_ticks t + slice_length t - downcount t"
      using that(1) by (simp add: advance_start_def Let_def in_slice_def in_s64_def)
    moreover have "ev_core e \<in> ev_core ` (set (ts_queue t) \<union> set (event_queue t))"
      using that(2) MoveEvents_core [of t] imageI [of e "set (event_queue (Timer_MoveEvents t))" ev_core]
      by (simp add: advance_start_def Let_def)
    then have "executed_ticks t + slice_length t \<le> ev_time e"
      using that(1) by (auto simp: in_slice_def ev_core_def)
    ultimately show ?thesis by simp
  qed
  have idle: "in_slice (Timer_Idle t)" if "in_slice t"
    using that by (auto simp: in_slice_def Timer_Idle_def)
  have add: "in_slice (Timer_AddTicks scale n t)"
    if "in_slice t" "0 \<le> scale (clock_percentage t) n"
      "- (2 ^ 60) \<le> downcount t - scale (clock_percentage t) n" for scale n
    using that by (auto simp: in_slice_def Timer_AddTicks_def in_s64_def)
  show ?thesis
    using in_slice_Schedule [OF _ c assms(2)] assms(3) late idle add
      in_slice_SetNextSlice [of t MAX_SLICE_LENGTH] ti by auto
qed

theorem slice_never_overshoots_witness:
  "timing_inv (new_Timing 1 100 5 0 :: unit Timing) \<and>
   (let T = upd_timer 0 (\<lambda>t. t\<lparr>is_timer_sane := False\<rparr>) (new_Timing 1 100 5 0 :: unit Timing) in
    in_slice (Timer_SetNextSlice MAX_SLICE_LENGTH (timers T ! 0)))"
proof -
  let ?T = "upd_timer 0 (\<lambda>t. t\<lparr>is_timer_sane := False\<rparr>) (new_Timing 1 100 5 0 :: unit Timing)"
  have i: "timing_inv (new_Timing 1 100 5 0 :: unit Timing)" "timing_inv ?T"
    by (simp_all add: timing_inv_def new_Timing_def UpdateClockSpeed_def timer_inv_def new_Timer_def Let_def
        eq.heap_Nil upd_timer_def)
  show ?thesis
    using i(1) slice_never_overshoots [OF i(2) _ refl]
    by (simp add: new_Timing_def UpdateClockSpeed_def new_Timer_def upd_timer_def Let_def)
qed

end
