(* ===== verification/Memory_Map.thy ===== *)
theory Memory_Map
  imports Prelude
begin

text \<open>
  The constants of \<^verbatim>\<open>core/memory.h\<close>: the size of a page and the physical and virtual areas of the guest.
  Addresses are natural numbers below \<open>2 ^ 32\<close>; an area ends at the address behind its last byte.
\<close>

definition CITRA_PAGE_SIZE :: nat where "CITRA_PAGE_SIZE = 0x1000"

definition PAGE_TABLE_NUM_ENTRIES :: nat where "PAGE_TABLE_NUM_ENTRIES = 2 ^ 20"

section \<open>Physical areas\<close>

definition IO_AREA_PADDR :: nat where "IO_AREA_PADDR = 0x10100000"
definition IO_AREA_SIZE :: nat where "IO_AREA_SIZE = 0x00400000"
definition VRAM_PADDR :: nat where "VRAM_PADDR = 0x18000000"
definition VRAM_SIZE :: nat where "VRAM_SIZE = 0x00600000"
definition N3DS_EXTRA_RAM_PADDR :: nat where "N3DS_EXTRA_RAM_PADDR = 0x1F000000"
definition N3DS_EXTRA_RAM_SIZE :: nat where "N3DS_EXTRA_RAM_SIZE = 0x00400000"
definition DSP_RAM_PADDR :: nat where "DSP_RAM_PADDR = 0x1FF00000"
definition DSP_RAM_SIZE :: nat where "DSP_RAM_SIZE = 0x00080000"
definition FCRAM_PADDR :: nat where "FCRAM_PADDR = 0x20000000"
definition FCRAM_SIZE :: nat where "FCRAM_SIZE = 0x08000000"
definition FCRAM_N3DS_SIZE :: nat where "FCRAM_N3DS_SIZE = 0x10000000"

section \<open>Virtual areas\<close>

definition HEAP_VADDR :: nat where "HEAP_VADDR = 0x08000000"
definition HEAP_VADDR_END :: nat where "HEAP_VADDR_END = HEAP_VADDR + 0x08000000"
definition SHARED_MEMORY_VADDR :: nat where "SHARED_MEMORY_VADDR = 0x10000000"
definition SHARED_MEMORY_VADDR_END :: nat where "SHARED_MEMORY_VADDR_END = SHARED_MEMORY_VADDR + 0x04000000"
definition LINEAR_HEAP_VADDR :: nat where "LINEAR_HEAP_VADDR = 0x14000000"
definition LINEAR_HEAP_VADDR_END :: nat where "LINEAR_HEAP_VADDR_END = LINEAR_HEAP_VADDR + 0x08000000"
definition N3DS_EXTRA_RAM_VADDR :: nat where "N3DS_EXTRA_RAM_VADDR = 0x1E800000"
definition IO_AREA_VADDR :: nat where "IO_AREA_VADDR = 0x1EC00000"
definition VRAM_VADDR :: nat where "VRAM_VADDR = 0x1F000000"
definition VRAM_VADDR_END :: nat where "VRAM_VADDR_END = VRAM_VADDR + VRAM_SIZE"
definition DSP_RAM_VADDR :: nat where "DSP_RAM_VADDR = 0x1FF00000"
definition CONFIG_MEMORY_VADDR :: nat where "CONFIG_MEMORY_VADDR = 0x1FF80000"
definition CONFIG_MEMORY_SIZE :: nat where "CONFIG_MEMORY_SIZE = 0x00001000"
definition SHARED_PAGE_VADDR :: nat where "SHARED_PAGE_VADDR = 0x1FF81000"
definition SHARED_PAGE_SIZE :: nat where "SHARED_PAGE_SIZE = 0x00001000"
definition TLS_AREA_VADDR :: nat where "TLS_AREA_VADDR = 0x1FF82000"
definition TLS_ENTRY_SIZE :: nat where "TLS_ENTRY_SIZE = 0x200"
definition NEW_LINEAR_HEAP_VADDR :: nat where "NEW_LINEAR_HEAP_VADDR = 0x30000000"
definition NEW_LINEAR_HEAP_VADDR_END :: nat where "NEW_LINEAR_HEAP_VADDR_END = NEW_LINEAR_HEAP_VADDR + 0x10000000"
definition PLUGIN_3GX_FB_VADDR :: nat where "PLUGIN_3GX_FB_VADDR = 0x06000000"
definition PLUGIN_3GX_FB_SIZE :: nat where "PLUGIN_3GX_FB_SIZE = 0x000A9000"
definition PLUGIN_3GX_FB_VADDR_END :: nat where "PLUGIN_3GX_FB_VADDR_END = PLUGIN_3GX_FB_VADDR + PLUGIN_3GX_FB_SIZE"

lemmas page_defs = CITRA_PAGE_SIZE_def PAGE_TABLE_NUM_ENTRIES_def

lemmas area_defs = IO_AREA_PADDR_def IO_AREA_SIZE_def VRAM_PADDR_def VRAM_SIZE_def N3DS_EXTRA_RAM_PADDR_def
  N3DS_EXTRA_RAM_SIZE_def DSP_RAM_PADDR_def DSP_RAM_SIZE_def FCRAM_PADDR_def FCRAM_SIZE_def FCRAM_N3DS_SIZE_def
  HEAP_VADDR_def HEAP_VADDR_END_def SHARED_MEMORY_VADDR_def SHARED_MEMORY_VADDR_END_def LINEAR_HEAP_VADDR_def
  LINEAR_HEAP_VADDR_END_def N3DS_EXTRA_RAM_VADDR_def IO_AREA_VADDR_def VRAM_VADDR_def VRAM_VADDR_END_def DSP_RAM_VADDR_def
  CONFIG_MEMORY_VADDR_def CONFIG_MEMORY_SIZE_def SHARED_PAGE_VADDR_def SHARED_PAGE_SIZE_def TLS_AREA_VADDR_def
  TLS_ENTRY_SIZE_def NEW_LINEAR_HEAP_VADDR_def NEW_LINEAR_HEAP_VADDR_END_def PLUGIN_3GX_FB_VADDR_def
  PLUGIN_3GX_FB_SIZE_def PLUGIN_3GX_FB_VADDR_END_def

end
