(* ===== verification/VM_Manager.thy ===== *)
theory VM_Manager
  imports Results Memory_Map
begin

text \<open>
  The address space of a process: \<^verbatim>\<open>core/hle/kernel/vm_manager.h\<close> and \<^verbatim>\<open>vm_manager.cpp\<close>, with the part of
  \<^verbatim>\<open>common/memory_ref.h\<close> and of the page tables of \<^verbatim>\<open>core/memory.cpp\<close> they use.

  The map of areas is the list of its areas in the order of their keys, and an iterator is a position in that list;
  the end iterator is the length.  Host pointers are numbers with zero for the null pointer.  Guest addresses and sizes
  are unsigned 32-bit numbers and wrap around.  Which pages the rasterizer has cached is an argument, \<open>cached\<close>, of
  the operations that write the page table.

  The areas are a compressed form of the table that gives every page its type, permissions, state and host pointer.
  The properties are stated on that table: mapping, unmapping and changing permissions replace one segment of it,
  and splitting and merging areas does not change it.
\<close>

unbundle bit_operations_syntax

section \<open>References to host memory\<close>

record BackingMem =
  block_ptr :: nat
  block_size :: nat
  ref_offset :: nat

type_synonym MemoryRef = "BackingMem option"

definition GetPtr :: "MemoryRef \<Rightarrow> nat" where
  "GetPtr r = (case r of None \<Rightarrow> 0 | Some b \<Rightarrow> block_ptr b + ref_offset b)"

definition GetSize :: "MemoryRef \<Rightarrow> nat" where
  "GetSize r = (case r of None \<Rightarrow> 0 | Some b \<Rightarrow> block_size b - ref_offset b)"

text \<open>Both \<^verbatim>\<open>operator+\<close> and \<^verbatim>\<open>operator+=\<close> assert that the result lies inside the block.\<close>

definition ref_add :: "MemoryRef \<Rightarrow> nat \<Rightarrow> MemoryRef option" where
  "ref_add r n = (if n < GetSize r then Some (map_option (\<lambda>b. b\<lparr>ref_offset := ref_offset b + n\<rparr>) r) else None)"


section \<open>Page tables\<close>

datatype PageType = Unmapped | Memory | RasterizerCachedMemory

record PageTable =
  attributes :: "nat \<Rightarrow> PageType"
  pointers :: "nat \<Rightarrow> MemoryRef"

definition PageTable_Clear :: PageTable where
  "PageTable_Clear = \<lparr>attributes = (\<lambda>_. Unmapped), pointers = (\<lambda>_. None)\<rparr>"

fun MapPages :: "(nat \<Rightarrow> bool) \<Rightarrow> nat \<Rightarrow> nat \<Rightarrow> MemoryRef \<Rightarrow> PageType \<Rightarrow> PageTable \<Rightarrow> PageTable option" where
  "MapPages cached 0 base memory ty pt = Some pt"
| "MapPages cached (Suc n) base memory ty pt = do {
     assert_opt (base < PAGE_TABLE_NUM_ENTRIES);
     let marked = (ty = Memory \<and> cached base);
     memory1 \<leftarrow> (if GetPtr memory \<noteq> 0 \<and> GetSize memory > CITRA_PAGE_SIZE then ref_add memory CITRA_PAGE_SIZE else Some memory);
     MapPages cached n (base + 1) memory1 ty
       (pt\<lparr>attributes := (attributes pt)(base := if marked then RasterizerCachedMemory else ty),
           pointers := (pointers pt)(base := if marked then None else memory)\<rparr>)
   }"

definition page_aligned :: "nat \<Rightarrow> bool" where
  "page_aligned a \<longleftrightarrow> a mod CITRA_PAGE_SIZE = 0"

definition MapMemoryRegion :: "(nat \<Rightarrow> bool) \<Rightarrow> nat \<Rightarrow> nat \<Rightarrow> MemoryRef \<Rightarrow> PageTable \<Rightarrow> PageTable option" where
  "MapMemoryRegion cached base sz target pt = do {
     assert_opt (page_aligned sz);
     assert_opt (page_aligned base);
     MapPages cached (sz div CITRA_PAGE_SIZE) (base div CITRA_PAGE_SIZE) target Memory pt
   }"

definition UnmapRegion :: "(nat \<Rightarrow> bool) \<Rightarrow> nat \<Rightarrow> nat \<Rightarrow> PageTable \<Rightarrow> PageTable option" where
  "UnmapRegion cached base sz pt = do {
     assert_opt (page_aligned sz);
     assert_opt (page_aligned base);
     MapPages cached (sz div CITRA_PAGE_SIZE) (base div CITRA_PAGE_SIZE) None Unmapped pt
   }"


section \<open>Areas\<close>

datatype VMAType = VFree | BackingMemory

type_synonym VMAPermission = u8

definition perm_None :: VMAPermission where "perm_None = 0"
definition perm_ReadWrite :: VMAPermission where "perm_ReadWrite = 1 OR 2"

datatype MemoryState =
  MS_Free | MS_Reserved | MS_IO | MS_Static | MS_Code | MS_Private | MS_Shared | MS_Continuous
  | MS_Aliased | MS_Alias | MS_AliasCode | MS_Locked

record VirtualMemoryArea =
  vbase :: nat
  vsize :: nat
  vtype :: VMAType
  permissions :: VMAPermission
  meminfo_state :: MemoryState
  backing_memory :: MemoryRef

definition blank_vma :: VirtualMemoryArea where
  "blank_vma = \<lparr>vbase = 0, vsize = 0, vtype = VFree, permissions = perm_None, meminfo_state = MS_Free,
                backing_memory = None\<rparr>"

definition mergeable :: "VirtualMemoryArea \<Rightarrow> VirtualMemoryArea \<Rightarrow> bool" where
  "mergeable v next \<longleftrightarrow>
     permissions v = permissions next \<and> meminfo_state v = meminfo_state next \<and> vtype v = vtype next \<and>
     (vtype v = BackingMemory \<longrightarrow> GetPtr (backing_memory v) + vsize v = GetPtr (backing_memory next))"

definition CanBeMergedWith :: "VirtualMemoryArea \<Rightarrow> VirtualMemoryArea \<Rightarrow> bool option" where
  "CanBeMergedWith v next = do {
     assert_opt (wrap_u32 (vbase v + vsize v) = vbase next);
     Some (mergeable v next)
   }"

definition MAX_ADDRESS :: nat where "MAX_ADDRESS = 0x40000000"

record VMManager =
  vma_map :: "VirtualMemoryArea list"
  page_table :: PageTable
  is_locked :: bool

definition UpdatePageTableForVMA :: "(nat \<Rightarrow> bool) \<Rightarrow> VirtualMemoryArea \<Rightarrow> PageTable \<Rightarrow> PageTable option" where
  "UpdatePageTableForVMA cached v pt =
     (case vtype v of
        VFree \<Rightarrow> UnmapRegion cached (vbase v) (vsize v) pt
      | BackingMemory \<Rightarrow> MapMemoryRegion cached (vbase v) (vsize v) (backing_memory v) pt)"

definition Reset :: "(nat \<Rightarrow> bool) \<Rightarrow> VMManager \<Rightarrow> VMManager option" where
  "Reset cached m = do {
     assert_opt (\<not> is_locked m);
     let initial_vma = blank_vma\<lparr>vsize := MAX_ADDRESS\<rparr>;
     pt \<leftarrow> UpdatePageTableForVMA cached initial_vma PageTable_Clear;
     Some (m\<lparr>vma_map := [initial_vma], page_table := pt\<rparr>)
   }"

definition Unlock :: "VMManager \<Rightarrow> VMManager" where
  "Unlock m = m\<lparr>is_locked := False\<rparr>"

text \<open>\<^verbatim>\<open>upper_bound\<close> and \<^verbatim>\<open>lower_bound\<close> of the map.  An address below every key has no predecessor.\<close>

definition upper_bound :: "nat \<Rightarrow> VirtualMemoryArea list \<Rightarrow> nat" where
  "upper_bound a l = length (takeWhile (\<lambda>v. vbase v \<le> a) l)"

definition lower_bound :: "nat \<Rightarrow> VirtualMemoryArea list \<Rightarrow> nat" where
  "lower_bound a l = length (takeWhile (\<lambda>v. vbase v < a) l)"

definition FindVMA :: "nat \<Rightarrow> VirtualMemoryArea list \<Rightarrow> nat option" where
  "FindVMA target l =
     (if target \<ge> MAX_ADDRESS then Some (length l)
      else if upper_bound target l = 0 then None else Some (upper_bound target l - 1))"

definition SplitVMA :: "nat \<Rightarrow> nat \<Rightarrow> VirtualMemoryArea list \<Rightarrow> (VirtualMemoryArea list \<times> nat) option" where
  "SplitVMA i offset_in_vma l =
     (let old = l ! i in do {
        assert_opt (offset_in_vma < vsize old);
        assert_opt (offset_in_vma > 0);
        let new = old\<lparr>vbase := wrap_u32 (vbase old + offset_in_vma), vsize := vsize old - offset_in_vma\<rparr>;
        backing \<leftarrow> (case vtype old of
                     VFree \<Rightarrow> Some (backing_memory old)
                   | BackingMemory \<Rightarrow> ref_add (backing_memory old) offset_in_vma);
        let new = new\<lparr>backing_memory := backing\<rparr>;
        let left = old\<lparr>vsize := offset_in_vma\<rparr>;
        b \<leftarrow> CanBeMergedWith left new;
        assert_opt b;
        Some (take i l @ [left, new] @ drop (i + 1) l, i + 1)
      })"

definition MergeAdjacent :: "nat \<Rightarrow> VirtualMemoryArea list \<Rightarrow> (VirtualMemoryArea list \<times> nat) option" where
  "MergeAdjacent i l = do {
     l1 \<leftarrow> (if i + 1 < length l then do {
              b \<leftarrow> CanBeMergedWith (l ! i) (l ! (i + 1));
              Some (if b then take i l @ [(l ! i)\<lparr>vsize := wrap_u32 (vsize (l ! i) + vsize (l ! (i + 1)))\<rparr>] @ drop (i + 2) l
                    else l)
            } else Some l);
     if i > 0 then do {
       b \<leftarrow> CanBeMergedWith (l1 ! (i - 1)) (l1 ! i);
       Some (if b then (take (i - 1) l1 @
                          [(l1 ! (i - 1))\<lparr>vsize := wrap_u32 (vsize (l1 ! (i - 1)) + vsize (l1 ! i))\<rparr>] @ drop (i + 1) l1,
                        i - 1)
             else (l1, i))
     } else Some (l1, i)
   }"

text \<open>An error leaves the map as it was, since it is found before the first split.\<close>

definition CarveVMA :: "nat \<Rightarrow> nat \<Rightarrow> VirtualMemoryArea list \<Rightarrow> (VirtualMemoryArea list \<times> nat) result_val option" where
  "CarveVMA base sz l = do {
     assert_opt (page_aligned sz);
     assert_opt (page_aligned base);
     i \<leftarrow> FindVMA base l;
     if i = length l then Some (Inl ResultInvalidAddress)
     else if vtype (l ! i) \<noteq> VFree then Some (Inl ResultInvalidAddressState)
     else
       let start_in_vma = sub_u32 base (vbase (l ! i)); end_in_vma = wrap_u32 (start_in_vma + sz) in
       if end_in_vma > vsize (l ! i) then Some (Inl ResultInvalidAddressState)
       else do {
         l1 \<leftarrow> (if end_in_vma \<noteq> vsize (l ! i) then map_option fst (SplitVMA i end_in_vma l) else Some l);
         if start_in_vma \<noteq> 0 then map_option Inr (SplitVMA i start_in_vma l1) else Some (Inr (l1, i))
       }
   }"

definition CarveVMARange :: "nat \<Rightarrow> nat \<Rightarrow> VirtualMemoryArea list \<Rightarrow> (VirtualMemoryArea list \<times> nat) result_val option" where
  "CarveVMARange target sz l =
     (let target_end = wrap_u32 (target + sz) in do {
        assert_opt (page_aligned sz);
        assert_opt (page_aligned target);
        assert_opt (target_end \<ge> target);
        assert_opt (target_end \<le> MAX_ADDRESS);
        assert_opt (sz > 0);
        i \<leftarrow> FindVMA target l;
        if list_ex (\<lambda>v. vtype v = VFree) (take (lower_bound target_end l - i) (drop i l))
        then Some (Inl ResultInvalidAddressState)
        else do {
          (l1, i1) \<leftarrow> (if target \<noteq> vbase (l ! i) then SplitVMA i (sub_u32 target (vbase (l ! i))) l else Some (l, i));
          j \<leftarrow> FindVMA target_end l1;
          l2 \<leftarrow> (if j \<noteq> length l1 \<and> target_end \<noteq> vbase (l1 ! j)
                then map_option fst (SplitVMA j (sub_u32 target_end (vbase (l1 ! j))) l1) else Some l1);
          Some (Inr (l2, i1))
        }
      })"


section \<open>Operations\<close>

text \<open>
  What \<^verbatim>\<open>Unmap\<close>, \<^verbatim>\<open>Reprotect\<close> and the body of \<^verbatim>\<open>ChangeMemoryState\<close> share: change one area, write its pages to
  the page table and merge it with its neighbours.
\<close>

definition change_vma ::
  "(nat \<Rightarrow> bool) \<Rightarrow> (VirtualMemoryArea \<Rightarrow> VirtualMemoryArea) \<Rightarrow> nat \<Rightarrow> VMManager \<Rightarrow> (VMManager \<times> nat) option" where
  "change_vma cached f i m = do {
     let v = f (vma_map m ! i);
     pt \<leftarrow> UpdatePageTableForVMA cached v (page_table m);
     (l, i') \<leftarrow> MergeAdjacent i ((vma_map m)[i := v]);
     Some (m\<lparr>vma_map := l, page_table := pt\<rparr>, i')
   }"

definition free_vma :: "VirtualMemoryArea \<Rightarrow> VirtualMemoryArea" where
  "free_vma v = v\<lparr>vtype := VFree, permissions := perm_None, meminfo_state := MS_Free, backing_memory := None\<rparr>"

definition Unmap :: "(nat \<Rightarrow> bool) \<Rightarrow> nat \<Rightarrow> VMManager \<Rightarrow> (VMManager \<times> nat) option" where
  "Unmap cached i m = do { assert_opt (\<not> is_locked m); change_vma cached free_vma i m }"

definition Reprotect :: "(nat \<Rightarrow> bool) \<Rightarrow> VMAPermission \<Rightarrow> nat \<Rightarrow> VMManager \<Rightarrow> (VMManager \<times> nat) option" where
  "Reprotect cached new_perms i m = do {
     assert_opt (\<not> is_locked m);
     change_vma cached (\<lambda>v. v\<lparr>permissions := new_perms\<rparr>) i m
   }"

text \<open>
  The loops over a range: \<open>step\<close> changes the area under the iterator and gives the area it ended up in.  Each
  iteration goes to a later area, so as many iterations as there are areas, and one more, are enough.
\<close>

fun range_loop :: "(nat \<Rightarrow> VMManager \<Rightarrow> (VMManager \<times> nat) option) \<Rightarrow> nat \<Rightarrow> nat \<Rightarrow> nat \<Rightarrow> VMManager \<Rightarrow> VMManager option" where
  "range_loop step target_end 0 i m = None"
| "range_loop step target_end (Suc n) i m =
     (if i < length (vma_map m) \<and> vbase (vma_map m ! i) < target_end
      then do { (m1, i1) \<leftarrow> step i m; range_loop step target_end n (i1 + 1) m1 }
      else Some m)"

definition on_range ::
  "(nat \<Rightarrow> VMManager \<Rightarrow> (VMManager \<times> nat) option) \<Rightarrow> nat \<Rightarrow> nat \<Rightarrow> VMManager \<Rightarrow> (result \<times> VMManager) option" where
  "on_range step target sz m = do {
     r \<leftarrow> CarveVMARange target sz (vma_map m);
     case r of
       Inl e \<Rightarrow> Some (e, m)
     | Inr (l, i) \<Rightarrow> do {
         m1 \<leftarrow> range_loop step (wrap_u32 (target + sz)) (length l + 1) i (m\<lparr>vma_map := l\<rparr>);
         Some (ResultSuccess, m1)
       }
   }"

definition UnmapRange :: "(nat \<Rightarrow> bool) \<Rightarrow> nat \<Rightarrow> nat \<Rightarrow> VMManager \<Rightarrow> (result \<times> VMManager) option" where
  "UnmapRange cached target sz m = do {
     assert_opt (\<not> is_locked m);
     (r, m1) \<leftarrow> on_range (Unmap cached) target sz m;
     if r \<noteq> ResultSuccess then Some (r, m1)
     else do {
       i \<leftarrow> FindVMA target (vma_map m1);
       assert_opt (i < length (vma_map m1) \<and> vsize (vma_map m1 ! i) \<ge> sz);
       Some (r, m1)
     }
   }"

definition ReprotectRange :: "(nat \<Rightarrow> bool) \<Rightarrow> nat \<Rightarrow> nat \<Rightarrow> VMAPermission \<Rightarrow> VMManager \<Rightarrow> (result \<times> VMManager) option" where
  "ReprotectRange cached target sz new_perms m = do {
     assert_opt (\<not> is_locked m);
     on_range (Reprotect cached new_perms) target sz m
   }"

text \<open>
  The check of \<^verbatim>\<open>ChangeMemoryState\<close> walks from the area of the target to the first area at or after the end of the
  range.  When the end wraps around it lies before the start, and the walk leaves the map unless an area
  fails the check first.
\<close>

definition state_matches :: "MemoryState \<Rightarrow> VMAPermission \<Rightarrow> VirtualMemoryArea \<Rightarrow> bool" where
  "state_matches expected_state expected_perms v \<longleftrightarrow>
     meminfo_state v = expected_state \<and> permissions v AND expected_perms = expected_perms"

definition ChangeMemoryState ::
  "(nat \<Rightarrow> bool) \<Rightarrow> nat \<Rightarrow> nat \<Rightarrow> MemoryState \<Rightarrow> VMAPermission \<Rightarrow> MemoryState \<Rightarrow> VMAPermission \<Rightarrow> VMManager \<Rightarrow>
     (result \<times> VMManager) option" where
  "ChangeMemoryState cached target sz expected_state expected_perms new_state new_perms m =
     (if is_locked m then Some (ResultSuccess, m)
      else let l = vma_map m; target_end = wrap_u32 (target + sz); e = lower_bound target_end l in do {
        b \<leftarrow> FindVMA target l;
        if b = length l then Some (ResultInvalidAddress, m)
        else if \<not> list_all (state_matches expected_state expected_perms)
                   (if b \<le> e then take (e - b) (drop b l) else drop b l)
          then Some (ResultInvalidAddressState, m)
        else if \<not> b \<le> e then None
        else on_range (change_vma cached (\<lambda>v. v\<lparr>permissions := new_perms, meminfo_state := new_state\<rparr>)) target sz m
      })"

definition MapBackingMemory ::
  "(nat \<Rightarrow> bool) \<Rightarrow> nat \<Rightarrow> MemoryRef \<Rightarrow> nat \<Rightarrow> MemoryState \<Rightarrow> VMManager \<Rightarrow> (nat result_val \<times> VMManager) option" where
  "MapBackingMemory cached target memory sz state m = do {
     assert_opt (\<not> is_locked m);
     assert_opt (GetPtr memory \<noteq> 0);
     r \<leftarrow> CarveVMA target sz (vma_map m);
     case r of
       Inl e \<Rightarrow> Some (Inl e, m)
     | Inr (l, i) \<Rightarrow> do {
         assert_opt (vsize (l ! i) = sz);
         (m1, i1) \<leftarrow> change_vma cached
            (\<lambda>v. v\<lparr>vtype := BackingMemory, permissions := perm_ReadWrite, meminfo_state := state,
                  backing_memory := memory\<rparr>) i (m\<lparr>vma_map := l\<rparr>);
         Some (Inr i1, m1)
       }
   }"

definition OutOfMemory_error :: result where
  "OutOfMemory_error = Result (description_code D_OutOfMemory) ''Kernel'' S_OutOfResource L_Permanent"

text \<open>
  The iterator that the search returns is dereferenced before it is compared with the end of the map.
\<close>

definition MapBackingMemoryToBase ::
  "(nat \<Rightarrow> bool) \<Rightarrow> nat \<Rightarrow> nat \<Rightarrow> MemoryRef \<Rightarrow> nat \<Rightarrow> MemoryState \<Rightarrow> VMManager \<Rightarrow> (nat result_val \<times> VMManager) option" where
  "MapBackingMemoryToBase cached base region_size memory sz state m = do {
     assert_opt (\<not> is_locked m);
     v \<leftarrow> find (\<lambda>v. vtype v = VFree \<and> wrap_u32 (vbase v + vsize v) > base \<and>
                     wrap_u32 (vbase v + vsize v) \<ge> wrap_u32 (base + sz)) (vma_map m);
     let target = max base (vbase v);
     if wrap_u32 (target + sz) > wrap_u32 (base + region_size) then Some (Inl OutOfMemory_error, m)
     else do {
       (r, m1) \<leftarrow> MapBackingMemory cached target memory sz state m;
       Some (case r of Inl e \<Rightarrow> Inl e | Inr _ \<Rightarrow> Inr target, m1)
     }
   }"

fun backing_loop :: "nat \<Rightarrow> nat \<Rightarrow> nat \<Rightarrow> VirtualMemoryArea list \<Rightarrow> (MemoryRef \<times> nat) list \<Rightarrow>
    (MemoryRef \<times> nat) list result_val option" where
  "backing_loop 0 range_end target l blocks = None"
| "backing_loop (Suc n) range_end target l blocks =
     (if target = range_end then Some (Inr blocks)
      else do {
        i \<leftarrow> FindVMA target l;
        assert_opt (i < length l);
        let v = l ! i;
        if vtype v \<noteq> BackingMemory then Some (Inl ResultInvalidAddressState)
        else do {
          let interval_end = min range_end (wrap_u32 (vbase v + vsize v));
          let interval_size = sub_u32 interval_end target;
          memory \<leftarrow> ref_add (backing_memory v) (sub_u32 target (vbase v));
          backing_loop n range_end (wrap_u32 (target + interval_size)) l (blocks @ [(memory, interval_size)])
        }
      })"

definition GetBackingBlocksForRange ::
  "nat \<Rightarrow> nat \<Rightarrow> VMManager \<Rightarrow> (MemoryRef \<times> nat) list result_val option" where
  "GetBackingBlocksForRange address sz m =
     backing_loop (length (vma_map m) + 1) (wrap_u32 (address + sz)) address (vma_map m) []"


section \<open>The table of pages\<close>

text \<open>
  The specification: what each page of the managed space is.  A mapped page has its host address, a free page has none.
\<close>

type_synonym page = "VMAType \<times> VMAPermission \<times> MemoryState \<times> nat"

definition page_attrs :: "VirtualMemoryArea \<Rightarrow> page list" where
  "page_attrs v = map (\<lambda>j. (vtype v, permissions v, meminfo_state v,
       if vtype v = BackingMemory then GetPtr (backing_memory v) + j * CITRA_PAGE_SIZE else 0))
     [0..<vsize v div CITRA_PAGE_SIZE]"

definition pages :: "VirtualMemoryArea list \<Rightarrow> page list" where
  "pages l = concat (map page_attrs l)"

definition free_page :: page where
  "free_page = (VFree, perm_None, MS_Free, 0)"

text \<open>
  Host memory is a list of blocks, with at least a byte between any two.  An area refers to a block that contains it.
  A free area carries no attributes.
\<close>

type_synonym host = "(nat \<times> nat) list"

definition separated :: "host \<Rightarrow> bool" where
  "separated H \<longleftrightarrow> (\<forall>b \<in> set H. \<forall>c \<in> set H. b \<noteq> c \<longrightarrow> fst b + snd b < fst c \<or> fst c + snd c < fst b)"

definition ref_ok :: "host \<Rightarrow> MemoryRef \<Rightarrow> nat \<Rightarrow> bool" where
  "ref_ok H r n = (case r of None \<Rightarrow> False
     | Some b \<Rightarrow> (block_ptr b, block_size b) \<in> set H \<and> 0 < block_ptr b \<and> ref_offset b + n \<le> block_size b)"

definition vma_ok :: "host \<Rightarrow> VirtualMemoryArea \<Rightarrow> bool" where
  "vma_ok H v \<longleftrightarrow> 0 < vsize v \<and> CITRA_PAGE_SIZE dvd vsize v \<and>
     (case vtype v of
        VFree \<Rightarrow> permissions v = perm_None \<and> meminfo_state v = MS_Free \<and> backing_memory v = None
      | BackingMemory \<Rightarrow> ref_ok H (backing_memory v) (vsize v))"

text \<open>The areas of a list follow each other without a gap from one address to another.\<close>

fun chain :: "host \<Rightarrow> nat \<Rightarrow> VirtualMemoryArea list \<Rightarrow> nat \<Rightarrow> bool" where
  "chain H a [] b \<longleftrightarrow> a = b"
| "chain H a (v # vs) b \<longleftrightarrow> vbase v = a \<and> vma_ok H v \<and> chain H (a + vsize v) vs b"

text \<open>No two neighbours that could be merged; with \<open>F\<close>, no two free ones.\<close>

abbreviation settled :: "bool \<Rightarrow> VirtualMemoryArea list \<Rightarrow> bool" where
  "settled F \<equiv> successively (\<lambda>v w. \<not> (mergeable v w \<and> (F \<longrightarrow> vtype v = VFree)))"

definition page_entry :: "bool \<Rightarrow> page \<Rightarrow> PageType \<times> nat" where
  "page_entry c = (\<lambda>(ty, _, _, ptr).
     if ty = VFree then (Unmapped, 0) else if c then (RasterizerCachedMemory, 0) else (Memory, ptr))"

definition entry_at :: "PageTable \<Rightarrow> nat \<Rightarrow> PageType \<times> nat" where
  "entry_at pt k = (attributes pt k, GetPtr (pointers pt k))"

definition table_agrees :: "(nat \<Rightarrow> bool) \<Rightarrow> PageTable \<Rightarrow> page list \<Rightarrow> bool" where
  "table_agrees cached pt ps \<longleftrightarrow>
     (\<forall>k < length ps. entry_at pt k = page_entry (cached k) (ps ! k))"

definition vm_inv :: "host \<Rightarrow> bool \<Rightarrow> (nat \<Rightarrow> bool) \<Rightarrow> VMManager \<Rightarrow> bool" where
  "vm_inv H F cached m \<longleftrightarrow> chain H 0 (vma_map m) MAX_ADDRESS \<and> settled F (vma_map m) \<and>
     table_agrees cached (page_table m) (pages (vma_map m))"

text \<open>Replacing the pages of a range of addresses, and changing them one by one.\<close>

definition set_range :: "nat \<Rightarrow> 'a list \<Rightarrow> 'a list \<Rightarrow> 'a list" where
  "set_range t qs ps =
     take (t div CITRA_PAGE_SIZE) ps @ qs @ drop (t div CITRA_PAGE_SIZE + length qs) ps"

definition range_pages :: "nat \<Rightarrow> nat \<Rightarrow> 'a list \<Rightarrow> 'a list" where
  "range_pages t n ps = take (n div CITRA_PAGE_SIZE) (drop (t div CITRA_PAGE_SIZE) ps)"

lemma page_attrs_length [simp]: "length (page_attrs v) = vsize v div CITRA_PAGE_SIZE"
  by (simp add: page_attrs_def)

lemma pages_simps [simp]: "pages [] = []" "pages (v # l) = page_attrs v @ pages l" "pages (l @ l') = pages l @ pages l'"
  by (simp_all add: pages_def)

lemma chain_append: "chain H a (xs @ ys) b \<longleftrightarrow> (\<exists>c. chain H a xs c \<and> chain H c ys b)"
  by (induction xs arbitrary: a) auto

lemma chain_le: "chain H a xs b \<Longrightarrow> a \<le> b"
  by (induction xs arbitrary: a) fastforce+

lemma chain_less: "chain H a xs b \<Longrightarrow> xs \<noteq> [] \<Longrightarrow> a < b"
  using chain_le by (cases xs) (fastforce simp: vma_ok_def)+

lemma chain_aligned: "chain H a xs b \<Longrightarrow> CITRA_PAGE_SIZE dvd a \<longleftrightarrow> CITRA_PAGE_SIZE dvd b"
proof (induction xs arbitrary: a)
  case (Cons v xs)
  then have "CITRA_PAGE_SIZE dvd vsize v" "CITRA_PAGE_SIZE dvd a + vsize v \<longleftrightarrow> CITRA_PAGE_SIZE dvd b"
    by (simp_all add: vma_ok_def)
  then show ?case by (simp add: dvd_add_left_iff)
qed simp

lemma chain_pages_length: "chain H a xs b \<Longrightarrow> length (pages xs) * CITRA_PAGE_SIZE = b - a"
proof (induction xs arbitrary: a)
  case (Cons v xs)
  then have "vsize v div CITRA_PAGE_SIZE * CITRA_PAGE_SIZE = vsize v" "a + vsize v \<le> b"
    using chain_le [of H "a + vsize v" xs b] by (simp_all add: vma_ok_def)
  moreover have "length (pages xs) * CITRA_PAGE_SIZE = b - (a + vsize v)"
    using Cons by simp
  ultimately show ?case by (simp add: algebra_simps)
qed simp

lemma chain_bases:
  assumes "chain H a xs b" "v \<in> set xs"
  shows "a \<le> vbase v \<and> vbase v + vsize v \<le> b \<and> vma_ok H v"
  using assms
proof (induction xs arbitrary: a)
  case (Cons w xs)
  then show ?case using chain_le [of H "a + vsize w" xs b] by fastforce
qed simp

lemma PAGE_pos [simp]: "0 < CITRA_PAGE_SIZE" "CITRA_PAGE_SIZE dvd MAX_ADDRESS"
  by (simp_all add: CITRA_PAGE_SIZE_def MAX_ADDRESS_def)

lemma MAX_wrap [simp]: "a \<le> MAX_ADDRESS \<Longrightarrow> wrap_u32 a = a"
  by (simp add: MAX_ADDRESS_def)

lemma sub_wrap: "b \<le> a \<Longrightarrow> a \<le> MAX_ADDRESS \<Longrightarrow> sub_u32 a b = a - b"
  by (simp add: sub_u32_le MAX_ADDRESS_def)


section \<open>Merging and splitting\<close>

lemma mergeable_resize [simp]:
  "mergeable v (w\<lparr>vsize := n\<rparr>) = mergeable v w" "mergeable v (w\<lparr>vbase := a\<rparr>) = mergeable v w"
  by (simp_all add: mergeable_def)

lemma mergeable_trans:
  "mergeable v w \<Longrightarrow> mergeable (v\<lparr>vsize := vsize v + vsize w\<rparr>) y \<longleftrightarrow> mergeable w y"
  by (auto simp: mergeable_def)

lemma GetPtr_block: "ref_ok H r n \<Longrightarrow> GetPtr r \<noteq> 0 \<and> n \<le> GetSize r"
  by (auto simp: ref_ok_def GetPtr_def GetSize_def split: option.splits)

lemma ref_ok_join:
  assumes H: "separated H" and r: "ref_ok H r n" and s: "ref_ok H s k" and adj: "GetPtr r + n = GetPtr s"
  shows "ref_ok H r (n + k)"
proof -
  obtain b c where bc: "r = Some b" "s = Some c" using r s by (auto simp: ref_ok_def split: option.splits)
  let ?b = "(block_ptr b, block_size b)" and ?c = "(block_ptr c, block_size c)"
  have in_H: "?b \<in> set H" "?c \<in> set H" and le: "ref_offset b + n \<le> block_size b" "ref_offset c + k \<le> block_size c"
    using r s bc by (auto simp: ref_ok_def)
  have p: "block_ptr b + ref_offset b + n = block_ptr c + ref_offset c" using adj bc by (simp add: GetPtr_def)
  have "?b = ?c"
  proof (rule ccontr)
    assume "?b \<noteq> ?c"
    then have "block_ptr b + block_size b < block_ptr c \<or> block_ptr c + block_size c < block_ptr b"
      using H in_H unfolding separated_def by fastforce
    then show False using p le by linarith
  qed
  then show ?thesis using r bc p le by (simp add: ref_ok_def)
qed

lemma merge_ok:
  assumes "separated H" "vma_ok H v" "vma_ok H w" "mergeable v w"
  shows "vma_ok H (v\<lparr>vsize := vsize v + vsize w\<rparr>)"
  using assms ref_ok_join [OF assms(1), of "backing_memory v" "vsize v" "backing_memory w" "vsize w"]
  by (auto simp: vma_ok_def mergeable_def split: VMAType.splits)

lemma upt_add_map: "map f [0..<m + n] = map f [0..<m] @ map (\<lambda>j. f (m + j)) [0..<n]"
  by (induction n) auto

lemma merge_pages:
  assumes "vma_ok H v" "vma_ok H w" "mergeable v w"
  shows "page_attrs (v\<lparr>vsize := vsize v + vsize w\<rparr>) = page_attrs v @ page_attrs w"
proof -
  have d: "(vsize v + vsize w) div CITRA_PAGE_SIZE = vsize v div CITRA_PAGE_SIZE + vsize w div CITRA_PAGE_SIZE"
    and m: "vsize v div CITRA_PAGE_SIZE * CITRA_PAGE_SIZE = vsize v"
    using assms by (auto simp: vma_ok_def div_add)
  have "vtype v = BackingMemory \<longrightarrow> GetPtr (backing_memory w) = GetPtr (backing_memory v) + vsize v"
    using assms(3) by (auto simp: mergeable_def)
  then show ?thesis
    using assms(3) m by (auto simp: page_attrs_def d upt_add_map mergeable_def algebra_simps)
qed

lemma CanBeMergedWith_next:
  "vbase v + vsize v = vbase w \<Longrightarrow> vbase w \<le> MAX_ADDRESS \<Longrightarrow> CanBeMergedWith v w = Some (mergeable v w)"
  by (simp add: CanBeMergedWith_def)

lemma MergeAdjacent_right:
  assumes H: "separated H" and c: "chain H b (v # ys) MAX_ADDRESS"
  shows "\<exists>v' ys'. chain H b (v' # ys') MAX_ADDRESS \<and> pages (v' # ys') = pages (v # ys) \<and>
    (settled F ys \<longrightarrow> settled F (v' # ys')) \<and> permissions v' = permissions v \<and> vtype v' = vtype v \<and> (\<forall>x. mergeable x v' = mergeable x v) \<and> (ys' = ys \<or> (\<exists>y. ys = y # ys' \<and> mergeable v y)) \<and>
    (if 1 < length (v # ys) then do {
        b \<leftarrow> CanBeMergedWith v (hd ys);
        Some (if b then v\<lparr>vsize := wrap_u32 (vsize v + vsize (hd ys))\<rparr> # tl ys else v # ys)
      } else Some (v # ys)) = Some (v' # ys')"
proof (cases ys)
  case Nil
  then show ?thesis using c by (intro exI [of _ v] exI [of _ "[]"]) simp
next
  case (Cons y zs)
  have le: "vbase v + vsize v = vbase y" "vbase y + vsize y \<le> MAX_ADDRESS"
    using c Cons chain_le [of H "b + vsize v + vsize y" zs] by auto
  then have cb: "CanBeMergedWith v y = Some (mergeable v y)" by (simp add: CanBeMergedWith_next)
  show ?thesis
  proof (cases "mergeable v y")
    case False
    then show ?thesis using c Cons cb by (intro exI [of _ v] exI [of _ "y # zs"]) simp
  next
    case True
    let ?v = "v\<lparr>vsize := vsize v + vsize y\<rparr>"
    have ok: "vma_ok H v" "vma_ok H y" using c Cons by auto
    have "chain H b (?v # zs) MAX_ADDRESS"
      using c Cons merge_ok [OF H ok True] by (auto simp: add.assoc)
    moreover have "settled F ys \<longrightarrow> settled F (?v # zs)"
      using Cons mergeable_trans [OF True] True by (auto simp: successively_Cons mergeable_def)
    moreover have "wrap_u32 (vsize v + vsize y) = vsize v + vsize y" using le by simp
    ultimately show ?thesis
      using Cons cb True merge_pages [OF ok True] by (intro exI [of _ ?v] exI [of _ zs]) simp
  qed
qed

lemma MergeAdjacent_spec:
  assumes H: "separated H" and c: "chain H 0 (xs @ v # ys) MAX_ADDRESS" and u: "settled F xs"
  shows "\<exists>xs' v' ys'. MergeAdjacent (length xs) (xs @ v # ys) = Some (xs' @ v' # ys', length xs') \<and>
    chain H 0 (xs' @ v' # ys') MAX_ADDRESS \<and> pages (xs' @ v' # ys') = pages (xs @ v # ys) \<and>
    settled F (xs' @ [v']) \<and> (settled F ys \<longrightarrow> settled F (v' # ys')) \<and> permissions v' = permissions v \<and> vtype v' = vtype v \<and> (ys' = ys \<or> (\<exists>y. ys = y # ys' \<and> mergeable v y)) \<and>
    (xs' = xs \<or> (\<exists>x. xs = xs' @ [x]))"
proof -
  obtain b where b: "chain H 0 xs b" "chain H b (v # ys) MAX_ADDRESS" using c by (auto simp: chain_append)
  obtain w ws where w: "chain H b (w # ws) MAX_ADDRESS" "pages (w # ws) = pages (v # ys)" "settled F ys \<longrightarrow> settled F (w # ws)"
    "\<forall>x. mergeable x w = mergeable x v" "vtype w = vtype v" "ws = ys \<or> (\<exists>y. ys = y # ws \<and> mergeable v y)"
    "permissions w = permissions v"
    and r: "(if 1 < length (v # ys) then do {
        b \<leftarrow> CanBeMergedWith v (hd ys);
        Some (if b then v\<lparr>vsize := wrap_u32 (vsize v + vsize (hd ys))\<rparr> # tl ys else v # ys)
      } else Some (v # ys)) = Some (w # ws)"
    using MergeAdjacent_right [OF H b(2)] by blast
  have first: "(if length xs + 1 < length (xs @ v # ys) then do {
        b \<leftarrow> CanBeMergedWith ((xs @ v # ys) ! length xs) ((xs @ v # ys) ! (length xs + 1));
        Some (if b then take (length xs) (xs @ v # ys) @
                [((xs @ v # ys) ! length xs)\<lparr>vsize := wrap_u32 (vsize ((xs @ v # ys) ! length xs) +
                   vsize ((xs @ v # ys) ! (length xs + 1)))\<rparr>] @ drop (length xs + 2) (xs @ v # ys)
              else xs @ v # ys)
      } else Some (xs @ v # ys)) = Some (xs @ w # ws)"
    using r by (cases ys) (auto simp: nth_append split: bind_splits if_splits)
  show ?thesis
  proof (cases xs rule: rev_cases)
    case Nil
    then have "MergeAdjacent (length xs) (xs @ v # ys) = Some ([] @ w # ws, length [])"
      unfolding MergeAdjacent_def first by simp
    moreover have "chain H 0 ([] @ w # ws) MAX_ADDRESS" using b w(1) Nil by simp
    ultimately show ?thesis
      using w(2,3,5,6,7) Nil by (intro exI [of _ "[]"] exI [of _ w] exI [of _ ws]) simp
  next
    case (snoc zs x)
    have x: "vbase x + vsize x = vbase w" "vbase w + vsize w \<le> MAX_ADDRESS" and okx: "vma_ok H x" and okw: "vma_ok H w"
      and zs: "chain H 0 zs (vbase x)" and ws: "chain H (vbase w + vsize w) ws MAX_ADDRESS"
      using b(1) w(1) snoc chain_le [of H "b + vsize w" ws] by (auto simp: chain_append)
    then have cb: "CanBeMergedWith x w = Some (mergeable x w)" by (simp add: CanBeMergedWith_next)
    have nth: "(zs @ x # w # ws) ! length zs = x" "(zs @ x # w # ws) ! Suc (length zs) = w"
      by (simp_all add: nth_append)
    have eq: "MergeAdjacent (length xs) (xs @ v # ys) = (if mergeable x w
        then Some (zs @ x\<lparr>vsize := vsize x + vsize w\<rparr> # ws, length zs) else Some (xs @ w # ws, length xs))"
      unfolding MergeAdjacent_def first using snoc cb x nth by simp
    show ?thesis
    proof (cases "mergeable x w")
      case True
      let ?x = "x\<lparr>vsize := vsize x + vsize w\<rparr>"
      have "chain H 0 (zs @ ?x # ws) MAX_ADDRESS"
        using zs ws x merge_ok [OF H okx okw True] by (auto simp: chain_append add.assoc [symmetric])
      moreover have "settled F (zs @ [?x])" "vtype ?x = vtype v" "permissions ?x = permissions v"
        using u(1) w(5,7) snoc True by (auto simp: successively_append_iff mergeable_def)
      moreover have "settled F ys \<longrightarrow> settled F (?x # ws)"
        using w(3) mergeable_trans [OF True] True by (auto simp: successively_Cons mergeable_def)
      ultimately show ?thesis
        using eq True w(2,6) snoc merge_pages [OF okx okw True]
        by (intro exI [of _ zs] exI [of _ ?x] exI [of _ ws]) simp
    next
      case False
      moreover have "settled F (xs @ [w])"
        using u(1) snoc False by (auto simp: successively_append_iff)
      moreover have "chain H 0 (xs @ w # ws) MAX_ADDRESS" using b(1) w(1) by (auto simp: chain_append)
      ultimately show ?thesis
        using eq w(2,3,5,6,7) by (intro exI [of _ xs] exI [of _ w] exI [of _ ws]) simp
    qed
  qed
qed

lemma ref_ok_split:
  assumes "ref_ok H r n" "0 < k" "k < n"
  shows "\<exists>s. ref_add r k = Some s \<and> ref_ok H s (n - k) \<and> GetPtr s = GetPtr r + k \<and> ref_ok H r k"
  using assms by (auto simp: ref_ok_def ref_add_def GetSize_def GetPtr_def split: option.splits)

lemma SplitVMA_spec:
  assumes c: "chain H a (v # ys) MAX_ADDRESS" and k: "0 < k" "k < vsize v" "CITRA_PAGE_SIZE dvd k"
  shows "\<exists>w. SplitVMA (length xs) k (xs @ v # ys) = Some (xs @ v\<lparr>vsize := k\<rparr> # w # ys, length xs + 1) \<and>
    chain H a (v\<lparr>vsize := k\<rparr> # w # ys) MAX_ADDRESS \<and> pages (v\<lparr>vsize := k\<rparr> # w # ys) = pages (v # ys) \<and>
    vtype w = vtype v \<and> vbase w = vbase v + k \<and> (\<forall>y. mergeable w y = mergeable v y)"
proof -
  let ?v = "v\<lparr>vsize := k\<rparr>"
  have ok: "vma_ok H v" and le: "vbase v + vsize v \<le> MAX_ADDRESS" and a: "vbase v = a"
    and ys: "chain H (a + vsize v) ys MAX_ADDRESS"
    using c chain_le [of H "a + vsize v" ys MAX_ADDRESS] by auto
  obtain r where r: "(case vtype v of VFree \<Rightarrow> Some (backing_memory v) | BackingMemory \<Rightarrow> ref_add (backing_memory v) k) = Some r"
    "vtype v = BackingMemory \<longrightarrow> ref_ok H r (vsize v - k) \<and> GetPtr r = GetPtr (backing_memory v) + k \<and>
       ref_ok H (backing_memory v) k"
    "vtype v = VFree \<longrightarrow> r = None"
    using ok ref_ok_split [of H "backing_memory v" "vsize v" k] k by (cases "vtype v") (auto simp: vma_ok_def)
  define w where "w = v\<lparr>vbase := vbase v + k, vsize := vsize v - k, backing_memory := r\<rparr>"
  have w: "vma_ok H w" "vma_ok H ?v"
    using ok r k by (auto simp: vma_ok_def w_def dvd_diff_nat split: VMAType.splits)
  have m: "mergeable ?v w" using r by (simp add: mergeable_def w_def)
  have join: "?v\<lparr>vsize := vsize ?v + vsize w\<rparr> = v" using k by (simp add: w_def)
  have "mergeable w y = mergeable v y" for y
    using mergeable_trans [OF m, of y] join by simp
  moreover have "SplitVMA (length xs) k (xs @ v # ys) = Some (xs @ ?v # w # ys, length xs + 1)"
  proof -
    have "wrap_u32 (vbase v + k) = vbase v + k" using k le by simp
    moreover have "CanBeMergedWith ?v w = Some True"
      using m k le CanBeMergedWith_next [of ?v w] by (simp add: w_def)
    ultimately show ?thesis using r(1) k by (simp add: SplitVMA_def w_def)
  qed
  moreover have "pages (?v # w # ys) = pages (v # ys)"
    using merge_pages [OF w(2,1) m] join by simp
  moreover have f: "vtype w = vtype v" "vbase w = vbase v + k" "vsize w = vsize v - k"
    by (simp_all add: w_def)
  moreover have "chain H a (?v # w # ys) MAX_ADDRESS"
    using w ys a k f by simp
  ultimately show ?thesis by (intro exI [of _ w]) simp
qed


section \<open>Finding areas\<close>

lemma takeWhile_split:
  "(\<forall>x \<in> set xs. P x) \<Longrightarrow> (ys = [] \<or> \<not> P (hd ys)) \<Longrightarrow> takeWhile P (xs @ ys) = xs"
  by (cases ys) auto

lemma find_area:
  assumes c: "chain H a l MAX_ADDRESS" and t: "a \<le> t" "t < MAX_ADDRESS"
  shows "\<exists>xs v ys. l = xs @ v # ys \<and> vbase v \<le> t \<and> t < vbase v + vsize v"
  using assms
proof (induction l arbitrary: a)
  case Nil
  then show ?case by simp
next
  case (Cons v l)
  show ?case
  proof (cases "t < a + vsize v")
    case True
    then show ?thesis using Cons.prems by (intro exI [of _ "[]"] exI [of _ v] exI [of _ l]) simp
  next
    case False
    then obtain xs w ys where "l = xs @ w # ys" "vbase w \<le> t" "t < vbase w + vsize w"
      using Cons.IH [of "a + vsize v"] Cons.prems by auto
    then show ?thesis by (intro exI [of _ "v # xs"] exI [of _ w] exI [of _ ys]) simp
  qed
qed

lemma chain_hd_base: "chain H a ys b \<Longrightarrow> ys \<noteq> [] \<Longrightarrow> vbase (hd ys) = a"
  by (cases ys) auto

lemma chain_tail_base: "chain H a xs b \<Longrightarrow> v \<in> set xs \<Longrightarrow> vbase v < b"
  using chain_bases [of H a xs b v] by (auto simp: vma_ok_def)

lemma FindVMA_eq:
  assumes c: "chain H 0 (xs @ v # ys) MAX_ADDRESS" and t: "vbase v \<le> t" "t < vbase v + vsize v"
  shows "FindVMA t (xs @ v # ys) = Some (length xs)"
proof -
  obtain ch: "chain H 0 xs (vbase v)" "chain H (vbase v + vsize v) ys MAX_ADDRESS"
    using c by (auto simp: chain_append)
  have "t < MAX_ADDRESS" using t chain_le [OF ch(2)] by simp
  moreover have "takeWhile (\<lambda>v. vbase v \<le> t) ((xs @ [v]) @ ys) = xs @ [v]"
  proof (rule takeWhile_split)
    show "\<forall>x \<in> set (xs @ [v]). vbase x \<le> t" using chain_tail_base [OF ch(1)] t by fastforce
    show "ys = [] \<or> \<not> vbase (hd ys) \<le> t" using chain_hd_base [OF ch(2)] t by fastforce
  qed
  ultimately show ?thesis by (simp add: FindVMA_def upper_bound_def)
qed

lemma lower_bound_eq:
  assumes c: "chain H 0 xs b" "chain H b ys MAX_ADDRESS" and t: "\<forall>x \<in> set xs. vbase x < t" "ys = [] \<or> t \<le> b"
  shows "lower_bound t (xs @ ys) = length xs"
proof -
  have "takeWhile (\<lambda>v. vbase v < t) (xs @ ys) = xs"
    using takeWhile_split [of xs "\<lambda>v. vbase v < t" ys] t chain_hd_base [OF c(2)] by fastforce
  then show ?thesis by (simp add: lower_bound_def)
qed

text \<open>The page at an address is the page of the area that contains it.\<close>

definition page_key :: "page \<Rightarrow> VMAType \<times> VMAPermission \<times> MemoryState" where
  "page_key p = (fst p, fst (snd p), fst (snd (snd p)))"

definition area_key :: "VirtualMemoryArea \<Rightarrow> VMAType \<times> VMAPermission \<times> MemoryState" where
  "area_key v = (vtype v, permissions v, meminfo_state v)"

lemma page_at:
  assumes c: "chain H a l b" and v: "v \<in> set l" "vbase v \<le> a + k * CITRA_PAGE_SIZE" "a + k * CITRA_PAGE_SIZE < vbase v + vsize v"
  shows "k < length (pages l) \<and> page_key (pages l ! k) = area_key v"
  using assms
proof (induction l arbitrary: a k)
  case Nil
  then show ?case by simp
next
  case (Cons w l)
  let ?n = "vsize w div CITRA_PAGE_SIZE"
  have n: "?n * CITRA_PAGE_SIZE = vsize w" "vbase w = a" and cl: "chain H (a + vsize w) l b"
    using Cons.prems(1) by (auto simp: vma_ok_def)
  show ?case
  proof (cases "k < ?n")
    case True
    then have "k * CITRA_PAGE_SIZE < vsize w" using n(1) by (metis PAGE_pos(1) mult_less_cancel2)
    moreover have "v = w" if "v \<in> set l"
      using chain_bases [OF cl that] Cons.prems(3) calculation by linarith
    ultimately have "v = w" using Cons.prems(2) by auto
    then show ?thesis using True by (auto simp: nth_append page_attrs_def page_key_def area_key_def)
  next
    case False
    then have k: "?n + (k - ?n) = k" by simp
    have e: "a + vsize w + (k - ?n) * CITRA_PAGE_SIZE = a + k * CITRA_PAGE_SIZE"
      using k n(1) by (metis add.assoc distrib_right)
    have "v \<noteq> w"
    proof
      assume "v = w"
      then have "k * CITRA_PAGE_SIZE < ?n * CITRA_PAGE_SIZE" using Cons.prems(4) n by simp
      then show False using False by simp
    qed
    then have "v \<in> set l" using Cons.prems(2) by simp
    then have "k - ?n < length (pages l)" "page_key (pages l ! (k - ?n)) = area_key v"
      using Cons.IH [OF cl, of "k - ?n"] Cons.prems(3,4) e by auto
    then show ?thesis using False by (auto simp: nth_append)
  qed
qed

lemma page_type_in: "p \<in> set (pages l) \<Longrightarrow> \<exists>v \<in> set l. fst p = vtype v"
  by (auto simp: pages_def page_attrs_def)

lemma vma_has_page: "vma_ok H v \<Longrightarrow> \<exists>p \<in> set (page_attrs v). fst p = vtype v"
proof -
  assume "vma_ok H v"
  then have "0 < vsize v div CITRA_PAGE_SIZE" by (auto simp: vma_ok_def dvd_imp_le div_greater_zero_iff)
  then show ?thesis by (force simp: page_attrs_def)
qed

lemma pages_backing:
  "chain H a l b \<Longrightarrow> (\<forall>p \<in> set (pages l). fst p = BackingMemory) \<longleftrightarrow> (\<forall>v \<in> set l. vtype v = BackingMemory)"
  using page_type_in vma_has_page chain_bases unfolding pages_def by (auto simp: page_attrs_def) (metis fst_conv)+

lemma settled_shrink:
  assumes "settled F (xs @ v # ys)"
  shows "settled F (xs @ [v\<lparr>vsize := k\<rparr>])"
  using assms by (auto simp: successively_append_iff)

text \<open>Cutting the map at an address, as both ends of a range are cut.\<close>

lemma cut_at:
  assumes c: "chain H 0 ps c" "chain H c l MAX_ADDRESS" and t: "c \<le> t" "t < MAX_ADDRESS" "CITRA_PAGE_SIZE dvd t"
    and u: "settled F l"
  shows "\<exists>j zs ws. FindVMA t (ps @ l) = Some j \<and> j < length (ps @ l) \<and>
    (if t \<noteq> vbase ((ps @ l) ! j) then SplitVMA j (sub_u32 t (vbase ((ps @ l) ! j))) (ps @ l) else Some (ps @ l, j)) =
      Some (ps @ zs @ ws, length (ps @ zs)) \<and>
    chain H c zs t \<and> chain H t ws MAX_ADDRESS \<and> pages (zs @ ws) = pages l \<and> settled F zs \<and> settled F ws"
proof -
  obtain xs v ys where l: "l = xs @ v # ys" and v: "vbase v \<le> t" "t < vbase v + vsize v"
    using find_area [OF c(2) t(1,2)] by blast
  have ch: "chain H c xs (vbase v)" "chain H (vbase v) (v # ys) MAX_ADDRESS" using c(2) l by (auto simp: chain_append)
  have "chain H 0 ((ps @ xs) @ v # ys) MAX_ADDRESS" using c l by (auto simp: chain_append)
  then have f: "FindVMA t (ps @ l) = Some (length (ps @ xs))"
    using FindVMA_eq [of H "ps @ xs" v ys t] v l by simp
  have nth: "(ps @ l) ! length (ps @ xs) = v" using l by (simp add: nth_append)
  show ?thesis
  proof (cases "t = vbase v")
    case True
    then show ?thesis
      using f nth l ch u
      by (intro exI [of _ "length (ps @ xs)"] exI [of _ xs] exI [of _ "v # ys"])
        (auto simp: successively_append_iff)
  next
    case False
    let ?k = "t - vbase v"
    have "CITRA_PAGE_SIZE dvd vbase v"
      using chain_aligned [OF ch(2)] by simp
    then have k: "0 < ?k" "?k < vsize v" "CITRA_PAGE_SIZE dvd ?k" using False v t(3) by (auto simp: dvd_diff_nat)
    have sub: "sub_u32 t (vbase v) = ?k" using v t by (simp add: sub_wrap)
    obtain w where w: "SplitVMA (length (ps @ xs)) ?k ((ps @ xs) @ v # ys) =
        Some ((ps @ xs) @ v\<lparr>vsize := ?k\<rparr> # w # ys, length (ps @ xs) + 1)"
      "chain H (vbase v) (v\<lparr>vsize := ?k\<rparr> # w # ys) MAX_ADDRESS" "pages (v\<lparr>vsize := ?k\<rparr> # w # ys) = pages (v # ys)"
      "vbase w = vbase v + ?k" "\<forall>y. mergeable w y = mergeable v y" "vtype w = vtype v"
      using SplitVMA_spec [OF ch(2) k, of "ps @ xs"] by blast
    have "settled F (w # ys)" using u l w(5,6) by (auto simp: successively_append_iff successively_Cons)
    moreover have "settled F (xs @ [v\<lparr>vsize := ?k\<rparr>])" using u l settled_shrink by blast
    moreover have "chain H c (xs @ [v\<lparr>vsize := ?k\<rparr>]) t" "chain H t (w # ys) MAX_ADDRESS"
      using ch(1) w(2) v(1) by (auto simp: chain_append)
    ultimately show ?thesis
      using f nth sub w(1,3) l False
      by (intro exI [of _ "length (ps @ xs)"] exI [of _ "xs @ [v\<lparr>vsize := ?k\<rparr>]"] exI [of _ "w # ys"]) simp
  qed
qed

text \<open>The check for free areas looks at exactly the areas that have a page in the range.\<close>

lemma carve_check:
  assumes c: "chain H 0 l MAX_ADDRESS" and t: "CITRA_PAGE_SIZE dvd t" "CITRA_PAGE_SIZE dvd n" "0 < n" "t + n \<le> MAX_ADDRESS"
    and i: "FindVMA t l = Some i"
  shows "K \<in> area_key ` set (take (lower_bound (t + n) l - i) (drop i l)) \<longleftrightarrow>
    (\<exists>k. t div CITRA_PAGE_SIZE \<le> k \<and> k < (t + n) div CITRA_PAGE_SIZE \<and> page_key (pages l ! k) = K)"
    (is "?L \<longleftrightarrow> ?R")
proof -
  obtain xs v ys where l: "l = xs @ v # ys" and v: "vbase v \<le> t" "t < vbase v + vsize v"
    using find_area [OF c, of t] t by auto
  have i': "i = length xs" using FindVMA_eq [of H xs v ys t] c l v i by simp
  define as where "as = takeWhile (\<lambda>v. vbase v < t + n) ys"
  define bs where "bs = dropWhile (\<lambda>v. vbase v < t + n) ys"
  have ab: "l = (xs @ v # as) @ bs" using l by (simp add: as_def bs_def)
  have ch: "chain H 0 xs (vbase v)" using c l by (auto simp: chain_append)
  have below: "\<forall>x \<in> set (xs @ v # as). vbase x < t + n"
    using chain_tail_base [OF ch] v t(3) by (fastforce simp: as_def dest: set_takeWhileD)
  obtain b where b: "chain H 0 (xs @ v # as) b" "chain H b bs MAX_ADDRESS"
    using c ab by (metis chain_append)
  have bs: "bs = [] \<or> t + n \<le> b"
    using chain_hd_base [OF b(2)] hd_dropWhile [of "\<lambda>v. vbase v < t + n" ys] by (fastforce simp: bs_def)
  have lb: "lower_bound (t + n) l = length (xs @ v # as)"
    using lower_bound_eq [OF b below bs] ab by simp
  have set_eq: "set (take (lower_bound (t + n) l - i) (drop i l)) = set (v # as)"
    using lb ab i' by simp
  have tn: "t div CITRA_PAGE_SIZE * CITRA_PAGE_SIZE = t" "(t + n) div CITRA_PAGE_SIZE * CITRA_PAGE_SIZE = t + n"
    by (rule dvd_div_mult_self [OF t(1)], rule dvd_div_mult_self [OF dvd_add [OF t(1,2)]])
  have later: "v \<in> set l" "x \<in> set as \<Longrightarrow> x \<in> set l \<and> t < vbase x" for x
  proof -
    show "v \<in> set l" using l by simp
    assume x: "x \<in> set as"
    have "chain H (vbase v + vsize v) ys MAX_ADDRESS" using c l by (auto simp: chain_append)
    then show "x \<in> set l \<and> t < vbase x"
      using chain_bases [of H "vbase v + vsize v" ys MAX_ADDRESS x] x v l by (auto simp: as_def dest: set_takeWhileD)
  qed
  show ?thesis
  proof
    assume ?L
    then obtain w where w: "w \<in> set (v # as)" "area_key w = K" using set_eq by auto
    let ?a = "max t (vbase w)"
    have wl: "w \<in> set l" and wok: "0 < vsize w" "CITRA_PAGE_SIZE dvd vbase w"
      and wr: "vbase w < t + n" "t < vbase w + vsize w"
    proof -
      show wl: "w \<in> set l" using w(1) later by auto
      then obtain ps qs where "l = ps @ w # qs" by (meson split_list)
      then have "chain H 0 ps (vbase w)" using c by (auto simp: chain_append)
      from chain_aligned [OF this] show "CITRA_PAGE_SIZE dvd vbase w" by simp
      show "0 < vsize w" using chain_bases [OF c wl] by (simp add: vma_ok_def)
      then show "vbase w < t + n" "t < vbase w + vsize w" using below w(1) later(2) [of w] v by auto
    qed
    have a: "CITRA_PAGE_SIZE dvd ?a" "t \<le> ?a" "?a < t + n" "vbase w \<le> ?a" "?a < vbase w + vsize w"
      using t wok wr by (auto simp: max_def)
    then have "?a div CITRA_PAGE_SIZE * CITRA_PAGE_SIZE = ?a" by simp
    then have "page_key (pages l ! (?a div CITRA_PAGE_SIZE)) = K"
      using page_at [OF c wl, of "?a div CITRA_PAGE_SIZE"] a w(2) by simp
    moreover have "t div CITRA_PAGE_SIZE \<le> ?a div CITRA_PAGE_SIZE"
      using a(2) by (rule div_le_mono)
    moreover have "?a div CITRA_PAGE_SIZE < (t + n) div CITRA_PAGE_SIZE"
      using a(3) tn(2) by (intro less_mult_imp_div_less) simp
    ultimately show ?R by blast
  next
    assume ?R
    then obtain k where k: "t div CITRA_PAGE_SIZE \<le> k" "k < (t + n) div CITRA_PAGE_SIZE" "page_key (pages l ! k) = K" by blast
    have ka: "t \<le> k * CITRA_PAGE_SIZE" "k * CITRA_PAGE_SIZE < t + n"
      using k tn mult_le_mono1 [OF k(1), of CITRA_PAGE_SIZE] by (auto simp: less_mult_imp_div_less) (metis PAGE_pos(1) k(2) mult_less_cancel2 tn(2))
    obtain qs w rs where w: "l = qs @ w # rs" "vbase w \<le> k * CITRA_PAGE_SIZE" "k * CITRA_PAGE_SIZE < vbase w + vsize w"
      using find_area [OF c, of "k * CITRA_PAGE_SIZE"] ka t(4) by auto
    have wl: "w \<in> set l" using w(1) by simp
    have "area_key w = K" using page_at [OF c wl, of k] w(2,3) k(3) by simp
    moreover have "w \<in> set (v # as)"
    proof -
      have "w \<notin> set xs" using chain_bases [OF ch, of w] w(3) v(1) ka(1) by fastforce
      moreover have "w \<notin> set bs"
        using chain_bases [OF b(2), of w] bs w(2) ka(2) by fastforce
      ultimately show ?thesis using wl ab by auto
    qed
    ultimately show ?L using set_eq by auto
  qed
qed

definition in_range :: "nat \<Rightarrow> nat \<Rightarrow> nat \<Rightarrow> bool" where
  "in_range t n k \<longleftrightarrow> t div CITRA_PAGE_SIZE \<le> k \<and> k < (t + n) div CITRA_PAGE_SIZE"

definition good_range :: "nat \<Rightarrow> nat \<Rightarrow> bool" where
  "good_range t n \<longleftrightarrow> CITRA_PAGE_SIZE dvd t \<and> CITRA_PAGE_SIZE dvd n \<and> 0 < n \<and> t + n \<le> MAX_ADDRESS"

lemma good_rangeD:
  "good_range t n \<Longrightarrow> CITRA_PAGE_SIZE dvd t" "good_range t n \<Longrightarrow> CITRA_PAGE_SIZE dvd n"
  "good_range t n \<Longrightarrow> 0 < n" "good_range t n \<Longrightarrow> t + n \<le> MAX_ADDRESS" "good_range t n \<Longrightarrow> t < MAX_ADDRESS"
  by (auto simp: good_range_def)

lemma page_aligned_dvd: "page_aligned a \<longleftrightarrow> CITRA_PAGE_SIZE dvd a"
  by (auto simp: page_aligned_def)

lemma carve_check_ball:
  assumes c: "chain H 0 l MAX_ADDRESS" and r: "good_range t n" and i: "FindVMA t l = Some i"
  shows "(\<forall>v \<in> set (take (lower_bound (t + n) l - i) (drop i l)). P (area_key v)) \<longleftrightarrow>
    (\<forall>k. in_range t n k \<longrightarrow> P (page_key (pages l ! k)))"
proof -
  let ?A = "set (take (lower_bound (t + n) l - i) (drop i l))"
  have "K \<in> area_key ` ?A \<longleftrightarrow> (\<exists>k. in_range t n k \<and> page_key (pages l ! k) = K)" for K
    using carve_check [OF c good_rangeD(1-4) [OF r] i, of K] by (simp add: in_range_def)
  then have eq: "area_key ` ?A = {K. \<exists>k. in_range t n k \<and> page_key (pages l ! k) = K}" by (intro set_eqI) simp
  have "(\<forall>v \<in> ?A. P (area_key v)) \<longleftrightarrow> (\<forall>K \<in> area_key ` ?A. P K)" by simp
  also have "\<dots> \<longleftrightarrow> (\<forall>k. in_range t n k \<longrightarrow> P (page_key (pages l ! k)))" unfolding eq by blast
  finally show ?thesis .
qed

lemma FindVMA_some:
  assumes "chain H 0 l MAX_ADDRESS" "t < MAX_ADDRESS"
  shows "\<exists>i. FindVMA t l = Some i \<and> i < length l"
proof -
  obtain xs v ys where l: "l = xs @ v # ys" "vbase v \<le> t" "t < vbase v + vsize v"
    using find_area [OF assms(1) _ assms(2)] by auto
  then show ?thesis using FindVMA_eq [of H xs v ys t] assms(1) by auto
qed

lemma CarveVMARange_error:
  assumes c: "chain H 0 l MAX_ADDRESS" and r: "good_range t n"
    and f: "\<exists>k. in_range t n k \<and> fst (pages l ! k) = VFree"
  shows "CarveVMARange t n l = Some (Inl ResultInvalidAddressState)"
proof -
  note r' = good_rangeD [OF r]
  obtain i where i: "FindVMA t l = Some i" using FindVMA_some [OF c r'(5)] by blast
  have "list_ex (\<lambda>v. vtype v = VFree) (take (lower_bound (t + n) l - i) (drop i l))"
    using carve_check_ball [OF c r i, of "\<lambda>K. fst K \<noteq> VFree"] f by (auto simp: list_ex_iff area_key_def page_key_def)
  then show ?thesis
    using r' i by (simp add: CarveVMARange_def page_aligned_dvd)
qed

lemma CarveVMARange_spec:
  assumes c: "chain H 0 l MAX_ADDRESS" and u: "settled F l" and r: "good_range t n"
    and f: "\<forall>k. in_range t n k \<longrightarrow> fst (pages l ! k) = BackingMemory"
  shows "\<exists>xs zs ws. CarveVMARange t n l = Some (Inr (xs @ zs @ ws, length xs)) \<and> chain H 0 xs t \<and>
    chain H t zs (t + n) \<and> chain H (t + n) ws MAX_ADDRESS \<and> pages (xs @ zs @ ws) = pages l \<and>
    settled F xs \<and> settled F zs \<and> settled F ws"
proof -
  note r' = good_rangeD [OF r]
  obtain i xs ls where i: "FindVMA t l = Some i" "i < length l"
    and s1: "(if t \<noteq> vbase (l ! i) then SplitVMA i (sub_u32 t (vbase (l ! i))) l else Some (l, i)) = Some (xs @ ls, length xs)"
    and c1: "chain H 0 xs t" "chain H t ls MAX_ADDRESS" "pages (xs @ ls) = pages l" "settled F xs" "settled F ls"
    using cut_at [where H = H and ps = "[]" and c = 0 and l = l and t = t and F = F, unfolded append_Nil] c r' u by auto
  have nofree: "\<not> list_ex (\<lambda>v. vtype v = VFree) (take (lower_bound (t + n) l - i) (drop i l))"
    using carve_check_ball [OF c r i(1), of "\<lambda>K. fst K \<noteq> VFree"] f by (auto simp: list_ex_iff area_key_def page_key_def)
  obtain zs ws where s2: "Option.bind (FindVMA (t + n) (xs @ ls)) (\<lambda>j.
        if j \<noteq> length (xs @ ls) \<and> t + n \<noteq> vbase ((xs @ ls) ! j)
        then map_option fst (SplitVMA j (sub_u32 (t + n) (vbase ((xs @ ls) ! j))) (xs @ ls)) else Some (xs @ ls)) =
      Some (xs @ zs @ ws)"
    and c2: "chain H t zs (t + n)" "chain H (t + n) ws MAX_ADDRESS" "pages (zs @ ws) = pages ls" "settled F zs" "settled F ws"
  proof (cases "t + n = MAX_ADDRESS")
    case True
    then have "FindVMA (t + n) (xs @ ls) = Some (length (xs @ ls))" by (simp add: FindVMA_def)
    then show ?thesis using that [of ls "[]"] c1 True by simp
  next
    case False
    then have "t + n < MAX_ADDRESS" using r'(4) by simp
    then obtain j zs ws where "FindVMA (t + n) (xs @ ls) = Some j" "j < length (xs @ ls)"
      "(if t + n \<noteq> vbase ((xs @ ls) ! j) then SplitVMA j (sub_u32 (t + n) (vbase ((xs @ ls) ! j))) (xs @ ls)
        else Some (xs @ ls, j)) = Some (xs @ zs @ ws, length (xs @ zs))"
      "chain H t zs (t + n)" "chain H (t + n) ws MAX_ADDRESS" "pages (zs @ ws) = pages ls" "settled F zs" "settled F ws"
      using cut_at [OF c1(1,2), where t = "t + n" and F = F] c1(5) r' by auto
    then show ?thesis using that [of zs ws] by (auto split: if_splits)
  qed
  obtain j where j: "FindVMA (t + n) (xs @ ls) = Some j"
    "(if j \<noteq> length (xs @ ls) \<and> t + n \<noteq> vbase ((xs @ ls) ! j)
      then map_option fst (SplitVMA j (sub_u32 (t + n) (vbase ((xs @ ls) ! j))) (xs @ ls)) else Some (xs @ ls)) =
     Some (xs @ zs @ ws)"
    using s2 by (cases "FindVMA (t + n) (xs @ ls)") simp_all
  have "CarveVMARange t n l = Some (Inr (xs @ zs @ ws, length xs))"
    unfolding CarveVMARange_def Let_def MAX_wrap [OF r'(4)]
    using r'(1-4) nofree i(1) s1 j by (simp add: page_aligned_dvd del: length_append split del: if_split)
  then show ?thesis
    using c1 c2 by (intro exI [of _ xs] exI [of _ zs] exI [of _ ws]) simp
qed

lemma range_pages_len:
  assumes "chain H 0 xs t" "chain H t zs (t + n)" "good_range t n"
  shows "length (pages xs) = t div CITRA_PAGE_SIZE" "length (pages zs) = n div CITRA_PAGE_SIZE"
    "k < length (pages zs) \<Longrightarrow> in_range t n (length (pages xs) + k)"
proof -
  have "length (pages xs) * CITRA_PAGE_SIZE = t" "length (pages zs) * CITRA_PAGE_SIZE = n"
    using chain_pages_length [OF assms(1)] chain_pages_length [OF assms(2)] by auto
  then show l: "length (pages xs) = t div CITRA_PAGE_SIZE" "length (pages zs) = n div CITRA_PAGE_SIZE"
    by (metis PAGE_pos(1) nonzero_mult_div_cancel_right not_gr0)+
  then show "k < length (pages zs) \<Longrightarrow> in_range t n (length (pages xs) + k)"
    using good_rangeD(1,2) [OF assms(3)] by (simp add: in_range_def)
qed

lemma range_backing:
  assumes "chain H 0 xs t" "chain H t zs (t + n)" "good_range t n" "pages (xs @ zs @ ws) = pages l"
    and f: "\<forall>k. in_range t n k \<longrightarrow> fst (pages l ! k) = BackingMemory"
  shows "\<forall>v \<in> set zs. vtype v = BackingMemory"
proof -
  have "fst p = BackingMemory" if p: "p \<in> set (pages zs)" for p
  proof -
    obtain k where k: "k < length (pages zs)" "p = pages zs ! k" using p by (auto simp: in_set_conv_nth)
    then have "p = pages l ! (length (pages xs) + k)"
      using assms(4) [symmetric] by (simp add: nth_append)
    then show ?thesis using f range_pages_len(3) [OF assms(1-3) k(1)] by simp
  qed
  then show ?thesis using pages_backing [OF assms(2)] by blast
qed


section \<open>The page table\<close>

lemma MapPages_unmap:
  assumes "base + n \<le> PAGE_TABLE_NUM_ENTRIES"
  shows "\<exists>pt'. MapPages cached n base None Unmapped pt = Some pt' \<and>
    (\<forall>k. entry_at pt' k =
       (if base \<le> k \<and> k < base + n then (Unmapped, 0) else entry_at pt k))"
  using assms
proof (induction n arbitrary: base pt)
  case (Suc n)
  let ?pt = "pt\<lparr>attributes := (attributes pt)(base := Unmapped), pointers := (pointers pt)(base := None)\<rparr>"
  obtain pt' where "MapPages cached n (base + 1) None Unmapped ?pt = Some pt'"
    "\<forall>k. entry_at pt' k =
       (if base + 1 \<le> k \<and> k < base + 1 + n then (Unmapped, 0) else entry_at ?pt k)"
    using Suc.IH [of "base + 1" ?pt] Suc.prems by auto
  then show ?case using Suc.prems by (intro exI [of _ pt']) (auto simp: entry_at_def GetPtr_def)
qed auto

lemma ref_add_page:
  "n < GetSize r \<Longrightarrow> \<exists>s. ref_add r n = Some s \<and> GetPtr s = GetPtr r + n \<and> GetSize s = GetSize r - n"
  by (auto simp: ref_add_def GetSize_def GetPtr_def split: option.splits)

lemma MapPages_map:
  assumes "base + n \<le> PAGE_TABLE_NUM_ENTRIES" "GetPtr r \<noteq> 0" "n * CITRA_PAGE_SIZE \<le> GetSize r"
  shows "\<exists>pt'. MapPages cached n base r Memory pt = Some pt' \<and>
    (\<forall>k. entry_at pt' k =
       (if base \<le> k \<and> k < base + n
        then if cached k then (RasterizerCachedMemory, 0) else (Memory, GetPtr r + (k - base) * CITRA_PAGE_SIZE)
        else entry_at pt k))"
  using assms
proof (induction n arbitrary: base r pt)
  case (Suc n)
  let ?pt = "pt\<lparr>attributes := (attributes pt)(base := if cached base then RasterizerCachedMemory else Memory),
                 pointers := (pointers pt)(base := if cached base then None else r)\<rparr>"
  obtain s where s: "(if GetPtr r \<noteq> 0 \<and> GetSize r > CITRA_PAGE_SIZE then ref_add r CITRA_PAGE_SIZE else Some r) = Some s"
    "GetPtr s \<noteq> 0" "n * CITRA_PAGE_SIZE \<le> GetSize s" "n = 0 \<or> GetPtr s = GetPtr r + CITRA_PAGE_SIZE"
  proof (cases "GetSize r > CITRA_PAGE_SIZE")
    case True
    then show ?thesis using that ref_add_page [OF True] Suc.prems by auto
  next
    case False
    have "n = 0"
    proof (rule ccontr)
      assume "n \<noteq> 0"
      then have "2 * CITRA_PAGE_SIZE \<le> Suc n * CITRA_PAGE_SIZE" by (intro mult_le_mono1) simp
      then show False using Suc.prems(3) False PAGE_pos(1) by linarith
    qed
    then show ?thesis using that [of r] False Suc.prems by auto
  qed
  obtain pt' where pt': "MapPages cached n (base + 1) s Memory ?pt = Some pt'"
    "\<forall>k. entry_at pt' k =
       (if base + 1 \<le> k \<and> k < base + 1 + n
        then if cached k then (RasterizerCachedMemory, 0) else (Memory, GetPtr s + (k - (base + 1)) * CITRA_PAGE_SIZE)
        else entry_at ?pt k)"
    using Suc.IH [of "base + 1" s ?pt] Suc.prems s by auto
  have "GetPtr s + (k - (base + 1)) * CITRA_PAGE_SIZE = GetPtr r + (k - base) * CITRA_PAGE_SIZE"
    if "base + 1 \<le> k" "k < base + 1 + n" for k
  proof -
    have "k - base = Suc (k - (base + 1))" using that by simp
    then show ?thesis using s(4) that by auto
  qed
  then have e: "entry_at pt' k = (if base \<le> k \<and> k < base + Suc n
        then if cached k then (RasterizerCachedMemory, 0) else (Memory, GetPtr r + (k - base) * CITRA_PAGE_SIZE)
        else entry_at pt k)" for k
    using spec [OF pt'(2), of k] by (cases "k = base") (auto simp: entry_at_def GetPtr_def split: if_splits)
  have "MapPages cached (Suc n) base r Memory pt = Some pt'"
    using s(1) pt'(1) Suc.prems(1) by simp
  then show ?case using e by blast
qed (auto simp: entry_at_def)

lemma UpdatePageTable_spec:
  assumes ok: "vma_ok H v" and al: "CITRA_PAGE_SIZE dvd vbase v" and le: "vbase v + vsize v \<le> MAX_ADDRESS"
  shows "\<exists>pt'. UpdatePageTableForVMA cached v pt = Some pt' \<and>
    (\<forall>k. entry_at pt' k =
       (if vbase v div CITRA_PAGE_SIZE \<le> k \<and> k < vbase v div CITRA_PAGE_SIZE + vsize v div CITRA_PAGE_SIZE
        then page_entry (cached k) (page_attrs v ! (k - vbase v div CITRA_PAGE_SIZE))
        else entry_at pt k))"
proof -
  let ?b = "vbase v div CITRA_PAGE_SIZE" and ?n = "vsize v div CITRA_PAGE_SIZE"
  have d: "CITRA_PAGE_SIZE dvd vsize v" using ok by (simp add: vma_ok_def)
  have "(vbase v + vsize v) div CITRA_PAGE_SIZE \<le> MAX_ADDRESS div CITRA_PAGE_SIZE" using le by (rule div_le_mono)
  then have b: "?b + ?n \<le> PAGE_TABLE_NUM_ENTRIES"
    using al d by (simp add: div_add MAX_ADDRESS_def CITRA_PAGE_SIZE_def PAGE_TABLE_NUM_ENTRIES_def)
  show ?thesis
  proof (cases "vtype v")
    case VFree
    obtain pt' where pt': "MapPages cached ?n ?b None Unmapped pt = Some pt'"
      "\<And>k. entry_at pt' k = (if ?b \<le> k \<and> k < ?b + ?n then (Unmapped, 0) else entry_at pt k)"
      using MapPages_unmap [OF b, of cached pt] by auto
    have "page_entry (cached k) (page_attrs v ! (k - ?b)) = (Unmapped, 0)" if "?b \<le> k" "k < ?b + ?n" for k
    proof -
      have "k - ?b < ?n" using that by linarith
      then show ?thesis using VFree by (simp add: page_entry_def page_attrs_def)
    qed
    then show ?thesis
      using pt' VFree al d
      by (intro exI [of _ pt']) (simp add: UpdatePageTableForVMA_def UnmapRegion_def page_aligned_dvd)
  next
    case BackingMemory
    then have "GetPtr (backing_memory v) \<noteq> 0" "?n * CITRA_PAGE_SIZE \<le> GetSize (backing_memory v)"
      using ok d GetPtr_block [of H "backing_memory v" "vsize v"] by (auto simp: vma_ok_def)
    from MapPages_map [OF b this, of cached pt] obtain pt' where
      pt': "MapPages cached ?n ?b (backing_memory v) Memory pt = Some pt'"
      "\<And>k. entry_at pt' k = (if ?b \<le> k \<and> k < ?b + ?n
         then if cached k then (RasterizerCachedMemory, 0)
              else (Memory, GetPtr (backing_memory v) + (k - ?b) * CITRA_PAGE_SIZE)
         else entry_at pt k)"
      by auto
    have "page_entry (cached k) (page_attrs v ! (k - ?b)) = (if cached k then (RasterizerCachedMemory, 0)
        else (Memory, GetPtr (backing_memory v) + (k - ?b) * CITRA_PAGE_SIZE))" if "?b \<le> k" "k < ?b + ?n" for k
    proof -
      have "k - ?b < ?n" using that by linarith
      then show ?thesis using BackingMemory by (simp add: page_entry_def page_attrs_def)
    qed
    then show ?thesis
      using pt' BackingMemory al d
      by (intro exI [of _ pt']) (simp add: UpdatePageTableForVMA_def MapMemoryRegion_def page_aligned_dvd)
  qed
qed

lemma table_agrees_update:
  assumes t: "table_agrees cached pt (ps @ qs @ rs)" and l: "length qs' = length qs"
    and k: "\<forall>k. entry_at pt' k =
       (if length ps \<le> k \<and> k < length ps + length qs then page_entry (cached k) (qs' ! (k - length ps))
        else entry_at pt k)"
  shows "table_agrees cached pt' (ps @ qs' @ rs)"
  unfolding table_agrees_def
proof (intro allI impI)
  fix j assume j: "j < length (ps @ qs' @ rs)"
  show "entry_at pt' j = page_entry (cached j) ((ps @ qs' @ rs) ! j)"
  proof (cases "length ps \<le> j \<and> j < length ps + length qs")
    case True
    then have "j - length ps < length qs'" using l by linarith
    then show ?thesis using spec [OF k, of j] True by (simp add: nth_append)
  next
    case False
    have "(ps @ qs @ rs) ! j = (ps @ qs' @ rs) ! j"
      using False l by (auto simp: nth_append)
    then show ?thesis using spec [OF k, of j] False t j l unfolding table_agrees_def by auto
  qed
qed


section \<open>Changing areas\<close>

lemma chain_start: "chain H a l b \<Longrightarrow> chain H c l b \<Longrightarrow> a = c"
  by (induction l arbitrary: a c) auto

lemma chain_end: "chain H a l b \<Longrightarrow> chain H a l c \<Longrightarrow> b = c"
  by (induction l arbitrary: a) auto

lemma change_vma_spec:
  assumes H: "separated H" and m: "vma_map m = xs @ v # ys" and c: "chain H 0 (xs @ v # ys) MAX_ADDRESS"
    and f: "vbase (f v) = vbase v" "vsize (f v) = vsize v" "vma_ok H (f v)" and u: "settled F xs"
    and t: "table_agrees cached (page_table m) (pages (vma_map m))"
  shows "\<exists>m' xs' w ys'. change_vma cached f (length xs) m = Some (m', length xs') \<and> vma_map m' = xs' @ w # ys' \<and>
    chain H 0 (xs' @ w # ys') MAX_ADDRESS \<and> pages (xs' @ w # ys') = pages xs @ page_attrs (f v) @ pages ys \<and>
    settled F (xs' @ [w]) \<and> (settled F ys \<longrightarrow> settled F (w # ys')) \<and> vtype w = vtype (f v) \<and> permissions w = permissions (f v) \<and>
    table_agrees cached (page_table m') (pages (vma_map m')) \<and> is_locked m' = is_locked m \<and>
    (ys' = ys \<or> (\<exists>y. ys = y # ys' \<and> mergeable (f v) y)) \<and> vbase w \<le> vbase v \<and> vbase v + vsize v \<le> vbase w + vsize w"
proof -
  obtain ch: "chain H 0 xs (vbase v)" "chain H (vbase v + vsize v) ys MAX_ADDRESS"
    using c by (auto simp: chain_append)
  have al: "CITRA_PAGE_SIZE dvd vbase (f v)" and le: "vbase (f v) + vsize (f v) \<le> MAX_ADDRESS"
    using chain_aligned [OF ch(1)] chain_le [OF ch(2)] f by auto
  have len: "length (pages xs) = vbase (f v) div CITRA_PAGE_SIZE"
    using chain_pages_length [OF ch(1)] f(1) by (metis PAGE_pos(1) diff_zero nonzero_mult_div_cancel_right not_gr0)
  obtain pt where pt: "UpdatePageTableForVMA cached (f v) (page_table m) = Some pt"
    "\<forall>k. entry_at pt k = (if vbase (f v) div CITRA_PAGE_SIZE \<le> k \<and>
          k < vbase (f v) div CITRA_PAGE_SIZE + vsize (f v) div CITRA_PAGE_SIZE
        then page_entry (cached k) (page_attrs (f v) ! (k - vbase (f v) div CITRA_PAGE_SIZE))
        else entry_at (page_table m) k)"
    using UpdatePageTable_spec [OF f(3) al le] by blast
  have agree: "table_agrees cached pt (pages xs @ page_attrs (f v) @ pages ys)"
    using table_agrees_update [of cached "page_table m" "pages xs" "page_attrs v" "pages ys" "page_attrs (f v)" pt]
      t pt(2) len f m by simp
  have c': "chain H 0 (xs @ f v # ys) MAX_ADDRESS" using c f by (auto simp: chain_append)
  obtain xs' w ys' where w: "MergeAdjacent (length xs) (xs @ f v # ys) = Some (xs' @ w # ys', length xs')"
    "chain H 0 (xs' @ w # ys') MAX_ADDRESS" "pages (xs' @ w # ys') = pages (xs @ f v # ys)" "settled F (xs' @ [w])"
    "settled F ys \<longrightarrow> settled F (w # ys')" "vtype w = vtype (f v)"
    "ys' = ys \<or> (\<exists>y. ys = y # ys' \<and> mergeable (f v) y)" "permissions w = permissions (f v)" "xs' = xs \<or> (\<exists>x. xs = xs' @ [x])"
    using MergeAdjacent_spec [OF H c' u] by blast
  obtain cw: "chain H 0 xs' (vbase w)" "chain H (vbase w + vsize w) ys' MAX_ADDRESS" using w(2) by (auto simp: chain_append)
  have "vbase w \<le> vbase v"
  proof (cases "xs' = xs")
    case True
    then show ?thesis using chain_end [OF cw(1)] ch(1) by simp
  next
    case False
    then obtain x where x: "xs = xs' @ [x]" using w(9) by blast
    then obtain d where "chain H 0 xs' d" "chain H d [x] (vbase v)" using ch(1) by (auto simp: chain_append)
    then show ?thesis using chain_end [OF cw(1), of d] chain_le [of H d "[x]"] by simp
  qed
  moreover have "vbase v + vsize v \<le> vbase w + vsize w"
  proof (cases "ys' = ys")
    case True
    then show ?thesis using chain_start [OF cw(2)] ch(2) by simp
  next
    case False
    then obtain y where y: "ys = y # ys'" using w(7) by blast
    then have "chain H (vbase v + vsize v + vsize y) ys' MAX_ADDRESS" using ch(2) by simp
    then show ?thesis using chain_start [OF cw(2)] by fastforce
  qed
  note cover = calculation this
  have "change_vma cached f (length xs) m = Some (m\<lparr>vma_map := xs' @ w # ys', page_table := pt\<rparr>, length xs')"
    using pt(1) w(1) by (simp add: change_vma_def m)
  then show ?thesis
    using w agree cover
    by (intro exI [of _ "m\<lparr>vma_map := xs' @ w # ys', page_table := pt\<rparr>"] exI [of _ xs'] exI [of _ w] exI [of _ ys']) simp
qed

text \<open>What a change of areas over a range has to satisfy, seen on the pages it covers.\<close>

definition page_change :: "host \<Rightarrow> bool \<Rightarrow> (VirtualMemoryArea \<Rightarrow> VirtualMemoryArea) \<Rightarrow> (page \<Rightarrow> page) \<Rightarrow> bool" where
  "page_change H F f g \<longleftrightarrow>
     (\<forall>v. vbase (f v) = vbase v \<and> vsize (f v) = vsize v) \<and>
     (\<forall>v. vma_ok H v \<and> vtype v = BackingMemory \<longrightarrow> vma_ok H (f v) \<and> page_attrs (f v) = map g (page_attrs v)) \<and>
     (\<forall>v y. mergeable (f v) y \<longrightarrow> map g (page_attrs y) = page_attrs y) \<and>
     ((\<forall>v. vtype (f v) = VFree) \<or> F \<and> (\<forall>v. vtype (f v) = vtype v))"

lemma page_changeD:
  assumes "page_change H F f g"
  shows "vbase (f v) = vbase v" "vsize (f v) = vsize v"
    "vma_ok H v \<Longrightarrow> vtype v = BackingMemory \<Longrightarrow> vma_ok H (f v)"
    "vma_ok H v \<Longrightarrow> vtype v = BackingMemory \<Longrightarrow> page_attrs (f v) = map g (page_attrs v)"
    "mergeable (f v) y \<Longrightarrow> map g (page_attrs y) = page_attrs y"
    "mergeable (f v) y \<Longrightarrow> vtype y = BackingMemory \<Longrightarrow> F \<and> vtype (f v) = BackingMemory"
  using assms unfolding page_change_def mergeable_def by auto

lemma settled_join: "settled F (xs @ [w]) \<Longrightarrow> settled F (w # ys) \<Longrightarrow> settled F ((xs @ [w]) @ ys)"
  by (cases ys) (auto simp: successively_append_iff)

lemma settled_busy: "settled True ys \<Longrightarrow> vtype w = BackingMemory \<Longrightarrow> settled True (w # ys)"
  by (cases ys) (simp_all add: successively_Cons)

lemma range_loop_spec:
  assumes H: "separated H" and pc: "page_change H F f g"
    and st: "\<And>i m. \<not> is_locked m \<Longrightarrow> step i m = change_vma cached f i m"
  shows "\<lbrakk>vma_map m = xs @ zs @ ws; chain H 0 xs a; chain H a zs e; chain H e ws MAX_ADDRESS;
      settled F xs; settled F ws; zs = [] \<longrightarrow> settled F (xs @ ws);
      \<forall>v \<in> set zs. vtype v = BackingMemory; length zs < n; \<not> is_locked m;
      table_agrees cached (page_table m) (pages (vma_map m))\<rbrakk> \<Longrightarrow>
    \<exists>m'. range_loop step e n (length xs) m = Some m' \<and> chain H 0 (vma_map m') MAX_ADDRESS \<and> settled F (vma_map m') \<and>
      table_agrees cached (page_table m') (pages (vma_map m')) \<and>
      pages (vma_map m') = pages xs @ map g (pages zs) @ pages ws \<and> \<not> is_locked m'"
proof (induction "length zs" arbitrary: zs xs a n m rule: less_induct)
  case less
  note prem = less.prems
  obtain n' where n: "n = Suc n'" using prem(9) by (cases n) auto
  show ?case
  proof (cases zs)
    case Nil
    have "\<not> vbase (hd ws) < e" if "ws \<noteq> []" using chain_hd_base [OF prem(4) that] by simp
    then have "range_loop step e n (length xs) m = Some m"
      using prem(1) Nil n by (auto simp: nth_append hd_conv_nth)
    moreover have "chain H 0 (vma_map m) MAX_ADDRESS"
      using prem(1-4) Nil by (auto simp: chain_append)
    ultimately show ?thesis using prem(1,7,10,11) Nil by simp
  next
    case (Cons v zs1)
    have vb: "vtype v = BackingMemory" and vc: "vbase v = a" "vma_ok H v" "chain H (a + vsize v) zs1 e"
      using prem(3,8) Cons by auto
    have ve: "a < e" using chain_less [OF prem(3)] Cons by simp
    have c0: "chain H 0 (xs @ v # zs1 @ ws) MAX_ADDRESS"
      using prem(2-4) Cons by (auto simp: chain_append)
    have m0: "vma_map m = xs @ v # zs1 @ ws" using prem(1) Cons by simp
    obtain m' xs' w ys' where w: "change_vma cached f (length xs) m = Some (m', length xs')" "vma_map m' = xs' @ w # ys'"
      "chain H 0 (xs' @ w # ys') MAX_ADDRESS" "pages (xs' @ w # ys') = pages xs @ page_attrs (f v) @ pages (zs1 @ ws)"
      "settled F (xs' @ [w])" "settled F (zs1 @ ws) \<longrightarrow> settled F (w # ys')" "vtype w = vtype (f v)"
      "table_agrees cached (page_table m') (pages (vma_map m'))" "is_locked m' = is_locked m"
      and ys': "ys' = zs1 @ ws \<or> (\<exists>y. zs1 @ ws = y # ys' \<and> mergeable (f v) y)"
      using change_vma_spec [where f = f, OF H m0 c0 page_changeD(1,2) [OF pc] page_changeD(3) [OF pc vc(2) vb] prem(5,11)]
      by blast
    have loop: "range_loop step e n (length xs) m = range_loop step e n' (length (xs' @ [w])) m'"
      using n st [OF prem(10)] w(1) prem(1) Cons vc(1) ve by (simp add: nth_append)
    have unlocked: "\<not> is_locked m'" using w(9) prem(10) by simp
    obtain b where b: "chain H 0 (xs' @ [w]) b" "chain H b ys' MAX_ADDRESS" using w(3) by (auto simp: chain_append)
    have fv: "page_attrs (f v) = map g (page_attrs v)" using page_changeD(4) [OF pc vc(2) vb] .
    from ys' show ?thesis
    proof (elim disjE exE conjE)
      assume y: "ys' = zs1 @ ws"
      have "chain H (a + vsize v) ys' MAX_ADDRESS" using vc(3) prem(4) y by (auto simp: chain_append)
      then have "b = a + vsize v" using chain_start [OF b(2)] by simp
      moreover have "settled F ((xs' @ [w]) @ ws)" if "zs1 = []"
        using settled_join [OF w(5), of ws] w(6) y prem(6) that by simp
      moreover have "pages (xs' @ [w]) = pages xs @ page_attrs (f v)" using w(4) y by simp
      ultimately show ?thesis
        using less.hyps [of zs1 m' "xs' @ [w]" "a + vsize v" n'] Cons n prem b(1) vc(3) w y unlocked loop fv by auto
    next
      fix y assume y: "zs1 @ ws = y # ys'" "mergeable (f v) y"
      show ?thesis
      proof (cases zs1)
        case Nil
        have "chain H e (y # ys') MAX_ADDRESS" using prem(4) y(1) Nil by simp
        then have "chain H (e + vsize y) ys' MAX_ADDRESS" by simp
        then have be: "b = e + vsize y" using chain_start [OF b(2)] by simp
        have "\<not> vbase (hd ys') < e" if "ys' \<noteq> []" using chain_hd_base [OF b(2) that] be by simp
        then have "range_loop step e n' (length (xs' @ [w])) m' = Some m'"
          using w(2) n prem(9) Cons by (cases n') (auto simp: nth_append hd_conv_nth)
        moreover have "settled F (vma_map m')"
          using settled_join [OF w(5), of ys'] w(2,6) y(1) Nil prem(6) by simp
        moreover have "pages (vma_map m') = pages xs @ map g (pages zs) @ pages ws"
          unfolding w(2) w(4) using y(1) Nil \<open>zs = v # zs1\<close> fv by simp
        moreover have "chain H 0 (vma_map m') MAX_ADDRESS" unfolding w(2) by (rule w(3))
        ultimately show ?thesis
          using loop w(8) unlocked by simp
      next
        case (Cons y' zs2)
        then have eq: "y' = y" "ys' = zs2 @ ws" using y(1) by auto
        have yb: "vtype y = BackingMemory" using prem(8) \<open>zs = v # zs1\<close> Cons eq by simp
        have F: "F" "vtype w = BackingMemory" using page_changeD(6) [OF pc y(2) yb] w(7) by auto
        have cy: "chain H (a + vsize v + vsize y) zs2 e" using vc(3) Cons eq by simp
        then have "chain H (a + vsize v + vsize y) ys' MAX_ADDRESS" using prem(4) eq by (auto simp: chain_append)
        then have be: "b = a + vsize v + vsize y" using chain_start [OF b(2)] by simp
        have "settled F ((xs' @ [w]) @ ws)"
          using settled_join [OF w(5)] settled_busy [of ws w] F prem(6) by auto
        moreover have "pages (xs' @ [w]) = pages xs @ page_attrs (f v) @ page_attrs y"
          using w(4) eq Cons by simp
        moreover have "map g (page_attrs y) = page_attrs y" using page_changeD(5) [OF pc y(2)] .
        ultimately show ?thesis
          using less.hyps [of zs2 m' "xs' @ [w]" b n'] \<open>zs = v # zs1\<close> Cons eq n prem b(1) be cy w unlocked loop fv
          by auto
      qed
    qed
  qed
qed


section \<open>Operations on ranges\<close>

lemma vm_invD:
  assumes "vm_inv H F cached m"
  shows "chain H 0 (vma_map m) MAX_ADDRESS" "settled F (vma_map m)"
    "table_agrees cached (page_table m) (pages (vma_map m))"
  using assms by (simp_all add: vm_inv_def)

lemma settled_weaken: "settled F l \<Longrightarrow> settled True l"
  by (erule successively_mono) auto

lemma range_parts:
  assumes "chain H 0 xs t" "chain H t zs (t + n)" "good_range t n" "pages (xs @ zs @ ws) = ps"
  shows "range_pages t n ps = pages zs" "take (t div CITRA_PAGE_SIZE) ps = pages xs"
    "drop (t div CITRA_PAGE_SIZE + n div CITRA_PAGE_SIZE) ps = pages ws"
  using range_pages_len(1,2) [OF assms(1-3)] assms(4) by (auto simp: range_pages_def)

lemma set_take_drop:
  assumes "i + n \<le> length ps"
  shows "set (take n (drop i ps)) = {ps ! k | k. i \<le> k \<and> k < i + n}"
proof -
  have "take n (drop i ps) = map (\<lambda>j. ps ! j) [i..<i + n]"
    using assms by (auto intro!: nth_equalityI)
  then show ?thesis by (auto simp: Setcompr_eq_image)
qed

lemma range_pages_nth:
  assumes "good_range t n" "length ps = MAX_ADDRESS div CITRA_PAGE_SIZE"
  shows "(\<forall>p \<in> set (range_pages t n ps). P p) \<longleftrightarrow> (\<forall>k. in_range t n k \<longrightarrow> P (ps ! k))"
proof -
  let ?i = "t div CITRA_PAGE_SIZE" and ?n = "n div CITRA_PAGE_SIZE"
  have e: "(t + n) div CITRA_PAGE_SIZE = ?i + ?n" using good_rangeD(1,2) [OF assms(1)] by simp
  moreover have "(t + n) div CITRA_PAGE_SIZE \<le> MAX_ADDRESS div CITRA_PAGE_SIZE"
    using good_rangeD(4) [OF assms(1)] by (rule div_le_mono)
  ultimately have le: "?i + ?n \<le> length ps" using assms(2) by simp
  then have "set (range_pages t n ps) = {ps ! k | k. in_range t n k}"
    unfolding range_pages_def in_range_def e by (rule set_take_drop)
  then show ?thesis by auto
qed

lemma map_length: "chain H 0 l MAX_ADDRESS \<Longrightarrow> length (pages l) = MAX_ADDRESS div CITRA_PAGE_SIZE"
  using chain_pages_length [of H 0 l MAX_ADDRESS] by (metis PAGE_pos(1) diff_zero nonzero_mult_div_cancel_right not_gr0)

text \<open>Consecutive free pages belong to one area.\<close>

lemma free_area:
  assumes c: "chain H 0 l MAX_ADDRESS" and u: "settled True l" and r: "good_range t n"
    and f: "\<forall>k. in_range t n k \<longrightarrow> fst (pages l ! k) = VFree"
  shows "\<exists>xs v ys. l = xs @ v # ys \<and> vbase v \<le> t \<and> t + n \<le> vbase v + vsize v \<and> vtype v = VFree"
proof -
  note r' = good_rangeD [OF r]
  have type: "vtype v = VFree" if v: "v \<in> set l" "vbase v \<le> a" "a < vbase v + vsize v"
    and a: "CITRA_PAGE_SIZE dvd a" "t \<le> a" "a < t + n" for v a
  proof -
    let ?k = "a div CITRA_PAGE_SIZE"
    have k: "?k * CITRA_PAGE_SIZE = a" using a(1) by simp
    have "(t + n) div CITRA_PAGE_SIZE * CITRA_PAGE_SIZE = t + n"
      by (rule dvd_div_mult_self [OF dvd_add [OF r'(1,2)]])
    then have "in_range t n ?k"
      using a div_le_mono [OF a(2)] by (auto simp: in_range_def intro!: less_mult_imp_div_less)
    then show ?thesis using page_at [OF c v(1), of ?k] v k f by (simp add: page_key_def area_key_def)
  qed
  obtain xs v ys where l: "l = xs @ v # ys" and v: "vbase v \<le> t" "t < vbase v + vsize v"
    using find_area [OF c, of t] r' by auto
  have vf: "vtype v = VFree" using type [of v t] l v r' by simp
  have "t + n \<le> vbase v + vsize v"
  proof (rule ccontr)
    assume "\<not> t + n \<le> vbase v + vsize v"
    then have lt: "vbase v + vsize v < t + n" by simp
    have ch: "chain H (vbase v + vsize v) ys MAX_ADDRESS" and ok: "vma_ok H v" using c l by (auto simp: chain_append)
    have "ys \<noteq> []" using ch lt r'(4) by auto
    then obtain y ys' where ys: "ys = y # ys'" by (cases ys) auto
    then have y: "vbase y = vbase v + vsize v" "vma_ok H y" "0 < vsize y" using ch by (auto simp: vma_ok_def)
    have "CITRA_PAGE_SIZE dvd vbase v + vsize v" using chain_aligned [OF ch] by simp
    then have "vtype y = VFree" using type [of y "vbase y"] l ys y v lt by simp
    then have "mergeable v y" using vf ok y(2) by (simp add: mergeable_def vma_ok_def)
    then show False using u l ys vf by (simp add: successively_append_iff)
  qed
  then show ?thesis using l v vf by blast
qed

lemma on_range_error:
  assumes "vm_inv H F cached m" "good_range t n" "\<exists>p \<in> set (range_pages t n (pages (vma_map m))). fst p = VFree"
  shows "on_range step t n m = Some (ResultInvalidAddressState, m)"
proof -
  note c = vm_invD(1) [OF assms(1)]
  have "\<exists>k. in_range t n k \<and> fst (pages (vma_map m) ! k) = VFree"
    using range_pages_nth [OF assms(2) map_length [OF c], of "\<lambda>p. fst p \<noteq> VFree"] assms(3) by blast
  from CarveVMARange_error [OF c assms(2) this] show ?thesis by (simp add: on_range_def)
qed

lemma on_range_ok:
  assumes H: "separated H" and m: "vm_inv H F cached m" "\<not> is_locked m" and r: "good_range t n"
    and pc: "page_change H F f g" and st: "\<And>i m. \<not> is_locked m \<Longrightarrow> step i m = change_vma cached f i m"
    and b: "\<forall>p \<in> set (range_pages t n (pages (vma_map m))). fst p = BackingMemory"
  shows "\<exists>m'. on_range step t n m = Some (ResultSuccess, m') \<and> vm_inv H F cached m' \<and> \<not> is_locked m' \<and>
    pages (vma_map m') = set_range t (map g (range_pages t n (pages (vma_map m)))) (pages (vma_map m))"
proof -
  note c = vm_invD [OF m(1)] and r' = good_rangeD [OF r]
  have b': "\<forall>k. in_range t n k \<longrightarrow> fst (pages (vma_map m) ! k) = BackingMemory"
    using range_pages_nth [OF r map_length [OF c(1)], of "\<lambda>p. fst p = BackingMemory"] b by blast
  obtain xs zs ws where k: "CarveVMARange t n (vma_map m) = Some (Inr (xs @ zs @ ws, length xs))" "chain H 0 xs t"
    "chain H t zs (t + n)" "chain H (t + n) ws MAX_ADDRESS" "pages (xs @ zs @ ws) = pages (vma_map m)"
    "settled F xs" "settled F zs" "settled F ws"
    using CarveVMARange_spec [OF c(1,2) r b'] by blast
  have "zs \<noteq> []" using k(3) r'(3) by auto
  moreover have "\<forall>v \<in> set zs. vtype v = BackingMemory" using range_backing [OF k(2,3) r k(5) b'] .
  ultimately obtain m' where m': "range_loop step (t + n) (length (xs @ zs @ ws) + 1) (length xs) (m\<lparr>vma_map := xs @ zs @ ws\<rparr>) = Some m'"
    "chain H 0 (vma_map m') MAX_ADDRESS" "settled F (vma_map m')"
    "table_agrees cached (page_table m') (pages (vma_map m'))"
    "pages (vma_map m') = pages xs @ map g (pages zs) @ pages ws" "\<not> is_locked m'"
    using range_loop_spec [OF H pc st, where m = "m\<lparr>vma_map := xs @ zs @ ws\<rparr>" and xs = xs and zs = zs and ws = ws
        and a = t and e = "t + n" and n = "length (xs @ zs @ ws) + 1"] k c(3) m(2) by auto
  have "on_range step t n m = Some (ResultSuccess, m')"
    using k(1) m'(1) by (simp add: on_range_def MAX_wrap [OF r'(4)] del: range_loop.simps)
  moreover have "length (pages zs) = n div CITRA_PAGE_SIZE" using range_pages_len(2) [OF k(2,3) r] .
  ultimately show ?thesis
    using m' range_parts [OF k(2,3) r k(5)] by (intro exI [of _ m']) (simp add: vm_inv_def set_range_def)
qed

lemma page_change_free: "page_change H F free_vma (\<lambda>_. free_page)"
  by (auto simp: page_change_def free_vma_def vma_ok_def page_attrs_def free_page_def mergeable_def)

lemma page_change_protect:
  "page_change H True (\<lambda>v. v\<lparr>permissions := p\<rparr>) (\<lambda>(ty, _, s, a). (ty, p, s, a))"
  by (auto simp: page_change_def vma_ok_def page_attrs_def mergeable_def split: VMAType.splits)

lemma page_change_state:
  "page_change H True (\<lambda>v. v\<lparr>permissions := p, meminfo_state := st\<rparr>) (\<lambda>(ty, _, _, a). (ty, p, st, a))"
  by (auto simp: page_change_def vma_ok_def page_attrs_def mergeable_def split: VMAType.splits)

lemma ResultSuccess_neq [simp]: "ResultInvalidAddressState \<noteq> ResultSuccess"
  by code_simp

lemma map_const_range: "map (\<lambda>_. x) l = replicate (length l) x"
  by (simp add: map_replicate_const)

lemma range_pages_length:
  assumes "good_range t n" "length ps = MAX_ADDRESS div CITRA_PAGE_SIZE"
  shows "length (range_pages t n ps) = n div CITRA_PAGE_SIZE"
proof -
  have "(t + n) div CITRA_PAGE_SIZE \<le> MAX_ADDRESS div CITRA_PAGE_SIZE"
    using good_rangeD(4) [OF assms(1)] by (rule div_le_mono)
  then show ?thesis using assms(2) good_rangeD(1,2) [OF assms(1)] by (simp add: range_pages_def)
qed

lemma good_range_le:
  assumes "good_range t n" "length ps = MAX_ADDRESS div CITRA_PAGE_SIZE"
  shows "t div CITRA_PAGE_SIZE + n div CITRA_PAGE_SIZE \<le> length ps"
  using div_le_mono [OF good_rangeD(4) [OF assms(1)], of CITRA_PAGE_SIZE] assms(2) good_rangeD(1,2) [OF assms(1)] by simp

lemma take_drop_replace:
  assumes "i + length qs \<le> length ps" "j + k \<le> i \<or> i + length qs \<le> j"
  shows "take k (drop j (take i ps @ qs @ drop (i + length qs) ps)) = take k (drop j ps)"
  using assms(2)
proof
  assume "j + k \<le> i"
  then show ?thesis using assms(1) by (simp add: drop_take)
next
  assume "i + length qs \<le> j"
  then show ?thesis using assms(1) by simp
qed

lemma set_range_pages:
  assumes "good_range t n" "length ps = MAX_ADDRESS div CITRA_PAGE_SIZE" "length qs = n div CITRA_PAGE_SIZE"
  shows "range_pages t n (set_range t qs ps) = qs" "length (set_range t qs ps) = length ps"
    "length qs' = n div CITRA_PAGE_SIZE \<Longrightarrow> set_range t qs' (set_range t qs ps) = set_range t qs' ps"
  using good_range_le [OF assms(1,2)] assms(3) by (auto simp: range_pages_def set_range_def)

lemma set_range_self:
  assumes "good_range t n" "length ps = MAX_ADDRESS div CITRA_PAGE_SIZE"
  shows "set_range t (range_pages t n ps) ps = ps"
proof -
  have "take (n div CITRA_PAGE_SIZE) (drop (t div CITRA_PAGE_SIZE) ps) @ drop (t div CITRA_PAGE_SIZE + n div CITRA_PAGE_SIZE) ps =
      drop (t div CITRA_PAGE_SIZE) ps"
    by (metis add.commute append_take_drop_id drop_drop)
  then show ?thesis
    using good_range_le [OF assms] by (simp add: range_pages_def set_range_def)
qed

lemma UnmapRange_ok:
  assumes H: "separated H" and m: "vm_inv H F cached m" "\<not> is_locked m" and r: "good_range t n"
    and b: "\<forall>p \<in> set (range_pages t n (pages (vma_map m))). fst p = BackingMemory"
  shows "\<exists>m'. UnmapRange cached t n m = Some (ResultSuccess, m') \<and> vm_inv H F cached m' \<and> \<not> is_locked m' \<and>
    pages (vma_map m') = set_range t (replicate (n div CITRA_PAGE_SIZE) free_page) (pages (vma_map m))"
proof -
  have st: "Unmap cached i m = change_vma cached free_vma i m" if "\<not> is_locked m" for i m
    using that by (simp add: Unmap_def)
  note len = map_length [OF vm_invD(1) [OF m(1)]]
  obtain m' where m': "on_range (Unmap cached) t n m = Some (ResultSuccess, m')" "vm_inv H F cached m'" "\<not> is_locked m'"
    and p: "pages (vma_map m') = set_range t (replicate (n div CITRA_PAGE_SIZE) free_page) (pages (vma_map m))"
    using on_range_ok [OF H m r page_change_free st b] range_pages_length [OF r len] by (auto simp: map_const_range)
  have c: "chain H 0 (vma_map m') MAX_ADDRESS" "settled True (vma_map m')"
    using vm_invD [OF m'(2)] settled_weaken by auto
  have "range_pages t n (pages (vma_map m')) = replicate (n div CITRA_PAGE_SIZE) free_page"
    using set_range_pages(1) [OF r len] p by simp
  then have "\<forall>p \<in> set (range_pages t n (pages (vma_map m'))). fst p = VFree" by (auto simp: free_page_def)
  then have "\<forall>k. in_range t n k \<longrightarrow> fst (pages (vma_map m') ! k) = VFree"
    using range_pages_nth [OF r map_length [OF c(1)], of "\<lambda>p. fst p = VFree"] by blast
  from free_area [OF c r this] obtain xs v ys where v: "vma_map m' = xs @ v # ys" "vbase v \<le> t" "t + n \<le> vbase v + vsize v"
    by blast
  then have "FindVMA t (vma_map m') = Some (length xs)"
    using FindVMA_eq [of H xs v ys t] c(1) good_rangeD(3) [OF r] by simp
  moreover have "n \<le> vsize v" using v by simp
  ultimately have "UnmapRange cached t n m = Some (ResultSuccess, m')"
    using m'(1) m(2) v(1) by (simp add: UnmapRange_def)
  then show ?thesis using m' p by blast
qed

lemma ReprotectRange_ok:
  assumes H: "separated H" and m: "vm_inv H True cached m" "\<not> is_locked m" and r: "good_range t n"
    and b: "\<forall>p \<in> set (range_pages t n (pages (vma_map m))). fst p = BackingMemory"
  shows "\<exists>m'. ReprotectRange cached t n perms m = Some (ResultSuccess, m') \<and> vm_inv H True cached m' \<and> \<not> is_locked m' \<and>
    pages (vma_map m') = set_range t (map (\<lambda>(ty, _, s, a). (ty, perms, s, a)) (range_pages t n (pages (vma_map m))))
      (pages (vma_map m))"
proof -
  have "Reprotect cached perms i m = change_vma cached (\<lambda>v. v\<lparr>permissions := perms\<rparr>) i m" if "\<not> is_locked m" for i m
    using that by (simp add: Reprotect_def)
  from on_range_ok [OF H m r page_change_protect this b] show ?thesis
    using m(2) by (simp add: ReprotectRange_def)
qed

text \<open>The check of \<^verbatim>\<open>ChangeMemoryState\<close> looks at exactly the areas with a page in the range.\<close>

lemma range_areas:
  assumes c: "chain H 0 l MAX_ADDRESS" and r: "good_range t n"
  shows "\<exists>i. FindVMA t l = Some i \<and> i < length l \<and> i \<le> lower_bound (t + n) l"
proof -
  obtain xs v ys where l: "l = xs @ v # ys" and v: "vbase v \<le> t" "t < vbase v + vsize v"
    using find_area [OF c, of t] good_rangeD [OF r] by auto
  have ch: "chain H 0 xs (vbase v)" using c l by (auto simp: chain_append)
  have "\<forall>x \<in> set xs. vbase x < t + n" using chain_tail_base [OF ch] v by fastforce
  then have "length xs \<le> lower_bound (t + n) l"
    unfolding l lower_bound_def by (simp add: takeWhile_append2)
  then show ?thesis using FindVMA_eq [of H xs v ys t] c l v by auto
qed

lemma ChangeMemoryState_ok:
  assumes H: "separated H" and m: "vm_inv H True cached m" "\<not> is_locked m" and r: "good_range t n"
    and i: "FindVMA t (vma_map m) = Some i"
    and e: "\<forall>v \<in> set (take (lower_bound (t + n) (vma_map m) - i) (drop i (vma_map m))). state_matches s p v"
    and b: "\<forall>p \<in> set (range_pages t n (pages (vma_map m))). fst p = BackingMemory"
  shows "\<exists>m'. ChangeMemoryState cached t n s p s' p' m = Some (ResultSuccess, m') \<and> vm_inv H True cached m' \<and>
    \<not> is_locked m' \<and> pages (vma_map m') =
      set_range t (map (\<lambda>(ty, _, _, a). (ty, p', s', a)) (range_pages t n (pages (vma_map m)))) (pages (vma_map m))"
proof -
  have "i < length (vma_map m)" "i \<le> lower_bound (t + n) (vma_map m)"
    using range_areas [OF vm_invD(1) [OF m(1)] r] i by auto
  then have "ChangeMemoryState cached t n s p s' p' m =
      on_range (change_vma cached (\<lambda>v. v\<lparr>permissions := p', meminfo_state := s'\<rparr>)) t n m"
    using m(2) i e good_rangeD(4) [OF r] by (simp add: ChangeMemoryState_def Let_def list_all_iff)
  then show ?thesis using on_range_ok [OF H m r page_change_state _ b] by simp
qed


section \<open>Mapping\<close>

lemma CarveVMA_ok:
  assumes c: "chain H 0 l MAX_ADDRESS" and u: "settled F l" and r: "good_range t n"
    and f: "\<forall>k. in_range t n k \<longrightarrow> fst (pages l ! k) = VFree"
  shows "\<exists>xs v ys. CarveVMA t n l = Some (Inr (xs @ v # ys, length xs)) \<and> chain H 0 (xs @ v # ys) MAX_ADDRESS \<and>
    pages (xs @ v # ys) = pages l \<and> vbase v = t \<and> vsize v = n \<and> settled F xs \<and> settled F ys"
proof -
  note r' = good_rangeD [OF r]
  obtain ps v qs where l: "l = ps @ v # qs" and v: "vbase v \<le> t" "t + n \<le> vbase v + vsize v" "vtype v = VFree"
    using free_area [OF c settled_weaken [OF u] r f] by blast
  have fi: "FindVMA t l = Some (length ps)" using FindVMA_eq [of H ps v qs t] c l v r'(3) by simp
  have ch: "chain H 0 ps (vbase v)" "chain H (vbase v) (v # qs) MAX_ADDRESS" using c l by (auto simp: chain_append)
  have ab: "CITRA_PAGE_SIZE dvd vbase v" using chain_aligned [OF ch(2)] by simp
  let ?s = "t - vbase v"
  let ?e = "?s + n"
  have d: "CITRA_PAGE_SIZE dvd ?s" "CITRA_PAGE_SIZE dvd ?e" using r'(1,2) ab by (auto simp: dvd_diff_nat)
  have e: "?e \<le> vsize v" "sub_u32 t (vbase v) = ?s" "wrap_u32 ?e = ?e" using v r' by (auto simp: sub_wrap)
  have us: "settled F (ps @ [v])" "settled F (v # qs)" using u l by (auto simp: successively_append_iff)
  obtain v1 rs where s1: "(if ?e \<noteq> vsize v then map_option fst (SplitVMA (length ps) ?e l) else Some l) = Some (ps @ v1 # rs)"
    and c1: "chain H (vbase v) (v1 # rs) MAX_ADDRESS" "pages (v1 # rs) = pages (v # qs)" "vsize v1 = ?e" "vbase v1 = vbase v"
      "settled F (ps @ [v1])" "settled F rs"
  proof (cases "?e = vsize v")
    case True
    have "settled F qs" using us(2) by (cases qs) simp_all
    then show ?thesis using that [of v qs] l ch(2) us(1) True [symmetric] by simp
  next
    case False
    then have "0 < ?e" "?e < vsize v" using e(1) r'(3) by auto
    from SplitVMA_spec [OF ch(2) this d(2), of ps] obtain w where
      w: "SplitVMA (length ps) ?e (ps @ v # qs) = Some (ps @ v\<lparr>vsize := ?e\<rparr> # w # qs, length ps + 1)"
        "chain H (vbase v) (v\<lparr>vsize := ?e\<rparr> # w # qs) MAX_ADDRESS" "pages (v\<lparr>vsize := ?e\<rparr> # w # qs) = pages (v # qs)"
        "vtype w = vtype v" "\<forall>y. mergeable w y = mergeable v y" by blast
    have "settled F (w # qs)" using us(2) w(4,5) by (simp add: successively_Cons)
    then show ?thesis
      using that [of "v\<lparr>vsize := ?e\<rparr>" "w # qs"] w(1-3) False l us(1) by (simp add: successively_append_iff)
  qed
  have carve: "CarveVMA t n l = (if ?s \<noteq> 0 then map_option Inr (SplitVMA (length ps) ?s (ps @ v1 # rs))
      else Some (Inr (ps @ v1 # rs, length ps)))"
  proof -
    have nth: "l ! length ps = v" "length ps \<noteq> length l" "\<not> vsize v < ?e" using l e(1) by (auto simp: nth_append)
    show ?thesis
      unfolding CarveVMA_def Let_def
      using fi s1 e(2,3) v(3) r'(1,2) nth by (simp add: page_aligned_dvd not_le cong: if_cong split del: if_split)
  qed
  show ?thesis
  proof (cases "?s = 0")
    case True
    then have "CarveVMA t n l = Some (Inr (ps @ v1 # rs, length ps))" "vbase v1 = t" "vsize v1 = n"
      using carve c1(3,4) v(1) by auto
    moreover have "chain H 0 (ps @ v1 # rs) MAX_ADDRESS" using ch(1) c1(1) by (auto simp: chain_append)
    moreover have "settled F ps" using us(1) by (simp add: successively_append_iff)
    ultimately show ?thesis using c1(2,6) l by fastforce
  next
    case False
    then have "0 < ?s" "?s < vsize v1" using c1(3) r'(3) by auto
    from SplitVMA_spec [OF c1(1) this d(1), of ps] obtain w where
      w: "SplitVMA (length ps) ?s (ps @ v1 # rs) = Some (ps @ v1\<lparr>vsize := ?s\<rparr> # w # rs, length ps + 1)"
        "chain H (vbase v) (v1\<lparr>vsize := ?s\<rparr> # w # rs) MAX_ADDRESS" "pages (v1\<lparr>vsize := ?s\<rparr> # w # rs) = pages (v1 # rs)"
        "vbase w = vbase v1 + ?s" by blast
    have "vbase v + vsize v1 = vbase w + vsize w"
      using w(2,4) c1(1,4) chain_start [of H "vbase w + vsize w" rs MAX_ADDRESS "vbase v + vsize v1"] by simp
    then have "vsize w = n" using w(4) c1(3,4) by simp
    moreover have "settled F (ps @ [v1\<lparr>vsize := ?s\<rparr>])" using c1(5) by (simp add: successively_append_iff)
    moreover have "CarveVMA t n l = Some (Inr ((ps @ [v1\<lparr>vsize := ?s\<rparr>]) @ w # rs, length (ps @ [v1\<lparr>vsize := ?s\<rparr>])))"
      using carve False w(1) by simp
    moreover have "chain H 0 ((ps @ [v1\<lparr>vsize := ?s\<rparr>]) @ w # rs) MAX_ADDRESS"
      using ch(1) w(2) by (auto simp: chain_append)
    moreover have "pages ((ps @ [v1\<lparr>vsize := ?s\<rparr>]) @ w # rs) = pages l"
      using trans [OF w(3) c1(2)] l by simp
    moreover have "vbase w = t" using w(4) c1(4) v(1) by simp
    ultimately show ?thesis using c1(6) by blast
  qed
qed

lemma MapBackingMemory_ok:
  assumes H: "separated H" and m: "vm_inv H F cached m" "\<not> is_locked m" and r: "good_range t n"
    and mem: "ref_ok H memory n" and f: "\<forall>p \<in> set (range_pages t n (pages (vma_map m))). fst p = VFree"
  shows "\<exists>i m'. MapBackingMemory cached t memory n s m = Some (Inr i, m') \<and> vm_inv H F cached m' \<and> \<not> is_locked m' \<and>
    i < length (vma_map m') \<and> permissions (vma_map m' ! i) = perm_ReadWrite \<and> vtype (vma_map m' ! i) = BackingMemory \<and>
    vbase (vma_map m' ! i) \<le> t \<and> t + n \<le> vbase (vma_map m' ! i) + vsize (vma_map m' ! i) \<and> pages (vma_map m') =
      set_range t (map (\<lambda>j. (BackingMemory, perm_ReadWrite, s, GetPtr memory + j * CITRA_PAGE_SIZE)) [0..<n div CITRA_PAGE_SIZE])
        (pages (vma_map m))"
proof -
  note c = vm_invD [OF m(1)] and r' = good_rangeD [OF r]
  have "\<forall>k. in_range t n k \<longrightarrow> fst (pages (vma_map m) ! k) = VFree"
    using range_pages_nth [OF r map_length [OF c(1)], of "\<lambda>p. fst p = VFree"] f by blast
  from CarveVMA_ok [OF c(1,2) r this] obtain xs v ys where
    k: "CarveVMA t n (vma_map m) = Some (Inr (xs @ v # ys, length xs))" "chain H 0 (xs @ v # ys) MAX_ADDRESS"
      "pages (xs @ v # ys) = pages (vma_map m)" "vbase v = t" "vsize v = n" "settled F xs" "settled F ys" by blast
  let ?f = "\<lambda>v. v\<lparr>vtype := BackingMemory, permissions := perm_ReadWrite, meminfo_state := s, backing_memory := memory\<rparr>"
  let ?m = "m\<lparr>vma_map := xs @ v # ys\<rparr>"
  have fv: "vbase (?f v) = vbase v" "vsize (?f v) = vsize v" "vma_ok H (?f v)"
    using mem r'(2,3) k(5) by (simp_all add: vma_ok_def)
  have mm: "vma_map ?m = xs @ v # ys" by simp
  have t: "table_agrees cached (page_table ?m) (pages (vma_map ?m))" using c(3) k(3) by simp
  obtain m' xs' w ys' where w: "change_vma cached ?f (length xs) ?m = Some (m', length xs')" "vma_map m' = xs' @ w # ys'"
    "chain H 0 (xs' @ w # ys') MAX_ADDRESS" "pages (xs' @ w # ys') = pages xs @ page_attrs (?f v) @ pages ys"
    "settled F (xs' @ [w])" "settled F ys \<longrightarrow> settled F (w # ys')"
    "table_agrees cached (page_table m') (pages (vma_map m'))" "is_locked m' = is_locked ?m"
    "permissions w = permissions (?f v)" "vtype w = vtype (?f v)" "vbase w \<le> vbase v" "vbase v + vsize v \<le> vbase w + vsize w"
    using change_vma_spec [where f = ?f and m = ?m, OF H mm k(2) fv k(6) t] by blast
  have "settled F (vma_map m')" using settled_join [OF w(5), of ys'] w(2,6) k(7) by simp
  then have "vm_inv H F cached m'" using w(2,3,7) by (simp add: vm_inv_def)
  moreover have "MapBackingMemory cached t memory n s m = Some (Inr (length xs'), m')"
    using k(1,5) w(1) m(2) GetPtr_block [OF mem] by (simp add: MapBackingMemory_def nth_append)
  moreover have "page_attrs (?f v) =
      map (\<lambda>j. (BackingMemory, perm_ReadWrite, s, GetPtr memory + j * CITRA_PAGE_SIZE)) [0..<n div CITRA_PAGE_SIZE]"
    using k(5) by (simp add: page_attrs_def)
  moreover have "chain H 0 xs t" "chain H t [v] (t + n)" using k(2,4,5) by (auto simp: chain_append)
  note parts = range_parts [OF this r, of ys "pages (vma_map m)"]
  ultimately show ?thesis
    using w(2,4,8-12) m(2) parts k(3-5) by (intro exI [of _ "length xs'"] exI [of _ m']) (simp add: set_range_def nth_append)
qed

text \<open>Changing the permissions of one area changes the pages of that area.\<close>

lemma Reprotect_spec:
  assumes "separated H" "vm_inv H F cached m" "\<not> is_locked m" "i < length (vma_map m)" "vtype (vma_map m ! i) = BackingMemory"
  shows "\<exists>m' j. Reprotect cached perms i m = Some (m', j) \<and> vm_inv H F cached m' \<and> \<not> is_locked m' \<and>
    pages (vma_map m') = pages (take i (vma_map m)) @ page_attrs ((vma_map m ! i)\<lparr>permissions := perms\<rparr>) @ pages (drop (Suc i) (vma_map m))"
proof -
  let ?xs = "take i (vma_map m)" and ?v = "vma_map m ! i" and ?ys = "drop (Suc i) (vma_map m)"
  let ?f = "\<lambda>v. v\<lparr>permissions := perms\<rparr>"
  have l: "vma_map m = ?xs @ ?v # ?ys" using assms(4) by (rule id_take_nth_drop)
  note c = vm_invD [OF assms(2)]
  have ch: "chain H 0 (?xs @ ?v # ?ys) MAX_ADDRESS" using c(1) by (subst (asm) l)
  have us: "settled F (?xs @ ?v # ?ys)" using c(2) by (subst (asm) l)
  have u: "settled F ?xs" "settled F ?ys"
  proof -
    show "settled F ?xs" using us by (simp only: successively_append_iff)
    have "settled F (?v # ?ys)" using us by (simp only: successively_append_iff)
    then show "settled F ?ys" by (cases ?ys) simp_all
  qed
  have ok: "vma_ok H ?v" using ch by (auto simp: chain_append)
  then have fv: "vbase (?f ?v) = vbase ?v" "vsize (?f ?v) = vsize ?v" "vma_ok H (?f ?v)"
    using assms(5) by (simp_all add: vma_ok_def)
  obtain m' xs' w ys' where w: "change_vma cached ?f (length ?xs) m = Some (m', length xs')" "vma_map m' = xs' @ w # ys'"
    "chain H 0 (xs' @ w # ys') MAX_ADDRESS" "pages (xs' @ w # ys') = pages ?xs @ page_attrs (?f ?v) @ pages ?ys"
    "settled F (xs' @ [w])" "settled F ?ys \<longrightarrow> settled F (w # ys')"
    "table_agrees cached (page_table m') (pages (vma_map m'))" "is_locked m' = is_locked m"
    using change_vma_spec [where f = ?f, OF assms(1) l ch fv u(1) c(3)] by blast
  have "settled F (vma_map m')" using settled_join [OF w(5)] w(2,6) u(2) by simp
  then have "vm_inv H F cached m'" using w(2,3,7) by (simp add: vm_inv_def)
  moreover have "Reprotect cached perms i m = Some (m', length xs')"
    using w(1) assms(3,4) by (simp add: Reprotect_def)
  ultimately show ?thesis using w(2,4,8) assms(3) by auto
qed

lemma Reprotect_same:
  assumes "separated H" "vm_inv H F cached m" "\<not> is_locked m" "i < length (vma_map m)" "vtype (vma_map m ! i) = BackingMemory"
    "permissions (vma_map m ! i) = perms"
  shows "\<exists>m' j. Reprotect cached perms i m = Some (m', j) \<and> vm_inv H F cached m' \<and> \<not> is_locked m' \<and>
    pages (vma_map m') = pages (vma_map m)"
proof -
  have "(vma_map m ! i)\<lparr>permissions := perms\<rparr> = vma_map m ! i" using assms(6) by (cases "vma_map m ! i") simp
  moreover have "pages (vma_map m) = pages (take i (vma_map m)) @ page_attrs (vma_map m ! i) @ pages (drop (Suc i) (vma_map m))"
    by (subst id_take_nth_drop [OF assms(4)]) simp
  ultimately show ?thesis using Reprotect_spec [OF assms(1-5), of perms] by simp
qed

lemma page_in_area:
  assumes c: "chain H 0 (xs @ v # ys) MAX_ADDRESS" and k: "in_range t n k" and r: "good_range t n"
    and v: "vbase v \<le> t" "t + n \<le> vbase v + vsize v"
  shows "fst (pages (xs @ v # ys) ! k) = vtype v"
proof -
  have "t div CITRA_PAGE_SIZE * CITRA_PAGE_SIZE = t" "(t + n) div CITRA_PAGE_SIZE * CITRA_PAGE_SIZE = t + n"
    using good_rangeD(1,2) [OF r] by (metis dvd_div_mult_self dvd_add)+
  moreover have "t div CITRA_PAGE_SIZE * CITRA_PAGE_SIZE \<le> k * CITRA_PAGE_SIZE"
    "k * CITRA_PAGE_SIZE < (t + n) div CITRA_PAGE_SIZE * CITRA_PAGE_SIZE"
    using k by (simp_all add: in_range_def)
  ultimately show ?thesis using page_at [OF c, of v k] v by (simp add: page_key_def area_key_def)
qed

lemma CarveVMA_busy:
  assumes c: "chain H 0 l MAX_ADDRESS" and al: "CITRA_PAGE_SIZE dvd t" "CITRA_PAGE_SIZE dvd n" "0 < n" "t + n < 2 ^ 32"
    and t: "t < MAX_ADDRESS" and f: "\<not> (t + n \<le> MAX_ADDRESS \<and> (\<forall>k. in_range t n k \<longrightarrow> fst (pages l ! k) = VFree))"
  shows "CarveVMA t n l = Some (Inl ResultInvalidAddressState)"
proof -
  obtain ps v qs where l: "l = ps @ v # qs" and v: "vbase v \<le> t" "t < vbase v + vsize v"
    using find_area [OF c _ t] by auto
  have fi: "FindVMA t l = Some (length ps)" using FindVMA_eq [of H ps v qs t] c l v by simp
  have nth: "l ! length ps = v" "length ps \<noteq> length l" using l by (auto simp: nth_append)
  have le: "vbase v + vsize v \<le> MAX_ADDRESS" using chain_bases [OF c, of v] l by simp
  have sub: "sub_u32 t (vbase v) = t - vbase v" "wrap_u32 (t - vbase v + n) = t - vbase v + n"
    using v t al(4) by (auto simp: sub_wrap)
  have "vsize v < t - vbase v + n" if vf: "vtype v = VFree"
  proof (rule ccontr)
    assume "\<not> vsize v < t - vbase v + n"
    then have tn: "t + n \<le> vbase v + vsize v" using v by simp
    then have "good_range t n" using al le by (simp add: good_range_def)
    then show False using f tn le vf page_in_area [of H ps v qs t n] c l v by auto
  qed
  then show ?thesis
    using fi nth sub al(1,2) by (simp add: CarveVMA_def Let_def page_aligned_dvd)
qed

lemma MapBackingMemory_busy:
  assumes "vm_inv H F cached m" "\<not> is_locked m" "GetPtr memory \<noteq> 0"
    "CITRA_PAGE_SIZE dvd t" "CITRA_PAGE_SIZE dvd n" "0 < n" "t + n < 2 ^ 32" "t < MAX_ADDRESS"
    "\<not> (t + n \<le> MAX_ADDRESS \<and> (\<forall>p \<in> set (range_pages t n (pages (vma_map m))). fst p = VFree))"
  shows "MapBackingMemory cached t memory n s m = Some (Inl ResultInvalidAddressState, m)"
proof -
  note c = vm_invD(1) [OF assms(1)]
  have "\<not> (t + n \<le> MAX_ADDRESS \<and> (\<forall>k. in_range t n k \<longrightarrow> fst (pages (vma_map m) ! k) = VFree))"
    using range_pages_nth [OF _ map_length [OF c], of t n "\<lambda>p. fst p = VFree"] assms(4-6,9)
    by (auto simp: good_range_def)
  from CarveVMA_busy [OF c assms(4-8) this] show ?thesis
    using assms(2,3) by (simp add: MapBackingMemory_def)
qed

lemma free_pages_blank: "chain H a l b \<Longrightarrow> p \<in> set (pages l) \<Longrightarrow> fst p = VFree \<Longrightarrow> p = free_page"
  using chain_bases [of H a l b] by (fastforce simp: pages_def page_attrs_def free_page_def vma_ok_def)


section \<open>The interface of an address space\<close>

text \<open>
  What the rest of the kernel relies on: mapping fills a free range of pages, unmapping frees a used one, and neither
  touches other pages; a mapping over used pages and an unmapping of free ones is refused.
\<close>

locale address_space =
  fixes inv :: "'m \<Rightarrow> bool"
    and table :: "'m \<Rightarrow> page list"
    and usable :: "'r \<Rightarrow> nat \<Rightarrow> bool"
    and mapped :: "'r \<Rightarrow> nat \<Rightarrow> page list"
    and map_at :: "nat \<Rightarrow> nat \<Rightarrow> 'r \<Rightarrow> 'm \<Rightarrow> 'm option"
    and unmap_at :: "nat \<Rightarrow> nat \<Rightarrow> 'm \<Rightarrow> 'm option"
  assumes table_len: "inv m \<Longrightarrow> length (table m) = MAX_ADDRESS div CITRA_PAGE_SIZE"
    and free_blank: "inv m \<Longrightarrow> p \<in> set (table m) \<Longrightarrow> fst p = VFree \<Longrightarrow> p = free_page"
    and mapped_used: "length (mapped r n) = n div CITRA_PAGE_SIZE" "p \<in> set (mapped r n) \<Longrightarrow> fst p = BackingMemory"
    and map_law: "inv m \<Longrightarrow> good_range t n \<Longrightarrow> usable r n \<Longrightarrow>
      (if \<forall>p \<in> set (range_pages t n (table m)). fst p = VFree
       then \<exists>m'. map_at t n r m = Some m' \<and> inv m' \<and> table m' = set_range t (mapped r n) (table m)
       else map_at t n r m = None)"
    and unmap_law: "inv m \<Longrightarrow> good_range t n \<Longrightarrow>
      (if \<forall>p \<in> set (range_pages t n (table m)). fst p = BackingMemory
       then \<exists>m'. unmap_at t n m = Some m' \<and> inv m' \<and>
         table m' = set_range t (replicate (n div CITRA_PAGE_SIZE) free_page) (table m)
       else unmap_at t n m = None)"
begin

text \<open>A range that was mapped is used; mapping it again is refused, and unmapping it gives the table back.\<close>

lemma map_unmap:
  assumes "inv m" "good_range t n" "usable r n" "usable r' n" "\<forall>p \<in> set (range_pages t n (table m)). fst p = VFree"
  shows "\<exists>m1 m2. map_at t n r m = Some m1 \<and> map_at t n r' m1 = None \<and> unmap_at t n m1 = Some m2 \<and> inv m2 \<and>
    table m2 = table m \<and> unmap_at t n m2 = None"
proof -
  note len = table_len [OF assms(1)]
  obtain m1 where m1: "map_at t n r m = Some m1" "inv m1" "table m1 = set_range t (mapped r n) (table m)"
    using map_law [OF assms(1-3)] assms(5) by auto
  have used: "range_pages t n (table m1) = mapped r n"
    using set_range_pages(1) [OF assms(2) len] m1(3) mapped_used(1) by simp
  obtain m2 where m2: "unmap_at t n m1 = Some m2" "inv m2"
    "table m2 = set_range t (replicate (n div CITRA_PAGE_SIZE) free_page) (table m1)"
    using unmap_law [OF m1(2) assms(2)] used mapped_used(2) [of _ r n] by auto
  have pos: "0 < n div CITRA_PAGE_SIZE"
    using good_rangeD(2,3) [OF assms(2)] by (auto simp: div_greater_zero_iff dvd_imp_le)
  have "range_pages t n (table m) = replicate (n div CITRA_PAGE_SIZE) free_page"
  proof (rule replicate_eqI)
    fix p assume p: "p \<in> set (range_pages t n (table m))"
    then have "p \<in> set (table m)" by (auto simp: range_pages_def dest!: in_set_takeD in_set_dropD)
    then show "p = free_page" using free_blank [OF assms(1)] assms(5) p by blast
  qed (rule range_pages_length [OF assms(2) len])
  then have t2: "table m2 = table m"
    using m2(3) m1(3) mapped_used(1) set_range_pages(3) [OF assms(2) len] set_range_self [OF assms(2) len] by simp
  have ex: "\<exists>p. p \<in> set (mapped r n)" "\<exists>p. p \<in> set (range_pages t n (table m))"
    using pos mapped_used(1) [of r n] range_pages_length [OF assms(2) len] by (metis ex_in_conv length_0_conv less_numeral_extra(3) set_empty)+
  have "map_at t n r' m1 = None"
    using map_law [OF m1(2) assms(2,4)] used ex(1) mapped_used(2) [of _ r n] by (metis VMAType.distinct(1))
  moreover have "unmap_at t n m2 = None"
    using unmap_law [OF m2(2) assms(2)] t2 ex(2) assms(5) by (metis VMAType.distinct(1))
  ultimately show ?thesis using m1(1) m2 t2 by blast
qed

text \<open>Mapping one range leaves the pages of a range beside it alone.\<close>

lemma map_elsewhere:
  assumes "inv m" "good_range t n" "usable r n" "map_at t n r m = Some m'"
    "t' + n' \<le> t \<or> t + n \<le> t'" "good_range t' n'"
  shows "range_pages t' n' (table m') = range_pages t' n' (table m)"
proof -
  have "table m' = set_range t (mapped r n) (table m)"
    using map_law [OF assms(1-3)] assms(4) by (auto split: if_splits)
  moreover have "t' div CITRA_PAGE_SIZE + n' div CITRA_PAGE_SIZE \<le> t div CITRA_PAGE_SIZE \<or>
      t div CITRA_PAGE_SIZE + n div CITRA_PAGE_SIZE \<le> t' div CITRA_PAGE_SIZE"
    using assms(5) good_rangeD(1,2) [OF assms(2)] good_rangeD(1,2) [OF assms(6)] by (metis div_add div_le_mono)
  ultimately show ?thesis
    using mapped_used(1) [of r n] good_range_le [OF assms(2) table_len [OF assms(1)]]
      take_drop_replace [of "t div CITRA_PAGE_SIZE" "mapped r n" "table m"]
    by (simp add: set_range_def range_pages_def)
qed

end

text \<open>The manager provides it.\<close>

definition vm_map_at :: "(nat \<Rightarrow> bool) \<Rightarrow> nat \<Rightarrow> nat \<Rightarrow> MemoryRef \<times> MemoryState \<Rightarrow> VMManager \<Rightarrow> VMManager option" where
  "vm_map_at cached t n r m =
     (case MapBackingMemory cached t (fst r) n (snd r) m of Some (Inr _, m') \<Rightarrow> Some m' | _ \<Rightarrow> None)"

definition vm_unmap_at :: "(nat \<Rightarrow> bool) \<Rightarrow> nat \<Rightarrow> nat \<Rightarrow> VMManager \<Rightarrow> VMManager option" where
  "vm_unmap_at cached t n m =
     (case UnmapRange cached t n m of Some (r, m') \<Rightarrow> if r = ResultSuccess then Some m' else None | None \<Rightarrow> None)"

definition mapped_pages :: "MemoryRef \<times> MemoryState \<Rightarrow> nat \<Rightarrow> page list" where
  "mapped_pages r n =
     map (\<lambda>j. (BackingMemory, perm_ReadWrite, snd r, GetPtr (fst r) + j * CITRA_PAGE_SIZE)) [0..<n div CITRA_PAGE_SIZE]"

lemma good_range_bound: "good_range t n \<Longrightarrow> t + n < 2 ^ 32"
  using good_rangeD(4) by (fastforce simp: MAX_ADDRESS_def)

lemma UnmapRange_free:
  assumes "vm_inv H F cached m" "\<not> is_locked m" "good_range t n"
    "\<exists>p \<in> set (range_pages t n (pages (vma_map m))). fst p = VFree"
  shows "UnmapRange cached t n m = Some (ResultInvalidAddressState, m)"
  using on_range_error [OF assms(1,3,4)] assms(2) by (simp add: UnmapRange_def)

interpretation vm: address_space "\<lambda>m. separated H \<and> vm_inv H F cached m \<and> \<not> is_locked m" "\<lambda>m. pages (vma_map m)"
  "\<lambda>r n. ref_ok H (fst r) n" mapped_pages "vm_map_at cached" "vm_unmap_at cached"
  for H F cached
proof unfold_locales
  fix m t n and r :: "MemoryRef \<times> MemoryState"
  assume m: "separated H \<and> vm_inv H F cached m \<and> \<not> is_locked m" and g: "good_range t n" and r: "ref_ok H (fst r) n"
  show "if \<forall>p \<in> set (range_pages t n (pages (vma_map m))). fst p = VFree
    then \<exists>m'. vm_map_at cached t n r m = Some m' \<and> (separated H \<and> vm_inv H F cached m' \<and> \<not> is_locked m') \<and>
      pages (vma_map m') = set_range t (mapped_pages r n) (pages (vma_map m))
    else vm_map_at cached t n r m = None"
  proof (cases "\<forall>p \<in> set (range_pages t n (pages (vma_map m))). fst p = VFree")
    case True
    then show ?thesis
      using MapBackingMemory_ok [where F = F and cached = cached and s = "snd r", OF _ _ _ g r True] m by (auto simp: vm_map_at_def mapped_pages_def)
  next
    case False
    then have "MapBackingMemory cached t (fst r) n (snd r) m = Some (Inl ResultInvalidAddressState, m)"
      using m GetPtr_block [OF r] good_rangeD [OF g] good_range_bound [OF g] by (intro MapBackingMemory_busy) auto
    then show ?thesis using False by (auto simp: vm_map_at_def)
  qed
next
  fix m t n
  assume m: "separated H \<and> vm_inv H F cached m \<and> \<not> is_locked m" and g: "good_range t n"
  show "if \<forall>p \<in> set (range_pages t n (pages (vma_map m))). fst p = BackingMemory
    then \<exists>m'. vm_unmap_at cached t n m = Some m' \<and> (separated H \<and> vm_inv H F cached m' \<and> \<not> is_locked m') \<and>
      pages (vma_map m') = set_range t (replicate (n div CITRA_PAGE_SIZE) free_page) (pages (vma_map m))
    else vm_unmap_at cached t n m = None"
  proof (cases "\<forall>p \<in> set (range_pages t n (pages (vma_map m))). fst p = BackingMemory")
    case True
    then show ?thesis
      using UnmapRange_ok [where H = H and F = F and cached = cached, OF _ _ _ g True] m by (auto simp: vm_unmap_at_def)
  next
    case False
    then have "\<exists>p \<in> set (range_pages t n (pages (vma_map m))). fst p = VFree" using VMAType.exhaust by blast
    then have "UnmapRange cached t n m = Some (ResultInvalidAddressState, m)"
      using m g by (intro UnmapRange_free) auto
    then show ?thesis using False by (auto simp: vm_unmap_at_def)
  qed
qed (auto simp: mapped_pages_def dest: vm_invD(1) intro: map_length free_pages_blank)

section \<open>Properties\<close>

lemma Reset_ok:
  assumes "\<not> is_locked m"
  shows "\<exists>m'. Reset cached m = Some m' \<and> vm_inv H F cached m' \<and> \<not> is_locked m' \<and>
    pages (vma_map m') = replicate (MAX_ADDRESS div CITRA_PAGE_SIZE) free_page"
proof -
  let ?v = "blank_vma\<lparr>vsize := MAX_ADDRESS\<rparr>"
  have v: "vma_ok H ?v" "CITRA_PAGE_SIZE dvd vbase ?v" "vbase ?v + vsize ?v \<le> MAX_ADDRESS"
    by (simp_all add: vma_ok_def blank_vma_def MAX_ADDRESS_def CITRA_PAGE_SIZE_def)
  obtain pt where pt: "UpdatePageTableForVMA cached ?v PageTable_Clear = Some pt"
    "\<forall>k. entry_at pt k = (if vbase ?v div CITRA_PAGE_SIZE \<le> k \<and>
          k < vbase ?v div CITRA_PAGE_SIZE + vsize ?v div CITRA_PAGE_SIZE
        then page_entry (cached k) (page_attrs ?v ! (k - vbase ?v div CITRA_PAGE_SIZE))
        else entry_at PageTable_Clear k)"
    using UpdatePageTable_spec [OF v] by blast
  have b: "vbase ?v = 0" "vsize ?v = MAX_ADDRESS" by (simp_all add: blank_vma_def)
  have "table_agrees cached pt (pages [?v])"
    unfolding table_agrees_def using pt(2) b by simp
  moreover have "page_attrs ?v = replicate (MAX_ADDRESS div CITRA_PAGE_SIZE) free_page"
    by (simp add: page_attrs_def blank_vma_def free_page_def map_const_range)
  ultimately show ?thesis
    using assms pt(1) v b by (intro exI [of _ "m\<lparr>vma_map := [?v], page_table := pt\<rparr>"]) (simp add: Reset_def vm_inv_def)
qed

text \<open>C9: Mapping host memory refines the table of pages.  For page aligned addresses and sizes, mapping is refused with
  the error for a bad address above the managed space and with the error for a bad state when a page of the range is in
  use or the range leaves the managed space; the manager is unchanged then.  On a free range it succeeds, and
  the new table has read and write permission, the given state and consecutive host addresses on exactly
  that range.  The areas stay an ordered cover of the space, no two neighbours can be merged if that was so
  before, and the page table of the processor agrees with the areas.\<close>

theorem vm_map_refines:
  assumes "separated H" and "vm_inv H F cached m" and "\<not> is_locked m" and "ref_ok H memory n"
    and "CITRA_PAGE_SIZE dvd t" and "CITRA_PAGE_SIZE dvd n" and "0 < n" and "t + n < 2 ^ 32"
  shows "let free = (t + n \<le> MAX_ADDRESS \<and> (\<forall>p \<in> set (range_pages t n (pages (vma_map m))). fst p = VFree)) in
    (MAX_ADDRESS \<le> t \<longrightarrow> MapBackingMemory cached t memory n s m = Some (Inl ResultInvalidAddress, m)) \<and>
    (t < MAX_ADDRESS \<and> \<not> free \<longrightarrow> MapBackingMemory cached t memory n s m = Some (Inl ResultInvalidAddressState, m)) \<and>
    (free \<longrightarrow> (\<exists>i m'. MapBackingMemory cached t memory n s m = Some (Inr i, m') \<and> vm_inv H F cached m' \<and> \<not> is_locked m' \<and>
       pages (vma_map m') = set_range t (mapped_pages (memory, s) n) (pages (vma_map m))))"
proof -
  have "CarveVMA t n (vma_map m) = Some (Inl ResultInvalidAddress)" if "MAX_ADDRESS \<le> t"
    using that assms(5,6) by (simp add: CarveVMA_def FindVMA_def page_aligned_dvd)
  then have "MAX_ADDRESS \<le> t \<longrightarrow> MapBackingMemory cached t memory n s m = Some (Inl ResultInvalidAddress, m)"
    using assms(3) GetPtr_block [OF assms(4)] by (simp add: MapBackingMemory_def)
  moreover have "good_range t n" if "t + n \<le> MAX_ADDRESS" using that assms(5-7) by (simp add: good_range_def)
  ultimately show ?thesis
    using MapBackingMemory_busy [OF assms(2,3) _ assms(5-8)] GetPtr_block [OF assms(4)]
      MapBackingMemory_ok [OF assms(1-3) _ assms(4), of t s]
    unfolding Let_def mapped_pages_def by auto
qed

definition demo_host :: host where "demo_host = [(0x10000, 0x8000)]"

definition demo_ref :: MemoryRef where
  "demo_ref = Some \<lparr>block_ptr = 0x10000, block_size = 0x8000, ref_offset = 0\<rparr>"

definition demo_vm :: VMManager where
  "demo_vm = \<lparr>vma_map = [blank_vma\<lparr>vsize := MAX_ADDRESS\<rparr>], page_table = PageTable_Clear, is_locked = False\<rparr>"

lemma demo_vm_inv:
  "separated demo_host" "vm_inv demo_host F (\<lambda>_. False) demo_vm" "\<not> is_locked demo_vm" "ref_ok demo_host demo_ref 0x2000"
  "pages (vma_map demo_vm) = replicate (MAX_ADDRESS div CITRA_PAGE_SIZE) free_page"
proof -
  let ?v = "blank_vma\<lparr>vsize := MAX_ADDRESS\<rparr>"
  show p: "pages (vma_map demo_vm) = replicate (MAX_ADDRESS div CITRA_PAGE_SIZE) free_page"
    by (simp add: demo_vm_def page_attrs_def blank_vma_def free_page_def map_const_range)
  have "table_agrees (\<lambda>_. False) PageTable_Clear (replicate (MAX_ADDRESS div CITRA_PAGE_SIZE) free_page)"
    by (simp add: table_agrees_def entry_at_def page_entry_def free_page_def PageTable_Clear_def GetPtr_def)
  then show "vm_inv demo_host F (\<lambda>_. False) demo_vm"
    unfolding vm_inv_def p by (simp add: demo_vm_def vma_ok_def blank_vma_def MAX_ADDRESS_def CITRA_PAGE_SIZE_def)
qed (simp_all add: separated_def demo_host_def demo_vm_def ref_ok_def demo_ref_def)

lemma demo_range: "good_range 0x100000 0x2000"
  "\<forall>p \<in> set (range_pages 0x100000 0x2000 (pages (vma_map demo_vm))). fst p = VFree"
  by (simp_all add: good_range_def MAX_ADDRESS_def CITRA_PAGE_SIZE_def range_pages_def demo_vm_inv free_page_def)

lemma demo_free_page: "\<exists>p \<in> set (range_pages 0x100000 0x2000 (pages (vma_map demo_vm))). fst p = VFree"
proof -
  have "length (range_pages 0x100000 0x2000 (pages (vma_map demo_vm))) = 2"
    by (simp add: range_pages_def demo_vm_inv CITRA_PAGE_SIZE_def MAX_ADDRESS_def)
  then show ?thesis
    using demo_range(2) by (metis One_nat_def Suc_1 length_0_conv nat.distinct(1) neq_Nil_conv list.set_intros(1))
qed

theorem vm_map_refines_witness:
  "\<exists>i m'. MapBackingMemory (\<lambda>_. False) 0x100000 demo_ref 0x2000 MS_Private demo_vm = Some (Inr i, m') \<and>
     vm_inv demo_host False (\<lambda>_. False) m'"
  using vm_map_refines [OF demo_vm_inv(1,2,3,4), where t = "0x100000" and F = False and s = MS_Private] demo_range
  by (auto simp: Let_def good_range_def)

text \<open>C23: Unmapping refines the table of pages.  On a page aligned, non-empty range inside the managed space, unmapping
  is refused without effect when a page of the range is free; otherwise it returns successfully, exactly the pages of
  the range become free, and the invariants hold again, so the final assertion of the function never fails.\<close>

theorem vm_unmap_refines:
  assumes "separated H" and "vm_inv H F cached m" and "\<not> is_locked m" and "good_range t n"
  shows "((\<exists>p \<in> set (range_pages t n (pages (vma_map m))). fst p = VFree) \<longrightarrow>
      UnmapRange cached t n m = Some (ResultInvalidAddressState, m)) \<and>
    ((\<forall>p \<in> set (range_pages t n (pages (vma_map m))). fst p = BackingMemory) \<longrightarrow>
      (\<exists>m'. UnmapRange cached t n m = Some (ResultSuccess, m') \<and> vm_inv H F cached m' \<and> \<not> is_locked m' \<and>
         pages (vma_map m') = set_range t (replicate (n div CITRA_PAGE_SIZE) free_page) (pages (vma_map m))))"
  using UnmapRange_free [OF assms(2-4)] UnmapRange_ok [OF assms] by blast

theorem vm_unmap_refines_witness:
  "UnmapRange (\<lambda>_. False) 0x100000 0x2000 demo_vm = Some (ResultInvalidAddressState, demo_vm)"
  using vm_unmap_refines [OF demo_vm_inv(1,2,3) demo_range(1), where F = True] demo_free_page by blast

lemma ChangeMemoryState_spec:
  assumes "separated H" and "vm_inv H True cached m" and "\<not> is_locked m" and "good_range t n"
  defines "ps \<equiv> range_pages t n (pages (vma_map m))"
  shows "if \<forall>(ty, p, s, a) \<in> set ps. ty = BackingMemory \<and> s = st \<and> p AND pm = pm
       then \<exists>m'. ChangeMemoryState cached t n st pm st' pm' m = Some (ResultSuccess, m') \<and> vm_inv H True cached m' \<and>
         \<not> is_locked m' \<and> pages (vma_map m') = set_range t (map (\<lambda>(ty, _, _, a). (ty, pm', st', a)) ps) (pages (vma_map m))
       else ChangeMemoryState cached t n st pm st' pm' m = Some (ResultInvalidAddressState, m)"
proof -
  note c = vm_invD(1) [OF assms(2)] and g = assms(4)
  have fb: "fst p = VFree" if "fst p \<noteq> BackingMemory" for p :: page using that VMAType.exhaust by blast
  obtain i where i: "FindVMA t (vma_map m) = Some i" "i < length (vma_map m)" "i \<le> lower_bound (t + n) (vma_map m)"
    using range_areas [OF c g] by blast
  let ?as = "take (lower_bound (t + n) (vma_map m) - i) (drop i (vma_map m))"
  have sm: "(\<forall>v \<in> set ?as. state_matches st pm v) \<longleftrightarrow> (\<forall>(ty, p, s, a) \<in> set ps. s = st \<and> p AND pm = pm)"
    using carve_check_ball [OF c g i(1), of "\<lambda>(ty, p, s). s = st \<and> p AND pm = pm"]
      range_pages_nth [OF g map_length [OF c], of "\<lambda>(ty, p, s, a). s = st \<and> p AND pm = pm"]
    unfolding ps_def by (simp add: state_matches_def area_key_def page_key_def case_prod_beta)
  have "ChangeMemoryState cached t n st pm st' pm' m = Some (ResultInvalidAddressState, m)"
    if "\<not> (\<forall>(ty, p, s, a) \<in> set ps. ty = BackingMemory \<and> s = st \<and> p AND pm = pm)"
  proof (cases "\<forall>v \<in> set ?as. state_matches st pm v")
    case True
    then have "\<exists>p \<in> set ps. fst p = VFree" using that sm fb by fastforce
    then show ?thesis
      using on_range_error [OF assms(2) g] assms(3) i True good_rangeD(4) [OF g] unfolding ps_def
      by (simp add: ChangeMemoryState_def Let_def list_all_iff)
  next
    case False
    then show ?thesis
      using assms(3) i good_rangeD(4) [OF g] by (auto simp: ChangeMemoryState_def Let_def list_all_iff)
  qed
  moreover have "(\<forall>v \<in> set ?as. state_matches st pm v) \<and> (\<forall>p \<in> set ps. fst p = BackingMemory)"
    if "\<forall>(ty, p, s, a) \<in> set ps. ty = BackingMemory \<and> s = st \<and> p AND pm = pm"
    using that sm by fastforce
  ultimately show ?thesis
    using ChangeMemoryState_ok [OF assms(1-4) i(1), of st pm st' pm'] unfolding ps_def by auto
qed

text \<open>C24: Changing permissions or the state of a range refines the table of pages.  \<^verbatim>\<open>ReprotectRange\<close> succeeds exactly when
  no page of the range is free and then replaces the permissions of those pages; \<^verbatim>\<open>ChangeMemoryState\<close> succeeds exactly
  when every page is mapped, has the expected state and at least the expected permissions, and then sets
  both.  Otherwise the manager is unchanged.  The cover of the space, the absence of two free neighbours and the
  agreement of the page table are kept.\<close>

theorem vm_protect_refines:
  assumes "separated H" and "vm_inv H True cached m" and "\<not> is_locked m" and "good_range t n"
  defines "ps \<equiv> range_pages t n (pages (vma_map m))"
  shows "(if \<forall>p \<in> set ps. fst p = BackingMemory
       then \<exists>m'. ReprotectRange cached t n perms m = Some (ResultSuccess, m') \<and> vm_inv H True cached m' \<and> \<not> is_locked m' \<and>
         pages (vma_map m') = set_range t (map (\<lambda>(ty, _, s, a). (ty, perms, s, a)) ps) (pages (vma_map m))
       else ReprotectRange cached t n perms m = Some (ResultInvalidAddressState, m)) \<and>
    (if \<forall>(ty, p, s, a) \<in> set ps. ty = BackingMemory \<and> s = st \<and> p AND pm = pm
       then \<exists>m'. ChangeMemoryState cached t n st pm st' pm' m = Some (ResultSuccess, m') \<and> vm_inv H True cached m' \<and>
         \<not> is_locked m' \<and> pages (vma_map m') = set_range t (map (\<lambda>(ty, _, _, a). (ty, pm', st', a)) ps) (pages (vma_map m))
       else ChangeMemoryState cached t n st pm st' pm' m = Some (ResultInvalidAddressState, m))"
proof -
  note c = vm_invD(1) [OF assms(2)] and g = assms(4)
  have fb: "fst p = VFree" if "fst p \<noteq> BackingMemory" for p :: page using that VMAType.exhaust by blast
  have "ReprotectRange cached t n perms m = Some (ResultInvalidAddressState, m)"
    if "\<not> (\<forall>p \<in> set ps. fst p = BackingMemory)"
    using on_range_error [OF assms(2) g, of "Reprotect cached perms"] that fb assms(3)
    unfolding ps_def by (simp add: ReprotectRange_def) blast
  then show ?thesis
    using ReprotectRange_ok [OF assms(1-4), of perms] ChangeMemoryState_spec [OF assms(1-4), of st pm st' pm']
    unfolding ps_def by auto
qed

theorem vm_protect_refines_witness:
  "ReprotectRange (\<lambda>_. False) 0x100000 0x2000 1 demo_vm = Some (ResultInvalidAddressState, demo_vm)"
proof -
  have "\<not> (\<forall>p \<in> set (range_pages 0x100000 0x2000 (pages (vma_map demo_vm))). fst p = BackingMemory)"
    using demo_free_page by fastforce
  then show ?thesis
    using vm_protect_refines [OF demo_vm_inv(1,2,3) demo_range(1), where perms = 1] by simp
qed

text \<open>Unmapping what was mapped gives the address space back.  A mapping of a free range makes a second mapping of the
  same range fail; unmapping the range then restores the table of all pages, after which unmapping it again
  fails.  Pages outside the range never change.\<close>

theorem vm_map_unmap_roundtrip:
  assumes "separated H" and "vm_inv H F cached m" and "\<not> is_locked m" and "good_range t n"
    and "ref_ok H memory n" and "\<forall>p \<in> set (range_pages t n (pages (vma_map m))). fst p = VFree"
  shows "\<exists>m1 m2. vm_map_at cached t n (memory, s) m = Some m1 \<and> vm_map_at cached t n (memory, s) m1 = None \<and>
    vm_unmap_at cached t n m1 = Some m2 \<and> vm_inv H F cached m2 \<and> pages (vma_map m2) = pages (vma_map m) \<and>
    vm_unmap_at cached t n m2 = None \<and>
    (\<forall>t' n'. good_range t' n' \<and> (t' + n' \<le> t \<or> t + n \<le> t') \<longrightarrow>
       range_pages t' n' (pages (vma_map m1)) = range_pages t' n' (pages (vma_map m)))"
proof -
  have inv: "separated H \<and> vm_inv H F cached m \<and> \<not> is_locked m" using assms(1-3) by simp
  have r: "ref_ok H (fst (memory, s)) n" using assms(5) by simp
  obtain m1 m2 where m: "vm_map_at cached t n (memory, s) m = Some m1" "vm_map_at cached t n (memory, s) m1 = None"
    "vm_unmap_at cached t n m1 = Some m2" "vm_inv H F cached m2" "pages (vma_map m2) = pages (vma_map m)"
    "vm_unmap_at cached t n m2 = None"
    using vm.map_unmap [OF inv assms(4) r r assms(6)] by blast
  moreover have "range_pages t' n' (pages (vma_map m1)) = range_pages t' n' (pages (vma_map m))"
    if "good_range t' n'" "t' + n' \<le> t \<or> t + n \<le> t'" for t' n'
    using vm.map_elsewhere [OF inv assms(4) r m(1) that(2,1)] .
  ultimately show ?thesis by blast
qed

theorem vm_map_unmap_roundtrip_witness:
  "\<exists>m1 m2. vm_map_at (\<lambda>_. False) 0x100000 0x2000 (demo_ref, MS_Private) demo_vm = Some m1 \<and>
     vm_unmap_at (\<lambda>_. False) 0x100000 0x2000 m1 = Some m2 \<and> pages (vma_map m2) = pages (vma_map demo_vm)"
  using vm_map_unmap_roundtrip [OF demo_vm_inv(1,2,3) demo_range(1) demo_vm_inv(4) demo_range(2), where s = MS_Private and F = True]
  by blast

text \<open>Three mapped pages of one host block in two areas, which differ in their permissions.\<close>

definition area_at :: "nat \<Rightarrow> nat \<Rightarrow> VMAPermission \<Rightarrow> nat \<Rightarrow> VirtualMemoryArea" where
  "area_at base len perms off =
     \<lparr>vbase = base, vsize = len, vtype = BackingMemory, permissions = perms, meminfo_state = MS_Private,
      backing_memory = Some \<lparr>block_ptr = 0x10000, block_size = 0x8000, ref_offset = off\<rparr>\<rparr>"

definition split_vm :: VMManager where
  "split_vm = demo_vm\<lparr>vma_map :=
     [blank_vma\<lparr>vsize := 0x100000\<rparr>, area_at 0x100000 0x1000 3 0, area_at 0x101000 0x2000 5 0x1000,
      blank_vma\<lparr>vbase := 0x103000, vsize := MAX_ADDRESS - 0x103000\<rparr>]\<rparr>"

lemma split_vm_reprotect:
  fixes L L1 :: "VirtualMemoryArea list"
  defines "L \<equiv> [blank_vma\<lparr>vsize := 0x100000\<rparr>, area_at 0x100000 0x1000 3 0, area_at 0x101000 0x1000 5 0x1000,
      area_at 0x102000 0x1000 5 0x2000, blank_vma\<lparr>vbase := 0x103000, vsize := MAX_ADDRESS - 0x103000\<rparr>]"
    and "L1 \<equiv> [blank_vma\<lparr>vsize := 0x100000\<rparr>, area_at 0x100000 0x2000 5 0, area_at 0x102000 0x1000 5 0x2000,
        blank_vma\<lparr>vbase := 0x103000, vsize := MAX_ADDRESS - 0x103000\<rparr>]"
  shows "map_option (\<lambda>(r, m). (r, vma_map m)) (ReprotectRange (\<lambda>_. False) 0x100000 0x2000 5 split_vm) =
     Some (ResultSuccess, L1)"
proof -
  note ev = area_at_def blank_vma_def mergeable_def GetPtr_def GetSize_def ref_add_def MAX_ADDRESS_def CITRA_PAGE_SIZE_def
    page_aligned_def sub_u32_def CanBeMergedWith_def wrap_u32_def
  have unlocked: "\<not> is_locked split_vm" by (simp add: split_vm_def demo_vm_def)
  have carve: "CarveVMARange 0x100000 0x2000 (vma_map split_vm) = Some (Inr (L, 1))"
    by (simp add: L_def CarveVMARange_def split_vm_def ev FindVMA_def upper_bound_def lower_bound_def SplitVMA_def Let_def)
  obtain pt where pt: "UpdatePageTableForVMA (\<lambda>_. False) (area_at 0x100000 0x1000 5 0) (page_table split_vm) = Some pt"
    by (simp add: UpdatePageTableForVMA_def MapMemoryRegion_def PAGE_TABLE_NUM_ENTRIES_def ev Let_def)
  have v: "(L ! 1)\<lparr>permissions := 5\<rparr> = area_at 0x100000 0x1000 5 0" by (simp add: L_def area_at_def)
  have merge: "MergeAdjacent 1 (L[1 := area_at 0x100000 0x1000 5 0]) = Some (L1, 1)"
    by (simp add: MergeAdjacent_def L_def L1_def ev)
  have step: "Reprotect (\<lambda>_. False) 5 1 (split_vm\<lparr>vma_map := L\<rparr>) = Some (split_vm\<lparr>vma_map := L1, page_table := pt\<rparr>, 1)"
    using unlocked pt merge v by (simp add: Reprotect_def change_vma_def Let_def)
  have L: "length L = Suc 4" "vbase (L ! 1) < 0x102000" "length L1 = 4" "vbase (L1 ! 2) = 0x102000"
    by (simp_all add: L_def L1_def area_at_def)
  have loop: "range_loop (Reprotect (\<lambda>_. False) 5) 0x102000 (Suc (Suc k)) 1 (split_vm\<lparr>vma_map := L\<rparr>) =
      Some (split_vm\<lparr>vma_map := L1, page_table := pt\<rparr>)" for k
    using L step by (simp del: One_nat_def)
  show ?thesis
    using unlocked loop [of 4] L(1) by (simp add: ReprotectRange_def on_range_def carve wrap_u32_def del: range_loop.simps)
qed

text \<open>Changing permissions can leave neighbours unmerged.  A mapped page with read and write permission is followed
  by two pages of the same host block with read and execute permission, which are one area.  No neighbours can be merged.
  Giving the first two of the three pages read and execute permission merges them with each other only: the area
  of the range and the rest of the second area agree in every attribute and stay two areas, although the
  comment on the map of areas says that such areas are always merged.\<close>

theorem reprotect_leaves_mergeable:
  "successively (\<lambda>v w. \<not> mergeable v w) (vma_map split_vm) \<and>
   map_option (\<lambda>(r, m). (r, vma_map m)) (ReprotectRange (\<lambda>_. False) 0x100000 0x2000 5 split_vm) =
     Some (ResultSuccess,
       [blank_vma\<lparr>vsize := 0x100000\<rparr>, area_at 0x100000 0x2000 5 0, area_at 0x102000 0x1000 5 0x2000,
        blank_vma\<lparr>vbase := 0x103000, vsize := MAX_ADDRESS - 0x103000\<rparr>]) \<and>
   mergeable (area_at 0x100000 0x2000 5 0) (area_at 0x102000 0x1000 5 0x2000)"
proof (intro conjI)
  note ev = area_at_def blank_vma_def mergeable_def GetPtr_def GetSize_def ref_add_def MAX_ADDRESS_def
  show "successively (\<lambda>v w. \<not> mergeable v w) (vma_map split_vm)" by (simp add: split_vm_def ev)
  show "mergeable (area_at 0x100000 0x2000 5 0) (area_at 0x102000 0x1000 5 0x2000)" by (simp add: ev)
qed (rule split_vm_reprotect)

end
