(* ===== verification/Memory_System.thy ===== *)
theory Memory_System
  imports VM_Manager
begin

text \<open>
  Guest memory, \<^verbatim>\<open>core/memory.cpp\<close>: reading and writing values and blocks through a page table, the marks of pages that the
  rasterizer has cached, and the references to physical memory.

  Host memory is a function from host addresses to bytes.  Values of the four sizes are natural numbers, stored with the
  least significant byte first.  What belongs to other parts of the emulator is a component of the state: what the
  rasterizer does to host memory when it is told to flush or invalidate an area, the value of a GPU register and
  the address of the plugin loader's frame buffer, and the list of the values written to GPU registers.
  A page table is an argument of the operations; the kernel passes the one of the process.
\<close>

section \<open>State\<close>

datatype FlushMode = Flush | Invalidate | FlushAndInvalidate

record MemorySystem =
  host_memory :: "nat \<Rightarrow> u8"
  fcram :: nat
  vram :: nat
  n3ds_extra_ram :: nat
  dsp_ram :: nat
  cache_marks :: "nat \<Rightarrow> bool"
  plugin_fb_addr :: "nat option"
  rasterizer :: "FlushMode \<Rightarrow> nat \<Rightarrow> nat \<Rightarrow> (nat \<Rightarrow> u8) \<Rightarrow> nat \<Rightarrow> u8"
  gpu_reg :: "nat \<Rightarrow> nat"
  gpu_written :: "(nat \<times> nat) list"

text \<open>\<^verbatim>\<open>memcpy\<close> and \<^verbatim>\<open>memset\<close> on host memory.\<close>

definition host_read :: "MemorySystem \<Rightarrow> nat \<Rightarrow> nat \<Rightarrow> u8 list" where
  "host_read ms p n = map (\<lambda>i. host_memory ms (p + i)) [0..<n]"

definition host_write :: "nat \<Rightarrow> u8 list \<Rightarrow> MemorySystem \<Rightarrow> MemorySystem" where
  "host_write p bs ms =
     ms\<lparr>host_memory := (\<lambda>a. if p \<le> a \<and> a < p + length bs then bs ! (a - p) else host_memory ms a)\<rparr>"

fun bytes_of :: "nat \<Rightarrow> nat \<Rightarrow> u8 list" where
  "bytes_of 0 x = []"
| "bytes_of (Suc n) x = word_of_nat (x mod 256) # bytes_of n (x div 256)"

fun of_bytes :: "u8 list \<Rightarrow> nat" where
  "of_bytes [] = 0"
| "of_bytes (b # bs) = unat b + 256 * of_bytes bs"


section \<open>Pages cached by the rasterizer\<close>

text \<open>
  The marker has one array per area that the rasterizer can cache.  The areas are disjoint, so the arrays are one
  function of the page number, and an address outside of them has no entry.
\<close>

definition within :: "nat \<Rightarrow> nat \<Rightarrow> nat \<Rightarrow> bool" where
  "within a lo hi \<longleftrightarrow> lo \<le> a \<and> a < hi"

definition marker_at :: "nat \<Rightarrow> nat option" where
  "marker_at addr =
     (if within addr VRAM_VADDR VRAM_VADDR_END \<or> within addr LINEAR_HEAP_VADDR LINEAR_HEAP_VADDR_END \<or>
         within addr NEW_LINEAR_HEAP_VADDR NEW_LINEAR_HEAP_VADDR_END \<or>
         within addr PLUGIN_3GX_FB_VADDR PLUGIN_3GX_FB_VADDR_END
      then Some (addr div CITRA_PAGE_SIZE) else None)"

definition Mark :: "nat \<Rightarrow> bool \<Rightarrow> MemorySystem \<Rightarrow> MemorySystem" where
  "Mark addr c ms = (case marker_at addr of None \<Rightarrow> ms | Some i \<Rightarrow> ms\<lparr>cache_marks := (cache_marks ms)(i := c)\<rparr>)"

definition IsCached :: "MemorySystem \<Rightarrow> nat \<Rightarrow> bool" where
  "IsCached ms addr = (case marker_at addr of None \<Rightarrow> False | Some i \<Rightarrow> cache_marks ms i)"

definition cached_page :: "MemorySystem \<Rightarrow> nat \<Rightarrow> bool" where
  "cached_page ms page = IsCached ms (wrap_u32 (page * CITRA_PAGE_SIZE))"

text \<open>A reference into a block asserts that the offset is at most the size of the block.\<close>

definition new_ref :: "nat \<Rightarrow> nat \<Rightarrow> nat \<Rightarrow> MemoryRef option" where
  "new_ref block sz off = do {
     assert_opt (off \<le> sz);
     Some (Some \<lparr>block_ptr = block, block_size = sz, ref_offset = off\<rparr>)
   }"

definition GetFCRAMRef :: "MemorySystem \<Rightarrow> nat \<Rightarrow> MemoryRef option" where
  "GetFCRAMRef ms off = new_ref (fcram ms) FCRAM_N3DS_SIZE off"

definition GetFCRAMPointer :: "MemorySystem \<Rightarrow> nat \<Rightarrow> nat option" where
  "GetFCRAMPointer ms off = do { assert_opt (off \<le> FCRAM_N3DS_SIZE); Some (fcram ms + off) }"

definition GetFCRAMOffset :: "MemorySystem \<Rightarrow> nat \<Rightarrow> nat option" where
  "GetFCRAMOffset ms p = do {
     assert_opt (fcram ms \<le> p \<and> p \<le> fcram ms + FCRAM_N3DS_SIZE);
     Some (wrap_u32 (p - fcram ms))
   }"

definition GetPointerForRasterizerCache :: "MemorySystem \<Rightarrow> nat \<Rightarrow> MemoryRef option" where
  "GetPointerForRasterizerCache ms addr =
     (if within addr LINEAR_HEAP_VADDR LINEAR_HEAP_VADDR_END then GetFCRAMRef ms (addr - LINEAR_HEAP_VADDR)
      else if within addr NEW_LINEAR_HEAP_VADDR NEW_LINEAR_HEAP_VADDR_END then GetFCRAMRef ms (addr - NEW_LINEAR_HEAP_VADDR)
      else if within addr VRAM_VADDR VRAM_VADDR_END then new_ref (vram ms) VRAM_SIZE (addr - VRAM_VADDR)
      else if within addr PLUGIN_3GX_FB_VADDR PLUGIN_3GX_FB_VADDR_END then
        case plugin_fb_addr ms of
          None \<Rightarrow> None
        | Some fb \<Rightarrow> GetFCRAMRef ms (sub_u32 (addr - PLUGIN_3GX_FB_VADDR + fb) FCRAM_PADDR)
      else None)"

text \<open>\<^verbatim>\<open>GetPhysicalRef\<close>: the end of an area is included; an unknown address gives a null reference.\<close>

definition GetPhysicalRef :: "MemorySystem \<Rightarrow> nat \<Rightarrow> MemoryRef option" where
  "GetPhysicalRef ms address =
     (case find (\<lambda>(start, sz, block). start \<le> address \<and> address \<le> start + sz)
         [(VRAM_PADDR, VRAM_SIZE, vram ms), (DSP_RAM_PADDR, DSP_RAM_SIZE, dsp_ram ms),
          (FCRAM_PADDR, FCRAM_N3DS_SIZE, fcram ms), (N3DS_EXTRA_RAM_PADDR, N3DS_EXTRA_RAM_SIZE, n3ds_extra_ram ms)] of
        None \<Rightarrow> Some None
      | Some (start, sz, block) \<Rightarrow>
          if address - start > sz then Some None else new_ref block sz (address - start))"

text \<open>\<^verbatim>\<open>RasterizerFlushVirtualRegion\<close> passes the part of the range that overlaps each area that can be cached.\<close>

definition CheckRegion :: "nat \<Rightarrow> nat \<Rightarrow> FlushMode \<Rightarrow> nat \<Rightarrow> nat \<Rightarrow> nat \<Rightarrow> MemorySystem \<Rightarrow> MemorySystem" where
  "CheckRegion start end_addr mode region_start region_end paddr_region_start ms =
     (if start \<ge> region_end \<or> end_addr \<le> region_start then ms
      else let overlap_start = max start region_start; overlap_end = min end_addr region_end in
        ms\<lparr>host_memory := rasterizer ms mode (paddr_region_start + (overlap_start - region_start))
             (sub_u32 overlap_end overlap_start) (host_memory ms)\<rparr>)"

definition RasterizerFlushVirtualRegion :: "nat \<Rightarrow> nat \<Rightarrow> FlushMode \<Rightarrow> MemorySystem \<Rightarrow> MemorySystem" where
  "RasterizerFlushVirtualRegion start sz mode ms =
     (let e = wrap_u32 (start + sz);
          ms1 = CheckRegion start e mode LINEAR_HEAP_VADDR LINEAR_HEAP_VADDR_END FCRAM_PADDR ms;
          ms2 = CheckRegion start e mode NEW_LINEAR_HEAP_VADDR NEW_LINEAR_HEAP_VADDR_END FCRAM_PADDR ms1;
          ms3 = CheckRegion start e mode VRAM_VADDR VRAM_VADDR_END VRAM_PADDR ms2
      in case plugin_fb_addr ms of
           None \<Rightarrow> ms3
         | Some fb \<Rightarrow> if fb = 0 then ms3
                      else CheckRegion start e mode PLUGIN_3GX_FB_VADDR PLUGIN_3GX_FB_VADDR_END fb ms3)"

definition PhysicalToVirtualAddressForRasterizer :: "MemorySystem \<Rightarrow> nat \<Rightarrow> nat list" where
  "PhysicalToVirtualAddressForRasterizer ms addr =
     (if within addr VRAM_PADDR (VRAM_PADDR + VRAM_SIZE) then [addr - VRAM_PADDR + VRAM_VADDR]
      else case plugin_fb_addr ms of
        Some fb \<Rightarrow>
          if within addr fb (wrap_u32 (fb + PLUGIN_3GX_FB_SIZE)) then [addr - fb + PLUGIN_3GX_FB_VADDR]
          else if within addr FCRAM_PADDR (FCRAM_PADDR + FCRAM_SIZE)
            then [addr - FCRAM_PADDR + LINEAR_HEAP_VADDR, addr - FCRAM_PADDR + NEW_LINEAR_HEAP_VADDR]
          else if within addr (FCRAM_PADDR + FCRAM_SIZE) (FCRAM_PADDR + FCRAM_N3DS_SIZE)
            then [addr - FCRAM_PADDR + NEW_LINEAR_HEAP_VADDR] else []
      | None \<Rightarrow>
          if within addr FCRAM_PADDR (FCRAM_PADDR + FCRAM_SIZE)
            then [addr - FCRAM_PADDR + LINEAR_HEAP_VADDR, addr - FCRAM_PADDR + NEW_LINEAR_HEAP_VADDR]
          else if within addr (FCRAM_PADDR + FCRAM_SIZE) (FCRAM_PADDR + FCRAM_N3DS_SIZE)
            then [addr - FCRAM_PADDR + NEW_LINEAR_HEAP_VADDR] else [])"

text \<open>
  \<^verbatim>\<open>RasterizerMarkRegionCached\<close>: what happens to one page of one page table, then to the registered tables for one virtual
  page, then to all pages of the range.  Marking a page twice is unreachable where the page is mapped.
\<close>

definition mark_entry :: "MemorySystem \<Rightarrow> bool \<Rightarrow> nat \<Rightarrow> PageTable \<Rightarrow> PageTable option" where
  "mark_entry ms c vaddr pt =
     (let page = vaddr div CITRA_PAGE_SIZE in
      if c then
        case attributes pt page of
          Unmapped \<Rightarrow> Some pt
        | Memory \<Rightarrow> Some (pt\<lparr>attributes := (attributes pt)(page := RasterizerCachedMemory),
                             pointers := (pointers pt)(page := None)\<rparr>)
        | RasterizerCachedMemory \<Rightarrow> None
      else
        case attributes pt page of
          Unmapped \<Rightarrow> Some pt
        | Memory \<Rightarrow> None
        | RasterizerCachedMemory \<Rightarrow> do {
            r \<leftarrow> GetPointerForRasterizerCache ms (vaddr - vaddr mod CITRA_PAGE_SIZE);
            Some (pt\<lparr>attributes := (attributes pt)(page := Memory), pointers := (pointers pt)(page := r)\<rparr>)
          })"

fun map_opt :: "('a \<Rightarrow> 'b option) \<Rightarrow> 'a list \<Rightarrow> 'b list option" where
  "map_opt f [] = Some []"
| "map_opt f (x # xs) = do { y \<leftarrow> f x; ys \<leftarrow> map_opt f xs; Some (y # ys) }"

definition mark_vaddr :: "bool \<Rightarrow> nat \<Rightarrow> MemorySystem \<times> PageTable list \<Rightarrow> (MemorySystem \<times> PageTable list) option" where
  "mark_vaddr c vaddr = (\<lambda>(ms, pts). do {
     let ms1 = Mark vaddr c ms;
     pts1 \<leftarrow> map_opt (mark_entry ms1 c vaddr) pts;
     Some (ms1, pts1)
   })"

definition RasterizerMarkRegionCached ::
  "nat \<Rightarrow> nat \<Rightarrow> bool \<Rightarrow> MemorySystem \<times> PageTable list \<Rightarrow> (MemorySystem \<times> PageTable list) option" where
  "RasterizerMarkRegionCached start sz c s =
     (if start = 0 then Some s
      else let num_pages = wrap_u32 (sub_u32 (sub_u32 (start + sz) 1 div CITRA_PAGE_SIZE) (start div CITRA_PAGE_SIZE) + 1) in
        fold_opt (\<lambda>i s. fold_opt (mark_vaddr c)
            (PhysicalToVirtualAddressForRasterizer (fst s) (wrap_u32 (start + i * CITRA_PAGE_SIZE))) s)
          [0..<num_pages] s)"


section \<open>Single values\<close>

text \<open>
  The Luma3DS mapping of the upper half of the address space, tried when the page has no pointer: a host address in
  FCRAM or a GPU register.
\<close>

datatype luma = Luma_FCRAM nat | Luma_IO nat | Luma_None

definition luma_mapping :: "nat \<Rightarrow> luma" where
  "luma_mapping vaddr =
     (if vaddr < 2 ^ 31 then Luma_None
      else let paddr = vaddr - 2 ^ 31 in
        if paddr div 2 ^ 28 = 2 then Luma_FCRAM (paddr - FCRAM_PADDR)
        else if paddr div 2 ^ 28 = 1 \<and> paddr \<ge> IO_AREA_PADDR then Luma_IO (paddr - IO_AREA_PADDR + 0x1EC00000)
        else Luma_None)"

definition page_pointer :: "PageTable \<Rightarrow> nat \<Rightarrow> nat" where
  "page_pointer pt vaddr = GetPtr (pointers pt (vaddr div CITRA_PAGE_SIZE))"

definition Read :: "nat \<Rightarrow> nat \<Rightarrow> PageTable \<Rightarrow> MemorySystem \<Rightarrow> (nat \<times> MemorySystem) option" where
  "Read n vaddr pt ms =
     (let p = page_pointer pt vaddr in
      if p \<noteq> 0 then Some (of_bytes (host_read ms (p + vaddr mod CITRA_PAGE_SIZE) n), ms)
      else case luma_mapping vaddr of
        Luma_FCRAM off \<Rightarrow> do { q \<leftarrow> GetFCRAMPointer ms off; Some (of_bytes (host_read ms q n), ms) }
      | Luma_IO reg \<Rightarrow> Some (gpu_reg ms reg mod 256 ^ n, ms)
      | Luma_None \<Rightarrow>
          case attributes pt (vaddr div CITRA_PAGE_SIZE) of
            Unmapped \<Rightarrow> Some (0, ms)
          | Memory \<Rightarrow> None
          | RasterizerCachedMemory \<Rightarrow> do {
              let ms1 = RasterizerFlushVirtualRegion vaddr n Flush ms;
              r \<leftarrow> GetPointerForRasterizerCache ms1 vaddr;
              Some (of_bytes (host_read ms1 (GetPtr r) n), ms1)
            })"

text \<open>A GPU register is written as a 32-bit value only; another size trips an assertion.\<close>

definition Write :: "nat \<Rightarrow> nat \<Rightarrow> nat \<Rightarrow> PageTable \<Rightarrow> MemorySystem \<Rightarrow> MemorySystem option" where
  "Write n vaddr data pt ms =
     (let p = page_pointer pt vaddr in
      if p \<noteq> 0 then Some (host_write (p + vaddr mod CITRA_PAGE_SIZE) (bytes_of n data) ms)
      else case luma_mapping vaddr of
        Luma_FCRAM off \<Rightarrow> do { q \<leftarrow> GetFCRAMPointer ms off; Some (host_write q (bytes_of n data) ms) }
      | Luma_IO reg \<Rightarrow> do {
          assert_opt (n = 4);
          Some (ms\<lparr>gpu_written := gpu_written ms @ [(reg, data mod 2 ^ 32)]\<rparr>)
        }
      | Luma_None \<Rightarrow>
          case attributes pt (vaddr div CITRA_PAGE_SIZE) of
            Unmapped \<Rightarrow> Some ms
          | Memory \<Rightarrow> None
          | RasterizerCachedMemory \<Rightarrow> do {
              let ms1 = RasterizerFlushVirtualRegion vaddr n Invalidate ms;
              r \<leftarrow> GetPointerForRasterizerCache ms1 vaddr;
              Some (host_write (GetPtr r) (bytes_of n data) ms1)
            })"

definition compare_and_swap :: "nat \<Rightarrow> nat \<Rightarrow> nat \<Rightarrow> nat \<Rightarrow> MemorySystem \<Rightarrow> bool \<times> MemorySystem" where
  "compare_and_swap n p data expected ms =
     (if of_bytes (host_read ms p n) = expected then (True, host_write p (bytes_of n data) ms) else (False, ms))"

definition WriteExclusive :: "nat \<Rightarrow> nat \<Rightarrow> nat \<Rightarrow> nat \<Rightarrow> PageTable \<Rightarrow> MemorySystem \<Rightarrow> (bool \<times> MemorySystem) option" where
  "WriteExclusive n vaddr data expected pt ms =
     (let p = page_pointer pt vaddr in
      if p \<noteq> 0 then Some (compare_and_swap n (p + vaddr mod CITRA_PAGE_SIZE) data expected ms)
      else case attributes pt (vaddr div CITRA_PAGE_SIZE) of
          Unmapped \<Rightarrow> Some (True, ms)
        | Memory \<Rightarrow> None
        | RasterizerCachedMemory \<Rightarrow> do {
            let ms1 = RasterizerFlushVirtualRegion vaddr n Invalidate ms;
            r \<leftarrow> GetPointerForRasterizerCache ms1 vaddr;
            Some (compare_and_swap n (GetPtr r) data expected ms1)
          })"

definition IsValidVirtualAddress :: "PageTable \<Rightarrow> nat \<Rightarrow> bool" where
  "IsValidVirtualAddress pt vaddr \<longleftrightarrow>
     page_pointer pt vaddr \<noteq> 0 \<or> attributes pt (vaddr div CITRA_PAGE_SIZE) = RasterizerCachedMemory"

definition GetPointer :: "nat \<Rightarrow> PageTable \<Rightarrow> MemorySystem \<Rightarrow> nat option" where
  "GetPointer vaddr pt ms =
     (if page_pointer pt vaddr \<noteq> 0 then Some (page_pointer pt vaddr + vaddr mod CITRA_PAGE_SIZE)
      else if attributes pt (vaddr div CITRA_PAGE_SIZE) = RasterizerCachedMemory
        then map_option GetPtr (GetPointerForRasterizerCache ms vaddr)
      else Some 0)"

text \<open>The address wraps around at the end of the address space.\<close>

fun ReadCString :: "nat \<Rightarrow> nat \<Rightarrow> PageTable \<Rightarrow> MemorySystem \<Rightarrow> (nat list \<times> MemorySystem) option" where
  "ReadCString vaddr 0 pt ms = Some ([], ms)"
| "ReadCString vaddr (Suc n) pt ms = do {
     (c, ms1) \<leftarrow> Read 1 vaddr pt ms;
     if c = 0 then Some ([], ms1)
     else do {
       (cs, ms2) \<leftarrow> ReadCString (wrap_u32 (vaddr + 1)) n pt ms1;
       Some (c # cs, ms2)
     }
   }"


section \<open>Blocks\<close>

text \<open>
  The loop that the block operations share: \<open>step\<close> handles the part of the block in one page, given the number of the page, the
  offset in it and the number of bytes.  Every page but the first and the last is handled whole, so the
  number of whole pages and two more iterations are enough.  A page number past the table is an access out of
  the bounds of its arrays.
\<close>

fun block_loop :: "(nat \<Rightarrow> nat \<Rightarrow> nat \<Rightarrow> 's \<Rightarrow> 's option) \<Rightarrow> nat \<Rightarrow> nat \<Rightarrow> nat \<Rightarrow> nat \<Rightarrow> 's \<Rightarrow> 's option" where
  "block_loop step 0 page_index page_offset remaining s = None"
| "block_loop step (Suc n) page_index page_offset remaining s =
     (if remaining = 0 then Some s
      else let copy_amount = min (CITRA_PAGE_SIZE - page_offset) remaining in do {
        assert_opt (page_index < PAGE_TABLE_NUM_ENTRIES);
        s1 \<leftarrow> step page_index page_offset copy_amount s;
        block_loop step n (page_index + 1) 0 (remaining - copy_amount) s1
      })"

definition block_op :: "(nat \<Rightarrow> nat \<Rightarrow> nat \<Rightarrow> 's \<Rightarrow> 's option) \<Rightarrow> nat \<Rightarrow> nat \<Rightarrow> 's \<Rightarrow> 's option" where
  "block_op step addr sz s =
     block_loop step (sz div CITRA_PAGE_SIZE + 3) (addr div CITRA_PAGE_SIZE) (addr mod CITRA_PAGE_SIZE) sz s"

text \<open>
  Where a page's part of the block is in host memory, after the flush that \<open>mode\<close> asks for, or nothing for a page that is not
  mapped.  Blocks of the unsafe operations are not flushed.
\<close>

definition locate :: "bool \<Rightarrow> FlushMode \<Rightarrow> PageTable \<Rightarrow> nat \<Rightarrow> nat \<Rightarrow> nat \<Rightarrow> MemorySystem \<Rightarrow> (nat option \<times> MemorySystem) option" where
  "locate unsafe mode pt page off amount ms =
     (let vaddr = wrap_u32 (page * CITRA_PAGE_SIZE + off) in
      case attributes pt page of
        Unmapped \<Rightarrow> Some (None, ms)
      | Memory \<Rightarrow> do {
          assert_opt (GetPtr (pointers pt page) \<noteq> 0);
          Some (Some (GetPtr (pointers pt page) + off), ms)
        }
      | RasterizerCachedMemory \<Rightarrow> do {
          let ms1 = (if unsafe then ms else RasterizerFlushVirtualRegion vaddr amount mode ms);
          r \<leftarrow> GetPointerForRasterizerCache ms1 vaddr;
          Some (Some (GetPtr r), ms1)
        })"

definition read_page :: "bool \<Rightarrow> PageTable \<Rightarrow> nat \<Rightarrow> nat \<Rightarrow> nat \<Rightarrow> u8 list \<times> MemorySystem \<Rightarrow> (u8 list \<times> MemorySystem) option" where
  "read_page unsafe pt page off amount = (\<lambda>(buf, ms). do {
     (p, ms1) \<leftarrow> locate unsafe Flush pt page off amount ms;
     Some (buf @ (case p of None \<Rightarrow> replicate amount 0 | Some q \<Rightarrow> host_read ms1 q amount), ms1)
   })"

definition ReadBlockImpl :: "bool \<Rightarrow> PageTable \<Rightarrow> nat \<Rightarrow> nat \<Rightarrow> MemorySystem \<Rightarrow> (u8 list \<times> MemorySystem) option" where
  "ReadBlockImpl unsafe pt src_addr sz ms = block_op (read_page unsafe pt) src_addr sz ([], ms)"

definition write_page :: "bool \<Rightarrow> PageTable \<Rightarrow> nat \<Rightarrow> nat \<Rightarrow> nat \<Rightarrow> u8 list \<times> MemorySystem \<Rightarrow> (u8 list \<times> MemorySystem) option" where
  "write_page unsafe pt page off amount = (\<lambda>(src, ms). do {
     (p, ms1) \<leftarrow> locate unsafe Invalidate pt page off amount ms;
     Some (drop amount src, case p of None \<Rightarrow> ms1 | Some q \<Rightarrow> host_write q (take amount src) ms1)
   })"

definition WriteBlockImpl :: "bool \<Rightarrow> PageTable \<Rightarrow> nat \<Rightarrow> u8 list \<Rightarrow> MemorySystem \<Rightarrow> MemorySystem option" where
  "WriteBlockImpl unsafe pt dest_addr src ms =
     map_option snd (block_op (write_page unsafe pt) dest_addr (length src) (src, ms))"

definition zero_page :: "PageTable \<Rightarrow> nat \<Rightarrow> nat \<Rightarrow> nat \<Rightarrow> MemorySystem \<Rightarrow> MemorySystem option" where
  "zero_page pt page off amount ms = do {
     (p, ms1) \<leftarrow> locate False Invalidate pt page off amount ms;
     Some (case p of None \<Rightarrow> ms1 | Some q \<Rightarrow> host_write q (replicate amount 0) ms1)
   }"

definition ZeroBlock :: "PageTable \<Rightarrow> nat \<Rightarrow> nat \<Rightarrow> MemorySystem \<Rightarrow> MemorySystem option" where
  "ZeroBlock pt dest_addr sz ms = block_op (zero_page pt) dest_addr sz ms"

definition copy_page :: "PageTable \<Rightarrow> PageTable \<Rightarrow> nat \<Rightarrow> nat \<Rightarrow> nat \<Rightarrow> nat \<times> MemorySystem \<Rightarrow> (nat \<times> MemorySystem) option" where
  "copy_page dest_pt src_pt page off amount = (\<lambda>(dest_addr, ms). do {
     (p, ms1) \<leftarrow> locate False Flush src_pt page off amount ms;
     ms2 \<leftarrow> (case p of
         None \<Rightarrow> ZeroBlock dest_pt dest_addr amount ms1
       | Some q \<Rightarrow> WriteBlockImpl False dest_pt dest_addr (host_read ms1 q amount) ms1);
     Some (wrap_u32 (dest_addr + amount), ms2)
   })"

definition CopyBlock :: "PageTable \<Rightarrow> PageTable \<Rightarrow> nat \<Rightarrow> nat \<Rightarrow> nat \<Rightarrow> MemorySystem \<Rightarrow> MemorySystem option" where
  "CopyBlock dest_pt src_pt dest_addr src_addr sz ms =
     map_option snd (block_op (copy_page dest_pt src_pt) src_addr sz (dest_addr, ms))"


section \<open>Bytes of host memory\<close>

lemma length_bytes_of [simp]: "length (bytes_of n x) = n"
  by (induction n arbitrary: x) auto

lemma bytes_of_4:
  "bytes_of 4 x = [word_of_nat (x mod 256), word_of_nat (x div 256 mod 256), word_of_nat (x div 256 div 256 mod 256),
     word_of_nat (x div 256 div 256 div 256 mod 256)]"
proof -
  have "4 = Suc (Suc (Suc (Suc 0)))" by simp
  then show ?thesis by (simp only: bytes_of.simps)
qed

lemma length_host_read [simp]: "length (host_read ms p n) = n"
  by (simp add: host_read_def)

lemma of_bytes_bytes_of: "of_bytes (bytes_of n x) = x mod 256 ^ n"
proof (induction n arbitrary: x)
  case (Suc n)
  have "unat (word_of_nat (x mod 256) :: u8) = x mod 256" by (simp add: unsigned_of_nat take_bit_nat_eq_self_iff)
  then show ?case using Suc by (simp add: mod_mult2_eq)
qed simp

lemma host_read_write [simp]: "host_read (host_write p bs ms) p (length bs) = bs"
  by (rule nth_equalityI) (simp_all add: host_read_def host_write_def)

lemma host_read_add: "host_read ms p (m + n) = host_read ms p m @ host_read ms (p + m) n"
  by (rule nth_equalityI) (auto simp: host_read_def nth_append add.assoc)

lemma host_write_simps [simp]:
  "fcram (host_write p bs ms) = fcram ms" "vram (host_write p bs ms) = vram ms"
  "plugin_fb_addr (host_write p bs ms) = plugin_fb_addr ms" "rasterizer (host_write p bs ms) = rasterizer ms"
  "host_memory (host_write p bs ms) a = (if p \<le> a \<and> a < p + length bs then bs ! (a - p) else host_memory ms a)"
  by (simp_all add: host_write_def)

lemma page_pos [simp]: "0 < CITRA_PAGE_SIZE" "CITRA_PAGE_SIZE \<noteq> 0"
  by (simp_all add: CITRA_PAGE_SIZE_def)


section \<open>The host address of a guest byte\<close>

definition byte_loc :: "PageTable \<Rightarrow> MemorySystem \<Rightarrow> nat \<Rightarrow> nat option" where
  "byte_loc pt ms a =
     (case attributes pt (a div CITRA_PAGE_SIZE) of
        Unmapped \<Rightarrow> None
      | Memory \<Rightarrow> Some (page_pointer pt a + a mod CITRA_PAGE_SIZE)
      | RasterizerCachedMemory \<Rightarrow> map_option GetPtr (GetPointerForRasterizerCache ms a))"

definition guest_byte :: "PageTable \<Rightarrow> MemorySystem \<Rightarrow> nat \<Rightarrow> u8" where
  "guest_byte pt ms a = (case byte_loc pt ms a of None \<Rightarrow> 0 | Some q \<Rightarrow> host_memory ms q)"

text \<open>
  \<open>sound_page\<close>: a page that counts as mapped has a pointer, and one that counts as cached belongs to an area that can be
  cached.  \<open>quiet\<close>: the rasterizer has nothing to write back and leaves host memory alone.
\<close>

definition sound_page :: "PageTable \<Rightarrow> MemorySystem \<Rightarrow> nat \<Rightarrow> bool" where
  "sound_page pt ms a \<longleftrightarrow>
     (case attributes pt (a div CITRA_PAGE_SIZE) of
        Unmapped \<Rightarrow> True
      | Memory \<Rightarrow> page_pointer pt a \<noteq> 0
      | RasterizerCachedMemory \<Rightarrow> GetPointerForRasterizerCache ms a \<noteq> None)"

definition quiet :: "MemorySystem \<Rightarrow> bool" where
  "quiet ms \<longleftrightarrow> rasterizer ms = (\<lambda>_ _ _ h. h)"

lemma quiet_CheckRegion: "quiet ms \<Longrightarrow> CheckRegion start e mode lo hi pa ms = ms"
  by (simp add: CheckRegion_def quiet_def Let_def)

lemma quiet_flush: "quiet ms \<Longrightarrow> RasterizerFlushVirtualRegion start sz mode ms = ms"
  by (simp add: RasterizerFlushVirtualRegion_def quiet_CheckRegion Let_def split: option.split)

lemma host_update_simps [simp]:
  "quiet (ms\<lparr>host_memory := h\<rparr>) = quiet ms"
  "GetPointerForRasterizerCache (ms\<lparr>host_memory := h\<rparr>) = GetPointerForRasterizerCache ms"
  "byte_loc pt (ms\<lparr>host_memory := h\<rparr>) = byte_loc pt ms"
  "sound_page pt (ms\<lparr>host_memory := h\<rparr>) = sound_page pt ms"
proof -
  show c: "GetPointerForRasterizerCache (ms\<lparr>host_memory := h\<rparr>) = GetPointerForRasterizerCache ms"
    by (simp add: GetPointerForRasterizerCache_def GetFCRAMRef_def fun_eq_iff split: option.split)
  show "byte_loc pt (ms\<lparr>host_memory := h\<rparr>) = byte_loc pt ms" by (simp add: byte_loc_def fun_eq_iff c split: PageType.split)
  show "sound_page pt (ms\<lparr>host_memory := h\<rparr>) = sound_page pt ms" by (simp add: sound_page_def fun_eq_iff c split: PageType.split)
qed (simp add: quiet_def)

lemma within_page:
  assumes "page * CITRA_PAGE_SIZE + off + i < (page + 1) * CITRA_PAGE_SIZE" "CITRA_PAGE_SIZE dvd lo" "CITRA_PAGE_SIZE dvd hi"
  shows "within (page * CITRA_PAGE_SIZE + off + i) lo hi \<longleftrightarrow> within (page * CITRA_PAGE_SIZE + off) lo hi"
proof -
  obtain x y where xy: "lo = CITRA_PAGE_SIZE * x" "hi = CITRA_PAGE_SIZE * y" using assms(2,3) by (auto elim!: dvdE)
  have c: "CITRA_PAGE_SIZE * z \<le> page * CITRA_PAGE_SIZE + off + j \<longleftrightarrow> z \<le> page"
    if "page * CITRA_PAGE_SIZE + off + j < (page + 1) * CITRA_PAGE_SIZE" for z j
  proof
    assume "CITRA_PAGE_SIZE * z \<le> page * CITRA_PAGE_SIZE + off + j"
    then have "CITRA_PAGE_SIZE * z < CITRA_PAGE_SIZE * (page + 1)" using that by (simp add: mult.commute)
    then have "z < page + 1" unfolding mult_less_cancel1 by blast
    then show "z \<le> page" by simp
  next
    assume "z \<le> page"
    then have "CITRA_PAGE_SIZE * z \<le> CITRA_PAGE_SIZE * page" by simp
    then show "CITRA_PAGE_SIZE * z \<le> page * CITRA_PAGE_SIZE + off + j" unfolding mult.commute [of page] by linarith
  qed
  have "page * CITRA_PAGE_SIZE + off + 0 < (page + 1) * CITRA_PAGE_SIZE" using assms(1) by simp
  from c [OF this] c [OF assms(1)] show ?thesis by (simp add: within_def xy not_le [symmetric])
qed

lemma areas_aligned:
  "CITRA_PAGE_SIZE dvd LINEAR_HEAP_VADDR" "CITRA_PAGE_SIZE dvd LINEAR_HEAP_VADDR_END"
  "CITRA_PAGE_SIZE dvd NEW_LINEAR_HEAP_VADDR" "CITRA_PAGE_SIZE dvd NEW_LINEAR_HEAP_VADDR_END"
  "CITRA_PAGE_SIZE dvd VRAM_VADDR" "CITRA_PAGE_SIZE dvd VRAM_VADDR_END"
  "CITRA_PAGE_SIZE dvd PLUGIN_3GX_FB_VADDR" "CITRA_PAGE_SIZE dvd PLUGIN_3GX_FB_VADDR_END"
  by (simp_all add: area_defs CITRA_PAGE_SIZE_def)

lemma ref_offsets: "new_ref block sz off = Some r \<longleftrightarrow> off \<le> sz \<and> r = Some \<lparr>block_ptr = block, block_size = sz, ref_offset = off\<rparr>"
  by (auto simp: new_ref_def)

lemma GetPtr_Some [simp]: "GetPtr (Some b) = block_ptr b + ref_offset b"
  by (simp add: GetPtr_def)

lemma sub_u32_shift:
  assumes "sub_u32 a b + i < 2 ^ 32"
  shows "sub_u32 (a + i) b = sub_u32 a b + i"
proof -
  have "a + i + 2 ^ 32 - b mod 2 ^ 32 = (a + 2 ^ 32 - b mod 2 ^ 32) + i"
    using mod_less_divisor [of "2 ^ 32" b] by simp
  then have "sub_u32 (a + i) b = (sub_u32 a b + i) mod 2 ^ 32"
    by (simp add: sub_u32_def mod_add_left_eq)
  then show ?thesis using assms by simp
qed

text \<open>Within a page the pointers into cached memory are consecutive.\<close>

lemma cache_pointer_linear:
  assumes "page * CITRA_PAGE_SIZE + off + i < (page + 1) * CITRA_PAGE_SIZE"
    and "GetPointerForRasterizerCache ms (page * CITRA_PAGE_SIZE + off) = Some r"
    and "GetPointerForRasterizerCache ms (page * CITRA_PAGE_SIZE + off + i) = Some r'"
  shows "GetPtr r' = GetPtr r + i"
proof -
  let ?a = "page * CITRA_PAGE_SIZE + off"
  note w = within_page [OF assms(1)]
  note areas = w [OF areas_aligned(1,2)] w [OF areas_aligned(3,4)] w [OF areas_aligned(5,6)] w [OF areas_aligned(7,8)]
  have i: "i < 0x1000" using assms(1) by (simp add: CITRA_PAGE_SIZE_def)
  note r = assms(2) [unfolded GetPointerForRasterizerCache_def]
    and r' = assms(3) [unfolded GetPointerForRasterizerCache_def areas]
  consider (lin) "within ?a LINEAR_HEAP_VADDR LINEAR_HEAP_VADDR_END"
    | (new) "\<not> within ?a LINEAR_HEAP_VADDR LINEAR_HEAP_VADDR_END" "within ?a NEW_LINEAR_HEAP_VADDR NEW_LINEAR_HEAP_VADDR_END"
    | (vram) "\<not> within ?a LINEAR_HEAP_VADDR LINEAR_HEAP_VADDR_END" "\<not> within ?a NEW_LINEAR_HEAP_VADDR NEW_LINEAR_HEAP_VADDR_END"
        "within ?a VRAM_VADDR VRAM_VADDR_END"
    | (fb) fb where "\<not> within ?a LINEAR_HEAP_VADDR LINEAR_HEAP_VADDR_END"
        "\<not> within ?a NEW_LINEAR_HEAP_VADDR NEW_LINEAR_HEAP_VADDR_END" "\<not> within ?a VRAM_VADDR VRAM_VADDR_END"
        "within ?a PLUGIN_3GX_FB_VADDR PLUGIN_3GX_FB_VADDR_END" "plugin_fb_addr ms = Some fb"
    using r by (auto split: if_splits option.splits)
  then show ?thesis
  proof cases
    case lin
    then have "LINEAR_HEAP_VADDR \<le> ?a" by (simp add: within_def)
    then show ?thesis using r r' lin by (simp add: GetFCRAMRef_def ref_offsets)
  next
    case new
    then have "NEW_LINEAR_HEAP_VADDR \<le> ?a" by (simp add: within_def)
    then show ?thesis using r r' new by (simp add: GetFCRAMRef_def ref_offsets)
  next
    case vram
    then have "VRAM_VADDR \<le> ?a" by (simp add: within_def)
    then show ?thesis using r r' vram by (simp add: ref_offsets)
  next
    case fb
    then have le: "PLUGIN_3GX_FB_VADDR \<le> ?a" by (simp add: within_def)
    have "sub_u32 (?a - PLUGIN_3GX_FB_VADDR + fb) FCRAM_PADDR \<le> FCRAM_N3DS_SIZE"
      using r fb by (simp add: GetFCRAMRef_def ref_offsets)
    then have "sub_u32 (?a - PLUGIN_3GX_FB_VADDR + fb) FCRAM_PADDR + i < 2 ^ 32" using i by (simp add: FCRAM_N3DS_SIZE_def)
    from sub_u32_shift [OF this] have "sub_u32 (?a + i - PLUGIN_3GX_FB_VADDR + fb) FCRAM_PADDR =
        sub_u32 (?a - PLUGIN_3GX_FB_VADDR + fb) FCRAM_PADDR + i"
      using le by (simp add: add.commute add.left_commute)
    then show ?thesis using r r' fb by (simp add: GetFCRAMRef_def ref_offsets)
  qed
qed


section \<open>The loop over pages\<close>

text \<open>
  To show what a block operation does it is enough to show how one step inside a page extends the part of the block that
  is done.
\<close>

lemma block_loop_inv:
  assumes step: "\<And>page off amount j s. \<lbrakk>Q j s; 0 < amount; off + amount \<le> CITRA_PAGE_SIZE;
      page * CITRA_PAGE_SIZE + off = a + j; j + amount \<le> n; page < PAGE_TABLE_NUM_ENTRIES\<rbrakk>
      \<Longrightarrow> \<exists>s'. step page off amount s = Some s' \<and> Q (j + amount) s'"
    and "Q j s" "page * CITRA_PAGE_SIZE + off = a + j" "j + rem = n" "off < CITRA_PAGE_SIZE" "a + n \<le> 2 ^ 32"
    and "rem + off < fuel * CITRA_PAGE_SIZE"
  shows "\<exists>s'. block_loop step (Suc fuel) page off rem s = Some s' \<and> Q n s'"
  using assms(2-)
proof (induction fuel arbitrary: j s page off rem)
  case 0
  then show ?case by simp
next
  case (Suc fuel)
  show ?case
  proof (cases "rem = 0")
    case False
    let ?m = "min (CITRA_PAGE_SIZE - off) rem"
    have m: "0 < ?m" "off + ?m \<le> CITRA_PAGE_SIZE" "j + ?m \<le> n" using False Suc.prems(3,4) by simp_all
    have "page * CITRA_PAGE_SIZE < 2 ^ 32" using Suc.prems(2,3,5) False by simp
    then have page: "page < PAGE_TABLE_NUM_ENTRIES" by (simp add: page_defs)
    obtain s1 where s1: "step page off ?m s = Some s1" "Q (j + ?m) s1"
      using step [OF Suc.prems(1) m(1,2) Suc.prems(2) m(3) page] by blast
    have "\<exists>s'. block_loop step (Suc fuel) (page + 1) 0 (rem - ?m) s1 = Some s' \<and> Q n s'"
    proof (cases "rem \<le> CITRA_PAGE_SIZE - off")
      case True
      then have "?m = rem" by simp
      then show ?thesis using s1(2) Suc.prems(3) by simp
    next
      case False
      then have e: "?m = CITRA_PAGE_SIZE - off" by simp
      then have h: "(page + 1) * CITRA_PAGE_SIZE + 0 = a + (j + ?m)" "rem - ?m + 0 < fuel * CITRA_PAGE_SIZE"
        "j + ?m + (rem - ?m) = n"
        using Suc.prems(2-4,6) False by simp_all
      show ?thesis by (rule Suc.IH [OF s1(2) h(1,3) page_pos(1) Suc.prems(5) h(2)])
    qed
    then show ?thesis using s1(1) page False by (simp add: Let_def)
  qed (use Suc.prems in simp)
qed

lemma block_op_inv:
  assumes "\<And>page off amount j s. \<lbrakk>Q j s; 0 < amount; off + amount \<le> CITRA_PAGE_SIZE;
      page * CITRA_PAGE_SIZE + off = a + j; j + amount \<le> n; page < PAGE_TABLE_NUM_ENTRIES\<rbrakk>
      \<Longrightarrow> \<exists>s'. step page off amount s = Some s' \<and> Q (j + amount) s'"
    and "Q 0 s" "a + n \<le> 2 ^ 32"
  shows "\<exists>s'. block_op step a n s = Some s' \<and> Q n s'"
proof -
  have "n + a mod CITRA_PAGE_SIZE < (n div CITRA_PAGE_SIZE + 2) * CITRA_PAGE_SIZE"
  proof -
    have "n = n div CITRA_PAGE_SIZE * CITRA_PAGE_SIZE + n mod CITRA_PAGE_SIZE" by simp
    moreover have "n mod CITRA_PAGE_SIZE < CITRA_PAGE_SIZE" "a mod CITRA_PAGE_SIZE < CITRA_PAGE_SIZE" by simp_all
    ultimately show ?thesis unfolding distrib_right by linarith
  qed
  then have fuel: "\<exists>s'. block_loop step (Suc (n div CITRA_PAGE_SIZE + 2)) (a div CITRA_PAGE_SIZE) (a mod CITRA_PAGE_SIZE) n s = Some s' \<and> Q n s'"
    by (intro block_loop_inv [where Q = Q and a = a and j = 0, OF assms(1,2) _ _ _ assms(3)]) simp_all
  have "n div CITRA_PAGE_SIZE + 3 = Suc (n div CITRA_PAGE_SIZE + 2)" by simp
  then show ?thesis using fuel unfolding block_op_def by (simp only:)
qed

text \<open>The address that a step computes is the address of the block's byte, and the part of the page is where its bytes are.\<close>

lemma locate_bytes:
  assumes "quiet ms" "0 < amount" "off + amount \<le> CITRA_PAGE_SIZE" "page < PAGE_TABLE_NUM_ENTRIES"
    and sound: "\<And>i. i < amount \<Longrightarrow> sound_page pt ms (page * CITRA_PAGE_SIZE + off + i)"
  shows "(\<exists>q. locate unsafe mode pt page off amount ms = Some (Some q, ms) \<and>
        (\<forall>i < amount. byte_loc pt ms (page * CITRA_PAGE_SIZE + off + i) = Some (q + i))) \<or>
      locate unsafe mode pt page off amount ms = Some (None, ms) \<and>
        (\<forall>i < amount. byte_loc pt ms (page * CITRA_PAGE_SIZE + off + i) = None)"
proof -
  let ?a = "page * CITRA_PAGE_SIZE + off"
  have dm: "(?a + i) div CITRA_PAGE_SIZE = page" "(?a + i) mod CITRA_PAGE_SIZE = off + i" if "i < amount" for i
    using that assms(3) by (simp_all add: add.assoc)
  have "?a < 2 ^ 32"
  proof -
    have "page * CITRA_PAGE_SIZE + CITRA_PAGE_SIZE \<le> 2 ^ 32" using assms(4) by (simp add: page_defs)
    then show ?thesis using assms(2,3) by linarith
  qed
  then have wrap: "wrap_u32 ?a = ?a" by simp
  show ?thesis
  proof (cases "attributes pt page")
    case Unmapped
    then show ?thesis using dm by (simp add: locate_def byte_loc_def Let_def)
  next
    case Memory
    have "page_pointer pt ?a \<noteq> 0" using sound [OF assms(2)] dm [OF assms(2)] Memory by (simp add: sound_page_def)
    then show ?thesis using dm Memory dm [OF assms(2)] by (simp add: locate_def byte_loc_def page_pointer_def Let_def add.assoc)
  next
    case RasterizerCachedMemory
    have some: "\<exists>r. GetPointerForRasterizerCache ms (?a + i) = Some r" if "i < amount" for i
      using sound [OF that] dm [OF that] RasterizerCachedMemory by (simp add: sound_page_def)
    obtain r where r: "GetPointerForRasterizerCache ms ?a = Some r" using some [OF assms(2)] by auto
    have "byte_loc pt ms (?a + i) = Some (GetPtr r + i)" if i: "i < amount" for i
    proof -
      obtain r' where r': "GetPointerForRasterizerCache ms (?a + i) = Some r'" using some [OF i] by blast
      have "?a + i < (page + 1) * CITRA_PAGE_SIZE" using i assms(3) by simp
      from cache_pointer_linear [OF this r r'] show ?thesis
        using r' dm [OF i] RasterizerCachedMemory by (simp add: byte_loc_def)
    qed
    then show ?thesis
      using RasterizerCachedMemory r by (simp add: locate_def wrap quiet_flush [OF assms(1)] Let_def)
  qed
qed


lemma upt_block: "[a..<a + (j + m)] = [a..<a + j] @ map (\<lambda>i. a + j + i) [0..<m]"
  by (rule nth_equalityI) (auto simp: nth_append)

lemma ReadBlock_guest_bytes:
  assumes "quiet ms" "a + n \<le> 2 ^ 32" "\<And>b. a \<le> b \<Longrightarrow> b < a + n \<Longrightarrow> sound_page pt ms b"
  shows "ReadBlockImpl unsafe pt a n ms = Some (map (guest_byte pt ms) [a..<a + n], ms)"
proof -
  define Q where "Q j s \<longleftrightarrow> s = (map (guest_byte pt ms) [a..<a + j], ms)" for j s
  have "\<exists>s'. read_page unsafe pt page off amount s = Some s' \<and> Q (j + amount) s'"
    if h: "Q j s" "0 < amount" "off + amount \<le> CITRA_PAGE_SIZE" "page * CITRA_PAGE_SIZE + off = a + j" "j + amount \<le> n"
      "page < PAGE_TABLE_NUM_ENTRIES" for page off amount j s
  proof -
    have sound: "sound_page pt ms (page * CITRA_PAGE_SIZE + off + i)" if "i < amount" for i
      using assms(3) that h(4,5) by simp
    have split: "map (guest_byte pt ms) [a..<a + (j + amount)] =
        map (guest_byte pt ms) [a..<a + j] @ map (\<lambda>i. guest_byte pt ms (a + j + i)) [0..<amount]"
      by (simp add: upt_block comp_def)
    from locate_bytes [OF assms(1) h(2,3,6) sound, of unsafe Flush] show ?thesis
    proof
      assume "\<exists>q. locate unsafe Flush pt page off amount ms = Some (Some q, ms) \<and>
        (\<forall>i < amount. byte_loc pt ms (page * CITRA_PAGE_SIZE + off + i) = Some (q + i))"
      then obtain q where q: "locate unsafe Flush pt page off amount ms = Some (Some q, ms)"
        "\<forall>i < amount. byte_loc pt ms (a + j + i) = Some (q + i)"
        unfolding h(4) by blast
      then have "host_read ms q amount = map (\<lambda>i. guest_byte pt ms (a + j + i)) [0..<amount]"
        by (simp add: host_read_def guest_byte_def)
      then show ?thesis using q(1) h(1) by (simp add: read_page_def Q_def split)
    next
      assume "locate unsafe Flush pt page off amount ms = Some (None, ms) \<and>
        (\<forall>i < amount. byte_loc pt ms (page * CITRA_PAGE_SIZE + off + i) = None)"
      then have q: "locate unsafe Flush pt page off amount ms = Some (None, ms)" "\<forall>i < amount. byte_loc pt ms (a + j + i) = None"
        unfolding h(4) by blast+
      then have "replicate amount 0 = map (\<lambda>i. guest_byte pt ms (a + j + i)) [0..<amount]"
        by (intro nth_equalityI) (simp_all add: guest_byte_def)
      then show ?thesis using q(1) h(1) by (simp add: read_page_def Q_def split)
    qed
  qed
  then have "\<exists>s'. block_op (read_page unsafe pt) a n ([], ms) = Some s' \<and> Q n s'"
    by (rule block_op_inv) (use assms(2) in \<open>simp_all add: Q_def\<close>)
  then show ?thesis by (auto simp: ReadBlockImpl_def Q_def)
qed

text \<open>Host memory after the first \<open>j\<close> bytes of a block were written where \<open>loc\<close> says.\<close>

definition written :: "(nat \<Rightarrow> nat option) \<Rightarrow> nat \<Rightarrow> u8 list \<Rightarrow> MemorySystem \<Rightarrow> nat \<Rightarrow> MemorySystem \<Rightarrow> bool" where
  "written loc a bs ms j ms' \<longleftrightarrow> (\<exists>h. ms' = ms\<lparr>host_memory := h\<rparr> \<and>
     (\<forall>i < j. \<forall>q. loc (a + i) = Some q \<longrightarrow> h q = bs ! i) \<and>
     (\<forall>q. (\<forall>i < j. loc (a + i) \<noteq> Some q) \<longrightarrow> h q = host_memory ms q))"

lemma written_0 [simp]: "written loc a bs ms 0 ms"
  unfolding written_def by (intro exI [of _ "host_memory ms"]) simp

lemma written_more:
  assumes "written loc a bs ms j ms'" "\<And>i. i < m \<Longrightarrow> loc (a + j + i) = Some (q + i)"
    and inj: "\<And>i i'. i < j + m \<Longrightarrow> i' < j + m \<Longrightarrow> loc (a + i) = loc (a + i') \<Longrightarrow> loc (a + i) \<noteq> None \<Longrightarrow> i = i'"
    and len: "j + m \<le> length bs"
  shows "written loc a bs ms (j + m) (host_write q (take m (drop j bs)) ms')"
proof -
  obtain h where h: "ms' = ms\<lparr>host_memory := h\<rparr>" "\<forall>i < j. \<forall>q. loc (a + i) = Some q \<longrightarrow> h q = bs ! i"
    "\<forall>q. (\<forall>i < j. loc (a + i) \<noteq> Some q) \<longrightarrow> h q = host_memory ms q"
    using assms(1) unfolding written_def by blast
  define h' where "h' = (\<lambda>x. if q \<le> x \<and> x < q + m then bs ! (j + (x - q)) else h x)"
  have "host_write q (take m (drop j bs)) ms' = ms\<lparr>host_memory := h'\<rparr>"
  proof -
    have "(\<lambda>x. if q \<le> x \<and> x < q + m then take m (drop j bs) ! (x - q) else h x) = h'"
      using len by (auto simp: h'_def fun_eq_iff)
    then show ?thesis using len by (simp add: host_write_def h(1) min_absorb2 cong: if_cong)
  qed
  moreover have "h' x = bs ! i" if i: "i < j + m" "loc (a + i) = Some x" for i x
  proof (cases "q \<le> x \<and> x < q + m")
    case True
    then obtain d where d: "x = q + d" "d < m" using le_Suc_ex by (metis nat_add_left_cancel_less)
    then have "loc (a + (j + d)) = Some x" using assms(2) [of d] by (simp add: add.assoc)
    then have "i = j + d" using inj [of i "j + d"] i d(2) by simp
    then show ?thesis using d by (simp add: h'_def)
  next
    case False
    have "i < j"
    proof (rule ccontr)
      assume "\<not> i < j"
      then have "loc (a + i) = Some (q + (i - j))" "i - j < m" using assms(2) [of "i - j"] i(1) by simp_all
      then show False using i(2) False by simp
    qed
    then show ?thesis using h(2) i(2) False unfolding h'_def by metis
  qed
  moreover have "h' x = host_memory ms x" if "\<forall>i < j + m. loc (a + i) \<noteq> Some x" for x
  proof -
    have "\<not> (q \<le> x \<and> x < q + m)"
    proof
      assume x: "q \<le> x \<and> x < q + m"
      then obtain d where d: "x = q + d" "d < m" using le_Suc_ex by (metis nat_add_left_cancel_less)
      then have "loc (a + (j + d)) = Some x" "j + d < j + m" using assms(2) [of d] by (simp_all add: add.assoc)
      then show False using that by blast
    qed
    then show ?thesis using h(3) that unfolding h'_def by (metis trans_less_add1)
  qed
  ultimately show ?thesis unfolding written_def by blast
qed

lemma written_skip:
  assumes "written loc a bs ms j ms'" "\<And>i. i < m \<Longrightarrow> loc (a + j + i) = None"
  shows "written loc a bs ms (j + m) ms'"
proof -
  have "loc (a + i) = None" if "i < j + m" "\<not> i < j" for i
    using assms(2) [of "i - j"] that by simp
  then show ?thesis using assms(1) unfolding written_def by (metis option.distinct(1) trans_less_add1)
qed

text \<open>\<open>block_ok\<close>: a block that does not wrap around, on sound pages, and whose bytes have different host addresses.\<close>

definition block_ok :: "PageTable \<Rightarrow> MemorySystem \<Rightarrow> nat \<Rightarrow> nat \<Rightarrow> bool" where
  "block_ok pt ms a n \<longleftrightarrow> a + n \<le> 2 ^ 32 \<and> (\<forall>b. a \<le> b \<and> b < a + n \<longrightarrow> sound_page pt ms b) \<and>
     (\<forall>i < n. \<forall>i' < n. byte_loc pt ms (a + i) = byte_loc pt ms (a + i') \<and> byte_loc pt ms (a + i) \<noteq> None \<longrightarrow> i = i')"

lemma block_okD:
  assumes "block_ok pt ms a n"
  shows "a + n \<le> 2 ^ 32" "a \<le> b \<Longrightarrow> b < a + n \<Longrightarrow> sound_page pt ms b"
    "i < n \<Longrightarrow> i' < n \<Longrightarrow> byte_loc pt ms (a + i) = byte_loc pt ms (a + i') \<Longrightarrow> byte_loc pt ms (a + i) \<noteq> None \<Longrightarrow> i = i'"
  using assms unfolding block_ok_def by blast+

lemma WriteBlock_written:
  assumes "quiet ms" "block_ok pt ms a (length bs)"
  shows "\<exists>ms'. WriteBlockImpl unsafe pt a bs ms = Some ms' \<and> written (byte_loc pt ms) a bs ms (length bs) ms'"
proof -
  define Q where "Q j s \<longleftrightarrow> fst s = drop j bs \<and> written (byte_loc pt ms) a bs ms j (snd s)" for j and s :: "u8 list \<times> MemorySystem"
  have "\<exists>s'. write_page unsafe pt page off amount s = Some s' \<and> Q (j + amount) s'"
    if h: "Q j s" "0 < amount" "off + amount \<le> CITRA_PAGE_SIZE" "page * CITRA_PAGE_SIZE + off = a + j" "j + amount \<le> length bs"
      "page < PAGE_TABLE_NUM_ENTRIES" for page off amount j s
  proof -
    obtain ms' where s: "s = (drop j bs, ms')" "written (byte_loc pt ms) a bs ms j ms'"
      using h(1) by (cases s) (simp add: Q_def)
    then have ms': "quiet ms'" "byte_loc pt ms' = byte_loc pt ms" "sound_page pt ms' = sound_page pt ms"
      using assms(1) by (auto simp: written_def)
    have sound: "sound_page pt ms' (page * CITRA_PAGE_SIZE + off + i)" if "i < amount" for i
      using block_okD(2) [OF assms(2)] that h(4,5) ms'(3) by simp
    have inj: "i = i'" if "i < j + amount" "i' < j + amount" "byte_loc pt ms (a + i) = byte_loc pt ms (a + i')"
      "byte_loc pt ms (a + i) \<noteq> None" for i i'
      using block_okD(3) [OF assms(2) _ _ that(3,4)] that(1,2) h(5) by simp
    from locate_bytes [OF ms'(1) h(2,3,6) sound, of unsafe Invalidate] show ?thesis
    proof
      assume "\<exists>q. locate unsafe Invalidate pt page off amount ms' = Some (Some q, ms') \<and>
        (\<forall>i < amount. byte_loc pt ms' (page * CITRA_PAGE_SIZE + off + i) = Some (q + i))"
      then obtain q where q: "locate unsafe Invalidate pt page off amount ms' = Some (Some q, ms')"
        "\<And>i. i < amount \<Longrightarrow> byte_loc pt ms (a + j + i) = Some (q + i)"
        unfolding h(4) ms'(2) by blast
      from written_more [OF s(2) q(2) inj h(5)] q(1) show ?thesis
        by (simp add: write_page_def Q_def s(1) add.commute)
    next
      assume "locate unsafe Invalidate pt page off amount ms' = Some (None, ms') \<and>
        (\<forall>i < amount. byte_loc pt ms' (page * CITRA_PAGE_SIZE + off + i) = None)"
      then have q: "locate unsafe Invalidate pt page off amount ms' = Some (None, ms')"
        "\<And>i. i < amount \<Longrightarrow> byte_loc pt ms (a + j + i) = None"
        unfolding h(4) ms'(2) by blast+
      from written_skip [OF s(2) q(2)] q(1) show ?thesis
        by (simp add: write_page_def Q_def s(1) add.commute)
    qed
  qed
  then have "\<exists>s'. block_op (write_page unsafe pt) a (length bs) (bs, ms) = Some s' \<and> Q (length bs) s'"
    by (rule block_op_inv) (use block_okD(1) [OF assms(2)] in \<open>simp_all add: Q_def\<close>)
  then show ?thesis by (auto simp: WriteBlockImpl_def Q_def)
qed

lemma written_sound:
  assumes "written loc a bs ms j ms'"
  shows "quiet ms' = quiet ms" "byte_loc pt ms' = byte_loc pt ms" "sound_page pt ms' = sound_page pt ms"
  using assms by (auto simp: written_def)

lemma written_bytes:
  assumes "written loc a bs ms j ms'"
  shows "i < j \<Longrightarrow> loc (a + i) = Some q \<Longrightarrow> host_memory ms' q = bs ! i"
    "(\<And>i. i < j \<Longrightarrow> loc (a + i) \<noteq> Some q) \<Longrightarrow> host_memory ms' q = host_memory ms q"
  using assms by (auto simp: written_def)


section \<open>Pointers and attributes agree\<close>

text \<open>
  \<open>table_ok\<close>: a page has a pointer exactly if its type is \<^verbatim>\<open>Memory\<close>.  \<open>blocks_ok\<close>: the blocks of host memory that the
  rasterizer can cache are not at the null pointer.
\<close>

definition table_ok :: "PageTable \<Rightarrow> bool" where
  "table_ok pt \<longleftrightarrow> (\<forall>page. GetPtr (pointers pt page) \<noteq> 0 \<longleftrightarrow> attributes pt page = Memory)"

definition blocks_ok :: "MemorySystem \<Rightarrow> bool" where
  "blocks_ok ms \<longleftrightarrow> fcram ms \<noteq> 0 \<and> vram ms \<noteq> 0"

lemma table_ok_update:
  assumes "table_ok pt" "GetPtr r \<noteq> 0 \<longleftrightarrow> ty = Memory"
  shows "table_ok (pt\<lparr>attributes := (attributes pt)(page := ty), pointers := (pointers pt)(page := r)\<rparr>)"
  using assms by (simp add: table_ok_def)

lemma GetPtr_None [simp]: "GetPtr None = 0"
  by (simp add: GetPtr_def)

lemma ref_add_nonnull: "ref_add r n = Some r' \<Longrightarrow> GetPtr r \<noteq> 0 \<Longrightarrow> GetPtr r' \<noteq> 0"
  by (cases r) (auto simp: ref_add_def split: if_splits)

lemma MapPages_table_ok:
  assumes "table_ok pt" "GetPtr memory \<noteq> 0 \<longleftrightarrow> ty = Memory" "MapPages cached n base memory ty pt = Some pt'"
  shows "table_ok pt'"
  using assms
proof (induction n arbitrary: base memory pt)
  case (Suc n)
  let ?marked = "ty = Memory \<and> cached base"
  let ?pt = "pt\<lparr>attributes := (attributes pt)(base := if ?marked then RasterizerCachedMemory else ty),
      pointers := (pointers pt)(base := if ?marked then None else memory)\<rparr>"
  obtain memory1 where m: "(if GetPtr memory \<noteq> 0 \<and> GetSize memory > CITRA_PAGE_SIZE then ref_add memory CITRA_PAGE_SIZE
      else Some memory) = Some memory1" "MapPages cached n (base + 1) memory1 ty ?pt = Some pt'"
    using Suc.prems(3) by (auto simp: Let_def split: bind_splits if_splits)
  have "GetPtr memory1 \<noteq> 0 \<longleftrightarrow> ty = Memory" using m(1) Suc.prems(2) ref_add_nonnull by (auto split: if_splits)
  moreover have "table_ok ?pt" using Suc.prems(1,2) by (intro table_ok_update) auto
  ultimately show ?case using Suc.IH m(2) by blast
qed simp

lemma cache_pointer_nonnull:
  "blocks_ok ms \<Longrightarrow> GetPointerForRasterizerCache ms a = Some r \<Longrightarrow> GetPtr r \<noteq> 0"
  by (auto simp: GetPointerForRasterizerCache_def GetFCRAMRef_def ref_offsets blocks_ok_def split: if_splits option.splits)

lemma mark_entry_table_ok:
  assumes "blocks_ok ms" "table_ok pt" "mark_entry ms c vaddr pt = Some pt'"
  shows "table_ok pt'"
  using assms(3) table_ok_update [OF assms(2)] assms(2) cache_pointer_nonnull [OF assms(1)]
  by (auto simp: mark_entry_def Let_def split: if_splits PageType.splits bind_splits)

lemma map_opt_all:
  assumes "map_opt f xs = Some ys" "\<forall>x \<in> set xs. \<forall>y. f x = Some y \<longrightarrow> P y"
  shows "\<forall>y \<in> set ys. P y"
  using assms by (induction xs arbitrary: ys) (auto split: bind_splits)

lemma Mark_frame [simp]:
  "fcram (Mark a c ms) = fcram ms" "vram (Mark a c ms) = vram ms" "plugin_fb_addr (Mark a c ms) = plugin_fb_addr ms"
  "host_memory (Mark a c ms) = host_memory ms" "blocks_ok (Mark a c ms) = blocks_ok ms"
  by (simp_all add: Mark_def blocks_ok_def split: option.split)

definition tables_ok :: "MemorySystem \<times> PageTable list \<Rightarrow> bool" where
  "tables_ok s \<longleftrightarrow> blocks_ok (fst s) \<and> list_all table_ok (snd s)"

lemma mark_vaddr_tables_ok:
  assumes "tables_ok s" "mark_vaddr c vaddr s = Some s'"
  shows "tables_ok s'"
proof -
  obtain ms pts pts' where s: "s = (ms, pts)" "s' = (Mark vaddr c ms, pts')" "map_opt (mark_entry (Mark vaddr c ms) c vaddr) pts = Some pts'"
    using assms(2) by (cases s) (auto simp: mark_vaddr_def Let_def split: bind_splits)
  have "\<forall>pt \<in> set pts'. table_ok pt"
    using assms(1) mark_entry_table_ok [of "Mark vaddr c ms"]
    by (intro map_opt_all [OF s(3)]) (auto simp: tables_ok_def s(1) list_all_iff)
  then show ?thesis using assms(1) by (simp add: tables_ok_def s(1,2) list_all_iff)
qed

lemma RasterizerMark_tables_ok:
  assumes "tables_ok s" "RasterizerMarkRegionCached start sz c s = Some s'"
  shows "tables_ok s'"
proof (cases "start = 0")
  case False
  then have r: "fold_opt (\<lambda>i s. fold_opt (mark_vaddr c) (PhysicalToVirtualAddressForRasterizer (fst s) (wrap_u32 (start + i * CITRA_PAGE_SIZE))) s)
      [0..<wrap_u32 (sub_u32 (sub_u32 (start + sz) 1 div CITRA_PAGE_SIZE) (start div CITRA_PAGE_SIZE) + 1)] s = Some s'"
    using assms(2) by (simp add: RasterizerMarkRegionCached_def Let_def)
  show ?thesis
  proof (rule fold_opt_inv [where P = tables_ok, OF r assms(1)])
    fix i s t assume "tables_ok s" "fold_opt (mark_vaddr c)
      (PhysicalToVirtualAddressForRasterizer (fst s) (wrap_u32 (start + i * CITRA_PAGE_SIZE))) s = Some t"
    then show "tables_ok t" using fold_opt_inv [where P = tables_ok] mark_vaddr_tables_ok by metis
  qed
qed (use assms in \<open>simp add: RasterizerMarkRegionCached_def\<close>)

text \<open>Marking a page and taking the mark away again gives back a page that is mapped one to one.\<close>

lemma mark_unmark_entry:
  assumes "table_ok pt" "attributes pt (vaddr div CITRA_PAGE_SIZE) \<noteq> RasterizerCachedMemory"
    "attributes pt (vaddr div CITRA_PAGE_SIZE) = Memory \<longrightarrow>
       GetPointerForRasterizerCache ms (vaddr - vaddr mod CITRA_PAGE_SIZE) = Some (pointers pt (vaddr div CITRA_PAGE_SIZE))"
  shows "Option.bind (mark_entry ms True vaddr pt) (mark_entry ms False vaddr) = Some pt"
  using assms by (cases "attributes pt (vaddr div CITRA_PAGE_SIZE)") (auto simp: mark_entry_def Let_def fun_upd_idem)


section \<open>Properties\<close>

definition demo_memory :: MemorySystem where
  "demo_memory = \<lparr>host_memory = (\<lambda>a. word_of_nat (a div 0x1000)), fcram = 0x10000, vram = 0x20000000, n3ds_extra_ram = 0x30000000,
     dsp_ram = 0x40000000, cache_marks = (\<lambda>_. False), plugin_fb_addr = None, rasterizer = (\<lambda>_ _ _ h. h),
     gpu_reg = (\<lambda>_. 0), gpu_written = []\<rparr>"

text \<open>Two consecutive pages of the guest on two separate pages of the host.\<close>

definition demo_table :: PageTable where
  "demo_table = PageTable_Clear\<lparr>attributes := (\<lambda>p. if p = 0x100 \<or> p = 0x101 then Memory else Unmapped),
     pointers := (\<lambda>p. if p = 0x100 then Some \<lparr>block_ptr = 0x10000, block_size = 0x1000, ref_offset = 0\<rparr>
                      else if p = 0x101 then Some \<lparr>block_ptr = 0x50000, block_size = 0x1000, ref_offset = 0\<rparr> else None)\<rparr>"

lemma demo_block:
  "quiet demo_memory" "block_ok demo_table demo_memory 0x100FFE 4"
  "i < 4 \<Longrightarrow> byte_loc demo_table demo_memory (0x100FFE + i) = Some (if i < 2 then 0x10FFE + i else 0x4FFFE + i)"
proof -
  show "quiet demo_memory" by (simp add: quiet_def demo_memory_def)
  have pages: "(0x100FFE + i) div 0x1000 = (if i < 2 then 0x100 else 0x101)"
    "(0x100FFE + i) mod 0x1000 = (if i < 2 then 0xFFE + i else i - 2)" if "i < 4" for i :: nat
  proof -
    have "i = 0 \<or> i = 1 \<or> i = 2 \<or> i = 3" using that by linarith
    then show "(0x100FFE + i) div 0x1000 = (if i < 2 then 0x100 else 0x101)"
      "(0x100FFE + i) mod 0x1000 = (if i < 2 then 0xFFE + i else i - 2)" by auto
  qed
  have loc: "byte_loc demo_table demo_memory (0x100FFE + i) = Some (if i < 2 then 0x10FFE + i else 0x4FFFE + i)" if "i < 4" for i
    using pages [OF that] by (simp add: byte_loc_def demo_table_def page_pointer_def CITRA_PAGE_SIZE_def)
  then show "i < 4 \<Longrightarrow> byte_loc demo_table demo_memory (0x100FFE + i) = Some (if i < 2 then 0x10FFE + i else 0x4FFFE + i)" .
  have "sound_page demo_table demo_memory b" if "0x100FFE \<le> b" "b < 0x100FFE + 4" for b
  proof -
    define i where "i = b - 0x100FFE"
    have "b = 0x100FFE + i" "i < 4" using that by (simp_all add: i_def)
    then show ?thesis using pages [of i] by (simp add: sound_page_def demo_table_def page_pointer_def CITRA_PAGE_SIZE_def)
  qed
  then show "block_ok demo_table demo_memory 0x100FFE 4"
    unfolding block_ok_def using loc by (auto split: if_splits)
qed

text \<open>C33: Reading a block is reading its bytes one by one.  For a block that does not pass the end of the address space, on pages
  whose pointers are sound, and with nothing to flush, the loop over pages returns and gives for every address of the
  block the host byte that the page table maps it to, and zero where nothing is mapped.\<close>

theorem ReadBlock_bytewise:
  assumes "quiet ms" and "a + n \<le> 2 ^ 32" and "\<forall>b. a \<le> b \<and> b < a + n \<longrightarrow> sound_page pt ms b"
  shows "ReadBlockImpl unsafe pt a n ms =
    Some (map (\<lambda>b. case byte_loc pt ms b of None \<Rightarrow> 0 | Some q \<Rightarrow> host_memory ms q) [a..<a + n], ms)"
  using ReadBlock_guest_bytes [OF assms(1,2)] assms(3) by (simp add: guest_byte_def cong: map_cong)

theorem ReadBlock_bytewise_witness:
  "ReadBlockImpl False demo_table 0x100FFE 4 demo_memory = Some ([0x10, 0x10, 0x50, 0x50], demo_memory)"
proof -
  have l: "[0x100FFE..<0x100FFE + 4] = map (\<lambda>i. 0x100FFE + i) [0, 1, 2, 3::nat]" by (simp add: upt_rec)
  have "\<forall>b. 0x100FFE \<le> b \<and> b < 0x100FFE + 4 \<longrightarrow> sound_page demo_table demo_memory b"
    using block_okD(2) [OF demo_block(2)] by blast
  from ReadBlock_bytewise [OF demo_block(1) _ this, where unsafe = False] show ?thesis
    unfolding l using demo_block(3) [of 0] demo_block(3) [of 1] demo_block(3) [of 2] demo_block(3) [of 3]
    by (simp add: demo_memory_def)
qed

text \<open>C14: Writing a block and reading it back gives the block.  When all its bytes are mapped, to different host addresses, the write
  returns, a read of the same range gives exactly what was written, and through any page table a byte at
  another host address keeps its value.\<close>

theorem write_read_block:
  assumes "quiet ms" and "block_ok pt ms a (length bs)" and "\<forall>i < length bs. byte_loc pt ms (a + i) \<noteq> None"
  shows "\<exists>ms'. WriteBlockImpl unsafe pt a bs ms = Some ms' \<and> ReadBlockImpl unsafe' pt a (length bs) ms' = Some (bs, ms') \<and>
    (\<forall>pt2 b q. byte_loc pt2 ms b = Some q \<and> (\<forall>i < length bs. byte_loc pt ms (a + i) \<noteq> Some q) \<longrightarrow>
       guest_byte pt2 ms' b = guest_byte pt2 ms b)"
proof -
  obtain ms' where w: "WriteBlockImpl unsafe pt a bs ms = Some ms'" "written (byte_loc pt ms) a bs ms (length bs) ms'"
    using WriteBlock_written [OF assms(1,2)] by blast
  note s = written_sound [OF w(2)] and b = written_bytes [OF w(2)]
  have "guest_byte pt ms' (a + i) = bs ! i" if "i < length bs" for i
    using assms(3) that b(1) [OF that] by (auto simp: guest_byte_def s(2))
  then have "map (guest_byte pt ms') [a..<a + length bs] = bs"
    by (intro nth_equalityI) simp_all
  moreover have "ReadBlockImpl unsafe' pt a (length bs) ms' = Some (map (guest_byte pt ms') [a..<a + length bs], ms')"
    using assms(1) block_okD(1,2) [OF assms(2)] by (intro ReadBlock_guest_bytes) (simp_all add: s)
  moreover have "guest_byte pt2 ms' x = guest_byte pt2 ms x"
    if "byte_loc pt2 ms x = Some q" "\<forall>i < length bs. byte_loc pt ms (a + i) \<noteq> Some q" for pt2 x q
    using that b(2) by (simp add: guest_byte_def s(2))
  ultimately show ?thesis using w(1) by auto
qed

theorem write_read_block_witness:
  "\<exists>ms'. WriteBlockImpl False demo_table 0x100FFE [1, 2, 3, 4] demo_memory = Some ms' \<and>
     ReadBlockImpl False demo_table 0x100FFE 4 ms' = Some ([1, 2, 3, 4], ms')"
proof -
  let ?bs = "[1, 2, 3, 4] :: u8 list"
  have len: "length ?bs = 4" by simp
  have "block_ok demo_table demo_memory 0x100FFE (length ?bs)" "\<forall>i < length ?bs. byte_loc demo_table demo_memory (0x100FFE + i) \<noteq> None"
    unfolding len using demo_block(2,3) by simp_all
  from write_read_block [OF demo_block(1) this] show ?thesis unfolding len by blast
qed

text \<open>A value that crosses a page boundary is read from the wrong place.  On two guest pages that are mapped to separate
  host pages, reading the 32-bit value at the last two bytes of the first page takes its upper half from the
  host memory behind the first page; the block read of the same four bytes takes it from the second
  page, and the values differ.\<close>

theorem Read_crosses_page:
  "Read 4 0x100FFE demo_table demo_memory = Some (0x11111010, demo_memory) \<and>
   ReadBlockImpl False demo_table 0x100FFE 4 demo_memory = Some (bytes_of 4 0x50501010, demo_memory) \<and>
   map (byte_loc demo_table demo_memory) [0x101000, 0x101001] = [Some 0x50000, Some 0x50001]"
proof (intro conjI)
  show "Read 4 0x100FFE demo_table demo_memory = Some (0x11111010, demo_memory)"
    by (simp add: Read_def page_pointer_def demo_table_def demo_memory_def CITRA_PAGE_SIZE_def host_read_def upt_rec)
  have l: "[0x100FFE..<0x100FFE + 4] = map (\<lambda>i. 0x100FFE + i) [0, 1, 2, 3::nat]" by (simp add: upt_rec)
  note d = demo_block(3) [of 0] demo_block(3) [of 1] demo_block(3) [of 2] demo_block(3) [of 3]
  have "map (guest_byte demo_table demo_memory) [0x100FFE..<0x100FFE + 4] = bytes_of 4 0x50501010"
    unfolding l bytes_of_4 using d by (simp add: guest_byte_def demo_memory_def)
  then show "ReadBlockImpl False demo_table 0x100FFE 4 demo_memory = Some (bytes_of 4 0x50501010, demo_memory)"
    using ReadBlock_guest_bytes [OF demo_block(1) block_okD(1,2) [OF demo_block(2)], where unsafe = False] by simp
  show "map (byte_loc demo_table demo_memory) [0x101000, 0x101001] = [Some 0x50000, Some 0x50001]"
    using d(3,4) by simp
qed




end
