(* ===== verification/Memory_Region.thy ===== *)
theory Memory_Region
  imports Results Memory_Map
begin

text \<open>
  The allocator of physical memory, \<^verbatim>\<open>MemoryRegionInfo\<close> of \<^verbatim>\<open>core/hle/kernel/memory.h\<close> and \<^verbatim>\<open>memory.cpp\<close>: three
  regions of FCRAM, each with the set of its free blocks, from which heaps are allocated from the top and linear heaps
  first fit from either end.

  The set of free blocks is a \<^verbatim>\<open>boost::icl::interval_set\<close>, a library outside the sources.  A value of it is the
  sequence of right-open intervals that iterating over it gives, and its operations are an argument, \<open>ops\<close>, of the
  operations of a region.  The locale \<open>interval_sets\<close> states what the library documents: an operation computes the
  union or difference of the sets of elements, and iteration gives the intervals in order with gaps
  between them.  A list implementation shows that the laws can hold.
\<close>

section \<open>Interval sets\<close>

type_synonym Interval = "nat \<times> nat"
type_synonym IntervalSet = "Interval list"

record icl =
  icl_add :: "IntervalSet \<Rightarrow> Interval \<Rightarrow> IntervalSet"
  icl_sub :: "IntervalSet \<Rightarrow> Interval \<Rightarrow> IntervalSet"
  icl_contains :: "IntervalSet \<Rightarrow> Interval \<Rightarrow> bool"
  icl_intersects :: "IntervalSet \<Rightarrow> Interval \<Rightarrow> bool"

definition ivl :: "Interval \<Rightarrow> nat set" where
  "ivl i = {fst i..<snd i}"

definition elems :: "IntervalSet \<Rightarrow> nat set" where
  "elems s = (\<Union>i \<in> set s. ivl i)"

fun normal :: "IntervalSet \<Rightarrow> bool" where
  "normal [] \<longleftrightarrow> True"
| "normal (i # s) \<longleftrightarrow> fst i < snd i \<and> list_all (\<lambda>j. snd i < fst j) s \<and> normal s"

text \<open>\<^verbatim>\<open>+=\<close> and \<^verbatim>\<open>-=\<close> of a whole set work interval by interval.\<close>

definition icl_add_set :: "icl \<Rightarrow> IntervalSet \<Rightarrow> IntervalSet \<Rightarrow> IntervalSet" where
  "icl_add_set ops s t = fold (\<lambda>i s. icl_add ops s i) t s"

definition icl_sub_set :: "icl \<Rightarrow> IntervalSet \<Rightarrow> IntervalSet \<Rightarrow> IntervalSet" where
  "icl_sub_set ops s t = fold (\<lambda>i s. icl_sub ops s i) t s"

lemma elems_simps [simp]:
  "elems [] = {}" "elems (i # s) = ivl i \<union> elems s" "elems (s @ t) = elems s \<union> elems t" "elems (rev s) = elems s"
  by (auto simp: elems_def)

lemma finite_elems [simp]: "finite (elems s)"
  by (simp add: elems_def ivl_def)

lemma ivl_memb [simp]: "x \<in> ivl i \<longleftrightarrow> fst i \<le> x \<and> x < snd i"
  by (simp add: ivl_def)

lemma finite_ivl [simp]: "finite (ivl i)" and card_ivl [simp]: "card (ivl i) = snd i - fst i"
  by (simp_all add: ivl_def)

lemma normal_append:
  "normal (s @ t) \<longleftrightarrow> normal s \<and> normal t \<and> (\<forall>i \<in> set s. \<forall>j \<in> set t. snd i < fst j)"
  by (induction s) (auto simp: list_all_iff)

lemma normal_nonempty: "normal s \<Longrightarrow> i \<in> set s \<Longrightarrow> fst i < snd i"
  by (induction s) auto

lemma normal_beyond:
  assumes "normal (i # s)" "x \<in> elems s"
  shows "snd i < x"
  using assms by (auto simp: elems_def list_all_iff intro: less_le_trans)

lemma normal_disjoint:
  assumes "normal (i # s)"
  shows "ivl i \<inter> elems s = {}"
  using normal_beyond [OF assms] by fastforce

lemma card_elems_Cons: "normal (i # s) \<Longrightarrow> card (elems (i # s)) = (snd i - fst i) + card (elems s)"
  by (simp add: card_Un_disjoint normal_disjoint)

text \<open>The intervals are determined by the elements.\<close>

lemma normal_head:
  assumes "normal (i # s)"
  shows "fst i \<in> elems (i # s)" "\<forall>x \<in> elems (i # s). fst i \<le> x" "snd i \<notin> elems (i # s)"
    "\<forall>x. fst i \<le> x \<and> x < snd i \<longrightarrow> x \<in> elems (i # s)" "elems s = {x \<in> elems (i # s). snd i < x}"
proof -
  have n: "fst i < snd i" using assms by simp
  show "fst i \<in> elems (i # s)" using n by simp
  show "\<forall>x \<in> elems (i # s). fst i \<le> x" using normal_beyond [OF assms] n by fastforce
  show "snd i \<notin> elems (i # s)" using normal_beyond [OF assms] by fastforce
  show "\<forall>x. fst i \<le> x \<and> x < snd i \<longrightarrow> x \<in> elems (i # s)" by simp
  show "elems s = {x \<in> elems (i # s). snd i < x}" using normal_beyond [OF assms] by auto
qed

lemma normal_unique:
  assumes "normal s" "normal t" "elems s = elems t"
  shows "s = t"
  using assms
proof (induction s arbitrary: t)
  case Nil
  show ?case
  proof (cases t)
    case (Cons j t')
    then have "fst j \<in> elems t" using normal_head(1) [of j t'] Nil(2) by simp
    then show ?thesis using Nil(3) by simp
  qed simp
next
  case (Cons i s)
  obtain j t' where t: "t = j # t'"
    using Cons.prems(3) normal_head(1) [OF Cons.prems(1)] by (cases t) auto
  have nt: "normal (j # t')" using Cons.prems(2) t by simp
  note hi = normal_head [OF Cons.prems(1)] and hj = normal_head [OF nt]
  have E: "elems (i # s) = elems (j # t')" using Cons.prems(3) t by simp
  have f: "fst i = fst j" using hi(1,2) hj(1,2) E by (metis dual_order.antisym)
  have "fst i < snd i" "fst j < snd j" using Cons.prems(1) nt by simp_all
  then have "\<not> snd i < snd j" "\<not> snd j < snd i" using hi(3,4) hj(3,4) E f by (metis less_imp_le)+
  then have "snd i = snd j" by simp
  then have "i = j" using f by (simp add: prod_eq_iff)
  moreover have "elems s = elems t'" by (simp only: hi(5) hj(5) E \<open>snd i = snd j\<close>)
  ultimately show ?case using Cons.IH [of t'] Cons.prems(1) nt t by simp
qed

locale interval_sets =
  fixes ops :: icl
  assumes add_normal: "normal s \<Longrightarrow> normal (icl_add ops s i)"
    and add_elems: "normal s \<Longrightarrow> elems (icl_add ops s i) = elems s \<union> ivl i"
    and sub_normal: "normal s \<Longrightarrow> normal (icl_sub ops s i)"
    and sub_elems: "normal s \<Longrightarrow> elems (icl_sub ops s i) = elems s - ivl i"
    and contains: "normal s \<Longrightarrow> icl_contains ops s i \<longleftrightarrow> ivl i \<subseteq> elems s"
    and intersects: "normal s \<Longrightarrow> icl_intersects ops s i \<longleftrightarrow> ivl i \<inter> elems s \<noteq> {}"
begin

lemma add_set: "normal s \<Longrightarrow> normal (icl_add_set ops s t) \<and> elems (icl_add_set ops s t) = elems s \<union> elems t"
  unfolding icl_add_set_def by (induction t arbitrary: s) (auto simp: add_normal add_elems)

lemma sub_set: "normal s \<Longrightarrow> normal (icl_sub_set ops s t) \<and> elems (icl_sub_set ops s t) = elems s - elems t"
  unfolding icl_sub_set_def by (induction t arbitrary: s) (auto simp: sub_normal sub_elems)

text \<open>Taking a part out of a set and putting it back gives the same sequence of intervals.\<close>

lemma sub_add:
  assumes "normal s" and "ivl i \<subseteq> elems s"
  shows "icl_add ops (icl_sub ops s i) i = s"
  using assms by (intro normal_unique) (auto simp: add_normal sub_normal add_elems sub_elems)

lemma add_sub:
  assumes "normal s" and "ivl i \<inter> elems s = {}"
  shows "icl_sub ops (icl_add ops s i) i = s"
  using assms by (intro normal_unique) (auto simp: add_normal sub_normal add_elems sub_elems)

end

text \<open>An implementation on lists.\<close>

fun list_insert :: "IntervalSet \<Rightarrow> nat \<Rightarrow> nat \<Rightarrow> IntervalSet" where
  "list_insert [] c d = [(c, d)]"
| "list_insert (i # s) c d =
     (if snd i < c then i # list_insert s c d
      else if d < fst i then (c, d) # i # s
      else list_insert s (min (fst i) c) (max (snd i) d))"

definition list_cut :: "Interval \<Rightarrow> Interval \<Rightarrow> IntervalSet" where
  "list_cut i j = filter (\<lambda>i. fst i < snd i) [(fst i, min (snd i) (fst j)), (max (fst i) (snd j), snd i)]"

definition list_icl :: icl where
  "list_icl =
     \<lparr>icl_add = (\<lambda>s i. if fst i < snd i then list_insert s (fst i) (snd i) else s),
      icl_sub = (\<lambda>s j. if fst j < snd j then concat (map (\<lambda>i. list_cut i j) s) else s),
      icl_contains = (\<lambda>s i. snd i \<le> fst i \<or> list_ex (\<lambda>j. fst j \<le> fst i \<and> snd i \<le> snd j) s),
      icl_intersects = (\<lambda>s i. list_ex (\<lambda>j. max (fst i) (fst j) < min (snd i) (snd j)) s)\<rparr>"

lemma list_insert_normal:
  assumes "normal s" "c < d"
  shows "normal (list_insert s c d) \<and> elems (list_insert s c d) = elems s \<union> {c..<d} \<and>
    (\<forall>x. list_all (\<lambda>j. x < fst j) s \<and> x < c \<longrightarrow> list_all (\<lambda>j. x < fst j) (list_insert s c d))"
  using assms
proof (induction s arbitrary: c d)
  case Nil
  then show ?case by (auto simp: ivl_def)
next
  case (Cons i s)
  have n: "fst i < snd i" "list_all (\<lambda>j. snd i < fst j) s" "normal s" using Cons.prems(1) by simp_all
  consider "snd i < c" | "\<not> snd i < c" "d < fst i" | "\<not> snd i < c" "\<not> d < fst i" by blast
  then show ?case
  proof cases
    case 1
    then show ?thesis using Cons.IH [OF n(3) Cons.prems(2)] n by auto
  next
    case 2
    have "list_all (\<lambda>j. d < fst j) s" using n 2 by (auto simp: list_all_iff)
    moreover have "list_all (\<lambda>j. x < fst j) s" if "x < fst i" for x using n that by (auto simp: list_all_iff)
    ultimately show ?thesis using 2 n Cons.prems by (auto simp: ivl_def)
  next
    case 3
    have "min (fst i) c < max (snd i) d" using n by auto
    moreover have "ivl i \<union> {c..<d} = {min (fst i) c..<max (snd i) d}" using 3 n Cons.prems(2) by (auto simp: ivl_def)
    ultimately show ?thesis using Cons.IH [OF n(3), of "min (fst i) c" "max (snd i) d"] 3 by (auto simp: min_def)
  qed
qed

lemma list_cut_normal:
  assumes "fst i < snd i" "fst j < snd j"
  shows "normal (list_cut i j)" "elems (list_cut i j) = ivl i - ivl j"
    "\<forall>k \<in> set (list_cut i j). fst i \<le> fst k \<and> snd k \<le> snd i"
  using assms by (auto simp: list_cut_def ivl_def)

lemma list_sub_normal:
  assumes "normal s" "fst j < snd j"
  shows "normal (concat (map (\<lambda>i. list_cut i j) s)) \<and> elems (concat (map (\<lambda>i. list_cut i j) s)) = elems s - ivl j"
  using assms
proof (induction s)
  case (Cons i s)
  have n: "fst i < snd i" "list_all (\<lambda>j. snd i < fst j) s" "normal s" using Cons.prems(1) by simp_all
  have "snd k < fst k'" if "k \<in> set (list_cut i j)" "i' \<in> set s" "k' \<in> set (list_cut i' j)" for k k' i'
  proof -
    have "snd k \<le> snd i" using list_cut_normal(3) [OF n(1) Cons.prems(2)] that(1) by blast
    also have "snd i < fst i'" using n(2) that(2) by (simp add: list_all_iff)
    also have "fst i' \<le> fst k'"
      using list_cut_normal(3) [OF normal_nonempty [OF n(3) that(2)] Cons.prems(2)] that(3) by blast
    finally show ?thesis .
  qed
  then show ?case
    using Cons.IH [OF n(3) Cons.prems(2)] list_cut_normal(1,2) [OF n(1) Cons.prems(2)] by (auto simp: normal_append)
qed simp

lemma normal_contains:
  assumes "normal s" "fst i < snd i"
  shows "list_ex (\<lambda>j. fst j \<le> fst i \<and> snd i \<le> snd j) s \<longleftrightarrow> ivl i \<subseteq> elems s"
  using assms(1)
proof (induction s)
  case Nil
  then show ?case using assms(2) by (auto simp: ivl_def)
next
  case (Cons j s)
  have nj: "fst j < snd j" "normal s" using Cons.prems by simp_all
  show ?case
  proof (cases "ivl i \<subseteq> elems (j # s)")
    case True
    have l: "fst i \<in> elems (j # s)" using True assms(2) by auto
    show ?thesis
    proof (cases "fst j \<le> fst i \<and> fst i < snd j")
      case True
      have "\<not> snd j < snd i"
      proof
        assume "snd j < snd i"
        then have "snd j \<in> ivl i" using True by simp
        then have "snd j \<in> elems (j # s)" using \<open>ivl i \<subseteq> elems (j # s)\<close> by blast
        then show False using normal_head(3) [OF Cons.prems] by simp
      qed
      then show ?thesis using True \<open>ivl i \<subseteq> elems (j # s)\<close> by simp
    next
      case False
      then have "fst i \<in> elems s" using l by auto
      then have "snd j < fst i" using normal_beyond [OF Cons.prems] by blast
      then have "ivl i \<subseteq> elems s" using \<open>ivl i \<subseteq> elems (j # s)\<close> by auto
      then show ?thesis using Cons.IH [OF nj(2)] \<open>ivl i \<subseteq> elems (j # s)\<close> by simp
    qed
  next
    case False
    then show ?thesis using Cons.IH [OF nj(2)] by auto
  qed
qed

interpretation li: interval_sets list_icl
proof
  fix s i assume n: "normal s"
  show "normal (icl_add list_icl s i)" "elems (icl_add list_icl s i) = elems s \<union> ivl i"
    using list_insert_normal [OF n, of "fst i" "snd i"] n by (auto simp: list_icl_def ivl_def)
  show "normal (icl_sub list_icl s i)" "elems (icl_sub list_icl s i) = elems s - ivl i"
    using list_sub_normal [OF n, of i] n by (auto simp: list_icl_def ivl_def)
  show "icl_contains list_icl s i \<longleftrightarrow> ivl i \<subseteq> elems s"
    using normal_contains [OF n, of i] by (cases "fst i < snd i") (auto simp: list_icl_def ivl_def)
  have "list_ex (\<lambda>j. max (fst i) (fst j) < min (snd i) (snd j)) s \<longleftrightarrow> (\<exists>j \<in> set s. ivl i \<inter> ivl j \<noteq> {})"
    by (auto simp: list_ex_iff ivl_def)
  then show "icl_intersects list_icl s i \<longleftrightarrow> ivl i \<inter> elems s \<noteq> {}"
    by (auto simp: list_icl_def elems_def)
qed


section \<open>Regions\<close>

text \<open>
  The fields \<^verbatim>\<open>base\<close>, \<^verbatim>\<open>size\<close> and \<^verbatim>\<open>used\<close> are unsigned 32-bit numbers.  The assertions that the blocks are
  right-open hold for every interval of the model and are left out.
\<close>

record MemoryRegionInfo =
  region_base :: nat
  region_size :: nat
  region_used :: nat
  free_blocks :: IntervalSet
  region_locked :: bool

definition Region_Reset :: "icl \<Rightarrow> nat \<Rightarrow> nat \<Rightarrow> MemoryRegionInfo \<Rightarrow> MemoryRegionInfo option" where
  "Region_Reset ops base sz r = do {
     assert_opt (\<not> region_locked r);
     Some (r\<lparr>region_base := base, region_size := sz, region_used := 0,
             free_blocks := icl_add ops [] (base, wrap_u32 (base + sz))\<rparr>)
   }"

text \<open>The loop of \<^verbatim>\<open>HeapAllocate\<close> over the blocks from the highest: the blocks taken and what is still missing.\<close>

fun heap_loop :: "icl \<Rightarrow> IntervalSet \<Rightarrow> nat \<Rightarrow> IntervalSet \<Rightarrow> IntervalSet \<times> nat" where
  "heap_loop ops [] rest result = (result, rest)"
| "heap_loop ops (i # blocks) rest result =
     (if snd i - fst i \<ge> rest then (icl_add ops result (snd i - rest, snd i), 0)
      else heap_loop ops blocks (rest - (snd i - fst i)) (icl_add ops result i))"

definition Region_HeapAllocate :: "icl \<Rightarrow> nat \<Rightarrow> MemoryRegionInfo \<Rightarrow> (IntervalSet \<times> MemoryRegionInfo) option" where
  "Region_HeapAllocate ops sz r = do {
     assert_opt (\<not> region_locked r);
     let (result, rest) = heap_loop ops (rev (free_blocks r)) sz [];
     if rest \<noteq> 0 then Some ([], r)
     else Some (result, r\<lparr>free_blocks := icl_sub_set ops (free_blocks r) result,
                          region_used := wrap_u32 (region_used r + sz)\<rparr>)
   }"

text \<open>What the linear allocations share: take an interval out of the free blocks.\<close>

definition take_block :: "icl \<Rightarrow> Interval \<Rightarrow> nat \<Rightarrow> MemoryRegionInfo \<Rightarrow> MemoryRegionInfo" where
  "take_block ops i sz r = r\<lparr>free_blocks := icl_sub ops (free_blocks r) i, region_used := wrap_u32 (region_used r + sz)\<rparr>"

definition Region_LinearAllocate_at :: "icl \<Rightarrow> nat \<Rightarrow> nat \<Rightarrow> MemoryRegionInfo \<Rightarrow> (bool \<times> MemoryRegionInfo) option" where
  "Region_LinearAllocate_at ops offset sz r = do {
     assert_opt (\<not> region_locked r);
     let interval = (offset, wrap_u32 (offset + sz));
     if \<not> icl_contains ops (free_blocks r) interval then Some (False, r)
     else Some (True, take_block ops interval sz r)
   }"

definition Region_LinearAllocate :: "icl \<Rightarrow> nat \<Rightarrow> MemoryRegionInfo \<Rightarrow> (nat option \<times> MemoryRegionInfo) option" where
  "Region_LinearAllocate ops sz r = do {
     assert_opt (\<not> region_locked r);
     Some (case find (\<lambda>i. snd i - fst i \<ge> sz) (free_blocks r) of
         None \<Rightarrow> (None, r)
       | Some i \<Rightarrow> (Some (fst i), take_block ops (fst i, wrap_u32 (fst i + sz)) sz r))
   }"

definition Region_RLinearAllocate :: "icl \<Rightarrow> nat \<Rightarrow> MemoryRegionInfo \<Rightarrow> (nat option \<times> MemoryRegionInfo) option" where
  "Region_RLinearAllocate ops sz r = do {
     assert_opt (\<not> region_locked r);
     Some (case find (\<lambda>i. snd i - fst i \<ge> sz) (rev (free_blocks r)) of
         None \<Rightarrow> (None, r)
       | Some i \<Rightarrow> (Some (snd i - sz), take_block ops (snd i - sz, snd i) sz r))
   }"

definition Region_Free :: "icl \<Rightarrow> nat \<Rightarrow> nat \<Rightarrow> MemoryRegionInfo \<Rightarrow> MemoryRegionInfo option" where
  "Region_Free ops offset sz r =
     (if region_locked r then Some r
      else let interval = (offset, wrap_u32 (offset + sz)) in do {
        assert_opt (\<not> icl_intersects ops (free_blocks r) interval);
        Some (r\<lparr>free_blocks := icl_add ops (free_blocks r) interval, region_used := sub_u32 (region_used r) sz\<rparr>)
      })"

definition Region_Unlock :: "MemoryRegionInfo \<Rightarrow> MemoryRegionInfo" where
  "Region_Unlock r = r\<lparr>region_locked := False\<rparr>"


text \<open>The regions that \<^verbatim>\<open>MemoryInit\<close> sets up, and what it reports of them in the configuration memory.\<close>

datatype MemoryMode = MM_Prod | MM_Dev1 | MM_Dev2 | MM_Dev3 | MM_Dev4

definition memory_mode_code :: "MemoryMode \<Rightarrow> nat" where
  "memory_mode_code m = (case m of MM_Prod \<Rightarrow> 0 | MM_Dev1 \<Rightarrow> 2 | MM_Dev2 \<Rightarrow> 3 | MM_Dev3 \<Rightarrow> 4 | MM_Dev4 \<Rightarrow> 5)"

datatype New3dsMemoryMode = NM_Legacy | NM_NewProd | NM_NewDev1 | NM_NewDev2

datatype MemoryRegion = APPLICATION | SYSTEM | BASE

definition memory_region_sizes :: "nat list list" where
  "memory_region_sizes =
     [[0x04000000, 0x02C00000, 0x01400000],
      [0, 0, 0],
      [0x06000000, 0x00C00000, 0x01400000],
      [0x05000000, 0x01C00000, 0x01400000],
      [0x04800000, 0x02400000, 0x01400000],
      [0x02000000, 0x04C00000, 0x01400000],
      [0x07C00000, 0x06400000, 0x02000000],
      [0x0B200000, 0x02E00000, 0x02000000]]"

record mem_config =
  app_mem_type :: nat
  app_mem_alloc :: nat
  sys_mem_alloc :: nat
  base_mem_alloc :: nat

text \<open>The index of the layout and the one that is reported.\<close>

definition mem_type :: "bool \<Rightarrow> MemoryMode \<Rightarrow> New3dsMemoryMode \<Rightarrow> nat \<times> nat" where
  "mem_type is_new_3ds mode n3ds_mode =
     (let i = memory_mode_code mode in
      if is_new_3ds then
        if n3ds_mode = NM_NewProd \<or> n3ds_mode = NM_NewDev2 then (6, 6)
        else if n3ds_mode = NM_NewDev1 then (7, 7) else (6, i)
      else (i, i))"

fun reset_regions :: "icl \<Rightarrow> nat \<Rightarrow> nat list \<Rightarrow> MemoryRegionInfo list \<Rightarrow> (MemoryRegionInfo list \<times> nat) option" where
  "reset_regions ops base (sz # sizes) (r # rs) = do {
     r1 \<leftarrow> Region_Reset ops base sz r;
     (rs1, e) \<leftarrow> reset_regions ops (wrap_u32 (base + region_size r1)) sizes rs;
     Some (r1 # rs1, e)
   }"
| "reset_regions ops base _ rs = Some (rs, base)"

definition MemoryInit ::
  "icl \<Rightarrow> bool \<Rightarrow> MemoryMode \<Rightarrow> New3dsMemoryMode \<Rightarrow> MemoryRegionInfo list \<Rightarrow> (MemoryRegionInfo list \<times> mem_config) option" where
  "MemoryInit ops is_new_3ds mode n3ds_mode regions =
     (let (layout, reported) = mem_type is_new_3ds mode n3ds_mode in do {
        (rs, e) \<leftarrow> reset_regions ops 0 (memory_region_sizes ! layout) regions;
        assert_opt (e = (if is_new_3ds then FCRAM_N3DS_SIZE else FCRAM_SIZE));
        Some (rs, \<lparr>app_mem_type = reported, app_mem_alloc = memory_region_sizes ! reported ! 0,
                   sys_mem_alloc = region_size (rs ! 1), base_mem_alloc = region_size (rs ! 2)\<rparr>)
      })"

text \<open>The three regions are the only values of the enumeration; other numbers are unreachable.\<close>

definition GetMemoryRegion :: "MemoryRegion \<Rightarrow> nat" where
  "GetMemoryRegion region = (case region of APPLICATION \<Rightarrow> 0 | SYSTEM \<Rightarrow> 1 | BASE \<Rightarrow> 2)"


section \<open>The free elements of a region\<close>

text \<open>
  \<open>region_inv\<close>: the free blocks lie inside the region and what is not free is accounted for as used.  The
  properties speak of the set of free offsets of a region.
\<close>

definition free_set :: "MemoryRegionInfo \<Rightarrow> nat set" where
  "free_set r = elems (free_blocks r)"

definition region_inv :: "MemoryRegionInfo \<Rightarrow> bool" where
  "region_inv r \<longleftrightarrow> normal (free_blocks r) \<and> region_base r + region_size r < 2 ^ 32 \<and>
     free_set r \<subseteq> {region_base r..<region_base r + region_size r} \<and>
     region_used r + card (free_set r) = region_size r"

lemma region_invD:
  assumes "region_inv r"
  shows "normal (free_blocks r)" "region_base r + region_size r < 2 ^ 32"
    "free_set r \<subseteq> {region_base r..<region_base r + region_size r}" "region_used r + card (free_set r) = region_size r"
  using assms by (simp_all add: region_inv_def)

lemma finite_free_set [simp]: "finite (free_set r)"
  by (simp add: free_set_def)

lemma free_block_bound:
  assumes "region_inv r" "i \<in> set (free_blocks r)"
  shows "fst i < snd i" "snd i < 2 ^ 32" "ivl i \<subseteq> free_set r"
proof -
  show n: "fst i < snd i" using normal_nonempty assms by (blast dest: region_invD(1))
  show sub: "ivl i \<subseteq> free_set r" using assms(2) by (auto simp: free_set_def elems_def)
  have "snd i - 1 \<in> ivl i" using n by simp
  then have "snd i - 1 < region_base r + region_size r" using sub region_invD(3) [OF assms(1)] by fastforce
  then show "snd i < 2 ^ 32" using region_invD(2) [OF assms(1)] by simp
qed

lemma fits_iff:
  assumes "normal s" "0 < n"
  shows "{a..<a + n} \<subseteq> elems s \<longleftrightarrow> (\<exists>j \<in> set s. fst j \<le> a \<and> a + n \<le> snd j)"
  using normal_contains [OF assms(1), of "(a, a + n)"] assms(2) by (auto simp: list_ex_iff ivl_def)

text \<open>The first block that is large enough starts at the least offset with room, the last one ends at the greatest.\<close>

lemma first_fit:
  assumes "normal s" "0 < n"
  shows "(case find (\<lambda>i. snd i - fst i \<ge> n) s of
      None \<Rightarrow> (\<forall>a. \<not> {a..<a + n} \<subseteq> elems s)
    | Some i \<Rightarrow> i \<in> set s \<and> n \<le> snd i - fst i \<and> (\<forall>a. {a..<a + n} \<subseteq> elems s \<longrightarrow> fst i \<le> a))"
  using assms
proof (induction s)
  case Nil
  then show ?case by simp
next
  case (Cons i s)
  have n: "fst i < snd i" "normal s" using Cons.prems(1) by simp_all
  have "fst i \<le> a" if "{a..<a + n} \<subseteq> elems (i # s)" for a
    using normal_head(2) [OF Cons.prems(1)] that Cons.prems(2) by (meson atLeastLessThan_iff le_refl less_add_same_cancel1 subsetD)
  moreover have "{a..<a + n} \<subseteq> elems (i # s) \<longleftrightarrow> {a..<a + n} \<subseteq> elems s" if "\<not> n \<le> snd i - fst i" for a
    using that unfolding fits_iff [OF Cons.prems] fits_iff [OF n(2) Cons.prems(2)] by auto
  ultimately show ?case using Cons.IH [OF n(2) Cons.prems(2)]
    by (cases "n \<le> snd i - fst i") (auto simp del: elems_simps split: option.splits)
qed

lemma last_fit:
  assumes "normal s" "0 < n"
  shows "(case find (\<lambda>i. snd i - fst i \<ge> n) (rev s) of
      None \<Rightarrow> (\<forall>a. \<not> {a..<a + n} \<subseteq> elems s)
    | Some i \<Rightarrow> i \<in> set s \<and> n \<le> snd i - fst i \<and> (\<forall>a. {a..<a + n} \<subseteq> elems s \<longrightarrow> a + n \<le> snd i))"
  using assms
proof (induction s rule: rev_induct)
  case Nil
  then show ?case by simp
next
  case (snoc i s)
  have n: "normal s" "fst i < snd i" "\<forall>j \<in> set s. snd j < fst i" using snoc.prems(1) by (simp_all add: normal_append)
  note f = fits_iff [OF snoc.prems] and f' = fits_iff [OF n(1) snoc.prems(2)]
  have "a + n \<le> snd i" if "{a..<a + n} \<subseteq> elems (s @ [i])" for a
    using that n(2,3) unfolding f by force
  moreover have "{a..<a + n} \<subseteq> elems (s @ [i]) \<longleftrightarrow> {a..<a + n} \<subseteq> elems s" if "\<not> n \<le> snd i - fst i" for a
    using that unfolding f f' by auto
  ultimately show ?case using snoc.IH [OF n(1) snoc.prems(2)]
    by (cases "n \<le> snd i - fst i") (auto simp del: elems_simps split: option.splits)
qed

text \<open>The free offsets, the bounds and the lock determine a consistent region.\<close>

lemma region_eqI:
  assumes "region_inv r" "region_inv s" "region_base r = region_base s" "region_size r = region_size s"
    "region_locked r = region_locked s" "free_set r = free_set s"
  shows "r = s"
proof -
  have "free_blocks r = free_blocks s"
    using normal_unique assms(1,2,6) by (auto simp: free_set_def dest: region_invD(1))
  moreover have "region_used r = region_used s"
    using region_invD(4) [OF assms(1)] region_invD(4) [OF assms(2)] assms(4,6) by simp
  ultimately show ?thesis using assms by (cases r, cases s) simp
qed

lemma used_card:
  assumes "region_inv r" "A \<subseteq> free_set r"
  shows "region_used r + card A + card (free_set r - A) = region_size r" "card A \<le> card (free_set r)"
proof -
  have "finite A" using assms(2) finite_free_set finite_subset by blast
  then show "region_used r + card A + card (free_set r - A) = region_size r" "card A \<le> card (free_set r)"
    using card_Diff_subset [OF _ assms(2)] card_mono [OF finite_free_set assms(2)] region_invD(4) [OF assms(1)] by simp_all
qed

context interval_sets
begin

lemma heap_loop_spec:
  assumes "normal (rev bs)" "normal res"
  shows "snd (heap_loop ops bs rest res) = rest - card (elems bs)" "normal (fst (heap_loop ops bs rest res))"
    "rest \<le> card (elems bs) \<Longrightarrow> \<exists>D \<subseteq> elems bs. elems (fst (heap_loop ops bs rest res)) = elems res \<union> D \<and>
       card D = rest \<and> (\<forall>x \<in> elems bs - D. \<forall>y \<in> D. x < y)"
  using assms
proof (induction bs arbitrary: rest res)
  case Nil
  case 1 show ?case by simp
  case 2 then show ?case by simp
  case 3 then show ?case by simp
next
  case (Cons i bs)
  have split: "normal (rev bs)" "fst i < snd i" "\<forall>x \<in> elems bs. x < fst i"
    if "normal (rev (i # bs))"
    using that by (auto simp: normal_append elems_def dest: order.strict_trans)
  have card: "card (elems (i # bs)) = (snd i - fst i) + card (elems bs)" if "normal (rev (i # bs))"
  proof -
    have "ivl i \<inter> elems bs = {}" using split(3) [OF that] by fastforce
    then show ?thesis by (simp add: card_Un_disjoint)
  qed
  {
    case 1
    then show ?case using Cons.IH(1) [OF split(1) [OF 1(1)] add_normal] card [OF 1(1)] by (auto simp del: elems_simps)
  next
    case 2
    then show ?case using Cons.IH(2) [OF split(1) [OF 2(1)] add_normal] by (simp add: add_normal)
  next
    case 3
    note sp = split [OF 3(2)]
    show ?case
    proof (cases "rest \<le> snd i - fst i")
      case True
      let ?D = "ivl (snd i - rest, snd i)"
      have "?D \<subseteq> elems (i # bs)" using True by auto
      moreover have "x < y" if "x \<in> elems (i # bs) - ?D" "y \<in> ?D" for x y
        using that sp(2,3) True by auto
      moreover have "card ?D = rest" using True by simp
      moreover have "elems (fst (heap_loop ops (i # bs) rest res)) = elems res \<union> ?D"
        using True by (simp add: add_elems [OF 3(3)])
      ultimately show ?thesis by blast
    next
      case False
      have le: "rest - (snd i - fst i) \<le> card (elems bs)" using 3(1) card [OF 3(2)] by simp
      obtain D where D: "D \<subseteq> elems bs" "card D = rest - (snd i - fst i)" "\<forall>x \<in> elems bs - D. \<forall>y \<in> D. x < y"
        "elems (fst (heap_loop ops bs (rest - (snd i - fst i)) (icl_add ops res i))) = elems (icl_add ops res i) \<union> D"
        using Cons.IH(3) [OF le sp(1) add_normal [OF 3(3), of i]] by auto
      have "ivl i \<inter> D = {}" using D(1) sp(3) by fastforce
      moreover have "finite D" using D(1) finite_elems finite_subset by blast
      ultimately have "card (ivl i \<union> D) = rest" using D(2) False by (simp add: card_Un_disjoint)
      moreover have "x < y" if "x \<in> elems (i # bs) - (ivl i \<union> D)" "y \<in> ivl i \<union> D" for x y
        using that D(3) sp(3) by fastforce
      moreover have "elems (fst (heap_loop ops (i # bs) rest res)) = elems res \<union> (ivl i \<union> D)"
        using D(4) False by (simp add: add_elems [OF 3(3)] Un_assoc)
      moreover have "ivl i \<union> D \<subseteq> elems (i # bs)" using D(1) by auto
      ultimately show ?thesis by blast
    qed
  }
qed

lemma heap_allocate:
  assumes "region_inv r" "\<not> region_locked r" "sz \<le> card (free_set r)"
  obtains A r' where "Region_HeapAllocate ops sz r = Some (A, r')" "region_inv r'" "normal A" "elems A \<subseteq> free_set r"
    "card (elems A) = sz" "free_set r' = free_set r - elems A" "\<forall>x \<in> free_set r'. \<forall>y \<in> elems A. x < y"
    "region_base r' = region_base r" "region_size r' = region_size r" "\<not> region_locked r'"
proof -
  note n = region_invD(1) [OF assms(1)]
  have n': "normal (rev (rev (free_blocks r)))" using n by simp
  obtain A where A: "heap_loop ops (rev (free_blocks r)) sz [] = (A, 0)" "normal A" "elems A \<subseteq> free_set r"
    "card (elems A) = sz" "\<forall>x \<in> free_set r - elems A. \<forall>y \<in> elems A. x < y"
    using heap_loop_spec [OF n', of "[]" sz] assms(3) by (auto simp: free_set_def prod_eq_iff)
  define r' where "r' = r\<lparr>free_blocks := icl_sub_set ops (free_blocks r) A, region_used := wrap_u32 (region_used r + sz)\<rparr>"
  have f: "free_set r' = free_set r - elems A" "normal (free_blocks r')"
    using sub_set [OF n] by (simp_all add: r'_def free_set_def)
  have u: "region_used r + sz + card (free_set r - elems A) = region_size r"
    using used_card(1) [OF assms(1) A(3)] A(4) by simp
  then have "region_used r' = region_used r + sz" using region_invD(2) [OF assms(1)] by (simp add: r'_def)
  then have "region_inv r'"
    using f u region_invD(2,3) [OF assms(1)] by (auto simp: region_inv_def r'_def free_set_def)
  then show thesis
    using that [of A r'] A f assms(2) by (simp add: Region_HeapAllocate_def r'_def)
qed

lemma heap_allocate_fails:
  assumes "region_inv r" "\<not> region_locked r" "card (free_set r) < sz"
  shows "Region_HeapAllocate ops sz r = Some ([], r)"
  using heap_loop_spec(1) [of "rev (free_blocks r)" "[]" sz] region_invD(1) [OF assms(1)] assms(2,3)
  by (auto simp: Region_HeapAllocate_def free_set_def case_prod_beta)

lemma take_block:
  assumes "region_inv r" "ivl (a, a + n) \<subseteq> free_set r"
  shows "region_inv (take_block ops (a, a + n) n r)" "free_set (take_block ops (a, a + n) n r) = free_set r - {a..<a + n}"
    "region_used (take_block ops (a, a + n) n r) = region_used r + n"
proof -
  note n = region_invD(1) [OF assms(1)]
  show f: "free_set (take_block ops (a, a + n) n r) = free_set r - {a..<a + n}"
    by (simp add: take_block_def free_set_def sub_elems [OF n] ivl_def)
  have u: "region_used r + n + card (free_set r - {a..<a + n}) = region_size r"
    using used_card(1) [OF assms] by (simp add: ivl_def)
  then show u': "region_used (take_block ops (a, a + n) n r) = region_used r + n"
    using region_invD(2) [OF assms(1)] by (simp add: take_block_def)
  show "region_inv (take_block ops (a, a + n) n r)"
    using f u u' region_invD(2,3) [OF assms(1)] sub_normal [OF n] by (auto simp: region_inv_def take_block_def)
qed

lemma free:
  assumes "region_inv r" "\<not> region_locked r" "{a..<a + n} \<inter> free_set r = {}"
    "{a..<a + n} \<subseteq> {region_base r..<region_base r + region_size r}" "0 < n"
  obtains r' where "Region_Free ops a n r = Some r'" "region_inv r'" "free_set r' = free_set r \<union> {a..<a + n}"
    "region_base r' = region_base r" "region_size r' = region_size r" "\<not> region_locked r'"
proof -
  note nf = region_invD(1) [OF assms(1)]
  have "a + n - 1 < region_base r + region_size r" using assms(4,5) by (simp add: subset_iff)
  then have w: "wrap_u32 (a + n) = a + n" using region_invD(2) [OF assms(1)] by simp
  define r' where "r' = r\<lparr>free_blocks := icl_add ops (free_blocks r) (a, a + n), region_used := sub_u32 (region_used r) n\<rparr>"
  have f: "free_set r' = free_set r \<union> {a..<a + n}" "normal (free_blocks r')"
    using add_normal [OF nf] by (simp_all add: r'_def free_set_def add_elems [OF nf] ivl_def)
  have c: "card (free_set r') = card (free_set r) + n" using assms(3) by (simp add: f card_Un_disjoint Int_commute)
  have "card (free_set r') \<le> card {region_base r..<region_base r + region_size r}"
    using assms(4) region_invD(3) [OF assms(1)] f(1) by (intro card_mono) auto
  then have "n \<le> region_used r" "region_used r < 2 ^ 32" using c region_invD(2,4) [OF assms(1)] by simp_all
  then have "region_used r' + n = region_used r" by (simp add: r'_def sub_u32_le)
  then have "region_inv r'"
    using f c region_invD(2,3,4) [OF assms(1)] assms(4) by (auto simp: region_inv_def r'_def free_set_def)
  then show thesis
    using that [of r'] f assms(2,3) w
    by (simp add: Region_Free_def intersects [OF nf] r'_def ivl_def free_set_def)
qed

lemma free_taken:
  assumes "region_inv r" "\<not> region_locked r" "ivl (a, a + n) \<subseteq> free_set r" "0 < n"
  shows "Region_Free ops a n (take_block ops (a, a + n) n r) = Some r"
proof -
  let ?r = "take_block ops (a, a + n) n r"
  note t = take_block [OF assms(1,3)]
  have f: "region_base ?r = region_base r" "region_size ?r = region_size r" "\<not> region_locked ?r"
    using assms(2) by (simp_all add: take_block_def)
  have "{a..<a + n} \<inter> free_set ?r = {}" "{a..<a + n} \<subseteq> {region_base ?r..<region_base ?r + region_size ?r}"
    using t(2) f(1,2) subset_trans [OF assms(3) region_invD(3) [OF assms(1)]] by (auto simp: ivl_def simp del: ivl_subset)
  from free [OF t(1) f(3) this assms(4)] obtain s where s: "Region_Free ops a n ?r = Some s" "region_inv s"
    "free_set s = free_set ?r \<union> {a..<a + n}" "region_base s = region_base ?r" "region_size s = region_size ?r" "\<not> region_locked s"
    by blast
  then have "s = r" using assms f t(2) by (intro region_eqI) (auto simp: ivl_def)
  then show ?thesis using s(1) by simp
qed

lemma free_all:
  assumes "region_inv r" "\<not> region_locked r" "elems A \<inter> free_set r = {}" "normal A"
    "elems A \<subseteq> {region_base r..<region_base r + region_size r}"
  shows "\<exists>r'. fold_opt (\<lambda>i. Region_Free ops (fst i) (snd i - fst i)) A r = Some r' \<and> region_inv r' \<and>
    free_set r' = free_set r \<union> elems A \<and> region_base r' = region_base r \<and> region_size r' = region_size r \<and> \<not> region_locked r'"
  using assms
proof (induction A arbitrary: r)
  case (Cons i A)
  have i: "fst i + (snd i - fst i) = snd i" "0 < snd i - fst i" "normal A" using Cons.prems(4) by simp_all
  have ivl: "ivl i = {fst i..<fst i + (snd i - fst i)}" using i(1) by (simp add: ivl_def)
  have d: "{fst i..<fst i + (snd i - fst i)} \<inter> free_set r = {}"
    "{fst i..<fst i + (snd i - fst i)} \<subseteq> {region_base r..<region_base r + region_size r}"
    using Cons.prems(3,5) unfolding ivl [symmetric] by auto
  obtain r1 where r1: "Region_Free ops (fst i) (snd i - fst i) r = Some r1" "region_inv r1"
    "free_set r1 = free_set r \<union> ivl i" "region_base r1 = region_base r" "region_size r1 = region_size r" "\<not> region_locked r1"
    using free [OF Cons.prems(1,2) d i(2), folded ivl] by blast
  have "elems A \<inter> free_set r1 = {}"
    using Cons.prems(3) normal_disjoint [OF Cons.prems(4)] r1(3) by auto
  then show ?case using Cons.IH [OF r1(2,6) _ i(3)] r1 Cons.prems(5) by auto
qed simp

end


section \<open>Whole pages\<close>

text \<open>Sets that contain a page as a whole or not at all; the blocks of such a set begin and end at pages.\<close>

definition paged :: "nat set \<Rightarrow> bool" where
  "paged S \<longleftrightarrow> (\<forall>x y. x div CITRA_PAGE_SIZE = y div CITRA_PAGE_SIZE \<longrightarrow> (x \<in> S \<longleftrightarrow> y \<in> S))"

definition aligned_ivl :: "Interval \<Rightarrow> bool" where
  "aligned_ivl i \<longleftrightarrow> CITRA_PAGE_SIZE dvd fst i \<and> CITRA_PAGE_SIZE dvd snd i"

lemma page_size_pos [simp]: "0 < CITRA_PAGE_SIZE" "CITRA_PAGE_SIZE \<noteq> 0"
  by (simp_all add: CITRA_PAGE_SIZE_def)

lemma page_div_le: "CITRA_PAGE_SIZE dvd a \<Longrightarrow> a \<le> x \<longleftrightarrow> a div CITRA_PAGE_SIZE \<le> x div CITRA_PAGE_SIZE"
  by (auto elim!: dvdE simp: less_eq_div_iff_mult_less_eq mult.commute)

lemma paged_ops: "paged S \<Longrightarrow> paged T \<Longrightarrow> paged (S \<union> T)" "paged S \<Longrightarrow> paged T \<Longrightarrow> paged (S - T)" "paged {}"
  unfolding paged_def by blast+

lemma paged_ivl: "aligned_ivl i \<Longrightarrow> paged (ivl i)"
  by (auto simp: paged_def aligned_ivl_def ivl_def page_div_le not_le [symmetric])

lemma paged_elems: "list_all aligned_ivl s \<Longrightarrow> paged (elems s)"
  by (induction s) (auto intro: paged_ops paged_ivl)

lemma pred_page: "\<not> CITRA_PAGE_SIZE dvd x \<Longrightarrow> (x - 1) div CITRA_PAGE_SIZE = x div CITRA_PAGE_SIZE"
  by (cases x) (simp_all add: div_Suc dvd_eq_mod_eq_0)

lemma normal_aligned:
  assumes "normal s" "paged (elems s)"
  shows "list_all aligned_ivl s"
  using assms
proof (induction s)
  case (Cons i s)
  note h = normal_head [OF Cons.prems(1)]
  have i: "fst i < snd i" using Cons.prems(1) by simp
  have pg: "x \<in> elems (i # s) \<longleftrightarrow> y \<in> elems (i # s)" if "x div CITRA_PAGE_SIZE = y div CITRA_PAGE_SIZE" for x y
    using Cons.prems(2) that unfolding paged_def by blast
  have lo: "CITRA_PAGE_SIZE dvd fst i"
  proof (rule ccontr)
    assume n: "\<not> CITRA_PAGE_SIZE dvd fst i"
    then have "fst i \<noteq> 0" by (metis dvd_0_right)
    moreover have "fst i - 1 \<in> elems (i # s)" using pg [OF pred_page [OF n]] h(1) by blast
    ultimately show False using h(2) by (metis Suc_pred' less_irrefl not_gr0 Suc_le_lessD)
  qed
  have hi: "CITRA_PAGE_SIZE dvd snd i"
  proof (rule ccontr)
    assume n: "\<not> CITRA_PAGE_SIZE dvd snd i"
    have "fst i \<le> snd i - 1" "snd i - 1 < snd i" using i by linarith+
    then have "snd i - 1 \<in> elems (i # s)" using h(4) by blast
    then show False using pg [OF pred_page [OF n]] h(3) by blast
  qed
  have "aligned_ivl i" using lo hi by (simp add: aligned_ivl_def)
  moreover have "paged (elems s)"
  proof -
    have "elems s = elems (i # s) - ivl i" using normal_disjoint [OF Cons.prems(1)] by auto
    then show ?thesis using paged_ops(2) [OF Cons.prems(2) paged_ivl [OF \<open>aligned_ivl i\<close>]] by simp
  qed
  ultimately show ?case using Cons.IH Cons.prems(1) by simp
qed simp

context interval_sets
begin

lemma heap_loop_paged:
  assumes "list_all aligned_ivl bs" "list_all (\<lambda>i. fst i < snd i) bs" "CITRA_PAGE_SIZE dvd rest" "paged (elems res)" "normal res"
  shows "paged (elems (fst (heap_loop ops bs rest res)))"
  using assms
proof (induction bs arbitrary: rest res)
  case (Cons i bs)
  show ?case
  proof (cases "rest \<le> snd i - fst i")
    case True
    have "aligned_ivl (snd i - rest, snd i)" using Cons.prems(1,3) by (simp add: aligned_ivl_def dvd_diff_nat)
    then show ?thesis using True Cons.prems(4) by (simp add: add_elems [OF Cons.prems(5)] paged_ops paged_ivl)
  next
    case False
    have "CITRA_PAGE_SIZE dvd rest - (snd i - fst i)" using Cons.prems(1,3) by (simp add: aligned_ivl_def dvd_diff_nat)
    moreover have "paged (elems (icl_add ops res i))"
      using Cons.prems(1,4) by (simp add: add_elems [OF Cons.prems(5)] paged_ops paged_ivl)
    ultimately show ?thesis using Cons.IH [of "rest - (snd i - fst i)" "icl_add ops res i"] Cons.prems False add_normal by simp
  qed
qed simp

lemma heap_allocate_paged:
  assumes "region_inv r" "\<not> region_locked r" "paged (free_set r)" "CITRA_PAGE_SIZE dvd sz" "sz \<le> card (free_set r)"
    "Region_HeapAllocate ops sz r = Some (A, r')"
  shows "list_all aligned_ivl A" "paged (free_set r')"
proof -
  note n = region_invD(1) [OF assms(1)]
  have al: "list_all aligned_ivl (rev (free_blocks r))" "list_all (\<lambda>i. fst i < snd i) (rev (free_blocks r))"
    using normal_aligned [OF n] assms(3) normal_nonempty [OF n] by (simp_all add: free_set_def list_all_iff)
  have "snd (heap_loop ops (rev (free_blocks r)) sz []) = 0"
    using heap_loop_spec(1) [of "rev (free_blocks r)" "[]" sz] n assms(5) by (simp add: free_set_def)
  then have A: "A = fst (heap_loop ops (rev (free_blocks r)) sz [])"
    using assms(2,6) by (auto simp: Region_HeapAllocate_def case_prod_beta)
  have pA: "paged (elems A)" unfolding A by (rule heap_loop_paged [OF al assms(4)]) (simp_all add: paged_ops)
  moreover have "normal A" unfolding A using heap_loop_spec(2) [of "rev (free_blocks r)" "[]"] n by simp
  ultimately show "list_all aligned_ivl A" by (intro normal_aligned)
  obtain A' r'' where "Region_HeapAllocate ops sz r = Some (A', r'')" "free_set r'' = free_set r - elems A'"
    using heap_allocate [OF assms(1,2,5)] by metis
  then show "paged (free_set r')" using assms(6) paged_ops(2) [OF assms(3) pA] by simp
qed

end

text \<open>A region right after it was reset.\<close>

definition whole_region :: "nat \<Rightarrow> nat \<Rightarrow> MemoryRegionInfo \<Rightarrow> bool" where
  "whole_region base sz r \<longleftrightarrow> region_inv r \<and> region_used r = 0 \<and> region_base r = base \<and> region_size r = sz \<and>
     free_set r = {base..<base + sz}"

context interval_sets
begin

lemma reset:
  assumes "\<not> region_locked r" "base + sz < 2 ^ 32"
  shows "\<exists>r'. Region_Reset ops base sz r = Some r' \<and> whole_region base sz r'"
  using assms add_normal [of "[]"] add_elems [of "[]"]
  by (simp add: Region_Reset_def whole_region_def region_inv_def free_set_def ivl_def)

end

lemma layout_sizes:
  "\<exists>x y z. memory_region_sizes ! fst (mem_type is_new mode n3ds) = [x, y, z] \<and>
     x + y + z = (if is_new then FCRAM_N3DS_SIZE else FCRAM_SIZE) \<and>
     (\<not> is_new \<or> n3ds \<noteq> NM_Legacy \<longrightarrow> memory_region_sizes ! snd (mem_type is_new mode n3ds) ! 0 = x)"
  by (cases is_new; cases mode; cases n3ds)
    (simp_all add: mem_type_def memory_mode_code_def memory_region_sizes_def FCRAM_SIZE_def FCRAM_N3DS_SIZE_def)


section \<open>Properties\<close>

definition demo_region :: MemoryRegionInfo where
  "demo_region = \<lparr>region_base = 0x1000, region_size = 0x5000, region_used = 0x2000,
                  free_blocks = [(0x1000, 0x2000), (0x4000, 0x6000)], region_locked = False\<rparr>"

lemma demo_region_inv [simp]: "region_inv demo_region" "\<not> region_locked demo_region"
proof -
  have "card ({0x1000..<0x2000} \<union> {0x4000..<0x6000::nat}) = 0x3000"
    by (subst card_Un_disjoint) auto
  then show "region_inv demo_region" by (auto simp: region_inv_def demo_region_def free_set_def ivl_def)
qed (simp add: demo_region_def)

text \<open>C15: Allocating a heap takes the highest free offsets.  It succeeds exactly if the region has as many free offsets as
  requested; then the blocks it returns are exactly that many free offsets, every one of them above every offset that
  stays free, and they are no longer free.  Otherwise it returns no block and changes nothing.\<close>

theorem region_heap_allocate:
  assumes "interval_sets ops" and "region_inv r" and "\<not> region_locked r"
  shows "if sz \<le> card (free_set r) then
      \<exists>A r'. Region_HeapAllocate ops sz r = Some (A, r') \<and> region_inv r' \<and> normal A \<and> card (elems A) = sz \<and>
        elems A \<subseteq> free_set r \<and> free_set r' = free_set r - elems A \<and> (\<forall>x \<in> free_set r'. \<forall>y \<in> elems A. x < y) \<and>
        region_used r' = region_used r + sz
    else Region_HeapAllocate ops sz r = Some ([], r)"
proof (cases "sz \<le> card (free_set r)")
  case True
  obtain A r' where A: "Region_HeapAllocate ops sz r = Some (A, r')" "region_inv r'" "normal A" "elems A \<subseteq> free_set r"
    "card (elems A) = sz" "free_set r' = free_set r - elems A" "\<forall>x \<in> free_set r'. \<forall>y \<in> elems A. x < y"
    "region_size r' = region_size r"
    using interval_sets.heap_allocate [OF assms True] by metis
  moreover have "region_used r' = region_used r + sz"
    using used_card(1) [OF assms(2) A(4)] region_invD(4) [OF A(2)] A(5,6,8) by simp
  ultimately show ?thesis using True by auto
qed (simp add: interval_sets.heap_allocate_fails [OF assms])

theorem region_heap_allocate_witness:
  "\<exists>A r'. Region_HeapAllocate list_icl 0x2800 demo_region = Some (A, r') \<and> card (elems A) = 0x2800 \<and>
     region_used r' = 0x4800"
proof -
  have "0x2800 \<le> card (free_set demo_region)"
    using region_invD(4) [OF demo_region_inv(1)] by (simp add: demo_region_def)
  then show ?thesis
    using region_heap_allocate [OF li.interval_sets_axioms demo_region_inv, where sz = "0x2800"] by (auto simp: demo_region_def)
qed

text \<open>Linear allocation is first fit from either end.  A request for at least one byte succeeds exactly if the
  requested number of consecutive offsets is free somewhere; \<^verbatim>\<open>LinearAllocate\<close> returns the least offset at which it fits and
  \<^verbatim>\<open>RLinearAllocate\<close> the greatest, and exactly the offsets of the block stop being free.\<close>

theorem region_linear_first_fit:
  assumes "interval_sets ops" and "region_inv r" and "\<not> region_locked r" and "0 < sz"
  defines "fits a \<equiv> {a..<a + sz} \<subseteq> free_set r"
  shows "if \<exists>a. fits a then
      (\<exists>r1 r2. Region_LinearAllocate ops sz r = Some (Some (LEAST a. fits a), r1) \<and> region_inv r1 \<and>
         free_set r1 = free_set r - {(LEAST a. fits a)..<(LEAST a. fits a) + sz} \<and>
       Region_RLinearAllocate ops sz r = Some (Some (GREATEST a. fits a), r2) \<and> region_inv r2 \<and>
         free_set r2 = free_set r - {(GREATEST a. fits a)..<(GREATEST a. fits a) + sz})
    else Region_LinearAllocate ops sz r = Some (None, r) \<and> Region_RLinearAllocate ops sz r = Some (None, r)"
proof -
  note n = region_invD(1) [OF assms(2)]
  note ff = first_fit [OF n assms(4)] and lf = last_fit [OF n assms(4)]
  have fits: "fits a \<longleftrightarrow> {a..<a + sz} \<subseteq> elems (free_blocks r)" for a by (simp add: fits_def free_set_def)
  show ?thesis
  proof (cases "\<exists>a. fits a")
    case True
    obtain i where i: "find (\<lambda>i. snd i - fst i \<ge> sz) (free_blocks r) = Some i" "i \<in> set (free_blocks r)"
      "sz \<le> snd i - fst i" "\<forall>a. fits a \<longrightarrow> fst i \<le> a"
      using ff True unfolding fits by (auto split: option.splits)
    obtain j where j: "find (\<lambda>i. snd i - fst i \<ge> sz) (rev (free_blocks r)) = Some j" "j \<in> set (free_blocks r)"
      "sz \<le> snd j - fst j" "\<forall>a. fits a \<longrightarrow> a + sz \<le> snd j"
      using lf True unfolding fits by (auto split: option.splits)
    note bi = free_block_bound [OF assms(2) i(2)] and bj = free_block_bound [OF assms(2) j(2)]
    have fi: "fits (fst i)" and fj: "fits (snd j - sz)"
      using i(3) bi(3) j(3) bj(3) by (auto simp: fits_def subset_iff)
    have L: "(LEAST a. fits a) = fst i" using fi i(4) by (intro Least_equality) auto
    have G: "(GREATEST a. fits a) = snd j - sz" using fj j(4) by (intro Greatest_equality) fastforce+
    have e: "wrap_u32 (fst i + sz) = fst i + sz" "snd j - sz + sz = snd j" using i(3) bi(1,2) j(3) bj(1) by simp_all
    have "ivl (fst i, fst i + sz) \<subseteq> free_set r" "ivl (snd j - sz, snd j - sz + sz) \<subseteq> free_set r"
      using fi fj by (simp_all add: fits_def ivl_def)
    from interval_sets.take_block(1,2) [OF assms(1,2) this(1)] interval_sets.take_block(1,2) [OF assms(1,2) this(2)]
    show ?thesis
      unfolding L G using True assms(3) i(1) j(1) e
      by (simp add: Region_LinearAllocate_def Region_RLinearAllocate_def)
  next
    case False
    have no: "\<not> sz \<le> snd i - fst i" if "i \<in> set (free_blocks r)" for i
    proof
      assume "sz \<le> snd i - fst i"
      then have "fits (fst i)" using free_block_bound(3) [OF assms(2) that] by (auto simp: fits_def subset_iff)
      then show False using False by blast
    qed
    have "find (\<lambda>i. snd i - fst i \<ge> sz) (free_blocks r) = None" "find (\<lambda>i. snd i - fst i \<ge> sz) (rev (free_blocks r)) = None"
      using no by (auto simp: find_None_iff)
    then show ?thesis
      using False assms(3) by (simp add: Region_LinearAllocate_def Region_RLinearAllocate_def)
  qed
qed

theorem region_linear_first_fit_witness:
  "\<exists>a r1. Region_LinearAllocate list_icl 0x1800 demo_region = Some (Some a, r1) \<and> region_inv r1"
proof -
  have "\<exists>a. {a..<a + 0x1800} \<subseteq> free_set demo_region"
    by (intro exI [of _ "0x4000"]) (auto simp: free_set_def demo_region_def)
  then show ?thesis
    using region_linear_first_fit [OF li.interval_sets_axioms demo_region_inv, where sz = "0x1800"] by auto
qed

text \<open>C32: Freeing what was allocated restores the region.  After an allocation of a heap, freeing its blocks
  one after the other gives back the region as it was; the same holds for a linear block, at a given offset
  or at the first fit.  Freeing offsets of which some are free trips the assertion.\<close>

theorem region_alloc_free_roundtrip:
  assumes "interval_sets ops" and "region_inv r" and "\<not> region_locked r"
  shows "(Region_HeapAllocate ops sz r = Some (A, r') \<and> A \<noteq> [] \<longrightarrow>
      fold_opt (\<lambda>i. Region_Free ops (fst i) (snd i - fst i)) A r' = Some r) \<and>
    (Region_LinearAllocate_at ops a sz r = Some (True, r') \<and> 0 < sz \<and> a + sz < 2 ^ 32 \<longrightarrow> Region_Free ops a sz r' = Some r) \<and>
    (Region_LinearAllocate ops sz r = Some (Some a, r') \<and> 0 < sz \<longrightarrow> Region_Free ops a sz r' = Some r) \<and>
    (a + sz < 2 ^ 32 \<and> {a..<a + sz} \<inter> free_set r \<noteq> {} \<longrightarrow> Region_Free ops a sz r = None)"
proof (intro conjI impI)
  note n = region_invD(1) [OF assms(2)]
  assume h: "Region_HeapAllocate ops sz r = Some (A, r') \<and> A \<noteq> []"
  then have "sz \<le> card (free_set r)" using interval_sets.heap_allocate_fails [OF assms, of sz] by fastforce
  then have r': "region_inv r'" "normal A" "elems A \<subseteq> free_set r" "free_set r' = free_set r - elems A"
    "region_base r' = region_base r" "region_size r' = region_size r" "\<not> region_locked r'"
    using interval_sets.heap_allocate [OF assms, of sz] h by (metis option.inject prod.inject)+
  have "elems A \<inter> free_set r' = {}" "elems A \<subseteq> {region_base r'..<region_base r' + region_size r'}"
    using r'(3-6) region_invD(3) [OF assms(2)] by auto
  from interval_sets.free_all [OF assms(1) r'(1,7) this(1) r'(2) this(2)]
  obtain s where s: "fold_opt (\<lambda>i. Region_Free ops (fst i) (snd i - fst i)) A r' = Some s" "region_inv s"
    "free_set s = free_set r' \<union> elems A" "region_base s = region_base r'" "region_size s = region_size r'" "\<not> region_locked s"
    by blast
  then have "s = r" using r'(3-6) assms(2,3) by (intro region_eqI) auto
  then show "fold_opt (\<lambda>i. Region_Free ops (fst i) (snd i - fst i)) A r' = Some r" using s(1) by simp
next
  assume h: "Region_LinearAllocate_at ops a sz r = Some (True, r') \<and> 0 < sz \<and> a + sz < 2 ^ 32"
  then have "ivl (a, a + sz) \<subseteq> free_set r" "r' = take_block ops (a, a + sz) sz r"
    using assms(3) interval_sets.contains [OF assms(1) region_invD(1) [OF assms(2)]]
    by (auto simp: Region_LinearAllocate_at_def free_set_def Let_def split: if_splits)
  then show "Region_Free ops a sz r' = Some r" using interval_sets.free_taken [OF assms] h by simp
next
  assume h: "Region_LinearAllocate ops sz r = Some (Some a, r') \<and> 0 < sz"
  then obtain i where i: "find (\<lambda>i. snd i - fst i \<ge> sz) (free_blocks r) = Some i" "a = fst i"
    "r' = take_block ops (fst i, wrap_u32 (fst i + sz)) sz r"
    using assms(3) by (auto simp: Region_LinearAllocate_def split: option.splits)
  then have i': "i \<in> set (free_blocks r)" "snd i - fst i \<ge> sz" by (auto simp: find_Some_iff)
  note b = free_block_bound [OF assms(2) i'(1)]
  have "ivl (a, a + sz) \<subseteq> free_set r" "r' = take_block ops (a, a + sz) sz r" using b i(2,3) i'(2) by (auto simp: subset_iff)
  then show "Region_Free ops a sz r' = Some r" using interval_sets.free_taken [OF assms] h by simp
next
  assume "a + sz < 2 ^ 32 \<and> {a..<a + sz} \<inter> free_set r \<noteq> {}"
  then show "Region_Free ops a sz r = None"
    using assms(3) interval_sets.intersects [OF assms(1) region_invD(1) [OF assms(2)]]
    by (simp add: Region_Free_def ivl_def free_set_def)
qed

theorem region_alloc_free_roundtrip_witness:
  "Region_Free list_icl 0x4800 0x800 demo_region = None \<and>
   Option.bind (Region_LinearAllocate_at list_icl 0x4000 0x1800 demo_region) (\<lambda>(_, r'). Region_Free list_icl 0x4000 0x1800 r') =
     Some demo_region"
proof -
  have "{0x4800..<0x4800 + 0x800} \<inter> free_set demo_region \<noteq> {}"
    by (auto simp: free_set_def demo_region_def ivl_def disjoint_iff intro!: exI [of _ "0x4800"])
  moreover obtain r' where "Region_LinearAllocate_at list_icl 0x4000 0x1800 demo_region = Some (True, r')"
    by (simp add: Region_LinearAllocate_at_def demo_region_def list_icl_def)
  ultimately show ?thesis
    using region_alloc_free_roundtrip [OF li.interval_sets_axioms demo_region_inv, of "0x1800" _ r' "0x4000"]
      region_alloc_free_roundtrip [OF li.interval_sets_axioms demo_region_inv, of "0x800" _ _ "0x4800"] by simp
qed

text \<open>Starting the kernel divides FCRAM among the regions.  For every memory mode of both models \<^verbatim>\<open>MemoryInit\<close> returns, since
  the sizes of the chosen layout add up to the memory of the model: the three regions are consistent and entirely
  free, follow one another from offset zero, and end at the end of FCRAM.\<close>

theorem MemoryInit_divides_FCRAM:
  assumes "interval_sets ops" and "list_all (\<lambda>r. \<not> region_locked r) [r0, r1, r2]"
  shows "\<exists>a s b cfg. MemoryInit ops is_new mode n3ds [r0, r1, r2] = Some ([a, s, b], cfg) \<and>
    list_all (\<lambda>r. region_inv r \<and> region_used r = 0 \<and> free_set r = {region_base r..<region_base r + region_size r}) [a, s, b] \<and>
    region_base a = 0 \<and> region_base s = region_size a \<and> region_base b = region_base s + region_size s \<and>
    region_base b + region_size b = (if is_new then FCRAM_N3DS_SIZE else FCRAM_SIZE) \<and>
    sys_mem_alloc cfg = region_size s \<and> base_mem_alloc cfg = region_size b \<and>
    (\<not> is_new \<or> n3ds \<noteq> NM_Legacy \<longrightarrow> app_mem_alloc cfg = region_size a)"
proof -
  obtain x y z where sizes: "memory_region_sizes ! fst (mem_type is_new mode n3ds) = [x, y, z]"
    and sum: "x + y + z = (if is_new then FCRAM_N3DS_SIZE else FCRAM_SIZE)"
    and app: "\<not> is_new \<or> n3ds \<noteq> NM_Legacy \<longrightarrow> memory_region_sizes ! snd (mem_type is_new mode n3ds) ! 0 = x"
    using layout_sizes [of is_new mode n3ds] by blast
  have lt: "x + y + z < 2 ^ 32" using sum by (simp add: FCRAM_SIZE_def FCRAM_N3DS_SIZE_def split: if_splits)
  have nl: "\<not> region_locked r0" "\<not> region_locked r1" "\<not> region_locked r2" using assms(2) by simp_all
  obtain a where a: "Region_Reset ops 0 x r0 = Some a" "whole_region 0 x a"
    using interval_sets.reset [OF assms(1) nl(1), of 0 x] lt by auto
  obtain s where s: "Region_Reset ops x y r1 = Some s" "whole_region x y s"
    using interval_sets.reset [OF assms(1) nl(2), of x y] lt by auto
  obtain b where b: "Region_Reset ops (x + y) z r2 = Some b" "whole_region (x + y) z b"
    using interval_sets.reset [OF assms(1) nl(3), of "x + y" z] lt by auto
  note w = a(2) [unfolded whole_region_def] s(2) [unfolded whole_region_def] b(2) [unfolded whole_region_def]
  have "reset_regions ops 0 [x, y, z] [r0, r1, r2] = Some ([a, s, b], x + y + z)"
    using a s b w lt by (simp add: add.commute)
  then show ?thesis
    using sizes sum app w by (simp add: MemoryInit_def case_prod_beta Let_def)
qed

theorem MemoryInit_divides_FCRAM_witness:
  "\<exists>a s b cfg. MemoryInit list_icl False MM_Prod NM_Legacy [demo_region, demo_region, demo_region] = Some ([a, s, b], cfg) \<and>
     region_base b + region_size b = FCRAM_SIZE"
  using MemoryInit_divides_FCRAM [OF li.interval_sets_axioms, of demo_region demo_region demo_region False MM_Prod NM_Legacy]
  by auto

end
