(* ===== verification/Kernel_Objects.thy ===== *)
theory Kernel_Objects
  imports Results Thread_Queue Resource_Limits Core_Timing Handle_Tables Memory_System Memory_Region
begin

text \<open>
  The data of the kernel: threads (\<^verbatim>\<open>thread.h\<close>), the objects a thread can wait on
  (\<^verbatim>\<open>wait_object.h\<close>, \<^verbatim>\<open>mutex.h\<close>, \<^verbatim>\<open>semaphore.h\<close>, \<^verbatim>\<open>event.h\<close>, \<^verbatim>\<open>timer.h\<close>), address arbiters
  (\<^verbatim>\<open>address_arbiter.h\<close>), shared memory (\<^verbatim>\<open>shared_memory.h\<close>), processes (\<^verbatim>\<open>process.h\<close>), and the state that
  \<^verbatim>\<open>KernelSystem\<close> owns (\<^verbatim>\<open>kernel.h\<close>, \<^verbatim>\<open>kernel.cpp\<close>).

  Objects are kept in stores indexed by references; the references of a store are the numbers below its
  counter, in the order of creation.  Sharing of an object by several pointers is sharing of its
  reference.  The lists of threads that wait on an object are one store for all kinds of objects.
  A \<^verbatim>\<open>flat_set\<close> of pointers is a list in the order of the references.
\<close>

section \<open>Enumerations and references\<close>

datatype ThreadStatus =
    Running | Ready | WaitArb | WaitSleep | WaitIPC | WaitSynchAny | WaitSynchAll | WaitHleEvent
  | Dormant | Dead

datatype ThreadWakeupReason = Signal | Timeout

datatype ResetType = OneShot | Sticky | Pulse

definition ThreadPrioHighest :: nat where "ThreadPrioHighest = 0"
definition ThreadPrioUserlandMax :: nat where "ThreadPrioUserlandMax = 24"
definition ThreadPrioDefault :: nat where "ThreadPrioDefault = 48"
definition ThreadPrioLowest :: nat where "ThreadPrioLowest = 63"

lemmas prio_defs = ThreadPrioHighest_def ThreadPrioUserlandMax_def ThreadPrioDefault_def
  ThreadPrioLowest_def

definition ThreadProcessorIdDefault :: int where "ThreadProcessorIdDefault = -2"
definition ThreadProcessorIdAll :: int where "ThreadProcessorIdAll = -1"
definition ThreadProcessorIdMax :: int where "ThreadProcessorIdMax = 4"

datatype wait_ref =
    WThread nat | WMutex nat | WSemaphore nat | WEvent nat | WTimer nat | WServerPort nat | WServerSession nat

text \<open>
  The wakeup callbacks of the supervisor calls: \<^verbatim>\<open>SVC_SyncCallback\<close>, whose flag tells whether it
  returns the index of the object, \<^verbatim>\<open>SVC_IPCCallback\<close> of a thread that waits for requests, and the timeout callback of
  an address arbiter.
\<close>

datatype wakeup_cb = SVC_SyncCallback bool | SVC_IPCCallback | ArbiterCallback nat

text \<open>
  The objects that a handle can stand for.  Kinds that the model has no store for are kept apart by their type and a number.
\<close>

datatype kobj =
    OThread nat | OProcess nat | OMutex nat | OSemaphore nat | OEvent nat | OTimer nat | OAddressArbiter nat
  | OResourceLimit nat | OSharedMemory nat | OClientPort nat | OServerPort nat | OClientSession nat | OServerSession nat
  | OOther HandleType nat

primrec GetHandleType :: "kobj \<Rightarrow> HandleType" where
  "GetHandleType (OThread _) = HThread"
| "GetHandleType (OProcess _) = HProcess"
| "GetHandleType (OMutex _) = HMutex"
| "GetHandleType (OSemaphore _) = HSemaphore"
| "GetHandleType (OEvent _) = HEvent"
| "GetHandleType (OTimer _) = HTimer"
| "GetHandleType (OAddressArbiter _) = HAddressArbiter"
| "GetHandleType (OResourceLimit _) = HResourceLimit"
| "GetHandleType (OSharedMemory _) = HSharedMemory"
| "GetHandleType (OClientPort _) = HClientPort"
| "GetHandleType (OServerPort _) = HServerPort"
| "GetHandleType (OClientSession _) = HClientSession"
| "GetHandleType (OServerSession _) = HServerSession"
| "GetHandleType (OOther T _) = T"

datatype ProcessStatus = PS_Created | PS_Running | PS_Exited


section \<open>Objects\<close>

record ThreadContext =
  cpu_registers :: "u32 list"
  cpsr :: u32
  fpscr :: u32

record Thread =
  thread_context :: ThreadContext
  thread_id :: nat
  can_schedule :: bool
  status :: ThreadStatus
  entry_point :: nat
  stack_top :: nat
  nominal_priority :: nat
  current_priority :: nat
  last_running_ticks :: int
  processor_id :: int
  tls_address :: nat
  held_mutexes :: "nat list"
  pending_mutexes :: "nat list"
  owner_process :: "nat option"
  wait_objects :: "wait_ref list"
  wait_address :: nat
  wakeup_callback :: "wakeup_cb option"
  core_id :: nat

record Mutex =
  lock_count :: int
  priority :: nat
  holding_thread :: "nat option"
  mutex_limit :: "nat option"

record Semaphore =
  max_count :: int
  available_count :: int
  semaphore_limit :: "nat option"

record Event =
  event_reset_type :: ResetType
  event_signaled :: bool
  event_limit :: "nat option"

record Timer =
  timer_reset_type :: ResetType
  initial_delay :: int
  interval_delay :: int
  timer_signaled :: bool
  callback_id :: nat
  timer_limit :: "nat option"

record AddressArbiter =
  arb_waiting_threads :: "nat list"
  arb_limit :: "nat option"

record SharedMemory =
  linear_heap_phys_offset :: nat
  backing_blocks :: "(MemoryRef \<times> nat) list"
  shm_size :: nat
  shm_region :: nat
  shm_permissions :: u32
  other_permissions :: u32
  shm_owner :: "nat option"
  base_address :: nat
  shm_holding_memory :: IntervalSet

text \<open>
  Ports and sessions (\<^verbatim>\<open>client_port.h\<close>, \<^verbatim>\<open>server_port.h\<close>, \<^verbatim>\<open>session.h\<close>, \<^verbatim>\<open>client_session.h\<close>, \<^verbatim>\<open>server_session.h\<close>).  A \<^verbatim>\<open>Session\<close>
  links the two ends that point to it; an end that was destroyed is null there.  A buffer that a request lent to the server is
  remembered in the server's end until the reply.  A handler of the emulator is a number.
\<close>

record MappedBufferContext =
  mb_permissions :: u32
  mb_size :: nat
  mb_source_address :: nat
  mb_target_address :: nat
  mb_buffer :: MemoryRef

record ClientPort =
  cp_server_port :: nat
  max_sessions :: nat
  active_sessions :: nat
  cp_name :: string

record ServerPort =
  sp_name :: string
  pending_sessions :: "nat list"
  sp_hle_handler :: "nat option"

record Session =
  session_client :: "nat option"
  session_server :: "nat option"
  session_port :: "nat option"

record ClientSession =
  client_parent :: nat
  client_name :: string

record ServerSession =
  server_parent :: nat
  server_name :: string
  hle_handler :: "nat option"
  pending_requesting_threads :: "nat list"
  currently_handling :: "nat option"
  mapped_buffer_context :: "MappedBufferContext list"

record AddressMapping =
  am_address :: nat
  am_size :: nat
  am_read_only :: bool
  am_unk_flag :: bool

record CodeSet =
  cs_memory :: "u8 list"
  cs_segments :: "(nat \<times> nat \<times> nat) list"
  entrypoint :: nat

text \<open>
  A page of thread local storage has eight slots, a \<^verbatim>\<open>bitset\<close> per page.  The program identifier is the one of the code set,
  and \<^verbatim>\<open>memory_region\<close> is the number of the region, which is null before the process runs.
\<close>

record Process =
  handle_table :: "kobj HandleTable"
  codeset :: CodeSet
  program_id :: nat
  resource_limit :: nat
  svc_access_mask :: "bool list"
  handle_table_size :: nat
  address_mappings :: "AddressMapping list"
  process_flags :: nat
  no_thread_restrictions :: bool
  kernel_version :: nat
  ideal_processor :: int
  process_status :: ProcessStatus
  process_id :: nat
  creation_time_ticks :: int
  vm_manager :: VMManager
  memory_used :: nat
  memory_region :: "nat option"
  holding_memory :: IntervalSet
  holding_tls_memory :: IntervalSet
  tls_slots :: "bool list list"

record ThreadManager =
  current_thread :: "nat option"
  ready_queue :: "nat tql"
  unscheduled_ready_queue :: "nat list"
  wakeup_callback_table :: "nat \<rightharpoonup> nat"
  thread_list :: "nat list"


section \<open>The kernel\<close>

text \<open>The callbacks that the kernel registers with the timers.\<close>

datatype kernel_cb = ThreadWakeupCB nat | TimerCB

text \<open>
  \<open>connected_sessions\<close> is kept per handler.  The allocator of the host, which gives the memory for the buffers of requests, is
  \<open>host_alloc\<close>: it does not change and may look at the memory that is in use.
\<close>

record kernel =
  threads :: "nat \<Rightarrow> Thread"
  num_threads :: nat
  waiting_threads :: "wait_ref \<Rightarrow> nat list"
  hle_notifier :: "wait_ref \<Rightarrow> bool"
  hle_notified :: "wait_ref list"
  mutexes :: "nat \<Rightarrow> Mutex"
  num_mutexes :: nat
  semaphores :: "nat \<Rightarrow> Semaphore"
  num_semaphores :: nat
  events :: "nat \<Rightarrow> Event"
  num_events :: nat
  ktimers :: "nat \<Rightarrow> Timer"
  num_timers :: nat
  arbiters :: "nat \<Rightarrow> AddressArbiter"
  num_arbiters :: nat
  shared_memories :: "nat \<Rightarrow> SharedMemory"
  num_shared_memories :: nat
  client_ports :: "nat \<Rightarrow> ClientPort"
  num_client_ports :: nat
  server_ports :: "nat \<Rightarrow> ServerPort"
  num_server_ports :: nat
  sessions :: "nat \<Rightarrow> Session"
  num_sessions :: nat
  client_sessions :: "nat \<Rightarrow> ClientSession"
  num_client_sessions :: nat
  server_sessions :: "nat \<Rightarrow> ServerSession"
  num_server_sessions :: nat
  named_ports :: "string \<rightharpoonup> nat"
  connected_sessions :: "nat \<Rightarrow> nat list"
  host_alloc :: "MemorySystem \<Rightarrow> nat \<Rightarrow> nat"
  processes :: "nat \<Rightarrow> Process"
  num_processes :: nat
  next_process_id :: nat
  process_list :: "nat list"
  memory_regions :: "nat \<Rightarrow> MemoryRegionInfo"
  resource_limits :: "nat \<Rightarrow> ResourceLimit"
  thread_managers :: "nat \<Rightarrow> ThreadManager"
  num_cores :: nat
  timing :: "kernel_cb Timing"
  timer_callback_table :: "nat \<rightharpoonup> nat"
  next_timer_callback_id :: nat
  current_cpu :: nat
  current_process :: nat
  stored_processes :: "nat \<rightharpoonup> nat"
  next_thread_id :: nat
  reschedule_pending :: bool
  memory :: MemorySystem
  current_page_table :: "nat option"
  config_mem_ptr :: nat
  shared_page_ptr :: nat
  cpu_context :: "nat \<Rightarrow> ThreadContext"
  cp15_thread_uro :: "nat \<Rightarrow> nat"
  main_thread_extended_sleep :: bool

definition upd_thread :: "nat \<Rightarrow> (Thread \<Rightarrow> Thread) \<Rightarrow> kernel \<Rightarrow> kernel" where
  "upd_thread t f k = k\<lparr>threads := (threads k)(t := f (threads k t))\<rparr>"

definition upd_mutex :: "nat \<Rightarrow> (Mutex \<Rightarrow> Mutex) \<Rightarrow> kernel \<Rightarrow> kernel" where
  "upd_mutex m f k = k\<lparr>mutexes := (mutexes k)(m := f (mutexes k m))\<rparr>"

definition upd_manager :: "nat \<Rightarrow> (ThreadManager \<Rightarrow> ThreadManager) \<Rightarrow> kernel \<Rightarrow> kernel" where
  "upd_manager c f k = k\<lparr>thread_managers := (thread_managers k)(c := f (thread_managers k c))\<rparr>"

definition upd_ready :: "nat \<Rightarrow> (nat tql \<Rightarrow> nat tql) \<Rightarrow> kernel \<Rightarrow> kernel" where
  "upd_ready c f = upd_manager c (\<lambda>m. m\<lparr>ready_queue := f (ready_queue m)\<rparr>)"

abbreviation rq :: "kernel \<Rightarrow> nat \<Rightarrow> nat tql" where
  "rq k c \<equiv> ready_queue (thread_managers k c)"

definition PrepareReschedule :: "kernel \<Rightarrow> kernel" where
  "PrepareReschedule k = k\<lparr>reschedule_pending := True\<rparr>"

definition GetCurrentThread :: "kernel \<Rightarrow> nat option" where
  "GetCurrentThread k = current_thread (thread_managers k (current_cpu k))"

text \<open>\<^verbatim>\<open>NewThreadId\<close> returns and increments an unsigned 32-bit counter.\<close>

definition NewThreadId :: "kernel \<Rightarrow> nat \<times> kernel" where
  "NewThreadId k = (next_thread_id k, k\<lparr>next_thread_id := wrap_u32 (next_thread_id k + 1)\<rparr>)"

text \<open>
  The event that wakes a thread is registered per core under a name that ends in the core's number.
\<close>

definition digit :: "nat \<Rightarrow> char" where
  "digit n = char_of (48 + n)"

definition wakeup_event :: "nat \<Rightarrow> string" where
  "wakeup_event core = ''ThreadWakeupCallback_'' @ [digit core]"

text \<open>
  The state that the constructors of \<^verbatim>\<open>KernelSystem\<close>, \<^verbatim>\<open>ThreadManager\<close> and \<^verbatim>\<open>TimerManager\<close> set up.  References
  that no object has been created under are blank.
\<close>

definition new_ThreadManager :: ThreadManager where
  "new_ThreadManager =
     \<lparr>current_thread = None, ready_queue = ThreadQueueList 64, unscheduled_ready_queue = [],
      wakeup_callback_table = Map.empty, thread_list = []\<rparr>"

definition blank_thread :: Thread where
  "blank_thread =
     \<lparr>thread_context = \<lparr>cpu_registers = replicate 16 0, cpsr = 0, fpscr = 0\<rparr>, thread_id = 0,
      can_schedule = True, status = Dormant, entry_point = 0, stack_top = 0, nominal_priority = 0,
      current_priority = 0, last_running_ticks = 0, processor_id = 0, tls_address = 0,
      held_mutexes = [], pending_mutexes = [], owner_process = None, wait_objects = [],
      wait_address = 0, wakeup_callback = None, core_id = 0\<rparr>"

definition register_wakeups :: "nat \<Rightarrow> kernel_cb Timing \<Rightarrow> kernel_cb Timing" where
  "register_wakeups cores T =
     fold (\<lambda>c. RegisterEvent (wakeup_event c) (Some (ThreadWakeupCB c))) [0..<cores] T"

definition new_SharedMemory :: SharedMemory where
  "new_SharedMemory =
     \<lparr>linear_heap_phys_offset = 0, backing_blocks = [], shm_size = 0, shm_region = 0, shm_permissions = 0,
      other_permissions = 0, shm_owner = None, base_address = 0, shm_holding_memory = []\<rparr>"

definition new_ServerSession :: ServerSession where
  "new_ServerSession =
     \<lparr>server_parent = 0, server_name = [], hle_handler = None, pending_requesting_threads = [], currently_handling = None,
      mapped_buffer_context = []\<rparr>"

definition new_CodeSet :: CodeSet where
  "new_CodeSet = \<lparr>cs_memory = [], cs_segments = [(0, 0, 0), (0, 0, 0), (0, 0, 0)], entrypoint = 0\<rparr>"

text \<open>The default values of the fields of a process; the constructor of the address space resets it.\<close>

definition new_Process :: Process where
  "new_Process =
     \<lparr>handle_table = new_HandleTable, codeset = new_CodeSet, program_id = 0, resource_limit = 0,
      svc_access_mask = replicate 0x80 False, handle_table_size = 0x200, address_mappings = [], process_flags = 0,
      no_thread_restrictions = False, kernel_version = 0, ideal_processor = 0, process_status = PS_Created,
      process_id = 0, creation_time_ticks = 0,
      vm_manager = \<lparr>vma_map = [blank_vma\<lparr>vsize := MAX_ADDRESS\<rparr>], page_table = PageTable_Clear, is_locked = False\<rparr>,
      memory_used = 0, memory_region = None, holding_memory = [], holding_tls_memory = [], tls_slots = []\<rparr>"

text \<open>
  The arguments are the number of cores, the timers, the memory, the regions that \<^verbatim>\<open>MemoryInit\<close> set up and the host
  addresses of the configuration memory and the shared page, and the allocator of the host.
\<close>

definition new_KernelSystem ::
  "nat \<Rightarrow> kernel_cb Timing \<Rightarrow> MemorySystem \<Rightarrow> (nat \<Rightarrow> MemoryRegionInfo) \<Rightarrow> nat \<Rightarrow> nat \<Rightarrow> (MemorySystem \<Rightarrow> nat \<Rightarrow> nat) \<Rightarrow>
     kernel" where
  "new_KernelSystem cores T ms regions cfg shp alloc =
     \<lparr>threads = (\<lambda>_. blank_thread), num_threads = 0, waiting_threads = (\<lambda>_. []),
      hle_notifier = (\<lambda>_. False), hle_notified = [],
      mutexes = (\<lambda>_. \<lparr>lock_count = 0, priority = 0, holding_thread = None, mutex_limit = None\<rparr>), num_mutexes = 0,
      semaphores = (\<lambda>_. \<lparr>max_count = 0, available_count = 0, semaphore_limit = None\<rparr>), num_semaphores = 0,
      events = (\<lambda>_. \<lparr>event_reset_type = OneShot, event_signaled = False, event_limit = None\<rparr>), num_events = 0,
      ktimers = (\<lambda>_. \<lparr>timer_reset_type = OneShot, initial_delay = 0, interval_delay = 0,
                      timer_signaled = False, callback_id = 0, timer_limit = None\<rparr>), num_timers = 0,
      arbiters = (\<lambda>_. \<lparr>arb_waiting_threads = [], arb_limit = None\<rparr>), num_arbiters = 0,
      shared_memories = (\<lambda>_. new_SharedMemory), num_shared_memories = 0,
      client_ports = (\<lambda>_. \<lparr>cp_server_port = 0, max_sessions = 0, active_sessions = 0, cp_name = []\<rparr>), num_client_ports = 0,
      server_ports = (\<lambda>_. \<lparr>sp_name = [], pending_sessions = [], sp_hle_handler = None\<rparr>), num_server_ports = 0,
      sessions = (\<lambda>_. \<lparr>session_client = None, session_server = None, session_port = None\<rparr>), num_sessions = 0,
      client_sessions = (\<lambda>_. \<lparr>client_parent = 0, client_name = []\<rparr>), num_client_sessions = 0,
      server_sessions = (\<lambda>_. new_ServerSession), num_server_sessions = 0,
      named_ports = Map.empty, connected_sessions = (\<lambda>_. []), host_alloc = alloc,
      processes = (\<lambda>_. new_Process), num_processes = 0, next_process_id = 0, process_list = [], memory_regions = regions,
      resource_limits = (\<lambda>_. ResourceLimit_Create ''Unknown''),
      thread_managers = (\<lambda>_. new_ThreadManager), num_cores = cores,
      timing = RegisterEvent ''TimerCallback'' (Some TimerCB) (register_wakeups cores T),
      timer_callback_table = Map.empty, next_timer_callback_id = 0, current_cpu = 0,
      current_process = 0, stored_processes = Map.empty, next_thread_id = 1,
      reschedule_pending = False, memory = ms, current_page_table = None, config_mem_ptr = cfg, shared_page_ptr = shp,
      cpu_context = (\<lambda>_. thread_context blank_thread), cp15_thread_uro = (\<lambda>_. 0), main_thread_extended_sleep = False\<rparr>"

definition flat_insert :: "nat \<Rightarrow> nat list \<Rightarrow> nat list" where
  "flat_insert x xs = (if x \<in> set xs then xs else insort x xs)"

definition flat_erase :: "nat \<Rightarrow> nat list \<Rightarrow> nat list" where
  "flat_erase x xs = removeAll x xs"

lemma set_flat_insert [simp]: "set (flat_insert x xs) = insert x (set xs)"
  by (auto simp: flat_insert_def set_insort_key)

lemma set_flat_erase [simp]: "set (flat_erase x xs) = set xs - {x}"
  by (simp add: flat_erase_def)


section \<open>Frame rules\<close>

lemma upd_thread_threads [simp]:
  "threads (upd_thread t f k) u = (if u = t then f (threads k t) else threads k u)"
  by (simp add: upd_thread_def)

lemma upd_thread_frame [simp]:
  "num_threads (upd_thread t f k) = num_threads k"
  "waiting_threads (upd_thread t f k) = waiting_threads k"
  "hle_notifier (upd_thread t f k) = hle_notifier k"
  "mutexes (upd_thread t f k) = mutexes k"
  "num_mutexes (upd_thread t f k) = num_mutexes k"
  "semaphores (upd_thread t f k) = semaphores k"
  "events (upd_thread t f k) = events k"
  "ktimers (upd_thread t f k) = ktimers k"
  "arbiters (upd_thread t f k) = arbiters k"
  "processes (upd_thread t f k) = processes k"
  "thread_managers (upd_thread t f k) = thread_managers k"
  "num_cores (upd_thread t f k) = num_cores k"
  "timing (upd_thread t f k) = timing k"
  "current_cpu (upd_thread t f k) = current_cpu k"
  by (simp_all add: upd_thread_def)

lemma upd_mutex_mutexes [simp]:
  "mutexes (upd_mutex m f k) n = (if n = m then f (mutexes k m) else mutexes k n)"
  by (simp add: upd_mutex_def)

lemma upd_mutex_frame [simp]:
  "threads (upd_mutex m f k) = threads k"
  "num_threads (upd_mutex m f k) = num_threads k"
  "waiting_threads (upd_mutex m f k) = waiting_threads k"
  "hle_notifier (upd_mutex m f k) = hle_notifier k"
  "num_mutexes (upd_mutex m f k) = num_mutexes k"
  "semaphores (upd_mutex m f k) = semaphores k"
  "events (upd_mutex m f k) = events k"
  "ktimers (upd_mutex m f k) = ktimers k"
  "arbiters (upd_mutex m f k) = arbiters k"
  "processes (upd_mutex m f k) = processes k"
  "thread_managers (upd_mutex m f k) = thread_managers k"
  "num_cores (upd_mutex m f k) = num_cores k"
  "timing (upd_mutex m f k) = timing k"
  "current_cpu (upd_mutex m f k) = current_cpu k"
  by (simp_all add: upd_mutex_def)

lemma upd_manager_managers [simp]:
  "thread_managers (upd_manager c f k) d =
     (if d = c then f (thread_managers k c) else thread_managers k d)"
  by (simp add: upd_manager_def)

lemma upd_manager_frame [simp]:
  "threads (upd_manager c f k) = threads k"
  "num_threads (upd_manager c f k) = num_threads k"
  "waiting_threads (upd_manager c f k) = waiting_threads k"
  "hle_notifier (upd_manager c f k) = hle_notifier k"
  "mutexes (upd_manager c f k) = mutexes k"
  "num_mutexes (upd_manager c f k) = num_mutexes k"
  "semaphores (upd_manager c f k) = semaphores k"
  "events (upd_manager c f k) = events k"
  "ktimers (upd_manager c f k) = ktimers k"
  "arbiters (upd_manager c f k) = arbiters k"
  "processes (upd_manager c f k) = processes k"
  "num_cores (upd_manager c f k) = num_cores k"
  "timing (upd_manager c f k) = timing k"
  "current_cpu (upd_manager c f k) = current_cpu k"
  by (simp_all add: upd_manager_def)

lemma upd_ready_rq [simp]:
  "rq (upd_ready c f k) d = (if d = c then f (rq k c) else rq k d)"
  by (simp add: upd_ready_def)

lemma upd_ready_managers [simp]:
  "current_thread (thread_managers (upd_ready c f k) d) = current_thread (thread_managers k d)"
  "thread_list (thread_managers (upd_ready c f k) d) = thread_list (thread_managers k d)"
  "unscheduled_ready_queue (thread_managers (upd_ready c f k) d) =
     unscheduled_ready_queue (thread_managers k d)"
  "wakeup_callback_table (thread_managers (upd_ready c f k) d) =
     wakeup_callback_table (thread_managers k d)"
  by (simp_all add: upd_ready_def)

lemma upd_ready_frame [simp]:
  "threads (upd_ready c f k) = threads k"
  "num_threads (upd_ready c f k) = num_threads k"
  "waiting_threads (upd_ready c f k) = waiting_threads k"
  "hle_notifier (upd_ready c f k) = hle_notifier k"
  "mutexes (upd_ready c f k) = mutexes k"
  "num_mutexes (upd_ready c f k) = num_mutexes k"
  "semaphores (upd_ready c f k) = semaphores k"
  "events (upd_ready c f k) = events k"
  "ktimers (upd_ready c f k) = ktimers k"
  "arbiters (upd_ready c f k) = arbiters k"
  "processes (upd_ready c f k) = processes k"
  "num_cores (upd_ready c f k) = num_cores k"
  "timing (upd_ready c f k) = timing k"
  "current_cpu (upd_ready c f k) = current_cpu k"
  by (simp_all add: upd_ready_def)

lemma PrepareReschedule_frame [simp]:
  "threads (PrepareReschedule k) = threads k"
  "num_threads (PrepareReschedule k) = num_threads k"
  "waiting_threads (PrepareReschedule k) = waiting_threads k"
  "hle_notifier (PrepareReschedule k) = hle_notifier k"
  "mutexes (PrepareReschedule k) = mutexes k"
  "num_mutexes (PrepareReschedule k) = num_mutexes k"
  "semaphores (PrepareReschedule k) = semaphores k"
  "events (PrepareReschedule k) = events k"
  "ktimers (PrepareReschedule k) = ktimers k"
  "arbiters (PrepareReschedule k) = arbiters k"
  "processes (PrepareReschedule k) = processes k"
  "thread_managers (PrepareReschedule k) = thread_managers k"
  "num_cores (PrepareReschedule k) = num_cores k"
  "timing (PrepareReschedule k) = timing k"
  "current_cpu (PrepareReschedule k) = current_cpu k"
  by (simp_all add: PrepareReschedule_def)

text \<open>The parts of the state that no operation on threads, mutexes or queues touches.\<close>

lemma upd_thread_rest [simp]:
  "memory (upd_thread t f k) = memory k" "current_page_table (upd_thread t f k) = current_page_table k"
  "memory_regions (upd_thread t f k) = memory_regions k" "resource_limits (upd_thread t f k) = resource_limits k"
  "num_processes (upd_thread t f k) = num_processes k" "current_process (upd_thread t f k) = current_process k"
  "process_list (upd_thread t f k) = process_list k" "shared_memories (upd_thread t f k) = shared_memories k"
  "cpu_context (upd_thread t f k) = cpu_context k" "stored_processes (upd_thread t f k) = stored_processes k"
  "timer_callback_table (upd_thread t f k) = timer_callback_table k" "hle_notified (upd_thread t f k) = hle_notified k"
  "num_semaphores (upd_thread t f k) = num_semaphores k" "num_events (upd_thread t f k) = num_events k"
  "num_timers (upd_thread t f k) = num_timers k" "num_arbiters (upd_thread t f k) = num_arbiters k"
  "next_thread_id (upd_thread t f k) = next_thread_id k"
  "client_ports (upd_thread t f k) = client_ports k" "server_ports (upd_thread t f k) = server_ports k"
  "sessions (upd_thread t f k) = sessions k" "client_sessions (upd_thread t f k) = client_sessions k"
  "server_sessions (upd_thread t f k) = server_sessions k" "host_alloc (upd_thread t f k) = host_alloc k"
  "num_client_ports (upd_thread t f k) = num_client_ports k" "num_server_ports (upd_thread t f k) = num_server_ports k"
  "num_sessions (upd_thread t f k) = num_sessions k" "num_client_sessions (upd_thread t f k) = num_client_sessions k"
  "num_server_sessions (upd_thread t f k) = num_server_sessions k" "named_ports (upd_thread t f k) = named_ports k"
  "connected_sessions (upd_thread t f k) = connected_sessions k"
  by (simp_all add: upd_thread_def)

lemma upd_mutex_rest [simp]:
  "memory (upd_mutex m f k) = memory k" "current_page_table (upd_mutex m f k) = current_page_table k"
  "memory_regions (upd_mutex m f k) = memory_regions k" "resource_limits (upd_mutex m f k) = resource_limits k"
  "num_processes (upd_mutex m f k) = num_processes k" "current_process (upd_mutex m f k) = current_process k"
  "process_list (upd_mutex m f k) = process_list k" "shared_memories (upd_mutex m f k) = shared_memories k"
  "cpu_context (upd_mutex m f k) = cpu_context k" "stored_processes (upd_mutex m f k) = stored_processes k"
  "timer_callback_table (upd_mutex m f k) = timer_callback_table k" "hle_notified (upd_mutex m f k) = hle_notified k"
  "num_semaphores (upd_mutex m f k) = num_semaphores k" "num_events (upd_mutex m f k) = num_events k"
  "num_timers (upd_mutex m f k) = num_timers k" "num_arbiters (upd_mutex m f k) = num_arbiters k"
  "next_thread_id (upd_mutex m f k) = next_thread_id k"
  "client_ports (upd_mutex m f k) = client_ports k" "server_ports (upd_mutex m f k) = server_ports k"
  "sessions (upd_mutex m f k) = sessions k" "client_sessions (upd_mutex m f k) = client_sessions k"
  "server_sessions (upd_mutex m f k) = server_sessions k" "host_alloc (upd_mutex m f k) = host_alloc k"
  "num_client_ports (upd_mutex m f k) = num_client_ports k" "num_server_ports (upd_mutex m f k) = num_server_ports k"
  "num_sessions (upd_mutex m f k) = num_sessions k" "num_client_sessions (upd_mutex m f k) = num_client_sessions k"
  "num_server_sessions (upd_mutex m f k) = num_server_sessions k" "named_ports (upd_mutex m f k) = named_ports k"
  "connected_sessions (upd_mutex m f k) = connected_sessions k"
  by (simp_all add: upd_mutex_def)

lemma upd_manager_rest [simp]:
  "memory (upd_manager c f k) = memory k" "current_page_table (upd_manager c f k) = current_page_table k"
  "memory_regions (upd_manager c f k) = memory_regions k" "resource_limits (upd_manager c f k) = resource_limits k"
  "num_processes (upd_manager c f k) = num_processes k" "current_process (upd_manager c f k) = current_process k"
  "process_list (upd_manager c f k) = process_list k" "shared_memories (upd_manager c f k) = shared_memories k"
  "cpu_context (upd_manager c f k) = cpu_context k" "stored_processes (upd_manager c f k) = stored_processes k"
  "timer_callback_table (upd_manager c f k) = timer_callback_table k" "hle_notified (upd_manager c f k) = hle_notified k"
  "num_semaphores (upd_manager c f k) = num_semaphores k" "num_events (upd_manager c f k) = num_events k"
  "num_timers (upd_manager c f k) = num_timers k" "num_arbiters (upd_manager c f k) = num_arbiters k"
  "next_thread_id (upd_manager c f k) = next_thread_id k"
  "client_ports (upd_manager c f k) = client_ports k" "server_ports (upd_manager c f k) = server_ports k"
  "sessions (upd_manager c f k) = sessions k" "client_sessions (upd_manager c f k) = client_sessions k"
  "server_sessions (upd_manager c f k) = server_sessions k" "host_alloc (upd_manager c f k) = host_alloc k"
  "num_client_ports (upd_manager c f k) = num_client_ports k" "num_server_ports (upd_manager c f k) = num_server_ports k"
  "num_sessions (upd_manager c f k) = num_sessions k" "num_client_sessions (upd_manager c f k) = num_client_sessions k"
  "num_server_sessions (upd_manager c f k) = num_server_sessions k" "named_ports (upd_manager c f k) = named_ports k"
  "connected_sessions (upd_manager c f k) = connected_sessions k"
  by (simp_all add: upd_manager_def)

lemma upd_ready_rest [simp]:
  "memory (upd_ready c f k) = memory k" "current_page_table (upd_ready c f k) = current_page_table k"
  "memory_regions (upd_ready c f k) = memory_regions k" "resource_limits (upd_ready c f k) = resource_limits k"
  "num_processes (upd_ready c f k) = num_processes k" "current_process (upd_ready c f k) = current_process k"
  "process_list (upd_ready c f k) = process_list k" "shared_memories (upd_ready c f k) = shared_memories k"
  "cpu_context (upd_ready c f k) = cpu_context k" "stored_processes (upd_ready c f k) = stored_processes k"
  "timer_callback_table (upd_ready c f k) = timer_callback_table k" "hle_notified (upd_ready c f k) = hle_notified k"
  "num_semaphores (upd_ready c f k) = num_semaphores k" "num_events (upd_ready c f k) = num_events k"
  "num_timers (upd_ready c f k) = num_timers k" "num_arbiters (upd_ready c f k) = num_arbiters k"
  "next_thread_id (upd_ready c f k) = next_thread_id k"
  "client_ports (upd_ready c f k) = client_ports k" "server_ports (upd_ready c f k) = server_ports k"
  "sessions (upd_ready c f k) = sessions k" "client_sessions (upd_ready c f k) = client_sessions k"
  "server_sessions (upd_ready c f k) = server_sessions k" "host_alloc (upd_ready c f k) = host_alloc k"
  "num_client_ports (upd_ready c f k) = num_client_ports k" "num_server_ports (upd_ready c f k) = num_server_ports k"
  "num_sessions (upd_ready c f k) = num_sessions k" "num_client_sessions (upd_ready c f k) = num_client_sessions k"
  "num_server_sessions (upd_ready c f k) = num_server_sessions k" "named_ports (upd_ready c f k) = named_ports k"
  "connected_sessions (upd_ready c f k) = connected_sessions k"
  by (simp_all add: upd_ready_def upd_manager_def)

lemma PrepareReschedule_rest [simp]:
  "memory (PrepareReschedule k) = memory k" "current_page_table (PrepareReschedule k) = current_page_table k"
  "memory_regions (PrepareReschedule k) = memory_regions k" "resource_limits (PrepareReschedule k) = resource_limits k"
  "num_processes (PrepareReschedule k) = num_processes k" "current_process (PrepareReschedule k) = current_process k"
  "process_list (PrepareReschedule k) = process_list k" "shared_memories (PrepareReschedule k) = shared_memories k"
  "cpu_context (PrepareReschedule k) = cpu_context k" "stored_processes (PrepareReschedule k) = stored_processes k"
  "timer_callback_table (PrepareReschedule k) = timer_callback_table k" "hle_notified (PrepareReschedule k) = hle_notified k"
  "num_semaphores (PrepareReschedule k) = num_semaphores k" "num_events (PrepareReschedule k) = num_events k"
  "num_timers (PrepareReschedule k) = num_timers k" "num_arbiters (PrepareReschedule k) = num_arbiters k"
  "next_thread_id (PrepareReschedule k) = next_thread_id k"
  "client_ports (PrepareReschedule k) = client_ports k" "server_ports (PrepareReschedule k) = server_ports k"
  "sessions (PrepareReschedule k) = sessions k" "client_sessions (PrepareReschedule k) = client_sessions k"
  "server_sessions (PrepareReschedule k) = server_sessions k" "host_alloc (PrepareReschedule k) = host_alloc k"
  "num_client_ports (PrepareReschedule k) = num_client_ports k" "num_server_ports (PrepareReschedule k) = num_server_ports k"
  "num_sessions (PrepareReschedule k) = num_sessions k" "num_client_sessions (PrepareReschedule k) = num_client_sessions k"
  "num_server_sessions (PrepareReschedule k) = num_server_sessions k" "named_ports (PrepareReschedule k) = named_ports k"
  "connected_sessions (PrepareReschedule k) = connected_sessions k"
  by (simp_all add: PrepareReschedule_def)

end
