(* ===== verification/Kernel_Threads.thy ===== *)
theory Kernel_Threads
  imports Kernel_Objects
begin

text \<open>
  The operations of \<^verbatim>\<open>Thread\<close> that change its priority or make it ready
  (\<^verbatim>\<open>core/hle/kernel/thread.cpp\<close>), and the invariant that ties the status and priority of a
  thread to the ready queue of its core.
\<close>

section \<open>Operations\<close>

definition BoostPriority :: "nat \<Rightarrow> nat \<Rightarrow> kernel \<Rightarrow> kernel" where
  "BoostPriority t prio k =
     (let th = threads k t in
      upd_thread t (\<lambda>th. th\<lparr>current_priority := prio\<rparr>)
        (upd_ready (core_id th)
           (if status th = Ready then tql_move t (current_priority th) prio else prepare prio) k))"

definition SetPriority :: "nat \<Rightarrow> nat \<Rightarrow> kernel \<Rightarrow> kernel option" where
  "SetPriority t prio k =
     (if \<not> (prio \<le> ThreadPrioLowest \<and> prio \<ge> ThreadPrioHighest) then None
      else let th = threads k t in
        Some (upd_thread t (\<lambda>th. th\<lparr>nominal_priority := prio, current_priority := prio\<rparr>)
          (upd_ready (core_id th)
             (if status th = Ready then tql_move t (current_priority th) prio else prepare prio) k)))"

definition best_priority :: "kernel \<Rightarrow> nat list \<Rightarrow> nat \<Rightarrow> nat" where
  "best_priority k ms best =
     fold (\<lambda>m best. if priority (mutexes k m) < best then priority (mutexes k m) else best) ms best"

definition Thread_UpdatePriority :: "nat \<Rightarrow> kernel \<Rightarrow> kernel" where
  "Thread_UpdatePriority t k =
     BoostPriority t (best_priority k (held_mutexes (threads k t)) (nominal_priority (threads k t))) k"

text \<open>
  The two cases that only a debug build asserts on (a running and a dead thread) return without
  doing anything.
\<close>

definition ResumeFromWait :: "nat \<Rightarrow> kernel \<Rightarrow> kernel option" where
  "ResumeFromWait t k =
     (let th = threads k t in
      if wait_objects th \<noteq> [] then None
      else case status th of
        Ready \<Rightarrow> if wakeup_callback th = None then Some k else None
      | Running \<Rightarrow> Some k
      | Dead \<Rightarrow> Some k
      | _ \<Rightarrow> Some (PrepareReschedule
               (upd_thread t (\<lambda>th. th\<lparr>wakeup_callback := None, status := Ready\<rparr>)
                 (upd_ready (core_id th) (push_back (current_priority th) t) k))))"

definition SetWaitSynchronizationResult :: "nat \<Rightarrow> result \<Rightarrow> kernel \<Rightarrow> kernel" where
  "SetWaitSynchronizationResult t r =
     upd_thread t (\<lambda>th. th\<lparr>thread_context :=
       (thread_context th)\<lparr>cpu_registers := (cpu_registers (thread_context th))[0 := r]\<rparr>\<rparr>)"

definition SetWaitSynchronizationOutput :: "nat \<Rightarrow> int \<Rightarrow> kernel \<Rightarrow> kernel" where
  "SetWaitSynchronizationOutput t output =
     upd_thread t (\<lambda>th. th\<lparr>thread_context :=
       (thread_context th)\<lparr>cpu_registers := (cpu_registers (thread_context th))[1 := word_of_int output]\<rparr>\<rparr>)"

text \<open>
  The search runs from the last object backwards; \<open>-1\<close> is the distance when the object is not there.
\<close>

definition GetWaitObjectIndex :: "nat \<Rightarrow> wait_ref \<Rightarrow> kernel \<Rightarrow> int option" where
  "GetWaitObjectIndex t object k =
     (let ws = wait_objects (threads k t) in
      if ws = [] then None
      else Some (int (length (dropWhile (\<lambda>p. p \<noteq> object) (rev ws))) - 1))"

definition GetCommandBufferAddress :: "nat \<Rightarrow> kernel \<Rightarrow> nat" where
  "GetCommandBufferAddress t k = wrap_u32 (tls_address (threads k t) + 0x80)"

definition WakeAfterDelay :: "nat \<Rightarrow> int \<Rightarrow> bool \<Rightarrow> kernel \<Rightarrow> kernel option" where
  "WakeAfterDelay t nanoseconds thread_safe_mode k =
     (if nanoseconds = -1 then Some k
      else let th = threads k t in
        map_option (\<lambda>T. k\<lparr>timing := T\<rparr>)
          (ScheduleEvent (nsToCycles nanoseconds) (wakeup_event (core_id th)) (thread_id th)
             (if thread_safe_mode then Some (core_id th) else None) thread_safe_mode (timing k)))"


section \<open>Ready queues and threads agree\<close>

text \<open>
  \<open>sched_inv\<close>: the ready queue of every core is a well-formed queue of 64 levels; it holds a
  thread exactly if the thread belongs to the core and is ready, once, and on the level of its
  current priority; and the level of every thread's current priority is linked, so that the thread can be
  pushed and compared with at any time.
\<close>

definition queue_ok :: "kernel \<Rightarrow> nat \<Rightarrow> bool" where
  "queue_ok k c \<longleftrightarrow> tql_inv (rq k c) \<and> NUM_QUEUES (rq k c) = 64 \<and>
     (\<forall>p < 64. distinct (q_data (rq k c) p) \<and>
        set (q_data (rq k c) p) =
          {t. t < num_threads k \<and> core_id (threads k t) = c \<and> status (threads k t) = Ready \<and>
              current_priority (threads k t) = p})"

definition thread_ok :: "kernel \<Rightarrow> nat \<Rightarrow> bool" where
  "thread_ok k t \<longleftrightarrow> current_priority (threads k t) < 64 \<and> nominal_priority (threads k t) < 64 \<and>
     linked (rq k (core_id (threads k t))) (current_priority (threads k t)) \<and>
     (\<forall>m \<in> set (held_mutexes (threads k t)). priority (mutexes k m) < 64)"

definition sched_inv :: "kernel \<Rightarrow> bool" where
  "sched_inv k \<longleftrightarrow> (\<forall>c. queue_ok k c) \<and> (\<forall>t < num_threads k. thread_ok k t)"

lemma queue_okD:
  assumes "queue_ok k c"
  shows "tql_inv (rq k c)" "NUM_QUEUES (rq k c) = 64" "p < 64 \<Longrightarrow> distinct (q_data (rq k c) p)"
    "p < 64 \<Longrightarrow> set (q_data (rq k c) p) =
       {t. t < num_threads k \<and> core_id (threads k t) = c \<and> status (threads k t) = Ready \<and>
           current_priority (threads k t) = p}"
  using assms by (auto simp: queue_ok_def)

lemma sched_invD:
  assumes "sched_inv k"
  shows "queue_ok k c" "t < num_threads k \<Longrightarrow> thread_ok k t"
  using assms by (auto simp: sched_inv_def)

text \<open>Only these parts of the state matter to the invariant.\<close>

lemma sched_inv_cong:
  assumes "num_threads k' = num_threads k" "\<And>c. rq k' c = rq k c"
    "\<And>t. t < num_threads k \<Longrightarrow> core_id (threads k' t) = core_id (threads k t) \<and>
       (status (threads k' t) = Ready \<longleftrightarrow> status (threads k t) = Ready) \<and>
       current_priority (threads k' t) = current_priority (threads k t) \<and>
       nominal_priority (threads k' t) = nominal_priority (threads k t)"
    "\<And>t m. t < num_threads k \<Longrightarrow> m \<in> set (held_mutexes (threads k' t)) \<Longrightarrow> priority (mutexes k' m) < 64"
    and "sched_inv k"
  shows "sched_inv k'"
proof -
  have "queue_ok k' c" for c
    using sched_invD(1) [OF assms(5), of c] assms(1,2,3) unfolding queue_ok_def by auto
  moreover have "thread_ok k' t" if "t < num_threads k'" for t
    using sched_invD(2) [OF assms(5), of t] assms that unfolding thread_ok_def by auto
  ultimately show ?thesis
    by (simp add: sched_inv_def)
qed

lemma sched_inv_same:
  assumes "num_threads k' = num_threads k" "threads k' = threads k" "\<And>c. rq k' c = rq k c"
    "\<And>m. priority (mutexes k' m) = priority (mutexes k m)"
  shows "sched_inv k' = sched_inv k"
  using assms unfolding sched_inv_def queue_ok_def thread_ok_def by simp

lemma sched_inv_upd_thread:
  assumes "sched_inv k" "core_id (f (threads k t)) = core_id (threads k t)"
    "status (f (threads k t)) = Ready \<longleftrightarrow> status (threads k t) = Ready"
    "current_priority (f (threads k t)) = current_priority (threads k t)"
    "nominal_priority (f (threads k t)) = nominal_priority (threads k t)"
    "set (held_mutexes (f (threads k t))) \<subseteq> set (held_mutexes (threads k t))"
  shows "sched_inv (upd_thread t f k)"
proof (rule sched_inv_cong [OF _ _ _ _ assms(1)], goal_cases)
  case (4 u m)
  then have "m \<in> set (held_mutexes (threads k u))"
    using assms(6) by (cases "u = t") auto
  then show ?case
    using sched_invD(2) [OF assms(1) 4(1)] by (simp add: thread_ok_def)
qed (use assms in simp_all)

lemma sched_inv_PrepareReschedule [simp]: "sched_inv (PrepareReschedule k) = sched_inv k"
  by (rule sched_inv_same) simp_all

text \<open>
  Changing the priority of one thread: the common part of \<^verbatim>\<open>SetPriority\<close> and \<^verbatim>\<open>BoostPriority\<close>.
\<close>

lemma requeue_inv:
  assumes inv: "sched_inv k" and t: "t < num_threads k" and p: "prio < 64"
    and f: "core_id (f (threads k t)) = core_id (threads k t)" "status (f (threads k t)) = status (threads k t)"
      "current_priority (f (threads k t)) = prio" "nominal_priority (f (threads k t)) < 64"
      "held_mutexes (f (threads k t)) = held_mutexes (threads k t)"
  shows "sched_inv (upd_thread t f (upd_ready (core_id (threads k t))
     (if status (threads k t) = Ready then tql_move t (current_priority (threads k t)) prio
      else prepare prio) k))"
    (is "sched_inv ?k")
proof -
  let ?c = "core_id (threads k t)" and ?old = "current_priority (threads k t)"
  let ?g = "if status (threads k t) = Ready then tql_move t ?old prio else prepare prio"
  have q: "tql_inv (rq k ?c)" "NUM_QUEUES (rq k ?c) = 64"
    using queue_okD [OF sched_invD(1) [OF inv]] by auto
  have old: "?old < 64" "linked (rq k ?c) ?old"
    using sched_invD(2) [OF inv t] by (auto simp: thread_ok_def)
  have ginv: "tql_inv (?g (rq k ?c))" "NUM_QUEUES (?g (rq k ?c)) = 64"
    using q p old by (auto intro: inv_intros)
  have glinked: "linked (?g (rq k ?c)) p' \<longleftrightarrow> linked (rq k ?c) p' \<or> p' = prio" for p'
    using q p old by (auto simp: move_linked prepare_linked)
  have gdata: "q_data (?g (rq k ?c)) p' =
      (if status (threads k t) = Ready
       then (if p' = prio then removeAll t (q_data (rq k ?c) p') @ [t] else removeAll t (q_data (rq k ?c) p'))
       else q_data (rq k ?c) p')" if "p' < 64" for p'
  proof -
    have "removeAll t (q_data (rq k ?c) p') = q_data (rq k ?c) p'" if "p' \<noteq> ?old"
      using queue_okD(4) [OF sched_invD(1) [OF inv] \<open>p' < 64\<close>, of ?c] that by (intro removeAll_id) auto
    then show ?thesis
      using q p old that by (auto simp: move_data)
  qed
  have "queue_ok ?k c" for c
  proof (cases "c = ?c")
    case True
    then show ?thesis
      using ginv f(1-3) t queue_okD(3,4) [OF sched_invD(1) [OF inv], of _ ?c]
      unfolding queue_ok_def by (auto simp: gdata distinct_removeAll)
  next
    case False
    then show ?thesis
      using f(1) sched_invD(1) [OF inv, of c] unfolding queue_ok_def by auto
  qed
  moreover have "thread_ok ?k u" if "u < num_threads k" for u
    using sched_invD(2) [OF inv that] sched_invD(2) [OF inv t] f p
    by (auto simp: thread_ok_def glinked)
  ultimately show ?thesis
    by (simp add: sched_inv_def)
qed


lemma BoostPriority_inv [inv_intros]:
  "sched_inv k \<Longrightarrow> t < num_threads k \<Longrightarrow> prio < 64 \<Longrightarrow> sched_inv (BoostPriority t prio k)"
  unfolding BoostPriority_def Let_def
  by (rule requeue_inv) (use sched_invD(2) [of k t] in \<open>auto simp: thread_ok_def\<close>)

lemma SetPriority_total: "SetPriority t prio k \<noteq> None \<longleftrightarrow> prio < 64"
  by (auto simp: SetPriority_def prio_defs Let_def)

lemma SetPriority_inv:
  "sched_inv k \<Longrightarrow> t < num_threads k \<Longrightarrow> SetPriority t prio k = Some k' \<Longrightarrow> sched_inv k'"
proof -
  assume h: "sched_inv k" "t < num_threads k" "SetPriority t prio k = Some k'"
  then have "prio < 64"
    using SetPriority_total [of t prio k] by simp
  moreover from this have k': "k' = upd_thread t (\<lambda>th. th\<lparr>nominal_priority := prio, current_priority := prio\<rparr>)
    (upd_ready (core_id (threads k t)) (if status (threads k t) = Ready
       then tql_move t (current_priority (threads k t)) prio else prepare prio) k)"
    using h(3) by (simp add: SetPriority_def Let_def prio_defs)
  ultimately show ?thesis
    unfolding k' using h(1,2) by (intro requeue_inv) simp_all
qed

lemma best_priority_Min: "best_priority k ms b = Min (insert b ((\<lambda>m. priority (mutexes k m)) ` set ms))"
proof -
  have "best_priority k ms b = fold min (map (\<lambda>m. priority (mutexes k m)) ms) b"
    unfolding best_priority_def fold_map by (rule fold_cong) (auto simp: fun_eq_iff min_def)
  also have "\<dots> = Min (set (b # map (\<lambda>m. priority (mutexes k m)) ms))"
    by (rule Min.set_eq_fold [symmetric])
  finally show ?thesis by simp
qed

lemma best_priority_le: "best_priority k ms b \<le> b"
  by (simp add: best_priority_Min)

lemma UpdatePriority_inv [inv_intros]:
  assumes "sched_inv k" "t < num_threads k"
  shows "sched_inv (Thread_UpdatePriority t k)"
  unfolding Thread_UpdatePriority_def
  using assms sched_invD(2) [OF assms] best_priority_le
  by (intro BoostPriority_inv) (auto simp: thread_ok_def intro: le_less_trans)

lemma Boost_frame [simp]:
  "num_threads (BoostPriority t p k) = num_threads k"
  "waiting_threads (BoostPriority t p k) = waiting_threads k"
  "mutexes (BoostPriority t p k) = mutexes k"
  "semaphores (BoostPriority t p k) = semaphores k"
  "events (BoostPriority t p k) = events k"
  "ktimers (BoostPriority t p k) = ktimers k"
  "arbiters (BoostPriority t p k) = arbiters k"
  "timing (BoostPriority t p k) = timing k"
  "current_cpu (BoostPriority t p k) = current_cpu k"
  "num_mutexes (BoostPriority t p k) = num_mutexes k"
  "hle_notifier (BoostPriority t p k) = hle_notifier k"
  "client_ports (BoostPriority t p k) = client_ports k"
  "server_ports (BoostPriority t p k) = server_ports k"
  "sessions (BoostPriority t p k) = sessions k"
  "client_sessions (BoostPriority t p k) = client_sessions k"
  "server_sessions (BoostPriority t p k) = server_sessions k"
  "processes (BoostPriority t p k) = processes k"
  "memory (BoostPriority t p k) = memory k"
  "host_alloc (BoostPriority t p k) = host_alloc k"
  "current_process (BoostPriority t p k) = current_process k"
  "connected_sessions (BoostPriority t p k) = connected_sessions k"
  "num_client_ports (BoostPriority t p k) = num_client_ports k"
  "num_server_ports (BoostPriority t p k) = num_server_ports k"
  "num_sessions (BoostPriority t p k) = num_sessions k"
  "num_client_sessions (BoostPriority t p k) = num_client_sessions k"
  "num_server_sessions (BoostPriority t p k) = num_server_sessions k"
  "named_ports (BoostPriority t p k) = named_ports k"
  "current_thread (thread_managers (BoostPriority t p k) c) = current_thread (thread_managers k c)"
  by (simp_all add: BoostPriority_def Let_def)

lemma Boost_threads:
  "threads (BoostPriority t p k) u = (if u = t then (threads k t)\<lparr>current_priority := p\<rparr> else threads k u)"
  by (simp add: BoostPriority_def Let_def)

lemma UpdatePriority_frame [simp]:
  "num_threads (Thread_UpdatePriority t k) = num_threads k"
  "waiting_threads (Thread_UpdatePriority t k) = waiting_threads k"
  "mutexes (Thread_UpdatePriority t k) = mutexes k"
  "semaphores (Thread_UpdatePriority t k) = semaphores k"
  "events (Thread_UpdatePriority t k) = events k"
  "ktimers (Thread_UpdatePriority t k) = ktimers k"
  "arbiters (Thread_UpdatePriority t k) = arbiters k"
  "timing (Thread_UpdatePriority t k) = timing k"
  "current_cpu (Thread_UpdatePriority t k) = current_cpu k"
  "num_mutexes (Thread_UpdatePriority t k) = num_mutexes k"
  "hle_notifier (Thread_UpdatePriority t k) = hle_notifier k"
  "client_ports (Thread_UpdatePriority t k) = client_ports k"
  "server_ports (Thread_UpdatePriority t k) = server_ports k"
  "sessions (Thread_UpdatePriority t k) = sessions k"
  "client_sessions (Thread_UpdatePriority t k) = client_sessions k"
  "server_sessions (Thread_UpdatePriority t k) = server_sessions k"
  "processes (Thread_UpdatePriority t k) = processes k"
  "memory (Thread_UpdatePriority t k) = memory k"
  "host_alloc (Thread_UpdatePriority t k) = host_alloc k"
  "current_process (Thread_UpdatePriority t k) = current_process k"
  "connected_sessions (Thread_UpdatePriority t k) = connected_sessions k"
  "num_client_ports (Thread_UpdatePriority t k) = num_client_ports k"
  "num_server_ports (Thread_UpdatePriority t k) = num_server_ports k"
  "num_sessions (Thread_UpdatePriority t k) = num_sessions k"
  "num_client_sessions (Thread_UpdatePriority t k) = num_client_sessions k"
  "num_server_sessions (Thread_UpdatePriority t k) = num_server_sessions k"
  "named_ports (Thread_UpdatePriority t k) = named_ports k"
  "current_thread (thread_managers (Thread_UpdatePriority t k) c) = current_thread (thread_managers k c)"
  by (simp_all add: Thread_UpdatePriority_def)

lemma UpdatePriority_threads:
  "threads (Thread_UpdatePriority t k) u =
     (if u = t then (threads k t)\<lparr>current_priority := Min (insert (nominal_priority (threads k t))
        ((\<lambda>m. priority (mutexes k m)) ` set (held_mutexes (threads k t))))\<rparr> else threads k u)"
  by (simp add: Thread_UpdatePriority_def Boost_threads best_priority_Min)

text \<open>The statuses from which \<^verbatim>\<open>ResumeFromWait\<close> makes a thread ready.\<close>

definition can_resume :: "ThreadStatus \<Rightarrow> bool" where
  "can_resume s \<longleftrightarrow> s \<notin> {Ready, Running, Dead}"

definition make_ready :: "nat \<Rightarrow> kernel \<Rightarrow> kernel" where
  "make_ready t k = PrepareReschedule
     (upd_thread t (\<lambda>th. th\<lparr>wakeup_callback := None, status := Ready\<rparr>)
       (upd_ready (core_id (threads k t)) (push_back (current_priority (threads k t)) t) k))"

lemma ResumeFromWait_cases:
  "ResumeFromWait t k =
     (if wait_objects (threads k t) \<noteq> [] then None
      else if can_resume (status (threads k t)) then Some (make_ready t k)
      else if status (threads k t) = Ready \<and> wakeup_callback (threads k t) \<noteq> None then None
      else Some k)"
  by (cases "status (threads k t)") (auto simp: ResumeFromWait_def can_resume_def make_ready_def Let_def)

lemma make_ready_inv [inv_intros]:
  assumes inv: "sched_inv k" and t: "t < num_threads k" and st: "can_resume (status (threads k t))"
  shows "sched_inv (make_ready t k)"
proof -
  let ?c = "core_id (threads k t)" and ?p = "current_priority (threads k t)"
  have old: "?p < 64" "linked (rq k ?c) ?p" "tql_inv (rq k ?c)" "NUM_QUEUES (rq k ?c) = 64"
    using sched_invD(2) [OF inv t] queue_okD [OF sched_invD(1) [OF inv], of ?c] by (auto simp: thread_ok_def)
  have notin: "t \<notin> set (q_data (rq k ?c) p)" if "p < 64" for p
    using queue_okD(4) [OF sched_invD(1) [OF inv] that, of ?c] st by (auto simp: can_resume_def)
  have "queue_ok (make_ready t k) c" for c
  proof (cases "c = ?c")
    case True
    then show ?thesis
      using old t notin queue_okD(3,4) [OF sched_invD(1) [OF inv], of _ ?c] push_back_inv [OF old(3,2)]
      unfolding queue_ok_def make_ready_def by (auto simp: ops_data)
  next
    case False
    then show ?thesis
      using sched_invD(1) [OF inv, of c] unfolding queue_ok_def make_ready_def by auto
  qed
  moreover have "thread_ok (make_ready t k) u" if "u < num_threads k" for u
    using sched_invD(2) [OF inv that] by (auto simp: thread_ok_def make_ready_def)
  ultimately show ?thesis
    by (simp add: sched_inv_def make_ready_def)
qed

lemma Resume_inv:
  "sched_inv k \<Longrightarrow> t < num_threads k \<Longrightarrow> ResumeFromWait t k = Some k' \<Longrightarrow> sched_inv k'"
  by (auto simp: ResumeFromWait_cases make_ready_inv split: if_splits)

lemma make_ready_frame [simp]:
  "num_threads (make_ready t k) = num_threads k"
  "waiting_threads (make_ready t k) = waiting_threads k"
  "mutexes (make_ready t k) = mutexes k"
  "semaphores (make_ready t k) = semaphores k"
  "events (make_ready t k) = events k"
  "ktimers (make_ready t k) = ktimers k"
  "arbiters (make_ready t k) = arbiters k"
  "timing (make_ready t k) = timing k"
  "current_cpu (make_ready t k) = current_cpu k"
  "num_mutexes (make_ready t k) = num_mutexes k"
  "hle_notifier (make_ready t k) = hle_notifier k"
  "client_ports (make_ready t k) = client_ports k"
  "server_ports (make_ready t k) = server_ports k"
  "sessions (make_ready t k) = sessions k"
  "client_sessions (make_ready t k) = client_sessions k"
  "server_sessions (make_ready t k) = server_sessions k"
  "processes (make_ready t k) = processes k"
  "memory (make_ready t k) = memory k"
  "host_alloc (make_ready t k) = host_alloc k"
  "current_process (make_ready t k) = current_process k"
  "connected_sessions (make_ready t k) = connected_sessions k"
  "num_client_ports (make_ready t k) = num_client_ports k"
  "num_server_ports (make_ready t k) = num_server_ports k"
  "num_sessions (make_ready t k) = num_sessions k"
  "num_client_sessions (make_ready t k) = num_client_sessions k"
  "num_server_sessions (make_ready t k) = num_server_sessions k"
  "named_ports (make_ready t k) = named_ports k"
  "current_thread (thread_managers (make_ready t k) c) = current_thread (thread_managers k c)"
  by (simp_all add: make_ready_def)

lemma make_ready_threads:
  "threads (make_ready t k) u =
     (if u = t then (threads k t)\<lparr>wakeup_callback := None, status := Ready\<rparr> else threads k u)"
  by (simp add: make_ready_def)

text \<open>C26: Ready queues and threads agree.  In a state where the ready queue of every core holds exactly the
  ready threads of that core, each once and on the level of its current priority, changing the
  nominal priority of a thread, boosting it, recomputing its priority from the mutexes it holds
  and resuming it from a wait keep that so.  Setting a priority returns exactly for priorities up to 63,
  and resuming a thread that waits appends it behind the ready threads of its priority.\<close>

theorem ready_queue_agrees:
  assumes "sched_inv k" and "t < num_threads k"
  shows "(SetPriority t p k \<noteq> None \<longleftrightarrow> p \<le> ThreadPrioLowest) \<and>
    (\<forall>k'. SetPriority t p k = Some k' \<longrightarrow> sched_inv k' \<and> current_priority (threads k' t) = p) \<and>
    (p \<le> ThreadPrioLowest \<longrightarrow> sched_inv (BoostPriority t p k)) \<and>
    sched_inv (Thread_UpdatePriority t k) \<and>
    (\<forall>k'. ResumeFromWait t k = Some k' \<longrightarrow> sched_inv k') \<and>
    (can_resume (status (threads k t)) \<and> wait_objects (threads k t) = [] \<longrightarrow>
       (\<exists>k'. ResumeFromWait t k = Some k' \<and> status (threads k' t) = Ready \<and> reschedule_pending k' \<and>
          q_data (rq k' (core_id (threads k t))) (current_priority (threads k t)) =
            q_data (rq k (core_id (threads k t))) (current_priority (threads k t)) @ [t]))"
proof -
  let ?c = "core_id (threads k t)" and ?p = "current_priority (threads k t)"
  have "?p < NUM_QUEUES (rq k ?c)"
    using sched_invD(2) [OF assms] queue_okD(2) [OF sched_invD(1) [OF assms(1)]] by (simp add: thread_ok_def)
  then have "can_resume (status (threads k t)) \<and> wait_objects (threads k t) = [] \<longrightarrow>
       (\<exists>k'. ResumeFromWait t k = Some k' \<and> status (threads k' t) = Ready \<and> reschedule_pending k' \<and>
          q_data (rq k' ?c) ?p = q_data (rq k ?c) ?p @ [t])"
    by (simp add: ResumeFromWait_cases make_ready_def PrepareReschedule_def ops_data)
  moreover have "current_priority (threads k' t) = p" if "SetPriority t p k = Some k'" for k'
    using that by (auto simp: SetPriority_def Let_def split: if_splits)
  ultimately show ?thesis
    using assms SetPriority_total [of t p k] SetPriority_inv [OF assms] Resume_inv [OF assms]
      BoostPriority_inv [OF assms] UpdatePriority_inv [OF assms]
    by (auto simp: prio_defs)
qed


text \<open>A kernel with one dormant thread of the default priority on core 0.\<close>

definition demo_kernel :: kernel where
  "demo_kernel = upd_ready 0 (prepare 48)
     (upd_thread 0 (\<lambda>th. th\<lparr>nominal_priority := 48, current_priority := 48\<rparr>)
        ((new_KernelSystem 1 (new_Timing 1 100 0 0) demo_memory (\<lambda>_. demo_region) 0x60000 0x61000 (\<lambda>_ _. 0x100000))\<lparr>num_threads := 1\<rparr>))"

lemma demo_kernel_simps [simp]:
  "num_threads demo_kernel = 1"
  "threads demo_kernel 0 = blank_thread\<lparr>nominal_priority := 48, current_priority := 48\<rparr>"
  "rq demo_kernel c = (if c = 0 then prepare 48 (ThreadQueueList 64) else ThreadQueueList 64)"
  by (simp_all add: demo_kernel_def new_KernelSystem_def new_ThreadManager_def)

lemma demo_kernel_inv: "sched_inv demo_kernel"
proof -
  have e: "q_data (ThreadQueueList 64 :: nat tql) p = []" if "p < 64" for p
    using that by (simp add: ThreadQueueList_def empty_queue_def)
  have n: "NUM_QUEUES (ThreadQueueList 64 :: nat tql) = 64"
    by (simp add: ThreadQueueList_def)
  have "tql_inv (prepare 48 (ThreadQueueList 64 :: nat tql))"
    using n by (intro prepare_inv tql_inv_new) simp
  then have "queue_ok demo_kernel c" for c
    unfolding queue_ok_def using tql_inv_new [where 'a = nat and N = 64] n e
    by (auto simp: blank_thread_def)
  moreover have "thread_ok demo_kernel 0"
    using tql_inv_new [where 'a = nat and N = 64] n by (simp add: thread_ok_def blank_thread_def prepare_linked)
  ultimately show ?thesis
    by (simp add: sched_inv_def)
qed

theorem ready_queue_agrees_witness:
  "sched_inv demo_kernel \<and> (0 :: nat) < num_threads demo_kernel \<and>
   (\<exists>k'. ResumeFromWait 0 demo_kernel = Some k' \<and> status (threads k' 0) = Ready)"
  using ready_queue_agrees [OF demo_kernel_inv, of 0 0] demo_kernel_inv
  by (auto simp: can_resume_def blank_thread_def)

end
