(* ===== verification/Process_Memory.thy ===== *)
theory Process_Memory
  imports Kernel_Objects
begin

text \<open>
  The memory of a process, \<^verbatim>\<open>core/hle/kernel/process.cpp\<close>: its heap, its linear heap, the pages of thread local storage, aliases
  of its own memory, and giving everything back at the end.

  These operations join the address space of the process, the allocator of its region of physical memory, host memory
  and the resource limit.  As in the allocator, \<open>ops\<close> are the operations of the interval sets.
\<close>

unbundle bit_operations_syntax

section \<open>Parts of the state\<close>

definition upd_process :: "nat \<Rightarrow> (Process \<Rightarrow> Process) \<Rightarrow> kernel \<Rightarrow> kernel" where
  "upd_process p f k = k\<lparr>processes := (processes k)(p := f (processes k p))\<rparr>"

definition set_vm :: "nat \<Rightarrow> VMManager \<Rightarrow> kernel \<Rightarrow> kernel" where
  "set_vm p m = upd_process p (\<lambda>pr. pr\<lparr>vm_manager := m\<rparr>)"

abbreviation vm_of :: "kernel \<Rightarrow> nat \<Rightarrow> VMManager" where
  "vm_of k p \<equiv> vm_manager (processes k p)"

definition set_region :: "nat \<Rightarrow> MemoryRegionInfo \<Rightarrow> kernel \<Rightarrow> kernel" where
  "set_region i r k = k\<lparr>memory_regions := (memory_regions k)(i := r)\<rparr>"

abbreviation kcached :: "kernel \<Rightarrow> nat \<Rightarrow> bool" where
  "kcached k \<equiv> cached_page (memory k)"

text \<open>The results of reserving and releasing are ignored by these operations.\<close>

definition reserve_limit :: "nat \<Rightarrow> ResourceLimitType \<Rightarrow> int \<Rightarrow> kernel \<Rightarrow> (bool \<times> kernel) option" where
  "reserve_limit p ty amount k =
     (let i = resource_limit (processes k p) in
      map_option (\<lambda>(b, r). (b, k\<lparr>resource_limits := (resource_limits k)(i := r)\<rparr>))
        (Reserve (type_index ty) amount (resource_limits k i)))"

definition release_limit :: "nat \<Rightarrow> ResourceLimitType \<Rightarrow> int \<Rightarrow> kernel \<Rightarrow> (bool \<times> kernel) option" where
  "release_limit p ty amount k =
     (let i = resource_limit (processes k p) in
      map_option (\<lambda>(b, r). (b, k\<lparr>resource_limits := (resource_limits k)(i := r)\<rparr>))
        (Release (type_index ty) amount (resource_limits k i)))"

text \<open>\<^verbatim>\<open>std::fill\<close> with zeros of a range of FCRAM.\<close>

definition fill_zero :: "nat \<Rightarrow> nat \<Rightarrow> MemorySystem \<Rightarrow> MemorySystem option" where
  "fill_zero lower upper ms = do {
     a \<leftarrow> GetFCRAMPointer ms lower;
     b \<leftarrow> GetFCRAMPointer ms upper;
     Some (host_write a (replicate (b - a) 0) ms)
   }"

definition perm_Read :: VMAPermission where "perm_Read = 1"
definition perm_ReadExecute :: VMAPermission where "perm_ReadExecute = 1 OR 4"

text \<open>The amounts are unsigned and passed as \<^verbatim>\<open>s32\<close>.\<close>

definition as_s32 :: "nat \<Rightarrow> int" where
  "as_s32 n = wrap_s32 (int n)"


section \<open>Mapping blocks\<close>

text \<open>
  What most operations do with a block of host memory: map it, assert that this succeeded and change the permissions of the area it
  ended up in.
\<close>

definition map_block :: "(nat \<Rightarrow> bool) \<Rightarrow> MemoryState \<Rightarrow> VMAPermission \<Rightarrow> MemoryRef \<times> nat \<Rightarrow> nat \<times> VMManager \<Rightarrow> (nat \<times> VMManager) option" where
  "map_block cached state perms = (\<lambda>(memory, sz) (target, m). do {
     (r, m1) \<leftarrow> MapBackingMemory cached target memory sz state m;
     i \<leftarrow> Unwrap r;
     (m2, _) \<leftarrow> Reprotect cached perms i m1;
     Some (wrap_u32 (target + sz), m2)
   })"

text \<open>Whether an area of the address space is free and reaches to the end of a range; the end iterator must not be used.\<close>

definition free_area_at :: "nat \<Rightarrow> nat \<Rightarrow> VMManager \<Rightarrow> bool option" where
  "free_area_at target sz m = do {
     i \<leftarrow> FindVMA target (vma_map m);
     assert_opt (i < length (vma_map m));
     let v = vma_map m ! i;
     Some (vtype v = VFree \<and> \<not> wrap_u32 (vbase v + vsize v) < wrap_u32 (target + sz))
   }"

definition outside :: "nat \<Rightarrow> nat \<Rightarrow> nat \<Rightarrow> nat \<Rightarrow> bool" where
  "outside lo hi target sz \<longleftrightarrow> target < lo \<or> wrap_u32 (target + sz) > hi \<or> wrap_u32 (target + sz) < target"


section \<open>The heap\<close>

definition heap_block :: "MemoryState \<Rightarrow> VMAPermission \<Rightarrow> nat \<Rightarrow> Interval \<Rightarrow> nat \<times> kernel \<Rightarrow> (nat \<times> kernel) option" where
  "heap_block state perms p i = (\<lambda>(target, k). do {
     ms \<leftarrow> fill_zero (fst i) (snd i) (memory k);
     ref \<leftarrow> GetFCRAMRef (memory k) (fst i);
     (target1, m) \<leftarrow> map_block (kcached k) state perms (ref, snd i - fst i) (target, vm_of k p);
     Some (target1, set_vm p m (k\<lparr>memory := ms\<rparr>))
   })"

definition Process_HeapAllocate ::
  "icl \<Rightarrow> nat \<Rightarrow> nat \<Rightarrow> nat \<Rightarrow> VMAPermission \<Rightarrow> MemoryState \<Rightarrow> bool \<Rightarrow> kernel \<Rightarrow> (nat result_val \<times> kernel) option" where
  "Process_HeapAllocate ops p target sz perms state skip_range_check k =
     (if outside HEAP_VADDR HEAP_VADDR_END target sz \<and> \<not> skip_range_check then Some (Inl ResultInvalidAddress, k)
      else do {
        free \<leftarrow> free_area_at target sz (vm_of k p);
        if \<not> free then Some (Inl ResultInvalidAddressState, k)
        else do {
          r \<leftarrow> memory_region (processes k p);
          (blocks, reg) \<leftarrow> Region_HeapAllocate ops sz (memory_regions k r);
          if blocks = [] then Some (Inl ResultOutOfHeapMemory, set_region r reg k)
          else do {
            (_, k1) \<leftarrow> fold_opt (heap_block state perms p) blocks (target, set_region r reg k);
            let k2 = upd_process p (\<lambda>pr. pr\<lparr>holding_memory := icl_add_set ops (holding_memory pr) blocks,
                                           memory_used := wrap_u32 (memory_used pr + sz)\<rparr>) k1;
            (_, k3) \<leftarrow> reserve_limit p RCommit (as_s32 sz) k2;
            Some (Inr target, k3)
          }
        }
      })"

definition free_block :: "icl \<Rightarrow> nat \<Rightarrow> nat \<Rightarrow> MemoryRef \<times> nat \<Rightarrow> kernel \<Rightarrow> kernel option" where
  "free_block ops p r = (\<lambda>(ref, sz) k. do {
     off \<leftarrow> GetFCRAMOffset (memory k) (GetPtr ref);
     reg \<leftarrow> Region_Free ops off sz (memory_regions k r);
     Some (upd_process p (\<lambda>pr. pr\<lparr>holding_memory := icl_sub ops (holding_memory pr) (off, wrap_u32 (off + sz))\<rparr>)
            (set_region r reg k))
   })"

definition Process_HeapFree :: "icl \<Rightarrow> nat \<Rightarrow> nat \<Rightarrow> nat \<Rightarrow> kernel \<Rightarrow> (result \<times> kernel) option" where
  "Process_HeapFree ops p target sz k =
     (if outside HEAP_VADDR HEAP_VADDR_END target sz then Some (ResultInvalidAddress, k)
      else if sz = 0 then Some (ResultSuccess, k)
      else do {
        b \<leftarrow> GetBackingBlocksForRange target sz (vm_of k p);
        case b of
          Inl e \<Rightarrow> Some (e, k)
        | Inr blocks \<Rightarrow> do {
            r \<leftarrow> memory_region (processes k p);
            k1 \<leftarrow> fold_opt (free_block ops p r) blocks k;
            (res, m) \<leftarrow> UnmapRange (kcached k1) target sz (vm_of k1 p);
            assert_opt (IsSuccess res);
            let k2 = upd_process p (\<lambda>pr. pr\<lparr>memory_used := sub_u32 (memory_used pr) sz\<rparr>) (set_vm p m k1);
            (_, k3) \<leftarrow> release_limit p RCommit (as_s32 sz) k2;
            Some (ResultSuccess, k3)
          }
      })"


section \<open>The linear heap\<close>

definition GetLinearHeapAreaAddress :: "Process \<Rightarrow> nat" where
  "GetLinearHeapAreaAddress pr = (if kernel_version pr < 0x22C then LINEAR_HEAP_VADDR else NEW_LINEAR_HEAP_VADDR)"

definition GetLinearHeapBase :: "Process \<Rightarrow> MemoryRegionInfo \<Rightarrow> nat" where
  "GetLinearHeapBase pr reg = wrap_u32 (GetLinearHeapAreaAddress pr + region_base reg)"

definition GetLinearHeapLimit :: "Process \<Rightarrow> MemoryRegionInfo \<Rightarrow> nat" where
  "GetLinearHeapLimit pr reg = wrap_u32 (GetLinearHeapBase pr reg + region_size reg)"

text \<open>The end of \<^verbatim>\<open>LinearAllocate\<close>, once the offset in FCRAM is known.\<close>

definition linear_map :: "icl \<Rightarrow> nat \<Rightarrow> nat \<Rightarrow> nat \<Rightarrow> nat \<Rightarrow> VMAPermission \<Rightarrow> kernel \<Rightarrow> (nat result_val \<times> kernel) option" where
  "linear_map ops p target off sz perms k = do {
     ref \<leftarrow> GetFCRAMRef (memory k) off;
     let ms = host_write (GetPtr ref) (replicate sz 0) (memory k);
     (_, m) \<leftarrow> map_block (kcached k) MS_Continuous perms (ref, sz) (target, vm_of k p);
     let k1 = upd_process p (\<lambda>pr. pr\<lparr>holding_memory := icl_add ops (holding_memory pr) (off, wrap_u32 (off + sz)),
                                    memory_used := wrap_u32 (memory_used pr + sz)\<rparr>) (set_vm p m (k\<lparr>memory := ms\<rparr>));
     (_, k2) \<leftarrow> reserve_limit p RCommit (as_s32 sz) k1;
     Some (Inr target, k2)
   }"

definition Process_LinearAllocate ::
  "icl \<Rightarrow> nat \<Rightarrow> nat \<Rightarrow> nat \<Rightarrow> VMAPermission \<Rightarrow> kernel \<Rightarrow> (nat result_val \<times> kernel) option" where
  "Process_LinearAllocate ops p target sz perms k = do {
     let pr = processes k p;
     r \<leftarrow> memory_region pr;
     let reg = memory_regions k r;
     if target = 0 then do {
       (off, reg1) \<leftarrow> Region_LinearAllocate ops sz reg;
       case off of
         None \<Rightarrow> Some (Inl ResultOutOfHeapMemory, set_region r reg1 k)
       | Some off \<Rightarrow> linear_map ops p (wrap_u32 (off + GetLinearHeapAreaAddress pr)) off sz perms (set_region r reg1 k)
     }
     else if outside (GetLinearHeapBase pr reg) (GetLinearHeapLimit pr reg) target sz then Some (Inl ResultInvalidAddress, k)
     else do {
       let off = sub_u32 target (GetLinearHeapAreaAddress pr);
       (ok, reg1) \<leftarrow> Region_LinearAllocate_at ops off sz reg;
       if \<not> ok then Some (Inl ResultInvalidAddressState, set_region r reg1 k)
       else linear_map ops p target off sz perms (set_region r reg1 k)
     }
   }"

definition Process_LinearFree :: "icl \<Rightarrow> nat \<Rightarrow> nat \<Rightarrow> nat \<Rightarrow> kernel \<Rightarrow> (result \<times> kernel) option" where
  "Process_LinearFree ops p target sz k = do {
     let pr = processes k p;
     r \<leftarrow> memory_region pr;
     let reg = memory_regions k r;
     if outside (GetLinearHeapBase pr reg) (GetLinearHeapLimit pr reg) target sz then Some (ResultInvalidAddress, k)
     else if sz = 0 then Some (ResultSuccess, k)
     else do {
       (res, m) \<leftarrow> UnmapRange (kcached k) target sz (vm_of k p);
       let k1 = set_vm p m k;
       if IsError res then Some (res, k1)
       else do {
         let off = sub_u32 target (GetLinearHeapAreaAddress pr);
         reg1 \<leftarrow> Region_Free ops off sz reg;
         let k2 = upd_process p (\<lambda>pr. pr\<lparr>holding_memory := icl_sub ops (holding_memory pr) (off, wrap_u32 (off + sz)),
                                        memory_used := sub_u32 (memory_used pr) sz\<rparr>) (set_region r reg1 k1);
         (_, k3) \<leftarrow> release_limit p RCommit (as_s32 sz) k2;
         Some (ResultSuccess, k3)
       }
     }
   }"


section \<open>Thread local storage\<close>

fun find_slot :: "nat \<Rightarrow> bool list list \<Rightarrow> (nat \<times> nat) option" where
  "find_slot page [] = None"
| "find_slot page (slots # rest) =
     (case find (\<lambda>i. \<not> slots ! i) [0..<length slots] of
        Some i \<Rightarrow> Some (page, i)
      | None \<Rightarrow> find_slot (page + 1) rest)"

definition tls_page_address :: "nat \<Rightarrow> nat" where
  "tls_page_address page = wrap_u32 (TLS_AREA_VADDR + page * CITRA_PAGE_SIZE)"

definition tls_slot_address :: "nat \<Rightarrow> nat \<Rightarrow> nat" where
  "tls_slot_address page slot = wrap_u32 (TLS_AREA_VADDR + page * CITRA_PAGE_SIZE + slot * TLS_ENTRY_SIZE)"

text \<open>A new page comes from the base region; that mapping it can fail is ignored.\<close>

definition new_tls_page :: "icl \<Rightarrow> nat \<Rightarrow> kernel \<Rightarrow> (unit result_val \<times> kernel) option" where
  "new_tls_page ops p k = do {
     let b = GetMemoryRegion BASE;
     (off, reg) \<leftarrow> Region_LinearAllocate ops CITRA_PAGE_SIZE (memory_regions k b);
     case off of
       None \<Rightarrow> Some (Inl ResultOutOfMemory, set_region b reg k)
     | Some off \<Rightarrow> do {
         ref \<leftarrow> GetFCRAMRef (memory k) off;
         (_, m) \<leftarrow> MapBackingMemory (kcached k) (tls_page_address (length (tls_slots (processes k p)))) ref CITRA_PAGE_SIZE
                     MS_Locked (vm_of k p);
         Some (Inr (), upd_process p (\<lambda>pr. pr\<lparr>holding_tls_memory := icl_add ops (holding_tls_memory pr) (off, wrap_u32 (off + CITRA_PAGE_SIZE)),
                      memory_used := wrap_u32 (memory_used pr + CITRA_PAGE_SIZE),
                      tls_slots := tls_slots pr @ [replicate 8 False], vm_manager := m\<rparr>) (set_region b reg k))
       }
   }"

definition take_slot :: "nat \<Rightarrow> nat \<Rightarrow> nat \<Rightarrow> kernel \<Rightarrow> (nat result_val \<times> kernel) option" where
  "take_slot p page slot k = do {
     let k1 = upd_process p (\<lambda>pr. pr\<lparr>tls_slots := (tls_slots pr)[page := (tls_slots pr ! page)[slot := True]]\<rparr>) k;
     ms \<leftarrow> ZeroBlock (page_table (vm_of k1 p)) (tls_slot_address page slot) TLS_ENTRY_SIZE (memory k1);
     Some (Inr (tls_slot_address page slot), k1\<lparr>memory := ms\<rparr>)
   }"

definition AllocateThreadLocalStorage :: "icl \<Rightarrow> nat \<Rightarrow> kernel \<Rightarrow> (nat result_val \<times> kernel) option" where
  "AllocateThreadLocalStorage ops p k =
     (case find_slot 0 (tls_slots (processes k p)) of
        Some (page, slot) \<Rightarrow> take_slot p page slot k
      | None \<Rightarrow> do {
          (r, k1) \<leftarrow> new_tls_page ops p k;
          case r of
            Inl e \<Rightarrow> Some (Inl e, k1)
          | Inr _ \<Rightarrow> take_slot p (length (tls_slots (processes k p))) 0 k1
        })"


section \<open>Aliases\<close>

text \<open>
  \<^verbatim>\<open>Process::Map\<close> and \<^verbatim>\<open>Process::Unmap\<close>.  The two ranges overlap when one of the unsigned differences is less than the
  size.  An error of the first change of state leaves the address space as it was.
\<close>

definition overlapping :: "nat \<Rightarrow> nat \<Rightarrow> nat \<Rightarrow> bool" where
  "overlapping source target sz \<longleftrightarrow> sub_u32 source target < sz \<or> sub_u32 target source < sz"

definition Process_Map ::
  "nat \<Rightarrow> nat \<Rightarrow> nat \<Rightarrow> nat \<Rightarrow> VMAPermission \<Rightarrow> bool \<Rightarrow> kernel \<Rightarrow> (result \<times> kernel) option" where
  "Process_Map p target source sz perms privileged k =
     (if \<not> privileged \<and> outside HEAP_VADDR HEAP_VADDR_END source sz then Some (ResultInvalidAddress, k)
      else if overlapping source target sz then
        if \<not> privileged then Some (ResultInvalidAddressState, k)
        else if source = target then
          map_option (\<lambda>(r, m). (r, set_vm p m k))
            (ChangeMemoryState (kcached k) source sz MS_Private perm_ReadWrite MS_AliasCode perms (vm_of k p))
        else Some (ResultInvalidAddress, k)
      else do {
        free \<leftarrow> free_area_at target sz (vm_of k p);
        if \<not> free then Some (ResultInvalidAddressState, k)
        else do {
          let source_state = (if privileged then MS_Locked else MS_Aliased);
          let target_state = (if privileged then MS_AliasCode else MS_Alias);
          let source_perm = (if privileged then perm_None else perm_ReadWrite);
          (res, m) \<leftarrow> ChangeMemoryState (kcached k) source sz MS_Private perm_ReadWrite source_state source_perm (vm_of k p);
          let k1 = set_vm p m k;
          if IsError res then Some (res, k1)
          else do {
            b \<leftarrow> GetBackingBlocksForRange source sz m;
            case b of
              Inl e \<Rightarrow> Some (e, k1)
            | Inr blocks \<Rightarrow> do {
                (_, m1) \<leftarrow> fold_opt (map_block (kcached k) target_state perms) blocks (target, m);
                Some (ResultSuccess, set_vm p m1 k1)
              }
          }
        }
      })"

definition Process_Unmap ::
  "nat \<Rightarrow> nat \<Rightarrow> nat \<Rightarrow> nat \<Rightarrow> VMAPermission \<Rightarrow> bool \<Rightarrow> kernel \<Rightarrow> (result \<times> kernel) option" where
  "Process_Unmap p target source sz perms privileged k =
     (if \<not> privileged \<and> outside HEAP_VADDR HEAP_VADDR_END source sz then Some (ResultInvalidAddress, k)
      else if overlapping source target sz then
        if \<not> privileged then Some (ResultInvalidAddressState, k)
        else if source = target then
          map_option (\<lambda>(r, m). (r, set_vm p m k))
            (ChangeMemoryState (kcached k) source sz MS_AliasCode perm_None MS_Private perms (vm_of k p))
        else Some (ResultInvalidAddress, k)
      else do {
        (res, m) \<leftarrow> UnmapRange (kcached k) target sz (vm_of k p);
        let k1 = set_vm p m k;
        if IsError res then Some (res, k1)
        else map_option (\<lambda>(r, m1). (r, set_vm p m1 k1))
          (ChangeMemoryState (kcached k) source sz (if privileged then MS_Locked else MS_Aliased) perm_None MS_Private perms m)
      })"

text \<open>\<^verbatim>\<open>FreeAllMemory\<close> does nothing for a process that never ran.\<close>

definition free_held :: "icl \<Rightarrow> nat \<Rightarrow> nat \<Rightarrow> Interval \<Rightarrow> kernel \<Rightarrow> kernel option" where
  "free_held ops p r i k = do {
     reg \<leftarrow> Region_Free ops (fst i) (snd i - fst i) (memory_regions k r);
     Some (upd_process p (\<lambda>pr. pr\<lparr>memory_used := sub_u32 (memory_used pr) (snd i - fst i)\<rparr>) (set_region r reg k))
   }"

definition FreeAllMemory :: "icl \<Rightarrow> nat \<Rightarrow> kernel \<Rightarrow> kernel option" where
  "FreeAllMemory ops p k =
     (case memory_region (processes k p) of
        None \<Rightarrow> Some k
      | Some r \<Rightarrow> do {
          k1 \<leftarrow> fold_opt (\<lambda>i k. do {
                 k1 \<leftarrow> free_held ops p r i k;
                 (_, k2) \<leftarrow> release_limit p RCommit (as_s32 (snd i - fst i)) k1;
                 Some k2
               }) (holding_memory (processes k p)) k;
          let k2 = upd_process p (\<lambda>pr. pr\<lparr>holding_memory := []\<rparr>) k1;
          k3 \<leftarrow> fold_opt (free_held ops p (GetMemoryRegion BASE)) (holding_tls_memory (processes k2 p)) k2;
          Some (upd_process p (\<lambda>pr. pr\<lparr>holding_tls_memory := [], tls_slots := []\<rparr>) k3)
        })"



section \<open>Mapping a list of blocks\<close>

text \<open>The pages that a block of host memory becomes.\<close>

definition block_pages :: "VMAPermission \<Rightarrow> MemoryState \<Rightarrow> MemoryRef \<times> nat \<Rightarrow> page list" where
  "block_pages perms state = (\<lambda>(ref, n). map (\<lambda>j. (BackingMemory, perms, state, GetPtr ref + j * CITRA_PAGE_SIZE)) [0..<n div CITRA_PAGE_SIZE])"

definition good_block :: "host \<Rightarrow> MemoryRef \<times> nat \<Rightarrow> bool" where
  "good_block H = (\<lambda>(ref, n). ref_ok H ref n \<and> 0 < n \<and> CITRA_PAGE_SIZE dvd n)"

abbreviation total_size :: "(MemoryRef \<times> nat) list \<Rightarrow> nat" where
  "total_size bs \<equiv> sum_list (map snd bs)"

abbreviation all_free :: "nat \<Rightarrow> nat \<Rightarrow> VMManager \<Rightarrow> bool" where
  "all_free t n m \<equiv> \<forall>p \<in> set (range_pages t n (pages (vma_map m))). fst p = VFree"

lemma block_pages_length [simp]: "length (block_pages perms state b) = snd b div CITRA_PAGE_SIZE"
  by (cases b) (simp add: block_pages_def)

lemma good_range_split:
  assumes "good_range t (a + b)" "CITRA_PAGE_SIZE dvd a" "0 < a"
  shows "good_range t a" "0 < b \<Longrightarrow> good_range (t + a) b"
  using assms dvd_add_right_iff [of CITRA_PAGE_SIZE a b] by (auto simp: good_range_def)

lemma set_range_nth:
  assumes "t div CITRA_PAGE_SIZE + length qs \<le> length ps" "k < length ps"
  shows "set_range t qs ps ! k =
    (if k < t div CITRA_PAGE_SIZE then ps ! k
     else if k < t div CITRA_PAGE_SIZE + length qs then qs ! (k - t div CITRA_PAGE_SIZE) else ps ! k)"
proof -
  have "length (take (t div CITRA_PAGE_SIZE) ps) = t div CITRA_PAGE_SIZE" using assms(1) by simp
  then show ?thesis using assms by (auto simp: set_range_def nth_append)
qed

text \<open>
  The pages on both sides of a range differ from those that mapping it creates, so that the new area is not merged with
  its neighbours before its permissions are set.
\<close>

definition isolated :: "nat \<Rightarrow> nat \<Rightarrow> MemoryState \<Rightarrow> VMManager \<Rightarrow> bool" where
  "isolated t n state m \<longleftrightarrow> (\<forall>k < MAX_ADDRESS div CITRA_PAGE_SIZE. Suc k = t div CITRA_PAGE_SIZE \<or> k = (t + n) div CITRA_PAGE_SIZE \<longrightarrow>
     page_key (pages (vma_map m) ! k) \<noteq> (BackingMemory, perm_ReadWrite, state))"

lemma dvd_page: "CITRA_PAGE_SIZE dvd a \<Longrightarrow> a div CITRA_PAGE_SIZE * CITRA_PAGE_SIZE = a"
  by (rule dvd_div_mult_self)

lemma isolated_area:
  assumes c: "chain H 0 l MAX_ADDRESS" and i: "v \<in> set l" "vbase v \<le> t" "t + n \<le> vbase v + vsize v" and r: "good_range t n"
    and p: "pages l = set_range t (block_pages perm_ReadWrite state (ref, n)) (pages (vma_map m))"
    and len: "length (pages (vma_map m)) = MAX_ADDRESS div CITRA_PAGE_SIZE" and iso: "isolated t n state m"
  shows "vbase v = t" "vsize v = n"
proof -
  note r' = good_rangeD [OF r]
  let ?P = CITRA_PAGE_SIZE
  have pt: "t div ?P * ?P = t" "(t + n) div ?P * ?P = t + n" "(t + n) div ?P = t div ?P + n div ?P" "n div ?P * ?P = n"
    using r'(1,2) dvd_page [OF dvd_add [OF r'(1,2)]] by (simp_all add: div_plus_div_distrib_dvd_left)
  have lt: "t div ?P + n div ?P \<le> MAX_ADDRESS div ?P" using div_le_mono [OF r'(4), of ?P] pt(3) by simp
  have n0: "0 < n div ?P" using r'(3) pt(4) by (metis mult_0 not_gr_zero)
  have key: "area_key v = (BackingMemory, perm_ReadWrite, state)"
  proof -
    have "page_key (pages l ! (t div ?P)) = area_key v" using page_at [OF c i(1), of "t div ?P"] pt(1) i(2,3) r'(3) by simp
    moreover have "pages l ! (t div ?P) = block_pages perm_ReadWrite state (ref, n) ! 0"
      using set_range_nth [of t "block_pages perm_ReadWrite state (ref, n)" "pages (vma_map m)" "t div ?P"] p len lt n0 by simp
    ultimately show ?thesis using n0 by (simp add: block_pages_def page_key_def)
  qed
  have other: "page_key (pages (vma_map m) ! k) = (BackingMemory, perm_ReadWrite, state)" "k < MAX_ADDRESS div ?P"
    if k: "vbase v \<le> k * ?P" "k * ?P < vbase v + vsize v" "k < t div ?P \<or> t div ?P + n div ?P \<le> k" for k
  proof -
    have a: "k < length (pages l)" "page_key (pages l ! k) = area_key v" using page_at [OF c i(1), of k] k(1,2) by auto
    then show "k < MAX_ADDRESS div ?P" using map_length [OF c] by simp
    then show "page_key (pages (vma_map m) ! k) = (BackingMemory, perm_ReadWrite, state)"
      using a(2) key set_range_nth [of t "block_pages perm_ReadWrite state (ref, n)" "pages (vma_map m)" k] p len lt k(3) by auto
  qed
  have dv: "?P dvd vbase v" "?P dvd vbase v + vsize v"
  proof -
    obtain xs ys where l: "l = xs @ v # ys" using i(1) by (meson split_list)
    then have "chain H 0 xs (vbase v)" "chain H (vbase v + vsize v) ys MAX_ADDRESS" using c by (auto simp: chain_append)
    then show "?P dvd vbase v" "?P dvd vbase v + vsize v" using chain_aligned by force+
  qed
  show base: "vbase v = t"
  proof (rule ccontr)
    assume "vbase v \<noteq> t"
    then have "vbase v < t" using i(2) by simp
    then have "vbase v div ?P < t div ?P" using dv(1) pt(1) by (metis dvd_page mult_less_cancel2)
    then have k: "Suc (t div ?P - 1) = t div ?P" "vbase v div ?P \<le> t div ?P - 1" by simp_all
    have "vbase v \<le> (t div ?P - 1) * ?P" using mult_le_mono1 [OF k(2), of ?P] dvd_page [OF dv(1)] by simp
    moreover have "(t div ?P - 1) * ?P < t div ?P * ?P" using k(1) by simp
    then have "(t div ?P - 1) * ?P < vbase v + vsize v" using pt(1) i(3) by linarith
    ultimately show False using other [of "t div ?P - 1"] iso k(1) unfolding isolated_def by auto
  qed
  show "vsize v = n"
  proof (rule ccontr)
    assume "vsize v \<noteq> n"
    then have "t + n < vbase v + vsize v" using i(3) base by simp
    then show False using other [of "(t + n) div ?P"] iso base pt unfolding isolated_def by auto
  qed
qed

lemma map_block_ok:
  assumes "separated H" "vm_inv H F cached m" "\<not> is_locked m" "good_range t n" "ref_ok H ref n" "all_free t n m"
    "perms = perm_ReadWrite \<or> isolated t n state m"
  shows "\<exists>m'. map_block cached state perms (ref, n) (t, m) = Some (t + n, m') \<and> vm_inv H F cached m' \<and> \<not> is_locked m' \<and>
    pages (vma_map m') = set_range t (block_pages perms state (ref, n)) (pages (vma_map m))"
proof -
  obtain i m1 where m1: "MapBackingMemory cached t ref n state m = Some (Inr i, m1)" "vm_inv H F cached m1" "\<not> is_locked m1"
    "i < length (vma_map m1)" "permissions (vma_map m1 ! i) = perm_ReadWrite" "vtype (vma_map m1 ! i) = BackingMemory"
    "vbase (vma_map m1 ! i) \<le> t" "t + n \<le> vbase (vma_map m1 ! i) + vsize (vma_map m1 ! i)"
    "pages (vma_map m1) = set_range t (block_pages perm_ReadWrite state (ref, n)) (pages (vma_map m))"
    using MapBackingMemory_ok [OF assms(1-6), of state] unfolding block_pages_def prod.case by blast
  let ?l = "vma_map m1" and ?v = "vma_map m1 ! i"
  note len = map_length [OF vm_invD(1) [OF assms(2)]]
  have "\<exists>m2 j. Reprotect cached perms i m1 = Some (m2, j) \<and> vm_inv H F cached m2 \<and> \<not> is_locked m2 \<and>
      pages (vma_map m2) = set_range t (block_pages perms state (ref, n)) (pages (vma_map m))"
  proof (cases "perms = perm_ReadWrite")
    case True
    then show ?thesis using Reprotect_same [OF assms(1) m1(2-4,6,5)] m1(9) by simp
  next
    case False
    have c: "chain H 0 ?l MAX_ADDRESS" using vm_invD(1) [OF m1(2)] .
    note v = isolated_area [OF c nth_mem [OF m1(4)] m1(7,8) assms(4) m1(9) len]
    have v: "vbase ?v = t" "vsize ?v = n" using v False assms(7) by auto
    have l: "?l = take i ?l @ ?v # drop (Suc i) ?l" using m1(4) by (rule id_take_nth_drop)
    then have "chain H 0 (take i ?l @ [?v] @ drop (Suc i) ?l) MAX_ADDRESS" using c by simp
    then have ch: "chain H 0 (take i ?l) t" "chain H t [?v] (t + n)" using v by (auto simp: chain_append)
    have "pages (take i ?l @ [?v] @ drop (Suc i) ?l) = pages ?l" using l by simp
    note parts = range_parts [OF ch assms(4) this]
    have "page_attrs ?v = block_pages perm_ReadWrite state (ref, n)"
      using parts(1) m1(9) set_range_pages(1) [OF assms(4) len, of "block_pages perm_ReadWrite state (ref, n)"] by simp
    moreover have "page_attrs (?v\<lparr>permissions := perms\<rparr>) = map (\<lambda>(ty, _, s, a). (ty, perms, s, a)) (page_attrs ?v)"
      by (simp add: page_attrs_def)
    ultimately have "page_attrs (?v\<lparr>permissions := perms\<rparr>) = block_pages perms state (ref, n)" by (simp add: block_pages_def)
    moreover have "pages (take i ?l) = take (t div CITRA_PAGE_SIZE) (pages (vma_map m))"
      "pages (drop (Suc i) ?l) = drop (t div CITRA_PAGE_SIZE + n div CITRA_PAGE_SIZE) (pages (vma_map m))"
      using parts(2,3) m1(9) good_range_le [OF assms(4) len] range_pages_len(1) [OF ch assms(4)] by (simp_all add: set_range_def)
    ultimately show ?thesis
      using Reprotect_spec [OF assms(1) m1(2-4,6), of perms] by (simp add: set_range_def)
  qed
  moreover have "t + n \<le> MAX_ADDRESS" using assms(4) by (simp add: good_range_def)
  ultimately show ?thesis using m1(1) by (auto simp: map_block_def Unwrap_def)
qed

lemma set_range_append:
  assumes "good_range t (n + n')" "CITRA_PAGE_SIZE dvd n" "0 < n" "length ps = MAX_ADDRESS div CITRA_PAGE_SIZE"
    "length qs = n div CITRA_PAGE_SIZE" "length qs' = n' div CITRA_PAGE_SIZE"
  shows "set_range (t + n) qs' (set_range t qs ps) = set_range t (qs @ qs') ps"
    "range_pages (t + n) n' (set_range t qs ps) = range_pages (t + n) n' ps"
proof -
  have d: "CITRA_PAGE_SIZE dvd t" using assms(1) by (simp add: good_range_def)
  then have "(t + n) div CITRA_PAGE_SIZE = t div CITRA_PAGE_SIZE + n div CITRA_PAGE_SIZE" using assms(2) by (simp add: div_plus_div_distrib_dvd_left)
  moreover have "t div CITRA_PAGE_SIZE \<le> length ps"
    using assms(1,4) div_le_mono [of t MAX_ADDRESS CITRA_PAGE_SIZE] by (simp add: good_range_def)
  ultimately show "set_range (t + n) qs' (set_range t qs ps) = set_range t (qs @ qs') ps"
    "range_pages (t + n) n' (set_range t qs ps) = range_pages (t + n) n' ps"
    using assms(5,6) by (simp_all add: set_range_def range_pages_def add_ac)
qed

lemma range_pages_prefix: "p \<in> set (range_pages t a ps) \<Longrightarrow> a \<le> b \<Longrightarrow> p \<in> set (range_pages t b ps)"
  unfolding range_pages_def using div_le_mono [of a b CITRA_PAGE_SIZE] by (meson set_take_subset_set_take subsetD)

lemma range_pages_suffix:
  assumes "CITRA_PAGE_SIZE dvd t" "CITRA_PAGE_SIZE dvd a" "p \<in> set (range_pages (t + a) b ps)"
  shows "p \<in> set (range_pages t (a + b) ps)"
proof -
  have "(t + a) div CITRA_PAGE_SIZE = a div CITRA_PAGE_SIZE + t div CITRA_PAGE_SIZE" "(a + b) div CITRA_PAGE_SIZE = a div CITRA_PAGE_SIZE + b div CITRA_PAGE_SIZE"
    using assms(1,2) by (simp_all add: div_plus_div_distrib_dvd_left)
  then have "range_pages t (a + b) ps = take (a div CITRA_PAGE_SIZE) (drop (t div CITRA_PAGE_SIZE) ps) @ range_pages (t + a) b ps"
    by (simp add: range_pages_def take_add)
  then show ?thesis using assms(3) by simp
qed

lemma blocks_length:
  assumes "list_all (good_block H) bs"
  shows "length (concat (map (block_pages perms state) bs)) = total_size bs div CITRA_PAGE_SIZE"
  using assms by (induction bs) (auto simp: good_block_def div_plus_div_distrib_dvd_left split: prod.splits)

text \<open>After mapping the first of several blocks with other permissions, the rest of the range is still isolated.\<close>

lemma isolated_split:
  assumes iso: "isolated t (n + n') state m" and r: "good_range t (n + n')" and n: "0 < n" "CITRA_PAGE_SIZE dvd n" "0 < n'"
    and free: "all_free t (n + n') m" and len: "length (pages (vma_map m)) = MAX_ADDRESS div CITRA_PAGE_SIZE"
  shows "isolated t n state m"
    "perms \<noteq> perm_ReadWrite \<Longrightarrow> pages (vma_map m') = set_range t (block_pages perms state (ref, n)) (pages (vma_map m)) \<Longrightarrow>
      isolated (t + n) n' state m'"
proof -
  let ?P = CITRA_PAGE_SIZE
  have r': "?P dvd t" "?P dvd n'" using r n(2) good_rangeD [OF r] dvd_add_right_iff [OF n(2)] by (auto simp: good_range_def)
  have e: "(t + n) div ?P = t div ?P + n div ?P" "(t + n + n') div ?P = t div ?P + n div ?P + n' div ?P" "0 < n div ?P" "0 < n' div ?P"
    using r' n by (simp_all add: div_plus_div_distrib_dvd_left div_greater_zero_iff dvd_imp_le)
  have le: "t div ?P + n div ?P + n' div ?P \<le> MAX_ADDRESS div ?P"
    using div_le_mono [OF good_rangeD(4) [OF r], of ?P] e(2) by (simp add: add.assoc)
  have "in_range t (n + n') (t div ?P + n div ?P)" using e by (simp add: in_range_def add.assoc)
  then have "fst (pages (vma_map m) ! (t div ?P + n div ?P)) = VFree"
    using range_pages_nth [OF r len, of "\<lambda>p. fst p = VFree"] free by blast
  then show "isolated t n state m" using iso e unfolding isolated_def by (auto simp: page_key_def)
  show "isolated (t + n) n' state m'" if m': "perms \<noteq> perm_ReadWrite" "pages (vma_map m') = set_range t (block_pages perms state (ref, n)) (pages (vma_map m))"
    unfolding isolated_def
  proof (intro allI impI)
    fix k assume k: "k < MAX_ADDRESS div ?P" "Suc k = (t + n) div ?P \<or> k = (t + n + n') div ?P"
    note nth = set_range_nth [of t "block_pages perms state (ref, n)" "pages (vma_map m)" k, folded m'(2)]
    show "page_key (pages (vma_map m') ! k) \<noteq> (BackingMemory, perm_ReadWrite, state)"
    proof (cases "k = (t + n + n') div ?P")
      case True
      then have "pages (vma_map m') ! k = pages (vma_map m) ! k" using nth k(1) len le e by auto
      then show ?thesis using iso k(1) True unfolding isolated_def by (simp add: add.assoc)
    next
      case False
      then have k': "Suc k = t div ?P + n div ?P" using k(2) e(1) by simp
      then have "pages (vma_map m') ! k = block_pages perms state (ref, n) ! (k - t div ?P)" using nth k(1) len le e(3) by auto
      then show ?thesis using m'(1) k' e(3) by (simp add: block_pages_def page_key_def)
    qed
  qed
qed

lemma map_blocks_ok:
  assumes "separated H" "vm_inv H F cached m" "\<not> is_locked m" "bs \<noteq> []" "good_range t (total_size bs)"
    "list_all (good_block H) bs" "all_free t (total_size bs) m" "perms = perm_ReadWrite \<or> isolated t (total_size bs) state m"
  shows "\<exists>m'. fold_opt (map_block cached state perms) bs (t, m) = Some (t + total_size bs, m') \<and> vm_inv H F cached m' \<and>
    \<not> is_locked m' \<and> pages (vma_map m') = set_range t (concat (map (block_pages perms state) bs)) (pages (vma_map m))"
  using assms(2-8)
proof (induction bs arbitrary: t m)
  case (Cons b bs)
  obtain ref n where b: "b = (ref, n)" by (cases b)
  have n: "ref_ok H ref n" "0 < n" "CITRA_PAGE_SIZE dvd n" using Cons.prems(5) by (simp_all add: b good_block_def)
  have gr: "good_range t (n + total_size bs)" using Cons.prems(4) by (simp add: b)
  have dt: "CITRA_PAGE_SIZE dvd t" using gr by (simp add: good_range_def)
  note len = map_length [OF vm_invD(1) [OF Cons.prems(1)]]
  have iso: "perms = perm_ReadWrite \<or> isolated t n state m" and
    iso': "bs \<noteq> [] \<Longrightarrow> pages (vma_map m') = set_range t (block_pages perms state (ref, n)) (pages (vma_map m)) \<Longrightarrow>
      perms = perm_ReadWrite \<or> isolated (t + n) (total_size bs) state m'" for m'
  proof -
    have "0 < total_size bs" if "bs \<noteq> []" using that Cons.prems(5) by (cases bs) (auto simp: good_block_def)
    then show "perms = perm_ReadWrite \<or> isolated t n state m"
      "bs \<noteq> [] \<Longrightarrow> pages (vma_map m') = set_range t (block_pages perms state (ref, n)) (pages (vma_map m)) \<Longrightarrow>
        perms = perm_ReadWrite \<or> isolated (t + n) (total_size bs) state m'" for m'
      using isolated_split(1) [OF _ gr n(2,3), of state m] isolated_split(2) [OF _ gr n(2,3), of state m perms m' ref] Cons.prems(6,7) len
      by (cases "bs = []"; auto simp: b)+
  qed
  have "all_free t n m"
  proof
    fix p assume "p \<in> set (range_pages t n (pages (vma_map m)))"
    then have "p \<in> set (range_pages t (n + total_size bs) (pages (vma_map m)))" by (rule range_pages_prefix) simp
    then show "fst p = VFree" using Cons.prems(6) by (simp add: b)
  qed
  from map_block_ok [OF assms(1) Cons.prems(1,2) good_range_split(1) [OF gr n(3,2)] n(1) this iso]
  obtain m1 where m1: "map_block cached state perms (ref, n) (t, m) = Some (t + n, m1)" "vm_inv H F cached m1" "\<not> is_locked m1"
    "pages (vma_map m1) = set_range t (block_pages perms state (ref, n)) (pages (vma_map m))" by blast
  show ?case
  proof (cases "bs = []")
    case True
    then show ?thesis using m1 by (simp add: b)
  next
    case False
    have "0 < total_size bs" using False Cons.prems(5) by (cases bs) (auto simp: good_block_def)
    note gr' = good_range_split(2) [OF gr n(3,2) this]
    note ap = set_range_append [OF gr n(3,2) len]
    have "list_all (good_block H) bs" using Cons.prems(5) by simp
    note ap = ap [of "block_pages perms state (ref, n)", OF _ blocks_length [OF this]]
    have "range_pages (t + n) (total_size bs) (pages (vma_map m1)) = range_pages (t + n) (total_size bs) (pages (vma_map m))"
      using ap(2) m1(4) by simp
    moreover have "fst p = VFree" if "p \<in> set (range_pages (t + n) (total_size bs) (pages (vma_map m)))" for p
      using range_pages_suffix [OF dt n(3) that] Cons.prems(6) by (simp add: b)
    ultimately have "all_free (t + n) (total_size bs) m1" by simp
    from Cons.IH [OF m1(2,3) False gr' _ this iso' [OF False m1(4)]] Cons.prems(5)
    obtain m2 where m2: "fold_opt (map_block cached state perms) bs (t + n, m1) = Some (t + n + total_size bs, m2)"
      "vm_inv H F cached m2" "\<not> is_locked m2"
      "pages (vma_map m2) = set_range (t + n) (concat (map (block_pages perms state) bs)) (pages (vma_map m1))" by auto
    then show ?thesis using m1(1,4) ap(1) by (simp add: b add.assoc)
  qed
qed simp


section \<open>Allocating on the heap\<close>

text \<open>The blocks of FCRAM that a set of offsets stands for, and their contents set to zero.\<close>

definition fcram_block :: "MemorySystem \<Rightarrow> Interval \<Rightarrow> MemoryRef \<times> nat" where
  "fcram_block ms i = (Some \<lparr>block_ptr = fcram ms, block_size = FCRAM_N3DS_SIZE, ref_offset = fst i\<rparr>, snd i - fst i)"

definition zero_blocks :: "IntervalSet \<Rightarrow> MemorySystem \<Rightarrow> MemorySystem" where
  "zero_blocks bs ms = fold (\<lambda>i. host_write (fcram ms + fst i) (replicate (snd i - fst i) 0)) bs ms"

definition in_fcram :: "Interval \<Rightarrow> bool" where
  "in_fcram i \<longleftrightarrow> fst i < snd i \<and> snd i \<le> FCRAM_N3DS_SIZE"

lemma kcached_write [simp]: "cached_page (host_write a bs ms) = cached_page ms"
  by (intro ext) (simp add: host_write_def cached_page_def IsCached_def split: option.split)

lemma zero_blocks_frame [simp]:
  "fcram (zero_blocks bs ms) = fcram ms" "vram (zero_blocks bs ms) = vram ms" "cached_page (zero_blocks bs ms) = cached_page ms"
proof -
  have "fcram (fold (\<lambda>i. host_write (x + fst i) (replicate (snd i - fst i) 0)) bs ms) = fcram ms \<and>
      vram (fold (\<lambda>i. host_write (x + fst i) (replicate (snd i - fst i) 0)) bs ms) = vram ms \<and>
      cached_page (fold (\<lambda>i. host_write (x + fst i) (replicate (snd i - fst i) 0)) bs ms) = cached_page ms" for x
    by (induction bs arbitrary: ms) simp_all
  then show "fcram (zero_blocks bs ms) = fcram ms" "vram (zero_blocks bs ms) = vram ms" "cached_page (zero_blocks bs ms) = cached_page ms"
    by (simp_all add: zero_blocks_def)
qed

lemma zero_blocks_Cons: "zero_blocks (i # bs) ms = zero_blocks bs (host_write (fcram ms + fst i) (replicate (snd i - fst i) 0) ms)"
  by (simp add: zero_blocks_def)

lemma zero_blocks_memory:
  "host_memory (zero_blocks bs ms) a = (if fcram ms \<le> a \<and> a - fcram ms \<in> elems bs then 0 else host_memory ms a)"
proof (induction bs arbitrary: ms)
  case (Cons i bs)
  have "(fcram ms + fst i \<le> a \<and> a < fcram ms + fst i + (snd i - fst i)) \<longleftrightarrow> fcram ms \<le> a \<and> a - fcram ms \<in> ivl i"
    by (auto simp: ivl_def)
  then show ?case using Cons by (auto simp: zero_blocks_Cons)
qed (simp add: zero_blocks_def)

lemma set_vm_frame [simp]:
  "memory (set_vm p m k) = memory k" "vm_of (set_vm p m k) q = (if q = p then m else vm_of k q)"
  "memory_regions (set_vm p m k) = memory_regions k" "resource_limits (set_vm p m k) = resource_limits k"
  "set_vm p m (set_vm p m' k) = set_vm p m k" "set_vm p m (k\<lparr>memory := ms\<rparr>) = (set_vm p m k)\<lparr>memory := ms\<rparr>"
  "(set_vm p m k)\<lparr>memory := ms, memory := ms'\<rparr> = (set_vm p m k)\<lparr>memory := ms'\<rparr>"
  by (auto simp: set_vm_def upd_process_def)

lemma set_vm_self: "set_vm p (vm_of k p) k = k"
  by (simp add: set_vm_def upd_process_def)

lemma heap_block_eq:
  assumes "in_fcram i"
  shows "heap_block state perms p i (t, k) =
    map_option (\<lambda>(t', m). (t', set_vm p m (k\<lparr>memory := host_write (fcram (memory k) + fst i) (replicate (snd i - fst i) 0) (memory k)\<rparr>)))
      (map_block (kcached k) state perms (fcram_block (memory k) i) (t, vm_of k p))"
  using assms
  by (cases "map_block (kcached k) state perms (fcram_block (memory k) i) (t, vm_of k p)")
    (auto simp: heap_block_def fill_zero_def GetFCRAMPointer_def GetFCRAMRef_def new_ref_def fcram_block_def in_fcram_def)

lemma heap_fold:
  assumes "list_all in_fcram bs"
  shows "fold_opt (heap_block state perms p) bs (t, k) =
    map_option (\<lambda>(t', m). (t', set_vm p m (k\<lparr>memory := zero_blocks bs (memory k)\<rparr>)))
      (fold_opt (map_block (kcached k) state perms) (map (fcram_block (memory k)) bs) (t, vm_of k p))"
  using assms
proof (induction bs arbitrary: t k)
  case Nil
  then show ?case by (simp add: zero_blocks_def set_vm_self)
next
  case (Cons i bs)
  show ?case
  proof (cases "map_block (kcached k) state perms (fcram_block (memory k) i) (t, vm_of k p)")
    case None
    then show ?thesis using Cons.prems heap_block_eq [of i state perms p t k] by simp
  next
    case (Some tm)
    obtain t1 m1 where tm: "tm = (t1, m1)" by (cases tm)
    let ?w = "host_write (fcram (memory k) + fst i) (replicate (snd i - fst i) 0) (memory k)"
    let ?k = "(set_vm p m1 k)\<lparr>memory := ?w\<rparr>"
    have "fcram_block (memory ?k) = fcram_block (memory k)" by (intro ext) (simp add: fcram_block_def)
    then show ?thesis
      using Some tm Cons.prems heap_block_eq [of i state perms p t k] Cons.IH [of t1 ?k]
      by (cases "fold_opt (map_block (kcached k) state perms) (map (fcram_block (memory k)) bs) (t1, m1)")
        (simp_all add: zero_blocks_Cons split_beta)
  qed
qed


lemma free_area_at_spec:
  assumes "vm_inv H F cached m" "good_range t n"
  shows "free_area_at t n m = Some (all_free t n m)"
proof -
  note c = vm_invD(1) [OF assms(1)] and r = good_rangeD [OF assms(2)]
  obtain xs v ys where l: "vma_map m = xs @ v # ys" and v: "vbase v \<le> t" "t < vbase v + vsize v"
    using find_area [OF c, of t] r(5) by auto
  have fi: "FindVMA t (vma_map m) = Some (length xs)" using FindVMA_eq [of H xs v ys t] c l v by simp
  have "vbase v + vsize v \<le> MAX_ADDRESS" using chain_bases [OF c, of v] l by simp
  then have e: "free_area_at t n m = Some (vtype v = VFree \<and> \<not> vbase v + vsize v < t + n)"
    using fi l r(4) by (simp add: free_area_at_def nth_append)
  have "vtype v = VFree \<and> t + n \<le> vbase v + vsize v \<longleftrightarrow> (\<forall>j. in_range t n j \<longrightarrow> fst (pages (vma_map m) ! j) = VFree)"
  proof
    assume "vtype v = VFree \<and> t + n \<le> vbase v + vsize v"
    then show "\<forall>j. in_range t n j \<longrightarrow> fst (pages (vma_map m) ! j) = VFree"
      using page_in_area [of H xs v ys t n] c l v assms(2) by simp
  next
    assume "\<forall>j. in_range t n j \<longrightarrow> fst (pages (vma_map m) ! j) = VFree"
    then obtain xs' w ys' where w: "vma_map m = xs' @ w # ys'" "vbase w \<le> t" "t + n \<le> vbase w + vsize w" "vtype w = VFree"
      using free_area [OF c settled_weaken [OF vm_invD(2) [OF assms(1)]] assms(2)] by blast
    then have "FindVMA t (vma_map m) = Some (length xs')" using FindVMA_eq [of H xs' w ys' t] c r(3) by simp
    then have "w = v" using fi l w(1) by (metis nth_append_length option.inject)
    then show "vtype v = VFree \<and> t + n \<le> vbase v + vsize v" using w by simp
  qed
  then show ?thesis
    using e range_pages_nth [OF assms(2) map_length [OF c], of "\<lambda>p. fst p = VFree"] by (simp add: not_less)
qed

lemma normal_size: "normal A \<Longrightarrow> card (elems A) = sum_list (map (\<lambda>i. snd i - fst i) A)"
proof (induction A)
  case (Cons i A)
  then have "card (elems (i # A)) = card (ivl i) + card (elems A)"
    using normal_disjoint [OF Cons.prems] by (simp add: card_Un_disjoint)
  then show ?case using Cons by (simp add: ivl_def)
qed simp

text \<open>A process whose memory is consistent: its region, its address space and host memory fit together.\<close>

definition proc_ok :: "host \<Rightarrow> bool \<Rightarrow> nat \<Rightarrow> nat \<Rightarrow> kernel \<Rightarrow> bool" where
  "proc_ok H F p r k \<longleftrightarrow> memory_region (processes k p) = Some r \<and>
     region_inv (memory_regions k r) \<and> \<not> region_locked (memory_regions k r) \<and> paged (free_set (memory_regions k r)) \<and>
     region_base (memory_regions k r) + region_size (memory_regions k r) \<le> FCRAM_N3DS_SIZE \<and>
     separated H \<and> (fcram (memory k), FCRAM_N3DS_SIZE) \<in> set H \<and> 0 < fcram (memory k) \<and>
     vm_inv H F (kcached k) (vm_of k p) \<and> \<not> is_locked (vm_of k p) \<and>
     rl_valid (resource_limits k (resource_limit (processes k p)))"

lemma proc_okD:
  assumes "proc_ok H F p r k"
  shows "memory_region (processes k p) = Some r" "region_inv (memory_regions k r)" "\<not> region_locked (memory_regions k r)"
    "paged (free_set (memory_regions k r))" "region_base (memory_regions k r) + region_size (memory_regions k r) \<le> FCRAM_N3DS_SIZE"
    "separated H" "(fcram (memory k), FCRAM_N3DS_SIZE) \<in> set H" "0 < fcram (memory k)"
    "vm_inv H F (kcached k) (vm_of k p)" "\<not> is_locked (vm_of k p)"
    "rl_valid (resource_limits k (resource_limit (processes k p)))"
  using assms by (simp_all add: proc_ok_def)


abbreviation commit_of :: "nat \<Rightarrow> kernel \<Rightarrow> int" where
  "commit_of p k \<equiv> rl_balance (resource_limits k (resource_limit (processes k p))) (type_index RCommit)"

abbreviation commit_limit :: "nat \<Rightarrow> kernel \<Rightarrow> int" where
  "commit_limit p k \<equiv> rl_cap (resource_limits k (resource_limit (processes k p))) (type_index RCommit)"

lemma reserve_commit:
  assumes "rl_valid (resource_limits k (resource_limit (processes k p)))" "sz \<le> FCRAM_N3DS_SIZE"
  shows "\<exists>b R. reserve_limit p RCommit (as_s32 sz) k = Some (b, k\<lparr>resource_limits := R\<rparr>) \<and>
    rl_valid (R (resource_limit (processes k p))) \<and> (\<forall>i. i \<noteq> resource_limit (processes k p) \<longrightarrow> R i = resource_limits k i) \<and>
    rl_balance (R (resource_limit (processes k p))) (type_index RCommit) =
      (if commit_of p k + int sz \<le> commit_limit p k then commit_of p k + int sz else commit_of p k)"
proof -
  let ?i = "resource_limit (processes k p)" and ?r = "resource_limits k (resource_limit (processes k p))"
  have s: "as_s32 sz = int sz" "rl_small (int sz)"
    using assms(2) by (simp_all add: as_s32_def in_s32_def rl_small_def FCRAM_N3DS_SIZE_def)
  have len: "type_index RCommit < length (m_current_values ?r)" using assms(1) by (simp add: rl_valid_def)
  show ?thesis
  proof (cases "commit_of p k + int sz \<le> commit_limit p k")
    case True
    let ?r' = "?r\<lparr>m_current_values := (m_current_values ?r)[type_index RCommit := commit_of p k + int sz]\<rparr>"
    have "0 \<le> commit_of p k" using assms(1) by (simp add: rl_valid_def rl_balance_def)
    then have "rl_valid ?r'" using True assms(1) by (auto simp: rl_valid_def rl_cap_def nth_list_update)
    moreover have "rl_balance ?r' (type_index RCommit) = commit_of p k + int sz" using len by (simp add: rl_balance_def)
    moreover have "Reserve (type_index RCommit) (int sz) ?r = Some (True, ?r')"
      using Reserve_cases [OF assms(1) _ s(2), of "type_index RCommit"] True by simp
    ultimately show ?thesis using True s(1)
      by (intro exI [of _ True] exI [of _ "(resource_limits k)(?i := ?r')"]) (simp add: reserve_limit_def Let_def)
  next
    case False
    then have "Reserve (type_index RCommit) (int sz) ?r = Some (False, ?r)"
      using Reserve_cases [OF assms(1) _ s(2), of "type_index RCommit"] by simp
    then show ?thesis using False s(1) assms(1)
      by (intro exI [of _ False] exI [of _ "resource_limits k"]) (simp add: reserve_limit_def Let_def)
  qed
qed

text \<open>C4: Allocating on the heap.  With all consistent, the call for a page-aligned range reports an address state error exactly if some page of
  the range is used, and a lack of memory exactly if the region has too little, and then changes nothing.  Otherwise it takes
  exactly as many offsets as requested from the top of the region, maps their blocks with the requested permissions at the range in
  order (unless they are read and write, the pages next to the range must differ from new ones), sets their contents to zero, and changes no other page and no other byte of host memory.  The process is
  charged in its own account always, and against the resource limit only if the limit allows: going over the limit is no error.\<close>

theorem heap_allocate_refines:
  assumes "interval_sets ops" and "proc_ok H F p r k" and "good_range target sz"
    and "skip \<or> HEAP_VADDR \<le> target \<and> target + sz \<le> HEAP_VADDR_END"
    and "perms = perm_ReadWrite \<or> isolated target sz state (vm_of k p)"
  shows "if \<not> all_free target sz (vm_of k p) then
      Process_HeapAllocate ops p target sz perms state skip k = Some (Inl ResultInvalidAddressState, k)
    else if card (free_set (memory_regions k r)) < sz then
      Process_HeapAllocate ops p target sz perms state skip k = Some (Inl ResultOutOfHeapMemory, k)
    else \<exists>A k'. Process_HeapAllocate ops p target sz perms state skip k = Some (Inr target, k') \<and> proc_ok H F p r k' \<and>
      normal A \<and> card (elems A) = sz \<and> elems A \<subseteq> free_set (memory_regions k r) \<and>
      free_set (memory_regions k' r) = free_set (memory_regions k r) - elems A \<and>
      pages (vma_map (vm_of k' p)) = set_range target (concat (map (block_pages perms state \<circ> fcram_block (memory k)) A))
        (pages (vma_map (vm_of k p))) \<and>
      (\<forall>a. host_memory (memory k') a = (if fcram (memory k) \<le> a \<and> a - fcram (memory k) \<in> elems A then 0 else host_memory (memory k) a)) \<and>
      memory_used (processes k' p) = wrap_u32 (memory_used (processes k p) + sz) \<and>
      commit_of p k' = (if commit_of p k + int sz \<le> commit_limit p k then commit_of p k + int sz else commit_of p k)"
proof -
  note ok = proc_okD [OF assms(2)]
  let ?reg = "memory_regions k r" and ?vm = "vm_of k p"
  have nout: "\<not> (outside HEAP_VADDR HEAP_VADDR_END target sz \<and> \<not> skip)"
    using assms(4) good_rangeD(4) [OF assms(3)] by (auto simp: outside_def)
  have same: "set_region r ?reg k = k" by (simp add: set_region_def)
  note fa = free_area_at_spec [OF ok(9) assms(3)]
  show ?thesis
  proof (cases "all_free target sz ?vm \<and> sz \<le> card (free_set ?reg)")
    case False
    then show ?thesis
      using nout fa same ok(1) interval_sets.heap_allocate_fails [OF assms(1) ok(2,3), of sz]
      by (auto simp: Process_HeapAllocate_def)
  next
    case True
    then have free: "all_free target sz ?vm" and fit: "sz \<le> card (free_set ?reg)" by simp_all
    obtain A reg where A: "Region_HeapAllocate ops sz ?reg = Some (A, reg)" "region_inv reg" "normal A" "elems A \<subseteq> free_set ?reg"
      "card (elems A) = sz" "free_set reg = free_set ?reg - elems A" "region_base reg = region_base ?reg"
      "region_size reg = region_size ?reg" "\<not> region_locked reg"
      using interval_sets.heap_allocate [OF assms(1) ok(2,3) fit] by metis
    have dv: "CITRA_PAGE_SIZE dvd sz" "0 < sz" using good_rangeD [OF assms(3)] by simp_all
    note al = interval_sets.heap_allocate_paged [OF assms(1) ok(2-4) dv(1) fit A(1)]
    have ne: "A \<noteq> []" using A(5) dv(2) by auto
    have inf: "in_fcram i" if "i \<in> set A" for i
    proof -
      have i: "fst i < snd i" using normal_nonempty [OF A(3)] that by auto
      then have "snd i - 1 \<in> ivl i" "ivl i \<subseteq> elems A" using that by (auto simp: elems_def)
      then have "snd i - 1 < FCRAM_N3DS_SIZE" using A(4) region_invD(3) [OF ok(2)] ok(5) by fastforce
      then show ?thesis using i by (simp add: in_fcram_def)
    qed
    let ?bs = "map (fcram_block (memory k)) A"
    have "good_block H (fcram_block (memory k) i)" if "i \<in> set A" for i
    proof -
      have "fst i < snd i" "snd i \<le> FCRAM_N3DS_SIZE" using inf [OF that] by (simp_all add: in_fcram_def)
      then show ?thesis
        using that al(1) ok(7,8) by (simp add: list_all_iff good_block_def fcram_block_def ref_ok_def aligned_ivl_def dvd_diff_nat)
    qed
    then have good: "list_all (good_block H) ?bs" by (simp add: list_all_iff)
    have tot: "total_size ?bs = sz" using normal_size [OF A(3)] A(5) by (simp add: fcram_block_def comp_def)
    obtain m where m: "fold_opt (map_block (kcached k) state perms) ?bs (target, ?vm) = Some (target + sz, m)"
      "vm_inv H F (kcached k) m" "\<not> is_locked m"
      "pages (vma_map m) = set_range target (concat (map (block_pages perms state) ?bs)) (pages (vma_map ?vm))"
      using map_blocks_ok [OF ok(6,9,10) _ _ good, of target perms state] free ne assms(3,5) unfolding tot by auto
    let ?k1 = "set_vm p m ((set_region r reg k)\<lparr>memory := zero_blocks A (memory k)\<rparr>)"
    let ?k2 = "upd_process p (\<lambda>pr. pr\<lparr>holding_memory := icl_add_set ops (holding_memory pr) A, memory_used := wrap_u32 (memory_used pr + sz)\<rparr>) ?k1"
    have fold: "fold_opt (heap_block state perms p) A (target, set_region r reg k) = Some (target + sz, ?k1)"
      using heap_fold [of A state perms p target "set_region r reg k"] inf m(1) by (simp add: list_all_iff set_region_def)
    have sz: "sz \<le> FCRAM_N3DS_SIZE"
      using fit region_invD(4) [OF ok(2)] ok(5) by linarith
    have k2: "resource_limits ?k2 = resource_limits k" "resource_limit (processes ?k2 p) = resource_limit (processes k p)"
      by (simp_all add: upd_process_def set_vm_def set_region_def)
    obtain b R where R: "reserve_limit p RCommit (as_s32 sz) ?k2 = Some (b, ?k2\<lparr>resource_limits := R\<rparr>)"
      "rl_valid (R (resource_limit (processes k p)))"
      "rl_balance (R (resource_limit (processes k p))) (type_index RCommit) =
        (if commit_of p k + int sz \<le> commit_limit p k then commit_of p k + int sz else commit_of p k)"
      using reserve_commit [of ?k2 p sz] ok(11) sz unfolding k2 by blast
    let ?k' = "?k2\<lparr>resource_limits := R\<rparr>"
    have run: "Process_HeapAllocate ops p target sz perms state skip k = Some (Inr target, ?k')"
      using nout fa free ok(1) A(1) ne fold R(1) by (simp add: Process_HeapAllocate_def)
    have f: "memory ?k' = zero_blocks A (memory k)" "vm_of ?k' p = m" "memory_regions ?k' r = reg"
      "memory_region (processes ?k' p) = memory_region (processes k p)" "resource_limit (processes ?k' p) = resource_limit (processes k p)"
      "resource_limits ?k' = R" "memory_used (processes ?k' p) = wrap_u32 (memory_used (processes k p) + sz)"
      by (simp_all add: upd_process_def set_vm_def set_region_def)
    have "proc_ok H F p r ?k'"
      unfolding proc_ok_def f using ok A(2,7-9) al(2) m(2,3) R(2) by simp
    then show ?thesis
      using True run A(3-6) m(4) R(3) f zero_blocks_memory [of A "memory k"]
      by (intro iffD2 [OF if_not_P] exI [of _ A] exI [of _ ?k'] conjI) (simp_all add: not_less)
  qed
qed


text \<open>A process with an empty address space whose region is \<^const>\<open>demo_region\<close> and whose limits are all zero.\<close>

definition demo_fcram :: host where "demo_fcram = [(0x10000, FCRAM_N3DS_SIZE)]"

definition demo_proc :: kernel where
  "demo_proc = upd_process 0 (\<lambda>pr. pr\<lparr>memory_region := Some 0\<rparr>)
     (new_KernelSystem 1 (new_Timing 1 100 0 0) demo_memory (\<lambda>_. demo_region) 0x60000 0x61000 (\<lambda>_ _. 0x100000))"

lemma demo_proc_simps [simp]:
  "memory_region (processes demo_proc 0) = Some 0" "memory_regions demo_proc r = demo_region" "memory demo_proc = demo_memory"
  "vm_of demo_proc 0 = demo_vm" "resource_limits demo_proc i = ResourceLimit_Create ''Unknown''" "memory_used (processes demo_proc 0) = 0"
  "resource_limit (processes demo_proc 0) = 0" "holding_memory (processes demo_proc 0) = []"
  by (simp_all add: demo_proc_def upd_process_def new_KernelSystem_def new_Process_def demo_vm_def)

lemma demo_cached [simp]: "cached_page demo_memory = (\<lambda>_. False)"
  by (intro ext) (simp add: cached_page_def IsCached_def demo_memory_def split: option.split)

lemma demo_proc_ok: "proc_ok demo_fcram F 0 0 demo_proc"
proof -
  have "vm_inv demo_fcram F (\<lambda>_. False) demo_vm"
    using demo_vm_inv(2) [of F] by (simp add: vm_inv_def demo_vm_def vma_ok_def blank_vma_def)
  moreover have "list_all aligned_ivl (free_blocks demo_region)"
    by (simp add: demo_region_def aligned_ivl_def CITRA_PAGE_SIZE_def)
  then have "paged (free_set demo_region)" unfolding free_set_def by (rule paged_elems)
  moreover have "rl_valid (ResourceLimit_Create ''Unknown'')" by (simp add: rl_valid_def ResourceLimit_Create_def nth_replicate)
  ultimately show ?thesis
    by (simp add: proc_ok_def demo_fcram_def separated_def demo_vm_inv(3))
      (simp add: demo_region_def demo_memory_def FCRAM_N3DS_SIZE_def)
qed

theorem heap_allocate_refines_witness:
  "\<exists>A k'. Process_HeapAllocate list_icl 0 0x08000000 0x2000 perm_ReadWrite MS_Private False demo_proc = Some (Inr 0x08000000, k') \<and>
     card (elems A) = 0x2000 \<and> free_set (memory_regions k' 0) = free_set demo_region - elems A \<and>
     memory_used (processes k' 0) = 0x2000 \<and> commit_of 0 k' = 0"
proof -
  have g: "good_range 0x08000000 0x2000" by (simp add: good_range_def MAX_ADDRESS_def CITRA_PAGE_SIZE_def)
  have free: "all_free 0x08000000 0x2000 demo_vm" by (simp add: range_pages_def demo_vm_inv free_page_def)
  have "card (free_set demo_region) = 0x3000"
    using region_invD(4) [OF demo_region_inv(1)] by (simp add: demo_region_def)
  then show ?thesis
    using heap_allocate_refines [OF li.interval_sets_axioms demo_proc_ok g, where skip = False and state = MS_Private and perms = perm_ReadWrite] free
    by (simp add: area_defs rl_balance_def rl_cap_def ResourceLimit_Create_def wrap_u32_def) blast
qed


text \<open>The same process with one page of the heap in use, the host page behind the last free one of the region.\<close>

definition heap_area :: "nat \<Rightarrow> nat \<Rightarrow> VMAPermission \<Rightarrow> nat \<Rightarrow> VirtualMemoryArea" where
  "heap_area base n perms off = \<lparr>vbase = base, vsize = n, vtype = BackingMemory, permissions = perms, meminfo_state = MS_Private,
     backing_memory = Some \<lparr>block_ptr = 0x10000, block_size = FCRAM_N3DS_SIZE, ref_offset = off\<rparr>\<rparr>"

definition free_from :: "nat \<Rightarrow> VirtualMemoryArea" where
  "free_from base = blank_vma\<lparr>vbase := base, vsize := MAX_ADDRESS - base\<rparr>"

definition demo_neighbour :: kernel where
  "demo_neighbour = set_vm 0 (demo_vm\<lparr>vma_map := [blank_vma\<lparr>vsize := 0x08001000\<rparr>, heap_area 0x08001000 0x1000 perm_ReadWrite 0x6000,
     free_from 0x08002000]\<rparr>) demo_proc"

lemmas two_pages = MapPages.simps(2) [where n = 1, unfolded One_nat_def numeral_2_eq_2 [symmetric]]

lemma neighbour_merged:
  fixes m :: VMManager
  defines "m \<equiv> vm_of demo_neighbour 0"
  shows "\<exists>pt. map_block (\<lambda>_. False) MS_Private perm_Read (fcram_block demo_memory (0x5000, 0x6000)) (0x08000000, m) =
    Some (0x08001000, m\<lparr>vma_map := [blank_vma\<lparr>vsize := 0x08000000\<rparr>, heap_area 0x08000000 0x2000 perm_Read 0x5000, free_from 0x08002000],
      page_table := pt\<rparr>)"
proof -
  note ev = heap_area_def free_from_def blank_vma_def mergeable_def GetPtr_def GetSize_def ref_add_def MAX_ADDRESS_def CITRA_PAGE_SIZE_def
    page_aligned_def sub_u32_def CanBeMergedWith_def wrap_u32_def FCRAM_N3DS_SIZE_def
  obtain ref where ref: "fcram_block demo_memory (0x5000, 0x6000) = (ref, 0x1000)"
    "ref = Some \<lparr>block_ptr = 0x10000, block_size = FCRAM_N3DS_SIZE, ref_offset = 0x5000\<rparr>" by (simp_all add: fcram_block_def demo_memory_def)
  have m: "vma_map m = [blank_vma\<lparr>vsize := 0x08001000\<rparr>, heap_area 0x08001000 0x1000 perm_ReadWrite 0x6000, free_from 0x08002000]" "\<not> is_locked m"
    by (simp_all add: m_def demo_neighbour_def demo_vm_def)
  let ?L = "[blank_vma\<lparr>vsize := 0x08000000\<rparr>, blank_vma\<lparr>vbase := 0x08000000, vsize := 0x1000\<rparr>, heap_area 0x08001000 0x1000 perm_ReadWrite 0x6000,
      free_from 0x08002000]"
  have carve: "CarveVMA 0x08000000 0x1000 (vma_map m) = Some (Inr (?L, 1))"
    by (simp add: m(1) CarveVMA_def ev FindVMA_def upper_bound_def SplitVMA_def Let_def)
  have v: "(?L ! 1)\<lparr>vtype := BackingMemory, permissions := perm_ReadWrite, meminfo_state := MS_Private, backing_memory := ref\<rparr> =
      heap_area 0x08000000 0x1000 perm_ReadWrite 0x5000" by (simp add: ref(2) ev)
  obtain pt where pt: "UpdatePageTableForVMA (\<lambda>_. False) (heap_area 0x08000000 0x1000 perm_ReadWrite 0x5000) (page_table m) = Some pt"
    by (simp add: UpdatePageTableForVMA_def MapMemoryRegion_def PAGE_TABLE_NUM_ENTRIES_def ev Let_def)
  let ?L1 = "[blank_vma\<lparr>vsize := 0x08000000\<rparr>, heap_area 0x08000000 0x2000 perm_ReadWrite 0x5000, free_from 0x08002000]"
  have merge: "MergeAdjacent 1 (?L[1 := heap_area 0x08000000 0x1000 perm_ReadWrite 0x5000]) = Some (?L1, 1)"
    by (simp add: MergeAdjacent_def ev)
  have nn: "GetPtr ref \<noteq> 0" "vsize (?L ! 1) = 0x1000" by (simp_all add: ref(2) GetPtr_def)
  have map: "MapBackingMemory (\<lambda>_. False) 0x08000000 ref 0x1000 MS_Private m = Some (Inr 1, m\<lparr>vma_map := ?L1, page_table := pt\<rparr>)"
    using carve v pt merge m(2) nn by (simp add: MapBackingMemory_def change_vma_def Let_def)
  let ?v2 = "heap_area 0x08000000 0x2000 perm_Read 0x5000"
  have v2: "(?L1 ! 1)\<lparr>permissions := perm_Read\<rparr> = ?v2" by (simp add: ev)
  obtain pt2 where pt2: "UpdatePageTableForVMA (\<lambda>_. False) ?v2 pt = Some pt2"
    by (simp add: UpdatePageTableForVMA_def MapMemoryRegion_def PAGE_TABLE_NUM_ENTRIES_def ev Let_def two_pages)
  have merge2: "MergeAdjacent 1 (?L1[1 := ?v2]) = Some (?L1[1 := ?v2], 1)" by (simp add: MergeAdjacent_def ev)
  have "Reprotect (\<lambda>_. False) perm_Read 1 (m\<lparr>vma_map := ?L1, page_table := pt\<rparr>) = Some (m\<lparr>vma_map := ?L1[1 := ?v2], page_table := pt2\<rparr>, 1)"
    using m(2) v2 pt2 merge2 by (simp add: Reprotect_def change_vma_def Let_def)
  then have "map_block (\<lambda>_. False) MS_Private perm_Read (ref, 0x1000) (0x08000000, m) =
      Some (wrap_u32 (0x08000000 + 0x1000), m\<lparr>vma_map := ?L1[1 := ?v2], page_table := pt2\<rparr>)"
    using map by (simp only: map_block_def Unwrap_def prod.case sum.case Option.bind.simps)
  moreover have "wrap_u32 (0x08000000 + 0x1000) = 0x08001000" by (simp add: wrap_u32_def)
  moreover have "?L1[1 := ?v2] = [blank_vma\<lparr>vsize := 0x08000000\<rparr>, ?v2, free_from 0x08002000]" by simp
  ultimately show ?thesis by (simp only: ref(1)) blast
qed

text \<open>The permissions a heap allocation asks for reach beyond it.  \<^verbatim>\<open>Process::HeapAllocate\<close> maps each block and then
  reprotects the area that \<^verbatim>\<open>MapBackingMemory\<close> returns, which is the merged one: when the page above the request is a
  private read-write heap page backed by the host page above the block, it belongs to the area and loses its write permission.\<close>

theorem heap_allocate_protects_neighbour:
  "\<exists>k'. Process_HeapAllocate list_icl 0 0x08000000 0x1000 perm_Read MS_Private False demo_neighbour = Some (Inr 0x08000000, k') \<and>
     vma_map (vm_of demo_neighbour 0) = [blank_vma\<lparr>vsize := 0x08001000\<rparr>, heap_area 0x08001000 0x1000 perm_ReadWrite 0x6000, free_from 0x08002000] \<and>
     vma_map (vm_of k' 0) = [blank_vma\<lparr>vsize := 0x08000000\<rparr>, heap_area 0x08000000 0x2000 perm_Read 0x5000, free_from 0x08002000]"
proof -
  let ?m = "vm_of demo_neighbour 0" and ?reg = "demo_region\<lparr>free_blocks := [(0x1000, 0x2000), (0x4000, 0x5000)], region_used := 0x3000\<rparr>"
  have d: "vma_map ?m = [blank_vma\<lparr>vsize := 0x08001000\<rparr>, heap_area 0x08001000 0x1000 perm_ReadWrite 0x6000, free_from 0x08002000]"
    "memory demo_neighbour = demo_memory" "memory_regions demo_neighbour 0 = demo_region" "memory_region (processes demo_neighbour 0) = Some 0"
    "resource_limit (processes demo_neighbour 0) = 0" "rl_valid (resource_limits demo_neighbour 0)"
    using demo_proc_ok [of True] by (simp_all add: demo_neighbour_def demo_vm_def set_vm_def upd_process_def proc_ok_def)
  have free: "free_area_at 0x08000000 0x1000 ?m = Some True"
    by (simp add: free_area_at_def d(1) FindVMA_def upper_bound_def blank_vma_def heap_area_def free_from_def wrap_u32_def MAX_ADDRESS_def)
  have reg: "Region_HeapAllocate list_icl 0x1000 demo_region = Some ([(0x5000, 0x6000)], ?reg)"
    by (simp add: Region_HeapAllocate_def demo_region_def wrap_u32_def list_icl_def list_cut_def icl_sub_set_def)
  let ?k = "set_region 0 ?reg demo_neighbour"
  have k: "vm_of ?k 0 = ?m" "memory ?k = demo_memory" using d(2) by (simp_all add: set_region_def)
  obtain m2 where m2: "map_block (\<lambda>_. False) MS_Private perm_Read (fcram_block demo_memory (0x5000, 0x6000)) (0x08000000, ?m) = Some (0x08001000, m2)"
    "vma_map m2 = [blank_vma\<lparr>vsize := 0x08000000\<rparr>, heap_area 0x08000000 0x2000 perm_Read 0x5000, free_from 0x08002000]"
    using neighbour_merged by force
  have "in_fcram (0x5000, 0x6000)" by (simp add: in_fcram_def FCRAM_N3DS_SIZE_def)
  then have f: "fold_opt (heap_block MS_Private perm_Read 0) [(0x5000, 0x6000)] (0x08000000, ?k) =
      Some (0x08001000, set_vm 0 m2 (?k\<lparr>memory := zero_blocks [(0x5000, 0x6000)] demo_memory\<rparr>))"
    using m2(1) k d(2) heap_fold [of "[(0x5000, 0x6000)]" MS_Private perm_Read 0 "0x08000000" ?k] by (simp del: fold_opt.simps) simp
  let ?k1 = "set_vm 0 m2 (?k\<lparr>memory := zero_blocks [(0x5000, 0x6000)] demo_memory\<rparr>)"
  let ?k2 = "upd_process 0 (\<lambda>pr. pr\<lparr>holding_memory := icl_add_set list_icl (holding_memory pr) [(0x5000, 0x6000)],
      memory_used := wrap_u32 (memory_used pr + 0x1000)\<rparr>) ?k1"
  have k2: "resource_limits ?k2 = resource_limits demo_neighbour" "resource_limit (processes ?k2 0) = 0"
    "vm_of (?k2\<lparr>resource_limits := R\<rparr>) 0 = m2" for R
    using d(5) by (simp_all add: upd_process_def set_vm_def set_region_def)
  obtain b R where R: "reserve_limit 0 RCommit (as_s32 0x1000) ?k2 = Some (b, ?k2\<lparr>resource_limits := R\<rparr>)"
    using reserve_commit [of ?k2 0 "0x1000"] d(6) k2 by (auto simp: FCRAM_N3DS_SIZE_def)
  define k' where "k' = ?k2\<lparr>resource_limits := R\<rparr>"
  have "Process_HeapAllocate list_icl 0 0x08000000 0x1000 perm_Read MS_Private False demo_neighbour = Some (Inr 0x08000000, k')"
    unfolding k'_def using free reg d(3,4) f R by (simp add: Process_HeapAllocate_def area_defs outside_def wrap_u32_def del: fold_opt.simps)
  moreover have "vm_of k' 0 = m2" unfolding k'_def by (rule k2(3))
  ultimately show ?thesis using d(1) m2(2) by (intro exI [of _ k']) simp
qed

end
