(* ===== verification/Ipc.thy ===== *)
theory Ipc
  imports Process_Memory Kernel_Threads
begin

text \<open>
  Command buffers: their format (\<^verbatim>\<open>core/hle/ipc.h\<close>), their translation from one process to another
  (\<^verbatim>\<open>core/hle/kernel/ipc.cpp\<close>), and the form in which services of the emulator itself see them
  (\<^verbatim>\<open>core/hle/kernel/hle_ipc.cpp\<close>).

  A command is a list of words: a header, words that are passed on as they are, and descriptors followed by the values that the
  kernel translates; an unknown descriptor is logged and skipped.  Reading a value behind the end of a command, or writing one behind the end of the buffer, is undefined in
  the code and gives \<^term>\<open>None\<close>.  Host memory for the buffers that are mapped comes from the allocator of the host, the argument
  \<open>alloc\<close>.  The recorder of commands for debugging is left out.
\<close>

unbundle bit_operations_syntax

section \<open>Format\<close>

definition COMMAND_BUFFER_LENGTH :: nat where "COMMAND_BUFFER_LENGTH = 0x100 div 4"
definition MAX_STATIC_BUFFERS :: nat where "MAX_STATIC_BUFFERS = 16"

text \<open>Values of the type that name no enumerator are \<open>OtherDescriptor\<close>.\<close>

datatype DescriptorType = StaticBuffer | PXIBuffer | MappedBuffer | CopyHandle | MoveHandle | CallingPid | OtherDescriptor

definition translate_params_size :: "u32 \<Rightarrow> nat" where "translate_params_size header = unat (ExtractValue 0 6 header)"
definition normal_params_size :: "u32 \<Rightarrow> nat" where "normal_params_size header = unat (ExtractValue 6 6 header)"
definition command_id :: "u32 \<Rightarrow> nat" where "command_id header = unat (ExtractValue 16 16 header)"

definition MakeHeader :: "u16 \<Rightarrow> u32 \<Rightarrow> u32 \<Rightarrow> u32" where
  "MakeHeader cmd nparams tparams =
     Assign 0 6 (Assign 6 6 (Assign 16 16 0 (ucast cmd)) nparams) tparams"

definition MoveHandleDesc :: "u32 \<Rightarrow> u32" where "MoveHandleDesc num_handles = 0x10 OR push_bit 26 (num_handles - 1)"
definition CopyHandleDesc :: "u32 \<Rightarrow> u32" where "CopyHandleDesc num_handles = 0 OR push_bit 26 (num_handles - 1)"
definition CallingPidDesc :: u32 where "CallingPidDesc = 0x20"

definition IsHandleDescriptor :: "u32 \<Rightarrow> bool" where
  "IsHandleDescriptor d \<longleftrightarrow> d AND 0xF = 0"

definition HandleNumberFromDesc :: "u32 \<Rightarrow> nat" where
  "HandleNumberFromDesc d = unat (drop_bit 26 d + 1)"

definition static_id :: "u32 \<Rightarrow> nat" where "static_id d = unat (ExtractValue 10 4 d)"
definition static_size :: "u32 \<Rightarrow> nat" where "static_size d = unat (ExtractValue 14 18 d)"

definition StaticBufferDesc :: "u32 \<Rightarrow> u8 \<Rightarrow> u32" where
  "StaticBufferDesc sz buffer_id = Assign 14 18 (Assign 10 4 (Assign 0 4 0 2) (ucast buffer_id)) sz"

definition PXIBufferDesc :: "u32 \<Rightarrow> u32 \<Rightarrow> bool \<Rightarrow> u32" where
  "PXIBufferDesc sz buffer_id is_read_only =
     (let ty = (if is_read_only then 4 OR 2 else 4) in ty OR push_bit 8 sz OR push_bit 4 (buffer_id AND 0xF))"

definition mapped_perms :: "u32 \<Rightarrow> u32" where "mapped_perms d = ExtractValue 1 2 d"
definition mapped_size :: "u32 \<Rightarrow> nat" where "mapped_size d = unat (ExtractValue 4 28 d)"

definition MappedBufferDesc :: "u32 \<Rightarrow> u32 \<Rightarrow> u32" where
  "MappedBufferDesc sz perms = Assign 4 28 (Assign 1 2 (Assign 0 4 0 8) perms) sz"

definition GetDescriptorType :: "u32 \<Rightarrow> DescriptorType" where
  "GetDescriptorType d =
     (if IsHandleDescriptor d then
        if d AND 0x30 = 0 then CopyHandle else if d AND 0x30 = 0x10 then MoveHandle
        else if d AND 0x30 = 0x20 then CallingPid else OtherDescriptor
      else if d AND 8 \<noteq> 0 then MappedBuffer
      else if d AND 4 \<noteq> 0 then PXIBuffer
      else StaticBuffer)"

text \<open>Words in memory.\<close>

definition words_of :: "u8 list \<Rightarrow> u32 list" where
  "words_of bs = map (\<lambda>i. word_of_nat (of_bytes (take 4 (drop (4 * i) bs)))) [0..<length bs div 4]"

definition bytes_of_words :: "u32 list \<Rightarrow> u8 list" where
  "bytes_of_words ws = concat (map (\<lambda>w. bytes_of 4 (unat w)) ws)"

definition ReadBlock :: "nat \<Rightarrow> nat \<Rightarrow> nat \<Rightarrow> kernel \<Rightarrow> (u8 list \<times> kernel) option" where
  "ReadBlock p addr n k = do {
     (bs, ms) \<leftarrow> ReadBlockImpl False (page_table (vm_of k p)) addr n (memory k);
     Some (bs, k\<lparr>memory := ms\<rparr>)
   }"

definition WriteBlock :: "nat \<Rightarrow> nat \<Rightarrow> u8 list \<Rightarrow> kernel \<Rightarrow> kernel option" where
  "WriteBlock p addr bs k = do {
     ms \<leftarrow> WriteBlockImpl False (page_table (vm_of k p)) addr bs (memory k);
     Some (k\<lparr>memory := ms\<rparr>)
   }"


section \<open>Translation between processes\<close>

text \<open>
  The translation as a whole works on the command, the buffers of the session and the kernel.  Of the command buffer only
  the command itself is defined and sent; a value written right behind it is lost.
\<close>

record translation =
  tr_cmd :: "u32 list"
  tr_buffers :: "MappedBufferContext list"
  tr_kernel :: kernel

definition cmd_read :: "nat \<Rightarrow> translation \<Rightarrow> u32 option" where
  "cmd_read i s = (if i < length (tr_cmd s) then Some (tr_cmd s ! i) else None)"

definition cmd_write :: "nat \<Rightarrow> u32 \<Rightarrow> translation \<Rightarrow> translation option" where
  "cmd_write i x s =
     (if i < length (tr_cmd s) then Some (s\<lparr>tr_cmd := (tr_cmd s)[i := x]\<rparr>)
      else if i < COMMAND_BUFFER_LENGTH then Some s else None)"

definition table_of :: "kernel \<Rightarrow> nat \<Rightarrow> kobj HandleTable" where
  "table_of k p = handle_table (processes k p)"

definition set_table :: "nat \<Rightarrow> kobj HandleTable \<Rightarrow> kernel \<Rightarrow> kernel" where
  "set_table p t = upd_process p (\<lambda>pr. pr\<lparr>handle_table := t\<rparr>)"

definition any_object :: "nat \<Rightarrow> handle \<Rightarrow> kernel \<Rightarrow> kobj option" where
  "any_object p h k =
     GetGeneric (map_option OThread (GetCurrentThread k)) (OProcess (current_process k)) (table_of k p) h"

definition close_handle :: "nat \<Rightarrow> handle \<Rightarrow> kernel \<Rightarrow> kernel" where
  "close_handle p h k = (case HandleTable_Close h (table_of k p) of Inl _ \<Rightarrow> k | Inr t \<Rightarrow> set_table p t k)"

text \<open>The object of one handle; a handle is closed when it is moved, that is if its descriptor is the one of a single move.\<close>

definition take_object :: "nat \<Rightarrow> nat \<Rightarrow> u32 \<Rightarrow> handle \<Rightarrow> kernel \<Rightarrow> kobj option \<times> kernel" where
  "take_object src_thread src descriptor h k =
     (if h = CurrentThread then (Some (OThread src_thread), k)
      else if h = CurrentProcess then (Some (OProcess src), k)
      else if h \<noteq> 0 then (any_object src h k, if descriptor = 0x10 then close_handle src h k else k)
      else (None, k))"

definition put_object :: "nat \<Rightarrow> kobj option \<Rightarrow> kernel \<Rightarrow> (handle \<times> kernel) option" where
  "put_object dst ob k =
     (case ob of
        None \<Rightarrow> Some (0, k)
      | Some x \<Rightarrow>
          (case HandleTable_Create x (table_of k dst) of
             Inl _ \<Rightarrow> None
           | Inr (h, t) \<Rightarrow> Some (h, set_table dst t k)))"

fun translate_handles :: "nat \<Rightarrow> nat \<Rightarrow> nat \<Rightarrow> u32 \<Rightarrow> handle list \<Rightarrow> kernel \<Rightarrow> (handle list \<times> kernel) option" where
  "translate_handles src_thread src dst descriptor [] k = Some ([], k)"
| "translate_handles src_thread src dst descriptor (h # hs) k = do {
     let (ob, k1) = take_object src_thread src descriptor h k;
     (h', k2) \<leftarrow> put_object dst ob k1;
     (hs', k3) \<leftarrow> translate_handles src_thread src dst descriptor hs k2;
     Some (h' # hs', k3)
   }"

definition translate_static :: "nat \<Rightarrow> nat \<Rightarrow> nat \<Rightarrow> u32 \<Rightarrow> u32 \<Rightarrow> kernel \<Rightarrow> (u32 \<times> kernel) option" where
  "translate_static src dst dst_address descriptor x k = do {
     (bs, k1) \<leftarrow> ReadBlock src (unat x) (static_size descriptor) k;
     (tb, k2) \<leftarrow> ReadBlock dst (wrap_u32 (dst_address + (COMMAND_BUFFER_LENGTH * 4 + 8 * static_id descriptor))) 8 k1;
     let target = words_of tb;
     assert_opt (static_size (target ! 0) \<ge> length bs);
     k3 \<leftarrow> WriteBlock dst (unat (target ! 1)) bs k2;
     Some (target ! 1, k3)
   }"

definition AlignDown :: "nat \<Rightarrow> nat" where "AlignDown a = a - a mod CITRA_PAGE_SIZE"
definition AlignUp :: "nat \<Rightarrow> nat" where
  "AlignUp a = (if a mod CITRA_PAGE_SIZE = 0 then a else wrap_u32 (a - a mod CITRA_PAGE_SIZE + CITRA_PAGE_SIZE))"

definition IPC_MAPPING_VADDR :: nat where "IPC_MAPPING_VADDR = 0x04000000"
definition IPC_MAPPING_SIZE :: nat where "IPC_MAPPING_SIZE = 0x04000000"

definition buffer_pages :: "nat \<Rightarrow> nat \<Rightarrow> nat" where
  "buffer_pages addr sz = AlignUp (wrap_u32 (sub_u32 addr (AlignDown addr) + sz)) div CITRA_PAGE_SIZE"

text \<open>Unmapping a buffer when the server replies.\<close>

definition matches :: "u32 \<Rightarrow> nat \<Rightarrow> nat \<Rightarrow> MappedBufferContext \<Rightarrow> bool" where
  "matches perms sz addr c \<longleftrightarrow> mb_permissions c = perms \<and> mb_size c = sz \<and> mb_target_address c = addr"

definition area_state :: "nat \<Rightarrow> VMManager \<Rightarrow> MemoryState option" where
  "area_state addr m = do {
     i \<leftarrow> FindVMA addr (vma_map m);
     assert_opt (i < length (vma_map m));
     Some (meminfo_state (vma_map m ! i))
   }"

definition unmap_buffer ::
  "nat \<Rightarrow> nat \<Rightarrow> u32 \<Rightarrow> nat \<Rightarrow> nat \<Rightarrow> MappedBufferContext list \<Rightarrow> kernel \<Rightarrow> (MappedBufferContext list \<times> kernel) option" where
  "unmap_buffer src dst perms sz addr bufs k = do {
     c \<leftarrow> find (matches perms sz addr) bufs;
     k1 \<leftarrow> (if perms \<noteq> 1
            then map_option (\<lambda>ms. k\<lparr>memory := ms\<rparr>) (CopyBlock (page_table (vm_of k dst)) (page_table (vm_of k src))
                   (mb_source_address c) (mb_target_address c) sz (memory k))
            else Some k);
     let num_pages = buffer_pages addr sz;
     let prev_reserve = sub_u32 (AlignDown addr) CITRA_PAGE_SIZE;
     let next_reserve = wrap_u32 (AlignDown addr + num_pages * CITRA_PAGE_SIZE);
     s1 \<leftarrow> area_state prev_reserve (vm_of k1 src);
     s2 \<leftarrow> area_state next_reserve (vm_of k1 src);
     assert_opt (s1 = MS_Reserved \<and> s2 = MS_Reserved);
     (r, m) \<leftarrow> UnmapRange (kcached k1) prev_reserve ((num_pages + 2) * CITRA_PAGE_SIZE) (vm_of k1 src);
     assert_opt (r = ResultSuccess);
     Some (remove1 c bufs, set_vm src m k1)
   }"

text \<open>Mapping a copy of a buffer, between two pages that nobody may access, into the server.\<close>

definition guard_page :: "(nat \<Rightarrow> bool) \<Rightarrow> nat \<Rightarrow> VMManager \<Rightarrow> VMManager option" where
  "guard_page cached addr m = do {
     (r, m1) \<leftarrow> ChangeMemoryState cached addr CITRA_PAGE_SIZE MS_Shared perm_ReadWrite MS_Reserved perm_None m;
     assert_opt (r = ResultSuccess);
     Some m1
   }"

definition map_buffer ::
  "(kernel \<Rightarrow> nat \<Rightarrow> nat) \<Rightarrow> nat \<Rightarrow> nat \<Rightarrow> u32 \<Rightarrow> nat \<Rightarrow> nat \<Rightarrow> MappedBufferContext list \<Rightarrow> kernel \<Rightarrow>
     (nat \<times> MappedBufferContext list \<times> kernel) option" where
  "map_buffer alloc src dst perms sz addr bufs k = do {
     let page_offset = sub_u32 addr (AlignDown addr);
     let total = (buffer_pages addr sz + 2) * CITRA_PAGE_SIZE;
     let ptr = alloc k total;
     let ref = Some \<lparr>block_ptr = ptr, block_size = total, ref_offset = 0\<rparr>;
     let k0 = k\<lparr>memory := host_write ptr (replicate total 0) (memory k)\<rparr>;
     (bs, k1) \<leftarrow> ReadBlock src addr sz k0;
     let k2 = k1\<lparr>memory := host_write (ptr + CITRA_PAGE_SIZE + page_offset) bs (memory k1)\<rparr>;
     (r, m) \<leftarrow> MapBackingMemoryToBase (kcached k2) IPC_MAPPING_VADDR IPC_MAPPING_SIZE ref total MS_Shared (vm_of k2 dst);
     low \<leftarrow> Unwrap r;
     m1 \<leftarrow> guard_page (kcached k2) low m;
     m2 \<leftarrow> guard_page (kcached k2) (wrap_u32 (sub_u32 (wrap_u32 (low + total)) CITRA_PAGE_SIZE)) m1;
     let target = wrap_u32 (wrap_u32 (low + CITRA_PAGE_SIZE) + page_offset);
     Some (target, bufs @ [\<lparr>mb_permissions = perms, mb_size = sz, mb_source_address = addr, mb_target_address = target, mb_buffer = ref\<rparr>],
           set_vm dst m2 k2)
   }"

definition translate_mapped ::
  "(kernel \<Rightarrow> nat \<Rightarrow> nat) \<Rightarrow> nat \<Rightarrow> nat \<Rightarrow> bool \<Rightarrow> u32 \<Rightarrow> nat \<Rightarrow> translation \<Rightarrow> translation option" where
  "translate_mapped alloc src dst reply descriptor i s = do {
     x \<leftarrow> cmd_read i s;
     let perms = mapped_perms descriptor;
     let sz = mapped_size descriptor;
     if sz = 0 then cmd_write i 0 s
     else do {
       assert_opt (buffer_pages (unat x) sz \<ge> 1);
       if reply then do {
         (bufs, k) \<leftarrow> unmap_buffer src dst perms sz (unat x) (tr_buffers s) (tr_kernel s);
         Some (s\<lparr>tr_buffers := bufs, tr_kernel := k\<rparr>)
       }
       else do {
         (target, bufs, k) \<leftarrow> map_buffer alloc src dst perms sz (unat x) (tr_buffers s) (tr_kernel s);
         cmd_write i (word_of_nat target) (s\<lparr>tr_buffers := bufs, tr_kernel := k\<rparr>)
       }
     }
   }"

definition ResultCommandTooLarge :: result where
  "ResultCommandTooLarge = Result 54 ''OS'' S_InvalidState L_Status"

text \<open>
  One descriptor: the index behind its values or an error, and the new state.  Every descriptor takes at least
  one word, so as many iterations as there are words are enough.
\<close>

definition translate_descriptor ::
  "(kernel \<Rightarrow> nat \<Rightarrow> nat) \<Rightarrow> nat \<Rightarrow> nat \<Rightarrow> nat \<Rightarrow> nat \<Rightarrow> bool \<Rightarrow> nat \<Rightarrow> translation \<Rightarrow> (nat result_val \<times> translation) option" where
  "translate_descriptor alloc src_thread src dst dst_address reply i s =
     (let descriptor = tr_cmd s ! i; k = tr_kernel s in
      case GetDescriptorType descriptor of
        CallingPid \<Rightarrow> map_option (Pair (Inr (i + 2))) (cmd_write (i + 1) (word_of_nat (process_id (processes k src))) s)
      | StaticBuffer \<Rightarrow> do {
          x \<leftarrow> cmd_read (i + 1) s;
          (y, k1) \<leftarrow> translate_static src dst dst_address descriptor x k;
          s1 \<leftarrow> cmd_write (i + 1) y (s\<lparr>tr_kernel := k1\<rparr>);
          Some (Inr (i + 2), s1)
        }
      | MappedBuffer \<Rightarrow> map_option (Pair (Inr (i + 2))) (translate_mapped alloc src dst reply descriptor (i + 1) s)
      | PXIBuffer \<Rightarrow> Some (Inr (i + 1), s)
      | OtherDescriptor \<Rightarrow> Some (Inr (i + 1), s)
      | _ \<Rightarrow>
          let n = HandleNumberFromDesc descriptor in
          if i + 1 + n > length (tr_cmd s) then Some (Inl ResultCommandTooLarge, s)
          else do {
            (hs, k1) \<leftarrow> translate_handles src_thread src dst descriptor (take n (drop (i + 1) (tr_cmd s))) k;
            Some (Inr (i + 1 + n), s\<lparr>tr_cmd := take (i + 1) (tr_cmd s) @ hs @ drop (i + 1 + n) (tr_cmd s), tr_kernel := k1\<rparr>)
          })"

fun translate_loop ::
  "(nat \<Rightarrow> translation \<Rightarrow> (nat result_val \<times> translation) option) \<Rightarrow> nat \<Rightarrow> nat \<Rightarrow> translation \<Rightarrow> (result \<times> translation) option" where
  "translate_loop step 0 i s = (if i < length (tr_cmd s) then None else Some (ResultSuccess, s))"
| "translate_loop step (Suc n) i s =
     (if i < length (tr_cmd s) then do {
        (r, s1) \<leftarrow> step i s;
        case r of Inl e \<Rightarrow> Some (e, s1) | Inr i1 \<Rightarrow> translate_loop step n i1 s1
      } else Some (ResultSuccess, s))"

definition TranslateCommandBuffer ::
  "(kernel \<Rightarrow> nat \<Rightarrow> nat) \<Rightarrow> nat \<Rightarrow> nat \<Rightarrow> nat \<Rightarrow> nat \<Rightarrow> MappedBufferContext list \<Rightarrow> bool \<Rightarrow> kernel \<Rightarrow>
     (result \<times> MappedBufferContext list \<times> kernel) option" where
  "TranslateCommandBuffer alloc src_thread dst_thread src_address dst_address bufs reply k = do {
     src \<leftarrow> owner_process (threads k src_thread);
     dst \<leftarrow> owner_process (threads k dst_thread);
     (hb, k1) \<leftarrow> ReadBlock src src_address 4 k;
     let header = words_of hb ! 0;
     let untranslated_size = 1 + normal_params_size header;
     let command_size = untranslated_size + translate_params_size header;
     assert_opt (command_size \<le> COMMAND_BUFFER_LENGTH);
     (cb, k2) \<leftarrow> ReadBlock src src_address (command_size * 4) k1;
     (r, s) \<leftarrow> translate_loop (translate_descriptor alloc src_thread src dst dst_address reply) command_size untranslated_size
        \<lparr>tr_cmd = words_of cb, tr_buffers = bufs, tr_kernel = k2\<rparr>;
     if r \<noteq> ResultSuccess then Some (r, tr_buffers s, tr_kernel s)
     else do {
       k3 \<leftarrow> WriteBlock dst dst_address (bytes_of_words (tr_cmd s)) (tr_kernel s);
       Some (ResultSuccess, tr_buffers s, k3)
     }
   }"


section \<open>What the translation changes\<close>

text \<open>The translation changes guest memory and processes only.\<close>

definition ipc_frame :: "kernel \<Rightarrow> kernel \<Rightarrow> bool" where
  "ipc_frame k k' \<longleftrightarrow> k\<lparr>memory := memory k', processes := processes k'\<rparr> = k'"

lemma ipc_frame_refl [simp]: "ipc_frame k k"
  by (simp add: ipc_frame_def)

lemma ipc_frame_trans:
  assumes "ipc_frame k k1" "ipc_frame k1 k2"
  shows "ipc_frame k k2"
proof -
  have "k2 = k1\<lparr>memory := memory k2, processes := processes k2\<rparr>" using assms(2) by (simp add: ipc_frame_def)
  also have "\<dots> = k\<lparr>memory := memory k1, processes := processes k1\<rparr>\<lparr>memory := memory k2, processes := processes k2\<rparr>"
    using assms(1) by (simp add: ipc_frame_def)
  finally show ?thesis by (simp add: ipc_frame_def)
qed

lemma ipc_frame_ops [simp]:
  "ipc_frame k (k\<lparr>memory := ms\<rparr>)" "ipc_frame k (set_vm p m k)" "ipc_frame k ((set_vm p m k)\<lparr>memory := ms\<rparr>)" "ipc_frame k (set_table p t k)" "ipc_frame k (close_handle p h k)"
  by (simp_all add: ipc_frame_def set_vm_def set_table_def upd_process_def close_handle_def split: sum.split)

lemma block_ipc_frame:
  "ReadBlock p a n k = Some (bs, k') \<Longrightarrow> ipc_frame k k'" "WriteBlock p a bs k = Some k' \<Longrightarrow> ipc_frame k k'"
  by (auto simp: ReadBlock_def WriteBlock_def bind_eq_Some_conv)

lemma take_put_ipc_frame:
  "take_object st src d h k = (ob, k') \<Longrightarrow> ipc_frame k k'" "put_object dst ob k = Some (h, k') \<Longrightarrow> ipc_frame k k'"
  by (auto simp: take_object_def put_object_def split: if_splits option.splits sum.splits)

lemma translate_handles_frame:
  "translate_handles st src dst d hs k = Some (hs', k') \<Longrightarrow> ipc_frame k k'"
proof (induction hs arbitrary: k hs')
  case (Cons h hs)
  obtain ob k1 where t: "take_object st src d h k = (ob, k1)" by (metis surj_pair)
  then obtain h' k2 hs2 where "put_object dst ob k1 = Some (h', k2)" "translate_handles st src dst d hs k2 = Some (hs2, k')"
    using Cons.prems by (auto simp: bind_eq_Some_conv)
  then show ?case
    using Cons.IH take_put_ipc_frame(1) [OF t] take_put_ipc_frame(2) ipc_frame_trans by blast
qed simp

lemma translate_static_frame:
  "translate_static src dst a d x k = Some (y, k') \<Longrightarrow> ipc_frame k k'"
  by (auto simp: translate_static_def bind_eq_Some_conv Let_def split: if_splits dest!: block_ipc_frame intro: ipc_frame_trans)

lemma buffer_frame:
  "unmap_buffer src dst perms sz a bufs k = Some (bufs', k') \<Longrightarrow> ipc_frame k k'"
  "map_buffer alloc src dst perms sz a bufs k = Some (target, bufs', k') \<Longrightarrow> ipc_frame k k'"
proof -
  assume "unmap_buffer src dst perms sz a bufs k = Some (bufs', k')"
  then obtain k1 m where k1: "k1 = k \<or> (\<exists>ms. k1 = k\<lparr>memory := ms\<rparr>)" "k' = set_vm src m k1"
    by (auto simp: unmap_buffer_def bind_eq_Some_conv Let_def split: if_splits)
  then have "ipc_frame k k1" "ipc_frame k1 k'" by auto
  then show "ipc_frame k k'" by (rule ipc_frame_trans)
next
  assume "map_buffer alloc src dst perms sz a bufs k = Some (target, bufs', k')"
  then obtain ms bs k1 ms2 m where "ReadBlock src a sz (k\<lparr>memory := ms\<rparr>) = Some (bs, k1)" "k' = set_vm dst m (k1\<lparr>memory := ms2\<rparr>)"
    by (auto simp: map_buffer_def bind_eq_Some_conv Let_def)
  then have "ipc_frame (k\<lparr>memory := ms\<rparr>) k1" "ipc_frame k1 k'" by (auto dest: block_ipc_frame)
  then show "ipc_frame k k'" using ipc_frame_trans [OF ipc_frame_ops(1) [of k ms]] ipc_frame_trans [of k k1 k'] by blast
qed

lemma cmd_write_kernel: "cmd_write i x s = Some s' \<Longrightarrow> tr_kernel s' = tr_kernel s"
  by (auto simp: cmd_write_def split: if_splits)

lemma translate_mapped_frame:
  assumes "translate_mapped alloc src dst reply d i s = Some s'"
  shows "ipc_frame (tr_kernel s) (tr_kernel s')"
  using assms
  by (auto simp: translate_mapped_def bind_eq_Some_conv Let_def dest!: cmd_write_kernel buffer_frame split: if_splits)

lemma translate_descriptor_frame:
  assumes "translate_descriptor alloc st src dst a reply i s = Some (r, s')"
  shows "ipc_frame (tr_kernel s) (tr_kernel s')"
  using assms
  by (auto simp: translate_descriptor_def Let_def bind_eq_Some_conv dest!: cmd_write_kernel translate_mapped_frame translate_static_frame
      translate_handles_frame split: DescriptorType.splits if_splits)

lemma translate_loop_frame:
  assumes "\<And>i s r s'. step i s = Some (r, s') \<Longrightarrow> ipc_frame (tr_kernel s) (tr_kernel s')"
  shows "translate_loop step n i s = Some (r, s') \<Longrightarrow> ipc_frame (tr_kernel s) (tr_kernel s')"
proof (induction n arbitrary: i s)
  case (Suc n)
  show ?case
  proof (cases "i < length (tr_cmd s)")
    case True
    then obtain q s1 where q: "step i s = Some (q, s1)" "(case q of Inl e \<Rightarrow> Some (e, s1) | Inr i1 \<Rightarrow> translate_loop step n i1 s1) = Some (r, s')"
      using Suc.prems by (auto simp: bind_eq_Some_conv)
    then have "ipc_frame (tr_kernel s1) (tr_kernel s')" using Suc.IH by (auto split: sum.splits)
    with assms [OF q(1)] show ?thesis by (rule ipc_frame_trans)
  next
    case False
    then show ?thesis using Suc.prems by simp
  qed
qed (simp split: if_splits)

lemma TranslateCommandBuffer_frame:
  assumes "TranslateCommandBuffer alloc st dt src_address dst_address bufs reply k = Some (r, bufs', k')"
  shows "ipc_frame k k'"
proof -
  have loop: "ipc_frame k2 (tr_kernel s)" if "translate_loop (translate_descriptor alloc st src dst dst_address reply) n m
      \<lparr>tr_cmd = c, tr_buffers = bufs, tr_kernel = k2\<rparr> = Some (q, s)" for src dst n m c k2 q s
    using translate_loop_frame [OF translate_descriptor_frame that] by simp
  show ?thesis
    using assms unfolding TranslateCommandBuffer_def
    by (auto simp: bind_eq_Some_conv Let_def simp del: translate_loop.simps split: if_splits dest!: block_ipc_frame loop) (meson ipc_frame_trans)+
qed

lemma ipc_frame_fields:
  assumes "ipc_frame k k'"
  shows "threads k' = threads k" "num_threads k' = num_threads k" "waiting_threads k' = waiting_threads k"
    "hle_notifier k' = hle_notifier k" "hle_notified k' = hle_notified k" "mutexes k' = mutexes k" "semaphores k' = semaphores k" "events k' = events k"
    "ktimers k' = ktimers k" "arbiters k' = arbiters k" "thread_managers k' = thread_managers k" "timing k' = timing k"
    "client_ports k' = client_ports k" "server_ports k' = server_ports k" "sessions k' = sessions k"
    "client_sessions k' = client_sessions k" "server_sessions k' = server_sessions k" "num_server_sessions k' = num_server_sessions k"
    "num_cores k' = num_cores k" "current_cpu k' = current_cpu k" "current_process k' = current_process k"
    "connected_sessions k' = connected_sessions k" "num_sessions k' = num_sessions k" "host_alloc k' = host_alloc k"
    "num_client_ports k' = num_client_ports k" "num_server_ports k' = num_server_ports k" "num_client_sessions k' = num_client_sessions k" "named_ports k' = named_ports k"
proof -
  obtain ms ps where k': "k' = k\<lparr>memory := ms, processes := ps\<rparr>" using assms unfolding ipc_frame_def by metis
  show "threads k' = threads k" "num_threads k' = num_threads k" "waiting_threads k' = waiting_threads k"
    "hle_notifier k' = hle_notifier k" "hle_notified k' = hle_notified k" "mutexes k' = mutexes k" "semaphores k' = semaphores k" "events k' = events k"
    "ktimers k' = ktimers k" "arbiters k' = arbiters k" "thread_managers k' = thread_managers k" "timing k' = timing k"
    "client_ports k' = client_ports k" "server_ports k' = server_ports k" "sessions k' = sessions k"
    "client_sessions k' = client_sessions k" "server_sessions k' = server_sessions k" "num_server_sessions k' = num_server_sessions k"
    "num_cores k' = num_cores k" "current_cpu k' = current_cpu k" "current_process k' = current_process k"
    "connected_sessions k' = connected_sessions k" "num_sessions k' = num_sessions k" "host_alloc k' = host_alloc k"
    "num_client_ports k' = num_client_ports k" "num_server_ports k' = num_server_ports k" "num_client_sessions k' = num_client_sessions k" "named_ports k' = named_ports k"
    unfolding k' by simp_all
qed


section \<open>Requests to services of the emulator\<close>

record HMappedBuffer =
  hb_id :: nat
  hb_address :: nat
  hb_process :: nat
  hb_size :: nat
  hb_perms :: u32

definition new_MappedBuffer :: "nat \<Rightarrow> u32 \<Rightarrow> nat \<Rightarrow> nat \<Rightarrow> HMappedBuffer" where
  "new_MappedBuffer p descriptor address ident =
     \<lparr>hb_id = ident, hb_address = address, hb_process = p, hb_size = mapped_size descriptor, hb_perms = mapped_perms descriptor\<rparr>"

definition MappedBuffer_Read :: "HMappedBuffer \<Rightarrow> nat \<Rightarrow> nat \<Rightarrow> kernel \<Rightarrow> (u8 list \<times> kernel) option" where
  "MappedBuffer_Read b offset n k = do {
     assert_opt (hb_perms b AND 1 \<noteq> 0);
     assert_opt (offset + n \<le> hb_size b);
     ReadBlock (hb_process b) (wrap_u32 (hb_address b + offset)) n k
   }"

definition MappedBuffer_Write :: "HMappedBuffer \<Rightarrow> nat \<Rightarrow> u8 list \<Rightarrow> kernel \<Rightarrow> kernel option" where
  "MappedBuffer_Write b offset bs k = do {
     assert_opt (hb_perms b AND 2 \<noteq> 0);
     assert_opt (offset + length bs \<le> hb_size b);
     WriteBlock (hb_process b) (wrap_u32 (hb_address b + offset)) bs k
   }"

definition GenerateDescriptor :: "HMappedBuffer \<Rightarrow> u32" where
  "GenerateDescriptor b = MappedBufferDesc (word_of_nat (hb_size b)) (hb_perms b)"

text \<open>A request: \<open>cmd_buf\<close> has 64 words; the words that nobody wrote are arbitrary, here they are what the caller passes.\<close>

record HLERequestContext =
  cmd_buf :: "u32 list"
  request_handles :: "kobj option list"
  static_buffers :: "u8 list list"
  request_mapped_buffers :: "HMappedBuffer list"

definition new_HLERequestContext :: "u32 list \<Rightarrow> HLERequestContext" where
  "new_HLERequestContext old =
     \<lparr>cmd_buf = old[0 := 0], request_handles = [], static_buffers = replicate MAX_STATIC_BUFFERS [], request_mapped_buffers = []\<rparr>"

definition GetIncomingHandle :: "nat \<Rightarrow> HLERequestContext \<Rightarrow> kobj option option" where
  "GetIncomingHandle i c = (if i < length (request_handles c) then Some (request_handles c ! i) else None)"

definition AddOutgoingHandle :: "kobj option \<Rightarrow> HLERequestContext \<Rightarrow> nat \<times> HLERequestContext" where
  "AddOutgoingHandle ob c = (length (request_handles c), c\<lparr>request_handles := request_handles c @ [ob]\<rparr>)"

definition ClearIncomingObjects :: "HLERequestContext \<Rightarrow> HLERequestContext" where
  "ClearIncomingObjects c = c\<lparr>request_handles := []\<rparr>"

definition GetStaticBuffer :: "nat \<Rightarrow> HLERequestContext \<Rightarrow> u8 list option" where
  "GetStaticBuffer i c = (if i < length (static_buffers c) then Some (static_buffers c ! i) else None)"

definition AddStaticBuffer :: "nat \<Rightarrow> u8 list \<Rightarrow> HLERequestContext \<Rightarrow> HLERequestContext option" where
  "AddStaticBuffer i bs c =
     (if i < length (static_buffers c) then Some (c\<lparr>static_buffers := (static_buffers c)[i := bs]\<rparr>) else None)"

definition GetMappedBuffer :: "nat \<Rightarrow> HLERequestContext \<Rightarrow> HMappedBuffer option" where
  "GetMappedBuffer i c = (if i < length (request_mapped_buffers c) then Some (request_mapped_buffers c ! i) else None)"

text \<open>Writes to the 64 words of a request.\<close>

definition ctx_write :: "nat \<Rightarrow> u32 \<Rightarrow> HLERequestContext \<Rightarrow> HLERequestContext option" where
  "ctx_write i x c = (if i < length (cmd_buf c) then Some (c\<lparr>cmd_buf := (cmd_buf c)[i := x]\<rparr>) else None)"

fun incoming_handles :: "nat \<Rightarrow> u32 \<Rightarrow> nat \<Rightarrow> handle list \<Rightarrow> HLERequestContext \<times> kernel \<Rightarrow> (HLERequestContext \<times> kernel) option" where
  "incoming_handles src descriptor i [] s = Some s"
| "incoming_handles src descriptor i (h # hs) (c, k) = do {
     (ob, k1) \<leftarrow> (if h \<noteq> 0 then do {
        x \<leftarrow> any_object src h k;
        Some (Some x, if descriptor = 0x10 then close_handle src h k else k)
      } else Some (None, k));
     let (ident, c1) = AddOutgoingHandle ob c;
     c2 \<leftarrow> ctx_write i (word_of_nat ident) c1;
     incoming_handles src descriptor (i + 1) hs (c2, k1)
   }"

text \<open>The source of a request is the command buffer and the static buffers behind it, 96 words.\<close>

definition incoming_descriptor :: "nat \<Rightarrow> u32 list \<Rightarrow> nat \<Rightarrow> nat \<Rightarrow> HLERequestContext \<times> kernel \<Rightarrow> (nat \<times> HLERequestContext \<times> kernel) option" where
  "incoming_descriptor src ws command_size i = (\<lambda>(c0, k). do {
     let descriptor = ws ! i;
     c \<leftarrow> ctx_write i descriptor c0;
     case GetDescriptorType descriptor of
       CallingPid \<Rightarrow> map_option (\<lambda>c. (i + 2, c, k)) (ctx_write (i + 1) (word_of_nat (process_id (processes k src))) c)
     | StaticBuffer \<Rightarrow> do {
         (bs, k1) \<leftarrow> ReadBlock src (unat (ws ! (i + 1))) (static_size descriptor) k;
         c1 \<leftarrow> AddStaticBuffer (static_id descriptor) bs c;
         c2 \<leftarrow> ctx_write (i + 1) (ws ! (i + 1)) c1;
         Some (i + 2, c2, k1)
       }
     | MappedBuffer \<Rightarrow> do {
         let ident = length (request_mapped_buffers c);
         let c1 = c\<lparr>request_mapped_buffers := request_mapped_buffers c @ [new_MappedBuffer src descriptor (unat (ws ! (i + 1))) ident]\<rparr>;
         c2 \<leftarrow> ctx_write (i + 1) (word_of_nat ident) c1;
         Some (i + 2, c2, k)
       }
     | PXIBuffer \<Rightarrow> Some (i + 1, c, k)
     | OtherDescriptor \<Rightarrow> Some (i + 1, c, k)
     | _ \<Rightarrow> do {
         let n = HandleNumberFromDesc descriptor;
         assert_opt (i + 1 + n \<le> command_size);
         s \<leftarrow> incoming_handles src descriptor (i + 1) (take n (drop (i + 1) ws)) (c, k);
         Some (i + 1 + n, s)
       }
   })"

fun descriptor_loop :: "(nat \<Rightarrow> 's \<Rightarrow> (nat \<times> 's) option) \<Rightarrow> nat \<Rightarrow> nat \<Rightarrow> nat \<Rightarrow> 's \<Rightarrow> 's option" where
  "descriptor_loop step command_size 0 i s = (if i < command_size then None else Some s)"
| "descriptor_loop step command_size (Suc n) i s =
     (if i < command_size then do { (i1, s1) \<leftarrow> step i s; descriptor_loop step command_size n i1 s1 } else Some s)"

definition PopulateFromIncomingCommandBuffer ::
  "u32 list \<Rightarrow> nat \<Rightarrow> HLERequestContext \<Rightarrow> kernel \<Rightarrow> (HLERequestContext \<times> kernel) option" where
  "PopulateFromIncomingCommandBuffer src_cmdbuf src c k = do {
     let header = src_cmdbuf ! 0;
     let untranslated_size = 1 + normal_params_size header;
     let command_size = untranslated_size + translate_params_size header;
     assert_opt (command_size \<le> COMMAND_BUFFER_LENGTH);
     let c1 = c\<lparr>cmd_buf := take untranslated_size src_cmdbuf @ drop untranslated_size (cmd_buf c)\<rparr>;
     descriptor_loop (incoming_descriptor src src_cmdbuf command_size) command_size command_size untranslated_size (c1, k)
   }"

fun outgoing_handles :: "nat \<Rightarrow> HLERequestContext \<Rightarrow> nat \<Rightarrow> u32 list \<Rightarrow> u32 list \<times> kernel \<Rightarrow> (u32 list \<times> kernel) option" where
  "outgoing_handles dst c i [] s = Some s"
| "outgoing_handles dst c i (x # xs) (ws, k) = do {
     ob \<leftarrow> GetIncomingHandle (unat x) c;
     (h, k1) \<leftarrow> put_object dst ob k;
     outgoing_handles dst c (i + 1) xs (ws[i := h], k1)
   }"

definition outgoing_descriptor :: "nat \<Rightarrow> HLERequestContext \<Rightarrow> nat \<Rightarrow> nat \<Rightarrow> u32 list \<times> kernel \<Rightarrow> (nat \<times> u32 list \<times> kernel) option" where
  "outgoing_descriptor dst c command_size i = (\<lambda>(ws0, k). do {
     let descriptor = cmd_buf c ! i;
     let ws = ws0[i := descriptor];
     case GetDescriptorType descriptor of
       StaticBuffer \<Rightarrow> do {
         bs \<leftarrow> GetStaticBuffer (static_id descriptor) c;
         let offset = COMMAND_BUFFER_LENGTH + 2 * static_id descriptor;
         assert_opt (static_size (ws ! offset) \<ge> length bs);
         k1 \<leftarrow> WriteBlock dst (unat (ws ! (offset + 1))) bs k;
         Some (i + 2, ws[i + 1 := ws ! (offset + 1)], k1)
       }
     | MappedBuffer \<Rightarrow> do {
         assert_opt (i + 1 < length (cmd_buf c));
         b \<leftarrow> GetMappedBuffer (unat (cmd_buf c ! (i + 1))) c;
         Some (i + 2, ws[i + 1 := word_of_nat (hb_address b)], k)
       }
     | CopyHandle \<Rightarrow> do {
         let n = HandleNumberFromDesc descriptor;
         assert_opt (i + 1 + n \<le> command_size);
         s \<leftarrow> outgoing_handles dst c (i + 1) (take n (drop (i + 1) (cmd_buf c))) (ws, k);
         Some (i + 1 + n, s)
       }
     | MoveHandle \<Rightarrow> do {
         let n = HandleNumberFromDesc descriptor;
         assert_opt (i + 1 + n \<le> command_size);
         s \<leftarrow> outgoing_handles dst c (i + 1) (take n (drop (i + 1) (cmd_buf c))) (ws, k);
         Some (i + 1 + n, s)
       }
     | _ \<Rightarrow> Some (i + 1, ws, k)
   })"

definition WriteToOutgoingCommandBuffer :: "u32 list \<Rightarrow> nat \<Rightarrow> HLERequestContext \<Rightarrow> kernel \<Rightarrow> (u32 list \<times> kernel) option" where
  "WriteToOutgoingCommandBuffer dst_cmdbuf dst c k = do {
     let header = cmd_buf c ! 0;
     let untranslated_size = 1 + normal_params_size header;
     let command_size = untranslated_size + translate_params_size header;
     assert_opt (command_size \<le> COMMAND_BUFFER_LENGTH);
     let ws = take untranslated_size (cmd_buf c) @ drop untranslated_size dst_cmdbuf;
     descriptor_loop (outgoing_descriptor dst c command_size) command_size command_size untranslated_size (ws, k)
   }"


section \<open>Handles in commands\<close>

lemma open_not_full: "ht_inv t \<Longrightarrow> open_count t < MAX_COUNT \<Longrightarrow> \<not> ht_full t"
proof
  assume "ht_inv t" "open_count t < MAX_COUNT" "ht_full t"
  then have "{s. s < MAX_COUNT \<and> objects t ! s \<noteq> None} = {..<MAX_COUNT}"
    by (auto simp: ht_full_def list_all_length ht_inv_def)
  then show False using \<open>open_count t < MAX_COUNT\<close> by (simp add: open_count_def)
qed

lemma open_count_create: "HandleTable_Create ob t = Inr (h, t') \<Longrightarrow> open_count t' \<le> open_count t + 1"
proof -
  assume "HandleTable_Create ob t = Inr (h, t')"
  then have "objects t' = (objects t)[unat (next_free_slot t) := Some ob]"
    by (auto simp: HandleTable_Create_def Let_def split: if_splits)
  then have "{s. s < MAX_COUNT \<and> objects t' ! s \<noteq> None} \<subseteq> insert (unat (next_free_slot t)) {s. s < MAX_COUNT \<and> objects t ! s \<noteq> None}"
    by (auto simp: nth_list_update_if split: if_splits)
  then have "open_count t' \<le> card (insert (unat (next_free_slot t)) {s. s < MAX_COUNT \<and> objects t ! s \<noteq> None})"
    unfolding open_count_def by (intro card_mono) simp_all
  then show ?thesis unfolding open_count_def using card_insert_le_m1 [of "card {s. s < MAX_COUNT \<and> objects t ! s \<noteq> None} + 1"] by (simp add: card_insert_if split: if_splits)
qed

lemma view_zero: "ht_inv t \<Longrightarrow> view t (key_of 0) = None"
proof -
  assume "ht_inv t"
  then have "objects t ! 0 \<noteq> None \<longrightarrow> gen_ok (generations t ! 0)" by (simp add: ht_inv_def MAX_COUNT_def)
  then show ?thesis by (auto simp: view_def key_of_def GetSlot_def GetGeneration_def gen_ok_def)
qed

lemma set_table_simps [simp]:
  "table_of (set_table p t k) q = (if q = p then t else table_of k q)" "current_process (set_table p t k) = current_process k"
  "GetCurrentThread (set_table p t k) = GetCurrentThread k" "memory (set_table p t k) = memory k"
  by (simp_all add: table_of_def set_table_def upd_process_def GetCurrentThread_def)

text \<open>What a handle stands for when it is sent.\<close>

definition sent_object :: "nat \<Rightarrow> nat \<Rightarrow> kernel \<Rightarrow> handle \<Rightarrow> kobj option" where
  "sent_object src_thread src k h =
     (if h = CurrentThread then Some (OThread src_thread) else if h = CurrentProcess then Some (OProcess src)
      else view (table_of k src) (key_of h))"

lemma take_object_eq:
  assumes "ht_inv (table_of k src)"
  shows "take_object src_thread src d h k =
    (sent_object src_thread src k h, if d = 0x10 \<and> h \<noteq> CurrentThread \<and> h \<noteq> CurrentProcess \<and> h \<noteq> 0 then close_handle src h k else k)"
  using view_zero [OF assms] by (auto simp: take_object_def sent_object_def any_object_def GetGeneric_view)

lemma put_object_ok:
  assumes "ht_inv (table_of k dst)" "open_count (table_of k dst) < MAX_COUNT"
  shows "\<exists>h t. put_object dst ob k = Some (h, set_table dst t k) \<and> ht_inv t \<and> open_count t \<le> open_count (table_of k dst) + 1 \<and>
    (case ob of None \<Rightarrow> h = 0 \<and> t = table_of k dst
       | Some x \<Rightarrow> view (table_of k dst) (key_of h) = None \<and> view t = (view (table_of k dst))(key_of h \<mapsto> x))"
proof (cases ob)
  case None
  moreover have "set_table dst (table_of k dst) k = k" by (simp add: set_table_def table_of_def upd_process_def)
  ultimately show ?thesis using assms by (auto simp: put_object_def intro!: exI [of _ "table_of k dst"])
next
  case (Some x)
  obtain h t where c: "HandleTable_Create x (table_of k dst) = Inr (h, t)" "ht_inv t" "view (table_of k dst) (key_of h) = None"
    "view t = (view (table_of k dst))(key_of h \<mapsto> x)"
    using ht.create_law [OF assms(1) open_not_full [OF assms]] by blast
  then show ?thesis using Some open_count_create [OF c(1)] by (auto simp: put_object_def)
qed

text \<open>The values that stand for objects in the table of the receiver.\<close>

definition received :: "kobj HandleTable \<Rightarrow> kobj option list \<Rightarrow> handle list \<Rightarrow> bool" where
  "received t = list_all2 (\<lambda>ob h. case ob of None \<Rightarrow> h = 0 | Some x \<Rightarrow> view t (key_of h) = Some x)"

lemma received_simps [simp]:
  "received t [] []" "received t (ob # obs) (h # hs) \<longleftrightarrow> (case ob of None \<Rightarrow> h = 0 | Some x \<Rightarrow> view t (key_of h) = Some x) \<and> received t obs hs"
  by (simp_all add: received_def)

lemma copy_handles:
  assumes "src \<noteq> dst" "d \<noteq> 0x10"
  shows "ht_inv (table_of k src) \<Longrightarrow> ht_inv (table_of k dst) \<Longrightarrow> open_count (table_of k dst) + length hs \<le> MAX_COUNT \<Longrightarrow>
    \<exists>hs' t. translate_handles src_thread src dst d hs k = Some (hs', set_table dst t k) \<and> ht_inv t \<and>
      received t (map (sent_object src_thread src k) hs) hs' \<and>
      view (table_of k dst) \<subseteq>\<^sub>m view t"
proof (induction hs arbitrary: k)
  case Nil
  have "set_table dst (table_of k dst) k = k" by (simp add: set_table_def table_of_def upd_process_def)
  then show ?case using Nil by (intro exI [of _ "[]"] exI [of _ "table_of k dst"]) simp
next
  case (Cons h hs)
  let ?t = "table_of k dst"
  obtain h' t1 where p: "put_object dst (sent_object src_thread src k h) k = Some (h', set_table dst t1 k)" "ht_inv t1"
    "open_count t1 \<le> open_count ?t + 1" "case sent_object src_thread src k h of None \<Rightarrow> h' = 0 \<and> t1 = ?t
       | Some x \<Rightarrow> view ?t (key_of h') = None \<and> view t1 = (view ?t)(key_of h' \<mapsto> x)"
    using put_object_ok [OF Cons.prems(2), of "sent_object src_thread src k h"] Cons.prems(3) by auto
  let ?k1 = "set_table dst t1 k"
  have same: "table_of ?k1 src = table_of k src" "table_of ?k1 dst = t1" "sent_object src_thread src ?k1 = sent_object src_thread src k"
    using assms(1) by (auto simp: sent_object_def fun_eq_iff)
  obtain hs' t2 where r: "translate_handles src_thread src dst d hs ?k1 = Some (hs', set_table dst t2 ?k1)" "ht_inv t2"
    "received t2 (map (sent_object src_thread src k) hs) hs'" "view t1 \<subseteq>\<^sub>m view t2"
    using Cons.IH [of ?k1] Cons.prems p(2,3) same by auto
  have twice: "set_table dst t2 ?k1 = set_table dst t2 k" by (simp add: set_table_def upd_process_def)
  have "translate_handles src_thread src dst d (h # hs) k = Some (h' # hs', set_table dst t2 k)"
    using p(1) r(1) take_object_eq [OF Cons.prems(1)] assms(2) by (simp add: twice)
  moreover have "case sent_object src_thread src k h of None \<Rightarrow> h' = 0 | Some x \<Rightarrow> view t2 (key_of h') = Some x"
    using p(4) r(4) by (auto simp: map_le_def split: option.splits)
  moreover have "view ?t \<subseteq>\<^sub>m view t1" using p(4) by (auto simp: map_le_def split: option.splits)
  then have "view ?t \<subseteq>\<^sub>m view t2" using r(4) map_le_trans by blast
  ultimately show ?case using r(2,3) by auto
qed

text \<open>C40: Sending handles.  When the table of the receiver has room, every handle of a descriptor becomes a handle of the receiver for the
  same object: the sender itself for the two pseudo handles, and zero if the handle stands for nothing.  The receiver keeps all its handles.
  A handle that is moved alone is closed in the table of the sender; if a descriptor moves two or more handles, none of them
  is closed, because the code compares the whole descriptor with the type.\<close>

theorem handles_sent:
  assumes "src \<noteq> dst" and "ht_inv (table_of k src)" and "ht_inv (table_of k dst)"
    and "GetDescriptorType d = CopyHandle \<or> GetDescriptorType d = MoveHandle" and "length hs = HandleNumberFromDesc d"
    and "open_count (table_of k dst) + length hs \<le> MAX_COUNT"
  shows "\<exists>hs' k'. translate_handles src_thread src dst d hs k = Some (hs', k') \<and> ht_inv (table_of k' src) \<and> ht_inv (table_of k' dst) \<and>
    received (table_of k' dst) (map (sent_object src_thread src k) hs) hs' \<and>
    view (table_of k dst) \<subseteq>\<^sub>m view (table_of k' dst) \<and>
    view (table_of k' src) = (if d = MoveHandleDesc 1 then (view (table_of k src))(key_of (hs ! 0) := None) else view (table_of k src))"
proof (cases "d = 0x10")
  case False
  then obtain hs' t where r: "translate_handles src_thread src dst d hs k = Some (hs', set_table dst t k)" "ht_inv t"
    "received t (map (sent_object src_thread src k) hs) hs'" "view (table_of k dst) \<subseteq>\<^sub>m view t"
    using copy_handles [OF assms(1) False assms(2,3,6)] by blast
  moreover have "table_of (set_table dst t k) src = table_of k src" "table_of (set_table dst t k) dst = t" using assms(1) by simp_all
  ultimately show ?thesis using assms(2) False
    by (intro exI [of _ hs'] exI [of _ "set_table dst t k"]) (simp add: MoveHandleDesc_def)
next
  case True
  then have "length hs = 1" using assms(5) by (simp add: HandleNumberFromDesc_def)
  then obtain h where hs: "hs = [h]" by (cases hs) auto
  let ?pseudo = "h = CurrentThread \<or> h = CurrentProcess \<or> h = 0"
  obtain k1 where k1: "take_object src_thread src d h k = (sent_object src_thread src k h, k1)" "ht_inv (table_of k1 src)"
    "view (table_of k1 src) = (view (table_of k src))(key_of h := None)" "table_of k1 dst = table_of k dst"
  proof (cases "view (table_of k src) (key_of h)")
    case None
    then have "close_handle src h k = k" by (simp add: close_handle_def HandleTable_Close_invalid)
    then show ?thesis using that [of k] None take_object_eq [OF assms(2)] assms(2) by (auto simp: fun_eq_iff)
  next
    case (Some x)
    obtain t where t: "HandleTable_Close h (table_of k src) = Inr t" "ht_inv t" "view t = (view (table_of k src))(key_of h := None)"
      using HandleTable_Close_law [OF assms(2) Some] by blast
    have "\<not> ?pseudo" using Some view_zero [OF assms(2)] by auto
    then show ?thesis
      using that [of "set_table src t k"] t True take_object_eq [OF assms(2)] assms(1) by (simp add: close_handle_def)
  qed
  have room: "open_count (table_of k1 dst) < MAX_COUNT" using assms(6) hs k1(4) by simp
  obtain h' t where p: "put_object dst (sent_object src_thread src k h) k1 = Some (h', set_table dst t k1)" "ht_inv t"
    "case sent_object src_thread src k h of None \<Rightarrow> h' = 0 \<and> t = table_of k1 dst
       | Some x \<Rightarrow> view (table_of k1 dst) (key_of h') = None \<and> view t = (view (table_of k1 dst))(key_of h' \<mapsto> x)"
    using put_object_ok [of k1 dst "sent_object src_thread src k h"] assms(3) k1(4) room by metis
  have "translate_handles src_thread src dst d hs k = Some ([h'], set_table dst t k1)" using hs k1(1) p(1) by simp
  moreover have "view (table_of k dst) \<subseteq>\<^sub>m view t" "received t [sent_object src_thread src k h] [h']"
    using p(3) k1(4) by (auto simp: map_le_def split: option.splits)
  ultimately show ?thesis using assms(1) k1(2,3) p(2) hs True
    by (intro exI [of _ "[h']"] exI [of _ "set_table dst t k1"]) (simp add: MoveHandleDesc_def)
qed

text \<open>A sender with one handle, number 1, for an event.\<close>

lemma demo_sender:
  "\<exists>t. HandleTable_Create (OEvent 5) new_HandleTable = Inr (1, t) \<and> ht_inv t \<and> view t (key_of 1) = Some (OEvent 5)"
proof -
  obtain h t where h: "HandleTable_Create (OEvent 5) new_HandleTable = Inr (h, t)" "ht_inv t" "view t = (view new_HandleTable)(key_of h \<mapsto> OEvent 5)"
    using HandleTable_Create_law [OF ht_inv_new, of "OEvent 5"] by (auto simp: MAX_COUNT_def)
  moreover have "h = 1" using h(1) by (simp add: HandleTable_Create_def new_HandleTable_def HandleTable_Clear_def MAX_COUNT_def Let_def)
  ultimately show ?thesis by simp
qed

theorem handles_sent_witness:
  "\<exists>t hs k'. HandleTable_Create (OEvent 5) new_HandleTable = Inr (1, t) \<and>
     translate_handles 7 0 2 (MoveHandleDesc 2) [1, CurrentThread] (set_table 0 t demo_proc) = Some (hs, k') \<and>
     received (table_of k' 2) [Some (OEvent 5), Some (OThread 7)] hs \<and> view (table_of k' 0) (key_of 1) = Some (OEvent 5)"
proof -
  obtain t where t: "HandleTable_Create (OEvent 5) new_HandleTable = Inr (1, t)" "ht_inv t" "view t (key_of 1) = Some (OEvent 5)"
    using demo_sender by blast
  let ?k = "set_table 0 t demo_proc"
  have tb: "table_of ?k 0 = t" "table_of ?k 2 = new_HandleTable"
    by (simp, simp add: table_of_def set_table_def demo_proc_def upd_process_def new_KernelSystem_def new_Process_def)
  have d: "GetDescriptorType (MoveHandleDesc 2) = MoveHandle" "HandleNumberFromDesc (MoveHandleDesc 2) = 2" "MoveHandleDesc 2 \<noteq> MoveHandleDesc 1"
    by (simp_all add: GetDescriptorType_def IsHandleDescriptor_def HandleNumberFromDesc_def MoveHandleDesc_def push_bit_eq_mult drop_bit_eq_div)
  have "open_count (new_HandleTable :: kobj HandleTable) = 0" by (simp add: open_count_def new_HandleTable_def HandleTable_Clear_def nth_replicate cong: conj_cong)
  then have o: "open_count (table_of ?k 2) + length [1, CurrentThread] \<le> MAX_COUNT" unfolding tb by (simp add: MAX_COUNT_def)
  have v: "map (sent_object 7 0 ?k) [1, CurrentThread] = [Some (OEvent 5), Some (OThread 7)]"
    using t(3) by (simp add: sent_object_def tb CurrentThread_def CurrentProcess_def)
  have i: "ht_inv (table_of ?k 0)" "ht_inv (table_of ?k 2)" unfolding tb using t(2) ht_inv_new by simp_all
  have l: "length [1, CurrentThread] = HandleNumberFromDesc (MoveHandleDesc 2)" using d(2) by simp
  from handles_sent [OF _ i disjI2 [OF d(1)] l o, of 7] show ?thesis
    unfolding v using t(1,3) d(3) by (auto simp: tb(1))
qed


section \<open>Mapped buffers\<close>

text \<open>Reading and copying blocks leaves the marks of cached pages alone.\<close>

lemma block_loop_keeps:
  assumes "\<And>page off amount s s'. step page off amount s = Some s' \<Longrightarrow> f s' = f s"
  shows "block_loop step n page off rem s = Some s' \<Longrightarrow> f s' = f s"
proof (induction n arbitrary: page off rem s)
  case (Suc n)
  then show ?case using assms by (auto simp: Let_def bind_eq_Some_conv assert_opt_def split: if_splits)
qed simp

lemma block_op_keeps:
  "(\<And>page off amount s s'. step page off amount s = Some s' \<Longrightarrow> f s' = f s) \<Longrightarrow> block_op step a n s = Some s' \<Longrightarrow> f s' = f s"
  unfolding block_op_def by (rule block_loop_keeps)

lemma cached_flush [simp]: "cached_page (RasterizerFlushVirtualRegion a n mode ms) = cached_page ms"
proof -
  have c: "cached_page (CheckRegion a b mode c d e ms) = cached_page ms" for a b c d e ms
    by (intro ext) (simp add: CheckRegion_def cached_page_def IsCached_def Let_def split: option.split)
  show ?thesis by (simp add: RasterizerFlushVirtualRegion_def Let_def c split: option.split)
qed

lemma locate_cached: "locate unsafe mode pt page off amount ms = Some (p, ms') \<Longrightarrow> cached_page ms' = cached_page ms"
  by (auto simp: locate_def Let_def bind_eq_Some_conv assert_opt_def split: PageType.splits if_splits)

lemma page_ops_cached:
  "read_page unsafe pt page off amount s = Some s' \<Longrightarrow> cached_page (snd s') = cached_page (snd s)"
  "write_page unsafe pt page off amount s = Some s' \<Longrightarrow> cached_page (snd s') = cached_page (snd s)"
  "zero_page pt page off amount ms = Some ms' \<Longrightarrow> cached_page ms' = cached_page ms"
  by (cases s; auto simp: read_page_def write_page_def zero_page_def bind_eq_Some_conv dest!: locate_cached split: option.splits)+

lemma ReadBlockImpl_cached: "ReadBlockImpl unsafe pt a n ms = Some (bs, ms') \<Longrightarrow> cached_page ms' = cached_page ms"
  using block_op_keeps [where f = "\<lambda>s. cached_page (snd s)", OF page_ops_cached(1)] unfolding ReadBlockImpl_def by fastforce

lemma WriteBlockImpl_cached: "WriteBlockImpl unsafe pt a bs ms = Some ms' \<Longrightarrow> cached_page ms' = cached_page ms"
  using block_op_keeps [where f = "\<lambda>s. cached_page (snd s)", OF page_ops_cached(2)] unfolding WriteBlockImpl_def by fastforce

lemma ZeroBlock_cached: "ZeroBlock pt a n ms = Some ms' \<Longrightarrow> cached_page ms' = cached_page ms"
  using block_op_keeps [where f = cached_page, OF page_ops_cached(3)] unfolding ZeroBlock_def by fastforce

lemma copy_page_cached: "copy_page dpt spt page off amount s = Some s' \<Longrightarrow> cached_page (snd s') = cached_page (snd s)"
  by (cases s) (auto simp: copy_page_def bind_eq_Some_conv dest!: locate_cached WriteBlockImpl_cached ZeroBlock_cached split: option.splits)

lemma CopyBlock_cached: "CopyBlock dpt spt da sa n ms = Some ms' \<Longrightarrow> cached_page ms' = cached_page ms"
  using block_op_keeps [where f = "\<lambda>s. cached_page (snd s)", OF copy_page_cached] unfolding CopyBlock_def by fastforce

text \<open>Offsets and numbers of pages of a buffer.\<close>

lemma align_offset: "addr < 2 ^ 32 \<Longrightarrow> sub_u32 addr (AlignDown addr) = addr mod CITRA_PAGE_SIZE"
  by (simp add: AlignDown_def sub_u32_le)

lemma buffer_pages_mod:
  assumes "addr < 2 ^ 32" "addr' < 2 ^ 32" "addr mod CITRA_PAGE_SIZE = addr' mod CITRA_PAGE_SIZE"
  shows "buffer_pages addr sz = buffer_pages addr' sz"
  using assms by (simp add: buffer_pages_def align_offset)

lemma align_page: "CITRA_PAGE_SIZE dvd a \<Longrightarrow> off < CITRA_PAGE_SIZE \<Longrightarrow> AlignDown (a + off) = a" "CITRA_PAGE_SIZE dvd a \<Longrightarrow> off < CITRA_PAGE_SIZE \<Longrightarrow> (a + off) mod CITRA_PAGE_SIZE = off"
  by (auto simp: AlignDown_def elim!: dvdE)

lemma area_state_page:
  assumes "vm_inv H F cached m" "CITRA_PAGE_SIZE dvd t" "t < MAX_ADDRESS"
  shows "area_state t m = Some (fst (snd (snd (pages (vma_map m) ! (t div CITRA_PAGE_SIZE)))))"
proof -
  note c = vm_invD(1) [OF assms(1)]
  obtain xs v ys where l: "vma_map m = xs @ v # ys" "vbase v \<le> t" "t < vbase v + vsize v"
    using find_area [OF c _ assms(3)] by auto
  have "FindVMA t (vma_map m) = Some (length xs)" using FindVMA_eq [of H xs v ys t] c l by simp
  moreover have "page_key (pages (vma_map m) ! (t div CITRA_PAGE_SIZE)) = area_key v"
    using page_at [OF c, of v "t div CITRA_PAGE_SIZE"] l assms(2) by simp
  ultimately show ?thesis using l(1) by (simp add: area_state_def page_key_def area_key_def)
qed

lemma guard_page_ok:
  assumes "separated H" "vm_inv H True cached m" "\<not> is_locked m" "good_range t CITRA_PAGE_SIZE"
    "pages (vma_map m) ! (t div CITRA_PAGE_SIZE) = (BackingMemory, perm_ReadWrite, MS_Shared, a)"
  shows "\<exists>m'. guard_page cached t m = Some m' \<and> vm_inv H True cached m' \<and> \<not> is_locked m' \<and>
    pages (vma_map m') = (pages (vma_map m))[t div CITRA_PAGE_SIZE := (BackingMemory, perm_None, MS_Reserved, a)]"
proof -
  let ?ps = "pages (vma_map m)" and ?i = "t div CITRA_PAGE_SIZE"
  have len: "length ?ps = MAX_ADDRESS div CITRA_PAGE_SIZE" using map_length [OF vm_invD(1) [OF assms(2)]] .
  have i: "?i < length ?ps" using good_range_le [OF assms(4) len] by simp
  have r: "range_pages t CITRA_PAGE_SIZE ?ps = [?ps ! ?i]" using i by (simp add: range_pages_def take_Suc hd_drop_conv_nth)
  have "set_range t [q] ?ps = ?ps[?i := q]" for q using i by (simp add: set_range_def upd_conv_take_nth_drop)
  then show ?thesis
    using ChangeMemoryState_spec [OF assms(1-4), of MS_Shared perm_ReadWrite MS_Reserved perm_None] assms(5)
    unfolding r by (auto simp: guard_page_def)
qed

lemma find_in: "find P l = Some x \<Longrightarrow> x \<in> set l"
  by (auto simp: find_Some_iff)

lemma find_snoc: "find P l = None \<Longrightarrow> find P (l @ [x]) = (if P x then Some x else None)"
  by (induction l) (auto split: if_splits)

lemma map_to_base:
  assumes "separated H" "vm_inv H F cached m" "\<not> is_locked m" "ref_ok H ref n" "CITRA_PAGE_SIZE dvd n" "0 < n" "n < 2 ^ 31"
    and "MapBackingMemoryToBase cached IPC_MAPPING_VADDR IPC_MAPPING_SIZE ref n st m = Some (Inr low, m')"
  shows "IPC_MAPPING_VADDR \<le> low" "good_range low n" "all_free low n m" "vm_inv H F cached m'" "\<not> is_locked m'"
    "pages (vma_map m') = set_range low (block_pages perm_ReadWrite st (ref, n)) (pages (vma_map m))"
proof -
  note c = vm_invD(1) [OF assms(2)]
  obtain v i where v: "v \<in> set (vma_map m)" "low = max IPC_MAPPING_VADDR (vbase v)" "wrap_u32 (low + n) \<le> IPC_MAPPING_VADDR + IPC_MAPPING_SIZE"
    and r: "MapBackingMemory cached low ref n st m = Some (Inr i, m')"
  proof -
    obtain v r0 where v: "v \<in> set (vma_map m)" "\<not> wrap_u32 (max IPC_MAPPING_VADDR (vbase v) + n) > wrap_u32 (IPC_MAPPING_VADDR + IPC_MAPPING_SIZE)"
      "MapBackingMemory cached (max IPC_MAPPING_VADDR (vbase v)) ref n st m = Some (r0, m')"
      "(case r0 of Inl e \<Rightarrow> Inl e | Inr _ \<Rightarrow> Inr (max IPC_MAPPING_VADDR (vbase v))) = (Inr low :: nat result_val)"
      using assms(8) unfolding MapBackingMemoryToBase_def Let_def
      by (auto simp: bind_eq_Some_conv dest: find_in split: if_splits)
    have "wrap_u32 (IPC_MAPPING_VADDR + IPC_MAPPING_SIZE) = IPC_MAPPING_VADDR + IPC_MAPPING_SIZE"
      by (simp add: IPC_MAPPING_VADDR_def IPC_MAPPING_SIZE_def)
    then show ?thesis using that v by (cases r0) (auto simp: not_less)
  qed
  obtain xs ys where "vma_map m = xs @ v # ys" using split_list [OF v(1)] by blast
  then have "chain H 0 xs (vbase v)" using c by (auto simp: chain_append)
  then have b: "CITRA_PAGE_SIZE dvd vbase v" "vbase v < MAX_ADDRESS"
    using chain_aligned [of H 0 xs "vbase v"] chain_bases [OF c v(1)] by (auto simp: vma_ok_def)
  have d: "CITRA_PAGE_SIZE dvd low" "low < MAX_ADDRESS" "low + n < 2 ^ 32"
    using b v(2) assms(7) by (auto simp: max_def IPC_MAPPING_VADDR_def MAX_ADDRESS_def CITRA_PAGE_SIZE_def)
  have p: "GetPtr ref \<noteq> 0" using assms(4) by (auto simp: ref_ok_def GetPtr_def split: option.splits)
  have f: "low + n \<le> MAX_ADDRESS" "all_free low n m"
    using MapBackingMemory_busy [OF assms(2,3) p d(1) assms(5,6) d(3,2), of st] r by auto
  then have g: "good_range low n" using d assms(5,6) by (simp add: good_range_def)
  show "IPC_MAPPING_VADDR \<le> low" "good_range low n" "all_free low n m" using v(2) g f by simp_all
  show "vm_inv H F cached m'" "\<not> is_locked m'"
    "pages (vma_map m') = set_range low (block_pages perm_ReadWrite st (ref, n)) (pages (vma_map m))"
    using MapBackingMemory_ok [OF assms(1-3) g assms(4) f(2), of st] r by (auto simp: block_pages_def)
qed

lemma set_range_update:
  assumes "i < length qs" "t div CITRA_PAGE_SIZE + length qs \<le> length ps"
  shows "(set_range t qs ps)[t div CITRA_PAGE_SIZE + i := q] = set_range t (qs[i := q]) ps"
  using assms by (simp add: set_range_def list_update_append min_def)

text \<open>The pages of a mapped buffer: the first and the last one are guards.\<close>

definition guarded_pages :: "MemoryRef \<Rightarrow> nat \<Rightarrow> page list" where
  "guarded_pages ref n =
     (let ps = block_pages perm_ReadWrite MS_Shared (ref, n); j = n div CITRA_PAGE_SIZE - 1; guard = \<lambda>a. (BackingMemory, perm_None, MS_Reserved, a)
      in ps[0 := guard (GetPtr ref), j := guard (GetPtr ref + j * CITRA_PAGE_SIZE)])"

lemma guards_ok:
  assumes "separated H" "vm_inv H True cached m" "\<not> is_locked m" "good_range low n" "n = (N + 2) * CITRA_PAGE_SIZE"
    and ps: "pages (vma_map m) = set_range low (block_pages perm_ReadWrite MS_Shared (ref, n)) ps" "length ps = MAX_ADDRESS div CITRA_PAGE_SIZE"
  shows "\<exists>m1 m2. guard_page cached low m = Some m1 \<and> guard_page cached (wrap_u32 (sub_u32 (wrap_u32 (low + n)) CITRA_PAGE_SIZE)) m1 = Some m2 \<and>
    vm_inv H True cached m2 \<and> \<not> is_locked m2 \<and> pages (vma_map m2) = set_range low (guarded_pages ref n) ps"
proof -
  let ?P = CITRA_PAGE_SIZE
  have n: "n div ?P = N + 2" "2 * ?P \<le> n" "n - ?P = (N + 1) * ?P" using assms(5) by (simp_all add: algebra_simps)
  have b: "low + n \<le> MAX_ADDRESS" "?P dvd low" using good_rangeD [OF assms(4)] by simp_all
  have hi: "wrap_u32 (sub_u32 (wrap_u32 (low + n)) ?P) = low + (n - ?P)"
    using b(1) n(2) by (simp add: sub_u32_le MAX_ADDRESS_def)
  let ?qs = "block_pages perm_ReadWrite MS_Shared (ref, n)" and ?i = "low div ?P" and ?j = "n div ?P - 1"
  have len: "?i + length ?qs \<le> length ps" using good_range_le [OF assms(4) ps(2)] by simp
  obtain L where L: "low = L * ?P" using b(2) by (metis dvd_def mult.commute)
  have ij: "(low + (n - ?P)) div ?P = ?i + ?j" "?j < length ?qs" "0 < length ?qs" "?j \<noteq> 0"
    using n(1) unfolding L n(3) by (simp_all flip: distrib_right)
  have q: "?qs ! x = (BackingMemory, perm_ReadWrite, MS_Shared, GetPtr ref + x * ?P)" if "x < length ?qs" for x
    using that by (simp add: block_pages_def)
  have at: "set_range low qs ps ! (?i + x) = qs ! x" if "x < length ?qs" "length qs = length ?qs" for x qs
    using that len by (simp add: set_range_nth)
  have gr: "good_range low ?P" "good_range (low + (n - ?P)) ?P"
    using b n(2,3) by (simp_all add: good_range_def)
  let ?g = "\<lambda>x. (BackingMemory, perm_None, MS_Reserved, GetPtr ref + x * ?P)"
  have "pages (vma_map m) ! (low div ?P) = (BackingMemory, perm_ReadWrite, MS_Shared, GetPtr ref)"
    unfolding ps(1) using at [of 0 ?qs] q [of 0] ij(3) by simp
  from guard_page_ok [OF assms(1-3) gr(1) this] obtain m1 where
    m1: "guard_page cached low m = Some m1" "vm_inv H True cached m1" "\<not> is_locked m1" "pages (vma_map m1) = set_range low (?qs[0 := ?g 0]) ps"
    using set_range_update [of 0 ?qs low ps] len ij(3) unfolding ps(1) by auto
  have "pages (vma_map m1) ! ((low + (n - ?P)) div ?P) = (BackingMemory, perm_ReadWrite, MS_Shared, GetPtr ref + ?j * ?P)"
    unfolding m1(4) ij(1) using at [of ?j "?qs[0 := ?g 0]"] q [OF ij(2)] ij(2,4) by simp
  from guard_page_ok [OF assms(1) m1(2,3) gr(2) this] obtain m2 where
    "guard_page cached (low + (n - ?P)) m1 = Some m2" "vm_inv H True cached m2" "\<not> is_locked m2"
    "pages (vma_map m2) = set_range low (?qs[0 := ?g 0, ?j := ?g ?j]) ps"
    using set_range_update [of ?j "?qs[0 := ?g 0]" low ps] len ij(2) unfolding m1(4) ij(1) by auto
  then show ?thesis using m1(1) unfolding hi by (simp add: guarded_pages_def Let_def)
qed

lemma buffer_pages_small:
  assumes "addr < 2 ^ 32" "sz < 2 ^ 28"
  shows "buffer_pages addr sz \<le> 2 ^ 16 + 2"
proof -
  have "AlignUp x \<le> x + CITRA_PAGE_SIZE" for x
    using mod_less_eq_dividend [of "x - x mod CITRA_PAGE_SIZE + CITRA_PAGE_SIZE" "2 ^ 32"] by (auto simp: AlignUp_def wrap_u32_def)
  moreover have "addr mod CITRA_PAGE_SIZE < CITRA_PAGE_SIZE" by (simp add: CITRA_PAGE_SIZE_def)
  then have "wrap_u32 (addr mod CITRA_PAGE_SIZE + sz) \<le> 2 ^ 28 + CITRA_PAGE_SIZE"
    using assms(2) by (simp add: CITRA_PAGE_SIZE_def)
  ultimately have "AlignUp (wrap_u32 (addr mod CITRA_PAGE_SIZE + sz)) \<le> 2 ^ 28 + CITRA_PAGE_SIZE + CITRA_PAGE_SIZE"
    by (meson add_le_mono1 le_trans)
  then have "AlignUp (wrap_u32 (addr mod CITRA_PAGE_SIZE + sz)) div CITRA_PAGE_SIZE \<le> (2 ^ 28 + CITRA_PAGE_SIZE + CITRA_PAGE_SIZE) div CITRA_PAGE_SIZE"
    by (rule div_le_mono)
  then show ?thesis using assms(1) by (simp add: buffer_pages_def align_offset CITRA_PAGE_SIZE_def)
qed

lemma map_buffer_pages:
  assumes "separated H" "vm_inv H True (kcached k) (vm_of k dst)" "\<not> is_locked (vm_of k dst)" "addr < 2 ^ 32" "sz < 2 ^ 28"
    and "n = (buffer_pages addr sz + 2) * CITRA_PAGE_SIZE" and "ref = Some \<lparr>block_ptr = alloc k n, block_size = n, ref_offset = 0\<rparr>" "ref_ok H ref n"
    and "map_buffer alloc src dst perms sz addr bufs k = Some (target, bufs', k')"
  shows "\<exists>low. IPC_MAPPING_VADDR \<le> low \<and> good_range low n \<and> all_free low n (vm_of k dst) \<and> target = low + CITRA_PAGE_SIZE + addr mod CITRA_PAGE_SIZE \<and>
    bufs' = bufs @ [\<lparr>mb_permissions = perms, mb_size = sz, mb_source_address = addr, mb_target_address = target, mb_buffer = ref\<rparr>] \<and>
    kcached k' = kcached k \<and> vm_inv H True (kcached k') (vm_of k' dst) \<and> \<not> is_locked (vm_of k' dst) \<and>
    pages (vma_map (vm_of k' dst)) = set_range low (guarded_pages ref n) (pages (vma_map (vm_of k dst)))"
proof -
  let ?P = CITRA_PAGE_SIZE and ?vm = "vm_of k dst"
  have n: "?P dvd n" "0 < n" "n < 2 ^ 31" "n div ?P = buffer_pages addr sz + 2"
    using assms(6) buffer_pages_small [OF assms(4,5)] by (simp_all add: CITRA_PAGE_SIZE_def)
  obtain bs k1 r m low m1 m2 k2 where rd: "ReadBlock src addr sz (k\<lparr>memory := host_write (alloc k n) (replicate n 0) (memory k)\<rparr>) = Some (bs, k1)"
    and k2: "k2 = k1\<lparr>memory := host_write (alloc k n + ?P + addr mod ?P) bs (memory k1)\<rparr>"
    and mb: "MapBackingMemoryToBase (kcached k2) IPC_MAPPING_VADDR IPC_MAPPING_SIZE ref n MS_Shared (vm_of k2 dst) = Some (r, m)" "Unwrap r = Some low"
    and g: "guard_page (kcached k2) low m = Some m1" "guard_page (kcached k2) (wrap_u32 (sub_u32 (wrap_u32 (low + n)) ?P)) m1 = Some m2"
    and out: "target = wrap_u32 (wrap_u32 (low + ?P) + addr mod ?P)" "k' = set_vm dst m2 k2"
      "bufs' = bufs @ [\<lparr>mb_permissions = perms, mb_size = sz, mb_source_address = addr, mb_target_address = target, mb_buffer = ref\<rparr>]"
    using assms(9) unfolding map_buffer_def Let_def assms(6) [symmetric] assms(7) [symmetric] align_offset [OF assms(4)]
    by (auto simp: bind_eq_Some_conv)
  have same: "vm_of k2 dst = ?vm" "kcached k2 = kcached k"
    using rd k2 by (auto simp: ReadBlock_def bind_eq_Some_conv dest: ReadBlockImpl_cached)
  have "r = Inr low" using mb(2) by (cases r) (auto simp: Unwrap_def)
  note mp = map_to_base [OF assms(1-3,8) n(1-3) mb(1) [unfolded same \<open>r = Inr low\<close>]]
  have b: "low + n \<le> MAX_ADDRESS" using good_rangeD [OF mp(2)] by simp
  have m2: "vm_inv H True (kcached k) m2" "\<not> is_locked m2" "pages (vma_map m2) = set_range low (guarded_pages ref n) (pages (vma_map ?vm))"
    using guards_ok [OF assms(1) mp(4,5,2) assms(6) mp(6) map_length [OF vm_invD(1) [OF assms(2)]]] g unfolding same by auto
  have t: "target = low + ?P + addr mod ?P"
  proof -
    have "addr mod ?P < ?P" "2 * ?P \<le> n" using assms(6) by (simp_all add: CITRA_PAGE_SIZE_def)
    then have "low + ?P + addr mod ?P < MAX_ADDRESS" using b by linarith
    then show ?thesis using out(1) by (simp add: MAX_ADDRESS_def)
  qed
  have "vm_of k' dst = m2" "kcached k' = kcached k" unfolding out(2) using same(2) by (simp_all add: set_vm_def upd_process_def)
  then show ?thesis using mp(1-3) m2 t out(3) by (intro exI [of _ low]) simp
qed

lemma guarded_pages_nth:
  assumes "n = (N + 2) * CITRA_PAGE_SIZE"
  shows "length (guarded_pages ref n) = N + 2" "p \<in> set (guarded_pages ref n) \<Longrightarrow> fst p = BackingMemory"
    "fst (snd (snd (guarded_pages ref n ! 0))) = MS_Reserved" "fst (snd (snd (guarded_pages ref n ! (N + 1)))) = MS_Reserved"
proof -
  have n: "n div CITRA_PAGE_SIZE = N + 2" using assms by simp
  have bp: "list_all (\<lambda>p. fst p = BackingMemory) (block_pages perm_ReadWrite MS_Shared (ref, n))" by (simp add: block_pages_def list_all_iff)
  show "length (guarded_pages ref n) = N + 2" "p \<in> set (guarded_pages ref n) \<Longrightarrow> fst p = BackingMemory"
    "fst (snd (snd (guarded_pages ref n ! 0))) = MS_Reserved" "fst (snd (snd (guarded_pages ref n ! (N + 1)))) = MS_Reserved"
    using bp by (auto simp: guarded_pages_def Let_def n list_all_iff dest!: set_update_subset_insert [THEN subsetD])
qed

lemma unmap_buffer_pages:
  assumes "separated H" "vm_inv H True (kcached k) (vm_of k p)" "\<not> is_locked (vm_of k p)"
    and n: "n = (buffer_pages target sz + 2) * CITRA_PAGE_SIZE" and g: "good_range low n"
    and t: "target = low + CITRA_PAGE_SIZE + off" "off < CITRA_PAGE_SIZE"
    and ps: "pages (vma_map (vm_of k p)) = set_range low (guarded_pages ref n) ps" "length ps = MAX_ADDRESS div CITRA_PAGE_SIZE"
    and c: "find (matches perms sz target) bufs = Some c"
    and copy: "perms = 1 \<or> (\<exists>ms. CopyBlock (page_table (vm_of k q)) (page_table (vm_of k p)) (mb_source_address c) (mb_target_address c) sz
      (memory k) = Some ms)"
  shows "\<exists>k'. unmap_buffer p q perms sz target bufs k = Some (remove1 c bufs, k') \<and> kcached k' = kcached k \<and>
    vm_inv H True (kcached k') (vm_of k' p) \<and> \<not> is_locked (vm_of k' p) \<and>
    pages (vma_map (vm_of k' p)) = set_range low (replicate (n div CITRA_PAGE_SIZE) free_page) ps"
proof -
  let ?P = CITRA_PAGE_SIZE and ?N = "buffer_pages target sz" and ?vm = "vm_of k p"
  obtain k1 where k1: "(if perms \<noteq> 1 then map_option (\<lambda>ms. k\<lparr>memory := ms\<rparr>) (CopyBlock (page_table (vm_of k q)) (page_table ?vm)
      (mb_source_address c) (mb_target_address c) sz (memory k)) else Some k) = Some k1"
    using copy by (cases "perms = 1") auto
  have same: "vm_of k1 p = ?vm" "kcached k1 = kcached k" using k1 by (auto dest: CopyBlock_cached split: if_splits)
  note r = good_rangeD [OF g] and gp = guarded_pages_nth [OF n]
  have al: "AlignDown target = low + ?P" unfolding t(1) using align_page(1) [OF _ t(2)] r(1) by simp
  have b: "low + ?P + ?N * ?P + ?P \<le> MAX_ADDRESS" using r(4) n by (simp add: algebra_simps)
  have lo: "sub_u32 (AlignDown target) ?P = low" and hi: "wrap_u32 (AlignDown target + ?N * ?P) = low + (?N + 1) * ?P"
    using b unfolding al by (simp_all add: sub_u32_le MAX_ADDRESS_def CITRA_PAGE_SIZE_def)
  have len: "low div ?P + length (guarded_pages ref n) \<le> length ps" using good_range_le [OF g ps(2)] gp(1) n by simp
  have at: "pages (vma_map ?vm) ! (low div ?P + i) = guarded_pages ref n ! i" if "i < ?N + 2" for i
    unfolding ps(1) using that gp(1) len by (simp add: set_range_nth)
  have hd: "(low + (?N + 1) * ?P) div ?P = low div ?P + (?N + 1)" using r(1) by (simp add: div_plus_div_distrib_dvd_left)
  have "(?N + 1) * ?P = ?N * ?P + ?P" "0 < ?P" by (simp_all add: CITRA_PAGE_SIZE_def)
  then have "low < MAX_ADDRESS" "low + (?N + 1) * ?P < MAX_ADDRESS" "?P dvd low + (?N + 1) * ?P" using b r(1) by (linarith, linarith, simp)
  then have st: "area_state low ?vm = Some MS_Reserved" "area_state (low + (?N + 1) * ?P) ?vm = Some MS_Reserved"
    using area_state_page [OF assms(2)] r(1) at [of 0] at [of "?N + 1"] gp(3,4) hd by simp_all
  have "range_pages low n (pages (vma_map ?vm)) = guarded_pages ref n"
    unfolding ps(1) using set_range_pages(1) [OF g ps(2)] gp(1) n by simp
  then have bk: "\<forall>x \<in> set (range_pages low n (pages (vma_map ?vm))). fst x = BackingMemory" using gp(2) by simp
  obtain m where m: "UnmapRange (kcached k) low n ?vm = Some (ResultSuccess, m)" "vm_inv H True (kcached k) m" "\<not> is_locked m"
    "pages (vma_map m) = set_range low (replicate (n div ?P) free_page) (pages (vma_map ?vm))"
    using UnmapRange_ok [OF assms(1-3) g bk] by blast
  have "unmap_buffer p q perms sz target bufs k = Some (remove1 c bufs, set_vm p m k1)"
    unfolding unmap_buffer_def Let_def lo hi n [symmetric] using c k1 st m(1) by (simp add: same)
  moreover have "vm_of (set_vm p m k1) p = m" "kcached (set_vm p m k1) = kcached k"
    using same(2) by (simp_all add: set_vm_def upd_process_def)
  moreover have "pages (vma_map m) = set_range low (replicate (n div ?P) free_page) ps"
    unfolding m(4) ps(1) using set_range_pages(3) [OF g ps(2), of "guarded_pages ref n"] gp(1) n by simp
  ultimately show ?thesis using m(2,3) by (intro exI [of _ "set_vm p m k1"]) simp
qed

text \<open>C7: Lending a buffer.  A request shows a buffer of the client to the server between two guard pages, in pages of the server that were
  free.  Whatever the server did with the contents of memory, the reply that names the same buffer finds it, unmaps it with its
  guards, and leaves every page of the server and the list of buffers of the session as they were before the request.\<close>

theorem mapped_buffer_roundtrip:
  assumes "separated H" and "vm_inv H True (kcached k) (vm_of k server)" and "\<not> is_locked (vm_of k server)"
    and "addr < 2 ^ 32" and "sz < 2 ^ 28" and "n = (buffer_pages addr sz + 2) * CITRA_PAGE_SIZE"
    and "ref_ok H (Some \<lparr>block_ptr = alloc k n, block_size = n, ref_offset = 0\<rparr>) n"
    and "map_buffer alloc client server perms sz addr bufs k = Some (target, bufs', k1)"
    and "\<forall>b \<in> set bufs. mb_target_address b \<noteq> target"
    and "vm_of k2 server = vm_of k1 server" and "kcached k2 = kcached k1"
    and "perms = 1 \<or> (\<exists>ms. CopyBlock (page_table (vm_of k2 client)) (page_table (vm_of k2 server)) addr target sz (memory k2) = Some ms)"
  shows "\<exists>k3. unmap_buffer server client perms sz target bufs' k2 = Some (bufs, k3) \<and> vm_inv H True (kcached k3) (vm_of k3 server) \<and>
    pages (vma_map (vm_of k3 server)) = pages (vma_map (vm_of k server))"
proof -
  let ?P = CITRA_PAGE_SIZE and ?ref = "Some \<lparr>block_ptr = alloc k n, block_size = n, ref_offset = 0\<rparr>" and ?ps = "pages (vma_map (vm_of k server))"
  define c where "c = \<lparr>mb_permissions = perms, mb_size = sz, mb_source_address = addr, mb_target_address = target, mb_buffer = ?ref\<rparr>"
  obtain low where l: "good_range low n" "all_free low n (vm_of k server)" "target = low + ?P + addr mod ?P" "bufs' = bufs @ [c]"
    "vm_inv H True (kcached k1) (vm_of k1 server)" "\<not> is_locked (vm_of k1 server)"
    "pages (vma_map (vm_of k1 server)) = set_range low (guarded_pages ?ref n) ?ps"
    using map_buffer_pages [OF assms(1-6) refl assms(7,8)] unfolding c_def by blast
  have off: "addr mod ?P < ?P" by (simp add: CITRA_PAGE_SIZE_def)
  have tm: "target mod ?P = addr mod ?P" unfolding l(3) using align_page(2) [OF _ off] good_rangeD(1) [OF l(1)] by simp
  have "2 * ?P \<le> n" using assms(6) by simp
  then have "target < MAX_ADDRESS" using good_rangeD(4) [OF l(1)] off unfolding l(3) by linarith
  then have "target < 2 ^ 32" by (simp add: MAX_ADDRESS_def)
  then have n: "n = (buffer_pages target sz + 2) * ?P" using assms(6) buffer_pages_mod [OF _ assms(4) tm] by simp
  have none: "find (matches perms sz target) bufs = None" using assms(9) by (auto simp: find_None_iff matches_def)
  have fnd: "find (matches perms sz target) bufs' = Some c" unfolding l(4) using find_snoc [OF none] by (simp add: c_def matches_def)
  have "c \<notin> set bufs" using assms(9) by (auto simp: c_def)
  then have rm: "remove1 c bufs' = bufs" unfolding l(4) by (simp add: remove1_append)
  note len = map_length [OF vm_invD(1) [OF assms(2)]]
  have "perms = 1 \<or> (\<exists>ms. CopyBlock (page_table (vm_of k2 client)) (page_table (vm_of k2 server)) (mb_source_address c) (mb_target_address c) sz (memory k2) = Some ms)"
    using assms(12) by (simp add: c_def)
  from unmap_buffer_pages [OF assms(1) _ _ n l(1,3) off _ len fnd this] l(5-7) assms(10,11)
  obtain k3 where k3: "unmap_buffer server client perms sz target bufs' k2 = Some (remove1 c bufs', k3)"
    "vm_inv H True (kcached k3) (vm_of k3 server)" "pages (vma_map (vm_of k3 server)) = set_range low (replicate (n div ?P) free_page) ?ps"
    by auto
  have "range_pages low n ?ps = replicate (n div ?P) free_page"
  proof (rule replicate_eqI)
    show "length (range_pages low n ?ps) = n div ?P" using range_pages_length [OF l(1) len] .
    show "x = free_page" if "x \<in> set (range_pages low n ?ps)" for x
    proof -
      have "x \<in> set ?ps" using that by (auto simp: range_pages_def dest: in_set_takeD in_set_dropD)
      then show ?thesis using free_pages_blank [OF vm_invD(1) [OF assms(2)]] that l(2) by blast
    qed
  qed
  then have "set_range low (replicate (n div ?P) free_page) ?ps = ?ps" using set_range_self [OF l(1) len] by simp
  then show ?thesis using k3 rm by auto
qed

text \<open>A process of \<^const>\<open>demo_proc\<close> lends 16 bytes to another; the host has the three pages for it behind FCRAM.\<close>

definition lend_host :: host where "lend_host = [(0x10000, FCRAM_N3DS_SIZE), (0x20000000, 0x3000)]"

lemma lend_ok:
  "separated lend_host" "vm_inv lend_host True (\<lambda>_. False) demo_vm"
  "ref_ok lend_host (Some \<lparr>block_ptr = 0x20000000, block_size = 0x3000, ref_offset = 0\<rparr>) 0x3000"
  using demo_vm_inv(2) [of True]
  by (simp_all add: separated_def lend_host_def ref_ok_def FCRAM_N3DS_SIZE_def vm_inv_def demo_vm_def vma_ok_def blank_vma_def)

lemma demo_lend: "\<exists>r. map_buffer (\<lambda>_ _. 0x20000000) 2 0 1 16 0x08000010 [] demo_proc = Some r"
proof -
  let ?n = "0x3000 :: nat" and ?ref = "Some \<lparr>block_ptr = 0x20000000, block_size = 0x3000, ref_offset = 0\<rparr>"
  have n: "buffer_pages 0x08000010 16 = 1" "AlignDown 0x08000010 = 0x08000000"
    by (simp_all add: buffer_pages_def AlignDown_def AlignUp_def sub_u32_def CITRA_PAGE_SIZE_def)
  have pt: "attributes (page_table (vm_of demo_proc 2)) = (\<lambda>_. Unmapped)" "vm_of demo_proc 0 = demo_vm"
    by (simp_all add: demo_proc_def upd_process_def new_KernelSystem_def new_Process_def PageTable_Clear_def demo_vm_def)
  let ?k0 = "demo_proc\<lparr>memory := host_write 0x20000000 (replicate ?n 0) (memory demo_proc)\<rparr>"
  have rd: "ReadBlock 2 0x08000010 16 ?k0 = Some (replicate 16 0, ?k0)"
    by (simp add: ReadBlock_def ReadBlockImpl_def block_op_def numeral_3_eq_3 Let_def read_page_def locate_def pt CITRA_PAGE_SIZE_def
        PAGE_TABLE_NUM_ENTRIES_def)
  let ?k2 = "?k0\<lparr>memory := host_write 0x20001010 (replicate 16 0) (memory ?k0)\<rparr>"
  have g: "good_range 0x04000000 ?n" by (simp add: good_range_def MAX_ADDRESS_def CITRA_PAGE_SIZE_def)
  have free: "all_free 0x04000000 ?n demo_vm" by (simp add: range_pages_def demo_vm_inv free_page_def)
  obtain i m where m: "MapBackingMemory (\<lambda>_. False) 0x04000000 ?ref ?n MS_Shared demo_vm = Some (Inr i, m)" "vm_inv lend_host True (\<lambda>_. False) m"
    "\<not> is_locked m" "pages (vma_map m) = set_range 0x04000000 (block_pages perm_ReadWrite MS_Shared (?ref, ?n)) (pages (vma_map demo_vm))"
    using MapBackingMemory_ok [OF lend_ok(1,2) demo_vm_inv(3) g lend_ok(3) free, of MS_Shared] unfolding block_pages_def by auto
  have mb: "MapBackingMemoryToBase (\<lambda>_. False) IPC_MAPPING_VADDR IPC_MAPPING_SIZE ?ref ?n MS_Shared demo_vm = Some (Inr 0x04000000, m)"
    using m(1) demo_vm_inv(3)
    by (simp add: MapBackingMemoryToBase_def demo_vm_def blank_vma_def MAX_ADDRESS_def IPC_MAPPING_VADDR_def IPC_MAPPING_SIZE_def Let_def)
  have "?n = (1 + 2) * CITRA_PAGE_SIZE" by (simp add: CITRA_PAGE_SIZE_def)
  from guards_ok [OF lend_ok(1) m(2,3) g this m(4) map_length [OF vm_invD(1) [OF lend_ok(2)]]] obtain m1 m2 where
    gd: "guard_page (\<lambda>_. False) 0x04000000 m = Some m1" "guard_page (\<lambda>_. False) (wrap_u32 (sub_u32 (wrap_u32 (0x04000000 + ?n)) CITRA_PAGE_SIZE)) m1 = Some m2"
    by blast
  have k2: "kcached ?k2 = (\<lambda>_. False)" "vm_of ?k2 0 = demo_vm" using pt(2) by simp_all
  show ?thesis
    unfolding map_buffer_def Let_def n using rd mb gd k2
    by (simp add: sub_u32_def CITRA_PAGE_SIZE_def Unwrap_def)
qed

theorem mapped_buffer_roundtrip_witness:
  "\<exists>target bufs k1 k3. map_buffer (\<lambda>_ _. 0x20000000) 2 0 1 16 0x08000010 [] demo_proc = Some (target, bufs, k1) \<and>
     unmap_buffer 0 2 1 16 target bufs k1 = Some ([], k3) \<and> pages (vma_map (vm_of k3 0)) = pages (vma_map demo_vm)"
proof -
  obtain target bufs k1 where r: "map_buffer (\<lambda>_ _. 0x20000000) 2 0 1 16 0x08000010 [] demo_proc = Some (target, bufs, k1)"
    using demo_lend by (metis prod_cases3)
  have n: "0x3000 = (buffer_pages 0x08000010 16 + 2) * CITRA_PAGE_SIZE"
    by (simp add: buffer_pages_def AlignDown_def AlignUp_def sub_u32_def CITRA_PAGE_SIZE_def)
  have vm: "vm_inv lend_host True (kcached demo_proc) (vm_of demo_proc 0)" "\<not> is_locked (vm_of demo_proc 0)" using lend_ok(2) demo_vm_inv(3) by simp_all
  from mapped_buffer_roundtrip [OF lend_ok(1) vm _ _ n lend_ok(3) r, of k1] r show ?thesis by auto
qed


section \<open>Commands without descriptors\<close>

lemma bytes_of_of_bytes: "bytes_of (length bs) (of_bytes bs) = bs"
proof (induction bs)
  case (Cons b bs)
  have "unat b < 256" using unsigned_less [of b] by simp
  then show ?case using Cons by simp
qed simp

lemma of_bytes_less: "of_bytes bs < 256 ^ length bs"
proof (induction bs)
  case (Cons b bs)
  have "unat b < 256" using unsigned_less [of b] by simp
  then show ?case using Cons by simp
qed simp

lemma words_of_Cons: "4 \<le> length bs \<Longrightarrow> words_of bs = word_of_nat (of_bytes (take 4 bs)) # words_of (drop 4 bs)"
proof -
  assume h: "4 \<le> length bs"
  then have "length bs div 4 = Suc ((length bs - 4) div 4)" by (simp add: div_if)
  then show ?thesis unfolding words_of_def by (simp only: map_upt_Suc) (simp add: algebra_simps)
qed

lemma bytes_of_words_of: "length bs = 4 * n \<Longrightarrow> bytes_of_words (words_of bs) = bs"
proof (induction n arbitrary: bs)
  case 0
  then show ?case by (simp add: words_of_def bytes_of_words_def)
next
  case (Suc n)
  let ?w = "take 4 bs"
  have l: "length ?w = 4" "4 \<le> length bs" using Suc.prems by simp_all
  have "unat (word_of_nat (of_bytes ?w) :: u32) = of_bytes ?w"
    using of_bytes_less [of ?w] l(1) by (simp add: unsigned_of_nat take_bit_nat_eq_self_iff)
  then have "bytes_of 4 (unat (word_of_nat (of_bytes ?w) :: u32)) = ?w" using bytes_of_of_bytes [of ?w] l(1) by simp
  moreover have "bytes_of_words (words_of (drop 4 bs)) = drop 4 bs" using Suc by simp
  ultimately show ?case unfolding words_of_Cons [OF l(2)] by (simp add: bytes_of_words_def)
qed

text \<open>The command that starts at an address of a process, as its bytes.\<close>

abbreviation guest_bytes :: "kernel \<Rightarrow> nat \<Rightarrow> nat \<Rightarrow> nat \<Rightarrow> u8 list" where
  "guest_bytes k p a n \<equiv> map (guest_byte (page_table (vm_of k p)) (memory k)) [a..<a + n]"

lemma map_upt_bytes: "(\<And>i. i < n \<Longrightarrow> f (a + i) = bs ! i) \<Longrightarrow> length bs = n \<Longrightarrow> map f [a..<a + n] = bs"
  by (intro nth_equalityI) simp_all

lemma ReadBlock_bytes:
  assumes "quiet (memory k)" "block_ok (page_table (vm_of k p)) (memory k) a n" "m \<le> n"
  shows "ReadBlock p a m k = Some (guest_bytes k p a m, k)"
  using ReadBlock_guest_bytes [OF assms(1), of a m "page_table (vm_of k p)" False] block_okD(1,2) [OF assms(2)] assms(3)
  by (simp add: ReadBlock_def)

lemma block_ok_less:
  assumes "block_ok pt ms a n" "m \<le> n"
  shows "block_ok pt ms a m"
proof -
  have "a + m \<le> 2 ^ 32" "\<forall>b. a \<le> b \<and> b < a + m \<longrightarrow> sound_page pt ms b" using block_okD(1,2) [OF assms(1)] assms(2) by auto
  moreover have "i = i'" if "i < m" "i' < m" "byte_loc pt ms (a + i) = byte_loc pt ms (a + i')" "byte_loc pt ms (a + i) \<noteq> None" for i i'
    using block_okD(3) [OF assms(1) _ _ that(3,4)] that(1,2) assms(2) by simp
  ultimately show ?thesis unfolding block_ok_def by blast
qed

lemma normal_params_less: "normal_params_size header < 64"
proof -
  have "ExtractValue 6 6 header = take_bit 6 (drop_bit 6 header)"
    by (rule bit_word_eqI) (auto simp: bit_ExtractValue bit_take_bit_iff bit_drop_bit_eq)
  then show ?thesis using take_bit_nat_less_exp [of 6 "unat (drop_bit 6 header)"]
    by (simp add: normal_params_size_def unsigned_take_bit_eq)
qed

lemma plain_command:
  assumes "owner_process (threads k src_thread) = Some p" and "owner_process (threads k dst_thread) = Some q" and "quiet (memory k)"
    and "block_ok (page_table (vm_of k p)) (memory k) src (4 * COMMAND_BUFFER_LENGTH)"
    and "block_ok (page_table (vm_of k q)) (memory k) dst (4 * COMMAND_BUFFER_LENGTH)"
    and "\<forall>i < 4 * COMMAND_BUFFER_LENGTH. byte_loc (page_table (vm_of k q)) (memory k) (dst + i) \<noteq> None"
    and "words_of (guest_bytes k p src 4) ! 0 = header" and "translate_params_size header = 0"
  shows "\<exists>k'. TranslateCommandBuffer alloc src_thread dst_thread src dst bufs reply k = Some (ResultSuccess, bufs, k') \<and>
    guest_bytes k' q dst (4 * (1 + normal_params_size header)) = guest_bytes k p src (4 * (1 + normal_params_size header)) \<and>
    (\<forall>pt b x. byte_loc pt (memory k) b = Some x \<and>
       (\<forall>i < 4 * (1 + normal_params_size header). byte_loc (page_table (vm_of k q)) (memory k) (dst + i) \<noteq> Some x) \<longrightarrow>
       guest_byte pt (memory k') b = guest_byte pt (memory k) b) \<and>
    k' = k\<lparr>memory := memory k'\<rparr>"
proof -
  let ?n = "1 + normal_params_size header" and ?L = COMMAND_BUFFER_LENGTH and ?pt = "page_table (vm_of k q)"
  have n: "?n \<le> ?L" using normal_params_less [of header] by (simp add: COMMAND_BUFFER_LENGTH_def)
  let ?bs = "guest_bytes k p src (?n * 4)"
  have rd: "ReadBlock p src 4 k = Some (guest_bytes k p src 4, k)" "ReadBlock p src (?n * 4) k = Some (?bs, k)"
    using ReadBlock_bytes [OF assms(3,4)] n by (simp_all add: COMMAND_BUFFER_LENGTH_def)
  have len: "length ?bs = 4 * ?n" by simp
  then have bw: "bytes_of_words (words_of ?bs) = ?bs" by (rule bytes_of_words_of)
  have lw: "length (words_of ?bs) = ?n" by (simp add: words_of_def)
  have b: "block_ok ?pt (memory k) dst (length ?bs)" using block_ok_less [OF assms(5)] n by simp
  obtain ms where w: "WriteBlockImpl False ?pt dst ?bs (memory k) = Some ms" "written (byte_loc ?pt (memory k)) dst ?bs (memory k) (length ?bs) ms"
    using WriteBlock_written [OF assms(3) b] by blast
  note so = written_sound [OF w(2)] and by' = written_bytes [OF w(2)]
  have loop: "translate_loop step x ?n \<lparr>tr_cmd = words_of ?bs, tr_buffers = bufs, tr_kernel = k\<rparr> =
      Some (ResultSuccess, \<lparr>tr_cmd = words_of ?bs, tr_buffers = bufs, tr_kernel = k\<rparr>)" for step x
    using lw by (cases x) simp_all
  let ?k = "k\<lparr>memory := ms\<rparr>"
  have run: "TranslateCommandBuffer alloc src_thread dst_thread src dst bufs reply k = Some (ResultSuccess, bufs, ?k)"
    unfolding TranslateCommandBuffer_def Let_def using assms(1,2,7,8) rd n loop bw w(1)
    by (simp add: WriteBlock_def del: translate_loop.simps)
  have "guest_byte ?pt ms (dst + i) = ?bs ! i" if "i < length ?bs" for i
  proof -
    have "i < 4 * ?L" using that n len by simp
    then obtain y where y: "byte_loc ?pt (memory k) (dst + i) = Some y" using assms(6) by blast
    then show ?thesis using by'(1) [OF that y] by (simp add: guest_byte_def so(2))
  qed
  then have "map (guest_byte ?pt ms) [dst..<dst + length ?bs] = ?bs" by (rule map_upt_bytes [OF _ refl])
  moreover have "guest_byte pt ms y = guest_byte pt (memory k) y"
    if "byte_loc pt (memory k) y = Some x" "\<forall>i < length ?bs. byte_loc ?pt (memory k) (dst + i) \<noteq> Some x" for pt y x
    using that by'(2) by (simp add: guest_byte_def so(2))
  ultimately show ?thesis using run len by (intro exI [of _ ?k]) (simp add: mult.commute)
qed

text \<open>Commands without descriptors.  A command that consists of a header and words to be passed on is copied: the translation succeeds, the bytes of
  the receiver at its command buffer become those of the sender, memory that does not share their host addresses keeps its contents,
  and nothing else of the kernel changes, neither tables of handles nor address spaces nor the buffers of the session.\<close>

theorem plain_command_copied:
  assumes "owner_process (threads k src_thread) = Some p" and "owner_process (threads k dst_thread) = Some q" and "quiet (memory k)"
    and "block_ok (page_table (vm_of k p)) (memory k) src (4 * COMMAND_BUFFER_LENGTH)"
    and "block_ok (page_table (vm_of k q)) (memory k) dst (4 * COMMAND_BUFFER_LENGTH)"
    and "\<forall>i < 4 * COMMAND_BUFFER_LENGTH. byte_loc (page_table (vm_of k q)) (memory k) (dst + i) \<noteq> None"
    and "words_of (guest_bytes k p src 4) ! 0 = header" and "translate_params_size header = 0"
  shows "\<exists>k'. TranslateCommandBuffer alloc src_thread dst_thread src dst bufs reply k = Some (ResultSuccess, bufs, k') \<and>
    guest_bytes k' q dst (4 * (1 + normal_params_size header)) = guest_bytes k p src (4 * (1 + normal_params_size header)) \<and>
    (\<forall>pt b x. byte_loc pt (memory k) b = Some x \<and>
       (\<forall>i < 4 * (1 + normal_params_size header). byte_loc (page_table (vm_of k q)) (memory k) (dst + i) \<noteq> Some x) \<longrightarrow>
       guest_byte pt (memory k') b = guest_byte pt (memory k) b) \<and>
    k' = k\<lparr>memory := memory k'\<rparr>"
  using assms by (rule plain_command)

text \<open>Two threads of a process with a command buffer on each of the pages of \<^const>\<open>demo_table\<close>; the first holds the header of a command with one word.\<close>

definition demo_ipc :: kernel where
  "demo_ipc = upd_thread 0 (\<lambda>t. t\<lparr>owner_process := Some 0\<rparr>) (upd_thread 2 (\<lambda>t. t\<lparr>owner_process := Some 0\<rparr>)
     (set_vm 0 (demo_vm\<lparr>page_table := demo_table\<rparr>) (demo_proc\<lparr>memory := host_write 0x10000 (bytes_of 4 (unat (MakeHeader 1 1 0))) demo_memory\<rparr>)))"

lemma demo_ipc_simps:
  "owner_process (threads demo_ipc 0) = Some 0" "owner_process (threads demo_ipc 2) = Some 0" "page_table (vm_of demo_ipc 0) = demo_table"
  "memory demo_ipc = host_write 0x10000 (bytes_of 4 (unat (MakeHeader 1 1 0))) demo_memory"
  by (simp_all add: demo_ipc_def upd_thread_def set_vm_def upd_process_def)

lemma demo_ipc_loc:
  assumes "i < 0x1000"
  shows "byte_loc demo_table ms (0x100000 + i) = Some (0x10000 + i)" "byte_loc demo_table ms (0x101000 + i) = Some (0x50000 + i)"
    "sound_page demo_table ms (0x100000 + i)" "sound_page demo_table ms (0x101000 + i)"
proof -
  have "(0x100000 + i) div 0x1000 = 0x100" "(0x101000 + i) div 0x1000 = 0x101" "(0x100000 + i) mod 0x1000 = i" "(0x101000 + i) mod 0x1000 = i"
    using assms by (simp_all add: div_nat_eqI mod_nat_eqI)
  then show "byte_loc demo_table ms (0x100000 + i) = Some (0x10000 + i)" "byte_loc demo_table ms (0x101000 + i) = Some (0x50000 + i)"
    "sound_page demo_table ms (0x100000 + i)" "sound_page demo_table ms (0x101000 + i)"
    by (simp_all add: byte_loc_def sound_page_def demo_table_def page_pointer_def CITRA_PAGE_SIZE_def GetPtr_def)
qed

lemma demo_ipc_block: "block_ok demo_table ms 0x100000 0x100" "block_ok demo_table ms 0x101000 0x100"
proof -
  have "sound_page demo_table ms b" if "0x100000 \<le> b" "b < 0x100000 + 0x100" for b
    using demo_ipc_loc(3) [of "b - 0x100000"] that by simp
  moreover have "sound_page demo_table ms b" if "0x101000 \<le> b" "b < 0x101000 + 0x100" for b
    using demo_ipc_loc(4) [of "b - 0x101000"] that by simp
  ultimately show "block_ok demo_table ms 0x100000 0x100" "block_ok demo_table ms 0x101000 0x100"
    unfolding block_ok_def using demo_ipc_loc(1,2) [of _ ms] by simp_all
qed

theorem plain_command_copied_witness:
  "\<exists>k'. TranslateCommandBuffer (\<lambda>_ _. 0) 0 2 0x100000 0x101000 [] False demo_ipc = Some (ResultSuccess, [], k') \<and>
     guest_bytes k' 0 0x101000 8 = guest_bytes demo_ipc 0 0x100000 8"
proof -
  let ?h = "MakeHeader 1 1 0"
  have h: "normal_params_size ?h = 1" "translate_params_size ?h = 0" by code_simp+
  have four: "4 * COMMAND_BUFFER_LENGTH = 0x100" by (simp add: COMMAND_BUFFER_LENGTH_def)
  have b: "guest_byte demo_table (memory demo_ipc) (0x100000 + i) = bytes_of 4 (unat ?h) ! i" if "i < 4" for i
    using demo_ipc_loc(1) [of i "memory demo_ipc"] that by (simp add: guest_byte_def demo_ipc_simps(4) host_write_def)
  have "guest_bytes demo_ipc 0 0x100000 4 = bytes_of 4 (unat ?h)"
    unfolding demo_ipc_simps(3) by (rule map_upt_bytes) (use b in simp_all)
  moreover have "words_of (bytes_of 4 (unat ?h)) ! 0 = ?h"
    using of_bytes_bytes_of [of 4 "unat ?h"] by (simp add: words_of_def unsigned_less [of ?h, simplified])
  ultimately have w: "words_of (guest_bytes demo_ipc 0 0x100000 4) ! 0 = ?h" by simp
  have q: "quiet (memory demo_ipc)" by (simp add: demo_ipc_simps(4) quiet_def host_write_def demo_memory_def)
  have loc: "\<forall>i < 4 * COMMAND_BUFFER_LENGTH. byte_loc (page_table (vm_of demo_ipc 0)) (memory demo_ipc) (0x101000 + i) \<noteq> None"
    unfolding four demo_ipc_simps(3) using demo_ipc_loc(2) by simp
  note bl = demo_ipc_block [of "memory demo_ipc", folded four demo_ipc_simps(3)]
  from plain_command_copied [OF demo_ipc_simps(1,2) q bl loc w h(2), of "\<lambda>_ _. 0" "[]" False] show ?thesis
    by (auto simp: h(1))
qed

text \<open>Descriptors in the last word.  The value that names the sender is written behind the descriptor without a check: when the descriptor is the last word of
  a full buffer, both translations write behind the end of their array.\<close>

theorem calling_pid_past_end:
  assumes "GetDescriptorType d = CallingPid"
  shows "length (tr_cmd s) = COMMAND_BUFFER_LENGTH \<Longrightarrow> tr_cmd s ! 63 = d \<Longrightarrow>
      translate_descriptor alloc src_thread src dst dst_address reply 63 s = None"
    and "length (cmd_buf c) = COMMAND_BUFFER_LENGTH \<Longrightarrow> ws ! 63 = d \<Longrightarrow> incoming_descriptor src ws 64 63 (c, k) = None"
  using assms by (simp_all add: translate_descriptor_def incoming_descriptor_def cmd_write_def ctx_write_def COMMAND_BUFFER_LENGTH_def)

text \<open>A gap that is too small.  The search for a place in \<^verbatim>\<open>MapBackingMemoryToBase\<close> compares the end of a free area with the base and the size, not with the start of
  the area.  Behind a buffer of four pages there is a gap of three pages and then free space to the end: a
  buffer of four pages does not find that space, it is mapped to the gap, which fails.\<close>

definition gap_vm :: VMManager where
  "gap_vm = demo_vm\<lparr>vma_map := [blank_vma\<lparr>vsize := 0x04000000\<rparr>, heap_area 0x04000000 0x4000 perm_ReadWrite 0, blank_vma\<lparr>vbase := 0x04004000, vsize := 0x3000\<rparr>,
     heap_area 0x04007000 0x1000 perm_ReadWrite 0x7000, free_from 0x04008000]\<rparr>"

theorem map_to_base_small_gap:
  "MapBackingMemoryToBase (\<lambda>_. False) IPC_MAPPING_VADDR IPC_MAPPING_SIZE demo_ref 0x4000 MS_Shared gap_vm =
     Some (Inl ResultInvalidAddressState, gap_vm)"
  by (simp add: MapBackingMemoryToBase_def MapBackingMemory_def gap_vm_def demo_vm_def heap_area_def free_from_def blank_vma_def MAX_ADDRESS_def
      IPC_MAPPING_VADDR_def IPC_MAPPING_SIZE_def CarveVMA_def FindVMA_def upper_bound_def page_aligned_def CITRA_PAGE_SIZE_def sub_u32_def
      demo_ref_def GetPtr_def Let_def)

end
