(* ===== verification/Wait_Objects.thy ===== *)
theory Wait_Objects
  imports Kernel_Threads Ipc
begin

text \<open>
  The objects a thread can wait on: \<^verbatim>\<open>wait_object.cpp\<close>, \<^verbatim>\<open>mutex.cpp\<close>, \<^verbatim>\<open>semaphore.cpp\<close>,
  \<^verbatim>\<open>event.cpp\<close>, \<^verbatim>\<open>timer.cpp\<close> and the part of \<^verbatim>\<open>thread.cpp\<close> by which a thread is such an object.  The
  virtual functions of \<^verbatim>\<open>WaitObject\<close> are functions of a reference that dispatch on its kind.  The ends of ports and
  sessions that a server waits on, \<^verbatim>\<open>server_port.cpp\<close> and \<^verbatim>\<open>server_session.cpp\<close>, are two of these kinds; a thread that waits on a
  session and is woken receives the request.
\<close>

section \<open>Operations\<close>

fun ShouldWait :: "wait_ref \<Rightarrow> nat \<Rightarrow> kernel \<Rightarrow> bool" where
  "ShouldWait (WThread u) t k \<longleftrightarrow> status (threads k u) \<noteq> Dead"
| "ShouldWait (WMutex m) t k \<longleftrightarrow> lock_count (mutexes k m) > 0 \<and> holding_thread (mutexes k m) \<noteq> Some t"
| "ShouldWait (WSemaphore s) t k \<longleftrightarrow> available_count (semaphores k s) \<le> 0"
| "ShouldWait (WEvent e) t k \<longleftrightarrow> \<not> event_signaled (events k e)"
| "ShouldWait (WTimer i) t k \<longleftrightarrow> \<not> timer_signaled (ktimers k i)"
| "ShouldWait (WServerPort p) t k \<longleftrightarrow> pending_sessions (server_ports k p) = []"
| "ShouldWait (WServerSession s) t k \<longleftrightarrow>
     session_client (sessions k (server_parent (server_sessions k s))) \<noteq> None \<and>
     (pending_requesting_threads (server_sessions k s) = [] \<or> currently_handling (server_sessions k s) \<noteq> None)"

definition Mutex_Acquire :: "nat \<Rightarrow> nat \<Rightarrow> kernel \<Rightarrow> kernel option" where
  "Mutex_Acquire m t k =
     (if ShouldWait (WMutex m) t k then None
      else let k1 =
        (if lock_count (mutexes k m) = 0 then
           PrepareReschedule (Thread_UpdatePriority t
             (upd_thread t (\<lambda>th. th\<lparr>held_mutexes := flat_insert m (held_mutexes th)\<rparr>)
               (upd_mutex m (\<lambda>mt. mt\<lparr>priority := current_priority (threads k t),
                                     holding_thread := Some t\<rparr>) k)))
         else k)
      in Some (upd_mutex m (\<lambda>mt. mt\<lparr>lock_count := wrap_s32 (lock_count mt + 1)\<rparr>) k1))"

definition upd_semaphore :: "nat \<Rightarrow> (Semaphore \<Rightarrow> Semaphore) \<Rightarrow> kernel \<Rightarrow> kernel" where
  "upd_semaphore s f k = k\<lparr>semaphores := (semaphores k)(s := f (semaphores k s))\<rparr>"

definition upd_event :: "nat \<Rightarrow> (Event \<Rightarrow> Event) \<Rightarrow> kernel \<Rightarrow> kernel" where
  "upd_event e f k = k\<lparr>events := (events k)(e := f (events k e))\<rparr>"

definition upd_ktimer :: "nat \<Rightarrow> (Timer \<Rightarrow> Timer) \<Rightarrow> kernel \<Rightarrow> kernel" where
  "upd_ktimer i f k = k\<lparr>ktimers := (ktimers k)(i := f (ktimers k i))\<rparr>"

definition Thread_Acquire :: "nat \<Rightarrow> nat \<Rightarrow> kernel \<Rightarrow> kernel option" where
  "Thread_Acquire u t k = (if ShouldWait (WThread u) t k then None else Some k)"

definition Semaphore_Acquire :: "nat \<Rightarrow> nat \<Rightarrow> kernel \<Rightarrow> kernel option" where
  "Semaphore_Acquire s t k =
     (if available_count (semaphores k s) \<le> 0 then Some k
      else Some (upd_semaphore s (\<lambda>x. x\<lparr>available_count := available_count x - 1\<rparr>) k))"

definition Event_Acquire :: "nat \<Rightarrow> nat \<Rightarrow> kernel \<Rightarrow> kernel option" where
  "Event_Acquire e t k =
     (if ShouldWait (WEvent e) t k then None
      else if event_reset_type (events k e) = OneShot
      then Some (upd_event e (\<lambda>x. x\<lparr>event_signaled := False\<rparr>) k) else Some k)"

definition Timer_Acquire :: "nat \<Rightarrow> nat \<Rightarrow> kernel \<Rightarrow> kernel option" where
  "Timer_Acquire i t k =
     (if ShouldWait (WTimer i) t k then None
      else if timer_reset_type (ktimers k i) = OneShot
      then Some (upd_ktimer i (\<lambda>x. x\<lparr>timer_signaled := False\<rparr>) k) else Some k)"

definition ServerPort_Acquire :: "nat \<Rightarrow> nat \<Rightarrow> kernel \<Rightarrow> kernel option" where
  "ServerPort_Acquire p t k = (if ShouldWait (WServerPort p) t k then None else Some k)"

definition upd_server_session :: "nat \<Rightarrow> (ServerSession \<Rightarrow> ServerSession) \<Rightarrow> kernel \<Rightarrow> kernel" where
  "upd_server_session s f k = k\<lparr>server_sessions := (server_sessions k)(s := f (server_sessions k s))\<rparr>"

text \<open>The request that came last is taken first.\<close>

definition ServerSession_Acquire :: "nat \<Rightarrow> nat \<Rightarrow> kernel \<Rightarrow> kernel option" where
  "ServerSession_Acquire s t k =
     (if ShouldWait (WServerSession s) t k then None
      else if session_client (sessions k (server_parent (server_sessions k s))) = None then Some k
      else if pending_requesting_threads (server_sessions k s) = [] then None
      else Some (upd_server_session s
        (\<lambda>x. x\<lparr>currently_handling := Some (last (pending_requesting_threads x)),
              pending_requesting_threads := butlast (pending_requesting_threads x)\<rparr>) k))"

fun Acquire :: "wait_ref \<Rightarrow> nat \<Rightarrow> kernel \<Rightarrow> kernel option" where
  "Acquire (WThread u) t k = Thread_Acquire u t k"
| "Acquire (WMutex m) t k = Mutex_Acquire m t k"
| "Acquire (WSemaphore s) t k = Semaphore_Acquire s t k"
| "Acquire (WEvent e) t k = Event_Acquire e t k"
| "Acquire (WTimer i) t k = Timer_Acquire i t k"
| "Acquire (WServerPort p) t k = ServerPort_Acquire p t k"
| "Acquire (WServerSession s) t k = ServerSession_Acquire s t k"

definition Mutex_UpdatePriority :: "nat \<Rightarrow> kernel \<Rightarrow> kernel" where
  "Mutex_UpdatePriority m k =
     (case holding_thread (mutexes k m) of
        None \<Rightarrow> k
      | Some h \<Rightarrow>
          let best = fold (\<lambda>t b. if current_priority (threads k t) < b then current_priority (threads k t) else b)
                       (waiting_threads k (WMutex m)) ThreadPrioLowest
          in if best \<noteq> priority (mutexes k m)
             then Thread_UpdatePriority h (upd_mutex m (\<lambda>mt. mt\<lparr>priority := best\<rparr>) k) else k)"

definition set_waiting :: "wait_ref \<Rightarrow> (nat list \<Rightarrow> nat list) \<Rightarrow> kernel \<Rightarrow> kernel" where
  "set_waiting w f k = k\<lparr>waiting_threads := (waiting_threads k)(w := f (waiting_threads k w))\<rparr>"

definition WaitObject_AddWaitingThread :: "wait_ref \<Rightarrow> nat \<Rightarrow> kernel \<Rightarrow> kernel" where
  "WaitObject_AddWaitingThread w t = set_waiting w (\<lambda>ts. if t \<in> set ts then ts else ts @ [t])"

definition WaitObject_RemoveWaitingThread :: "wait_ref \<Rightarrow> nat \<Rightarrow> kernel \<Rightarrow> kernel" where
  "WaitObject_RemoveWaitingThread w t = set_waiting w (remove1 t)"

definition AddWaitingThread :: "wait_ref \<Rightarrow> nat \<Rightarrow> kernel \<Rightarrow> kernel" where
  "AddWaitingThread w t k =
     (case w of
        WMutex m \<Rightarrow>
          Mutex_UpdatePriority m
            (upd_thread t (\<lambda>th. th\<lparr>pending_mutexes := flat_insert m (pending_mutexes th)\<rparr>)
              (WaitObject_AddWaitingThread w t k))
      | _ \<Rightarrow> WaitObject_AddWaitingThread w t k)"

definition RemoveWaitingThread :: "wait_ref \<Rightarrow> nat \<Rightarrow> kernel \<Rightarrow> kernel" where
  "RemoveWaitingThread w t k =
     (case w of
        WMutex m \<Rightarrow>
          Mutex_UpdatePriority m
            (upd_thread t (\<lambda>th. th\<lparr>pending_mutexes := flat_erase m (pending_mutexes th)\<rparr>)
              (WaitObject_RemoveWaitingThread w t k))
      | _ \<Rightarrow> WaitObject_RemoveWaitingThread w t k)"

text \<open>The loop of \<^verbatim>\<open>GetHighestPriorityReadyThread\<close> with its candidate and the candidate's priority.\<close>

definition ready_to_run :: "wait_ref \<Rightarrow> kernel \<Rightarrow> nat \<Rightarrow> bool" where
  "ready_to_run w k t \<longleftrightarrow> \<not> ShouldWait w t k \<and>
     (status (threads k t) = WaitSynchAll \<longrightarrow>
        list_all (\<lambda>ob. \<not> ShouldWait ob t k) (wait_objects (threads k t)))"

fun highest_loop :: "wait_ref \<Rightarrow> kernel \<Rightarrow> nat list \<Rightarrow> nat option \<Rightarrow> nat \<Rightarrow> nat option option" where
  "highest_loop w k [] candidate candidate_priority = Some candidate"
| "highest_loop w k (t # ts) candidate candidate_priority =
     (if \<not> (status (threads k t) = WaitSynchAny \<or> status (threads k t) = WaitSynchAll \<or>
            status (threads k t) = WaitHleEvent) then None
      else if current_priority (threads k t) \<ge> candidate_priority
        then highest_loop w k ts candidate candidate_priority
      else if ready_to_run w k t
        then highest_loop w k ts (Some t) (current_priority (threads k t))
      else highest_loop w k ts candidate candidate_priority)"

definition GetHighestPriorityReadyThread :: "wait_ref \<Rightarrow> kernel \<Rightarrow> nat option option" where
  "GetHighestPriorityReadyThread w k =
     highest_loop w k (waiting_threads k w) None (ThreadPrioLowest + 1)"

definition upd_arbiter :: "nat \<Rightarrow> (AddressArbiter \<Rightarrow> AddressArbiter) \<Rightarrow> kernel \<Rightarrow> kernel" where
  "upd_arbiter a f k = k\<lparr>arbiters := (arbiters k)(a := f (arbiters k a))\<rparr>"

text \<open>
  \<^verbatim>\<open>ReceiveIPCRequest\<close> of \<^verbatim>\<open>svc.cpp\<close>: the request that the session handles is translated into the command buffer of the thread.  An
  error of the translation trips an assertion, and so does a session that handles no request.
\<close>

definition ReceiveIPCRequest :: "nat \<Rightarrow> nat \<Rightarrow> kernel \<Rightarrow> (result \<times> kernel) option" where
  "ReceiveIPCRequest s t k =
     (if session_client (sessions k (server_parent (server_sessions k s))) = None then Some (ResultSessionClosed, k)
      else do {
        c \<leftarrow> currently_handling (server_sessions k s);
        (r, bufs, k1) \<leftarrow> TranslateCommandBuffer (\<lambda>k. host_alloc k (memory k)) c t (GetCommandBufferAddress c k)
          (GetCommandBufferAddress t k) (mapped_buffer_context (server_sessions k s)) False k;
        assert_opt (\<not> IsError r);
        Some (r, upd_server_session s (\<lambda>x. x\<lparr>mapped_buffer_context := bufs\<rparr>) k1)
      })"

definition receive_from :: "wait_ref \<Rightarrow> nat \<Rightarrow> kernel \<Rightarrow> (result \<times> kernel) option" where
  "receive_from w t k = (case w of WServerSession s \<Rightarrow> ReceiveIPCRequest s t k | _ \<Rightarrow> Some (ResultSuccess, k))"

fun WakeUp :: "wakeup_cb \<Rightarrow> ThreadWakeupReason \<Rightarrow> nat \<Rightarrow> wait_ref option \<Rightarrow> kernel \<Rightarrow> kernel option" where
  "WakeUp (SVC_SyncCallback do_output) reason t object k =
     (if reason = Timeout then Some (SetWaitSynchronizationResult t ResultTimeout k)
      else let k1 = SetWaitSynchronizationResult t ResultSuccess k in
        if do_output then
          case object of
            None \<Rightarrow> None
          | Some w \<Rightarrow> Option.bind (GetWaitObjectIndex t w k1) (\<lambda>i. Some (SetWaitSynchronizationOutput t i k1))
        else Some k1)"
| "WakeUp SVC_IPCCallback reason t object k = do {
     assert_opt (status (threads k t) = WaitSynchAny);
     assert_opt (reason = Signal);
     w \<leftarrow> object;
     (r, k1) \<leftarrow> receive_from w t k;
     let k2 = SetWaitSynchronizationResult t r k1;
     i \<leftarrow> GetWaitObjectIndex t w k2;
     Some (SetWaitSynchronizationOutput t i k2)
   }"
| "WakeUp (ArbiterCallback a) reason t object k =
     (if reason \<noteq> Timeout then None
      else Some (upd_arbiter a (\<lambda>x. x\<lparr>arb_waiting_threads := removeAll t (arb_waiting_threads x)\<rparr>) k))"

text \<open>The steps that \<^verbatim>\<open>WakeupAllWaitingThreads\<close> and the timeout of a wait share: leave every list and clear the
  thread's own list.\<close>

definition leave_waits :: "nat \<Rightarrow> kernel \<Rightarrow> kernel" where
  "leave_waits t k =
     upd_thread t (\<lambda>th. th\<lparr>wait_objects := []\<rparr>)
       (fold (\<lambda>ob. RemoveWaitingThread ob t) (wait_objects (threads k t)) k)"

definition run_wakeup_callback :: "ThreadWakeupReason \<Rightarrow> nat \<Rightarrow> wait_ref option \<Rightarrow> kernel \<Rightarrow> kernel option" where
  "run_wakeup_callback reason t object k =
     (case wakeup_callback (threads k t) of None \<Rightarrow> Some k | Some cb \<Rightarrow> WakeUp cb reason t object k)"

text \<open>One iteration of the loop of \<^verbatim>\<open>WakeupAllWaitingThreads\<close>.\<close>

definition wake_one :: "wait_ref \<Rightarrow> nat \<Rightarrow> kernel \<Rightarrow> kernel option" where
  "wake_one w t k = do {
     k1 \<leftarrow> (if status (threads k t) \<noteq> WaitSynchAll then Acquire w t k
           else fold_opt (\<lambda>ob. Acquire ob t) (wait_objects (threads k t)) k);
     k2 \<leftarrow> run_wakeup_callback Signal t (Some w) k1;
     ResumeFromWait t (leave_waits t k2)
   }"

fun wake_loop :: "nat \<Rightarrow> wait_ref \<Rightarrow> kernel \<Rightarrow> kernel option" where
  "wake_loop 0 w k = None"
| "wake_loop (Suc n) w k = do {
     r \<leftarrow> GetHighestPriorityReadyThread w k;
     case r of
       None \<Rightarrow> Some k
     | Some t \<Rightarrow> Option.bind (wake_one w t k) (wake_loop n w)
   }"

definition WaitObject_WakeupAll :: "wait_ref \<Rightarrow> kernel \<Rightarrow> kernel option" where
  "WaitObject_WakeupAll w k = do {
     k1 \<leftarrow> wake_loop (length (waiting_threads k w) + 1) w k;
     Some (if hle_notifier k1 w then k1\<lparr>hle_notified := hle_notified k1 @ [w]\<rparr> else k1)
   }"

text \<open>Events and timers override the function to reset a pulse.\<close>

definition WakeupAllWaitingThreads :: "wait_ref \<Rightarrow> kernel \<Rightarrow> kernel option" where
  "WakeupAllWaitingThreads w k = do {
     k1 \<leftarrow> WaitObject_WakeupAll w k;
     Some (case w of
         WEvent e \<Rightarrow> if event_reset_type (events k1 e) = Pulse
                     then upd_event e (\<lambda>x. x\<lparr>event_signaled := False\<rparr>) k1 else k1
       | WTimer i \<Rightarrow> if timer_reset_type (ktimers k1 i) = Pulse
                     then upd_ktimer i (\<lambda>x. x\<lparr>timer_signaled := False\<rparr>) k1 else k1
       | _ \<Rightarrow> k1)
   }"

definition CreateMutex :: "bool \<Rightarrow> nat \<Rightarrow> kernel \<Rightarrow> (nat \<times> kernel) option" where
  "CreateMutex initial_locked uninitialized k =
     (let m = num_mutexes k;
          k1 = upd_mutex m (\<lambda>_. \<lparr>lock_count = 0, priority = uninitialized, holding_thread = None,
                                 mutex_limit = None\<rparr>) (k\<lparr>num_mutexes := m + 1\<rparr>)
      in if initial_locked then do {
           t \<leftarrow> GetCurrentThread k1;
           k2 \<leftarrow> Mutex_Acquire m t k1;
           Some (m, k2)
         } else Some (m, k1))"

definition WrongLockingThread_error :: result where
  "WrongLockingThread_error = Result 31 ''Kernel'' S_InvalidArgument L_Permanent"

definition Mutex_Release :: "nat \<Rightarrow> nat \<Rightarrow> kernel \<Rightarrow> (result \<times> kernel) option" where
  "Mutex_Release m t k =
     (if holding_thread (mutexes k m) \<noteq> Some t then Some (WrongLockingThread_error, k)
      else if lock_count (mutexes k m) \<le> 0
        then Some (Result (description_code D_InvalidResultValue) ''Kernel'' S_InvalidState L_Permanent, k)
      else let k1 = upd_mutex m (\<lambda>mt. mt\<lparr>lock_count := lock_count mt - 1\<rparr>) k in
        if lock_count (mutexes k1 m) = 0 then do {
          k2 \<leftarrow> WakeupAllWaitingThreads (WMutex m)
            (upd_mutex m (\<lambda>mt. mt\<lparr>holding_thread := None\<rparr>)
              (Thread_UpdatePriority t
                (upd_thread t (\<lambda>th. th\<lparr>held_mutexes := flat_erase m (held_mutexes th)\<rparr>) k1)));
          Some (ResultSuccess, PrepareReschedule k2)
        } else Some (ResultSuccess, k1))"

definition ReleaseThreadMutexes :: "nat \<Rightarrow> kernel \<Rightarrow> kernel option" where
  "ReleaseThreadMutexes t k = do {
     k1 \<leftarrow> fold_opt (\<lambda>m k. WakeupAllWaitingThreads (WMutex m)
            (upd_mutex m (\<lambda>mt. mt\<lparr>lock_count := 0, holding_thread := None\<rparr>) k))
          (held_mutexes (threads k t)) k;
     Some (upd_thread t (\<lambda>th. th\<lparr>held_mutexes := []\<rparr>) k1)
   }"

definition CreateSemaphore :: "int \<Rightarrow> int \<Rightarrow> kernel \<Rightarrow> (nat \<times> kernel) result_val" where
  "CreateSemaphore initial maximum k =
     (if \<not> initial \<le> maximum then Inl ResultInvalidCombinationKernel
      else let s = num_semaphores k in
        Inr (s, upd_semaphore s (\<lambda>_. \<lparr>max_count = maximum, available_count = initial, semaphore_limit = None\<rparr>)
                  (k\<lparr>num_semaphores := s + 1\<rparr>)))"

definition Semaphore_Release :: "nat \<Rightarrow> int \<Rightarrow> kernel \<Rightarrow> ((result + int) \<times> kernel) option" where
  "Semaphore_Release s release_count k =
     (let sem = semaphores k s in
      if \<not> max_count sem \<ge> wrap_s32 (release_count + available_count sem) then Some (Inl ResultOutOfRangeKernel, k)
      else do {
        k1 \<leftarrow> WakeupAllWaitingThreads (WSemaphore s)
          (upd_semaphore s (\<lambda>x. x\<lparr>available_count := wrap_s32 (available_count x + release_count)\<rparr>) k);
        Some (Inr (available_count sem), k1)
      })"

definition CreateEvent :: "ResetType \<Rightarrow> kernel \<Rightarrow> nat \<times> kernel" where
  "CreateEvent rt k =
     (let e = num_events k in
      (e, upd_event e (\<lambda>_. \<lparr>event_reset_type = rt, event_signaled = False, event_limit = None\<rparr>)
            (k\<lparr>num_events := e + 1\<rparr>)))"

definition Event_Signal :: "nat \<Rightarrow> kernel \<Rightarrow> kernel option" where
  "Event_Signal e k = WakeupAllWaitingThreads (WEvent e) (upd_event e (\<lambda>x. x\<lparr>event_signaled := True\<rparr>) k)"

definition Event_Clear :: "nat \<Rightarrow> kernel \<Rightarrow> kernel" where
  "Event_Clear e k = upd_event e (\<lambda>x. x\<lparr>event_signaled := False\<rparr>) k"

definition timer_event :: string where "timer_event = ''TimerCallback''"

definition CreateTimer :: "ResetType \<Rightarrow> kernel \<Rightarrow> nat \<times> kernel" where
  "CreateTimer rt k =
     (let i = num_timers k; cb = (next_timer_callback_id k + 1) mod 2 ^ 64 in
      (i, upd_ktimer i (\<lambda>_. \<lparr>timer_reset_type = rt, initial_delay = 0, interval_delay = 0,
                           timer_signaled = False, callback_id = cb, timer_limit = None\<rparr>)
            (k\<lparr>num_timers := i + 1, next_timer_callback_id := cb,
               timer_callback_table := (timer_callback_table k)(cb \<mapsto> i)\<rparr>)))"

definition Timer_Cancel :: "nat \<Rightarrow> kernel \<Rightarrow> kernel" where
  "Timer_Cancel i k = k\<lparr>timing := UnscheduleEvent timer_event (callback_id (ktimers k i)) (timing k)\<rparr>"

definition Timer_Clear :: "nat \<Rightarrow> kernel \<Rightarrow> kernel" where
  "Timer_Clear i k = upd_ktimer i (\<lambda>x. x\<lparr>timer_signaled := False\<rparr>) k"

text \<open>The delays are stored unsigned; \<^verbatim>\<open>nsToCycles\<close> of the interval is the unsigned overload.\<close>

definition Timer_Signal :: "nat \<Rightarrow> int \<Rightarrow> kernel \<Rightarrow> kernel option" where
  "Timer_Signal i cycles_late k = do {
     k1 \<leftarrow> WakeupAllWaitingThreads (WTimer i) (upd_ktimer i (\<lambda>x. x\<lparr>timer_signaled := True\<rparr>) k);
     if interval_delay (ktimers k1 i) \<noteq> 0 then
       map_option (\<lambda>T. k1\<lparr>timing := T\<rparr>)
         (ScheduleEvent (wrap_s64 (nsToCycles_u64 (interval_delay (ktimers k1 i)) - cycles_late)) timer_event
            (callback_id (ktimers k1 i)) None False (timing k1))
     else Some k1
   }"

definition Timer_Set :: "nat \<Rightarrow> int \<Rightarrow> int \<Rightarrow> kernel \<Rightarrow> kernel option" where
  "Timer_Set i initial interval k =
     (let k1 = upd_ktimer i (\<lambda>x. x\<lparr>initial_delay := wrap_u64 initial, interval_delay := wrap_u64 interval\<rparr>)
                 (Timer_Cancel i k) in
      if initial = 0 then Timer_Signal i 0 k1
      else map_option (\<lambda>T. k1\<lparr>timing := T\<rparr>)
        (ScheduleEvent (nsToCycles initial) timer_event (callback_id (ktimers k1 i)) None False (timing k1)))"

text \<open>\<^verbatim>\<open>at\<close> throws for an unknown number.\<close>

definition TimerCallback :: "nat \<Rightarrow> int \<Rightarrow> kernel \<Rightarrow> kernel option" where
  "TimerCallback cb cycles_late k =
     (case timer_callback_table k cb of None \<Rightarrow> None | Some i \<Rightarrow> Timer_Signal i cycles_late k)"



section \<open>Frame rules\<close>

lemma upd_semaphore_frame [simp]:
  "semaphores (upd_semaphore s f k) s' = (if s' = s then f (semaphores k s) else semaphores k s')"
  "threads (upd_semaphore s f k) = threads k" "num_threads (upd_semaphore s f k) = num_threads k"
  "waiting_threads (upd_semaphore s f k) = waiting_threads k" "mutexes (upd_semaphore s f k) = mutexes k"
  "events (upd_semaphore s f k) = events k" "ktimers (upd_semaphore s f k) = ktimers k"
  "arbiters (upd_semaphore s f k) = arbiters k" "thread_managers (upd_semaphore s f k) = thread_managers k"
  "timing (upd_semaphore s f k) = timing k" "hle_notifier (upd_semaphore s f k) = hle_notifier k"
  "client_ports (upd_semaphore s f k) = client_ports k"
  "server_ports (upd_semaphore s f k) = server_ports k"
  "sessions (upd_semaphore s f k) = sessions k"
  "client_sessions (upd_semaphore s f k) = client_sessions k"
  "server_sessions (upd_semaphore s f k) = server_sessions k"
  "processes (upd_semaphore s f k) = processes k"
  "memory (upd_semaphore s f k) = memory k"
  "host_alloc (upd_semaphore s f k) = host_alloc k"
  "current_cpu (upd_semaphore s f k) = current_cpu k"
  "current_process (upd_semaphore s f k) = current_process k"
  "connected_sessions (upd_semaphore s f k) = connected_sessions k"
  "num_client_ports (upd_semaphore s f k) = num_client_ports k"
  "num_server_ports (upd_semaphore s f k) = num_server_ports k"
  "num_sessions (upd_semaphore s f k) = num_sessions k"
  "num_client_sessions (upd_semaphore s f k) = num_client_sessions k"
  "num_server_sessions (upd_semaphore s f k) = num_server_sessions k"
  "named_ports (upd_semaphore s f k) = named_ports k"
  by (simp_all add: upd_semaphore_def)

lemma upd_event_frame [simp]:
  "events (upd_event e f k) e' = (if e' = e then f (events k e) else events k e')"
  "threads (upd_event e f k) = threads k" "num_threads (upd_event e f k) = num_threads k"
  "waiting_threads (upd_event e f k) = waiting_threads k" "mutexes (upd_event e f k) = mutexes k"
  "semaphores (upd_event e f k) = semaphores k" "ktimers (upd_event e f k) = ktimers k"
  "arbiters (upd_event e f k) = arbiters k" "thread_managers (upd_event e f k) = thread_managers k"
  "timing (upd_event e f k) = timing k" "hle_notifier (upd_event e f k) = hle_notifier k"
  "client_ports (upd_event e f k) = client_ports k"
  "server_ports (upd_event e f k) = server_ports k"
  "sessions (upd_event e f k) = sessions k"
  "client_sessions (upd_event e f k) = client_sessions k"
  "server_sessions (upd_event e f k) = server_sessions k"
  "processes (upd_event e f k) = processes k"
  "memory (upd_event e f k) = memory k"
  "host_alloc (upd_event e f k) = host_alloc k"
  "current_cpu (upd_event e f k) = current_cpu k"
  "current_process (upd_event e f k) = current_process k"
  "connected_sessions (upd_event e f k) = connected_sessions k"
  "num_client_ports (upd_event e f k) = num_client_ports k"
  "num_server_ports (upd_event e f k) = num_server_ports k"
  "num_sessions (upd_event e f k) = num_sessions k"
  "num_client_sessions (upd_event e f k) = num_client_sessions k"
  "num_server_sessions (upd_event e f k) = num_server_sessions k"
  "named_ports (upd_event e f k) = named_ports k"
  by (simp_all add: upd_event_def)

lemma upd_ktimer_frame [simp]:
  "ktimers (upd_ktimer i f k) i' = (if i' = i then f (ktimers k i) else ktimers k i')"
  "threads (upd_ktimer i f k) = threads k" "num_threads (upd_ktimer i f k) = num_threads k"
  "waiting_threads (upd_ktimer i f k) = waiting_threads k" "mutexes (upd_ktimer i f k) = mutexes k"
  "semaphores (upd_ktimer i f k) = semaphores k" "events (upd_ktimer i f k) = events k"
  "arbiters (upd_ktimer i f k) = arbiters k" "thread_managers (upd_ktimer i f k) = thread_managers k"
  "timing (upd_ktimer i f k) = timing k" "hle_notifier (upd_ktimer i f k) = hle_notifier k"
  "client_ports (upd_ktimer i f k) = client_ports k"
  "server_ports (upd_ktimer i f k) = server_ports k"
  "sessions (upd_ktimer i f k) = sessions k"
  "client_sessions (upd_ktimer i f k) = client_sessions k"
  "server_sessions (upd_ktimer i f k) = server_sessions k"
  "processes (upd_ktimer i f k) = processes k"
  "memory (upd_ktimer i f k) = memory k"
  "host_alloc (upd_ktimer i f k) = host_alloc k"
  "current_cpu (upd_ktimer i f k) = current_cpu k"
  "current_process (upd_ktimer i f k) = current_process k"
  "connected_sessions (upd_ktimer i f k) = connected_sessions k"
  "num_client_ports (upd_ktimer i f k) = num_client_ports k"
  "num_server_ports (upd_ktimer i f k) = num_server_ports k"
  "num_sessions (upd_ktimer i f k) = num_sessions k"
  "num_client_sessions (upd_ktimer i f k) = num_client_sessions k"
  "num_server_sessions (upd_ktimer i f k) = num_server_sessions k"
  "named_ports (upd_ktimer i f k) = named_ports k"
  by (simp_all add: upd_ktimer_def)

lemma upd_server_session_frame [simp]:
  "server_sessions (upd_server_session s f k) s' = (if s' = s then f (server_sessions k s) else server_sessions k s')"
  "threads (upd_server_session s f k) = threads k" "num_threads (upd_server_session s f k) = num_threads k"
  "waiting_threads (upd_server_session s f k) = waiting_threads k" "mutexes (upd_server_session s f k) = mutexes k"
  "semaphores (upd_server_session s f k) = semaphores k" "events (upd_server_session s f k) = events k"
  "ktimers (upd_server_session s f k) = ktimers k" "arbiters (upd_server_session s f k) = arbiters k"
  "thread_managers (upd_server_session s f k) = thread_managers k" "timing (upd_server_session s f k) = timing k"
  "hle_notifier (upd_server_session s f k) = hle_notifier k" "client_ports (upd_server_session s f k) = client_ports k"
  "server_ports (upd_server_session s f k) = server_ports k" "sessions (upd_server_session s f k) = sessions k"
  "client_sessions (upd_server_session s f k) = client_sessions k" "processes (upd_server_session s f k) = processes k"
  "memory (upd_server_session s f k) = memory k" "host_alloc (upd_server_session s f k) = host_alloc k"
  "current_cpu (upd_server_session s f k) = current_cpu k" "current_process (upd_server_session s f k) = current_process k"
  "connected_sessions (upd_server_session s f k) = connected_sessions k" "num_server_sessions (upd_server_session s f k) = num_server_sessions k"
  "num_client_ports (upd_server_session s f k) = num_client_ports k"
  "num_server_ports (upd_server_session s f k) = num_server_ports k"
  "num_sessions (upd_server_session s f k) = num_sessions k"
  "num_client_sessions (upd_server_session s f k) = num_client_sessions k"
  "named_ports (upd_server_session s f k) = named_ports k"
  by (simp_all add: upd_server_session_def)

lemma set_waiting_frame [simp]:
  "waiting_threads (set_waiting w f k) w' = (if w' = w then f (waiting_threads k w) else waiting_threads k w')"
  "threads (set_waiting w f k) = threads k" "num_threads (set_waiting w f k) = num_threads k"
  "mutexes (set_waiting w f k) = mutexes k" "semaphores (set_waiting w f k) = semaphores k"
  "events (set_waiting w f k) = events k" "ktimers (set_waiting w f k) = ktimers k"
  "arbiters (set_waiting w f k) = arbiters k" "thread_managers (set_waiting w f k) = thread_managers k"
  "timing (set_waiting w f k) = timing k" "hle_notifier (set_waiting w f k) = hle_notifier k"
  "client_ports (set_waiting w f k) = client_ports k"
  "server_ports (set_waiting w f k) = server_ports k"
  "sessions (set_waiting w f k) = sessions k"
  "client_sessions (set_waiting w f k) = client_sessions k"
  "server_sessions (set_waiting w f k) = server_sessions k"
  "processes (set_waiting w f k) = processes k"
  "memory (set_waiting w f k) = memory k"
  "host_alloc (set_waiting w f k) = host_alloc k"
  "current_cpu (set_waiting w f k) = current_cpu k"
  "current_process (set_waiting w f k) = current_process k"
  "connected_sessions (set_waiting w f k) = connected_sessions k"
  "num_client_ports (set_waiting w f k) = num_client_ports k"
  "num_server_ports (set_waiting w f k) = num_server_ports k"
  "num_sessions (set_waiting w f k) = num_sessions k"
  "num_client_sessions (set_waiting w f k) = num_client_sessions k"
  "num_server_sessions (set_waiting w f k) = num_server_sessions k"
  "named_ports (set_waiting w f k) = named_ports k"
  by (simp_all add: set_waiting_def)


section \<open>Invariants\<close>

text \<open>
  \<open>mutex_inv\<close>: a mutex has a holder exactly while its lock count is positive, and the sets of held
  mutexes and the holders mirror each other.
\<close>

definition mutex_inv :: "kernel \<Rightarrow> bool" where
  "mutex_inv k \<longleftrightarrow> (\<forall>m.
     (\<forall>h. holding_thread (mutexes k m) = Some h \<longrightarrow> h < num_threads k \<and> m \<in> set (held_mutexes (threads k h))) \<and>
     (\<forall>t < num_threads k. m \<in> set (held_mutexes (threads k t)) \<longrightarrow> holding_thread (mutexes k m) = Some t) \<and>
     0 \<le> lock_count (mutexes k m) \<and>
     (lock_count (mutexes k m) > 0 \<longleftrightarrow> holding_thread (mutexes k m) \<noteq> None))"

definition waits_synch :: "ThreadStatus \<Rightarrow> bool" where
  "waits_synch s \<longleftrightarrow> s = WaitSynchAny \<or> s = WaitSynchAll \<or> s = WaitHleEvent"

text \<open>
  The callback of a thread that waits on objects is not the one of an arbiter, and the one for requests belongs to threads that wait
  for any of their objects.
\<close>

fun callback_ok :: "ThreadStatus \<Rightarrow> wakeup_cb option \<Rightarrow> bool" where
  "callback_ok st None \<longleftrightarrow> True"
| "callback_ok st (Some (SVC_SyncCallback b)) \<longleftrightarrow> True"
| "callback_ok st (Some SVC_IPCCallback) \<longleftrightarrow> st = WaitSynchAny"
| "callback_ok st (Some (ArbiterCallback a)) \<longleftrightarrow> False"

text \<open>
  \<open>wait_inv\<close>: a thread is in the list of an object exactly if the object is in the thread's own list,
  once, and then its status is one of the three that wait on objects and its callback fits;
  a thread that waits for all of its objects does not name an object twice.
\<close>

definition wait_inv :: "kernel \<Rightarrow> bool" where
  "wait_inv k \<longleftrightarrow>
     (\<forall>w. distinct (waiting_threads k w) \<and> (\<forall>t \<in> set (waiting_threads k w). t < num_threads k)) \<and>
     (\<forall>t < num_threads k.
        (\<forall>w. t \<in> set (waiting_threads k w) \<longleftrightarrow> w \<in> set (wait_objects (threads k t))) \<and>
        (wait_objects (threads k t) \<noteq> [] \<longrightarrow> waits_synch (status (threads k t)) \<and>
           callback_ok (status (threads k t)) (wakeup_callback (threads k t))) \<and>
        (status (threads k t) = WaitSynchAll \<longrightarrow> distinct (wait_objects (threads k t))))"

definition kinv :: "kernel \<Rightarrow> bool" where
  "kinv k \<longleftrightarrow> sched_inv k \<and> mutex_inv k \<and> wait_inv k"

lemma kinvD: "kinv k \<Longrightarrow> sched_inv k" "kinv k \<Longrightarrow> mutex_inv k" "kinv k \<Longrightarrow> wait_inv k"
  by (simp_all add: kinv_def)

lemma wait_inv_cong:
  assumes "wait_inv k" "num_threads k' = num_threads k" "waiting_threads k' = waiting_threads k"
    and "\<And>t. t < num_threads k \<Longrightarrow> status (threads k' t) = status (threads k t) \<and>
      wait_objects (threads k' t) = wait_objects (threads k t) \<and>
      wakeup_callback (threads k' t) = wakeup_callback (threads k t)"
  shows "wait_inv k'"
  using assms unfolding wait_inv_def by simp

lemma mutex_invD:
  assumes "mutex_inv k"
  shows "holding_thread (mutexes k m) = Some h \<Longrightarrow> h < num_threads k"
    "holding_thread (mutexes k m) = Some h \<Longrightarrow> m \<in> set (held_mutexes (threads k h))"
    "t < num_threads k \<Longrightarrow> m \<in> set (held_mutexes (threads k t)) \<Longrightarrow> holding_thread (mutexes k m) = Some t"
    "0 \<le> lock_count (mutexes k m)"
    "lock_count (mutexes k m) > 0 \<longleftrightarrow> holding_thread (mutexes k m) \<noteq> None"
  using assms unfolding mutex_inv_def by blast+

lemma mutex_invI:
  assumes "\<And>m h. holding_thread (mutexes k m) = Some h \<Longrightarrow>
      h < num_threads k \<and> m \<in> set (held_mutexes (threads k h))"
    "\<And>m t. t < num_threads k \<Longrightarrow> m \<in> set (held_mutexes (threads k t)) \<Longrightarrow>
      holding_thread (mutexes k m) = Some t"
    "\<And>m. 0 \<le> lock_count (mutexes k m)"
    "\<And>m. lock_count (mutexes k m) > 0 \<longleftrightarrow> holding_thread (mutexes k m) \<noteq> None"
  shows "mutex_inv k"
  using assms unfolding mutex_inv_def by blast

lemma mutex_inv_cong:
  assumes "mutex_inv k" "num_threads k' = num_threads k"
    and "\<And>m. lock_count (mutexes k' m) = lock_count (mutexes k m)"
    and "\<And>m. holding_thread (mutexes k' m) = holding_thread (mutexes k m)"
    and "\<And>t. t < num_threads k \<Longrightarrow> held_mutexes (threads k' t) = held_mutexes (threads k t)"
  shows "mutex_inv k'"
proof (rule mutex_invI)
  fix m h assume "holding_thread (mutexes k' m) = Some h"
  then have "holding_thread (mutexes k m) = Some h" using assms(4) by simp
  then show "h < num_threads k' \<and> m \<in> set (held_mutexes (threads k' h))"
    using mutex_invD(1,2) [OF assms(1)] assms(2,5) by auto
next
  fix m t assume "t < num_threads k'" "m \<in> set (held_mutexes (threads k' t))"
  then show "holding_thread (mutexes k' m) = Some t"
    using mutex_invD(3) [OF assms(1), of t m] assms(2,4,5) by auto
next
  fix m
  show "0 \<le> lock_count (mutexes k' m)"
    using mutex_invD(4) [OF assms(1)] assms(3) by simp
  show "lock_count (mutexes k' m) > 0 \<longleftrightarrow> holding_thread (mutexes k' m) \<noteq> None"
    using mutex_invD(5) [OF assms(1)] assms(3,4) by simp
qed

text \<open>Updating the priority of a mutex and of its holder.\<close>

lemma best_waiter_le:
  "fold (\<lambda>t b. if f t < b then f t else b) ts (b::nat) \<le> b"
  by (induction ts arbitrary: b) (auto intro: le_trans less_imp_le)

lemma Mutex_UpdatePriority_inv:
  assumes "sched_inv k" "mutex_inv k"
  shows "sched_inv (Mutex_UpdatePriority m k)"
proof (cases "holding_thread (mutexes k m)")
  case None
  then show ?thesis using assms by (simp add: Mutex_UpdatePriority_def)
next
  case (Some h)
  let ?best = "fold (\<lambda>t b. if current_priority (threads k t) < b then current_priority (threads k t) else b)
      (waiting_threads k (WMutex m)) ThreadPrioLowest"
  let ?k = "upd_mutex m (\<lambda>mt. mt\<lparr>priority := ?best\<rparr>) k"
  have "?best < 64"
    using best_waiter_le [of "\<lambda>t. current_priority (threads k t)" "waiting_threads k (WMutex m)" ThreadPrioLowest]
    by (simp add: prio_defs)
  then have "sched_inv ?k"
    using sched_invD(2) [OF assms(1)] by (intro sched_inv_cong [OF _ _ _ _ assms(1)]) (auto simp: thread_ok_def)
  moreover have "h < num_threads k"
    using mutex_invD(1) [OF assms(2) Some] .
  ultimately show ?thesis
    using Some assms(1) by (auto simp: Mutex_UpdatePriority_def Let_def intro!: UpdatePriority_inv)
qed

text \<open>What an operation on priorities leaves alone.\<close>

definition same_env :: "kernel \<Rightarrow> kernel \<Rightarrow> bool" where
  "same_env k k' \<longleftrightarrow> client_ports k' = client_ports k \<and> server_ports k' = server_ports k \<and> sessions k' = sessions k \<and>
     client_sessions k' = client_sessions k \<and> server_sessions k' = server_sessions k \<and> processes k' = processes k \<and>
     memory k' = memory k \<and> host_alloc k' = host_alloc k \<and> current_cpu k' = current_cpu k \<and>
     current_process k' = current_process k \<and> connected_sessions k' = connected_sessions k \<and>
     num_client_ports k' = num_client_ports k \<and> num_server_ports k' = num_server_ports k \<and> num_sessions k' = num_sessions k \<and>
     num_client_sessions k' = num_client_sessions k \<and> num_server_sessions k' = num_server_sessions k \<and> named_ports k' = named_ports k"

lemma same_env_refl [simp]: "same_env k k"
  by (simp add: same_env_def)

lemma same_env_trans: "same_env k k1 \<Longrightarrow> same_env k1 k2 \<Longrightarrow> same_env k k2"
  by (simp add: same_env_def)

definition prio_frame :: "kernel \<Rightarrow> kernel \<Rightarrow> bool" where
  "prio_frame k k' \<longleftrightarrow> num_threads k' = num_threads k \<and> waiting_threads k' = waiting_threads k \<and>
     semaphores k' = semaphores k \<and> events k' = events k \<and> ktimers k' = ktimers k \<and> arbiters k' = arbiters k \<and>
     timing k' = timing k \<and> hle_notifier k' = hle_notifier k \<and> same_env k k' \<and>
     (\<forall>m. lock_count (mutexes k' m) = lock_count (mutexes k m) \<and>
          holding_thread (mutexes k' m) = holding_thread (mutexes k m)) \<and>
     (\<forall>t. \<exists>p. threads k' t = (threads k t)\<lparr>current_priority := p\<rparr>)"

lemma prio_frame_refl [simp]: "prio_frame k k"
proof -
  have "\<exists>p. threads k t = (threads k t)\<lparr>current_priority := p\<rparr>" for t
    by (rule exI [of _ "current_priority (threads k t)"]) simp
  then show ?thesis by (simp add: prio_frame_def)
qed

lemma prio_frame_fields:
  assumes "prio_frame k k'"
  shows "num_threads k' = num_threads k" "waiting_threads k' = waiting_threads k"
    "semaphores k' = semaphores k" "events k' = events k" "ktimers k' = ktimers k" "arbiters k' = arbiters k"
    "timing k' = timing k" "hle_notifier k' = hle_notifier k" "same_env k k'"
    "server_ports k' = server_ports k" "sessions k' = sessions k" "server_sessions k' = server_sessions k"
    "lock_count (mutexes k' m) = lock_count (mutexes k m)"
    "holding_thread (mutexes k' m) = holding_thread (mutexes k m)"
    "status (threads k' t) = status (threads k t)" "wait_objects (threads k' t) = wait_objects (threads k t)"
    "held_mutexes (threads k' t) = held_mutexes (threads k t)"
    "wakeup_callback (threads k' t) = wakeup_callback (threads k t)"
    "nominal_priority (threads k' t) = nominal_priority (threads k t)"
    "core_id (threads k' t) = core_id (threads k t)"
    "thread_context (threads k' t) = thread_context (threads k t)"
proof -
  obtain p where "threads k' t = (threads k t)\<lparr>current_priority := p\<rparr>"
    using assms by (auto simp: prio_frame_def)
  then show "status (threads k' t) = status (threads k t)" "wait_objects (threads k' t) = wait_objects (threads k t)"
    "held_mutexes (threads k' t) = held_mutexes (threads k t)"
    "wakeup_callback (threads k' t) = wakeup_callback (threads k t)"
    "nominal_priority (threads k' t) = nominal_priority (threads k t)"
    "core_id (threads k' t) = core_id (threads k t)"
    "thread_context (threads k' t) = thread_context (threads k t)"
    by simp_all
qed (use assms in \<open>auto simp: prio_frame_def same_env_def\<close>)

lemma prio_frame_Update: "prio_frame k (Thread_UpdatePriority t k)"
proof -
  have "\<exists>p. threads (Thread_UpdatePriority t k) u = (threads k u)\<lparr>current_priority := p\<rparr>" for u
    by (cases "u = t") (auto simp: UpdatePriority_threads intro: exI [of _ "current_priority (threads k u)"])
  then show ?thesis by (simp add: prio_frame_def same_env_def)
qed

lemma prio_frame_Mutex_Update: "prio_frame k (Mutex_UpdatePriority m k)"
proof (cases "holding_thread (mutexes k m)")
  case None
  then show ?thesis by (simp add: Mutex_UpdatePriority_def)
next
  case (Some h)
  have "prio_frame k (Thread_UpdatePriority h (upd_mutex m (\<lambda>mt. mt\<lparr>priority := b\<rparr>) k))" for b
    using prio_frame_Update [of "upd_mutex m (\<lambda>mt. mt\<lparr>priority := b\<rparr>) k" h] by (auto simp: prio_frame_def same_env_def)
  then show ?thesis using Some by (simp add: Mutex_UpdatePriority_def Let_def)
qed

lemma prio_frame_kinv:
  assumes "prio_frame k k'" "mutex_inv k" "wait_inv k" "sched_inv k'"
  shows "kinv k'"
  using assms prio_frame_fields [OF assms(1)]
  by (auto simp: kinv_def intro: mutex_inv_cong [of k] wait_inv_cong [of k])



section \<open>Acquiring\<close>

lemma ShouldWait_cong:
  assumes "\<And>u. status (threads k' u) = status (threads k u)"
    "\<And>m. lock_count (mutexes k' m) = lock_count (mutexes k m)"
    "\<And>m. holding_thread (mutexes k' m) = holding_thread (mutexes k m)"
    "semaphores k' = semaphores k" "events k' = events k" "ktimers k' = ktimers k"
    "server_ports k' = server_ports k" "sessions k' = sessions k" "server_sessions k' = server_sessions k"
  shows "ShouldWait w t k' = ShouldWait w t k"
  using assms by (cases w) auto

lemma ShouldWait_prio: "prio_frame k k' \<Longrightarrow> ShouldWait w t k' = ShouldWait w t k"
  by (rule ShouldWait_cong) (auto dest: prio_frame_fields)

text \<open>The links between the ends of sessions; only creating and destroying ends changes them.\<close>

definition same_links :: "kernel \<Rightarrow> kernel \<Rightarrow> bool" where
  "same_links k k' \<longleftrightarrow> client_ports k' = client_ports k \<and> server_ports k' = server_ports k \<and> sessions k' = sessions k \<and>
     client_sessions k' = client_sessions k \<and> host_alloc k' = host_alloc k \<and> connected_sessions k' = connected_sessions k \<and>
     num_client_ports k' = num_client_ports k \<and> num_server_ports k' = num_server_ports k \<and> num_sessions k' = num_sessions k \<and>
     num_client_sessions k' = num_client_sessions k \<and> num_server_sessions k' = num_server_sessions k \<and> named_ports k' = named_ports k \<and>
     (\<forall>s. server_parent (server_sessions k' s) = server_parent (server_sessions k s) \<and>
          hle_handler (server_sessions k' s) = hle_handler (server_sessions k s))"

lemma same_links_refl [simp]: "same_links k k"
  by (simp add: same_links_def)

lemma same_links_trans: "same_links k k1 \<Longrightarrow> same_links k1 k2 \<Longrightarrow> same_links k k2"
  by (simp add: same_links_def)

lemma same_env_links: "same_env k k' \<Longrightarrow> same_links k k'"
  by (simp add: same_env_def same_links_def)

definition client_open :: "nat \<Rightarrow> kernel \<Rightarrow> bool" where
  "client_open s k \<longleftrightarrow> session_client (sessions k (server_parent (server_sessions k s))) \<noteq> None"

lemma same_links_open: "same_links k k' \<Longrightarrow> client_open s k' = client_open s k"
  by (simp add: same_links_def client_open_def)

lemma Acquire_links: "Acquire w t k = Some k' \<Longrightarrow> same_links k k'"
  by (cases w) (auto simp: same_links_def Thread_Acquire_def Mutex_Acquire_def Semaphore_Acquire_def Event_Acquire_def
      Timer_Acquire_def ServerPort_Acquire_def ServerSession_Acquire_def Let_def split: if_splits)

text \<open>What acquiring the object \<open>w\<close> leaves alone.\<close>

definition acq_frame :: "wait_ref \<Rightarrow> kernel \<Rightarrow> kernel \<Rightarrow> bool" where
  "acq_frame w k k' \<longleftrightarrow> num_threads k' = num_threads k \<and> waiting_threads k' = waiting_threads k \<and>
     arbiters k' = arbiters k \<and> timing k' = timing k \<and> hle_notifier k' = hle_notifier k \<and>
     (\<forall>u. status (threads k' u) = status (threads k u) \<and>
          wait_objects (threads k' u) = wait_objects (threads k u) \<and>
          wakeup_callback (threads k' u) = wakeup_callback (threads k u) \<and>
          core_id (threads k' u) = core_id (threads k u)) \<and>
     (\<forall>ob u. ob \<noteq> w \<longrightarrow> ShouldWait ob u k' = ShouldWait ob u k) \<and>
     (\<forall>m. lock_count (mutexes k' m) \<le> lock_count (mutexes k m) + (if w = WMutex m then 1 else 0))"

lemma acq_frameD:
  assumes "acq_frame w k k'"
  shows "num_threads k' = num_threads k" "waiting_threads k' = waiting_threads k"
    "status (threads k' u) = status (threads k u)" "wait_objects (threads k' u) = wait_objects (threads k u)"
    "wakeup_callback (threads k' u) = wakeup_callback (threads k u)"
    "ob \<noteq> w \<Longrightarrow> ShouldWait ob u k' = ShouldWait ob u k"
    "lock_count (mutexes k' m) \<le> lock_count (mutexes k m) + (if w = WMutex m then 1 else 0)"
  using assms unfolding acq_frame_def by blast+

lemma acq_frame_wait_inv: "wait_inv k \<Longrightarrow> acq_frame w k k' \<Longrightarrow> wait_inv k'"
  by (rule wait_inv_cong [of k]) (simp_all add: acq_frame_def)

lemma first_acquire_inv:
  assumes inv: "kinv k" and t: "t < num_threads k" and free: "lock_count (mutexes k m) = 0"
  defines "k1 \<equiv> upd_thread t (\<lambda>th. th\<lparr>held_mutexes := flat_insert m (held_mutexes th)\<rparr>)
               (upd_mutex m (\<lambda>mt. mt\<lparr>priority := current_priority (threads k t), holding_thread := Some t\<rparr>) k)"
  shows "sched_inv k1" "mutex_inv (upd_mutex m (\<lambda>mt. mt\<lparr>lock_count := 1\<rparr>) k1)"
proof -
  have s: "sched_inv k" and mi: "mutex_inv k"
    using inv by (simp_all add: kinv_def)
  have "current_priority (threads k t) < 64"
    using sched_invD(2) [OF s t] by (simp add: thread_ok_def)
  then show "sched_inv k1"
    unfolding k1_def using sched_invD(2) [OF s]
    by (intro sched_inv_cong [OF _ _ _ _ s]) (auto simp: thread_ok_def split: if_splits)
  have none: "holding_thread (mutexes k m) = None"
    using mutex_invD(5) [OF mi, of m] free by auto
  show "mutex_inv (upd_mutex m (\<lambda>mt. mt\<lparr>lock_count := 1\<rparr>) k1)" (is "mutex_inv ?k")
  proof (rule mutex_invI)
    fix m' h assume "holding_thread (mutexes ?k m') = Some h"
    then show "h < num_threads ?k \<and> m' \<in> set (held_mutexes (threads ?k h))"
      using mutex_invD(1,2) [OF mi, of m' h] t by (auto simp: k1_def split: if_splits)
  next
    fix m' u assume "u < num_threads ?k" "m' \<in> set (held_mutexes (threads ?k u))"
    then show "holding_thread (mutexes ?k m') = Some u"
      using mutex_invD(3) [OF mi, of u m'] none by (auto simp: k1_def split: if_splits)
  next
    fix m'
    show "0 \<le> lock_count (mutexes ?k m')"
      using mutex_invD(4) [OF mi] by (simp add: k1_def)
    show "lock_count (mutexes ?k m') > 0 \<longleftrightarrow> holding_thread (mutexes ?k m') \<noteq> None"
      using mutex_invD(5) [OF mi, of m'] by (simp add: k1_def)
  qed
qed

lemma mutex_inv_relock:
  assumes mi: "mutex_inv k" and "holding_thread (mutexes k m) = Some t" "0 < n"
  shows "mutex_inv (upd_mutex m (\<lambda>mt. mt\<lparr>lock_count := n\<rparr>) k)" (is "mutex_inv ?k")
proof (rule mutex_invI)
  fix m' h assume "holding_thread (mutexes ?k m') = Some h"
  then have "holding_thread (mutexes k m') = Some h"
    by (simp split: if_splits)
  then show "h < num_threads ?k \<and> m' \<in> set (held_mutexes (threads ?k h))"
    using mutex_invD(1,2) [OF mi] by simp
next
  fix m' u assume "u < num_threads ?k" "m' \<in> set (held_mutexes (threads ?k u))"
  then show "holding_thread (mutexes ?k m') = Some u"
    using mutex_invD(3) [OF mi, of u m'] by auto
next
  fix m'
  show "0 \<le> lock_count (mutexes ?k m')"
    using mutex_invD(4) [OF mi] assms(3) by simp
  show "lock_count (mutexes ?k m') > 0 \<longleftrightarrow> holding_thread (mutexes ?k m') \<noteq> None"
    using mutex_invD(5) [OF mi, of m'] assms(2,3) by simp
qed

lemma Mutex_Acquire_step:
  assumes inv: "kinv k" and t: "t < num_threads k" and ok: "\<not> ShouldWait (WMutex m) t k"
    and room: "lock_count (mutexes k m) < 2 ^ 31 - 1"
  shows "\<exists>k'. Mutex_Acquire m t k = Some k' \<and> kinv k' \<and> acq_frame (WMutex m) k k' \<and>
    holding_thread (mutexes k' m) = Some t \<and> lock_count (mutexes k' m) = lock_count (mutexes k m) + 1"
proof (cases "lock_count (mutexes k m) = 0")
  case True
  let ?k1 = "upd_thread t (\<lambda>th. th\<lparr>held_mutexes := flat_insert m (held_mutexes th)\<rparr>)
      (upd_mutex m (\<lambda>mt. mt\<lparr>priority := current_priority (threads k t), holding_thread := Some t\<rparr>) k)"
  let ?k2 = "PrepareReschedule (Thread_UpdatePriority t ?k1)"
  let ?k3 = "upd_mutex m (\<lambda>mt. mt\<lparr>lock_count := 1\<rparr>) ?k2"
  note f = prio_frame_fields [OF prio_frame_Update [of ?k1 t]]
  have w1: "wrap_s32 (0 + 1) = 1"
    by (rule trans [OF wrap_s32_id]) (simp_all add: in_s32_def)
  have "Mutex_Acquire m t k = Some (upd_mutex m (\<lambda>mt. mt\<lparr>lock_count := wrap_s32 (lock_count mt + 1)\<rparr>) ?k2)"
    using ok True by (simp add: Mutex_Acquire_def)
  moreover have "upd_mutex m (\<lambda>mt. mt\<lparr>lock_count := wrap_s32 (lock_count mt + 1)\<rparr>) ?k2 = ?k3"
    using True w1 by (simp add: upd_mutex_def)
  ultimately have e: "Mutex_Acquire m t k = Some ?k3" by simp
  have "sched_inv ?k2"
    using UpdatePriority_inv [OF first_acquire_inv(1) [OF inv t True], of t] t by simp
  then have "sched_inv ?k3"
    by (subst sched_inv_same [of _ ?k2]) simp_all
  moreover have "mutex_inv ?k3"
    using first_acquire_inv(2) [OF inv t True] by (rule mutex_inv_cong) (use f in auto)
  moreover have fr: "acq_frame (WMutex m) k ?k3"
  proof -
    have "ShouldWait ob u ?k3 = ShouldWait ob u k" if "ob \<noteq> WMutex m" for ob u
      using that f by (cases ob) auto
    then show ?thesis
      using f True by (auto simp: acq_frame_def)
  qed
  moreover have "wait_inv ?k3"
    using acq_frame_wait_inv [OF kinvD(3) [OF inv] fr] .
  ultimately show ?thesis
    using e True by (simp add: kinv_def)
next
  case False
  then have h: "holding_thread (mutexes k m) = Some t" "lock_count (mutexes k m) > 0"
    using ok mutex_invD(4) [OF kinvD(2) [OF inv], of m] by auto
  let ?k = "upd_mutex m (\<lambda>mt. mt\<lparr>lock_count := lock_count (mutexes k m) + 1\<rparr>) k"
  have "in_s32 (lock_count (mutexes k m) + 1)"
    using h room by (simp add: in_s32_def)
  then have e: "Mutex_Acquire m t k = Some ?k"
    using ok False by (simp add: Mutex_Acquire_def upd_mutex_def)
  have "sched_inv ?k"
    using kinvD(1) [OF inv] by (subst sched_inv_same [of _ k]) simp_all
  moreover have "mutex_inv ?k"
    using mutex_inv_relock [OF kinvD(2) [OF inv] h(1)] h(2) by simp
  moreover have fr: "acq_frame (WMutex m) k ?k"
  proof -
    have "ShouldWait ob u ?k = ShouldWait ob u k" if "ob \<noteq> WMutex m" for ob u
      using that by (cases ob) auto
    then show ?thesis by (auto simp: acq_frame_def)
  qed
  moreover have "wait_inv ?k"
    using acq_frame_wait_inv [OF kinvD(3) [OF inv] fr] .
  ultimately show ?thesis
    using e h by (simp add: kinv_def)
qed

lemma kinv_cong_objects:
  assumes "kinv k" "threads k' = threads k" "num_threads k' = num_threads k" "mutexes k' = mutexes k"
    "waiting_threads k' = waiting_threads k" "thread_managers k' = thread_managers k"
  shows "kinv k'"
  using assms sched_inv_same [of k' k] unfolding kinv_def
  by (auto intro!: mutex_inv_cong [of k k'] wait_inv_cong [of k k'])

lemma Acquire_step:
  assumes inv: "kinv k" and t: "t < num_threads k" and ok: "\<not> ShouldWait w t k"
    and room: "\<And>m. w = WMutex m \<Longrightarrow> lock_count (mutexes k m) < 2 ^ 31 - 1"
  shows "\<exists>k'. Acquire w t k = Some k' \<and> kinv k' \<and> acq_frame w k k'"
proof (cases w)
  case (WMutex m)
  then show ?thesis
    using Mutex_Acquire_step [OF inv t, of m] ok room by auto
next
  case (WThread u)
  then show ?thesis
    using ok inv by (auto simp: Thread_Acquire_def acq_frame_def)
next
  case (WSemaphore s)
  have "ShouldWait ob u (upd_semaphore s f k) = ShouldWait ob u k" if "ob \<noteq> WSemaphore s" for ob u f
    using that by (cases ob) auto
  then show ?thesis
    using WSemaphore ok kinv_cong_objects [OF inv, of "upd_semaphore s f k" for f]
    by (auto simp: Semaphore_Acquire_def acq_frame_def)
next
  case (WEvent e)
  have "ShouldWait ob u (upd_event e f k) = ShouldWait ob u k" if "ob \<noteq> WEvent e" for ob u f
    using that by (cases ob) auto
  then show ?thesis
    using WEvent ok inv kinv_cong_objects [OF inv, of "upd_event e f k" for f]
    by (auto simp: Event_Acquire_def acq_frame_def)
next
  case (WTimer i)
  have "ShouldWait ob u (upd_ktimer i f k) = ShouldWait ob u k" if "ob \<noteq> WTimer i" for ob u f
    using that by (cases ob) auto
  then show ?thesis
    using WTimer ok inv kinv_cong_objects [OF inv, of "upd_ktimer i f k" for f]
    by (auto simp: Timer_Acquire_def acq_frame_def)
next
  case (WServerPort p)
  then show ?thesis
    using ok inv by (auto simp: ServerPort_Acquire_def acq_frame_def)
next
  case (WServerSession s)
  have "ShouldWait ob u (upd_server_session s f k) = ShouldWait ob u k"
    if "ob \<noteq> WServerSession s" for ob u f
    using that by (cases ob) auto
  then show ?thesis
    using WServerSession ok inv kinv_cong_objects [OF inv, of "upd_server_session s f k" for f]
    by (auto simp: ServerSession_Acquire_def acq_frame_def)
qed


text \<open>The same for a list of objects; \<open>n\<close> bounds how much a lock count has grown.\<close>

definition wait_frame :: "nat \<Rightarrow> kernel \<Rightarrow> kernel \<Rightarrow> bool" where
  "wait_frame n k k' \<longleftrightarrow> num_threads k' = num_threads k \<and> waiting_threads k' = waiting_threads k \<and>
     (\<forall>u. status (threads k' u) = status (threads k u) \<and>
          wait_objects (threads k' u) = wait_objects (threads k u) \<and>
          wakeup_callback (threads k' u) = wakeup_callback (threads k u)) \<and> same_links k k' \<and>
     (\<forall>m. lock_count (mutexes k' m) \<le> lock_count (mutexes k m) + int n)"

lemma wait_frame_refl [simp]: "wait_frame n k k"
  by (simp add: wait_frame_def)

lemma wait_frame_trans: "wait_frame a k k1 \<Longrightarrow> wait_frame b k1 k2 \<Longrightarrow> wait_frame (a + b) k k2"
  unfolding wait_frame_def using same_links_trans [of k k1 k2] by (fastforce intro: order_trans)

lemma wait_frame_mono: "wait_frame a k k' \<Longrightarrow> a \<le> b \<Longrightarrow> wait_frame b k k'"
  using wait_frame_trans [of a k k' "b - a" k'] by simp

lemma acq_wait_frame: "acq_frame w k k' \<Longrightarrow> same_links k k' \<Longrightarrow> wait_frame 1 k k'"
  unfolding acq_frame_def wait_frame_def by (fastforce intro: order_trans)

lemma Acquire_all:
  assumes "kinv k" "t < num_threads k" "distinct ws" "list_all (\<lambda>ob. \<not> ShouldWait ob t k) ws"
    and "\<And>m. lock_count (mutexes k m) + int (length ws) < 2 ^ 31"
  shows "\<exists>k'. fold_opt (\<lambda>ob. Acquire ob t) ws k = Some k' \<and> kinv k' \<and> wait_frame (length ws) k k'"
  using assms
proof (induction ws arbitrary: k)
  case Nil
  then show ?case by simp
next
  case (Cons w ws)
  have "lock_count (mutexes k m) < 2 ^ 31 - 1" for m
    using Cons.prems(5) [of m] by simp
  then obtain k1 where k1: "Acquire w t k = Some k1" "kinv k1" "acq_frame w k k1"
    using Acquire_step [of k t w] Cons.prems(1,2,4) by auto
  have "ShouldWait ob t k1 = ShouldWait ob t k" if "ob \<in> set ws" for ob
    using that Cons.prems(3) by (intro acq_frameD(6) [OF k1(3)]) auto
  then have "list_all (\<lambda>ob. \<not> ShouldWait ob t k1) ws"
    using Cons.prems(4) by (simp add: list_all_iff)
  moreover have "lock_count (mutexes k1 m) + int (length ws) < 2 ^ 31" for m
    using Cons.prems(5) [of m] acq_frameD(7) [OF k1(3), of m] by (simp split: if_splits)
  ultimately obtain k' where k': "fold_opt (\<lambda>ob. Acquire ob t) ws k1 = Some k'" "kinv k'"
    "wait_frame (length ws) k1 k'"
    using Cons.IH [of k1] k1(2) Cons.prems(2,3) acq_frameD(1) [OF k1(3)] by auto
  have "wait_frame (Suc (length ws)) k k'"
    using wait_frame_trans [OF acq_wait_frame [OF k1(3) Acquire_links [OF k1(1)]] k'(3)] by simp
  with k1(1) k'(1,2) show ?case by simp
qed


section \<open>Leaving the lists\<close>

definition leave_frame :: "kernel \<Rightarrow> kernel \<Rightarrow> bool" where
  "leave_frame k k' \<longleftrightarrow> num_threads k' = num_threads k \<and>
     (\<forall>u. status (threads k' u) = status (threads k u) \<and>
          wait_objects (threads k' u) = wait_objects (threads k u) \<and>
          wakeup_callback (threads k' u) = wakeup_callback (threads k u) \<and>
          thread_context (threads k' u) = thread_context (threads k u)) \<and>
     (\<forall>m. lock_count (mutexes k' m) = lock_count (mutexes k m)) \<and>
     (\<forall>m. holding_thread (mutexes k' m) = holding_thread (mutexes k m)) \<and>
     semaphores k' = semaphores k \<and> events k' = events k \<and> ktimers k' = ktimers k \<and> same_env k k'"

lemma leave_frame_refl: "leave_frame k k"
  by (simp add: leave_frame_def)

lemma leave_frame_trans: "leave_frame k k1 \<Longrightarrow> leave_frame k1 k2 \<Longrightarrow> leave_frame k k2"
  unfolding leave_frame_def using same_env_trans by simp blast

lemma leave_frameD:
  assumes "leave_frame k k'"
  shows "num_threads k' = num_threads k" "status (threads k' u) = status (threads k u)"
    "wait_objects (threads k' u) = wait_objects (threads k u)"
    "wakeup_callback (threads k' u) = wakeup_callback (threads k u)"
    "lock_count (mutexes k' m) = lock_count (mutexes k m)"
  using assms unfolding leave_frame_def by blast+

text \<open>The part of \<^verbatim>\<open>AddWaitingThread\<close> and \<^verbatim>\<open>RemoveWaitingThread\<close> that they share.\<close>

lemma waiting_change:
  assumes "sched_inv k" "mutex_inv k"
  shows "sched_inv (Mutex_UpdatePriority m (upd_thread t (\<lambda>th. th\<lparr>pending_mutexes := g th\<rparr>) (set_waiting w f k))) \<and>
    mutex_inv (Mutex_UpdatePriority m (upd_thread t (\<lambda>th. th\<lparr>pending_mutexes := g th\<rparr>) (set_waiting w f k))) \<and>
    leave_frame k (Mutex_UpdatePriority m (upd_thread t (\<lambda>th. th\<lparr>pending_mutexes := g th\<rparr>) (set_waiting w f k))) \<and>
    waiting_threads (Mutex_UpdatePriority m (upd_thread t (\<lambda>th. th\<lparr>pending_mutexes := g th\<rparr>) (set_waiting w f k))) =
      (waiting_threads k)(w := f (waiting_threads k w))"
proof -
  let ?k = "upd_thread t (\<lambda>th. th\<lparr>pending_mutexes := g th\<rparr>) (set_waiting w f k)"
  note fr = prio_frame_fields [OF prio_frame_Mutex_Update [of ?k m]]
  have s: "sched_inv ?k"
    using assms(1) sched_invD(2) [OF assms(1)]
    by (intro sched_inv_cong [of ?k k]) (auto simp: thread_ok_def split: if_splits)
  have m: "mutex_inv ?k"
    using assms(2) by (rule mutex_inv_cong) auto
  have "mutex_inv (Mutex_UpdatePriority m ?k)"
    using m by (rule mutex_inv_cong) (auto simp: fr)
  moreover have "same_env k ?k" by (simp add: same_env_def)
  then have "same_env k (Mutex_UpdatePriority m ?k)" by (rule same_env_trans) (rule fr)
  ultimately show ?thesis
    using Mutex_UpdatePriority_inv [OF s m, of m] by (auto simp: fr leave_frame_def fun_eq_iff)
qed

lemma waiting_change_plain:
  assumes "sched_inv k" "mutex_inv k"
  shows "sched_inv (set_waiting w f k) \<and> mutex_inv (set_waiting w f k) \<and> leave_frame k (set_waiting w f k) \<and>
    waiting_threads (set_waiting w f k) = (waiting_threads k)(w := f (waiting_threads k w))"
proof -
  have "sched_inv (set_waiting w f k)"
    using assms(1) by (subst sched_inv_same [of _ k]) auto
  moreover have "mutex_inv (set_waiting w f k)"
    using assms(2) by (rule mutex_inv_cong) auto
  moreover have "same_env k (set_waiting w f k)" by (simp add: same_env_def)
  ultimately show ?thesis by (auto simp: leave_frame_def fun_eq_iff)
qed

lemma Remove_step:
  assumes "sched_inv k" "mutex_inv k"
  shows "sched_inv (RemoveWaitingThread w t k) \<and> mutex_inv (RemoveWaitingThread w t k) \<and>
    leave_frame k (RemoveWaitingThread w t k) \<and>
    waiting_threads (RemoveWaitingThread w t k) = (waiting_threads k)(w := remove1 t (waiting_threads k w))"
  unfolding RemoveWaitingThread_def WaitObject_RemoveWaitingThread_def
  using waiting_change [OF assms, of _ t "\<lambda>th. flat_erase _ (pending_mutexes th)" w "remove1 t"]
    waiting_change_plain [OF assms, of w "remove1 t"]
  by (cases w) auto

lemma Add_step:
  assumes "sched_inv k" "mutex_inv k"
  shows "sched_inv (AddWaitingThread w t k) \<and> mutex_inv (AddWaitingThread w t k) \<and>
    leave_frame k (AddWaitingThread w t k) \<and>
    waiting_threads (AddWaitingThread w t k) =
      (waiting_threads k)(w := (if t \<in> set (waiting_threads k w) then waiting_threads k w
                                else waiting_threads k w @ [t]))"
  unfolding AddWaitingThread_def WaitObject_AddWaitingThread_def
  using waiting_change [OF assms, of _ t "\<lambda>th. flat_insert _ (pending_mutexes th)" w
      "\<lambda>ts. if t \<in> set ts then ts else ts @ [t]"]
    waiting_change_plain [OF assms, of w "\<lambda>ts. if t \<in> set ts then ts else ts @ [t]"]
  by (cases w) auto

lemma Remove_all:
  assumes "sched_inv k" "mutex_inv k" "\<And>w. distinct (waiting_threads k w)"
  shows "sched_inv (fold (\<lambda>ob. RemoveWaitingThread ob t) ws k) \<and>
    mutex_inv (fold (\<lambda>ob. RemoveWaitingThread ob t) ws k) \<and>
    leave_frame k (fold (\<lambda>ob. RemoveWaitingThread ob t) ws k) \<and>
    (\<forall>w. waiting_threads (fold (\<lambda>ob. RemoveWaitingThread ob t) ws k) w =
       (if w \<in> set ws then removeAll t (waiting_threads k w) else waiting_threads k w))"
  using assms
proof (induction ws arbitrary: k)
  case Nil
  then show ?case by (simp add: leave_frame_refl)
next
  case (Cons w ws)
  let ?k = "RemoveWaitingThread w t k"
  have st: "sched_inv ?k" "mutex_inv ?k" "leave_frame k ?k"
    "waiting_threads ?k = (waiting_threads k)(w := remove1 t (waiting_threads k w))"
    using Remove_step [OF Cons.prems(1,2)] by auto
  have d: "distinct (waiting_threads ?k w')" for w'
    using Cons.prems(3) by (simp add: st(4))
  have r: "remove1 t (waiting_threads k w) = removeAll t (waiting_threads k w)"
    using Cons.prems(3) by (simp add: distinct_remove1_removeAll)
  show ?case
    using Cons.IH [OF st(1,2) d] leave_frame_trans [OF st(3)] by (auto simp: st(4) r)
qed

lemma wait_invD:
  assumes "wait_inv k"
  shows "distinct (waiting_threads k w)" "t \<in> set (waiting_threads k w) \<Longrightarrow> t < num_threads k"
    "t < num_threads k \<Longrightarrow> t \<in> set (waiting_threads k w) \<longleftrightarrow> w \<in> set (wait_objects (threads k t))"
    "t < num_threads k \<Longrightarrow> wait_objects (threads k t) \<noteq> [] \<Longrightarrow> waits_synch (status (threads k t))"
    "t < num_threads k \<Longrightarrow> wait_objects (threads k t) \<noteq> [] \<Longrightarrow>
       callback_ok (status (threads k t)) (wakeup_callback (threads k t))"
    "t < num_threads k \<Longrightarrow> status (threads k t) = WaitSynchAll \<Longrightarrow> distinct (wait_objects (threads k t))"
  using assms unfolding wait_inv_def by blast+

lemma wait_invI:
  assumes "\<And>w. distinct (waiting_threads k w)" "\<And>w t. t \<in> set (waiting_threads k w) \<Longrightarrow> t < num_threads k"
    "\<And>w t. t < num_threads k \<Longrightarrow> t \<in> set (waiting_threads k w) \<longleftrightarrow> w \<in> set (wait_objects (threads k t))"
    "\<And>t. t < num_threads k \<Longrightarrow> wait_objects (threads k t) \<noteq> [] \<Longrightarrow> waits_synch (status (threads k t)) \<and>
       callback_ok (status (threads k t)) (wakeup_callback (threads k t))"
    "\<And>t. t < num_threads k \<Longrightarrow> status (threads k t) = WaitSynchAll \<Longrightarrow> distinct (wait_objects (threads k t))"
  shows "wait_inv k"
  using assms unfolding wait_inv_def by blast

lemma leave_waits_step:
  assumes inv: "kinv k" and t: "t < num_threads k"
  shows "kinv (leave_waits t k)" "wait_objects (threads (leave_waits t k) t) = []"
    "waiting_threads (leave_waits t k) w = removeAll t (waiting_threads k w)"
    "num_threads (leave_waits t k) = num_threads k"
    "status (threads (leave_waits t k) u) = status (threads k u)"
    "u \<noteq> t \<Longrightarrow> wait_objects (threads (leave_waits t k) u) = wait_objects (threads k u)"
    "wakeup_callback (threads (leave_waits t k) u) = wakeup_callback (threads k u)"
    "lock_count (mutexes (leave_waits t k) m) = lock_count (mutexes k m)"
    "leave_frame k (fold (\<lambda>ob. RemoveWaitingThread ob t) (wait_objects (threads k t)) k)"
proof -
  let ?k = "fold (\<lambda>ob. RemoveWaitingThread ob t) (wait_objects (threads k t)) k"
  note wi = wait_invD [OF kinvD(3) [OF inv]]
  have r: "sched_inv ?k" "mutex_inv ?k" "leave_frame k ?k"
    "\<And>w. waiting_threads ?k w = (if w \<in> set (wait_objects (threads k t)) then removeAll t (waiting_threads k w)
                                 else waiting_threads k w)"
    using Remove_all [OF kinvD(1) [OF inv] kinvD(2) [OF inv] wi(1)] by auto
  note fr = leave_frameD [OF r(3)]
  have w: "waiting_threads (leave_waits t k) w = removeAll t (waiting_threads k w)" for w
    using r(4) [of w] wi(3) [OF t, of w] by (auto simp: leave_waits_def)
  have th: "num_threads (leave_waits t k) = num_threads k"
    "status (threads (leave_waits t k) u) = status (threads k u)"
    "wait_objects (threads (leave_waits t k) u) = (if u = t then [] else wait_objects (threads k u))"
    "wakeup_callback (threads (leave_waits t k) u) = wakeup_callback (threads k u)"
    "lock_count (mutexes (leave_waits t k) m) = lock_count (mutexes k m)" for u m
    by (simp_all add: leave_waits_def fr)
  have "sched_inv (leave_waits t k)"
    using r(1) unfolding leave_waits_def by (intro sched_inv_upd_thread) simp_all
  moreover have "mutex_inv (leave_waits t k)"
    using r(2) unfolding leave_waits_def by (rule mutex_inv_cong) auto
  moreover have "wait_inv (leave_waits t k)"
  proof (rule wait_invI)
    fix w show "distinct (waiting_threads (leave_waits t k) w)"
      using wi(1) by (simp add: w distinct_removeAll)
  next
    fix w u assume "u \<in> set (waiting_threads (leave_waits t k) w)"
    then show "u < num_threads (leave_waits t k)"
      using wi(2) [of u w] by (simp add: w th)
  next
    fix w u assume "u < num_threads (leave_waits t k)"
    then show "u \<in> set (waiting_threads (leave_waits t k) w) \<longleftrightarrow> w \<in> set (wait_objects (threads (leave_waits t k) u))"
      using wi(3) [of u w] by (simp add: w th)
  next
    fix u assume "u < num_threads (leave_waits t k)" "wait_objects (threads (leave_waits t k) u) \<noteq> []"
    then show "waits_synch (status (threads (leave_waits t k) u)) \<and>
        callback_ok (status (threads (leave_waits t k) u)) (wakeup_callback (threads (leave_waits t k) u))"
      using wi(4,5) [of u] by (simp add: th split: if_splits)
  next
    fix u assume "u < num_threads (leave_waits t k)" "status (threads (leave_waits t k) u) = WaitSynchAll"
    then show "distinct (wait_objects (threads (leave_waits t k) u))"
      using wi(6) [of u] by (simp add: th)
  qed
  ultimately show "kinv (leave_waits t k)"
    by (simp add: kinv_def)
  show "wait_objects (threads (leave_waits t k) t) = []"
    "waiting_threads (leave_waits t k) w = removeAll t (waiting_threads k w)"
    "num_threads (leave_waits t k) = num_threads k"
    "status (threads (leave_waits t k) u) = status (threads k u)"
    "u \<noteq> t \<Longrightarrow> wait_objects (threads (leave_waits t k) u) = wait_objects (threads k u)"
    "wakeup_callback (threads (leave_waits t k) u) = wakeup_callback (threads k u)"
    "lock_count (mutexes (leave_waits t k) m) = lock_count (mutexes k m)" "leave_frame k ?k"
    using w th r(3) by auto
qed



section \<open>Choosing a thread\<close>

text \<open>
  \<open>first_best w k ts b t\<close>: \<open>t\<close> is the first thread of the list with the best priority among those that can run,
  and better than \<open>b\<close>.
\<close>

definition first_best :: "wait_ref \<Rightarrow> kernel \<Rightarrow> nat list \<Rightarrow> nat \<Rightarrow> nat \<Rightarrow> bool" where
  "first_best w k ts b t \<longleftrightarrow> (\<exists>xs ys. ts = xs @ t # ys \<and> ready_to_run w k t \<and> current_priority (threads k t) < b \<and>
     (\<forall>u \<in> set xs. ready_to_run w k u \<longrightarrow> current_priority (threads k t) < current_priority (threads k u)) \<and>
     (\<forall>u \<in> set ys. ready_to_run w k u \<longrightarrow> current_priority (threads k t) \<le> current_priority (threads k u)))"

lemma first_best_Cons:
  assumes "first_best w k ts b t" "b \<le> b'"
    and "ready_to_run w k a \<Longrightarrow> current_priority (threads k t) < current_priority (threads k a)"
  shows "first_best w k (a # ts) b' t"
proof -
  obtain xs ys where "ts = xs @ t # ys" "ready_to_run w k t" "current_priority (threads k t) < b"
    "\<forall>u \<in> set xs. ready_to_run w k u \<longrightarrow> current_priority (threads k t) < current_priority (threads k u)"
    "\<forall>u \<in> set ys. ready_to_run w k u \<longrightarrow> current_priority (threads k t) \<le> current_priority (threads k u)"
    using assms(1) by (auto simp: first_best_def)
  then show ?thesis
    unfolding first_best_def using assms(2,3) by (intro exI [of _ "a # xs"] exI [of _ ys]) auto
qed

lemma first_best_hd:
  assumes "ready_to_run w k a" "current_priority (threads k a) < b"
    and "\<forall>u \<in> set ts. ready_to_run w k u \<longrightarrow> current_priority (threads k a) \<le> current_priority (threads k u)"
  shows "first_best w k (a # ts) b a"
  unfolding first_best_def using assms by (intro exI [of _ "[]"] exI [of _ ts]) simp

lemma first_best_less: "first_best w k ts b t \<Longrightarrow> t \<in> set ts \<and> ready_to_run w k t \<and> current_priority (threads k t) < b"
  by (auto simp: first_best_def)

lemma first_best_le:
  assumes "first_best w k ts b t" "u \<in> set ts" "ready_to_run w k u"
  shows "current_priority (threads k t) \<le> current_priority (threads k u)"
proof -
  obtain xs ys where "ts = xs @ t # ys"
    "\<forall>u \<in> set xs. ready_to_run w k u \<longrightarrow> current_priority (threads k t) < current_priority (threads k u)"
    "\<forall>u \<in> set ys. ready_to_run w k u \<longrightarrow> current_priority (threads k t) \<le> current_priority (threads k u)"
    using assms(1) by (auto simp: first_best_def)
  then show ?thesis
    using assms(2,3) by (auto intro: less_imp_le)
qed

lemma highest_loop_spec:
  assumes "\<And>t. t \<in> set ts \<Longrightarrow> waits_synch (status (threads k t))"
  shows "\<exists>r. highest_loop w k ts cand b = Some r \<and>
    (r = cand \<and> (\<forall>t \<in> set ts. ready_to_run w k t \<longrightarrow> b \<le> current_priority (threads k t)) \<or>
     (\<exists>t. r = Some t \<and> first_best w k ts b t))"
  using assms
proof (induction ts arbitrary: cand b)
  case Nil
  then show ?case by simp
next
  case (Cons a ts)
  let ?pa = "current_priority (threads k a)"
  have st: "waits_synch (status (threads k a))" and rest: "\<And>t. t \<in> set ts \<Longrightarrow> waits_synch (status (threads k t))"
    using Cons.prems by auto
  show ?case
  proof (cases "?pa < b \<and> ready_to_run w k a")
    case False
    then have e: "highest_loop w k (a # ts) cand b = highest_loop w k ts cand b"
      and na: "ready_to_run w k a \<longrightarrow> b \<le> ?pa"
      using st by (auto simp: waits_synch_def)
    have "first_best w k (a # ts) b t" if "first_best w k ts b t" for t
      using first_best_Cons [OF that order_refl] first_best_less [OF that] na by auto
    then show ?thesis
      using Cons.IH [OF rest, of cand b] na unfolding e by auto
  next
    case True
    then have e: "highest_loop w k (a # ts) cand b = highest_loop w k ts (Some a) ?pa"
      using st by (auto simp: waits_synch_def)
    have "first_best w k (a # ts) b t" if "first_best w k ts ?pa t" for t
      using first_best_Cons [OF that, of b a] first_best_less [OF that] True by simp
    moreover have "first_best w k (a # ts) b a"
      if "\<forall>t \<in> set ts. ready_to_run w k t \<longrightarrow> ?pa \<le> current_priority (threads k t)"
      using True first_best_hd [of w k a b ts] that by blast
    ultimately show ?thesis
      using Cons.IH [OF rest, of "Some a" ?pa] unfolding e by blast
  qed
qed

lemma waits_synch_waiting:
  assumes "wait_inv k" "t \<in> set (waiting_threads k w)"
  shows "t < num_threads k" "w \<in> set (wait_objects (threads k t))" "waits_synch (status (threads k t))"
proof -
  show t: "t < num_threads k"
    using wait_invD(2) [OF assms] .
  show o: "w \<in> set (wait_objects (threads k t))"
    using wait_invD(3) [OF assms(1) t] assms(2) by simp
  then have "wait_objects (threads k t) \<noteq> []"
    by auto
  then show "waits_synch (status (threads k t))"
    by (rule wait_invD(4) [OF assms(1) t])
qed

lemma Highest_spec:
  assumes "kinv k"
  shows "(GetHighestPriorityReadyThread w k = Some None \<and> (\<forall>t \<in> set (waiting_threads k w). \<not> ready_to_run w k t)) \<or>
    (\<exists>t. GetHighestPriorityReadyThread w k = Some (Some t) \<and> first_best w k (waiting_threads k w) 64 t)"
proof -
  have "current_priority (threads k t) < 64" if "t \<in> set (waiting_threads k w)" for t
    using sched_invD(2) [OF kinvD(1) [OF assms]] waits_synch_waiting(1) [OF kinvD(3) [OF assms] that]
    by (simp add: thread_ok_def)
  then show ?thesis
    using highest_loop_spec [of "waiting_threads k w" k w None 64] waits_synch_waiting(3) [OF kinvD(3) [OF assms]]
    by (fastforce simp: GetHighestPriorityReadyThread_def prio_defs)
qed


section \<open>Waking\<close>

text \<open>
  Waking has room if no lock count overflows, and no waiting thread receives a request, whose translation
  may trip assertions; only waking a session whose client end is open makes threads receive.
\<close>

definition receives :: "wait_ref \<Rightarrow> kernel \<Rightarrow> bool" where
  "receives w k \<longleftrightarrow> (\<exists>s. w = WServerSession s \<and> client_open s k) \<and>
     (\<exists>t \<in> set (waiting_threads k w). wakeup_callback (threads k t) = Some SVC_IPCCallback)"

lemma receives_plain [simp]:
  "\<not> receives (WThread i) k" "\<not> receives (WMutex i) k" "\<not> receives (WSemaphore i) k" "\<not> receives (WEvent i) k"
  "\<not> receives (WTimer i) k" "\<not> receives (WServerPort i) k"
  by (simp_all add: receives_def)

definition lock_room :: "wait_ref \<Rightarrow> kernel \<Rightarrow> bool" where
  "lock_room w k \<longleftrightarrow> \<not> receives w k \<and> (\<forall>m. lock_count (mutexes k m) +
     int (sum_list (map (\<lambda>t. length (wait_objects (threads k t))) (waiting_threads k w))) < 2 ^ 31)"

text \<open>The callback of a wait only writes the registers of the thread.\<close>

lemma kinv_upd_context:
  assumes "kinv k"
  shows "kinv (upd_thread t (\<lambda>th. th\<lparr>thread_context := f th\<rparr>) k)"
  unfolding kinv_def
proof (intro conjI)
  show "sched_inv (upd_thread t (\<lambda>th. th\<lparr>thread_context := f th\<rparr>) k)"
    using kinvD(1) [OF assms] by (intro sched_inv_upd_thread) simp_all
  show "mutex_inv (upd_thread t (\<lambda>th. th\<lparr>thread_context := f th\<rparr>) k)"
    using kinvD(2) [OF assms] by (rule mutex_inv_cong) simp_all
  show "wait_inv (upd_thread t (\<lambda>th. th\<lparr>thread_context := f th\<rparr>) k)"
    using kinvD(3) [OF assms] by (rule wait_inv_cong) (simp_all add: fun_eq_iff)
qed

lemma wait_frame_upd_context: "wait_frame 0 k (upd_thread t (\<lambda>th. th\<lparr>thread_context := f th\<rparr>) k)"
  by (simp add: wait_frame_def same_links_def)

lemma callback_results:
  assumes inv: "kinv k" and ne: "wait_objects (threads k t) \<noteq> []"
  shows "\<exists>i. GetWaitObjectIndex t w (SetWaitSynchronizationResult t r k) = Some i \<and>
    kinv (SetWaitSynchronizationResult t r k) \<and> wait_frame 0 k (SetWaitSynchronizationResult t r k) \<and>
    kinv (SetWaitSynchronizationOutput t i (SetWaitSynchronizationResult t r k)) \<and>
    wait_frame 0 k (SetWaitSynchronizationOutput t i (SetWaitSynchronizationResult t r k))"
proof -
  let ?k1 = "SetWaitSynchronizationResult t r k"
  have k1: "kinv ?k1" "wait_frame 0 k ?k1"
    unfolding SetWaitSynchronizationResult_def using inv by (rule kinv_upd_context) (rule wait_frame_upd_context)
  obtain i where i: "GetWaitObjectIndex t w ?k1 = Some i"
    using ne by (simp add: GetWaitObjectIndex_def SetWaitSynchronizationResult_def Let_def)
  have "kinv (SetWaitSynchronizationOutput t i ?k1)" "wait_frame 0 ?k1 (SetWaitSynchronizationOutput t i ?k1)"
    unfolding SetWaitSynchronizationOutput_def using k1(1) by (rule kinv_upd_context) (rule wait_frame_upd_context)
  then show ?thesis
    using i k1 wait_frame_trans [OF k1(2)] by fastforce
qed

lemma run_wakeup_callback_step:
  assumes inv: "kinv k" and t: "t < num_threads k" and w: "w \<in> set (wait_objects (threads k t))"
    and plain: "\<And>s. w = WServerSession s \<Longrightarrow> client_open s k \<Longrightarrow> wakeup_callback (threads k t) \<noteq> Some SVC_IPCCallback"
  shows "\<exists>k'. run_wakeup_callback Signal t (Some w) k = Some k' \<and> kinv k' \<and> wait_frame 0 k k'"
proof (cases "wakeup_callback (threads k t)")
  case None
  then show ?thesis using inv by (simp add: run_wakeup_callback_def)
next
  case (Some cb)
  have ne: "wait_objects (threads k t) \<noteq> []" using w by auto
  have ok: "callback_ok (status (threads k t)) (Some cb)"
    using wait_invD(5) [OF kinvD(3) [OF inv] t ne] Some by simp
  show ?thesis
  proof (cases cb)
    case (SVC_SyncCallback d)
    then show ?thesis using Some callback_results [OF inv ne, of w ResultSuccess] by (cases d) (auto simp: run_wakeup_callback_def Let_def)
  next
    case SVC_IPCCallback
    have closed: "receive_from (WServerSession s) t k = Some (ResultSessionClosed, k)" if "\<not> client_open s k" for s
      using that by (simp add: receive_from_def ReceiveIPCRequest_def client_open_def)
    obtain r where "receive_from w t k = Some (r, k)"
    proof (cases w)
      case (WServerSession s)
      then have "\<not> client_open s k" using plain Some SVC_IPCCallback by blast
      then show ?thesis using closed WServerSession that by blast
    qed (use that in \<open>simp_all add: receive_from_def\<close>)
    then show ?thesis using Some SVC_IPCCallback ok callback_results [OF inv ne, of w r] by (auto simp: run_wakeup_callback_def)
  next
    case (ArbiterCallback a)
    then show ?thesis using ok by simp
  qed
qed

lemma make_ready_kinv:
  assumes inv: "kinv k" and t: "t < num_threads k" and "can_resume (status (threads k t))"
    and e: "wait_objects (threads k t) = []"
  shows "kinv (make_ready t k)"
  unfolding kinv_def
proof (intro conjI)
  show "sched_inv (make_ready t k)"
    using make_ready_inv [OF kinvD(1) [OF inv] t assms(3)] .
  show "mutex_inv (make_ready t k)"
    using kinvD(2) [OF inv] by (rule mutex_inv_cong) (simp_all add: make_ready_threads)
  note wi = wait_invD [OF kinvD(3) [OF inv]]
  show "wait_inv (make_ready t k)"
  proof (rule wait_invI)
    fix w u
    show "distinct (waiting_threads (make_ready t k) w)" using wi(1) by simp
    show "u \<in> set (waiting_threads (make_ready t k) w) \<Longrightarrow> u < num_threads (make_ready t k)"
      using wi(2) by simp
    show "u < num_threads (make_ready t k) \<Longrightarrow>
        u \<in> set (waiting_threads (make_ready t k) w) \<longleftrightarrow> w \<in> set (wait_objects (threads (make_ready t k) u))"
      using wi(3) [of u w] by (simp add: make_ready_threads)
  next
    fix u assume "u < num_threads (make_ready t k)" "wait_objects (threads (make_ready t k) u) \<noteq> []"
    then show "waits_synch (status (threads (make_ready t k) u)) \<and>
        callback_ok (status (threads (make_ready t k) u)) (wakeup_callback (threads (make_ready t k) u))"
      using wi(4,5) [of u] e by (simp add: make_ready_threads split: if_splits)
  next
    fix u assume "u < num_threads (make_ready t k)" "status (threads (make_ready t k) u) = WaitSynchAll"
    then show "distinct (wait_objects (threads (make_ready t k) u))"
      using wi(6) [of u] by (simp add: make_ready_threads split: if_splits)
  qed
qed


lemma wait_frameD:
  assumes "wait_frame n k k'"
  shows "num_threads k' = num_threads k" "waiting_threads k' = waiting_threads k"
    "status (threads k' u) = status (threads k u)" "wait_objects (threads k' u) = wait_objects (threads k u)"
    "wakeup_callback (threads k' u) = wakeup_callback (threads k u)"
    "lock_count (mutexes k' m) \<le> lock_count (mutexes k m) + int n" "same_links k k'"
  using assms unfolding wait_frame_def by blast+

lemma sum_waiting_remove:
  "distinct ts \<Longrightarrow> t \<in> set ts \<Longrightarrow> sum_list (map f ts) = f t + sum_list (map f (removeAll t ts))"
  for f :: "nat \<Rightarrow> nat"
  by (metis sum_list_map_remove1 distinct_remove1_removeAll)

lemma wake_one_step:
  assumes inv: "kinv k" and w: "t \<in> set (waiting_threads k w)" and ready: "ready_to_run w k t"
    and room: "lock_room w k"
  shows "\<exists>k'. wake_one w t k = Some k' \<and> kinv k' \<and> lock_room w k' \<and>
    waiting_threads k' w = removeAll t (waiting_threads k w) \<and> status (threads k' t) = Ready \<and>
    num_threads k' = num_threads k \<and> (\<forall>u. u \<noteq> t \<longrightarrow> status (threads k' u) = status (threads k u))"
proof -
  note wt = waits_synch_waiting [OF kinvD(3) [OF inv] w]
  let ?n = "length (wait_objects (threads k t))"
  have ne: "wait_objects (threads k t) \<noteq> []" using wt(2) by auto
  have sum: "sum_list (map (\<lambda>t. length (wait_objects (threads k t))) (waiting_threads k w)) =
      ?n + sum_list (map (\<lambda>t. length (wait_objects (threads k t))) (removeAll t (waiting_threads k w)))"
    by (rule sum_waiting_remove [OF wait_invD(1) [OF kinvD(3) [OF inv]] w])
  have lr: "lock_count (mutexes k m) + int ?n < 2 ^ 31" for m
    using room sum unfolding lock_room_def by (smt (verit) of_nat_add of_nat_0_le_iff)
  have n1: "1 \<le> ?n" using ne by (cases "wait_objects (threads k t)") auto
  have "\<exists>k1. (if status (threads k t) \<noteq> WaitSynchAll then Acquire w t k
           else fold_opt (\<lambda>ob. Acquire ob t) (wait_objects (threads k t)) k) = Some k1 \<and>
           kinv k1 \<and> wait_frame ?n k k1"
  proof (cases "status (threads k t) = WaitSynchAll")
    case True
    then show ?thesis
      using Acquire_all [OF inv wt(1) wait_invD(6) [OF kinvD(3) [OF inv] wt(1) True] _ lr] ready
      by (simp add: ready_to_run_def)
  next
    case False
    have "lock_count (mutexes k m) < 2 ^ 31 - 1" for m
      using lr [of m] n1 by linarith
    then obtain k1 where "Acquire w t k = Some k1" "kinv k1" "acq_frame w k k1"
      using Acquire_step [OF inv wt(1), of w] ready by (auto simp: ready_to_run_def)
    moreover from this(1,3) have "wait_frame ?n k k1"
      using wait_frame_mono [OF acq_wait_frame n1] Acquire_links by simp
    ultimately show ?thesis using False by auto
  qed
  then obtain k1 where k1: "(if status (threads k t) \<noteq> WaitSynchAll then Acquire w t k
      else fold_opt (\<lambda>ob. Acquire ob t) (wait_objects (threads k t)) k) = Some k1" "kinv k1" "wait_frame ?n k k1"
    by blast
  note f1 = wait_frameD [OF k1(3)]
  obtain k2 where k2: "run_wakeup_callback Signal t (Some w) k1 = Some k2" "kinv k2" "wait_frame 0 k1 k2"
    using run_wakeup_callback_step [OF k1(2), of t w] wt f1 room w same_links_open [OF f1(7)]
    by (auto simp: lock_room_def receives_def)
  note f2 = wait_frameD [OF k2(3)]
  have t2: "t < num_threads k2" using wt(1) f1 f2 by simp
  note lw = leave_waits_step [OF k2(2) t2]
  have can: "can_resume (status (threads (leave_waits t k2) t))"
    using wt(3) by (auto simp: lw f1 f2 waits_synch_def can_resume_def)
  let ?k3 = "make_ready t (leave_waits t k2)"
  have e: "wake_one w t k = Some ?k3"
    using k1(1) k2(1) can lw(2) by (simp add: wake_one_def ResumeFromWait_cases)
  have "kinv ?k3"
    using make_ready_kinv [OF lw(1) _ can lw(2)] t2 lw(4) by simp
  moreover have wait: "waiting_threads ?k3 w = removeAll t (waiting_threads k w)"
    by (simp add: lw f1 f2)
  moreover have "lock_room w ?k3"
  proof -
    have "map (\<lambda>u. length (wait_objects (threads ?k3 u))) (removeAll t (waiting_threads k w)) =
          map (\<lambda>u. length (wait_objects (threads k u))) (removeAll t (waiting_threads k w))"
      by (rule map_cong) (auto simp: make_ready_threads lw f1 f2)
    moreover have "lock_count (mutexes ?k3 m) \<le> lock_count (mutexes k m) + int ?n" for m
      using f1(6) [of m] f2(6) [of m] by (simp add: lw)
    moreover have "same_links k2 ?k3"
      using same_env_links lw(9) by (simp add: leave_frame_def same_links_def leave_waits_def same_env_def)
    then have "same_links k ?k3" using f1(7) f2(7) same_links_trans by blast
    then have "\<not> receives w ?k3"
      using room by (auto simp: lock_room_def receives_def wait make_ready_threads lw f1 f2 same_links_open split: if_splits)
    ultimately show ?thesis
      using room sum unfolding lock_room_def wait by (smt (verit) of_nat_add)
  qed
  ultimately show ?thesis
    using e by (simp add: make_ready_threads lw f1 f2)
qed

lemma wake_loop_step:
  assumes "kinv k" "lock_room w k" "length (waiting_threads k w) < n"
  shows "\<exists>k'. wake_loop n w k = Some k' \<and> kinv k' \<and> (\<forall>t \<in> set (waiting_threads k' w). \<not> ready_to_run w k' t) \<and>
    num_threads k' = num_threads k \<and> set (waiting_threads k' w) \<subseteq> set (waiting_threads k w) \<and>
    (\<forall>u. status (threads k' u) = (if u \<in> set (waiting_threads k w) - set (waiting_threads k' w) then Ready
                                 else status (threads k u)))"
  using assms
proof (induction n arbitrary: k)
  case 0
  then show ?case by simp
next
  case (Suc n)
  from Highest_spec [OF Suc.prems(1), of w] show ?case
  proof
    assume "GetHighestPriorityReadyThread w k = Some None \<and> (\<forall>t \<in> set (waiting_threads k w). \<not> ready_to_run w k t)"
    then show ?case using Suc.prems(1) by simp
  next
    assume "\<exists>t. GetHighestPriorityReadyThread w k = Some (Some t) \<and> first_best w k (waiting_threads k w) 64 t"
    then obtain t where t: "GetHighestPriorityReadyThread w k = Some (Some t)" "t \<in> set (waiting_threads k w)"
      "ready_to_run w k t"
      using first_best_less by blast
    obtain k1 where k1: "wake_one w t k = Some k1" "kinv k1" "lock_room w k1"
      "waiting_threads k1 w = removeAll t (waiting_threads k w)" "status (threads k1 t) = Ready"
      "num_threads k1 = num_threads k" "\<forall>u. u \<noteq> t \<longrightarrow> status (threads k1 u) = status (threads k u)"
      using wake_one_step [OF Suc.prems(1) t(2,3) Suc.prems(2)] by blast
    have "length (waiting_threads k1 w) < n"
      using Suc.prems(3) length_removeAll_less [OF t(2)] k1(4) by simp
    from Suc.IH [OF k1(2,3) this] obtain k' where k': "wake_loop n w k1 = Some k'" "kinv k'"
      "\<forall>t \<in> set (waiting_threads k' w). \<not> ready_to_run w k' t" "num_threads k' = num_threads k1"
      "set (waiting_threads k' w) \<subseteq> set (waiting_threads k1 w)"
      "\<forall>u. status (threads k' u) = (if u \<in> set (waiting_threads k1 w) - set (waiting_threads k' w) then Ready
                                   else status (threads k1 u))"
      by blast
    have "t \<notin> set (waiting_threads k' w)"
      using k'(5) k1(4) by auto
    then have "status (threads k' u) = (if u \<in> set (waiting_threads k w) - set (waiting_threads k' w) then Ready
        else status (threads k u))" for u
      using k'(6) k1(4,5,7) t(2) by (cases "u = t") auto
    then show ?case
      using t(1) k1 k' by auto
  qed
qed


lemma kinv_notified [simp]: "kinv (k\<lparr>hle_notified := xs\<rparr>) = kinv k"
  using kinv_cong_objects [of k "k\<lparr>hle_notified := xs\<rparr>"]
    kinv_cong_objects [of "k\<lparr>hle_notified := xs\<rparr>" k] by auto

lemma ready_notified [simp]: "ready_to_run w (k\<lparr>hle_notified := xs\<rparr>) t = ready_to_run w k t"
proof -
  have "ShouldWait ob u (k\<lparr>hle_notified := xs\<rparr>) = ShouldWait ob u k" for ob u
    by (cases ob) auto
  then show ?thesis by (simp add: ready_to_run_def)
qed

definition woken :: "wait_ref \<Rightarrow> kernel \<Rightarrow> kernel \<Rightarrow> nat set" where
  "woken w k k' = set (waiting_threads k w) - set (waiting_threads k' w)"



text \<open>The thread of \<open>demo_kernel\<close> waits on an event.\<close>

definition demo_wait :: kernel where
  "demo_wait = upd_thread 0 (\<lambda>th. th\<lparr>status := WaitSynchAny, wait_objects := [WEvent 0],
                                   wakeup_callback := Some (SVC_SyncCallback True)\<rparr>)
     (set_waiting (WEvent 0) (\<lambda>_. [0]) demo_kernel)"

lemma demo_kernel_stores [simp]:
  "waiting_threads demo_kernel = (\<lambda>_. [])"
  "lock_count (mutexes demo_kernel m) = 0" "holding_thread (mutexes demo_kernel m) = None"
  "event_reset_type (events demo_kernel e) = OneShot" "event_signaled (events demo_kernel e) = False"
  by (simp_all add: demo_kernel_def new_KernelSystem_def)

lemma demo_wait_simps [simp]:
  "num_threads demo_wait = 1" "waiting_threads demo_wait w = (if w = WEvent 0 then [0] else [])"
  "status (threads demo_wait 0) = WaitSynchAny" "wait_objects (threads demo_wait 0) = [WEvent 0]"
  "lock_count (mutexes demo_wait m) = 0" "event_reset_type (events demo_wait e) = OneShot"
  "event_signaled (events demo_wait e) = False"
  by (simp_all add: demo_wait_def)

lemma demo_wait_inv: "kinv demo_wait"
  unfolding kinv_def
proof (intro conjI)
  have "sched_inv (set_waiting (WEvent 0) (\<lambda>_. [0]) demo_kernel)"
    using demo_kernel_inv by (subst sched_inv_same [of _ demo_kernel]) simp_all
  then show "sched_inv demo_wait"
    unfolding demo_wait_def by (rule sched_inv_upd_thread) (simp_all add: blank_thread_def)
  show "mutex_inv demo_wait"
    by (rule mutex_invI) (simp_all add: demo_wait_def blank_thread_def)
  show "wait_inv demo_wait"
    by (rule wait_invI) (auto simp: demo_wait_def waits_synch_def split: if_splits)
qed

lemma demo_wait_room: "lock_room w demo_wait"
  by (auto simp: lock_room_def receives_def)




section \<open>Effects on the objects\<close>

lemma Acquire_events:
  "Acquire w t k = Some k' \<Longrightarrow> events k' e =
     (if w = WEvent e \<and> event_reset_type (events k e) = OneShot
      then (events k e)\<lparr>event_signaled := False\<rparr> else events k e)"
  by (cases w) (auto simp: Thread_Acquire_def Mutex_Acquire_def Semaphore_Acquire_def Event_Acquire_def
      Timer_Acquire_def ServerPort_Acquire_def ServerSession_Acquire_def Let_def split: if_splits)

lemma Acquire_semaphores:
  "Acquire w t k = Some k' \<Longrightarrow> semaphores k' s =
     (if w = WSemaphore s \<and> 0 < available_count (semaphores k s)
      then (semaphores k s)\<lparr>available_count := available_count (semaphores k s) - 1\<rparr> else semaphores k s)"
  by (cases w) (auto simp: Thread_Acquire_def Mutex_Acquire_def Semaphore_Acquire_def Event_Acquire_def
      Timer_Acquire_def ServerPort_Acquire_def ServerSession_Acquire_def Let_def split: if_splits)

lemma Acquire_all_events:
  "fold_opt (\<lambda>ob. Acquire ob t) ws k = Some k' \<Longrightarrow> events k' e =
     (if WEvent e \<in> set ws \<and> event_reset_type (events k e) = OneShot
      then (events k e)\<lparr>event_signaled := False\<rparr> else events k e)"
proof (induction ws arbitrary: k)
  case Nil
  then show ?case by simp
next
  case (Cons w ws)
  then obtain k1 where k1: "Acquire w t k = Some k1" "fold_opt (\<lambda>ob. Acquire ob t) ws k1 = Some k'"
    by (auto split: bind_splits)
  show ?case
    using Cons.IH [OF k1(2)] Acquire_events [OF k1(1), of e] by auto
qed

lemma receive_objects:
  assumes "receive_from w t k = Some (r, k')"
  shows "events k' = events k" "semaphores k' = semaphores k" "mutexes k' = mutexes k" "ktimers k' = ktimers k"
    "threads k' = threads k" "arbiters k' = arbiters k" "waiting_threads k' = waiting_threads k"
proof -
  have "k' = k \<or> (\<exists>s f k1. k' = upd_server_session s f k1 \<and> ipc_frame k k1)"
    using assms by (auto simp: receive_from_def ReceiveIPCRequest_def bind_eq_Some_conv dest: TranslateCommandBuffer_frame
        split: wait_ref.splits if_splits)
  then show "events k' = events k" "semaphores k' = semaphores k" "mutexes k' = mutexes k" "ktimers k' = ktimers k"
    "threads k' = threads k" "arbiters k' = arbiters k" "waiting_threads k' = waiting_threads k"
    by (auto simp: ipc_frame_fields)
qed

lemma callback_frame:
  assumes "run_wakeup_callback reason t ob k = Some k'"
  shows "events k' = events k" "semaphores k' = semaphores k" "mutexes k' = mutexes k" "ktimers k' = ktimers k"
proof -
  have "events k' = events k \<and> semaphores k' = semaphores k \<and> mutexes k' = mutexes k \<and> ktimers k' = ktimers k"
    using assms unfolding run_wakeup_callback_def
    by (auto simp: SetWaitSynchronizationResult_def SetWaitSynchronizationOutput_def Let_def upd_arbiter_def receive_objects
        split: option.splits bind_splits if_splits elim!: WakeUp.elims)
  then show "events k' = events k" "semaphores k' = semaphores k" "mutexes k' = mutexes k" "ktimers k' = ktimers k"
    by auto
qed

lemma Remove_objects:
  "events (RemoveWaitingThread w t k) = events k" "semaphores (RemoveWaitingThread w t k) = semaphores k"
  "lock_count (mutexes (RemoveWaitingThread w t k) m) = lock_count (mutexes k m)"
  "holding_thread (mutexes (RemoveWaitingThread w t k) m) = holding_thread (mutexes k m)"
  unfolding RemoveWaitingThread_def WaitObject_RemoveWaitingThread_def
  by (cases w; simp add: prio_frame_fields [OF prio_frame_Mutex_Update])+

lemma leave_waits_objects:
  "events (leave_waits t k) = events k" "semaphores (leave_waits t k) = semaphores k"
  "lock_count (mutexes (leave_waits t k) m) = lock_count (mutexes k m)"
  "holding_thread (mutexes (leave_waits t k) m) = holding_thread (mutexes k m)"
proof -
  have "events (fold (\<lambda>ob. RemoveWaitingThread ob t) ws k) = events k \<and>
    semaphores (fold (\<lambda>ob. RemoveWaitingThread ob t) ws k) = semaphores k \<and>
    lock_count (mutexes (fold (\<lambda>ob. RemoveWaitingThread ob t) ws k) m) = lock_count (mutexes k m) \<and>
    holding_thread (mutexes (fold (\<lambda>ob. RemoveWaitingThread ob t) ws k) m) = holding_thread (mutexes k m)" for ws
    by (induction ws arbitrary: k) (simp_all add: Remove_objects)
  then show "events (leave_waits t k) = events k" "semaphores (leave_waits t k) = semaphores k"
    "lock_count (mutexes (leave_waits t k) m) = lock_count (mutexes k m)"
    "holding_thread (mutexes (leave_waits t k) m) = holding_thread (mutexes k m)"
    by (simp_all add: leave_waits_def)
qed

lemma Resume_objects:
  assumes "ResumeFromWait t k = Some k'"
  shows "events k' = events k" "semaphores k' = semaphores k" "mutexes k' = mutexes k"
  using assms by (auto simp: ResumeFromWait_cases split: if_splits)

text \<open>What one iteration does to events.\<close>

lemma wake_one_events:
  assumes "wake_one w t k = Some k'" and "w \<in> set (wait_objects (threads k t))"
  shows "event_reset_type (events k' e) = event_reset_type (events k e)"
    "event_reset_type (events k e) \<noteq> OneShot \<Longrightarrow> events k' e = events k e"
    "w = WEvent e \<Longrightarrow> event_reset_type (events k e) = OneShot \<Longrightarrow> \<not> event_signaled (events k' e)"
proof -
  obtain k1 k2 where k1: "(if status (threads k t) \<noteq> WaitSynchAll then Acquire w t k
      else fold_opt (\<lambda>ob. Acquire ob t) (wait_objects (threads k t)) k) = Some k1"
    and k2: "run_wakeup_callback Signal t (Some w) k1 = Some k2" "ResumeFromWait t (leave_waits t k2) = Some k'"
    using assms(1) by (auto simp: wake_one_def split: bind_splits)
  have e: "events k' = events k1"
    using Resume_objects(1) [OF k2(2)] callback_frame(1) [OF k2(1)] by (simp add: leave_waits_objects)
  show "event_reset_type (events k' e) = event_reset_type (events k e)"
    "event_reset_type (events k e) \<noteq> OneShot \<Longrightarrow> events k' e = events k e"
    "w = WEvent e \<Longrightarrow> event_reset_type (events k e) = OneShot \<Longrightarrow> \<not> event_signaled (events k' e)"
    using k1 assms(2) Acquire_events [of w t k k1 e] Acquire_all_events [of t "wait_objects (threads k t)" k k1 e]
    unfolding e by (auto split: if_splits)
qed


lemma loop_stops:
  assumes "kinv k" "\<forall>t \<in> set (waiting_threads k w). \<not> ready_to_run w k t"
  shows "wake_loop (Suc n) w k = Some k"
  using Highest_spec [OF assms(1), of w] assms(2) first_best_less by fastforce

lemma wake_loop_event:
  assumes "kinv k" "lock_room (WEvent e) k" "wake_loop n (WEvent e) k = Some k'"
  shows "event_reset_type (events k' e) = event_reset_type (events k e) \<and>
    (event_reset_type (events k e) \<noteq> OneShot \<longrightarrow> events k' e = events k e) \<and>
    (event_reset_type (events k e) = OneShot \<longrightarrow>
       woken (WEvent e) k k' = {} \<and> events k' e = events k e \<or>
       (\<exists>t. woken (WEvent e) k k' = {t} \<and> \<not> event_signaled (events k' e)))"
  using assms
proof (induction n arbitrary: k)
  case 0
  then show ?case by simp
next
  case (Suc n)
  from Highest_spec [OF Suc.prems(1), of "WEvent e"] show ?case
  proof
    assume "GetHighestPriorityReadyThread (WEvent e) k = Some None \<and>
      (\<forall>t \<in> set (waiting_threads k (WEvent e)). \<not> ready_to_run (WEvent e) k t)"
    then show ?case using Suc.prems(3) by (auto simp: woken_def)
  next
    assume "\<exists>t. GetHighestPriorityReadyThread (WEvent e) k = Some (Some t) \<and>
      first_best (WEvent e) k (waiting_threads k (WEvent e)) 64 t"
    then obtain t where t: "GetHighestPriorityReadyThread (WEvent e) k = Some (Some t)"
      "t \<in> set (waiting_threads k (WEvent e))" "ready_to_run (WEvent e) k t"
      using first_best_less by blast
    obtain k1 where k1: "wake_one (WEvent e) t k = Some k1" "kinv k1" "lock_room (WEvent e) k1"
      "waiting_threads k1 (WEvent e) = removeAll t (waiting_threads k (WEvent e))"
      using wake_one_step [OF Suc.prems(1) t(2,3) Suc.prems(2)] by blast
    have loop: "wake_loop n (WEvent e) k1 = Some k'"
      using Suc.prems(3) t(1) k1(1) by simp
    note ev = wake_one_events [OF k1(1) waits_synch_waiting(2) [OF kinvD(3) [OF Suc.prems(1)] t(2)], of e]
    show ?case
    proof (cases "event_reset_type (events k e) = OneShot")
      case False
      then show ?thesis
        using Suc.IH [OF k1(2,3) loop] ev by simp
    next
      case True
      then have "\<forall>u \<in> set (waiting_threads k1 (WEvent e)). \<not> ready_to_run (WEvent e) k1 u"
        using ev(3) by (simp add: ready_to_run_def)
      then have "k' = k1"
        using loop_stops [OF k1(2)] loop by (cases n) auto
      then have "woken (WEvent e) k k' = {t}"
        using k1(4) t(2) by (auto simp: woken_def)
      then show ?thesis
        using True ev \<open>k' = k1\<close> by simp
    qed
  qed
qed

text \<open>Signalling an event.  \<^verbatim>\<open>Event::Signal\<close> returns and keeps the invariants.  A one-shot event wakes at most one
  thread, and is left signalled exactly if it woke none.  A sticky event stays signalled, a pulse is
  cleared at the end, and both wake every thread in the list that does not wait for further objects.\<close>

theorem event_signal_semantics:
  assumes "kinv k" and "lock_room (WEvent e) k"
  shows "\<exists>k'. Event_Signal e k = Some k' \<and> kinv k' \<and>
    (case event_reset_type (events k e) of
       OneShot \<Rightarrow> card (woken (WEvent e) k k') \<le> 1 \<and>
                  (event_signaled (events k' e) \<longleftrightarrow> woken (WEvent e) k k' = {})
     | Sticky \<Rightarrow> event_signaled (events k' e)
     | Pulse \<Rightarrow> \<not> event_signaled (events k' e)) \<and>
    (event_reset_type (events k e) \<noteq> OneShot \<longrightarrow>
       (\<forall>t \<in> set (waiting_threads k (WEvent e)). status (threads k t) \<noteq> WaitSynchAll \<longrightarrow>
          t \<in> woken (WEvent e) k k'))"
proof -
  let ?w = "WEvent e" and ?k0 = "upd_event e (\<lambda>x. x\<lparr>event_signaled := True\<rparr>) k"
  have k0: "kinv ?k0" "lock_room ?w ?k0"
    using assms kinv_cong_objects [OF assms(1), of ?k0] by (simp_all add: lock_room_def)
  obtain k1 where k1: "wake_loop (length (waiting_threads ?k0 ?w) + 1) ?w ?k0 = Some k1" "kinv k1"
    "\<forall>t \<in> set (waiting_threads k1 ?w). \<not> ready_to_run ?w k1 t"
    "\<forall>u. status (threads k1 u) = (if u \<in> set (waiting_threads ?k0 ?w) - set (waiting_threads k1 ?w) then Ready
                                 else status (threads ?k0 u))"
    using wake_loop_step [OF k0, of "length (waiting_threads ?k0 ?w) + 1"] by auto
  note ev = wake_loop_event [OF k0 k1(1)]
  let ?k2 = "if hle_notifier k1 ?w then k1\<lparr>hle_notified := hle_notified k1 @ [?w]\<rparr> else k1"
  let ?k' = "if event_reset_type (events k1 e) = Pulse then upd_event e (\<lambda>x. x\<lparr>event_signaled := False\<rparr>) ?k2 else ?k2"
  have r: "event_reset_type (events k1 e) = event_reset_type (events k e)"
    using ev by simp
  have e: "Event_Signal e k = Some ?k'"
    using k1(1) by (simp add: Event_Signal_def WakeupAllWaitingThreads_def WaitObject_WakeupAll_def)
  have "kinv ?k2" using k1(2) by simp
  then have i: "kinv ?k'"
    using kinv_cong_objects [of ?k2 "upd_event e (\<lambda>x. x\<lparr>event_signaled := False\<rparr>) ?k2"] by simp
  have w: "waiting_threads ?k' = waiting_threads k1" by simp
  then have wo: "woken ?w k ?k' = woken ?w ?k0 k1" by (simp add: woken_def)
  have all: "t \<in> woken ?w k ?k'" if "event_reset_type (events k e) \<noteq> OneShot"
    "t \<in> set (waiting_threads k ?w)" "status (threads k t) \<noteq> WaitSynchAll" for t
  proof (rule ccontr)
    assume "t \<notin> woken ?w k ?k'"
    then have "t \<notin> woken ?w ?k0 k1" unfolding wo .
    then have "t \<in> set (waiting_threads k1 ?w)" using that(2) by (simp add: woken_def)
    moreover from this have "status (threads k1 t) = status (threads k t)"
      using k1(4) by simp
    ultimately show False
      using k1(3) that(1,3) ev by (auto simp: ready_to_run_def)
  qed
  have "case event_reset_type (events k e) of
       OneShot \<Rightarrow> card (woken ?w k ?k') \<le> 1 \<and> (event_signaled (events ?k' e) \<longleftrightarrow> woken ?w k ?k' = {})
     | Sticky \<Rightarrow> event_signaled (events ?k' e)
     | Pulse \<Rightarrow> \<not> event_signaled (events ?k' e)"
    unfolding wo using ev r by (auto split: ResetType.splits)
  then show ?thesis
    using e i all by (intro exI [of _ ?k']) blast
qed

theorem event_signal_semantics_witness:
  "kinv demo_wait \<and> lock_room (WEvent 0) demo_wait \<and>
   (\<exists>k'. Event_Signal 0 demo_wait = Some k' \<and> card (woken (WEvent 0) demo_wait k') \<le> 1)"
  using demo_wait_inv demo_wait_room event_signal_semantics [OF demo_wait_inv demo_wait_room, of 0] by auto



section \<open>Mutexes\<close>

lemma Acquire_mutexes:
  "Acquire w t k = Some k' \<Longrightarrow>
     lock_count (mutexes k' m) = (if w = WMutex m then wrap_s32 (lock_count (mutexes k m) + 1) else lock_count (mutexes k m)) \<and>
     holding_thread (mutexes k' m) =
       (if w = WMutex m \<and> lock_count (mutexes k m) = 0 then Some t else holding_thread (mutexes k m))"
  by (cases w) (auto simp: Thread_Acquire_def Mutex_Acquire_def Semaphore_Acquire_def Event_Acquire_def
      Timer_Acquire_def ServerPort_Acquire_def ServerSession_Acquire_def Let_def split: if_splits)

lemma Acquire_all_mutex:
  assumes "fold_opt (\<lambda>ob. Acquire ob t) ws k = Some k'" "distinct ws"
  shows "(WMutex m \<notin> set ws \<longrightarrow> lock_count (mutexes k' m) = lock_count (mutexes k m) \<and>
            holding_thread (mutexes k' m) = holding_thread (mutexes k m)) \<and>
         (WMutex m \<in> set ws \<and> lock_count (mutexes k m) = 0 \<longrightarrow>
            lock_count (mutexes k' m) = 1 \<and> holding_thread (mutexes k' m) = Some t)"
  using assms
proof (induction ws arbitrary: k)
  case Nil
  then show ?case by simp
next
  case (Cons w ws)
  then obtain k1 where k1: "Acquire w t k = Some k1" "fold_opt (\<lambda>ob. Acquire ob t) ws k1 = Some k'"
    by (auto split: bind_splits)
  have "wrap_s32 1 = 1" by (rule wrap_s32_id) (simp add: in_s32_def)
  then show ?case
    using Cons.IH [OF k1(2)] Cons.prems(2) Acquire_mutexes [OF k1(1), of m] by auto
qed

lemma wake_one_mutex:
  assumes "wake_one (WMutex m) t k = Some k'" "WMutex m \<in> set (wait_objects (threads k t))"
    "status (threads k t) = WaitSynchAll \<Longrightarrow> distinct (wait_objects (threads k t))"
    "lock_count (mutexes k m) = 0"
  shows "lock_count (mutexes k' m) = 1" "holding_thread (mutexes k' m) = Some t"
proof -
  obtain k1 k2 where k1: "(if status (threads k t) \<noteq> WaitSynchAll then Acquire (WMutex m) t k
      else fold_opt (\<lambda>ob. Acquire ob t) (wait_objects (threads k t)) k) = Some k1"
    and k2: "run_wakeup_callback Signal t (Some (WMutex m)) k1 = Some k2" "ResumeFromWait t (leave_waits t k2) = Some k'"
    using assms(1) by (auto simp: wake_one_def split: bind_splits)
  have f: "lock_count (mutexes k' m) = lock_count (mutexes k1 m)"
    "holding_thread (mutexes k' m) = holding_thread (mutexes k1 m)"
    using Resume_objects(3) [OF k2(2)] callback_frame(3) [OF k2(1)] by (simp_all add: leave_waits_objects)
  have one: "wrap_s32 1 = 1" by (rule wrap_s32_id) (simp add: in_s32_def)
  have "lock_count (mutexes k1 m) = 1 \<and> holding_thread (mutexes k1 m) = Some t"
  proof (cases "status (threads k t) = WaitSynchAll")
    case True
    then have "fold_opt (\<lambda>ob. Acquire ob t) (wait_objects (threads k t)) k = Some k1"
      using k1 by simp
    from Acquire_all_mutex [OF this assms(3) [OF True], of m] show ?thesis
      using assms(2,4) by blast
  next
    case False
    then have "Acquire (WMutex m) t k = Some k1" using k1 by simp
    from Acquire_mutexes [OF this, of m] show ?thesis
      using assms(4) one by simp
  qed
  then show "lock_count (mutexes k' m) = 1" "holding_thread (mutexes k' m) = Some t"
    using f by auto
qed

text \<open>Waking the waiters of a free mutex hands it to the first of the best, in one iteration, or to nobody.\<close>

definition same_sync :: "kernel \<Rightarrow> kernel \<Rightarrow> bool" where
  "same_sync k k' \<longleftrightarrow> threads k' = threads k \<and> mutexes k' = mutexes k \<and> waiting_threads k' = waiting_threads k"

lemma wake_mutex:
  assumes inv: "kinv k" and room: "lock_room (WMutex m) k" and free: "lock_count (mutexes k m) = 0"
  shows "\<exists>k'. WakeupAllWaitingThreads (WMutex m) k = Some k' \<and> kinv k' \<and>
    ((lock_count (mutexes k' m) = 0 \<and> woken (WMutex m) k k' = {} \<and>
        (\<forall>t \<in> set (waiting_threads k (WMutex m)). \<not> ready_to_run (WMutex m) k t) \<and> same_sync k k') \<or>
     (\<exists>t. first_best (WMutex m) k (waiting_threads k (WMutex m)) 64 t \<and> woken (WMutex m) k k' = {t} \<and>
        lock_count (mutexes k' m) = 1 \<and> holding_thread (mutexes k' m) = Some t \<and>
        (\<exists>k1. wake_one (WMutex m) t k = Some k1 \<and> same_sync k1 k'))) \<and>
    (\<forall>u. status (threads k' u) = (if u \<in> woken (WMutex m) k k' then Ready else status (threads k u)))"
proof -
  let ?w = "WMutex m" and ?n = "length (waiting_threads k (WMutex m)) + 1"
  have fin: "\<exists>k'. WakeupAllWaitingThreads ?w k = Some k' \<and> kinv k' \<and> mutexes k' = mutexes k1 \<and>
      waiting_threads k' = waiting_threads k1 \<and> threads k' = threads k1"
    if "wake_loop ?n ?w k = Some k1" "kinv k1" for k1
    using that by (simp add: WakeupAllWaitingThreads_def WaitObject_WakeupAll_def)
  from Highest_spec [OF inv, of ?w] show ?thesis
  proof
    assume none: "GetHighestPriorityReadyThread ?w k = Some None \<and>
      (\<forall>t \<in> set (waiting_threads k ?w). \<not> ready_to_run ?w k t)"
    then have "wake_loop ?n ?w k = Some k" by simp
    from fin [OF this inv] obtain k' where "WakeupAllWaitingThreads ?w k = Some k'" "kinv k'" "mutexes k' = mutexes k"
      "waiting_threads k' = waiting_threads k" "threads k' = threads k" by blast
    then show ?thesis
      using none free by (auto simp: woken_def same_sync_def)
  next
    assume "\<exists>t. GetHighestPriorityReadyThread ?w k = Some (Some t) \<and> first_best ?w k (waiting_threads k ?w) 64 t"
    then obtain t where t: "GetHighestPriorityReadyThread ?w k = Some (Some t)"
      "first_best ?w k (waiting_threads k ?w) 64 t" by blast
    have tw: "t \<in> set (waiting_threads k ?w)" "ready_to_run ?w k t"
      using first_best_less [OF t(2)] by auto
    obtain k1 where k1: "wake_one ?w t k = Some k1" "kinv k1"
      "waiting_threads k1 ?w = removeAll t (waiting_threads k ?w)" "status (threads k1 t) = Ready"
      "\<forall>u. u \<noteq> t \<longrightarrow> status (threads k1 u) = status (threads k u)"
      using wake_one_step [OF inv tw room] by blast
    note ws = waits_synch_waiting [OF kinvD(3) [OF inv] tw(1)]
    note mu = wake_one_mutex [OF k1(1) ws(2) wait_invD(6) [OF kinvD(3) [OF inv] ws(1)] free]
    have "u \<noteq> t" if "u \<in> set (waiting_threads k1 ?w)" for u
      using that k1(3) by auto
    then have "\<forall>u \<in> set (waiting_threads k1 ?w). \<not> ready_to_run ?w k1 u"
      using mu by (auto simp: ready_to_run_def)
    moreover obtain j where "length (waiting_threads k ?w) = Suc j"
      using tw(1) by (cases "waiting_threads k ?w") auto
    ultimately have "wake_loop ?n ?w k = Some k1"
      using t(1) k1(1) loop_stops [OF k1(2), of ?w j] by simp
    from fin [OF this k1(2)] obtain k' where "WakeupAllWaitingThreads ?w k = Some k'" "kinv k'"
      "mutexes k' = mutexes k1" "waiting_threads k' = waiting_threads k1" "threads k' = threads k1" by blast
    then show ?thesis
      using t(2) mu k1(1,3,4,5) tw(1) by (auto simp: woken_def same_sync_def)
  qed
qed


text \<open>The state in which the last release of a mutex wakes its waiters.\<close>

definition released :: "nat \<Rightarrow> nat \<Rightarrow> kernel \<Rightarrow> kernel" where
  "released m t k = upd_mutex m (\<lambda>mt. mt\<lparr>holding_thread := None\<rparr>)
     (Thread_UpdatePriority t
       (upd_thread t (\<lambda>th. th\<lparr>held_mutexes := flat_erase m (held_mutexes th)\<rparr>)
         (upd_mutex m (\<lambda>mt. mt\<lparr>lock_count := lock_count mt - 1\<rparr>) k)))"

lemma released_step:
  assumes inv: "kinv k" and h: "holding_thread (mutexes k m) = Some t" and one: "lock_count (mutexes k m) = 1"
  shows "kinv (released m t k)" "lock_count (mutexes (released m t k) m) = 0"
    "waiting_threads (released m t k) = waiting_threads k"
    "status (threads (released m t k) u) = status (threads k u)"
    "wait_objects (threads (released m t k) u) = wait_objects (threads k u)"
    "u \<noteq> t \<Longrightarrow> current_priority (threads (released m t k) u) = current_priority (threads k u)"
    "lock_count (mutexes (released m t k) m') \<le> lock_count (mutexes k m')"
proof -
  let ?k1 = "upd_mutex m (\<lambda>mt. mt\<lparr>lock_count := lock_count mt - 1\<rparr>) k"
  let ?k2 = "upd_thread t (\<lambda>th. th\<lparr>held_mutexes := flat_erase m (held_mutexes th)\<rparr>) ?k1"
  let ?k3 = "Thread_UpdatePriority t ?k2"
  note fr = prio_frame_fields [OF prio_frame_Update [of ?k2 t]]
  note mi = mutex_invD [OF kinvD(2) [OF inv]]
  have t: "t < num_threads k" using mi(1) [OF h] .
  have "sched_inv ?k1"
    using kinvD(1) [OF inv] by (subst sched_inv_same [of _ k]) simp_all
  then have "sched_inv ?k2"
    by (rule sched_inv_upd_thread) auto
  then have "sched_inv ?k3"
    using t by (intro UpdatePriority_inv) simp_all
  then have s: "sched_inv (released m t k)"
    unfolding released_def by (subst sched_inv_same [of _ ?k3]) simp_all
  have mu: "mutex_inv (released m t k)"
  proof (rule mutex_invI)
    fix m' h' assume "holding_thread (mutexes (released m t k) m') = Some h'"
    then have "m' \<noteq> m" "holding_thread (mutexes k m') = Some h'"
      by (auto simp: released_def split: if_splits)
    then show "h' < num_threads (released m t k) \<and> m' \<in> set (held_mutexes (threads (released m t k) h'))"
      using mi(1,2) [of m' h'] by (auto simp: released_def fr)
  next
    fix m' u assume u: "u < num_threads (released m t k)" "m' \<in> set (held_mutexes (threads (released m t k) u))"
    then have "m' \<in> set (held_mutexes (threads k u))" "\<not> (m' = m \<and> u = t)"
      by (auto simp: released_def fr split: if_splits)
    moreover from this have "holding_thread (mutexes k m') = Some u"
      using mi(3) [of u m'] u(1) by (simp add: released_def)
    ultimately show "holding_thread (mutexes (released m t k) m') = Some u"
      using h by (auto simp: released_def)
  next
    fix m'
    show "0 \<le> lock_count (mutexes (released m t k) m')"
      using mi(4) [of m'] one by (auto simp: released_def)
    show "lock_count (mutexes (released m t k) m') > 0 \<longleftrightarrow> holding_thread (mutexes (released m t k) m') \<noteq> None"
      using mi(5) [of m'] one by (auto simp: released_def)
  qed
  have "wait_inv (released m t k)"
    using kinvD(3) [OF inv] by (rule wait_inv_cong) (simp_all add: released_def fr)
  then show "kinv (released m t k)"
    using s mu by (simp add: kinv_def)
  show "lock_count (mutexes (released m t k) m) = 0"
    "waiting_threads (released m t k) = waiting_threads k"
    "status (threads (released m t k) u) = status (threads k u)"
    "wait_objects (threads (released m t k) u) = wait_objects (threads k u)"
    "u \<noteq> t \<Longrightarrow> current_priority (threads (released m t k) u) = current_priority (threads k u)"
    "lock_count (mutexes (released m t k) m') \<le> lock_count (mutexes k m')"
    using one by (auto simp: released_def fr UpdatePriority_threads)
qed

lemma released_ShouldWait:
  "ob \<noteq> WMutex m \<Longrightarrow> ShouldWait ob v (released m t k) = ShouldWait ob v k"
  by (cases ob) (simp_all add: released_def prio_frame_fields [OF prio_frame_Update])

text \<open>
  The waiting threads that could run once the mutex is free, and the one among them that gets it: the best priority, and of
  equal ones the first in the list.
\<close>

definition can_take :: "nat \<Rightarrow> kernel \<Rightarrow> nat \<Rightarrow> bool" where
  "can_take m k v \<longleftrightarrow> status (threads k v) = WaitSynchAll \<longrightarrow>
     (\<forall>ob \<in> set (wait_objects (threads k v)). ob = WMutex m \<or> \<not> ShouldWait ob v k)"

definition next_owner :: "nat \<Rightarrow> kernel \<Rightarrow> nat \<Rightarrow> bool" where
  "next_owner m k u \<longleftrightarrow> (\<exists>xs ys. waiting_threads k (WMutex m) = xs @ u # ys \<and> can_take m k u \<and>
     (\<forall>v \<in> set xs. can_take m k v \<longrightarrow> current_priority (threads k u) < current_priority (threads k v)) \<and>
     (\<forall>v \<in> set ys. can_take m k v \<longrightarrow> current_priority (threads k u) \<le> current_priority (threads k v)))"

lemma released_ready:
  assumes "lock_count (mutexes (released m t k) m) = 0" "status (threads (released m t k) v) = status (threads k v)"
    "wait_objects (threads (released m t k) v) = wait_objects (threads k v)"
  shows "ready_to_run (WMutex m) (released m t k) v = can_take m k v"
proof -
  have "\<not> ShouldWait (WMutex m) v (released m t k)" using assms(1) by simp
  then have "ShouldWait ob v (released m t k) \<longleftrightarrow> ob \<noteq> WMutex m \<and> ShouldWait ob v k" for ob
    using released_ShouldWait [of ob m v t k] by (cases "ob = WMutex m") auto
  then show ?thesis
    using assms by (auto simp: ready_to_run_def can_take_def list_all_iff)
qed

lemma released_room:
  assumes "kinv k" "lock_room (WMutex m) k" "holding_thread (mutexes k m) = Some t" "lock_count (mutexes k m) = 1"
  shows "lock_room (WMutex m) (released m t k)"
  unfolding lock_room_def
proof (intro conjI allI)
  let ?r = "released m t k"
  note rs = released_step [OF assms(1,3,4)]
  show "\<not> receives (WMutex m) ?r" by simp
  fix m'
  show "lock_count (mutexes ?r m') +
      int (sum_list (map (\<lambda>t. length (wait_objects (threads ?r t))) (waiting_threads ?r (WMutex m)))) < 2 ^ 31"
    using assms(2) rs(3,5) rs(7) [of m'] by (auto simp: lock_room_def intro: le_less_trans [OF add_right_mono])
qed

lemma last_release:
  assumes "kinv k" "lock_room (WMutex m) k" "t \<notin> set (waiting_threads k (WMutex m))"
    and h: "holding_thread (mutexes k m) = Some t" "lock_count (mutexes k m) = 1"
  shows "\<exists>k1 k'. WakeupAllWaitingThreads (WMutex m) (released m t k) = Some k1 \<and> k' = PrepareReschedule k1 \<and>
    Mutex_Release m t k = Some (ResultSuccess, k') \<and> kinv k' \<and>
    (\<forall>v. status (threads k' v) = (if v \<in> woken (WMutex m) k k' then Ready else status (threads k v))) \<and>
    ((\<forall>v \<in> set (waiting_threads k (WMutex m)). \<not> can_take m k v) \<and>
       woken (WMutex m) k k' = {} \<and> holding_thread (mutexes k' m) = None \<and> lock_count (mutexes k' m) = 0 \<or>
     (\<exists>u. next_owner m k u \<and>
        woken (WMutex m) k k' = {u} \<and> holding_thread (mutexes k' m) = Some u \<and> lock_count (mutexes k' m) = 1))"
proof -
  let ?r = "released m t k" and ?w = "WMutex m"
  note rs = released_step [OF assms(1) h]
  have ready: "ready_to_run ?w ?r v = can_take m k v" for v
    by (rule released_ready) (rule rs)+
  have cp: "current_priority (threads ?r v) = current_priority (threads k v)" if "v \<in> set (waiting_threads k ?w)" for v
    using that assms(3) by (intro rs(6)) auto
  obtain k1 where k1: "WakeupAllWaitingThreads ?w ?r = Some k1" "kinv k1"
    and st: "\<forall>u. status (threads k1 u) = (if u \<in> woken ?w ?r k1 then Ready else status (threads ?r u))"
    and cases: "(lock_count (mutexes k1 m) = 0 \<and> woken ?w ?r k1 = {} \<and>
        (\<forall>t \<in> set (waiting_threads ?r ?w). \<not> ready_to_run ?w ?r t)) \<or>
     (\<exists>u. first_best ?w ?r (waiting_threads ?r ?w) 64 u \<and> woken ?w ?r k1 = {u} \<and>
        lock_count (mutexes k1 m) = 1 \<and> holding_thread (mutexes k1 m) = Some u)"
    using wake_mutex [OF rs(1) released_room [OF assms(1,2) h] rs(2)] by blast
  let ?k' = "PrepareReschedule k1"
  have e: "Mutex_Release m t k = Some (ResultSuccess, ?k')"
    using h k1(1) by (simp add: Mutex_Release_def released_def Let_def)
  have i: "kinv ?k'"
    using kinv_cong_objects [OF k1(2), of ?k'] by simp
  have wo: "woken ?w k ?k' = woken ?w ?r k1"
    using rs(3) by (simp add: woken_def)
  have best: "next_owner m k u" if "first_best ?w ?r (waiting_threads ?r ?w) 64 u" for u
    using that cp unfolding first_best_def next_owner_def ready rs(3) by fastforce
  have "holding_thread (mutexes k1 m) = None" if "lock_count (mutexes k1 m) = 0"
    using that mutex_invD(5) [OF kinvD(2) [OF k1(2)], of m] by simp
  then have "(\<forall>v \<in> set (waiting_threads k ?w). \<not> can_take m k v) \<and>
       woken ?w k ?k' = {} \<and> holding_thread (mutexes ?k' m) = None \<and> lock_count (mutexes ?k' m) = 0 \<or>
     (\<exists>u. next_owner m k u \<and>
        woken ?w k ?k' = {u} \<and> holding_thread (mutexes ?k' m) = Some u \<and> lock_count (mutexes ?k' m) = 1)"
    using cases best unfolding ready rs(3) wo by (simp only: PrepareReschedule_frame) blast
  moreover have "\<forall>v. status (threads ?k' v) = (if v \<in> woken ?w k ?k' then Ready else status (threads k v))"
    using st unfolding wo rs(4) by simp
  ultimately show ?thesis
    using e i k1(1) by (intro exI [of _ k1] exI [of _ ?k'] conjI) simp_all
qed

text \<open>C10: Releasing a mutex.  A thread that does not hold the mutex gets an error and nothing changes.  A holder that
  has locked it several times only counts down.  The last release decides by the waiting threads that could run once the mutex
  is free: those that wait for any of their objects, and those that wait for all of them and need nothing else that is
  taken.  If there is no such thread, nobody is woken and the mutex is free.  Otherwise exactly one thread is woken
  and holds the mutex with lock count one: the one with the best priority, and of equal ones the first in the list.
  No other thread changes its status.\<close>

theorem mutex_release_handoff:
  assumes "kinv k" and "lock_room (WMutex m) k" and "t \<notin> set (waiting_threads k (WMutex m))"
  shows "(holding_thread (mutexes k m) \<noteq> Some t \<longrightarrow> Mutex_Release m t k = Some (WrongLockingThread_error, k)) \<and>
    (holding_thread (mutexes k m) = Some t \<and> lock_count (mutexes k m) > 1 \<longrightarrow>
       Mutex_Release m t k = Some (ResultSuccess, upd_mutex m (\<lambda>mt. mt\<lparr>lock_count := lock_count mt - 1\<rparr>) k)) \<and>
    (holding_thread (mutexes k m) = Some t \<and> lock_count (mutexes k m) = 1 \<longrightarrow>
       (\<exists>k'. Mutex_Release m t k = Some (ResultSuccess, k') \<and> kinv k' \<and> reschedule_pending k' \<and>
         (\<forall>v. status (threads k' v) = (if v \<in> woken (WMutex m) k k' then Ready else status (threads k v))) \<and>
         (if \<exists>v \<in> set (waiting_threads k (WMutex m)). can_take m k v
          then \<exists>u. next_owner m k u \<and> woken (WMutex m) k k' = {u} \<and>
                 holding_thread (mutexes k' m) = Some u \<and> lock_count (mutexes k' m) = 1
          else woken (WMutex m) k k' = {} \<and> holding_thread (mutexes k' m) = None \<and> lock_count (mutexes k' m) = 0)))"
proof -
  have "\<exists>v \<in> set (waiting_threads k (WMutex m)). can_take m k v" if "next_owner m k u" for u
    using that by (auto simp: next_owner_def)
  then have "\<exists>k'. Mutex_Release m t k = Some (ResultSuccess, k') \<and> kinv k' \<and> reschedule_pending k' \<and>
         (\<forall>v. status (threads k' v) = (if v \<in> woken (WMutex m) k k' then Ready else status (threads k v))) \<and>
         (if \<exists>v \<in> set (waiting_threads k (WMutex m)). can_take m k v
          then \<exists>u. next_owner m k u \<and> woken (WMutex m) k k' = {u} \<and>
                 holding_thread (mutexes k' m) = Some u \<and> lock_count (mutexes k' m) = 1
          else woken (WMutex m) k k' = {} \<and> holding_thread (mutexes k' m) = None \<and> lock_count (mutexes k' m) = 0)"
    if h: "holding_thread (mutexes k m) = Some t" "lock_count (mutexes k m) = 1"
    using last_release [OF assms h] by (elim exE conjE) (rule exI, auto simp: PrepareReschedule_def)
  then show ?thesis
    by (simp add: Mutex_Release_def Let_def)
qed

lemma demo_kernel_kinv: "kinv demo_kernel"
  unfolding kinv_def
proof (intro conjI)
  show "sched_inv demo_kernel" by (rule demo_kernel_inv)
  show "mutex_inv demo_kernel"
    by (rule mutex_invI) (simp_all add: blank_thread_def)
  show "wait_inv demo_kernel"
    by (rule wait_invI) (auto simp: blank_thread_def)
qed

text \<open>Thread 0 holds a mutex that thread 2, which is more urgent, waits for; so thread 0 runs at the priority of thread 2.\<close>

definition demo_lock_threads :: "nat \<Rightarrow> Thread" where
  "demo_lock_threads = (\<lambda>_. blank_thread\<lparr>nominal_priority := 48, current_priority := 48\<rparr>)
     (0 := blank_thread\<lparr>nominal_priority := 48, current_priority := 40, status := Running, held_mutexes := [0]\<rparr>,
      2 := blank_thread\<lparr>nominal_priority := 40, current_priority := 40, status := WaitSynchAny, wait_objects := [WMutex 0],
             pending_mutexes := [0], wakeup_callback := Some (SVC_SyncCallback False)\<rparr>)"

definition demo_lock :: kernel where
  "demo_lock = (upd_ready 0 (prepare 40) demo_kernel)
     \<lparr>threads := demo_lock_threads, num_threads := 3, waiting_threads := (\<lambda>w. if w = WMutex 0 then [2] else []),
      mutexes := (mutexes demo_kernel)(0 := \<lparr>lock_count = 1, priority = 40, holding_thread = Some 0, mutex_limit = None\<rparr>)\<rparr>"

lemma demo_lock_simps [simp]:
  "threads demo_lock = demo_lock_threads" "num_threads demo_lock = 3"
  "waiting_threads demo_lock = (\<lambda>w. if w = WMutex 0 then [2] else [])"
  "mutexes demo_lock = (mutexes demo_kernel)(0 := \<lparr>lock_count = 1, priority = 40, holding_thread = Some 0, mutex_limit = None\<rparr>)"
  "rq demo_lock c = (if c = 0 then prepare 40 (prepare 48 (ThreadQueueList 64)) else ThreadQueueList 64)"
  using demo_kernel_simps(3) [of c] by (simp_all add: demo_lock_def upd_ready_def upd_manager_def)

lemma demo_lock_kinv: "kinv demo_lock"
  unfolding kinv_def
proof (intro conjI)
  note new = tql_inv_new [where 'a = nat and N = 64]
  have n: "NUM_QUEUES (ThreadQueueList 64 :: nat tql) = 64" by (simp add: ThreadQueueList_def)
  have q48: "tql_inv (prepare 48 (ThreadQueueList 64 :: nat tql))" using n by (intro prepare_inv new) simp
  then have q40: "tql_inv (prepare 40 (prepare 48 (ThreadQueueList 64 :: nat tql)))" by (rule prepare_inv) (simp add: n)
  have e: "q_data (ThreadQueueList 64 :: nat tql) p = []" if "p < 64" for p
    using that by (simp add: ThreadQueueList_def empty_queue_def)
  have "status (demo_lock_threads t) \<noteq> Ready" for t by (simp add: demo_lock_threads_def blank_thread_def)
  then have "queue_ok demo_lock c" for c
    unfolding queue_ok_def using q40 new n e by auto
  moreover have "thread_ok demo_lock t" for t
    using new q48 n by (simp add: thread_ok_def demo_lock_threads_def blank_thread_def prepare_linked)
  ultimately show "sched_inv demo_lock" by (simp add: sched_inv_def)
  show "mutex_inv demo_lock"
    by (rule mutex_invI) (auto simp: demo_lock_threads_def blank_thread_def split: if_splits)
  show "wait_inv demo_lock"
    by (rule wait_invI) (auto simp: demo_lock_threads_def blank_thread_def waits_synch_def split: if_splits)
qed

lemma demo_lock_room: "lock_room (WMutex 0) demo_lock" "0 \<notin> set (waiting_threads demo_lock (WMutex 0))"
  by (simp_all add: lock_room_def demo_lock_threads_def)

theorem mutex_release_handoff_witness:
  "kinv demo_lock \<and> (\<exists>k'. Mutex_Release 0 0 demo_lock = Some (ResultSuccess, k') \<and> holding_thread (mutexes k' 0) = Some 2 \<and>
     lock_count (mutexes k' 0) = 1 \<and> status (threads k' 2) = Ready)"
proof -
  have c: "can_take 0 demo_lock 2" by (simp add: can_take_def demo_lock_threads_def)
  have n: "u = 2" if "next_owner 0 demo_lock u" for u
  proof -
    have "u \<in> set (waiting_threads demo_lock (WMutex 0))"
      using that unfolding next_owner_def by (metis in_set_conv_decomp)
    then show ?thesis by simp
  qed
  have h: "holding_thread (mutexes demo_lock 0) = Some 0 \<and> lock_count (mutexes demo_lock 0) = 1" by simp
  have c': "\<exists>v \<in> set (waiting_threads demo_lock (WMutex 0)). can_take 0 demo_lock v" using c by simp
  from mutex_release_handoff [OF demo_lock_kinv demo_lock_room] h obtain k' where
    k': "Mutex_Release 0 0 demo_lock = Some (ResultSuccess, k')"
    "\<forall>v. status (threads k' v) = (if v \<in> woken (WMutex 0) demo_lock k' then Ready else status (threads demo_lock v))"
    "\<exists>u. next_owner 0 demo_lock u \<and> woken (WMutex 0) demo_lock k' = {u} \<and> holding_thread (mutexes k' 0) = Some u \<and>
       lock_count (mutexes k' 0) = 1"
    unfolding if_P [OF c'] by blast
  then show ?thesis using demo_lock_kinv n by auto
qed



section \<open>Semaphores\<close>

lemma Acquire_all_semaphore:
  assumes "fold_opt (\<lambda>ob. Acquire ob t) ws k = Some k'" "distinct ws"
  shows "max_count (semaphores k' s) = max_count (semaphores k s) \<and>
    available_count (semaphores k' s) =
      available_count (semaphores k s) - (if WSemaphore s \<in> set ws \<and> 0 < available_count (semaphores k s) then 1 else 0)"
  using assms
proof (induction ws arbitrary: k)
  case Nil
  then show ?case by simp
next
  case (Cons w ws)
  then obtain k1 where k1: "Acquire w t k = Some k1" "fold_opt (\<lambda>ob. Acquire ob t) ws k1 = Some k'"
    by (auto split: bind_splits)
  then show ?case
    using Cons.IH [OF k1(2)] Cons.prems(2) Acquire_semaphores [OF k1(1), of s] by auto
qed

lemma wake_one_semaphore:
  assumes "wake_one (WSemaphore s) t k = Some k'" "WSemaphore s \<in> set (wait_objects (threads k t))"
    "status (threads k t) = WaitSynchAll \<Longrightarrow> distinct (wait_objects (threads k t))"
    "0 < available_count (semaphores k s)"
  shows "available_count (semaphores k' s) = available_count (semaphores k s) - 1"
proof -
  obtain k1 k2 where k1: "(if status (threads k t) \<noteq> WaitSynchAll then Acquire (WSemaphore s) t k
      else fold_opt (\<lambda>ob. Acquire ob t) (wait_objects (threads k t)) k) = Some k1"
    and k2: "run_wakeup_callback Signal t (Some (WSemaphore s)) k1 = Some k2" "ResumeFromWait t (leave_waits t k2) = Some k'"
    using assms(1) by (auto simp: wake_one_def split: bind_splits)
  have "semaphores k' = semaphores k1"
    using Resume_objects(2) [OF k2(2)] callback_frame(2) [OF k2(1)] by (simp add: leave_waits_objects)
  then show ?thesis
    using k1 assms(2-4) Acquire_semaphores [of "WSemaphore s" t k k1 s]
      Acquire_all_semaphore [of t "wait_objects (threads k t)" k k1 s]
    by (auto split: if_splits)
qed

lemma wake_loop_semaphore:
  assumes "kinv k" "lock_room (WSemaphore s) k" "wake_loop n (WSemaphore s) k = Some k'"
    "0 \<le> available_count (semaphores k s)"
  shows "available_count (semaphores k' s) =
      available_count (semaphores k s) - int (card (woken (WSemaphore s) k k')) \<and>
    0 \<le> available_count (semaphores k' s) \<and>
    set (waiting_threads k' (WSemaphore s)) \<subseteq> set (waiting_threads k (WSemaphore s))"
  using assms
proof (induction n arbitrary: k)
  case 0
  then show ?case by simp
next
  case (Suc n)
  let ?w = "WSemaphore s"
  from Highest_spec [OF Suc.prems(1), of ?w] show ?case
  proof
    assume "GetHighestPriorityReadyThread ?w k = Some None \<and> (\<forall>t \<in> set (waiting_threads k ?w). \<not> ready_to_run ?w k t)"
    then show ?case using Suc.prems(3,4) by (auto simp: woken_def)
  next
    assume "\<exists>t. GetHighestPriorityReadyThread ?w k = Some (Some t) \<and> first_best ?w k (waiting_threads k ?w) 64 t"
    then obtain t where t: "GetHighestPriorityReadyThread ?w k = Some (Some t)" "t \<in> set (waiting_threads k ?w)"
      "ready_to_run ?w k t"
      using first_best_less by blast
    obtain k1 where k1: "wake_one ?w t k = Some k1" "kinv k1" "lock_room ?w k1"
      "waiting_threads k1 ?w = removeAll t (waiting_threads k ?w)"
      using wake_one_step [OF Suc.prems(1) t(2,3) Suc.prems(2)] by blast
    have loop: "wake_loop n ?w k1 = Some k'"
      using Suc.prems(3) t(1) k1(1) by simp
    note ws = waits_synch_waiting [OF kinvD(3) [OF Suc.prems(1)] t(2)]
    have pos: "0 < available_count (semaphores k s)"
      using t(3) by (simp add: ready_to_run_def)
    have a1: "available_count (semaphores k1 s) = available_count (semaphores k s) - 1"
      by (rule wake_one_semaphore [OF k1(1) ws(2) wait_invD(6) [OF kinvD(3) [OF Suc.prems(1)] ws(1)] pos])
    from Suc.IH [OF k1(2,3) loop] have IH: "available_count (semaphores k' s) =
        available_count (semaphores k1 s) - int (card (woken ?w k1 k'))" "0 \<le> available_count (semaphores k' s)"
      "set (waiting_threads k' ?w) \<subseteq> set (waiting_threads k1 ?w)"
      using a1 pos by auto
    have "woken ?w k k' = insert t (woken ?w k1 k')" "t \<notin> woken ?w k1 k'" "finite (woken ?w k1 k')"
      using IH(3) k1(4) t(2) by (auto simp: woken_def)
    then show ?case
      using IH a1 k1(4) by auto
  qed
qed

text \<open>C31: Releasing a semaphore.  With the count between zero and its maximum, a request that would exceed the maximum is
  refused and changes nothing.  Otherwise the call returns the old count, the new count is the old one plus what was
  released minus the number of threads woken, it is not negative, and if it is positive no thread remains that waits for
  the semaphore alone.\<close>

theorem semaphore_release_conserves:
  assumes "kinv k" and "lock_room (WSemaphore s) k"
    and "0 \<le> available_count (semaphores k s)" "0 \<le> n"
    and "n + available_count (semaphores k s) < 2 ^ 31"
  shows "(max_count (semaphores k s) < n + available_count (semaphores k s) \<longrightarrow>
       Semaphore_Release s n k = Some (Inl ResultOutOfRangeKernel, k)) \<and>
    (n + available_count (semaphores k s) \<le> max_count (semaphores k s) \<longrightarrow>
       (\<exists>k'. Semaphore_Release s n k = Some (Inr (available_count (semaphores k s)), k') \<and> kinv k' \<and>
          available_count (semaphores k' s) =
            available_count (semaphores k s) + n - int (card (woken (WSemaphore s) k k')) \<and>
          0 \<le> available_count (semaphores k' s) \<and>
          (0 < available_count (semaphores k' s) \<longrightarrow>
             (\<forall>t \<in> set (waiting_threads k' (WSemaphore s)). status (threads k' t) = WaitSynchAll))))"
proof -
  let ?w = "WSemaphore s" and ?a = "available_count (semaphores k s)"
  let ?k0 = "upd_semaphore s (\<lambda>x. x\<lparr>available_count := wrap_s32 (available_count x + n)\<rparr>) k"
  have wr: "wrap_s32 (n + ?a) = n + ?a" "wrap_s32 (?a + n) = ?a + n"
    using assms(3-5) by (auto intro!: wrap_s32_id simp: in_s32_def)
  have k0: "kinv ?k0" "lock_room ?w ?k0" "available_count (semaphores ?k0 s) = ?a + n"
    using assms(1,2) kinv_cong_objects [OF assms(1), of ?k0] wr by (simp_all add: lock_room_def)
  obtain k1 where k1: "wake_loop (length (waiting_threads ?k0 ?w) + 1) ?w ?k0 = Some k1" "kinv k1"
    "\<forall>t \<in> set (waiting_threads k1 ?w). \<not> ready_to_run ?w k1 t"
    using wake_loop_step [OF k0(1,2), of "length (waiting_threads ?k0 ?w) + 1"] by auto
  note cons = wake_loop_semaphore [OF k0(1,2) k1(1)]
  let ?k' = "if hle_notifier k1 ?w then k1\<lparr>hle_notified := hle_notified k1 @ [?w]\<rparr> else k1"
  have e: "WakeupAllWaitingThreads ?w ?k0 = Some ?k'"
    using k1(1) by (simp add: WakeupAllWaitingThreads_def WaitObject_WakeupAll_def)
  have same: "semaphores ?k' = semaphores k1" "waiting_threads ?k' = waiting_threads k1" "threads ?k' = threads k1"
    by simp_all
  have wo: "woken ?w k ?k' = woken ?w ?k0 k1"
    unfolding woken_def same(2) by simp
  have "\<forall>t \<in> set (waiting_threads ?k' ?w). status (threads ?k' t) = WaitSynchAll"
    if "0 < available_count (semaphores ?k' s)"
    using that k1(3) unfolding same by (auto simp: ready_to_run_def)
  moreover have "kinv ?k'" using k1(2) by simp
  moreover have "available_count (semaphores ?k' s) = ?a + n - int (card (woken ?w k ?k')) \<and>
      0 \<le> available_count (semaphores ?k' s)"
    using cons k0(3) assms(3,4) unfolding same wo by simp
  ultimately show ?thesis
    using e wr by (auto simp: Semaphore_Release_def Let_def)
qed

theorem semaphore_release_conserves_witness:
  "kinv demo_wait \<and> Semaphore_Release 0 1 demo_wait = Some (Inl ResultOutOfRangeKernel, demo_wait)"
proof -
  have z: "available_count (semaphores demo_wait 0) = 0" "max_count (semaphores demo_wait 0) = 0"
    by (simp_all add: demo_wait_def demo_kernel_def new_KernelSystem_def)
  show ?thesis
    using demo_wait_inv semaphore_release_conserves [OF demo_wait_inv demo_wait_room, of 0 1] z by simp
qed

text \<open>The bound in the check of \<^verbatim>\<open>Semaphore::Release\<close> is computed in signed 32-bit arithmetic, so a release count whose sum
  with the available count passes \<open>2 ^ 31 - 1\<close> is accepted whatever the maximum is, and leaves a negative count.\<close>

theorem semaphore_release_overflow:
  assumes "waiting_threads k (WSemaphore s) = []" and "0 \<le> available_count (semaphores k s)"
    and "0 \<le> max_count (semaphores k s)" and "in_s32 (available_count (semaphores k s))" and "in_s32 n"
    and "2 ^ 31 \<le> n + available_count (semaphores k s)"
  shows "\<exists>k'. Semaphore_Release s n k = Some (Inr (available_count (semaphores k s)), k') \<and>
     available_count (semaphores k' s) < 0"
proof -
  let ?a = "available_count (semaphores k s)"
  have "wrap_s32 (n + ?a) = wrap_s32 (n + ?a - 2 ^ 32)"
    using wrap_s32_shift [of "n + ?a - 2 ^ 32"] by simp
  also have "\<dots> = n + ?a - 2 ^ 32"
    using assms(4-6) by (intro wrap_s32_id) (auto simp: in_s32_def)
  finally have w: "wrap_s32 (n + ?a) = n + ?a - 2 ^ 32" .
  have neg: "n + ?a - 2 ^ 32 < 0"
    using assms(4,5) by (simp add: in_s32_def)
  then show ?thesis
    using assms(1,3) w by (auto simp: Semaphore_Release_def Let_def WakeupAllWaitingThreads_def WaitObject_WakeupAll_def
        GetHighestPriorityReadyThread_def add.commute)
qed


theorem semaphore_release_overflow_witness:
  "\<exists>k'. Semaphore_Release 0 0x7FFFFFFF
      (upd_semaphore 0 (\<lambda>_. \<lparr>max_count = 5, available_count = 1, semaphore_limit = None\<rparr>) demo_kernel) = Some (Inr 1, k') \<and>
    available_count (semaphores k' 0) < 0"
  using semaphore_release_overflow [of
      "upd_semaphore 0 (\<lambda>_. \<lparr>max_count = 5, available_count = 1, semaphore_limit = None\<rparr>) demo_kernel" 0 "0x7FFFFFFF"]
  by (simp add: in_s32_def)


section \<open>Priority inheritance\<close>

text \<open>The holder of a mutex runs at least at the mutex's priority.\<close>

definition inherits :: "kernel \<Rightarrow> bool" where
  "inherits k \<longleftrightarrow> (\<forall>m h. holding_thread (mutexes k m) = Some h \<longrightarrow>
     current_priority (threads k h) \<le> priority (mutexes k m))"

lemma best_waiter_Min:
  "fold (\<lambda>t b. if f t < b then f t else b) ts b = Min (insert b (f ` set ts))" for f :: "nat \<Rightarrow> nat"
proof -
  have "fold (\<lambda>t b. if f t < b then f t else b) ts b = fold min (map f ts) b"
    unfolding fold_map by (rule fold_cong) (auto simp: fun_eq_iff min_def)
  also have "\<dots> = Min (set (b # map f ts))"
    by (rule Min.set_eq_fold [symmetric])
  finally show ?thesis by simp
qed

lemma UpdatePriority_le:
  "m \<in> set (held_mutexes (threads k t)) \<Longrightarrow>
     current_priority (threads (Thread_UpdatePriority t k) t) \<le> priority (mutexes k m)"
  by (auto simp: UpdatePriority_threads intro!: Min_le)

text \<open>The same for one mutex, together with its place in the holder's set, which the recomputation of a priority reads.\<close>

definition inherits_at :: "nat \<Rightarrow> kernel \<Rightarrow> bool" where
  "inherits_at m k \<longleftrightarrow> (\<forall>h. holding_thread (mutexes k m) = Some h \<longrightarrow>
     m \<in> set (held_mutexes (threads k h)) \<and> current_priority (threads k h) \<le> priority (mutexes k m))"

lemma inherits_at_iff: "mutex_inv k \<Longrightarrow> inherits k \<longleftrightarrow> (\<forall>m. inherits_at m k)"
  using mutex_invD(2) [of k] by (auto simp: inherits_def inherits_at_def)

lemma inherits_at_cong:
  assumes "inherits_at m k" "holding_thread (mutexes k' m) = holding_thread (mutexes k m)"
    "priority (mutexes k' m) = priority (mutexes k m)"
    "\<And>h. held_mutexes (threads k' h) = held_mutexes (threads k h)"
    "\<And>h. current_priority (threads k' h) = current_priority (threads k h)"
  shows "inherits_at m k'"
  using assms by (simp add: inherits_at_def)

lemma UpdatePriority_inherits:
  assumes "\<And>h. holding_thread (mutexes k m) = Some h \<Longrightarrow> m \<in> set (held_mutexes (threads k h)) \<and>
      (h \<noteq> t \<longrightarrow> current_priority (threads k h) \<le> priority (mutexes k m))"
  shows "inherits_at m (Thread_UpdatePriority t k)"
  unfolding inherits_at_def
proof (intro allI impI)
  fix h assume "holding_thread (mutexes (Thread_UpdatePriority t k) m) = Some h"
  then have h: "m \<in> set (held_mutexes (threads k h))" "h \<noteq> t \<longrightarrow> current_priority (threads k h) \<le> priority (mutexes k m)"
    using assms by simp_all
  then show "m \<in> set (held_mutexes (threads (Thread_UpdatePriority t k) h)) \<and>
      current_priority (threads (Thread_UpdatePriority t k) h) \<le> priority (mutexes (Thread_UpdatePriority t k) m)"
    using UpdatePriority_le [of m k t] by (cases "h = t") (simp_all add: UpdatePriority_threads)
qed

text \<open>Recomputing the priority of a mutex whose waiters changed.\<close>

lemma Mutex_UpdatePriority_inherits:
  assumes i: "inherits_at m k" and h: "holding_thread (mutexes k m) = Some h"
    and u: "u \<in> set (waiting_threads k (WMutex m))" "u \<noteq> h"
  shows "current_priority (threads (Mutex_UpdatePriority m k) h) \<le> current_priority (threads (Mutex_UpdatePriority m k) u)"
proof -
  let ?f = "\<lambda>t. current_priority (threads k t)"
  let ?best = "Min (insert ThreadPrioLowest (?f ` set (waiting_threads k (WMutex m))))"
  have le: "?best \<le> ?f u"
    using u(1) by (intro Min_le) auto
  let ?k = "upd_mutex m (\<lambda>mt. mt\<lparr>priority := ?best\<rparr>) k"
  have eq: "Mutex_UpdatePriority m k = (if ?best \<noteq> priority (mutexes k m) then Thread_UpdatePriority h ?k else k)"
    using h by (simp add: Mutex_UpdatePriority_def best_waiter_Min Let_def)
  have at: "m \<in> set (held_mutexes (threads k h))" "?f h \<le> priority (mutexes k m)"
    using i h by (simp_all add: inherits_at_def)
  show ?thesis
  proof (cases "?best = priority (mutexes k m)")
    case True
    then show ?thesis
      unfolding eq using at(2) le by simp
  next
    case False
    have "current_priority (threads (Thread_UpdatePriority h ?k) h) \<le> ?best"
      using UpdatePriority_le [of m ?k h] at(1) by simp
    moreover have "current_priority (threads (Thread_UpdatePriority h ?k) u) = ?f u"
      using u(2) by (simp add: UpdatePriority_threads)
    moreover have "Mutex_UpdatePriority m k = Thread_UpdatePriority h ?k"
      unfolding eq using False by (rule if_P)
    ultimately show ?thesis
      using le by (metis order_trans)
  qed
qed

lemma Mutex_UpdatePriority_keeps_inherits:
  assumes "inherits_at n k"
  shows "inherits_at n (Mutex_UpdatePriority m k)"
proof (cases "holding_thread (mutexes k m)")
  case None
  then show ?thesis using assms by (simp add: Mutex_UpdatePriority_def)
next
  case (Some h)
  have "inherits_at n (Thread_UpdatePriority h (upd_mutex m (\<lambda>mt. mt\<lparr>priority := b\<rparr>) k))" for b
    using assms Some by (intro UpdatePriority_inherits) (auto simp: inherits_at_def split: if_splits)
  then show ?thesis
    using Some assms by (simp add: Mutex_UpdatePriority_def Let_def)
qed

text \<open>\<^verbatim>\<open>AddWaitingThread\<close> and \<^verbatim>\<open>RemoveWaitingThread\<close> of a mutex change its list and recompute its priority.\<close>

lemma waiting_mutex:
  assumes "k' = AddWaitingThread (WMutex m) t k \<or> k' = RemoveWaitingThread (WMutex m) t k"
  shows "\<exists>f g. k' = Mutex_UpdatePriority m (upd_thread t (\<lambda>th. th\<lparr>pending_mutexes := g th\<rparr>) (set_waiting (WMutex m) f k))"
  using assms unfolding AddWaitingThread_def RemoveWaitingThread_def WaitObject_AddWaitingThread_def
    WaitObject_RemoveWaitingThread_def by auto

lemma waiting_mutex_inherits:
  assumes "k' = AddWaitingThread (WMutex m) t k \<or> k' = RemoveWaitingThread (WMutex m) t k"
  shows "inherits_at n k \<Longrightarrow> inherits_at n k'"
    "inherits_at m k \<Longrightarrow> holding_thread (mutexes k m) = Some h \<Longrightarrow> u \<in> set (waiting_threads k' (WMutex m)) \<Longrightarrow> u \<noteq> h \<Longrightarrow>
       current_priority (threads k' h) \<le> current_priority (threads k' u)"
proof -
  obtain f g where k': "k' = Mutex_UpdatePriority m
      (upd_thread t (\<lambda>th. th\<lparr>pending_mutexes := g th\<rparr>) (set_waiting (WMutex m) f k))"
    using waiting_mutex [OF assms] by blast
  let ?k = "upd_thread t (\<lambda>th. th\<lparr>pending_mutexes := g th\<rparr>) (set_waiting (WMutex m) f k)"
  have i: "inherits_at n ?k" if "inherits_at n k" for n
    using that by (rule inherits_at_cong) auto
  have w: "waiting_threads k' = waiting_threads ?k"
    unfolding k' by (simp add: prio_frame_fields [OF prio_frame_Mutex_Update] fun_eq_iff)
  show "inherits_at n k \<Longrightarrow> inherits_at n k'"
    unfolding k' by (rule Mutex_UpdatePriority_keeps_inherits [OF i])
  show "inherits_at m k \<Longrightarrow> holding_thread (mutexes k m) = Some h \<Longrightarrow> u \<in> set (waiting_threads k' (WMutex m)) \<Longrightarrow> u \<noteq> h \<Longrightarrow>
       current_priority (threads k' h) \<le> current_priority (threads k' u)"
    using Mutex_UpdatePriority_inherits [OF i, of m h u] w unfolding k' by simp
qed

text \<open>The other steps of acquiring and waking.\<close>

lemma Mutex_Acquire_inherits:
  assumes "Mutex_Acquire m t k = Some k'" "inherits_at n k"
  shows "inherits_at n k'"
proof -
  let ?k1 = "upd_thread t (\<lambda>th. th\<lparr>held_mutexes := flat_insert m (held_mutexes th)\<rparr>)
     (upd_mutex m (\<lambda>mt. mt\<lparr>priority := current_priority (threads k t), holding_thread := Some t\<rparr>) k)"
  have "inherits_at n (Thread_UpdatePriority t ?k1)"
    using assms(2) by (intro UpdatePriority_inherits) (auto simp: inherits_at_def split: if_splits)
  then have "inherits_at n (upd_mutex m (\<lambda>mt. mt\<lparr>lock_count := f mt\<rparr>) (PrepareReschedule (Thread_UpdatePriority t ?k1)))" for f
    by (rule inherits_at_cong) auto
  moreover have "inherits_at n (upd_mutex m (\<lambda>mt. mt\<lparr>lock_count := f mt\<rparr>) k)" for f
    using assms(2) by (rule inherits_at_cong) auto
  ultimately show ?thesis
    using assms(1) by (auto simp: Mutex_Acquire_def Let_def split: if_splits)
qed

lemma Acquire_inherits:
  assumes "Acquire w t k = Some k'" "inherits_at n k"
  shows "inherits_at n k'"
proof (cases "\<exists>m. w = WMutex m")
  case True
  then show ?thesis using assms Mutex_Acquire_inherits by auto
next
  case False
  then have "threads k' = threads k" "mutexes k' = mutexes k"
    using assms(1) by (cases w; auto simp: Thread_Acquire_def Semaphore_Acquire_def Event_Acquire_def
      Timer_Acquire_def ServerPort_Acquire_def ServerSession_Acquire_def Let_def split: if_splits)+
  then show ?thesis using assms(2) by (simp add: inherits_at_def)
qed

lemma Acquire_all_inherits:
  "fold_opt (\<lambda>ob. Acquire ob t) ws k = Some k' \<Longrightarrow> inherits_at n k \<Longrightarrow> inherits_at n k'"
proof (induction ws arbitrary: k)
  case (Cons w ws)
  then obtain k1 where "Acquire w t k = Some k1" "fold_opt (\<lambda>ob. Acquire ob t) ws k1 = Some k'"
    by (auto split: bind_splits)
  then show ?case using Cons.IH Cons.prems(2) Acquire_inherits by blast
qed simp

lemma callback_threads:
  assumes "run_wakeup_callback reason t ob k = Some k'"
  shows "held_mutexes (threads k' u) = held_mutexes (threads k u)" "current_priority (threads k' u) = current_priority (threads k u)"
    "wait_objects (threads k' u) = wait_objects (threads k u)" "waiting_threads k' = waiting_threads k"
proof -
  have "held_mutexes (threads k' u) = held_mutexes (threads k u) \<and> current_priority (threads k' u) = current_priority (threads k u) \<and>
      wait_objects (threads k' u) = wait_objects (threads k u) \<and> waiting_threads k' = waiting_threads k"
    using assms unfolding run_wakeup_callback_def
    by (auto simp: SetWaitSynchronizationResult_def SetWaitSynchronizationOutput_def Let_def upd_arbiter_def receive_objects
        split: option.splits bind_splits if_splits elim!: WakeUp.elims)
  then show "held_mutexes (threads k' u) = held_mutexes (threads k u)" "current_priority (threads k' u) = current_priority (threads k u)"
    "wait_objects (threads k' u) = wait_objects (threads k u)" "waiting_threads k' = waiting_threads k" by blast+
qed

lemma leave_waits_inherits:
  assumes "inherits_at n k"
  shows "inherits_at n (leave_waits t k)"
proof -
  have "inherits_at n (RemoveWaitingThread w t k)" if "inherits_at n k" for w k
  proof (cases "\<exists>m. w = WMutex m")
    case True
    then show ?thesis using that waiting_mutex_inherits(1) by blast
  next
    case False
    then have "RemoveWaitingThread w t k = set_waiting w (remove1 t) k"
      by (cases w) (simp_all add: RemoveWaitingThread_def WaitObject_RemoveWaitingThread_def)
    then show ?thesis using that by (simp add: inherits_at_def)
  qed
  then have "inherits_at n (fold (\<lambda>ob. RemoveWaitingThread ob t) ws k)" for ws
    using assms by (induction ws arbitrary: k) simp_all
  then show ?thesis
    unfolding leave_waits_def by (rule inherits_at_cong) auto
qed

lemma Resume_inherits:
  assumes "ResumeFromWait t k = Some k'"
  shows "inherits_at n k \<Longrightarrow> inherits_at n k'" "current_priority (threads k' u) = current_priority (threads k u)"
    "waiting_threads k' = waiting_threads k"
  using assms by (auto simp: ResumeFromWait_cases make_ready_threads inherits_at_def split: if_splits)

text \<open>
  Waking one thread keeps the property.  If the thread waited for this mutex alone, it is at the end at least as urgent
  as those that still wait for the mutex.
\<close>

lemma wake_one_inherits:
  assumes "wake_one w t k = Some k'" "inherits_at n k"
  shows "inherits_at n k'"
proof -
  obtain k1 k2 where k1: "(if status (threads k t) \<noteq> WaitSynchAll then Acquire w t k
      else fold_opt (\<lambda>ob. Acquire ob t) (wait_objects (threads k t)) k) = Some k1"
    and k2: "run_wakeup_callback Signal t (Some w) k1 = Some k2" and k': "ResumeFromWait t (leave_waits t k2) = Some k'"
    using assms(1) by (auto simp: wake_one_def split: bind_splits)
  have "inherits_at n k1"
    using k1 assms(2) Acquire_inherits Acquire_all_inherits by (auto split: if_splits)
  then have "inherits_at n k2"
    by (rule inherits_at_cong) (simp_all add: callback_frame [OF k2] callback_threads [OF k2])
  then show ?thesis
    by (rule Resume_inherits(1) [OF k' leave_waits_inherits])
qed

lemma wake_one_owner:
  assumes "wake_one (WMutex m) t k = Some k'" "inherits_at m k" "wait_objects (threads k t) = [WMutex m]"
    and "holding_thread (mutexes k' m) = Some t" "v \<in> set (waiting_threads k' (WMutex m))"
    and "distinct (waiting_threads k (WMutex m))"
  shows "current_priority (threads k' t) \<le> current_priority (threads k' v)"
proof -
  obtain k1 k2 where k1: "Acquire (WMutex m) t k = Some k1" and k2: "run_wakeup_callback Signal t (Some (WMutex m)) k1 = Some k2"
    and k': "ResumeFromWait t (leave_waits t k2) = Some k'"
    using assms(1,3) by (auto simp: wake_one_def split: bind_splits if_splits)
  let ?k = "RemoveWaitingThread (WMutex m) t k2"
  have w1: "wait_objects (threads k1 t) = [WMutex m]" "waiting_threads k1 = waiting_threads k"
    using k1 assms(3) by (auto simp: Mutex_Acquire_def Let_def prio_frame_fields [OF prio_frame_Update] split: if_splits)
  then have w2: "wait_objects (threads k2 t) = [WMutex m]" "waiting_threads k2 = waiting_threads k"
    using callback_threads [OF k2] by simp_all
  have i: "inherits_at m k2"
    using Acquire_inherits [OF k1 assms(2)] by (rule inherits_at_cong) (simp_all add: callback_frame [OF k2] callback_threads [OF k2])
  have lw: "leave_waits t k2 = upd_thread t (\<lambda>th. th\<lparr>wait_objects := []\<rparr>) ?k"
    using w2(1) by (simp add: leave_waits_def)
  have wr: "waiting_threads ?k (WMutex m) = remove1 t (waiting_threads k (WMutex m))"
    using w2(2) by (simp add: RemoveWaitingThread_def WaitObject_RemoveWaitingThread_def prio_frame_fields [OF prio_frame_Mutex_Update])
  have "waiting_threads k' = waiting_threads ?k"
    using Resume_inherits(3) [OF k'] lw by simp
  then have v: "v \<in> set (waiting_threads ?k (WMutex m))" "v \<noteq> t"
    using assms(5,6) wr by auto
  have "holding_thread (mutexes k2 m) = Some t"
    using assms(4) Resume_objects(3) [OF k'] by (simp add: leave_waits_objects)
  from waiting_mutex_inherits(2) [OF _ i this v(1,2)]
  have "current_priority (threads ?k t) \<le> current_priority (threads ?k v)" by blast
  then show ?thesis
    using v(2) by (simp add: Resume_inherits(2) [OF k'] lw)
qed

lemma wake_mutex_inherits:
  assumes "WakeupAllWaitingThreads (WMutex m) k = Some k'" and inv: "kinv k" "lock_room (WMutex m) k" "lock_count (mutexes k m) = 0"
    and i: "\<And>n. inherits_at n k"
  shows "inherits_at n k'"
    "holding_thread (mutexes k' m) = Some u \<Longrightarrow> wait_objects (threads k u) = [WMutex m] \<Longrightarrow>
       v \<in> set (waiting_threads k' (WMutex m)) \<Longrightarrow> current_priority (threads k' u) \<le> current_priority (threads k' v)"
proof -
  have k': "kinv k'" "lock_count (mutexes k' m) = 0 \<and> same_sync k k' \<or>
      (\<exists>t k1. holding_thread (mutexes k' m) = Some t \<and> wake_one (WMutex m) t k = Some k1 \<and> same_sync k1 k')"
    using wake_mutex [OF inv] assms(1) by auto
  then show "inherits_at n k'"
    using i [of n] wake_one_inherits [of "WMutex m" _ k _ n] by (auto simp: same_sync_def inherits_at_def)
  show "current_priority (threads k' u) \<le> current_priority (threads k' v)"
    if u: "holding_thread (mutexes k' m) = Some u" "wait_objects (threads k u) = [WMutex m]" and v: "v \<in> set (waiting_threads k' (WMutex m))"
  proof -
    have "lock_count (mutexes k' m) > 0" using mutex_invD(5) [OF kinvD(2) [OF k'(1)], of m] u(1) by simp
    then obtain k1 where k1: "wake_one (WMutex m) u k = Some k1" "same_sync k1 k'" using k'(2) u(1) by auto
    then show ?thesis
      using wake_one_owner [OF k1(1) i u(2) _ _ wait_invD(1) [OF kinvD(3) [OF inv(1)]], of v] u(1) v
      by (simp add: same_sync_def)
  qed
qed

lemma released_inherits:
  assumes "\<And>n. inherits_at n k" "holding_thread (mutexes k m) = Some t"
  shows "inherits_at n (released m t k)"
proof (cases "n = m")
  case True
  then show ?thesis by (simp add: released_def inherits_at_def)
next
  case False
  let ?k = "upd_thread t (\<lambda>th. th\<lparr>held_mutexes := flat_erase m (held_mutexes th)\<rparr>)
      (upd_mutex m (\<lambda>mt. mt\<lparr>lock_count := lock_count mt - 1\<rparr>) k)"
  have "inherits_at n (Thread_UpdatePriority t ?k)"
    using assms(1) [of n] False by (intro UpdatePriority_inherits) (auto simp: inherits_at_def)
  then show ?thesis
    unfolding released_def by (rule inherits_at_cong) (use False in auto)
qed

lemma release_inherits:
  assumes "kinv k" "lock_room (WMutex m) k" "t \<notin> set (waiting_threads k (WMutex m))" and i: "\<And>n. inherits_at n k"
    and h: "holding_thread (mutexes k m) = Some t"
  shows "\<exists>k'. Mutex_Release m t k = Some (ResultSuccess, k') \<and> kinv k' \<and> (\<forall>n. inherits_at n k') \<and>
    (\<forall>u v. holding_thread (mutexes k' m) = Some u \<and> u \<noteq> t \<and> wait_objects (threads k u) = [WMutex m] \<and>
       v \<in> set (waiting_threads k' (WMutex m)) \<longrightarrow> current_priority (threads k' u) \<le> current_priority (threads k' v))"
proof (cases "lock_count (mutexes k m) = 1")
  case True
  obtain k1 where k1: "WakeupAllWaitingThreads (WMutex m) (released m t k) = Some k1"
    "Mutex_Release m t k = Some (ResultSuccess, PrepareReschedule k1)" "kinv (PrepareReschedule k1)"
    using last_release [OF assms(1-3) h True] by blast
  note rs = released_step [OF assms(1) h True]
  note wi = wake_mutex_inherits [OF k1(1) rs(1) released_room [OF assms(1,2) h True] rs(2) released_inherits [OF i h]]
  have "inherits_at n (PrepareReschedule k1)" for n
    using wi(1) by (rule inherits_at_cong) simp_all
  then show ?thesis
    using k1(2,3) wi(2) rs(5) by (intro exI [of _ "PrepareReschedule k1"]) simp
next
  case False
  note mi = mutex_invD [OF kinvD(2) [OF assms(1)], of m]
  let ?k = "upd_mutex m (\<lambda>mt. mt\<lparr>lock_count := lock_count (mutexes k m) - 1\<rparr>) k"
  have c: "1 < lock_count (mutexes k m)" using mi(4,5) h False by simp
  then have e: "Mutex_Release m t k = Some (ResultSuccess, ?k)"
    using h by (simp add: Mutex_Release_def upd_mutex_def)
  have "sched_inv ?k"
    using kinvD(1) [OF assms(1)] by (subst sched_inv_same [of _ k]) simp_all
  moreover have "mutex_inv ?k" using mutex_inv_relock [OF kinvD(2) [OF assms(1)] h] c by simp
  moreover have "wait_inv ?k" using kinvD(3) [OF assms(1)] by (rule wait_inv_cong) simp_all
  moreover have "inherits_at n ?k" for n using i [of n] by (rule inherits_at_cong) simp_all
  ultimately show ?thesis using e h by (simp add: kinv_def)
qed

text \<open>C25: Priority inheritance.  Suppose that the holders run at least at the priorities of the mutexes they hold.  This stays so
  when a thread starts or stops to wait for a mutex, when a thread acquires a free mutex or one it holds, and when a holder releases one.
  Moreover, after a thread starts or stops to wait for a held mutex, the holder is at least as urgent as every other thread in the
  list of this mutex; and after a release that hands the mutex to a thread which waited for it alone, this new holder is at
  least as urgent as the threads that still wait for it.\<close>

theorem priority_inheritance:
  assumes "kinv k" and "inherits k"
  shows "(\<forall>t k'. k' = AddWaitingThread (WMutex m) t k \<or> k' = RemoveWaitingThread (WMutex m) t k \<longrightarrow> inherits k' \<and>
      (\<forall>h u. holding_thread (mutexes k m) = Some h \<and> u \<in> set (waiting_threads k' (WMutex m)) \<and> u \<noteq> h \<longrightarrow>
         current_priority (threads k' h) \<le> current_priority (threads k' u))) \<and>
    (\<forall>t < num_threads k. \<not> ShouldWait (WMutex m) t k \<and> lock_count (mutexes k m) < 2 ^ 31 - 1 \<longrightarrow>
      (\<exists>k'. Mutex_Acquire m t k = Some k' \<and> inherits k' \<and> holding_thread (mutexes k' m) = Some t)) \<and>
    (\<forall>t. holding_thread (mutexes k m) = Some t \<and> lock_room (WMutex m) k \<and> t \<notin> set (waiting_threads k (WMutex m)) \<longrightarrow>
      (\<exists>k'. Mutex_Release m t k = Some (ResultSuccess, k') \<and> inherits k' \<and>
         (\<forall>u v. holding_thread (mutexes k' m) = Some u \<and> u \<noteq> t \<and> wait_objects (threads k u) = [WMutex m] \<and>
            v \<in> set (waiting_threads k' (WMutex m)) \<longrightarrow> current_priority (threads k' u) \<le> current_priority (threads k' v))))"
proof (intro conjI allI impI)
  have i: "inherits_at n k" for n
    using assms inherits_at_iff [OF kinvD(2) [OF assms(1)]] by blast
  fix t k' assume k': "k' = AddWaitingThread (WMutex m) t k \<or> k' = RemoveWaitingThread (WMutex m) t k"
  show "inherits k'"
    using waiting_mutex_inherits(1) [OF k'] i by (simp add: inherits_def inherits_at_def)
  fix h u assume "holding_thread (mutexes k m) = Some h \<and> u \<in> set (waiting_threads k' (WMutex m)) \<and> u \<noteq> h"
  then show "current_priority (threads k' h) \<le> current_priority (threads k' u)"
    using waiting_mutex_inherits(2) [OF k' i] by blast
next
  have i: "inherits_at n k" for n
    using assms inherits_at_iff [OF kinvD(2) [OF assms(1)]] by blast
  fix t assume "t < num_threads k" "\<not> ShouldWait (WMutex m) t k \<and> lock_count (mutexes k m) < 2 ^ 31 - 1"
  then obtain k' where k': "Mutex_Acquire m t k = Some k'" "kinv k'" "holding_thread (mutexes k' m) = Some t"
    using Mutex_Acquire_step [OF assms(1)] by blast
  then show "\<exists>k'. Mutex_Acquire m t k = Some k' \<and> inherits k' \<and> holding_thread (mutexes k' m) = Some t"
    using Mutex_Acquire_inherits [OF k'(1) i] inherits_at_iff [OF kinvD(2) [OF k'(2)]] by blast
next
  have i: "inherits_at n k" for n
    using assms inherits_at_iff [OF kinvD(2) [OF assms(1)]] by blast
  fix t assume "holding_thread (mutexes k m) = Some t \<and> lock_room (WMutex m) k \<and> t \<notin> set (waiting_threads k (WMutex m))"
  then show "\<exists>k'. Mutex_Release m t k = Some (ResultSuccess, k') \<and> inherits k' \<and>
      (\<forall>u v. holding_thread (mutexes k' m) = Some u \<and> u \<noteq> t \<and> wait_objects (threads k u) = [WMutex m] \<and>
         v \<in> set (waiting_threads k' (WMutex m)) \<longrightarrow> current_priority (threads k' u) \<le> current_priority (threads k' v))"
    using release_inherits [OF assms(1) _ _ i, of m t] by (auto simp: inherits_def inherits_at_def)
qed

theorem priority_inheritance_witness:
  "kinv demo_lock \<and> inherits demo_lock \<and> inherits (AddWaitingThread (WMutex 0) 1 demo_lock) \<and>
   (\<exists>k'. Mutex_Acquire 0 0 demo_lock = Some k' \<and> inherits k') \<and>
   (\<exists>k'. Mutex_Release 0 0 demo_lock = Some (ResultSuccess, k') \<and> inherits k')"
proof -
  have i: "inherits demo_lock" by (simp add: inherits_def demo_lock_threads_def)
  note p = priority_inheritance [OF demo_lock_kinv i, of 0]
  have "inherits (AddWaitingThread (WMutex 0) 1 demo_lock)" using p by blast
  moreover have "0 < num_threads demo_lock" "\<not> ShouldWait (WMutex 0) 0 demo_lock" "lock_count (mutexes demo_lock 0) < 2 ^ 31 - 1"
    by simp_all
  then have "\<exists>k'. Mutex_Acquire 0 0 demo_lock = Some k' \<and> inherits k'" using p by blast
  moreover have "holding_thread (mutexes demo_lock 0) = Some 0" by simp
  then have "\<exists>k'. Mutex_Release 0 0 demo_lock = Some (ResultSuccess, k') \<and> inherits k'" using p demo_lock_room by blast
  ultimately show ?thesis using demo_lock_kinv i by blast
qed

text \<open>Waiting for all of several objects acquires them one after the other, and acquiring a one-shot event clears it.  A thread that
  waits for all and names the same one-shot event twice therefore trips the assertion of the second acquisition: waking it does not
  return.\<close>

theorem wait_all_duplicate_event_asserts:
  assumes "event_reset_type (events k e) = OneShot" and "status (threads k t) = WaitSynchAll"
    and "wait_objects (threads k t) = [WEvent e, WEvent e]"
  shows "wake_one (WEvent e) t k = None"
  using assms by (simp add: wake_one_def Event_Acquire_def)

theorem wait_all_duplicate_event_asserts_witness:
  "wake_one (WEvent 0) 0 (upd_thread 0 (\<lambda>th. th\<lparr>status := WaitSynchAll, wait_objects := [WEvent 0, WEvent 0]\<rparr>)
     demo_kernel) = None"
  by (rule wait_all_duplicate_event_asserts) simp_all

end
