(* ===== verification/Scheduler.thy ===== *)
theory Scheduler
  imports Wait_Objects
begin

text \<open>
  The scheduler of a core and the life of a thread, the rest of \<^verbatim>\<open>core/hle/kernel/thread.cpp\<close>: choosing and
  switching to the next thread, stopping threads and waking them on a timeout, with the selection of the running core
  of \<^verbatim>\<open>kernel.cpp\<close>.  A core's registers are a component of the state; emulating instructions is not part of the model.
\<close>

unbundle bit_operations_syntax

section \<open>Switching threads\<close>

text \<open>
  The two loops of \<^verbatim>\<open>PopNextReadyThread\<close>: threads that may not be scheduled are set aside.  Every iteration takes a
  thread out of the queue, so one more iteration than the queue has elements is enough.
\<close>

fun pop_loop :: "(nat tql \<Rightarrow> (nat option \<times> nat tql) option) \<Rightarrow> (nat \<Rightarrow> bool) \<Rightarrow> nat \<Rightarrow> nat tql \<Rightarrow> nat list \<Rightarrow>
    (nat option \<times> nat tql \<times> nat list) option" where
  "pop_loop pop schedulable 0 q aside = None"
| "pop_loop pop schedulable (Suc n) q aside = do {
     (r, q1) \<leftarrow> pop q;
     case r of
       None \<Rightarrow> Some (None, q1, aside)
     | Some t \<Rightarrow> if schedulable t then Some (Some t, q1, aside)
                 else pop_loop pop schedulable n q1 (aside @ [t])
   }"

definition queue_size :: "nat tql \<Rightarrow> nat" where
  "queue_size q = length (contents q)"

definition PopNextReadyThread :: "nat \<Rightarrow> kernel \<Rightarrow> (nat option \<times> kernel) option" where
  "PopNextReadyThread c k =
     (let q = rq k c; fuel = queue_size q + 1; sch = (\<lambda>t. can_schedule (threads k t));
          aside = unscheduled_ready_queue (thread_managers k c);
          running = (case current_thread (thread_managers k c) of
                       Some t \<Rightarrow> if status (threads k t) = Running then Some t else None
                     | None \<Rightarrow> None)
      in do {
        (next, q1, aside1) \<leftarrow>
          (case running of
             Some t \<Rightarrow> do { (r, q1, a1) \<leftarrow> pop_loop (pop_first_better (current_priority (threads k t))) sch fuel q aside;
                           Some (case r of None \<Rightarrow> Some t | Some n \<Rightarrow> Some n, q1, a1) }
           | None \<Rightarrow> pop_loop pop_first sch fuel q aside);
        let q2 = fold (\<lambda>t. push_back (current_priority (threads k t)) t) (rev aside1) q1;
        Some (next, upd_manager c (\<lambda>m. m\<lparr>ready_queue := q2, unscheduled_ready_queue := []\<rparr>) k)
      })"

text \<open>The current page table is the one of a process; the copy that each processor keeps is not modelled.\<close>

definition SetCurrentProcess :: "nat \<Rightarrow> kernel \<Rightarrow> kernel" where
  "SetCurrentProcess p k = k\<lparr>current_process := p, current_page_table := Some p\<rparr>"

definition SetCurrentProcessForCPU :: "nat \<Rightarrow> nat \<Rightarrow> kernel \<Rightarrow> kernel" where
  "SetCurrentProcessForCPU p core k =
     (if current_cpu k = core then SetCurrentProcess p k
      else k\<lparr>stored_processes := (stored_processes k)(core \<mapsto> p)\<rparr>)"

definition SetRunningCPU :: "nat \<Rightarrow> kernel \<Rightarrow> kernel option" where
  "SetRunningCPU core k = do {
     T \<leftarrow> SetCurrentTimer core (timing k);
     let k1 = k\<lparr>stored_processes := (stored_processes k)(current_cpu k \<mapsto> current_process k),
                current_cpu := core, timing := T\<rparr>;
     Some (case stored_processes k1 core of None \<Rightarrow> k1 | Some p \<Rightarrow> SetCurrentProcess p k1)
   }"

text \<open>The first half of \<^verbatim>\<open>SwitchContext\<close>: the previous thread.\<close>

definition switch_out :: "nat \<Rightarrow> kernel \<Rightarrow> kernel" where
  "switch_out c k =
     (case current_thread (thread_managers k c) of
        None \<Rightarrow> k
      | Some t \<Rightarrow>
          let k1 = upd_thread t (\<lambda>th. th\<lparr>last_running_ticks := Timer_GetTicks (timers (timing k) ! c),
                                        thread_context := cpu_context k c\<rparr>) k in
          if status (threads k1 t) = Running
          then upd_thread t (\<lambda>th. th\<lparr>status := Ready\<rparr>)
                 (upd_ready c (push_front (current_priority (threads k1 t)) t) k1)
          else k1)"

definition previous_process :: "nat \<Rightarrow> kernel \<Rightarrow> nat option" where
  "previous_process c k =
     (case current_thread (thread_managers k c) of None \<Rightarrow> None | Some t \<Rightarrow> owner_process (threads k t))"

definition SwitchContext :: "nat \<Rightarrow> nat option \<Rightarrow> kernel \<Rightarrow> kernel option" where
  "SwitchContext c new_thread k =
     (let k1 = switch_out c k in
      case new_thread of
        None \<Rightarrow> Some (upd_manager c (\<lambda>m. m\<lparr>current_thread := None\<rparr>) k1)
      | Some n \<Rightarrow> do {
          assert_opt (status (threads k1 n) = Ready);
          let k2 = k1\<lparr>timing := UnscheduleEvent (wakeup_event c) (thread_id (threads k1 n)) (timing k1)\<rparr>;
          let k3 = upd_thread n (\<lambda>th. th\<lparr>status := Running\<rparr>)
                     (upd_ready c (tql_remove (current_priority (threads k1 n)) n)
                       (upd_manager c (\<lambda>m. m\<lparr>current_thread := Some n\<rparr>) k2));
          p \<leftarrow> owner_process (threads k3 n);
          let k4 = (if previous_process c k \<noteq> Some p then SetCurrentProcessForCPU p c k3 else k3);
          Some (k4\<lparr>cpu_context := (cpu_context k4)(c := thread_context (threads k4 n)),
                   cp15_thread_uro := (cp15_thread_uro k4)(c := tls_address (threads k4 n))\<rparr>)
        })"

definition Reschedule :: "nat \<Rightarrow> kernel \<Rightarrow> kernel option" where
  "Reschedule c k = do {
     (next, k1) \<leftarrow> PopNextReadyThread c k;
     if current_thread (thread_managers k c) = None \<and> next = None then Some k1
     else SwitchContext c next k1
   }"

definition HaveReadyThreads :: "nat \<Rightarrow> kernel \<Rightarrow> bool option" where
  "HaveReadyThreads c k = map_option (\<lambda>r. r \<noteq> None) (get_first (rq k c))"

definition WaitCurrentThread_Sleep :: "nat \<Rightarrow> kernel \<Rightarrow> kernel option" where
  "WaitCurrentThread_Sleep c k =
     map_option (\<lambda>t. upd_thread t (\<lambda>th. th\<lparr>status := WaitSleep\<rparr>) k) (current_thread (thread_managers k c))"


section \<open>Ending threads\<close>

text \<open>
  The end of \<^verbatim>\<open>Thread::Stop\<close>: the slot of thread local storage becomes free and the thread no longer counts
  against the limit of its process.
\<close>

definition free_tls :: "nat \<Rightarrow> kernel \<Rightarrow> kernel option" where
  "free_tls t k =
     (let th = threads k t; off = sub_u32 (tls_address th) TLS_AREA_VADDR;
          page = off div CITRA_PAGE_SIZE; slot = off mod CITRA_PAGE_SIZE div TLS_ENTRY_SIZE in
      case owner_process th of
        None \<Rightarrow> Some k
      | Some p \<Rightarrow>
          let pr = processes k p in do {
            assert_opt (page < length (tls_slots pr) \<and> slot < length (tls_slots pr ! page));
            (_, r) \<leftarrow> Release (type_index RThread) 1 (resource_limits k (resource_limit pr));
            Some (k\<lparr>processes := (processes k)(p := pr\<lparr>tls_slots := (tls_slots pr)[page := (tls_slots pr ! page)[slot := False]]\<rparr>),
                    resource_limits := (resource_limits k)(resource_limit pr := r)\<rparr>)
          })"

definition Stop :: "nat \<Rightarrow> kernel \<Rightarrow> kernel option" where
  "Stop t k =
     (let th = threads k t; c = core_id th;
          k1 = upd_manager c (\<lambda>m. m\<lparr>wakeup_callback_table := (wakeup_callback_table m)(thread_id th := None)\<rparr>)
                 (k\<lparr>timing := UnscheduleEvent (wakeup_event c) (thread_id th) (timing k)\<rparr>);
          k2 = (if status th = Ready then upd_ready c (tql_remove (current_priority th) t) k1 else k1)
      in do {
        k3 \<leftarrow> WakeupAllWaitingThreads (WThread t) (upd_thread t (\<lambda>th. th\<lparr>status := Dead\<rparr>) k2);
        k4 \<leftarrow> ReleaseThreadMutexes t (leave_waits t k3);
        free_tls t k4
      })"

definition ExitCurrentThread :: "nat \<Rightarrow> kernel \<Rightarrow> kernel option" where
  "ExitCurrentThread c k = do {
     t \<leftarrow> current_thread (thread_managers k c);
     k1 \<leftarrow> Stop t k;
     Some (PrepareReschedule (upd_manager c (\<lambda>m. m\<lparr>thread_list := removeAll t (thread_list m)\<rparr>) k1))
   }"

definition TerminateProcessThreads :: "nat \<Rightarrow> nat \<Rightarrow> kernel \<Rightarrow> kernel option" where
  "TerminateProcessThreads c p k = do {
     k1 \<leftarrow> fold_opt (\<lambda>t k.
            if current_thread (thread_managers k c) = Some t \<or> owner_process (threads k t) \<noteq> Some p then Some k
            else do {
              k1 \<leftarrow> Stop t k;
              Some (upd_manager c (\<lambda>m. m\<lparr>thread_list := remove1 t (thread_list m)\<rparr>) k1)
            }) (thread_list (thread_managers k c)) k;
     case current_thread (thread_managers k1 c) of
       None \<Rightarrow> Some k1
     | Some t \<Rightarrow> if owner_process (threads k1 t) = Some p then ExitCurrentThread c k1 else Some k1
   }"

text \<open>The table lookup throws for an unknown thread.\<close>

definition ThreadWakeupCallback :: "nat \<Rightarrow> nat \<Rightarrow> kernel \<Rightarrow> kernel option" where
  "ThreadWakeupCallback c tid k = do {
     t \<leftarrow> wakeup_callback_table (thread_managers k c) tid;
     k1 \<leftarrow> (if status (threads k t) \<in> {WaitSynchAny, WaitSynchAll, WaitArb, WaitHleEvent}
           then map_option (leave_waits t) (run_wakeup_callback Timeout t None k)
           else Some k);
     ResumeFromWait t k1
   }"

text \<open>What the timers call: the callbacks that \<^verbatim>\<open>ThreadManager\<close> and \<^verbatim>\<open>TimerManager\<close> register.\<close>

fun kernel_callback :: "kernel_cb \<Rightarrow> nat \<Rightarrow> int \<Rightarrow> kernel \<Rightarrow> kernel option" where
  "kernel_callback (ThreadWakeupCB c) user_data late k = ThreadWakeupCallback c user_data k"
| "kernel_callback TimerCB user_data late k = TimerCallback user_data late k"

definition kernel_invoke :: "(kernel_cb, kernel) invoker" where
  "kernel_invoke cb user_data late = (\<lambda>(T, k).
     map_option (\<lambda>k1. (timing k1, k1)) (kernel_callback cb user_data late (k\<lparr>timing := T\<rparr>)))"

definition Kernel_Advance :: "nat \<Rightarrow> nat \<Rightarrow> kernel \<Rightarrow> kernel option" where
  "Kernel_Advance fuel core k =
     map_option (\<lambda>(T, k1). k1\<lparr>timing := T\<rparr>) (Advance kernel_invoke fuel core (timing k, k))"


section \<open>Popping the next thread\<close>

lemma queue_size_sum: "queue_size q = (\<Sum>p < NUM_QUEUES q. length (q_data q p))"
proof -
  have "queue_size q = sum_list (map length (levels q))"
    by (simp add: queue_size_def contents_def length_concat)
  also have "\<dots> = (\<Sum>p < length (levels q). length (levels q ! p))"
    by (simp add: sum_list_sum_nth atLeast0LessThan)
  finally show ?thesis by simp
qed

lemma queue_size_pop:
  assumes "NUM_QUEUES q' = NUM_QUEUES q" "p < NUM_QUEUES q" "q_data q p = x # q_data q' p"
    "\<forall>k. k \<noteq> p \<longrightarrow> q_data q' k = q_data q k"
  shows "queue_size q = Suc (queue_size q')"
proof -
  have "(\<Sum>k < NUM_QUEUES q. length (q_data q k)) =
        length (q_data q p) + (\<Sum>k \<in> {..<NUM_QUEUES q} - {p}. length (q_data q k))"
    using assms(2) by (intro sum.remove) auto
  moreover have "(\<Sum>k < NUM_QUEUES q. length (q_data q' k)) =
        length (q_data q' p) + (\<Sum>k \<in> {..<NUM_QUEUES q} - {p}. length (q_data q' k))"
    using assms(2) by (intro sum.remove) auto
  moreover have "(\<Sum>k \<in> {..<NUM_QUEUES q} - {p}. length (q_data q' k)) =
        (\<Sum>k \<in> {..<NUM_QUEUES q} - {p}. length (q_data q k))"
    using assms(4) by (intro sum.cong) auto
  ultimately show ?thesis
    using assms(1,3) by (simp add: queue_size_sum)
qed

text \<open>
  The contract of the two pops, for threads more urgent than \<open>b\<close>: \<open>b\<close> is the current priority for
  \<^verbatim>\<open>pop_first_better\<close> and the number of levels for \<^verbatim>\<open>pop_first\<close>.
\<close>

definition pops_below :: "nat \<Rightarrow> (nat tql \<Rightarrow> (nat option \<times> nat tql) option) \<Rightarrow> bool" where
  "pops_below b pop \<longleftrightarrow> b \<le> 64 \<and> (\<forall>q. tql_inv q \<and> NUM_QUEUES q = 64 \<and> (b < 64 \<longrightarrow> linked q b) \<longrightarrow>
     (\<exists>r q'. pop q = Some (r, q') \<and> tql_inv q' \<and> NUM_QUEUES q' = 64 \<and> (\<forall>p. linked q' p = linked q p) \<and>
        (case r of
           None \<Rightarrow> q' = q \<and> (\<forall>p < b. q_data q p = [])
         | Some x \<Rightarrow> \<exists>p < b. (\<forall>k < p. q_data q k = []) \<and> q_data q p = x # q_data q' p \<and>
             (\<forall>k. k \<noteq> p \<longrightarrow> q_data q' k = q_data q k))))"

lemma pops_below_first: "pops_below 64 pop_first"
  unfolding pops_below_def
proof (intro conjI allI impI, goal_cases)
  case 1 then show ?case by simp
next
  case (2 q)
  then have a: "tql_inv q" "NUM_QUEUES q = 64" by auto
  show ?case using tq.pop_law [OF a(1), unfolded a(2)] .
qed

lemma pops_below_better:
  assumes b: "b < 64"
  shows "pops_below b (pop_first_better b)"
  unfolding pops_below_def
proof (intro conjI allI impI, goal_cases)
  case 1 then show ?case using b by simp
next
  case (2 q)
  then have a: "tql_inv q" "NUM_QUEUES q = 64" "linked q b" using b by auto
  show ?case using tq.pop_better_law [OF a(1,3), unfolded a(2)] .
qed

text \<open>A queue that holds every element once, on the level \<open>prio\<close> says.\<close>

definition sorted_queue :: "(nat \<Rightarrow> nat) \<Rightarrow> nat tql \<Rightarrow> bool" where
  "sorted_queue prio q \<longleftrightarrow> tql_inv q \<and> NUM_QUEUES q = 64 \<and>
     (\<forall>p < 64. distinct (q_data q p) \<and> (\<forall>x \<in> set (q_data q p). prio x = p))"

definition queue_set :: "nat tql \<Rightarrow> nat set" where
  "queue_set q = (\<Union>p < 64. set (q_data q p))"

lemma pop_step:
  assumes pop: "pops_below b pop" and q: "sorted_queue prio q" "b < 64 \<longrightarrow> linked q b"
  shows "\<exists>r q'. pop q = Some (r, q') \<and> sorted_queue prio q' \<and> (\<forall>p. linked q' p = linked q p) \<and>
    (case r of
       None \<Rightarrow> q' = q \<and> (\<forall>x \<in> queue_set q. b \<le> prio x)
     | Some x \<Rightarrow> prio x < b \<and> x \<in> queue_set q \<and> queue_set q' = queue_set q - {x} \<and>
         (\<forall>y \<in> queue_set q. prio x \<le> prio y) \<and> queue_size q = Suc (queue_size q'))"
proof -
  have "tql_inv q" "NUM_QUEUES q = 64" and sq: "\<And>p. p < 64 \<Longrightarrow> distinct (q_data q p)"
    "\<And>p x. p < 64 \<Longrightarrow> x \<in> set (q_data q p) \<Longrightarrow> prio x = p"
    using q(1) by (auto simp: sorted_queue_def)
  with pop q(2) obtain r q' where r: "pop q = Some (r, q')" "tql_inv q'" "NUM_QUEUES q' = 64"
    "\<forall>p. linked q' p = linked q p" and b: "b \<le> 64"
    and c: "case r of None \<Rightarrow> q' = q \<and> (\<forall>p < b. q_data q p = [])
         | Some x \<Rightarrow> \<exists>p < b. (\<forall>k < p. q_data q k = []) \<and> q_data q p = x # q_data q' p \<and>
             (\<forall>k. k \<noteq> p \<longrightarrow> q_data q' k = q_data q k)"
    unfolding pops_below_def by meson
  show ?thesis
  proof (cases r)
    case None
    have "b \<le> prio x" if "x \<in> queue_set q" for x
    proof -
      obtain p where p: "p < 64" "x \<in> set (q_data q p)" using \<open>x \<in> queue_set q\<close> by (auto simp: queue_set_def)
      moreover have "\<not> p < b" using c None p(2) by auto
      ultimately show ?thesis using sq(2) [OF p] by simp
    qed
    then show ?thesis using r c None q(1) by auto
  next
    case (Some x)
    then obtain p where p: "p < b" "\<forall>k < p. q_data q k = []" "q_data q p = x # q_data q' p"
      "\<forall>k. k \<noteq> p \<longrightarrow> q_data q' k = q_data q k"
      using c by auto
    have p64: "p < 64" using p(1) b by simp
    have x: "prio x = p" "x \<notin> set (q_data q' p)"
      using sq(1) [OF p64] sq(2) [OF p64, of x] p(3) by auto
    have sub: "set (q_data q' k) \<subseteq> set (q_data q k)" for k
      using p(3,4) by (cases "k = p") auto
    have "sorted_queue prio q'"
      unfolding sorted_queue_def
    proof (intro conjI allI impI)
      fix k :: nat assume k: "k < 64"
      show "distinct (q_data q' k)"
        using sq(1) [OF k] p(3,4) by (cases "k = p") auto
      show "\<forall>y \<in> set (q_data q' k). prio y = k"
        using sq(2) [OF k] sub by blast
    qed (use r in auto)
    moreover have "set (q_data q' k) = set (q_data q k) - {x}" if "k < 64" for k
      using p(3,4) x sq(2) [OF that, of x] by (cases "k = p") auto
    then have "queue_set q' = queue_set q - {x}"
      by (auto simp: queue_set_def)
    moreover have "x \<in> queue_set q"
      using p64 p(3) by (auto simp: queue_set_def intro!: bexI [of _ p])
    moreover have "prio x \<le> prio y" if "y \<in> queue_set q" for y
    proof -
      obtain k where k: "k < 64" "y \<in> set (q_data q k)" using \<open>y \<in> queue_set q\<close> by (auto simp: queue_set_def)
      then show ?thesis using p(2) x(1) sq(2) [OF k] by (metis empty_iff empty_set leI)
    qed
    moreover have "queue_size q = Suc (queue_size q')"
      using queue_size_pop [of q' q p x] r(3) \<open>NUM_QUEUES q = 64\<close> p64 p(3,4) by simp
    ultimately show ?thesis
      using r Some x p(1) by auto
  qed
qed

lemma pop_loop_spec:
  assumes pop: "pops_below b pop" and "sorted_queue prio q" "b < 64 \<longrightarrow> linked q b" "queue_size q < n"
  shows "\<exists>r q' us. pop_loop pop sch n q aside = Some (r, q', aside @ us) \<and> sorted_queue prio q' \<and>
    (\<forall>p. linked q' p = linked q p) \<and> distinct us \<and> set us \<subseteq> {y \<in> queue_set q. \<not> sch y} \<and>
    queue_set q' = queue_set q - set us - set_option r \<and>
    (case r of
       None \<Rightarrow> \<forall>y \<in> queue_set q. sch y \<longrightarrow> b \<le> prio y
     | Some x \<Rightarrow> sch x \<and> prio x < b \<and> x \<in> queue_set q \<and> (\<forall>y \<in> queue_set q. sch y \<longrightarrow> prio x \<le> prio y))"
  using assms(2-4)
proof (induction n arbitrary: q aside)
  case 0
  then show ?case by simp
next
  case (Suc n)
  obtain r q' where r: "pop q = Some (r, q')" "sorted_queue prio q'" "\<forall>p. linked q' p = linked q p"
    and c: "case r of None \<Rightarrow> q' = q \<and> (\<forall>x \<in> queue_set q. b \<le> prio x)
     | Some x \<Rightarrow> prio x < b \<and> x \<in> queue_set q \<and> queue_set q' = queue_set q - {x} \<and>
         (\<forall>y \<in> queue_set q. prio x \<le> prio y) \<and> queue_size q = Suc (queue_size q')"
    using pop_step [OF pop Suc.prems(1,2)] by blast
  show ?case
  proof (cases r)
    case None
    then show ?thesis
      using r c by (intro exI [of _ None] exI [of _ q'] exI [of _ "[]"]) simp
  next
    case (Some x)
    then have x: "prio x < b" "x \<in> queue_set q" "queue_set q' = queue_set q - {x}"
      "\<forall>y \<in> queue_set q. prio x \<le> prio y" "queue_size q = Suc (queue_size q')"
      using c by auto
    show ?thesis
    proof (cases "sch x")
      case True
      then show ?thesis
        using r Some x by (intro exI [of _ "Some x"] exI [of _ q'] exI [of _ "[]"]) simp
    next
      case False
      have "b < 64 \<longrightarrow> linked q' b" "queue_size q' < n"
        using r(3) Suc.prems(2,3) x(5) by auto
      then obtain r2 q2 us where IH: "pop_loop pop sch n q' (aside @ [x]) = Some (r2, q2, (aside @ [x]) @ us)"
        "sorted_queue prio q2" "\<forall>p. linked q2 p = linked q' p" "distinct us"
        "set us \<subseteq> {y \<in> queue_set q'. \<not> sch y}" "queue_set q2 = queue_set q' - set us - set_option r2"
        "case r2 of None \<Rightarrow> \<forall>y \<in> queue_set q'. sch y \<longrightarrow> b \<le> prio y
         | Some x \<Rightarrow> sch x \<and> prio x < b \<and> x \<in> queue_set q' \<and> (\<forall>y \<in> queue_set q'. sch y \<longrightarrow> prio x \<le> prio y)"
        using Suc.IH [OF r(2), of "aside @ [x]"] by blast
      have "case r2 of None \<Rightarrow> \<forall>y \<in> queue_set q. sch y \<longrightarrow> b \<le> prio y
         | Some x \<Rightarrow> sch x \<and> prio x < b \<and> x \<in> queue_set q \<and> (\<forall>y \<in> queue_set q. sch y \<longrightarrow> prio x \<le> prio y)"
        using IH(7) False x(3) by (cases r2) auto
      then show ?thesis
        using r(1,3) Some False IH x(2,3)
        by (intro exI [of _ r2] exI [of _ q2] exI [of _ "x # us"]) auto
    qed
  qed
qed

text \<open>Pushing and removing, seen as operations on sets of threads.\<close>

lemma sorted_queueD:
  assumes "sorted_queue prio q"
  shows "tql_inv q" "NUM_QUEUES q = 64" "p < 64 \<Longrightarrow> distinct (q_data q p)"
    "p < 64 \<Longrightarrow> set (q_data q p) = {x \<in> queue_set q. prio x = p}"
  using assms by (auto simp: sorted_queue_def queue_set_def)

lemma sorted_queueI:
  assumes "tql_inv q" "NUM_QUEUES q = 64" "\<And>p. p < 64 \<Longrightarrow> distinct (q_data q p)"
    "\<And>p. p < 64 \<Longrightarrow> set (q_data q p) = {x \<in> X. prio x = p}" "\<And>x. x \<in> X \<Longrightarrow> prio x < 64"
  shows "sorted_queue prio q \<and> queue_set q = X"
  using assms by (auto simp: sorted_queue_def queue_set_def)

lemma queue_set_prio: "sorted_queue prio q \<Longrightarrow> x \<in> queue_set q \<Longrightarrow> prio x < 64"
  by (auto simp: sorted_queue_def queue_set_def)

lemma sorted_push:
  assumes s: "sorted_queue prio q" and x: "linked q (prio x)" "x \<notin> queue_set q" "prio x < 64"
  shows "sorted_queue prio (push_back (prio x) x q) \<and> queue_set (push_back (prio x) x q) = insert x (queue_set q)"
    "sorted_queue prio (push_front (prio x) x q) \<and> queue_set (push_front (prio x) x q) = insert x (queue_set q)"
proof -
  note q = sorted_queueD [OF s] and inv = push_back_inv [OF sorted_queueD(1) [OF s] x(1)]
    push_front_inv [OF sorted_queueD(1) [OF s] x(1)]
  show "sorted_queue prio (push_back (prio x) x q) \<and> queue_set (push_back (prio x) x q) = insert x (queue_set q)"
    by (rule sorted_queueI) (use q inv x queue_set_prio [OF s] in \<open>auto simp: ops_data\<close>)
  show "sorted_queue prio (push_front (prio x) x q) \<and> queue_set (push_front (prio x) x q) = insert x (queue_set q)"
    by (rule sorted_queueI) (use q inv x queue_set_prio [OF s] in \<open>auto simp: ops_data\<close>)
qed

lemma sorted_remove:
  assumes s: "sorted_queue prio q" and x: "prio x < 64"
  shows "sorted_queue prio (tql_remove (prio x) x q) \<and> queue_set (tql_remove (prio x) x q) = queue_set q - {x}"
  by (rule sorted_queueI)
    (use sorted_queueD [OF s] remove_inv [of q "prio x" x] x queue_set_prio [OF s] in \<open>auto simp: ops_data distinct_removeAll\<close>)

lemma sorted_fold_push:
  assumes "sorted_queue prio q" "distinct us" "set us \<inter> queue_set q = {}"
    "\<forall>u \<in> set us. prio u < 64 \<and> linked q (prio u)"
  shows "sorted_queue prio (fold (\<lambda>u. push_back (prio u) u) us q) \<and>
    queue_set (fold (\<lambda>u. push_back (prio u) u) us q) = queue_set q \<union> set us \<and>
    (\<forall>p. linked (fold (\<lambda>u. push_back (prio u) u) us q) p = linked q p)"
  using assms
proof (induction us arbitrary: q)
  case (Cons u us)
  then have "sorted_queue prio (push_back (prio u) u q)" "queue_set (push_back (prio u) u q) = insert u (queue_set q)"
    using sorted_push(1) [of prio q u] by auto
  then show ?case
    using Cons.IH [of "push_back (prio u) u q"] Cons.prems by auto
qed simp


section \<open>The ready threads of a core\<close>

definition ready_set :: "kernel \<Rightarrow> nat \<Rightarrow> nat set" where
  "ready_set k c = {t. t < num_threads k \<and> core_id (threads k t) = c \<and> status (threads k t) = Ready}"

abbreviation prio_of :: "kernel \<Rightarrow> nat \<Rightarrow> nat" where
  "prio_of k t \<equiv> current_priority (threads k t)"

lemma queue_ok_sorted:
  assumes "\<forall>t \<in> ready_set k c. prio_of k t < 64"
  shows "queue_ok k c \<longleftrightarrow> sorted_queue (prio_of k) (rq k c) \<and> queue_set (rq k c) = ready_set k c"
proof
  assume q: "queue_ok k c"
  show "sorted_queue (prio_of k) (rq k c) \<and> queue_set (rq k c) = ready_set k c"
    using queue_okD [OF q] assms by (auto simp: sorted_queue_def queue_set_def ready_set_def)
next
  assume s: "sorted_queue (prio_of k) (rq k c) \<and> queue_set (rq k c) = ready_set k c"
  have "set (q_data (rq k c) p) = {t \<in> ready_set k c. prio_of k t = p}" if "p < 64" for p
  proof (intro equalityI subsetI)
    fix t assume "t \<in> set (q_data (rq k c) p)"
    then show "t \<in> {t \<in> ready_set k c. prio_of k t = p}"
      using s that by (auto simp: sorted_queue_def queue_set_def)
  next
    fix t assume t: "t \<in> {t \<in> ready_set k c. prio_of k t = p}"
    then obtain p' where "p' < 64" "t \<in> set (q_data (rq k c) p')"
      using s by (auto simp: queue_set_def)
    then show "t \<in> set (q_data (rq k c) p)"
      using s t by (auto simp: sorted_queue_def)
  qed
  then show "queue_ok k c"
    using s by (auto simp: queue_ok_def sorted_queue_def ready_set_def)
qed

lemma ready_prio: "sched_inv k \<Longrightarrow> t \<in> ready_set k c \<Longrightarrow> prio_of k t < 64 \<and> linked (rq k c) (prio_of k t)"
  using sched_invD(2) [of k t] by (auto simp: ready_set_def thread_ok_def)

lemma sched_sorted:
  "sched_inv k \<Longrightarrow> sorted_queue (prio_of k) (rq k c) \<and> queue_set (rq k c) = ready_set k c"
  using queue_ok_sorted [of k c] ready_prio [of k _ c] sched_invD(1) [of k c] by blast

text \<open>
  What choosing the next thread promises, in terms of the threads alone: nothing is running and no ready thread may
  be scheduled, or the result is a most urgent candidate, where the running thread is only displaced by a strictly
  more urgent one.
\<close>

definition running_thread :: "kernel \<Rightarrow> nat \<Rightarrow> nat option" where
  "running_thread k c = (case current_thread (thread_managers k c) of
     Some t \<Rightarrow> if status (threads k t) = Running then Some t else None | None \<Rightarrow> None)"

definition best_choice :: "kernel \<Rightarrow> nat \<Rightarrow> nat option \<Rightarrow> bool" where
  "best_choice k c next \<longleftrightarrow>
     (case next of
        None \<Rightarrow> running_thread k c = None \<and> (\<forall>y \<in> ready_set k c. \<not> can_schedule (threads k y))
      | Some n \<Rightarrow>
          (running_thread k c = Some n \<or>
           n \<in> ready_set k c \<and> can_schedule (threads k n) \<and>
             (\<forall>t. running_thread k c = Some t \<longrightarrow> prio_of k n < prio_of k t)) \<and>
          (\<forall>y \<in> ready_set k c. can_schedule (threads k y) \<longrightarrow> prio_of k n \<le> prio_of k y))"

lemma PopNext_spec:
  assumes inv: "sched_inv k" and aside: "unscheduled_ready_queue (thread_managers k c) = []"
    and run: "\<And>t. running_thread k c = Some t \<Longrightarrow> t < num_threads k \<and> core_id (threads k t) = c"
  shows "\<exists>next q. PopNextReadyThread c k =
      Some (next, upd_manager c (\<lambda>m. m\<lparr>ready_queue := q, unscheduled_ready_queue := []\<rparr>) k) \<and>
    sorted_queue (prio_of k) q \<and> (\<forall>p. linked q p = linked (rq k c) p) \<and>
    queue_set q = ready_set k c - set_option next \<and> best_choice k c next"
proof -
  let ?sch = "\<lambda>t. can_schedule (threads k t)" and ?n = "queue_size (rq k c) + 1"
  let ?push = "fold (\<lambda>u. push_back (prio_of k u) u)"
  note s = sched_sorted [OF inv, of c]
  have restored: "sorted_queue (prio_of k) (?push (rev us) q1) \<and> (\<forall>p. linked (?push (rev us) q1) p = linked (rq k c) p) \<and>
      queue_set (?push (rev us) q1) = ready_set k c - set_option r"
    if "sorted_queue (prio_of k) q1" "\<forall>p. linked q1 p = linked (rq k c) p" "distinct us"
      "set us \<subseteq> {y \<in> queue_set (rq k c). \<not> ?sch y}" "queue_set q1 = queue_set (rq k c) - set us - set_option r"
      "\<forall>x. r = Some x \<longrightarrow> ?sch x" for r q1 us
  proof -
    have "\<forall>u \<in> set (rev us). prio_of k u < 64 \<and> linked q1 (prio_of k u)"
      using that(2,4) s ready_prio [OF inv, of _ c] by auto
    then have "sorted_queue (prio_of k) (?push (rev us) q1) \<and> queue_set (?push (rev us) q1) = queue_set q1 \<union> set us \<and>
        (\<forall>p. linked (?push (rev us) q1) p = linked q1 p)"
      using sorted_fold_push [of "prio_of k" q1 "rev us"] that by auto
    moreover have "queue_set q1 \<union> set us = ready_set k c - set_option r"
      using that(4-6) s by (cases r) auto
    ultimately show ?thesis using that(2) by simp
  qed
  show ?thesis
  proof (cases "running_thread k c")
    case None
    then have run: "(case current_thread (thread_managers k c) of
        Some t \<Rightarrow> if status (threads k t) = Running then Some t else None | None \<Rightarrow> None) = None"
      by (simp add: running_thread_def)
    obtain r q1 us where l: "pop_loop pop_first ?sch ?n (rq k c) [] = Some (r, q1, us)"
      and q1: "sorted_queue (prio_of k) q1" "\<forall>p. linked q1 p = linked (rq k c) p" "distinct us"
        "set us \<subseteq> {y \<in> queue_set (rq k c). \<not> ?sch y}" "queue_set q1 = queue_set (rq k c) - set us - set_option r"
      and r: "case r of None \<Rightarrow> \<forall>y \<in> queue_set (rq k c). ?sch y \<longrightarrow> 64 \<le> prio_of k y
         | Some x \<Rightarrow> ?sch x \<and> prio_of k x < 64 \<and> x \<in> queue_set (rq k c) \<and>
             (\<forall>y \<in> queue_set (rq k c). ?sch y \<longrightarrow> prio_of k x \<le> prio_of k y)"
      using pop_loop_spec [OF pops_below_first, of "prio_of k" "rq k c" ?n ?sch "[]"] s by auto
    have "\<not> 64 \<le> prio_of k y" if "y \<in> ready_set k c" for y
      using ready_prio [OF inv that] by simp
    then have "best_choice k c r"
      using r None s by (cases r) (auto simp: best_choice_def)
    moreover have "\<forall>x. r = Some x \<longrightarrow> ?sch x" using r by (cases r) auto
    ultimately show ?thesis
      using restored [OF q1] l aside
      by (intro exI [of _ r] exI [of _ "?push (rev us) q1"]) (simp add: PopNextReadyThread_def Let_def run del: pop_loop.simps)
  next
    case (Some t)
    then have ct: "(case current_thread (thread_managers k c) of
        Some t \<Rightarrow> if status (threads k t) = Running then Some t else None | None \<Rightarrow> None) = Some t"
      and st: "status (threads k t) = Running"
      by (auto simp: running_thread_def split: option.splits if_splits)
    have t: "prio_of k t < 64" "linked (rq k c) (prio_of k t)"
      using sched_invD(2) [OF inv, of t] run [OF Some] by (auto simp: thread_ok_def)
    obtain r q1 us where l: "pop_loop (pop_first_better (prio_of k t)) ?sch ?n (rq k c) [] = Some (r, q1, us)"
      and q1: "sorted_queue (prio_of k) q1" "\<forall>p. linked q1 p = linked (rq k c) p" "distinct us"
        "set us \<subseteq> {y \<in> queue_set (rq k c). \<not> ?sch y}" "queue_set q1 = queue_set (rq k c) - set us - set_option r"
      and r: "case r of None \<Rightarrow> \<forall>y \<in> queue_set (rq k c). ?sch y \<longrightarrow> prio_of k t \<le> prio_of k y
         | Some x \<Rightarrow> ?sch x \<and> prio_of k x < prio_of k t \<and> x \<in> queue_set (rq k c) \<and>
             (\<forall>y \<in> queue_set (rq k c). ?sch y \<longrightarrow> prio_of k x \<le> prio_of k y)"
      using pop_loop_spec [OF pops_below_better [OF t(1)], of "prio_of k" "rq k c" ?n ?sch "[]"] s t by auto
    let ?next = "case r of None \<Rightarrow> Some t | Some n \<Rightarrow> Some n"
    have "best_choice k c ?next"
      using r Some s by (cases r) (auto simp: best_choice_def)
    moreover have "\<forall>x. r = Some x \<longrightarrow> ?sch x" using r by (cases r) auto
    moreover have "ready_set k c - set_option r = ready_set k c - set_option ?next"
      using st by (cases r) (auto simp: ready_set_def)
    ultimately show ?thesis
      using restored [OF q1] l aside
      by (intro exI [of _ ?next] exI [of _ "?push (rev us) q1"]) (simp add: PopNextReadyThread_def Let_def ct del: pop_loop.simps)
  qed
qed

section \<open>Switching\<close>

lemma upd_cpu_context [simp]:
  "cpu_context (upd_thread t f k) = cpu_context k" "cpu_context (upd_ready c g k) = cpu_context k"
  "cpu_context (upd_manager c h k) = cpu_context k"
  by (simp_all add: upd_thread_def upd_ready_def upd_manager_def)

lemma switch_out_frame [simp]:
  "num_threads (switch_out c k) = num_threads k" "mutexes (switch_out c k) = mutexes k"
  "cpu_context (switch_out c k) = cpu_context k"
  "current_thread (thread_managers (switch_out c k) c') = current_thread (thread_managers k c')"
  "unscheduled_ready_queue (thread_managers (switch_out c k) c') = unscheduled_ready_queue (thread_managers k c')"
  by (simp_all add: switch_out_def Let_def split: option.split)

lemma switch_out_threads:
  "threads (switch_out c k) u =
     (if current_thread (thread_managers k c) = Some u
      then (threads k u)\<lparr>last_running_ticks := Timer_GetTicks (timers (timing k) ! c), thread_context := cpu_context k c,
              status := (if status (threads k u) = Running then Ready else status (threads k u))\<rparr>
      else threads k u)"
  by (auto simp: switch_out_def Let_def split: option.split)

lemma switch_out_rq:
  "rq (switch_out c k) c' =
     (case running_thread k c of
        Some t \<Rightarrow> if c' = c then push_front (prio_of k t) t (rq k c) else rq k c'
      | None \<Rightarrow> rq k c')"
  by (auto simp: switch_out_def running_thread_def Let_def split: option.split)

lemma SetCurrentProcess_frame [simp]:
  "threads (SetCurrentProcessForCPU p c k) = threads k" "mutexes (SetCurrentProcessForCPU p c k) = mutexes k"
  "num_threads (SetCurrentProcessForCPU p c k) = num_threads k"
  "thread_managers (SetCurrentProcessForCPU p c k) = thread_managers k"
  "cpu_context (SetCurrentProcessForCPU p c k) = cpu_context k"
  by (simp_all add: SetCurrentProcessForCPU_def SetCurrentProcess_def)

lemma SwitchContext_to:
  assumes "status (threads (switch_out c k) n) = Ready" "owner_process (threads (switch_out c k) n) \<noteq> None"
  shows "\<exists>k'. SwitchContext c (Some n) k = Some k' \<and> num_threads k' = num_threads k \<and> mutexes k' = mutexes k \<and>
    threads k' = (threads (switch_out c k))(n := (threads (switch_out c k) n)\<lparr>status := Running\<rparr>) \<and>
    rq k' c = tql_remove (prio_of (switch_out c k) n) n (rq (switch_out c k) c) \<and>
    (\<forall>c'. c' \<noteq> c \<longrightarrow> rq k' c' = rq (switch_out c k) c') \<and>
    current_thread (thread_managers k' c) = Some n \<and>
    unscheduled_ready_queue (thread_managers k' c) = unscheduled_ready_queue (thread_managers k c) \<and>
    cpu_context k' c = thread_context (threads (switch_out c k) n)"
  using assms by (auto simp: SwitchContext_def Let_def fun_eq_iff)

text \<open>The invariant of the state of one core, beside the ready queues.\<close>

definition core_inv :: "kernel \<Rightarrow> nat \<Rightarrow> bool" where
  "core_inv k c \<longleftrightarrow> unscheduled_ready_queue (thread_managers k c) = [] \<and>
     (\<forall>t. current_thread (thread_managers k c) = Some t \<longrightarrow> t < num_threads k \<and> core_id (threads k t) = c) \<and>
     (\<forall>t < num_threads k. core_id (threads k t) = c \<longrightarrow> owner_process (threads k t) \<noteq> None \<and>
        (status (threads k t) = Running \<longrightarrow> current_thread (thread_managers k c) = Some t))"

lemma core_invD:
  assumes "core_inv k c"
  shows "unscheduled_ready_queue (thread_managers k c) = []"
    "current_thread (thread_managers k c) = Some t \<Longrightarrow> t < num_threads k \<and> core_id (threads k t) = c"
    "t < num_threads k \<Longrightarrow> core_id (threads k t) = c \<Longrightarrow> owner_process (threads k t) \<noteq> None"
    "t < num_threads k \<Longrightarrow> core_id (threads k t) = c \<Longrightarrow> status (threads k t) = Running \<Longrightarrow>
       current_thread (thread_managers k c) = Some t"
  using assms unfolding core_inv_def by blast+

lemma core_invI:
  assumes "unscheduled_ready_queue (thread_managers k c) = []"
    "\<And>t. current_thread (thread_managers k c) = Some t \<Longrightarrow> t < num_threads k \<and> core_id (threads k t) = c"
    "\<And>t. t < num_threads k \<Longrightarrow> core_id (threads k t) = c \<Longrightarrow> owner_process (threads k t) \<noteq> None"
    "\<And>t. t < num_threads k \<Longrightarrow> core_id (threads k t) = c \<Longrightarrow> status (threads k t) = Running \<Longrightarrow>
       current_thread (thread_managers k c) = Some t"
  shows "core_inv k c"
  using assms unfolding core_inv_def by blast

lemma sched_inv_core:
  assumes inv: "sched_inv k" and frame: "num_threads k' = num_threads k" "mutexes k' = mutexes k"
    and th: "\<And>t. core_id (threads k' t) = core_id (threads k t) \<and> prio_of k' t = prio_of k t \<and>
       nominal_priority (threads k' t) = nominal_priority (threads k t) \<and>
       held_mutexes (threads k' t) = held_mutexes (threads k t)"
    and other: "\<And>t. core_id (threads k t) \<noteq> c \<Longrightarrow> status (threads k' t) = status (threads k t)"
    and rq: "\<And>c'. c' \<noteq> c \<Longrightarrow> rq k' c' = rq k c'" "\<And>p. linked (rq k' c) p = linked (rq k c) p"
    and q: "sorted_queue (prio_of k) (rq k' c)" "queue_set (rq k' c) = ready_set k' c"
  shows "sched_inv k'"
proof -
  have tp: "t < num_threads k \<Longrightarrow> prio_of k t < 64" for t
    using sched_invD(2) [OF inv, of t] by (simp add: thread_ok_def)
  have "queue_ok k' c'" for c'
  proof (cases "c' = c")
    case True
    have "\<forall>t \<in> ready_set k' c. prio_of k' t < 64"
      using tp th frame(1) by (simp add: ready_set_def)
    moreover have "sorted_queue (prio_of k') (rq k' c)"
      using q(1) th by simp
    ultimately show ?thesis
      using q(2) queue_ok_sorted [of k' c] True by simp
  next
    case False
    then have "{t. t < num_threads k' \<and> core_id (threads k' t) = c' \<and> status (threads k' t) = Ready \<and> prio_of k' t = p} =
        {t. t < num_threads k \<and> core_id (threads k t) = c' \<and> status (threads k t) = Ready \<and> prio_of k t = p}" for p
      using th other frame(1) by auto
    then show ?thesis using sched_invD(1) [OF inv, of c'] rq(1) [OF False] by (simp add: queue_ok_def)
  qed
  moreover have "thread_ok k' t" if "t < num_threads k" for t
    using sched_invD(2) [OF inv that] th [of t] rq frame(2)
    by (cases "core_id (threads k t) = c") (auto simp: thread_ok_def)
  ultimately show ?thesis by (simp add: sched_inv_def frame(1))
qed

text \<open>The effect of switching away from the current thread, after the next one was chosen.\<close>

definition after_pop :: "nat \<Rightarrow> nat tql \<Rightarrow> kernel \<Rightarrow> kernel" where
  "after_pop c q k = upd_manager c (\<lambda>m. m\<lparr>ready_queue := q, unscheduled_ready_queue := []\<rparr>) k"

lemma after_pop_frame [simp]:
  "threads (after_pop c q k) = threads k" "num_threads (after_pop c q k) = num_threads k"
  "mutexes (after_pop c q k) = mutexes k" "cpu_context (after_pop c q k) = cpu_context k"
  "rq (after_pop c q k) c' = (if c' = c then q else rq k c')"
  "current_thread (thread_managers (after_pop c q k) c') = current_thread (thread_managers k c')"
  "unscheduled_ready_queue (thread_managers (after_pop c q k) c) = []"
  "running_thread (after_pop c q k) c' = running_thread k c'"
  by (simp_all add: after_pop_def running_thread_def split: option.split)

lemma running_threadD:
  "running_thread k c = Some t \<Longrightarrow> current_thread (thread_managers k c) = Some t \<and> status (threads k t) = Running"
  by (auto simp: running_thread_def split: option.splits if_splits)

lemma switch_out_queue:
  assumes inv: "sched_inv k" "core_inv k c" and q: "sorted_queue (prio_of k) q" "queue_set q = ready_set k c - N"
    "\<forall>p. linked q p = linked (rq k c) p"
  shows "let k1 = switch_out c (after_pop c q k) in sorted_queue (prio_of k) (rq k1 c) \<and>
    queue_set (rq k1 c) = (ready_set k c - N) \<union> set_option (running_thread k c) \<and>
    (\<forall>p. linked (rq k1 c) p = linked (rq k c) p)"
proof (cases "running_thread k c")
  case None
  then show ?thesis using q by (simp add: switch_out_rq Let_def)
next
  case (Some t)
  note t = running_threadD [OF Some]
  then have tk: "t < num_threads k" "core_id (threads k t) = c" using core_invD(2) [OF inv(2)] by auto
  then have "prio_of k t < 64" "linked q (prio_of k t)"
    using sched_invD(2) [OF inv(1), of t] q(3) by (auto simp: thread_ok_def)
  moreover have "t \<notin> queue_set q" using q(2) t by (simp add: ready_set_def)
  ultimately have "sorted_queue (prio_of k) (push_front (prio_of k t) t q) \<and>
      queue_set (push_front (prio_of k t) t q) = insert t (queue_set q)"
    using sorted_push(2) [OF q(1), of t] by simp
  then show ?thesis using Some q(2,3) by (simp add: switch_out_rq Let_def)
qed

lemma switch_out_ready:
  assumes "core_inv k c"
  shows "ready_set (switch_out c (after_pop c q k)) c = ready_set k c \<union> set_option (running_thread k c)"
  using core_invD(2) [OF assms]
  by (auto simp: ready_set_def switch_out_threads running_thread_def split: option.splits)

lemma Reschedule_idle:
  assumes inv: "sched_inv k" "core_inv k c" and run: "running_thread k c = None"
    and q: "sorted_queue (prio_of k) q" "queue_set q = ready_set k c" "\<forall>p. linked q p = linked (rq k c) p"
  shows "sched_inv (after_pop c q k)" "core_inv (after_pop c q k) c"
    "sched_inv (upd_manager c (\<lambda>m. m\<lparr>current_thread := None\<rparr>) (switch_out c (after_pop c q k)))" (is "sched_inv ?k")
    "core_inv (upd_manager c (\<lambda>m. m\<lparr>current_thread := None\<rparr>) (switch_out c (after_pop c q k))) c"
proof -
  show "sched_inv (after_pop c q k)"
    by (rule sched_inv_core [OF inv(1), where c = c]) (use q in \<open>auto simp: ready_set_def\<close>)
  show "core_inv (after_pop c q k) c"
    using inv(2) unfolding core_inv_def after_pop_frame by blast
  have q1: "sorted_queue (prio_of k) (rq ?k c)" "queue_set (rq ?k c) = ready_set k c"
    "\<And>p. linked (rq ?k c) p = linked (rq k c) p"
    using switch_out_queue [OF inv, of q "{}"] q run by (auto simp: Let_def)
  have "ready_set ?k c = ready_set k c"
    using switch_out_ready [OF inv(2), of q] run by (simp add: ready_set_def)
  then have q2: "queue_set (rq ?k c) = ready_set ?k c" using q1(2) by simp
  have other: "status (threads ?k t) = status (threads k t)" if "core_id (threads k t) \<noteq> c" for t
    using that core_invD(2) [OF inv(2), of t] by (auto simp: switch_out_threads)
  show "sched_inv ?k"
    by (rule sched_inv_core [OF inv(1) _ _ _ other _ q1(3) q1(1) q2])
      (simp_all add: switch_out_threads switch_out_rq run)
  have "status (threads k t) \<noteq> Running" if "t < num_threads k" "core_id (threads k t) = c" for t
    using core_invD(4) [OF inv(2) that] run by (auto simp: running_thread_def split: option.splits if_splits)
  then show "core_inv ?k c"
    using core_invD(1,3) [OF inv(2)]
    by (intro core_invI) (auto simp: switch_out_threads split: if_splits)
qed

lemma Reschedule_switch:
  assumes inv: "sched_inv k" "core_inv k c" and n: "n \<in> ready_set k c \<or> running_thread k c = Some n"
    and q: "sorted_queue (prio_of k) q" "queue_set q = ready_set k c - {n}" "\<forall>p. linked q p = linked (rq k c) p"
  shows "\<exists>k'. SwitchContext c (Some n) (after_pop c q k) = Some k' \<and> sched_inv k' \<and> core_inv k' c \<and>
    current_thread (thread_managers k' c) = Some n \<and> num_threads k' = num_threads k \<and>
    cpu_context k' c = thread_context (threads k' n) \<and>
    threads k' = (threads (switch_out c (after_pop c q k)))
      (n := (threads (switch_out c (after_pop c q k)) n)\<lparr>status := Running\<rparr>)"
proof -
  let ?k1 = "switch_out c (after_pop c q k)"
  have nk: "n < num_threads k" "core_id (threads k n) = c"
    using n core_invD(2) [OF inv(2), of n] running_threadD [of k c n] by (auto simp: ready_set_def)
  have th1: "core_id (threads ?k1 t) = core_id (threads k t)" "prio_of ?k1 t = prio_of k t"
    "owner_process (threads ?k1 t) = owner_process (threads k t)" for t
    by (simp_all add: switch_out_threads)
  have st: "status (threads ?k1 n) = Ready"
    using n running_threadD [of k c n] by (auto simp: switch_out_threads ready_set_def)
  obtain k' where k': "SwitchContext c (Some n) (after_pop c q k) = Some k'" "num_threads k' = num_threads k"
    "mutexes k' = mutexes k" "threads k' = (threads ?k1)(n := (threads ?k1 n)\<lparr>status := Running\<rparr>)"
    "rq k' c = tql_remove (prio_of k n) n (rq ?k1 c)" "\<And>c'. c' \<noteq> c \<Longrightarrow> rq k' c' = rq ?k1 c'"
    "current_thread (thread_managers k' c) = Some n" "unscheduled_ready_queue (thread_managers k' c) = []"
    "cpu_context k' c = thread_context (threads ?k1 n)"
    using SwitchContext_to [OF st] core_invD(3) [OF inv(2) nk] th1 by auto
  note q1 = switch_out_queue [OF inv q(1) q(2) q(3), unfolded Let_def]
  have p64: "prio_of k n < 64" using sched_invD(2) [OF inv(1) nk(1)] by (simp add: thread_ok_def)
  have r: "sorted_queue (prio_of k) (rq k' c)" "queue_set (rq k' c) = queue_set (rq ?k1 c) - {n}"
    "\<And>p. linked (rq k' c) p = linked (rq k c) p"
    using sorted_remove [of "prio_of k" "rq ?k1 c" n] q1 p64 k'(5) by auto
  have "ready_set k' c = ready_set ?k1 c - {n}"
    using k'(2,4) by (auto simp: ready_set_def split: if_splits)
  then have r2: "queue_set (rq k' c) = ready_set k' c"
    using r(2) q1 switch_out_ready [OF inv(2), of q] by auto
  have other: "status (threads k' t) = status (threads k t)" if "core_id (threads k t) \<noteq> c" for t
    using that core_invD(2) [OF inv(2), of t] nk k'(4) by (auto simp: switch_out_threads)
  have rqo: "rq k' c' = rq k c'" if "c' \<noteq> c" for c'
    using that k'(6) [OF that] by (simp add: switch_out_rq split: option.split)
  have "sched_inv k'"
    by (rule sched_inv_core [OF inv(1) k'(2,3) _ other rqo r(3) r(1) r2]) (simp_all add: k'(4) switch_out_threads)
  moreover have "core_inv k' c"
    unfolding core_inv_def
  proof (intro conjI allI impI)
    fix t assume t: "t < num_threads k'" "core_id (threads k' t) = c"
    then have tk: "t < num_threads k" "core_id (threads k t) = c"
      using k'(2,4) th1 by (auto split: if_splits)
    show "owner_process (threads k' t) \<noteq> None"
      using core_invD(3) [OF inv(2) tk] k'(4) th1 by (cases "t = n") simp_all
    assume "status (threads k' t) = Running"
    then show "current_thread (thread_managers k' c) = Some t"
      using core_invD(4) [OF inv(2) tk] k'(4,7) by (auto simp: switch_out_threads split: if_splits)
  qed (use k' nk th1 in auto)
  ultimately show ?thesis
    using k' by auto
qed

section \<open>Properties\<close>

text \<open>C1: The scheduler chooses the right thread.  In a state where the ready queues agree with the threads and at
  most the current thread of the core runs, rescheduling returns.  Afterwards the core runs a most urgent of the
  ready threads that may be scheduled, or the thread that ran before unless a strictly more urgent one is ready; it is
  idle only if nothing ran and no ready thread may be scheduled.  The chosen thread is running with its saved
  registers on the processor, the registers of the thread that ran before are saved in it, and if it was
  displaced it is ready again.  The invariants hold again, so threads that may not be scheduled are not lost.\<close>

theorem Reschedule_picks_best:
  assumes "sched_inv k" and "core_inv k c"
  shows "\<exists>k'. Reschedule c k = Some k' \<and> sched_inv k' \<and> core_inv k' c \<and>
    best_choice k c (current_thread (thread_managers k' c)) \<and>
    (\<forall>n. current_thread (thread_managers k' c) = Some n \<longrightarrow>
       status (threads k' n) = Running \<and> cpu_context k' c = thread_context (threads k' n)) \<and>
    (\<forall>t. thread_context (threads k' t) =
       (if current_thread (thread_managers k c) = Some t then cpu_context k c else thread_context (threads k t))) \<and>
    (\<forall>t. running_thread k c = Some t \<and> current_thread (thread_managers k' c) \<noteq> Some t \<longrightarrow>
       status (threads k' t) = Ready)"
proof -
  have run: "t < num_threads k \<and> core_id (threads k t) = c" if "running_thread k c = Some t" for t
    using core_invD(2) [OF assms(2)] running_threadD [OF that] by simp
  obtain nt q where p: "PopNextReadyThread c k = Some (nt, after_pop c q k)" "sorted_queue (prio_of k) q"
    "\<forall>p. linked q p = linked (rq k c) p" "queue_set q = ready_set k c - set_option nt" "best_choice k c nt"
    using PopNext_spec [OF assms(1) core_invD(1) [OF assms(2)] run] by (auto simp: after_pop_def)
  show ?thesis
  proof (cases nt)
    case None
    then have idle: "running_thread k c = None" using p(5) by (simp add: best_choice_def)
    note i = Reschedule_idle [OF assms idle p(2) _ p(3)]
    have q: "queue_set q = ready_set k c" using p(4) None by simp
    show ?thesis
    proof (cases "current_thread (thread_managers k c)")
      case None': None
      then show ?thesis
        using p None i(1,2) [OF q] idle
        by (intro exI [of _ "after_pop c q k"]) (simp add: Reschedule_def)
    next
      case (Some t)
      then show ?thesis
        using p(1,5) None i(3,4) [OF q] idle
        by (intro exI [of _ "upd_manager c (\<lambda>m. m\<lparr>current_thread := None\<rparr>) (switch_out c (after_pop c q k))"])
          (simp add: Reschedule_def SwitchContext_def Let_def switch_out_threads)
    qed
  next
    case (Some n)
    have n: "n \<in> ready_set k c \<or> running_thread k c = Some n"
      using p(5) Some by (auto simp: best_choice_def)
    have q: "queue_set q = ready_set k c - {n}" using p(4) Some by simp
    obtain k' where k': "SwitchContext c (Some n) (after_pop c q k) = Some k'" "sched_inv k'" "core_inv k' c"
      "current_thread (thread_managers k' c) = Some n" "cpu_context k' c = thread_context (threads k' n)"
      "threads k' = (threads (switch_out c (after_pop c q k)))
         (n := (threads (switch_out c (after_pop c q k)) n)\<lparr>status := Running\<rparr>)"
      using Reschedule_switch [OF assms n p(2) q p(3)] by blast
    have "Reschedule c k = Some k'" using p(1) Some k'(1) by (simp add: Reschedule_def)
    moreover have "status (threads k' t) = Ready" if "running_thread k c = Some t" "n \<noteq> t" for t
      using running_threadD [OF that(1)] that(2) k'(6) by (simp add: switch_out_threads)
    moreover have "thread_context (threads k' t) =
       (if current_thread (thread_managers k c) = Some t then cpu_context k c else thread_context (threads k t))" for t
      using k'(6) by (simp add: switch_out_threads)
    moreover have "status (threads k' n) = Running" using k'(6) by simp
    ultimately show ?thesis
      using k'(2-5) p(5) Some by (intro exI [of _ k']) simp
  qed
qed

definition demo_sched :: kernel where
  "demo_sched = make_ready 0 (upd_thread 0 (\<lambda>th. th\<lparr>owner_process := Some 0\<rparr>) demo_kernel)"

lemma demo_sched_inv: "sched_inv demo_sched" "core_inv demo_sched 0"
proof -
  have "sched_inv (upd_thread 0 (\<lambda>th. th\<lparr>owner_process := Some 0\<rparr>) demo_kernel)"
    by (rule sched_inv_upd_thread [OF demo_kernel_inv]) simp_all
  then show "sched_inv demo_sched"
    unfolding demo_sched_def by (rule make_ready_inv) (simp_all add: can_resume_def blank_thread_def)
  show "core_inv demo_sched 0"
    by (rule core_invI)
      (auto simp: demo_sched_def make_ready_def demo_kernel_def new_KernelSystem_def new_ThreadManager_def blank_thread_def)
qed

theorem Reschedule_picks_best_witness:
  "\<exists>k'. Reschedule 0 demo_sched = Some k' \<and> current_thread (thread_managers k' 0) = Some 0"
proof -
  obtain k' where "Reschedule 0 demo_sched = Some k'"
    "best_choice demo_sched 0 (current_thread (thread_managers k' 0))"
    using Reschedule_picks_best [OF demo_sched_inv] by blast
  moreover have "ready_set demo_sched 0 = {0}" "can_schedule (threads demo_sched 0)"
    "running_thread demo_sched 0 = None"
    by (auto simp: ready_set_def running_thread_def demo_sched_def make_ready_def demo_kernel_def
      new_KernelSystem_def new_ThreadManager_def blank_thread_def)
  ultimately show ?thesis
    by (auto simp: best_choice_def split: option.splits)
qed

end
