(* ===== verification/Processes.thy ===== *)
theory Processes
  imports Scheduler Process_Memory
begin

text \<open>
  The life of threads and processes: \<^verbatim>\<open>KernelSystem::CreateThread\<close> and \<^verbatim>\<open>SetupMainThread\<close> of \<^verbatim>\<open>thread.cpp\<close>, creating, running and
  terminating a process and the parsing of its kernel capabilities of \<^verbatim>\<open>process.cpp\<close>, and the mappings of device memory
  and of the pages that all processes share of \<^verbatim>\<open>memory.cpp\<close>.  The plugin loader, which is told of these
  events, is not part of the model.
\<close>

unbundle bit_operations_syntax

section \<open>Creating threads\<close>

definition ResetThreadContext :: "ThreadContext \<Rightarrow> nat \<Rightarrow> nat \<Rightarrow> u32 \<Rightarrow> ThreadContext" where
  "ResetThreadContext ctx stack entry arg =
     ctx\<lparr>cpu_registers := (cpu_registers ctx)[0 := arg, 15 := word_of_nat entry, 13 := word_of_nat stack],
         cpsr := 16 OR push_bit 5 (word_of_nat entry AND 1)\<rparr>"

definition InvalidEntry_error :: result where
  "InvalidEntry_error = Result (description_code D_InvalidAddress) ''Kernel'' S_InvalidArgument L_Permanent"

text \<open>
  The processor number indexes the list of managers without a lower bound check, which fails for a number outside it.  When no
  thread local storage is left the new thread stays in the list of its manager.
\<close>

definition add_thread :: "nat \<Rightarrow> nat \<Rightarrow> nat \<Rightarrow> nat \<Rightarrow> nat \<Rightarrow> kernel \<Rightarrow> kernel" where
  "add_thread entry prio c stack p k =
     (let t = num_threads k; (tid, k0) = NewThreadId k;
          th = blank_thread\<lparr>thread_id := tid, status := Dormant, entry_point := entry, stack_top := stack,
                 nominal_priority := prio, current_priority := prio,
                 last_running_ticks := Timer_GetTicks (timers (timing k) ! c), processor_id := int c,
                 owner_process := Some p, core_id := c\<rparr>
      in upd_manager c (\<lambda>m. m\<lparr>thread_list := thread_list m @ [t], ready_queue := prepare prio (ready_queue m),
                            wakeup_callback_table := (wakeup_callback_table m)(tid \<mapsto> t)\<rparr>)
           (upd_thread t (\<lambda>_. th) (k0\<lparr>num_threads := t + 1\<rparr>)))"

definition CreateThread ::
  "icl \<Rightarrow> nat \<Rightarrow> nat \<Rightarrow> u32 \<Rightarrow> int \<Rightarrow> nat \<Rightarrow> nat \<Rightarrow> bool \<Rightarrow> kernel \<Rightarrow> (nat result_val \<times> kernel) option" where
  "CreateThread ops entry prio arg processor stack p ready k =
     (if prio > ThreadPrioLowest then Some (Inl ResultOutOfRange, k)
      else if processor > ThreadProcessorIdMax then Some (Inl ResultOutOfRangeKernel, k)
      else if \<not> IsValidVirtualAddress (page_table (vm_of k p)) entry then Some (Inl InvalidEntry_error, k)
      else do {
        assert_opt (0 \<le> processor \<and> nat processor < num_cores k);
        let (c, t) = (nat processor, num_threads k);
        (r, k1) \<leftarrow> AllocateThreadLocalStorage ops p (add_thread entry prio c stack p k);
        Some (case r of
            Inl e \<Rightarrow> (Inl e, k1)
          | Inr addr \<Rightarrow>
              let k2 = upd_thread t (\<lambda>th. th\<lparr>tls_address := addr,
                         thread_context := ResetThreadContext (thread_context th) stack entry arg\<rparr>) k1
              in (Inr t, if ready then upd_thread t (\<lambda>th. th\<lparr>status := Ready\<rparr>) (upd_ready c (push_back prio t) k2) else k2))
      })"

definition FPSCR_MAIN :: u32 where "FPSCR_MAIN = 0x03C00010"

text \<open>\<open>delay_start\<close> is the setting \<^verbatim>\<open>delay_start_for_lle_modules\<close>.\<close>

definition SetupMainThread :: "icl \<Rightarrow> bool \<Rightarrow> nat \<Rightarrow> nat \<Rightarrow> nat \<Rightarrow> kernel \<Rightarrow> (nat \<times> kernel) option" where
  "SetupMainThread ops delay_start entry prio p k =
     (let is_lle_service = (program_id (processes k p) div 2 ^ 32 mod 2 ^ 32 = 0x00040130);
          extended = \<not> is_lle_service \<and> main_thread_extended_sleep k;
          sleep_ns = (if extended \<and> delay_start then 2600000000 else 0 :: int);
          k0 = (if extended then k\<lparr>main_thread_extended_sleep := False\<rparr> else k)
      in do {
        (r, k1) \<leftarrow> CreateThread ops entry prio 0 (ideal_processor (processes k p)) HEAP_VADDR_END p (sleep_ns = 0) k0;
        t \<leftarrow> Unwrap r;
        let k2 = upd_thread t (\<lambda>th. th\<lparr>thread_context := (thread_context th)\<lparr>fpscr := FPSCR_MAIN\<rparr>\<rparr>) k1;
        if sleep_ns \<noteq> 0
        then map_option (Pair t) (WakeAfterDelay t sleep_ns False (upd_thread t (\<lambda>th. th\<lparr>status := WaitSleep\<rparr>) k2))
        else Some (t, k2)
      })"


section \<open>Creating processes\<close>

definition flags_region :: "nat \<Rightarrow> MemoryRegion option" where
  "flags_region flags =
     (let r = flags div 2 ^ 8 mod 2 ^ 4 in
      if r = 1 then Some APPLICATION else if r = 2 then Some SYSTEM else if r = 3 then Some BASE else None)"

definition CreateProcess :: "CodeSet \<Rightarrow> nat \<Rightarrow> kernel \<Rightarrow> (nat \<times> kernel) option" where
  "CreateProcess cs prog k =
     (let p = num_processes k; pid = wrap_u32 (next_process_id k + 1) in do {
        m \<leftarrow> Reset (kcached k) (vm_manager new_Process);
        let pr = new_Process\<lparr>vm_manager := m, codeset := cs, program_id := prog, process_flags := 0x100,
                   process_status := PS_Created, process_id := pid, creation_time_ticks := Timing_GetTicks (timing k)\<rparr>;
        Some (p, k\<lparr>num_processes := p + 1, next_process_id := pid, processes := (processes k)(p := pr),
                   process_list := process_list k @ [p]\<rparr>)
      })"

definition GetProcessById :: "nat \<Rightarrow> kernel \<Rightarrow> nat option" where
  "GetProcessById pid k = find (\<lambda>p. process_id (processes k p) = pid) (process_list k)"

text \<open>
  The loop that grants the calls of one descriptor ends when no bit is left; a mask has 24 bits, so 25 iterations are enough.
\<close>

fun grant_calls :: "nat \<Rightarrow> u32 \<Rightarrow> nat \<Rightarrow> bool list \<Rightarrow> bool list" where
  "grant_calls 0 bits index calls = calls"
| "grant_calls (Suc n) bits index calls =
     (if bits \<noteq> 0 \<and> index < length calls
      then grant_calls n (drop_bit 1 bits) (index + 1) (calls[index := bit bits 0]) else calls)"

text \<open>The vector of mappings holds at most eight; one more is an exception.\<close>

definition add_mapping :: "AddressMapping \<Rightarrow> Process \<Rightarrow> Process option" where
  "add_mapping am pr = do {
     assert_opt (length (address_mappings pr) < 8);
     Some (pr\<lparr>address_mappings := address_mappings pr @ [am]\<rparr>)
   }"

definition cap_type :: "u32 \<Rightarrow> u32" where
  "cap_type descriptor = drop_bit 20 descriptor"

definition range_mapping :: "u32 \<Rightarrow> u32 \<Rightarrow> AddressMapping" where
  "range_mapping descriptor end_desc =
     (let a = unat (push_bit 12 descriptor); e = unat (push_bit 12 end_desc) in
      \<lparr>am_address = a, am_size = (if a < e then e - a else 0), am_read_only = bit descriptor 20, am_unk_flag = bit end_desc 20\<rparr>)"

fun ParseKernelCaps :: "u32 list \<Rightarrow> Process \<Rightarrow> Process option" where
  "ParseKernelCaps [] pr = Some pr"
| "ParseKernelCaps (d # rest) pr =
     (let ty = cap_type d in
      if d = 0xFFFFFFFF then ParseKernelCaps rest pr
      else if ty AND 0xF00 = 0xE00 then ParseKernelCaps rest pr
      else if ty AND 0xF80 = 0xF00 then
        ParseKernelCaps rest (pr\<lparr>svc_access_mask :=
          grant_calls 25 (d AND 0xFFFFFF) (unat (drop_bit 24 d AND 7) * 24) (svc_access_mask pr)\<rparr>)
      else if ty AND 0xFF0 = 0xFE0 then ParseKernelCaps rest (pr\<lparr>handle_table_size := unat (d AND 0x3FF)\<rparr>)
      else if ty AND 0xFF8 = 0xFF0 then ParseKernelCaps rest (pr\<lparr>process_flags := unat (d AND 0xFFFF)\<rparr>)
      else if ty AND 0xFFE = 0xFF8 then
        case rest of
          [] \<Rightarrow> Some pr
        | e # rest' \<Rightarrow>
            if cap_type e AND 0xFFE \<noteq> 0xFF8 then ParseKernelCaps rest pr
            else Option.bind (add_mapping (range_mapping d e) pr) (ParseKernelCaps rest')
      else if ty AND 0xFFF = 0xFFE then
        Option.bind (add_mapping \<lparr>am_address = unat (push_bit 12 d), am_size = CITRA_PAGE_SIZE, am_read_only = False,
          am_unk_flag = False\<rparr> pr) (ParseKernelCaps rest)
      else if ty AND 0xFE0 = 0xFC0 then ParseKernelCaps rest (pr\<lparr>kernel_version := unat (d AND 0xFFFF)\<rparr>)
      else ParseKernelCaps rest pr)"

definition Set3dsxKernelCaps :: "Process \<Rightarrow> Process" where
  "Set3dsxKernelCaps pr =
     pr\<lparr>svc_access_mask := replicate (length (svc_access_mask pr)) True,
        address_mappings :=
          [\<lparr>am_address = 0x1FF50000, am_size = 0x8000, am_read_only = True, am_unk_flag = False\<rparr>,
           \<lparr>am_address = 0x1FF70000, am_size = 0x8000, am_read_only = True, am_unk_flag = False\<rparr>,
           \<lparr>am_address = 0x1F000000, am_size = 0x600000, am_read_only = False, am_unk_flag = False\<rparr>],
        kernel_version := 0x234\<rparr>"


section \<open>Running processes\<close>

definition memory_areas :: "(nat \<times> nat \<times> nat) list" where
  "memory_areas =
     [(VRAM_VADDR, VRAM_PADDR, VRAM_SIZE), (IO_AREA_VADDR, IO_AREA_PADDR, IO_AREA_SIZE), (DSP_RAM_VADDR, DSP_RAM_PADDR, DSP_RAM_SIZE),
      (N3DS_EXTRA_RAM_VADDR, N3DS_EXTRA_RAM_PADDR, N3DS_EXTRA_RAM_SIZE - 0x20000)]"

definition HandleSpecialMapping :: "nat \<Rightarrow> AddressMapping \<Rightarrow> kernel \<Rightarrow> kernel option" where
  "HandleSpecialMapping p am k =
     (let limit = wrap_u32 (am_address am + am_size am) in
      if limit < am_address am then Some k
      else case find (\<lambda>(v, _, sz). am_address am \<ge> v \<and> limit \<le> v + sz) memory_areas of
        None \<Rightarrow> Some k
      | Some (v, pa, _) \<Rightarrow>
          if pa = IO_AREA_PADDR then Some k
          else do {
            ref \<leftarrow> GetPhysicalRef (memory k) (pa + (am_address am - v));
            (_, m) \<leftarrow> map_block (kcached k) (if am_unk_flag am then MS_Static else MS_IO)
                        (if am_read_only am then perm_Read else perm_ReadWrite) (ref, am_size am) (am_address am, vm_of k p);
            Some (set_vm p m k)
          })"

definition MapSharedPages :: "nat \<Rightarrow> kernel \<Rightarrow> kernel option" where
  "MapSharedPages p k = do {
     cfg \<leftarrow> new_ref (config_mem_ptr k) CONFIG_MEMORY_SIZE 0;
     (_, m1) \<leftarrow> map_block (kcached k) MS_Shared perm_Read (cfg, CONFIG_MEMORY_SIZE) (CONFIG_MEMORY_VADDR, vm_of k p);
     shp \<leftarrow> new_ref (shared_page_ptr k) SHARED_PAGE_SIZE 0;
     (_, m2) \<leftarrow> map_block (kcached k) MS_Shared perm_Read (shp, SHARED_PAGE_SIZE) (SHARED_PAGE_VADDR, m1);
     Some (set_vm p m2 k)
   }"

text \<open>\<^verbatim>\<open>MapSegment\<close> ignores whether the allocation succeeded; a code set shorter than its segments is read out of bounds.\<close>

definition MapSegment :: "icl \<Rightarrow> nat \<Rightarrow> nat \<times> nat \<times> nat \<Rightarrow> VMAPermission \<Rightarrow> MemoryState \<Rightarrow> kernel \<Rightarrow> kernel option" where
  "MapSegment ops p = (\<lambda>(off, addr, sz) perms state k. do {
     (_, k1) \<leftarrow> Process_HeapAllocate ops p addr sz perms state True k;
     let code = cs_memory (codeset (processes k1 p));
     assert_opt (off + sz \<le> length code);
     ms \<leftarrow> WriteBlockImpl False (page_table (vm_of k1 p)) addr (take sz (drop off code)) (memory k1);
     Some (k1\<lparr>memory := ms\<rparr>)
   })"

definition Run :: "icl \<Rightarrow> bool \<Rightarrow> nat \<Rightarrow> nat \<Rightarrow> nat \<Rightarrow> kernel \<Rightarrow> kernel option" where
  "Run ops delay_start p main_thread_priority stack_size k = do {
     region \<leftarrow> flags_region (process_flags (processes k p));
     let k1 = upd_process p (\<lambda>pr. pr\<lparr>memory_region := Some (GetMemoryRegion region)\<rparr>) k;
     (ok, k2) \<leftarrow> reserve_limit p RThread 1 k1;
     if \<not> ok then Some k2
     else do {
       let segs = cs_segments (codeset (processes k2 p));
       assert_opt (length segs = 3);
       k3 \<leftarrow> MapSegment ops p (segs ! 0) perm_ReadExecute MS_Code k2;
       k4 \<leftarrow> MapSegment ops p (segs ! 1) perm_Read MS_Code k3;
       k5 \<leftarrow> MapSegment ops p (segs ! 2) perm_ReadWrite MS_Private k4;
       (_, k6) \<leftarrow> Process_HeapAllocate ops p (sub_u32 HEAP_VADDR_END stack_size) stack_size perm_ReadWrite MS_Locked True k5;
       k7 \<leftarrow> MapSharedPages p k6;
       k8 \<leftarrow> fold_opt (HandleSpecialMapping p) (address_mappings (processes k7 p)) k7;
       let k9 = upd_process p (\<lambda>pr. pr\<lparr>process_status := PS_Running\<rparr>) k8;
       (_, k10) \<leftarrow> SetupMainThread ops delay_start (entrypoint (codeset (processes k9 p))) main_thread_priority p k9;
       Some k10
     }
   }"

definition TerminateProcess :: "nat \<Rightarrow> kernel \<Rightarrow> kernel option" where
  "TerminateProcess p k = do {
     assert_opt (process_status (processes k p) = PS_Running);
     k1 \<leftarrow> fold_opt (\<lambda>c. TerminateProcessThreads c p) [0..<num_cores k]
            (upd_process p (\<lambda>pr. pr\<lparr>process_status := PS_Exited\<rparr>) k);
     Some (k1\<lparr>process_list := removeAll p (process_list k1)\<rparr>)
   }"

text \<open>The destructor of a process.\<close>

definition delete_Process :: "icl \<Rightarrow> nat \<Rightarrow> kernel \<Rightarrow> kernel option" where
  "delete_Process ops p k =
     FreeAllMemory ops p (upd_process p (\<lambda>pr. pr\<lparr>handle_table := HandleTable_Clear (handle_table pr)\<rparr>) k)"

end
