(* ===== verification/Address_Arbiter.thy ===== *)
theory Address_Arbiter
  imports Scheduler Process_Memory
begin

text \<open>
  Address arbiters, \<^verbatim>\<open>core/hle/kernel/address_arbiter.cpp\<close>: threads wait on an address of guest memory under an
  arbiter until another thread signals the address or their timeout passes.  The timeout callback is the case
  \<^term>\<open>ArbiterCallback\<close> of \<^const>\<open>WakeUp\<close>.
\<close>

section \<open>Operations\<close>

datatype ArbitrationType =
    AT_Signal | WaitIfLessThan | DecrementAndWaitIfLessThan | WaitIfLessThanWithTimeout | DecrementAndWaitIfLessThanWithTimeout

text \<open>The kernel's accesses to guest memory go through the current page table; there must be one.\<close>

definition Read32 :: "nat \<Rightarrow> kernel \<Rightarrow> (nat \<times> kernel) option" where
  "Read32 addr k = do {
     p \<leftarrow> current_page_table k;
     (x, ms) \<leftarrow> Read 4 addr (page_table (vm_of k p)) (memory k);
     Some (x, k\<lparr>memory := ms\<rparr>)
   }"

definition Write32 :: "nat \<Rightarrow> nat \<Rightarrow> kernel \<Rightarrow> kernel option" where
  "Write32 addr x k = do {
     p \<leftarrow> current_page_table k;
     ms \<leftarrow> Write 4 addr x (page_table (vm_of k p)) (memory k);
     Some (k\<lparr>memory := ms\<rparr>)
   }"

definition set_arb_waiting :: "nat \<Rightarrow> nat list \<Rightarrow> kernel \<Rightarrow> kernel" where
  "set_arb_waiting a ts = upd_arbiter a (\<lambda>x. x\<lparr>arb_waiting_threads := ts\<rparr>)"

definition CreateAddressArbiter :: "kernel \<Rightarrow> nat \<times> kernel" where
  "CreateAddressArbiter k =
     (let a = num_arbiters k in
      (a, upd_arbiter a (\<lambda>_. \<lparr>arb_waiting_threads = [], arb_limit = None\<rparr>) (k\<lparr>num_arbiters := a + 1\<rparr>)))"

definition WaitThread :: "nat \<Rightarrow> nat \<Rightarrow> nat \<Rightarrow> kernel \<Rightarrow> kernel" where
  "WaitThread a t addr k =
     upd_arbiter a (\<lambda>x. x\<lparr>arb_waiting_threads := arb_waiting_threads x @ [t]\<rparr>)
       (upd_thread t (\<lambda>th. th\<lparr>wait_address := addr, status := WaitArb\<rparr>) k)"

text \<open>
  \<^verbatim>\<open>std::stable_partition\<close> puts the threads that wait on another address first; its predicate asserts that every thread
  of the list waits on an arbiter.
\<close>

definition partition_waiting :: "nat \<Rightarrow> nat \<Rightarrow> kernel \<Rightarrow> (nat list \<times> nat list) option" where
  "partition_waiting a addr k = do {
     let ts = arb_waiting_threads (arbiters k a);
     assert_opt (list_all (\<lambda>t. status (threads k t) = WaitArb) ts);
     Some (filter (\<lambda>t. wait_address (threads k t) \<noteq> addr) ts, filter (\<lambda>t. wait_address (threads k t) = addr) ts)
   }"

definition ResumeAllThreads :: "nat \<Rightarrow> nat \<Rightarrow> kernel \<Rightarrow> (nat \<times> kernel) option" where
  "ResumeAllThreads a addr k = do {
     (others, found) \<leftarrow> partition_waiting a addr k;
     k1 \<leftarrow> fold_opt ResumeFromWait found k;
     Some (length found, set_arb_waiting a others k1)
   }"

text \<open>\<^verbatim>\<open>std::min_element\<close>: the first of the least elements.\<close>

fun min_element :: "('a \<Rightarrow> nat) \<Rightarrow> 'a \<Rightarrow> 'a list \<Rightarrow> 'a" where
  "min_element f smallest [] = smallest"
| "min_element f smallest (x # xs) = min_element f (if f x < f smallest then x else smallest) xs"

definition ResumeHighestPriorityThread :: "nat \<Rightarrow> nat \<Rightarrow> kernel \<Rightarrow> (bool \<times> kernel) option" where
  "ResumeHighestPriorityThread a addr k = do {
     (others, found) \<leftarrow> partition_waiting a addr k;
     case found of
       [] \<Rightarrow> Some (False, set_arb_waiting a others k)
     | x # xs \<Rightarrow> do {
         let t = min_element (\<lambda>t. current_priority (threads k t)) x xs;
         k1 \<leftarrow> ResumeFromWait t k;
         Some (True, set_arb_waiting a (others @ remove1 t found) k1)
       }
   }"

fun resume_loop :: "nat \<Rightarrow> nat \<Rightarrow> nat \<Rightarrow> nat \<Rightarrow> kernel \<Rightarrow> (nat \<times> kernel) option" where
  "resume_loop 0 a addr num k = Some (num, k)"
| "resume_loop (Suc n) a addr num k = do {
     (r, k1) \<leftarrow> ResumeHighestPriorityThread a addr k;
     resume_loop n a addr (num + of_bool r) k1
   }"

definition add_ticks :: "(nat \<Rightarrow> int \<Rightarrow> int) \<Rightarrow> int \<Rightarrow> kernel \<Rightarrow> kernel" where
  "add_ticks scale n k = k\<lparr>timing := upd_timer (current_cpu k) (Timer_AddTicks scale n) (timing k)\<rparr>"

text \<open>
  The four waits differ in whether the value is decremented and whether there is a timeout.  The value is read and
  compared as \<^verbatim>\<open>s32\<close>.  Decrementing the least value of \<^verbatim>\<open>s32\<close>, which C++ leaves undefined, wraps around here.
\<close>

definition arbitrate_wait :: "bool \<Rightarrow> int option \<Rightarrow> nat \<Rightarrow> nat \<Rightarrow> nat \<Rightarrow> int \<Rightarrow> kernel \<Rightarrow> kernel option" where
  "arbitrate_wait decrement timeout a t addr v k = do {
     (x, k1) \<leftarrow> Read32 addr k;
     if wrap_s32 (int x) < v then do {
       k2 \<leftarrow> (if decrement then Write32 addr (sub_u32 x 1) k1 else Some k1);
       k3 \<leftarrow> (case timeout of
           None \<Rightarrow> Some k2
         | Some ns \<Rightarrow> WakeAfterDelay t (wrap_s64 ns) False (upd_thread t (\<lambda>th. th\<lparr>wakeup_callback := Some (ArbiterCallback a)\<rparr>) k2));
       Some (WaitThread a t addr k3)
     } else Some k1
   }"

definition arbitrate_signal :: "(nat \<Rightarrow> int \<Rightarrow> int) \<Rightarrow> nat \<Rightarrow> nat \<Rightarrow> nat \<Rightarrow> int \<Rightarrow> kernel \<Rightarrow> kernel option" where
  "arbitrate_signal scale a t addr v k = do {
     (num, k1) \<leftarrow> (if v < 0 then ResumeAllThreads a addr k else resume_loop (nat v) a addr 0 k);
     Some (if num = 0 \<and> current_priority (threads k1 t) \<ge> 49 then add_ticks scale 1614 k1 else k1)
   }"

text \<open>No type is a number outside the enumeration.  The result of a wait with a timeout is always \<^const>\<open>ResultTimeout\<close>.\<close>

definition ArbitrateAddress ::
  "(nat \<Rightarrow> int \<Rightarrow> int) \<Rightarrow> nat \<Rightarrow> nat \<Rightarrow> ArbitrationType option \<Rightarrow> nat \<Rightarrow> int \<Rightarrow> int \<Rightarrow> kernel \<Rightarrow> (result \<times> kernel) option" where
  "ArbitrateAddress scale a t ty addr v ns k =
     (case ty of
        None \<Rightarrow> Some (ResultInvalidEnumValueFnd, k)
      | Some AT_Signal \<Rightarrow> map_option (Pair ResultSuccess) (arbitrate_signal scale a t addr v k)
      | Some WaitIfLessThan \<Rightarrow> map_option (Pair ResultSuccess) (arbitrate_wait False None a t addr v k)
      | Some DecrementAndWaitIfLessThan \<Rightarrow> map_option (Pair ResultSuccess) (arbitrate_wait True None a t addr v k)
      | Some WaitIfLessThanWithTimeout \<Rightarrow> map_option (Pair ResultTimeout) (arbitrate_wait False (Some ns) a t addr v k)
      | Some DecrementAndWaitIfLessThanWithTimeout \<Rightarrow>
          map_option (Pair ResultTimeout) (arbitrate_wait True (Some ns) a t addr v k))"


section \<open>Waiting lists\<close>

lemma upd_arbiter_frame [simp]:
  "arbiters (upd_arbiter a f k) b = (if b = a then f (arbiters k a) else arbiters k b)"
  "threads (upd_arbiter a f k) = threads k" "num_threads (upd_arbiter a f k) = num_threads k"
  "waiting_threads (upd_arbiter a f k) = waiting_threads k" "mutexes (upd_arbiter a f k) = mutexes k"
  "thread_managers (upd_arbiter a f k) = thread_managers k" "timing (upd_arbiter a f k) = timing k"
  "memory (upd_arbiter a f k) = memory k" "processes (upd_arbiter a f k) = processes k"
  "current_page_table (upd_arbiter a f k) = current_page_table k"
  by (simp_all add: upd_arbiter_def)

lemma set_arb_waiting_frame [simp]:
  "arb_waiting_threads (arbiters (set_arb_waiting a ts k) b) = (if b = a then ts else arb_waiting_threads (arbiters k b))"
  "threads (set_arb_waiting a ts k) = threads k" "num_threads (set_arb_waiting a ts k) = num_threads k"
  "thread_managers (set_arb_waiting a ts k) = thread_managers k"
  "timing (set_arb_waiting a ts k) = timing k" "memory (set_arb_waiting a ts k) = memory k"
  by (simp_all add: set_arb_waiting_def)

lemma kinv_same:
  assumes "num_threads k' = num_threads k" "threads k' = threads k" "waiting_threads k' = waiting_threads k" "mutexes k' = mutexes k"
    "\<And>c. rq k' c = rq k c"
  shows "kinv k' = kinv k"
  using assms by (simp add: kinv_def sched_inv_def queue_ok_def thread_ok_def mutex_inv_def wait_inv_def)

lemma kinv_arbiter [simp]: "kinv (upd_arbiter a f k) = kinv k" "kinv (set_arb_waiting a ts k) = kinv k"
  by (rule kinv_same; simp add: set_arb_waiting_def)+

abbreviation arb_waiting :: "kernel \<Rightarrow> nat \<Rightarrow> nat list" where
  "arb_waiting k a \<equiv> arb_waiting_threads (arbiters k a)"

text \<open>
  \<open>arb_inv\<close>: a thread is in the list of at most one arbiter, once, and then waits on it and on nothing else, with no callback or
  the timeout callback of that arbiter.
\<close>

definition arb_waits :: "kernel \<Rightarrow> nat \<Rightarrow> nat \<Rightarrow> bool" where
  "arb_waits k a t \<longleftrightarrow> t < num_threads k \<and> status (threads k t) = WaitArb \<and> wait_objects (threads k t) = [] \<and>
     wakeup_callback (threads k t) \<in> {None, Some (ArbiterCallback a)}"

definition arb_inv :: "kernel \<Rightarrow> bool" where
  "arb_inv k \<longleftrightarrow> (\<forall>a. distinct (arb_waiting k a) \<and> (\<forall>t \<in> set (arb_waiting k a). arb_waits k a t)) \<and>
     (\<forall>a b. a \<noteq> b \<longrightarrow> set (arb_waiting k a) \<inter> set (arb_waiting k b) = {})"

lemma arb_invD:
  assumes "arb_inv k"
  shows "distinct (arb_waiting k a)" "t \<in> set (arb_waiting k a) \<Longrightarrow> arb_waits k a t"
    "t \<in> set (arb_waiting k a) \<Longrightarrow> t \<in> set (arb_waiting k b) \<Longrightarrow> b = a"
  using assms unfolding arb_inv_def by blast+

text \<open>The state after threads of an arbiter were resumed.\<close>

definition wake_all :: "nat list \<Rightarrow> kernel \<Rightarrow> kernel" where
  "wake_all ts k = fold make_ready ts k"

lemma wake_all_simps [simp]:
  "wake_all [] k = k" "wake_all (t # ts) k = wake_all ts (make_ready t k)"
  by (simp_all add: wake_all_def)

lemma wake_all_append: "wake_all (ts @ us) k = wake_all us (wake_all ts k)"
  by (simp add: wake_all_def)

lemma make_ready_arb [simp]: "make_ready t (set_arb_waiting a ts k) = set_arb_waiting a ts (make_ready t k)"
  by (simp add: make_ready_def set_arb_waiting_def upd_arbiter_def upd_thread_def upd_ready_def upd_manager_def PrepareReschedule_def)

lemma wake_all_arb [simp]: "wake_all us (set_arb_waiting a ts k) = set_arb_waiting a ts (wake_all us k)"
  by (induction us arbitrary: k) simp_all

lemma set_arb_waiting_twice [simp]: "set_arb_waiting a us (set_arb_waiting a ts k) = set_arb_waiting a us k"
  by (simp add: set_arb_waiting_def upd_arbiter_def)

lemma set_arb_waiting_id: "set_arb_waiting a (arb_waiting k a) k = k"
  by (simp add: set_arb_waiting_def upd_arbiter_def)

lemma wake_all_frame [simp]:
  "num_threads (wake_all ts k) = num_threads k" "arbiters (wake_all ts k) = arbiters k"
  "current_thread (thread_managers (wake_all ts k) c) = current_thread (thread_managers k c)"
  "timing (wake_all ts k) = timing k"
  by (induction ts arbitrary: k) simp_all

lemma wake_all_threads:
  "threads (wake_all ts k) u =
     (if u \<in> set ts then (threads k u)\<lparr>wakeup_callback := None, status := Ready\<rparr> else threads k u)"
  by (induction ts arbitrary: k) (simp_all add: make_ready_threads)

lemma wake_all_kinv:
  assumes "kinv k" "distinct ts" "\<forall>t \<in> set ts. arb_waits k a t"
  shows "kinv (wake_all ts k)"
  using assms
proof (induction ts arbitrary: k)
  case (Cons t ts)
  have "kinv (make_ready t k)"
    using Cons.prems by (intro make_ready_kinv) (simp_all add: arb_waits_def can_resume_def)
  moreover have "\<forall>u \<in> set ts. arb_waits (make_ready t k) a u"
    using Cons.prems by (auto simp: arb_waits_def make_ready_threads)
  ultimately show ?case using Cons by simp
qed simp

lemma wake_all_queue:
  assumes "kinv k" "distinct ts" "\<forall>t \<in> set ts. arb_waits k a t" "p < 64"
  shows "q_data (rq (wake_all ts k) c) p =
    q_data (rq k c) p @ filter (\<lambda>t. core_id (threads k t) = c \<and> current_priority (threads k t) = p) ts"
  using assms
proof (induction ts arbitrary: k)
  case (Cons t ts)
  let ?c = "core_id (threads k t)"
  have t: "t < num_threads k" "can_resume (status (threads k t))" "wait_objects (threads k t) = []"
    using Cons.prems(3) by (simp_all add: arb_waits_def can_resume_def)
  have k: "kinv (make_ready t k)" using make_ready_kinv [OF Cons.prems(1) t] .
  have "current_priority (threads k t) < NUM_QUEUES (rq k ?c)"
    using sched_invD(2) [OF kinvD(1) [OF Cons.prems(1)] t(1)] queue_okD(2) [OF sched_invD(1) [OF kinvD(1) [OF Cons.prems(1)]]]
    by (simp add: thread_ok_def)
  then have "q_data (rq (make_ready t k) c) p =
      q_data (rq k c) p @ (if ?c = c \<and> current_priority (threads k t) = p then [t] else [])"
    by (simp add: make_ready_def ops_data)
  moreover have "\<forall>u \<in> set ts. arb_waits (make_ready t k) a u"
    using Cons.prems(2,3) by (auto simp: arb_waits_def make_ready_threads)
  moreover have "filter (\<lambda>u. core_id (threads (make_ready t k) u) = c \<and> current_priority (threads (make_ready t k) u) = p) ts =
      filter (\<lambda>u. core_id (threads k u) = c \<and> current_priority (threads k u) = p) ts"
    by (rule filter_cong) (auto simp: make_ready_threads)
  ultimately show ?case using Cons.IH [OF k] Cons.prems(2,4) by simp
qed simp

lemma resume_fold:
  assumes "distinct ts" "\<forall>t \<in> set ts. arb_waits k a t"
  shows "fold_opt ResumeFromWait ts k = Some (wake_all ts k)"
  using assms
proof (induction ts arbitrary: k)
  case (Cons t ts)
  have "\<forall>u \<in> set ts. arb_waits (make_ready t k) a u"
    using Cons.prems by (auto simp: arb_waits_def make_ready_threads)
  then show ?case using Cons by (simp add: ResumeFromWait_cases arb_waits_def can_resume_def)
qed simp

lemma arb_inv_wake:
  assumes "arb_inv k" "set ts \<subseteq> set (arb_waiting k a)" "set us = set (arb_waiting k a) - set ts" "distinct us"
  shows "arb_inv (set_arb_waiting a us (wake_all ts k))"
proof -
  let ?k = "set_arb_waiting a us (wake_all ts k)"
  have "arb_waits ?k b t" if "t \<in> set (arb_waiting ?k b)" for b t
  proof -
    have t: "t \<in> set (arb_waiting k b)" "b = a \<longrightarrow> t \<notin> set ts" using that assms(2,3) by (auto split: if_splits)
    then have "t \<notin> set ts" using arb_invD(3) [OF assms(1)] assms(2) by blast
    then show ?thesis using arb_invD(2) [OF assms(1) t(1)] by (simp add: arb_waits_def wake_all_threads)
  qed
  moreover have "set (arb_waiting ?k b) \<inter> set (arb_waiting ?k c) = {}" if "b \<noteq> c" for b c
    using that arb_invD(3) [OF assms(1)] assms(3) by (auto split: if_splits)
  moreover have "distinct (arb_waiting ?k b)" for b using arb_invD(1) [OF assms(1)] assms(4) by simp
  ultimately show ?thesis unfolding arb_inv_def by blast
qed


section \<open>Signals\<close>

text \<open>Taking the first least element again and again is a stable sort.\<close>

lemma min_element_sort: "min_element f x xs = hd (sort_key f (x # xs))"
proof (induction xs arbitrary: x)
  case (Cons y ys)
  obtain z zs where z: "sort_key f (y # ys) = z # zs" by (metis sort_key_simps(2) insort_not_Nil neq_Nil_conv)
  show ?case
  proof (cases "f y < f x")
    case True
    have "f z \<le> f y" using sorted_sort_key [of f "y # ys"] z set_sort [of f "y # ys"] by force
    then show ?thesis using True Cons.IH [of y] z by simp
  next
    case False
    then show ?thesis using Cons.IH [of x] by (cases "sort_key f ys") auto
  qed
qed simp

lemma sort_key_remove_hd: "xs \<noteq> [] \<Longrightarrow> sort_key f (remove1 (hd (sort_key f xs)) xs) = tl (sort_key f xs)"
proof (induction xs)
  case (Cons x xs)
  show ?case
  proof (cases "xs = []")
    case False
    then have "sort_key f xs \<noteq> []" by (metis length_sort length_0_conv)
    then obtain z zs where z: "sort_key f xs = z # zs" by (cases "sort_key f xs") auto
    then have "sort_key f (remove1 z xs) = zs" using Cons.IH [OF False] by simp
    then show ?thesis using z by auto
  qed simp
qed simp

abbreviation urgency :: "kernel \<Rightarrow> nat \<Rightarrow> nat" where
  "urgency k t \<equiv> current_priority (threads k t)"

definition waits_on :: "kernel \<Rightarrow> nat \<Rightarrow> nat \<Rightarrow> bool" where
  "waits_on k addr t \<longleftrightarrow> wait_address (threads k t) = addr"

definition found_at :: "kernel \<Rightarrow> nat \<Rightarrow> nat \<Rightarrow> nat list" where
  "found_at k a addr = filter (waits_on k addr) (arb_waiting k a)"

definition others_at :: "kernel \<Rightarrow> nat \<Rightarrow> nat \<Rightarrow> nat list" where
  "others_at k a addr = filter (\<lambda>t. \<not> waits_on k addr t) (arb_waiting k a)"

lemma waiting_split: "set (arb_waiting k a) = set (others_at k a addr) \<union> set (found_at k a addr)"
  by (auto simp: found_at_def others_at_def)

lemma found_at_facts:
  assumes "arb_inv k"
  shows "distinct (found_at k a addr)" "distinct (others_at k a addr)" "set (found_at k a addr) \<inter> set (others_at k a addr) = {}"
    "t \<in> set (found_at k a addr) \<Longrightarrow> arb_waits k a t"
  using arb_invD [OF assms] by (auto simp: found_at_def others_at_def)

lemma partition_waiting_spec:
  "arb_inv k \<Longrightarrow> partition_waiting a addr k = Some (others_at k a addr, found_at k a addr)"
  using arb_invD(2) [of k _ a]
  by (auto simp: partition_waiting_def found_at_def others_at_def waits_on_def [abs_def] Let_def list_all_iff arb_waits_def)

text \<open>The effect of a signal that wakes \<open>ts\<close>: the rest of the list keeps its order for every address.\<close>

definition signalled :: "nat \<Rightarrow> nat \<Rightarrow> nat list \<Rightarrow> kernel \<Rightarrow> kernel \<Rightarrow> bool" where
  "signalled a addr ts k k' \<longleftrightarrow> (\<exists>us. k' = set_arb_waiting a us (wake_all ts k) \<and> distinct us \<and>
     set us = set (arb_waiting k a) - set ts \<and>
     (\<forall>b. filter (waits_on k b) us = filter (\<lambda>t. t \<notin> set ts) (found_at k a b)))"

lemma waits_on_wake [simp]: "waits_on (set_arb_waiting a us (wake_all ts k)) = waits_on k"
  by (intro ext) (simp add: waits_on_def wake_all_threads)

lemma waits_on_make_ready [simp]: "waits_on (set_arb_waiting a us (make_ready t k)) = waits_on k"
  by (intro ext) (simp add: waits_on_def make_ready_threads)

lemma signalled_Nil: "arb_inv k \<Longrightarrow> signalled a addr [] k k"
  using arb_invD(1) [of k a]
  by (auto simp: signalled_def found_at_def set_arb_waiting_id [symmetric] intro!: exI [of _ "arb_waiting k a"])


lemma ResumeAll_signalled:
  assumes "arb_inv k"
  shows "\<exists>k'. ResumeAllThreads a addr k = Some (length (found_at k a addr), k') \<and> signalled a addr (found_at k a addr) k k'"
proof -
  note f = found_at_facts [OF assms, where a = a and addr = addr]
  have "filter (waits_on k b) (others_at k a addr) = filter (\<lambda>t. t \<notin> set (found_at k a addr)) (found_at k a b)" for b
    unfolding found_at_def others_at_def filter_filter by (rule filter_cong) auto
  moreover have "set (others_at k a addr) = set (arb_waiting k a) - set (found_at k a addr)"
    by (auto simp: found_at_def others_at_def)
  ultimately have "signalled a addr (found_at k a addr) k (set_arb_waiting a (others_at k a addr) (wake_all (found_at k a addr) k))"
    using f(2) unfolding signalled_def by blast
  then show ?thesis
    using resume_fold [OF f(1), of k a] f(4) by (simp add: ResumeAllThreads_def partition_waiting_spec [OF assms])
qed

lemma ResumeHighest_spec:
  fixes a addr :: nat
  assumes "arb_inv k"
  defines "m \<equiv> hd (sort_key (urgency k) (found_at k a addr))"
  shows "ResumeHighestPriorityThread a addr k = Some (if found_at k a addr = [] then (False, k)
    else (True, set_arb_waiting a (others_at k a addr @ remove1 m (found_at k a addr)) (make_ready m k)))"
proof (cases "found_at k a addr")
  case Nil
  then have "others_at k a addr = arb_waiting k a" by (simp add: found_at_def others_at_def filter_empty_conv)
  then show ?thesis
    using Nil by (simp add: ResumeHighestPriorityThread_def partition_waiting_spec [OF assms(1)] set_arb_waiting_id)
next
  case (Cons x xs)
  have "sort_key (urgency k) (found_at k a addr) \<noteq> []" using Cons by (metis length_sort length_0_conv list.distinct(1))
  then have "m \<in> set (found_at k a addr)" unfolding m_def by (metis list.set_sel(1) set_sort)
  then have "ResumeFromWait m k = Some (make_ready m k)"
    using found_at_facts(4) [OF assms(1)] by (simp add: ResumeFromWait_cases arb_waits_def can_resume_def)
  moreover have "min_element (urgency k) x xs = m" using Cons by (simp add: min_element_sort m_def)
  ultimately show ?thesis using Cons by (simp add: ResumeHighestPriorityThread_def partition_waiting_spec [OF assms(1)])
qed

lemma signalled_step:
  fixes a addr m :: nat
  assumes "arb_inv k" "m \<in> set (found_at k a addr)"
  defines "k1 \<equiv> set_arb_waiting a (others_at k a addr @ remove1 m (found_at k a addr)) (make_ready m k)"
  shows "arb_inv k1" "found_at k1 a addr = remove1 m (found_at k a addr)" "urgency k1 = urgency k"
    "signalled a addr ts k1 k' \<Longrightarrow> signalled a addr (m # ts) k k'"
proof -
  note f = found_at_facts [OF assms(1), where a = a and addr = addr]
  have m: "remove1 m (found_at k a addr) = filter (\<lambda>t. t \<noteq> m) (found_at k a addr)"
    using f(1) by (auto simp: distinct_remove1_removeAll removeAll_filter_not_eq intro: filter_cong)
  have w: "waits_on k1 = waits_on k" by (simp add: k1_def)
  let ?us = "others_at k a addr @ remove1 m (found_at k a addr)"
  have us: "set ?us = set (arb_waiting k a) - {m}" "distinct ?us"
    using f(1-3) assms(2) waiting_split [of k a addr] by (auto simp: m)
  show "arb_inv k1"
    unfolding k1_def using arb_inv_wake [OF assms(1), of "[m]" a ?us] us assms(2) waiting_split [of k a addr] by simp
  have found: "found_at k1 a b = filter (\<lambda>t. t \<noteq> m) (found_at k a b)" for b
  proof (cases "b = addr")
    case True
    have "filter (waits_on k addr) (filter (\<lambda>t. t \<noteq> m) (found_at k a addr)) = filter (\<lambda>t. t \<noteq> m) (found_at k a addr)"
      by (simp add: found_at_def conj_ac)
    moreover have "filter (waits_on k addr) (others_at k a addr) = []" by (simp add: others_at_def filter_empty_conv)
    moreover have "found_at k1 a b = filter (waits_on k addr) ?us" using True by (simp add: found_at_def [of k1] w) (simp add: k1_def)
    ultimately show ?thesis using True by (simp add: m)
  next
    case False
    have "filter (waits_on k b) ?us = filter (waits_on k b) (arb_waiting k a)"
    proof -
      have "filter (waits_on k b) (remove1 m (found_at k a addr)) = []"
        using False by (auto simp: m found_at_def waits_on_def filter_empty_conv)
      moreover have "filter (waits_on k b) (others_at k a addr) = filter (waits_on k b) (arb_waiting k a)"
        unfolding others_at_def filter_filter using False by (intro filter_cong) (auto simp: waits_on_def)
      ultimately show ?thesis by simp
    qed
    moreover have "filter (\<lambda>t. t \<noteq> m) (found_at k a b) = found_at k a b"
      using False assms(2) by (intro filter_True ballI) (auto simp: found_at_def waits_on_def)
    moreover have "found_at k1 a b = filter (waits_on k b) ?us" by (simp add: found_at_def [of k1] w) (simp add: k1_def)
    ultimately show ?thesis by (simp add: found_at_def [of k a b])
  qed
  then show "found_at k1 a addr = remove1 m (found_at k a addr)" by (simp add: m)
  show "urgency k1 = urgency k" by (intro ext) (simp add: k1_def make_ready_threads)
  show "signalled a addr (m # ts) k k'" if h: "signalled a addr ts k1 k'"
  proof -
    obtain vs where vs: "k' = set_arb_waiting a vs (wake_all ts k1)" "distinct vs" "set vs = set (arb_waiting k1 a) - set ts"
      "\<forall>b. filter (waits_on k b) vs = filter (\<lambda>t. t \<notin> set ts) (found_at k1 a b)"
      using h unfolding signalled_def w by blast
    have "k' = set_arb_waiting a vs (wake_all (m # ts) k)" using vs(1) by (simp add: k1_def)
    moreover have "set vs = set (arb_waiting k a) - set (m # ts)" using vs(3) us(1) by (auto simp: k1_def)
    moreover have "\<forall>b. filter (waits_on k b) vs = filter (\<lambda>t. t \<notin> set (m # ts)) (found_at k a b)"
      using vs(4) found by (simp add: conj_commute)
    ultimately show ?thesis unfolding signalled_def using vs(2) by blast
  qed
qed

lemma resume_loop_signalled:
  assumes "arb_inv k"
  shows "\<exists>k'. resume_loop n a addr num k = Some (num + min n (length (found_at k a addr)), k') \<and>
    signalled a addr (take n (sort_key (urgency k) (found_at k a addr))) k k'"
  using assms
proof (induction n arbitrary: num k)
  case (Suc n)
  let ?f = "found_at k a addr" and ?s = "sort_key (urgency k) (found_at k a addr)"
  show ?case
  proof (cases "?f = []")
    case True
    then show ?thesis using ResumeHighest_spec [OF Suc.prems, of a addr] Suc.IH [OF Suc.prems] by simp
  next
    case False
    let ?m = "hd ?s"
    let ?k = "set_arb_waiting a (others_at k a addr @ remove1 ?m ?f) (make_ready ?m k)"
    have ne: "?s \<noteq> []" using False by (metis length_sort length_0_conv)
    then have m: "?m \<in> set ?f" by (metis list.set_sel(1) set_sort)
    note st = signalled_step [OF Suc.prems m]
    have rest: "sort_key (urgency ?k) (found_at ?k a addr) = tl ?s"
      by (simp only: st(2,3) sort_key_remove_hd [OF False])
    have "length (found_at ?k a addr) = length ?f - 1" by (simp only: st(2) length_remove1) (simp add: m)
    moreover have "length ?f > 0" using False by simp
    ultimately have n: "num + 1 + min n (length (found_at ?k a addr)) = num + min (Suc n) (length ?f)" by linarith
    obtain k' where k': "resume_loop n a addr (num + 1) ?k = Some (num + min (Suc n) (length ?f), k')"
      "signalled a addr (take n (tl ?s)) ?k k'"
      using Suc.IH [OF st(1), of "num + 1"] unfolding rest n by blast
    have "resume_loop (Suc n) a addr num k = resume_loop n a addr (num + 1) ?k"
      using ResumeHighest_spec [OF Suc.prems, of a addr] False by simp
    moreover have "take (Suc n) ?s = ?m # take n (tl ?s)" using ne by (cases ?s) simp_all
    ultimately show ?thesis using k'(1) st(4) [OF k'(2)] by simp
  qed
qed (simp add: signalled_Nil)


section \<open>Properties\<close>

lemma signalled_effect:
  assumes "kinv k" "arb_inv k" "signalled a addr ts k k'" "distinct ts" "set ts \<subseteq> set (found_at k a addr)"
  shows "kinv k'" "arb_inv k'" "b \<noteq> addr \<Longrightarrow> found_at k' a b = found_at k a b"
    "found_at k' a addr = filter (\<lambda>t. t \<notin> set ts) (found_at k a addr)"
    "threads k' u = (if u \<in> set ts then (threads k u)\<lparr>wakeup_callback := None, status := Ready\<rparr> else threads k u)"
    "p < 64 \<Longrightarrow> q_data (rq k' c) p =
       q_data (rq k c) p @ filter (\<lambda>t. core_id (threads k t) = c \<and> current_priority (threads k t) = p) ts"
proof -
  obtain us where us: "k' = set_arb_waiting a us (wake_all ts k)" "distinct us" "set us = set (arb_waiting k a) - set ts"
    "\<And>b. filter (waits_on k b) us = filter (\<lambda>t. t \<notin> set ts) (found_at k a b)"
    using assms(3) unfolding signalled_def by blast
  have ts: "\<forall>t \<in> set ts. arb_waits k a t" using assms(5) found_at_facts(4) [OF assms(2)] by blast
  have sub: "set ts \<subseteq> set (arb_waiting k a)" using assms(5) by (auto simp: found_at_def)
  show "kinv k'" using us(1) wake_all_kinv [OF assms(1,4) ts] by simp
  show "arb_inv k'" unfolding us(1) using arb_inv_wake [OF assms(2) sub us(3,2)] .
  have found: "found_at k' a b = filter (\<lambda>t. t \<notin> set ts) (found_at k a b)" for b
    unfolding us(4) [symmetric] by (simp add: us(1)) (simp add: found_at_def)
  then show "found_at k' a addr = filter (\<lambda>t. t \<notin> set ts) (found_at k a addr)" .
  show "found_at k' a b = found_at k a b" if "b \<noteq> addr"
    unfolding found using that assms(5) by (intro filter_True ballI) (auto simp: found_at_def waits_on_def)
  show "threads k' u = (if u \<in> set ts then (threads k u)\<lparr>wakeup_callback := None, status := Ready\<rparr> else threads k u)"
    by (simp add: us(1) wake_all_threads)
  show "p < 64 \<Longrightarrow> q_data (rq k' c) p =
      q_data (rq k c) p @ filter (\<lambda>t. core_id (threads k t) = c \<and> current_priority (threads k t) = p) ts"
    using wake_all_queue [OF assms(1,4) ts] by (simp add: us(1))
qed

lemma add_ticks_frame [simp]:
  "threads (add_ticks scale n k) = threads k" "num_threads (add_ticks scale n k) = num_threads k"
  "thread_managers (add_ticks scale n k) = thread_managers k" "arbiters (add_ticks scale n k) = arbiters k"
  "mutexes (add_ticks scale n k) = mutexes k" "waiting_threads (add_ticks scale n k) = waiting_threads k"
  by (simp_all add: add_ticks_def)

lemma add_ticks_inv [simp]:
  "kinv (add_ticks scale n k) = kinv k" "arb_inv (add_ticks scale n k) = arb_inv k"
  "found_at (add_ticks scale n k) = found_at k"
  by (rule kinv_same; simp) (simp_all add: arb_inv_def arb_waits_def found_at_def waits_on_def [abs_def] fun_eq_iff)

lemma kinv_irrelevant [simp]: "kinv (k\<lparr>memory := ms\<rparr>) = kinv k" "kinv (k\<lparr>timing := T\<rparr>) = kinv k"
  by (rule kinv_same; simp)+

lemma arb_inv_irrelevant [simp]: "arb_inv (k\<lparr>memory := ms\<rparr>) = arb_inv k" "arb_inv (k\<lparr>timing := T\<rparr>) = arb_inv k"
  by (simp_all add: arb_inv_def arb_waits_def)

text \<open>A thread that may call the arbiter: it runs, and waits for nothing.\<close>

definition caller :: "kernel \<Rightarrow> nat \<Rightarrow> bool" where
  "caller k t \<longleftrightarrow> t < num_threads k \<and> status (threads k t) = Running \<and> wait_objects (threads k t) = [] \<and>
     wakeup_callback (threads k t) = None"

lemma caller_not_waiting: "arb_inv k \<Longrightarrow> caller k t \<Longrightarrow> t \<notin> set (arb_waiting k a)"
  using arb_invD(2) [of k t a] by (auto simp: caller_def arb_waits_def)

lemma kinv_upd_idle:
  assumes "kinv k" "wait_objects (threads k t) = []" "wait_objects (f (threads k t)) = []"
    "status (f (threads k t)) = Ready \<longleftrightarrow> status (threads k t) = Ready" "core_id (f (threads k t)) = core_id (threads k t)"
    "current_priority (f (threads k t)) = current_priority (threads k t)"
    "nominal_priority (f (threads k t)) = nominal_priority (threads k t)"
    "held_mutexes (f (threads k t)) = held_mutexes (threads k t)"
  shows "kinv (upd_thread t f k)"
proof -
  let ?k = "upd_thread t f k"
  have "sched_inv ?k" using kinvD(1) [OF assms(1)] by (rule sched_inv_upd_thread) (simp_all add: assms)
  moreover have "mutex_inv ?k" using kinvD(2) [OF assms(1)] by (rule mutex_inv_cong) (simp_all add: assms)
  moreover have "wait_inv ?k"
  proof (rule wait_invI)
    note wi = wait_invD [OF kinvD(3) [OF assms(1)]]
    fix w u
    show "distinct (waiting_threads ?k w)" using wi(1) by simp
    show "u \<in> set (waiting_threads ?k w) \<Longrightarrow> u < num_threads ?k" using wi(2) by simp
    show "u < num_threads ?k \<Longrightarrow> u \<in> set (waiting_threads ?k w) \<longleftrightarrow> w \<in> set (wait_objects (threads ?k u))"
      using wi(3) [of u w] assms(2,3) by simp
    show "u < num_threads ?k \<Longrightarrow> wait_objects (threads ?k u) \<noteq> [] \<Longrightarrow> waits_synch (status (threads ?k u)) \<and>
        callback_ok (status (threads ?k u)) (wakeup_callback (threads ?k u))"
      using wi(4,5) [of u] assms(3) by (cases "u = t") simp_all
    show "u < num_threads ?k \<Longrightarrow> status (threads ?k u) = WaitSynchAll \<Longrightarrow> distinct (wait_objects (threads ?k u))"
      using wi(6) [of u] assms(3) by (cases "u = t") simp_all
  qed
  ultimately show ?thesis by (simp add: kinv_def)
qed

lemma WaitThread_kinv:
  "kinv k \<Longrightarrow> status (threads k t) = Running \<Longrightarrow> wait_objects (threads k t) = [] \<Longrightarrow> kinv (WaitThread a t addr k)"
  by (simp add: WaitThread_def kinv_upd_idle)

lemma WaitThread_arb_inv:
  assumes "arb_inv k" "\<forall>b. t \<notin> set (arb_waiting k b)" "t < num_threads k" "wait_objects (threads k t) = []"
    "wakeup_callback (threads k t) \<in> {None, Some (ArbiterCallback a)}"
  shows "arb_inv (WaitThread a t addr k)"
proof -
  let ?k = "WaitThread a t addr k"
  have "arb_waits ?k b u" if "u \<in> set (arb_waiting ?k b)" for b u
    using that arb_invD(2) [OF assms(1), of u b] assms(2-5)
    by (auto simp: WaitThread_def arb_waits_def split: if_splits)
  moreover have "set (arb_waiting ?k b) \<inter> set (arb_waiting ?k c) = {}" if "b \<noteq> c" for b c
    using that arb_invD(3) [OF assms(1)] assms(2) by (auto simp: WaitThread_def split: if_splits)
  moreover have "distinct (arb_waiting ?k b)" for b
    using arb_invD(1) [OF assms(1)] assms(2) by (simp add: WaitThread_def)
  ultimately show ?thesis unfolding arb_inv_def by blast
qed

text \<open>A word of guest memory on an ordinary page of the current process.\<close>

definition word_ptr :: "kernel \<Rightarrow> nat \<Rightarrow> nat \<Rightarrow> nat" where
  "word_ptr k p addr = page_pointer (page_table (vm_of k p)) addr + addr mod CITRA_PAGE_SIZE"

definition plain_word :: "kernel \<Rightarrow> nat \<Rightarrow> nat \<Rightarrow> bool" where
  "plain_word k p addr \<longleftrightarrow> current_page_table k = Some p \<and> page_pointer (page_table (vm_of k p)) addr \<noteq> 0"

definition word_at :: "kernel \<Rightarrow> nat \<Rightarrow> nat \<Rightarrow> nat" where
  "word_at k p addr = of_bytes (host_read (memory k) (word_ptr k p addr) 4)"

lemma word_ptr_memory [simp]: "word_ptr (k\<lparr>memory := ms\<rparr>) p addr = word_ptr k p addr"
  by (simp add: word_ptr_def)

lemma word_at_cong: "memory k' = memory k \<Longrightarrow> processes k' = processes k \<Longrightarrow> word_at k' p addr = word_at k p addr"
  by (simp add: word_at_def word_ptr_def)

lemma Read32_plain: "plain_word k p addr \<Longrightarrow> Read32 addr k = Some (word_at k p addr, k)"
  by (simp add: Read32_def plain_word_def Read_def word_at_def word_ptr_def Let_def)

lemma Write32_plain:
  "plain_word k p addr \<Longrightarrow> Write32 addr x k = Some (k\<lparr>memory := host_write (word_ptr k p addr) (bytes_of 4 x) (memory k)\<rparr>)"
  by (simp add: Write32_def plain_word_def Write_def word_ptr_def Let_def)

lemma word_at_write: "word_at (k\<lparr>memory := host_write (word_ptr k p addr) (bytes_of 4 x) ms\<rparr>) p addr = x mod 2 ^ 32"
proof -
  have "host_read (host_write (word_ptr k p addr) (bytes_of 4 x) ms) (word_ptr k p addr) 4 = bytes_of 4 x"
    using host_read_write [of "word_ptr k p addr" "bytes_of 4 x" ms] by (simp only: length_bytes_of)
  then show ?thesis by (simp add: word_at_def of_bytes_bytes_of)
qed

text \<open>The two features of a wait.\<close>

primrec decrements :: "ArbitrationType \<Rightarrow> bool" where
  "decrements AT_Signal = False"
| "decrements WaitIfLessThan = False"
| "decrements DecrementAndWaitIfLessThan = True"
| "decrements WaitIfLessThanWithTimeout = False"
| "decrements DecrementAndWaitIfLessThanWithTimeout = True"

primrec has_timeout :: "ArbitrationType \<Rightarrow> bool" where
  "has_timeout AT_Signal = False"
| "has_timeout WaitIfLessThan = False"
| "has_timeout DecrementAndWaitIfLessThan = False"
| "has_timeout WaitIfLessThanWithTimeout = True"
| "has_timeout DecrementAndWaitIfLessThanWithTimeout = True"

lemma ArbitrateAddress_wait:
  "ty \<noteq> AT_Signal \<Longrightarrow> ArbitrateAddress scale a t (Some ty) addr v ns k =
     map_option (Pair (if has_timeout ty then ResultTimeout else ResultSuccess))
       (arbitrate_wait (decrements ty) (if has_timeout ty then Some ns else None) a t addr v k)"
  by (cases ty) (simp_all add: ArbitrateAddress_def)

text \<open>The event that wakes a thread is in the queue of the current timer.\<close>

definition wake_scheduled :: "nat \<Rightarrow> int \<Rightarrow> kernel \<Rightarrow> kernel_cb Timing \<Rightarrow> bool" where
  "wake_scheduled t ns k T \<longleftrightarrow> (\<exists>e \<in> set (event_queue (timers T ! current_timer (timing k))).
     ev_type e = wakeup_event (core_id (threads k t)) \<and> ev_user_data e = thread_id (threads k t) \<and>
     ev_time e = wrap_s64 (Timing_GetTicks (timing k) + nsToCycles ns))"

lemma wrap_s64_add_left [simp]: "wrap_s64 (wrap_s64 x + y) = wrap_s64 (x + y)"
proof -
  have "take_bit 64 (wrap_s64 x) = take_bit 64 x" by (simp add: wrap_s64_def take_bit_signed_take_bit)
  then have "take_bit 64 (wrap_s64 x + y) = take_bit 64 (x + y)" by (metis take_bit_add)
  then show ?thesis by (simp add: wrap_s64_def signed_take_bit_eq_iff_take_bit_eq)
qed

lemma WakeAfterDelay_scheduled:
  assumes "current_timer (timing k) < length (timers (timing k))"
  shows "\<exists>T. WakeAfterDelay t ns False k = Some (k\<lparr>timing := T\<rparr>) \<and>
    (ns \<noteq> -1 \<and> \<not> event_queue_locked (timing k) \<longrightarrow> wake_scheduled t ns k T)"
proof (cases "ns = -1 \<or> event_queue_locked (timing k)")
  case True
  have "k = k\<lparr>timing := timing k\<rparr>" by simp
  then show ?thesis using True by (auto simp: WakeAfterDelay_def ScheduleEvent_def Let_def intro!: exI [of _ "timing k"])
next
  case False
  then show ?thesis
    using assms by (auto simp: WakeAfterDelay_def ScheduleEvent_def Let_def wake_scheduled_def upd_timer_def push_event_def
      Timing_GetTicks_def eq.set_push)
qed


lemma decrement_word:
  assumes "plain_word k p addr"
  shows "\<exists>ms. (if d then Write32 addr (sub_u32 (word_at k p addr) 1) k else Some k) = Some (k\<lparr>memory := ms\<rparr>) \<and>
    word_at (k\<lparr>memory := ms\<rparr>) p addr = (if d then sub_u32 (word_at k p addr) 1 else word_at k p addr)"
proof (cases d)
  case True
  let ?x = "sub_u32 (word_at k p addr) 1"
  have "?x mod 2 ^ 32 = ?x" by (simp add: sub_u32_def)
  then show ?thesis
    using True Write32_plain [OF assms, of ?x] word_at_write [of k p addr ?x "memory k"]
    by (intro exI [of _ "host_write (word_ptr k p addr) (bytes_of 4 ?x) (memory k)"]) simp
qed (auto intro: exI [of _ "memory k"])

abbreviation arb_callback :: "nat \<Rightarrow> nat \<Rightarrow> kernel \<Rightarrow> kernel" where
  "arb_callback a t \<equiv> upd_thread t (\<lambda>th. th\<lparr>wakeup_callback := Some (ArbiterCallback a)\<rparr>)"

lemma timeout_scheduled:
  assumes "current_timer (timing k) < length (timers (timing k))"
  shows "\<exists>T. (if to then WakeAfterDelay t (wrap_s64 ns) False (arb_callback a t (k\<lparr>memory := ms\<rparr>)) else Some (k\<lparr>memory := ms\<rparr>)) =
      Some ((if to then arb_callback a t (k\<lparr>memory := ms\<rparr>) else k\<lparr>memory := ms\<rparr>)\<lparr>timing := T\<rparr>) \<and>
    (to \<and> wrap_s64 ns \<noteq> -1 \<and> \<not> event_queue_locked (timing k) \<longrightarrow> wake_scheduled t (wrap_s64 ns) k T)"
proof (cases to)
  case True
  then show ?thesis
    using WakeAfterDelay_scheduled [of "arb_callback a t (k\<lparr>memory := ms\<rparr>)" t "wrap_s64 ns"] assms
    by (simp add: wake_scheduled_def)
next
  case False
  then show ?thesis by (intro exI [of _ "timing k"]) simp
qed

lemma callback_inv:
  assumes "kinv k" "arb_inv k" "\<And>b. t \<notin> set (arb_waiting k b)" "wait_objects (threads k t) = []"
  shows "kinv (arb_callback a t k)" "arb_inv (arb_callback a t k)"
proof -
  show "kinv (arb_callback a t k)" by (rule kinv_upd_idle [OF assms(1,4)]) (simp_all add: assms(4))
  have "arb_waits (arb_callback a t k) b u" if "u \<in> set (arb_waiting k b)" for b u
    using arb_invD(2) [OF assms(2) that] assms(3) [of b] that by (auto simp: arb_waits_def)
  then show "arb_inv (arb_callback a t k)" using assms(2) unfolding arb_inv_def by simp
qed

text \<open>C17: Waiting on an address.  A running thread that calls one of the four waits on a word of its memory is put to sleep exactly if the
  word, read as a signed number, is less than the value: it is appended to the waiters of the arbiter, the word is decremented
  exactly for the two decrementing waits, and all consistency is kept.  Otherwise nothing changes.  The result depends on
  the kind of wait only, and a number that is no kind of arbitration is an error without effect.\<close>

theorem arbiter_wait:
  assumes "kinv k" and "arb_inv k" and "caller k t" and "plain_word k p addr"
    and "current_timer (timing k) < length (timers (timing k))" and "ty \<noteq> AT_Signal"
  shows "ArbitrateAddress scale a t None addr v ns k = Some (ResultInvalidEnumValueFnd, k) \<and>
    (\<exists>k'. ArbitrateAddress scale a t (Some ty) addr v ns k = Some (if has_timeout ty then ResultTimeout else ResultSuccess, k') \<and>
      (if wrap_s32 (int (word_at k p addr)) < v then
         kinv k' \<and> arb_inv k' \<and> found_at k' a addr = found_at k a addr @ [t] \<and> status (threads k' t) = WaitArb \<and>
         word_at k' p addr = (if decrements ty then sub_u32 (word_at k p addr) 1 else word_at k p addr) \<and>
         (\<forall>u. u \<noteq> t \<longrightarrow> threads k' u = threads k u) \<and> (\<forall>b. b \<noteq> addr \<longrightarrow> found_at k' a b = found_at k a b) \<and>
         (has_timeout ty \<and> wrap_s64 ns \<noteq> -1 \<and> \<not> event_queue_locked (timing k) \<longrightarrow> wake_scheduled t (wrap_s64 ns) k (timing k'))
       else k' = k))"
proof -
  let ?x = "word_at k p addr" and ?d = "decrements ty" and ?to = "has_timeout ty"
  show ?thesis
  proof (cases "wrap_s32 (int ?x) < v")
    case True
    obtain ms where k2: "(if ?d then Write32 addr (sub_u32 ?x 1) k else Some k) = Some (k\<lparr>memory := ms\<rparr>)"
      "word_at (k\<lparr>memory := ms\<rparr>) p addr = (if ?d then sub_u32 ?x 1 else ?x)"
      using decrement_word [OF assms(4), of ?d] by blast
    obtain T where T: "(if ?to then WakeAfterDelay t (wrap_s64 ns) False (arb_callback a t (k\<lparr>memory := ms\<rparr>)) else Some (k\<lparr>memory := ms\<rparr>)) =
        Some ((if ?to then arb_callback a t (k\<lparr>memory := ms\<rparr>) else k\<lparr>memory := ms\<rparr>)\<lparr>timing := T\<rparr>)"
      "?to \<and> wrap_s64 ns \<noteq> -1 \<and> \<not> event_queue_locked (timing k) \<longrightarrow> wake_scheduled t (wrap_s64 ns) k T"
      using timeout_scheduled [OF assms(5), of ?to t ns a ms] by blast
    let ?k2 = "if ?to then arb_callback a t (k\<lparr>memory := ms\<rparr>) else k\<lparr>memory := ms\<rparr>"
    define k' where k': "k' = WaitThread a t addr (?k2\<lparr>timing := T\<rparr>)"
    have c: "t < num_threads k" "status (threads k t) = Running" "wait_objects (threads k t) = []" "wakeup_callback (threads k t) = None"
      using assms(3) by (simp_all add: caller_def)
    let ?k2T = "?k2\<lparr>timing := T\<rparr>"
    have m: "kinv ?k2T" "arb_inv ?k2T" "threads ?k2T u = (if u = t \<and> ?to then (threads k t)\<lparr>wakeup_callback := Some (ArbiterCallback a)\<rparr> else threads k u)"
      "arbiters ?k2T = arbiters k" "num_threads ?k2T = num_threads k" for u
      using callback_inv [of "k\<lparr>memory := ms\<rparr>" t a] assms(1,2) caller_not_waiting [OF assms(2,3)] c(3) by auto
    have "kinv k'" unfolding k' by (rule WaitThread_kinv [OF m(1)]) (use m(3,5) c in auto)
    moreover have "arb_inv k'"
      unfolding k' by (rule WaitThread_arb_inv [OF m(2)]) (use m(3-5) c caller_not_waiting [OF assms(2,3)] in auto)
    moreover have th: "threads k' u = (if u = t then (threads ?k2T t)\<lparr>wait_address := addr, status := WaitArb\<rparr> else threads k u)" for u
      using m(3) by (simp add: k' WaitThread_def)
    moreover have "found_at k' a b = found_at k a b @ (if b = addr then [t] else [])" for b
    proof -
      have "filter (waits_on k' b) (arb_waiting k a) = filter (waits_on k b) (arb_waiting k a)"
        using caller_not_waiting [OF assms(2,3)] by (intro filter_cong) (auto simp: waits_on_def th)
      moreover have "waits_on k' b t \<longleftrightarrow> b = addr" by (auto simp: waits_on_def th)
      moreover have "arb_waiting k' a = arb_waiting k a @ [t]" using m(4) by (simp add: k' WaitThread_def)
      ultimately show ?thesis by (simp add: found_at_def)
    qed
    moreover have "word_at k' p addr = (if ?d then sub_u32 ?x 1 else ?x)"
      unfolding k2(2) [symmetric] by (rule word_at_cong) (simp_all add: k' WaitThread_def)
    moreover have "timing k' = T" by (simp add: k' WaitThread_def)
    moreover have "arbitrate_wait ?d (if ?to then Some ns else None) a t addr v k =
        Option.bind (if ?to then WakeAfterDelay t (wrap_s64 ns) False (arb_callback a t (k\<lparr>memory := ms\<rparr>)) else Some (k\<lparr>memory := ms\<rparr>))
          (\<lambda>k3. Some (WaitThread a t addr k3))"
      using True k2(1) by (simp add: arbitrate_wait_def Read32_plain [OF assms(4)])
    then have "arbitrate_wait ?d (if ?to then Some ns else None) a t addr v k = Some k'"
      by (simp only: T(1) Option.bind.simps k')
    ultimately show ?thesis
      using True T(2) assms(6) by (simp add: ArbitrateAddress_wait) (simp add: ArbitrateAddress_def)
  qed (use assms in \<open>simp add: ArbitrateAddress_wait Read32_plain arbitrate_wait_def, simp add: ArbitrateAddress_def\<close>)
qed

text \<open>The threads a signal with count \<open>v\<close> is meant to wake: all of the address for a negative count, and otherwise the first
  \<open>v\<close> in the order of priority and, within a priority, of arrival.\<close>

definition to_wake :: "int \<Rightarrow> nat \<Rightarrow> nat \<Rightarrow> kernel \<Rightarrow> nat list" where
  "to_wake v a addr k = (if v < 0 then found_at k a addr else take (nat v) (sort_key (urgency k) (found_at k a addr)))"

text \<open>C8: Signalling an address wakes the right threads.  The call returns success, wakes exactly the threads of
  \<^const>\<open>to_wake\<close>, which become ready and are appended to the ready queues in that order; no other thread changes, the rest
  of the waiters of every address keep their order, and all consistency is kept.  The caller is charged ticks exactly if
  nobody was woken and its priority is 49 or less urgent.\<close>

theorem arbiter_signal:
  assumes "kinv k" and "arb_inv k"
  shows "\<exists>k'. ArbitrateAddress scale a t (Some AT_Signal) addr v ns k = Some (ResultSuccess, k') \<and> kinv k' \<and> arb_inv k' \<and>
    (\<forall>u. threads k' u = (if u \<in> set (to_wake v a addr k) then (threads k u)\<lparr>wakeup_callback := None, status := Ready\<rparr> else threads k u)) \<and>
    (\<forall>c p. p < 64 \<longrightarrow> q_data (rq k' c) p = q_data (rq k c) p @
       filter (\<lambda>u. core_id (threads k u) = c \<and> current_priority (threads k u) = p) (to_wake v a addr k)) \<and>
    found_at k' a addr = filter (\<lambda>u. u \<notin> set (to_wake v a addr k)) (found_at k a addr) \<and>
    (\<forall>b. b \<noteq> addr \<longrightarrow> found_at k' a b = found_at k a b) \<and>
    timing k' = (if to_wake v a addr k = [] \<and> current_priority (threads k t) \<ge> 49
      then upd_timer (current_cpu k') (Timer_AddTicks scale 1614) (timing k) else timing k)"
proof -
  let ?ts = "to_wake v a addr k"
  obtain k1 where k1: "(if v < 0 then ResumeAllThreads a addr k else resume_loop (nat v) a addr 0 k) = Some (length ?ts, k1)"
    "signalled a addr ?ts k k1"
    using ResumeAll_signalled [OF assms(2), of a addr] resume_loop_signalled [OF assms(2), of "nat v" a addr 0]
    by (cases "v < 0") (auto simp: to_wake_def min.commute)
  have ts: "distinct ?ts" "set ?ts \<subseteq> set (found_at k a addr)"
    using found_at_facts(1) [OF assms(2)] by (auto simp: to_wake_def dest: in_set_takeD)
  note e = signalled_effect [OF assms k1(2) ts]
  have prio: "urgency k1 t = urgency k t" by (simp add: e(5))
  have tm: "timing k1 = timing k" using k1(2) by (auto simp: signalled_def)
  let ?k = "if ?ts = [] \<and> current_priority (threads k t) \<ge> 49 then add_ticks scale 1614 k1 else k1"
  have "ArbitrateAddress scale a t (Some AT_Signal) addr v ns k = Some (ResultSuccess, ?k)"
    using k1(1) by (simp add: ArbitrateAddress_def arbitrate_signal_def prio)
  moreover have "timing ?k = (if ?ts = [] \<and> current_priority (threads k t) \<ge> 49
      then upd_timer (current_cpu ?k) (Timer_AddTicks scale 1614) (timing k) else timing k)"
    by (simp add: tm add_ticks_def)
  ultimately show ?thesis
    using e by (intro exI [of _ ?k]) simp
qed


lemma leave_waits_idle: "wait_objects (threads k t) = [] \<Longrightarrow> leave_waits t k = k"
proof -
  assume e: "wait_objects (threads k t) = []"
  have "leave_waits t k = k\<lparr>threads := (threads k)(t := (threads k t)\<lparr>wait_objects := []\<rparr>)\<rparr>"
    by (simp add: leave_waits_def upd_thread_def e)
  also have "(threads k)(t := (threads k t)\<lparr>wait_objects := []\<rparr>) = threads k"
    using e by (intro ext) simp
  finally show "leave_waits t k = k" by simp
qed

text \<open>C18: A wait with a timeout ends.  When the event that the wait has scheduled fires, its callback returns: the thread leaves the list of
  the arbiter, whose other waiters keep their order, and becomes ready behind the ready threads of its priority;
  all consistency is kept.  A second event for the thread then changes nothing.\<close>

theorem arbiter_timeout_wakes:
  assumes "kinv k" and "arb_inv k" and "t \<in> set (arb_waiting k a)" and "wakeup_callback (threads k t) = Some (ArbiterCallback a)"
    and "core_id (threads k t) = c" and "wakeup_callback_table (thread_managers k c) (thread_id (threads k t)) = Some t"
  shows "\<exists>k'. ThreadWakeupCallback c (thread_id (threads k t)) k = Some k' \<and> kinv k' \<and> arb_inv k' \<and>
    arb_waiting k' a = remove1 t (arb_waiting k a) \<and>
    threads k' t = (threads k t)\<lparr>wakeup_callback := None, status := Ready\<rparr> \<and> (\<forall>u. u \<noteq> t \<longrightarrow> threads k' u = threads k u) \<and>
    q_data (rq k' c) (current_priority (threads k t)) = q_data (rq k c) (current_priority (threads k t)) @ [t] \<and>
    ThreadWakeupCallback c (thread_id (threads k t)) k' = Some k'"
proof -
  have w: "t < num_threads k" "status (threads k t) = WaitArb" "wait_objects (threads k t) = []"
    using arb_invD(2) [OF assms(2,3)] by (simp_all add: arb_waits_def)
  let ?us = "remove1 t (arb_waiting k a)"
  have us: "?us = removeAll t (arb_waiting k a)" using arb_invD(1) [OF assms(2)] by (simp add: distinct_remove1_removeAll)
  let ?k1 = "set_arb_waiting a ?us k"
  define k' where k': "k' = set_arb_waiting a ?us (wake_all [t] k)"
  have k1: "?k1 = upd_arbiter a (\<lambda>x. x\<lparr>arb_waiting_threads := removeAll t (arb_waiting_threads x)\<rparr>) k"
    by (simp add: set_arb_waiting_def upd_arbiter_def us)
  have "run_wakeup_callback Timeout t None k = Some ?k1"
    using assms(4) by (simp add: run_wakeup_callback_def k1)
  moreover have "leave_waits t ?k1 = ?k1" using w(3) by (intro leave_waits_idle) simp
  moreover have "ResumeFromWait t ?k1 = Some k'" using w by (simp add: ResumeFromWait_cases can_resume_def k')
  ultimately have run: "ThreadWakeupCallback c (thread_id (threads k t)) k = Some k'"
    using assms(6) w(2) by (simp add: ThreadWakeupCallback_def)
  have aw: "\<forall>u \<in> set [t]. arb_waits k a u" using arb_invD(2) [OF assms(2,3)] by simp
  have inv: "kinv k'" "arb_inv k'"
    using wake_all_kinv [OF assms(1) _ aw] arb_inv_wake [OF assms(2), of "[t]" a ?us] assms(3) arb_invD(1) [OF assms(2), of a]
    by (simp_all add: k' set_remove1_eq)
  have th: "threads k' u = (if u = t then (threads k t)\<lparr>wakeup_callback := None, status := Ready\<rparr> else threads k u)" for u
    by (simp add: k' make_ready_threads)
  have p: "current_priority (threads k t) < 64"
    using sched_invD(2) [OF kinvD(1) [OF assms(1)] w(1)] by (simp add: thread_ok_def)
  have q: "q_data (rq k' c) (current_priority (threads k t)) = q_data (rq k c) (current_priority (threads k t)) @ [t]"
    using wake_all_queue [OF assms(1) _ aw p, of c] assms(5) by (simp add: k')
  have "wakeup_callback_table (thread_managers k' c) (thread_id (threads k t)) = Some t"
    using assms(6) by (simp add: k' make_ready_def)
  then have again: "ThreadWakeupCallback c (thread_id (threads k t)) k' = Some k'"
    using w(3) by (simp add: ThreadWakeupCallback_def th ResumeFromWait_cases can_resume_def)
  have "arb_waiting k' a = ?us" by (simp add: k')
  then show ?thesis using run inv th q again by (intro exI [of _ k']) simp
qed

text \<open>The thread of \<open>demo_kernel\<close> runs and has the page of \<open>demo_table\<close>.\<close>

definition demo_caller :: kernel where
  "demo_caller = upd_thread 0 (\<lambda>th. th\<lparr>status := Running, thread_id := 7\<rparr>)
     (upd_manager 0 (\<lambda>m. m\<lparr>wakeup_callback_table := [7 \<mapsto> 0]\<rparr>)
       (demo_kernel\<lparr>current_page_table := Some 0,
          processes := (\<lambda>_. new_Process\<lparr>vm_manager := (vm_manager new_Process)\<lparr>page_table := demo_table\<rparr>\<rparr>)\<rparr>))"


lemma demo_caller_simps [simp]:
  "num_threads demo_caller = 1" "status (threads demo_caller 0) = Running" "wait_objects (threads demo_caller 0) = []"
  "wakeup_callback (threads demo_caller 0) = None" "thread_id (threads demo_caller 0) = 7" "core_id (threads demo_caller 0) = 0"
  "arbiters demo_caller a = \<lparr>arb_waiting_threads = [], arb_limit = None\<rparr>"
  "wakeup_callback_table (thread_managers demo_caller 0) = [7 \<mapsto> 0]"
  "timing demo_caller = timing demo_kernel" "memory demo_caller = demo_memory" "current_page_table demo_caller = Some 0"
  "page_table (vm_of demo_caller 0) = demo_table"
  by (simp_all add: demo_caller_def demo_kernel_def new_KernelSystem_def blank_thread_def)

lemma demo_caller_ok:
  "kinv demo_caller" "arb_inv demo_caller" "caller demo_caller 0" "plain_word demo_caller 0 0x100000"
  "current_timer (timing demo_kernel) < length (timers (timing demo_kernel))" "word_at demo_caller 0 0x100000 = 0x10101010"
proof -
  show "kinv demo_caller"
    unfolding demo_caller_def
  proof (rule kinv_upd_idle, goal_cases)
    case 1
    show ?case using demo_kernel_kinv by (subst kinv_same [of _ demo_kernel]) simp_all
  qed (simp_all add: blank_thread_def)
  show "arb_inv demo_caller" by (simp add: arb_inv_def)
  show "caller demo_caller 0" by (simp add: caller_def)
  show "plain_word demo_caller 0 0x100000"
    by (simp add: plain_word_def page_pointer_def demo_table_def CITRA_PAGE_SIZE_def)
  show "current_timer (timing demo_kernel) < length (timers (timing demo_kernel))"
    by (simp add: demo_kernel_def new_KernelSystem_def RegisterEvent_def register_wakeups_def new_Timing_def UpdateClockSpeed_def Let_def)
  show "word_at demo_caller 0 0x100000 = 0x10101010"
    by (simp add: word_at_def word_ptr_def page_pointer_def demo_table_def demo_memory_def CITRA_PAGE_SIZE_def host_read_def upt_rec)
qed


theorem arbiter_wait_witness:
  "\<exists>k'. ArbitrateAddress (\<lambda>_ n. n) 0 0 (Some DecrementAndWaitIfLessThanWithTimeout) 0x100000 0x20000000 5000 demo_caller = Some (ResultTimeout, k') \<and>
     found_at k' 0 0x100000 = [0] \<and> word_at k' 0 0x100000 = 0x1010100F"
  using arbiter_wait [OF demo_caller_ok(1-4), of DecrementAndWaitIfLessThanWithTimeout "\<lambda>_ n. n" 0 "0x20000000" 5000] demo_caller_ok(5,6)
  by (simp add: wrap_s32_def found_at_def sub_u32_def) blast

text \<open>The same thread, waiting on the word with a timeout.\<close>

definition demo_waiter :: kernel where
  "demo_waiter = WaitThread 0 0 0x100000 (arb_callback 0 0 demo_caller)"

lemma demo_waiter_ok:
  "kinv demo_waiter" "arb_inv demo_waiter" "arb_waiting demo_waiter 0 = [0]" "found_at demo_waiter 0 0x100000 = [0]"
  "wakeup_callback (threads demo_waiter 0) = Some (ArbiterCallback 0)" "core_id (threads demo_waiter 0) = 0"
  "thread_id (threads demo_waiter 0) = 7" "wakeup_callback_table (thread_managers demo_waiter 0) = [7 \<mapsto> 0]"
proof -
  note cb = callback_inv [OF demo_caller_ok(1,2), of 0 0]
  show "kinv demo_waiter" unfolding demo_waiter_def by (rule WaitThread_kinv) (use cb in simp_all)
  show "arb_inv demo_waiter" unfolding demo_waiter_def by (rule WaitThread_arb_inv) (use cb in simp_all)
  show "arb_waiting demo_waiter 0 = [0]" "found_at demo_waiter 0 0x100000 = [0]"
    "wakeup_callback (threads demo_waiter 0) = Some (ArbiterCallback 0)" "core_id (threads demo_waiter 0) = 0"
    "thread_id (threads demo_waiter 0) = 7" "wakeup_callback_table (thread_managers demo_waiter 0) = [7 \<mapsto> 0]"
    by (simp_all add: demo_waiter_def WaitThread_def found_at_def waits_on_def)
qed

theorem arbiter_timeout_wakes_witness:
  "\<exists>k'. ThreadWakeupCallback 0 7 demo_waiter = Some k' \<and> arb_waiting k' 0 = [] \<and> status (threads k' 0) = Ready"
  using arbiter_timeout_wakes [OF demo_waiter_ok(1,2), of 0 0 0] demo_waiter_ok(3-8) by auto

theorem arbiter_signal_witness:
  "\<exists>k'. ArbitrateAddress (\<lambda>_ n. n) 0 0 (Some AT_Signal) 0x100000 1 0 demo_waiter = Some (ResultSuccess, k') \<and>
     found_at k' 0 0x100000 = [] \<and> status (threads k' 0) = Ready"
  using arbiter_signal [OF demo_waiter_ok(1,2), of "\<lambda>_ n. n" 0 0 "0x100000" 1 0] demo_waiter_ok(4)
  by (auto simp: to_wake_def)

end
