(* ===== verification/Shared_Memory.thy ===== *)
theory Shared_Memory
  imports Process_Memory
begin

unbundle bit_operations_syntax

text \<open>
  Shared memory blocks, \<^verbatim>\<open>core/hle/kernel/shared_memory.cpp\<close>: a block is allocated from a region or taken from the memory of its
  owner, and processes map it into their address spaces with the permissions its creator allows.
\<close>

section \<open>Operations\<close>

text \<open>\<^verbatim>\<open>MemoryPermission\<close> is the bit mask that system calls pass.\<close>

definition ReadWriteExecute :: u32 where "ReadWriteExecute = 1 OR 2 OR 4"
definition DontCare :: u32 where "DontCare = push_bit 28 1"

definition ConvertPermissions :: "u32 \<Rightarrow> VMAPermission" where
  "ConvertPermissions permission = ucast (permission AND ReadWriteExecute)"

definition upd_shm :: "nat \<Rightarrow> (SharedMemory \<Rightarrow> SharedMemory) \<Rightarrow> kernel \<Rightarrow> kernel" where
  "upd_shm s f k = k\<lparr>shared_memories := (shared_memories k)(s := f (shared_memories k s))\<rparr>"

definition add_shm :: "SharedMemory \<Rightarrow> kernel \<Rightarrow> nat \<times> kernel" where
  "add_shm x k = (num_shared_memories k, upd_shm (num_shared_memories k) (\<lambda>_. x) (k\<lparr>num_shared_memories := num_shared_memories k + 1\<rparr>))"

text \<open>
  The destructor, for an owner that still exists: the result of changing the state of the memory of the owner is
  ignored.
\<close>

definition delete_SharedMemory :: "icl \<Rightarrow> SharedMemory \<Rightarrow> kernel \<Rightarrow> kernel option" where
  "delete_SharedMemory ops x k = do {
     k1 \<leftarrow> fold_opt (\<lambda>i k. do {
            reg \<leftarrow> Region_Free ops (fst i) (snd i - fst i) (memory_regions k (shm_region x));
            Some (set_region (shm_region x) reg k)
          }) (shm_holding_memory x) k;
     case shm_owner x of
       None \<Rightarrow> Some k1
     | Some p \<Rightarrow> do {
         (_, k2) \<leftarrow> release_limit p RSharedMemory 1 k1;
         if base_address x \<noteq> 0 then do {
           (_, m) \<leftarrow> ChangeMemoryState (kcached k2) (base_address x) (shm_size x) MS_Locked perm_None MS_Private perm_ReadWrite (vm_of k2 p);
           Some (set_vm p m k2)
         } else Some (upd_process p (\<lambda>pr. pr\<lparr>memory_used := sub_u32 (memory_used pr) (shm_size x)\<rparr>) k2)
       }
   }"

text \<open>
  The two ways to create a block.  A region without space is an assertion; when the memory of the owner is not in the expected
  state the new object is destroyed again.
\<close>

definition create_linear :: "icl \<Rightarrow> SharedMemory \<Rightarrow> kernel \<Rightarrow> (nat \<times> kernel) option" where
  "create_linear ops x k = do {
     (offset, reg) \<leftarrow> Region_LinearAllocate ops (shm_size x) (memory_regions k (shm_region x));
     off \<leftarrow> offset;
     let upper = wrap_u32 (off + shm_size x);
     ms \<leftarrow> fill_zero off upper (memory k);
     ref \<leftarrow> GetFCRAMRef (memory k) off;
     let k1 = (set_region (shm_region x) reg k)\<lparr>memory := ms\<rparr>;
     Some (add_shm (x\<lparr>backing_blocks := [(ref, shm_size x)], shm_holding_memory := icl_add ops [] (off, upper),
                      linear_heap_phys_offset := off\<rparr>)
       (case shm_owner x of
          None \<Rightarrow> k1
        | Some p \<Rightarrow> upd_process p (\<lambda>pr. pr\<lparr>memory_used := wrap_u32 (memory_used pr + shm_size x)\<rparr>) k1))
   }"

definition create_mapped :: "icl \<Rightarrow> nat \<Rightarrow> SharedMemory \<Rightarrow> kernel \<Rightarrow> (nat result_val \<times> kernel) option" where
  "create_mapped ops address x k = do {
     p \<leftarrow> shm_owner x;
     (r, m) \<leftarrow> ChangeMemoryState (kcached k) address (shm_size x) MS_Private perm_ReadWrite MS_Locked
                (ConvertPermissions (shm_permissions x)) (vm_of k p);
     let k1 = set_vm p m k;
     if IsError r then do {
       k2 \<leftarrow> delete_SharedMemory ops x k1;
       Some (Inl r, k2)
     } else do {
       b \<leftarrow> GetBackingBlocksForRange address (shm_size x) m;
       blocks \<leftarrow> Unwrap b;
       let (s, k2) = add_shm (x\<lparr>backing_blocks := blocks, base_address := address\<rparr>) k1;
       Some (Inr s, k2)
     }
   }"

definition CreateSharedMemory ::
  "icl \<Rightarrow> nat option \<Rightarrow> nat \<Rightarrow> u32 \<Rightarrow> u32 \<Rightarrow> nat \<Rightarrow> MemoryRegion \<Rightarrow> kernel \<Rightarrow> (nat result_val \<times> kernel) option" where
  "CreateSharedMemory ops owner sz perms others address region k =
     (let x = new_SharedMemory\<lparr>shm_owner := owner, shm_size := sz, shm_region := GetMemoryRegion region, shm_permissions := perms,
                               other_permissions := others\<rparr>
      in if address = 0 then map_option (\<lambda>(s, k). (Inr s, k)) (create_linear ops x k) else create_mapped ops address x k)"

definition applet_block :: "Interval \<Rightarrow> (MemoryRef \<times> nat) list \<times> kernel \<Rightarrow> ((MemoryRef \<times> nat) list \<times> kernel) option" where
  "applet_block i = (\<lambda>(blocks, k). do {
     ref \<leftarrow> GetFCRAMRef (memory k) (fst i);
     ms \<leftarrow> fill_zero (fst i) (snd i) (memory k);
     Some (blocks @ [(ref, snd i - fst i)], k\<lparr>memory := ms\<rparr>)
   })"

definition CreateSharedMemoryForApplet :: "icl \<Rightarrow> nat \<Rightarrow> nat \<Rightarrow> u32 \<Rightarrow> u32 \<Rightarrow> kernel \<Rightarrow> (nat \<times> kernel) option" where
  "CreateSharedMemoryForApplet ops offset sz perms others k = do {
     let r = GetMemoryRegion SYSTEM;
     (held, reg) \<leftarrow> Region_HeapAllocate ops sz (memory_regions k r);
     assert_opt (held \<noteq> []);
     (blocks, k1) \<leftarrow> fold_opt applet_block held ([], set_region r reg k);
     Some (add_shm (new_SharedMemory\<lparr>shm_holding_memory := held, shm_size := sz, shm_region := r, shm_permissions := perms,
       other_permissions := others, backing_blocks := blocks, base_address := wrap_u32 (HEAP_VADDR + offset)\<rparr>) k1)
   }"

definition SharedMemory_Map :: "nat \<Rightarrow> nat \<Rightarrow> nat \<Rightarrow> u32 \<Rightarrow> u32 \<Rightarrow> kernel \<Rightarrow> (result \<times> kernel) option" where
  "SharedMemory_Map s p address perms others k =
     (let x = shared_memories k s;
          own_other_permissions = (if shm_owner x = Some p then shm_permissions x else other_permissions x)
      in if base_address x = 0 \<and> others \<noteq> DontCare then Some (ResultInvalidCombination, k)
      else if perms AND NOT own_other_permissions \<noteq> 0 then Some (ResultInvalidCombination, k)
      else if base_address x \<noteq> 0 \<and> others = DontCare then Some (ResultInvalidCombination, k)
      else if others \<noteq> DontCare \<and> shm_permissions x AND NOT others \<noteq> 0 then Some (ResultWrongPermission, k)
      else if address \<noteq> 0 \<and> (address < HEAP_VADDR \<or> wrap_u32 (address + shm_size x) \<ge> SHARED_MEMORY_VADDR_END)
        then Some (ResultInvalidAddress, k)
      else let target = (if base_address x = 0 \<and> address = 0 then wrap_u32 (linear_heap_phys_offset x + LINEAR_HEAP_VADDR) else address)
      in do {
        free \<leftarrow> free_area_at target (shm_size x) (vm_of k p);
        if \<not> free then Some (ResultInvalidAddressState, k)
        else do {
          (_, m) \<leftarrow> fold_opt (map_block (kcached k) MS_Shared (ConvertPermissions perms)) (backing_blocks x) (target, vm_of k p);
          Some (ResultSuccess, set_vm p m k)
        }
      })"

definition SharedMemory_Unmap :: "nat \<Rightarrow> nat \<Rightarrow> nat \<Rightarrow> kernel \<Rightarrow> (result \<times> kernel) option" where
  "SharedMemory_Unmap s p address k = do {
     (r, m) \<leftarrow> UnmapRange (kcached k) address (shm_size (shared_memories k s)) (vm_of k p);
     Some (r, set_vm p m k)
   }"

definition SharedMemory_GetPointer :: "SharedMemory \<Rightarrow> nat \<Rightarrow> nat option" where
  "SharedMemory_GetPointer x offset = do {
     assert_opt (backing_blocks x \<noteq> []);
     ref \<leftarrow> ref_add (fst (hd (backing_blocks x))) offset;
     Some (GetPtr ref)
   }"


section \<open>Mapping\<close>

definition shm_ok :: "host \<Rightarrow> SharedMemory \<Rightarrow> bool" where
  "shm_ok H x \<longleftrightarrow> backing_blocks x \<noteq> [] \<and> list_all (good_block H) (backing_blocks x) \<and> total_size (backing_blocks x) = shm_size x"

text \<open>What a process may do with a block, where it is mapped, and when the call accepts its arguments.\<close>

definition allowed_to :: "nat \<Rightarrow> SharedMemory \<Rightarrow> u32" where
  "allowed_to p x = (if shm_owner x = Some p then shm_permissions x else other_permissions x)"

definition shm_target :: "nat \<Rightarrow> SharedMemory \<Rightarrow> nat" where
  "shm_target address x = (if base_address x = 0 \<and> address = 0 then linear_heap_phys_offset x + LINEAR_HEAP_VADDR else address)"

definition shm_accepts :: "nat \<Rightarrow> nat \<Rightarrow> u32 \<Rightarrow> u32 \<Rightarrow> SharedMemory \<Rightarrow> bool" where
  "shm_accepts p address perms others x \<longleftrightarrow>
     (base_address x = 0 \<longleftrightarrow> others = DontCare) \<and> perms AND NOT (allowed_to p x) = 0 \<and>
     (others = DontCare \<or> shm_permissions x AND NOT others = 0) \<and>
     (address = 0 \<or> HEAP_VADDR \<le> address \<and> address + shm_size x < SHARED_MEMORY_VADDR_END)"

lemma ConvertPermissions_mono:
  assumes "a AND NOT b = 0"
  shows "ConvertPermissions a AND NOT (ConvertPermissions b) = 0"
proof (rule bit_word_eqI)
  fix n assume "n < LENGTH(8)"
  moreover have "\<not> (bit a n \<and> \<not> bit b n)" if "n < LENGTH(8)"
    using arg_cong [OF assms, of "\<lambda>w. bit w n"] that by (auto simp: bit_and_iff bit_not_iff)
  ultimately show "bit (ConvertPermissions a AND NOT (ConvertPermissions b)) n = bit (0 :: 8 word) n"
    by (auto simp: ConvertPermissions_def bit_and_iff bit_not_iff bit_unsigned_iff)
qed

lemma SharedMemory_Map_ok:
  fixes k :: kernel and s p address :: nat
  defines "x \<equiv> shared_memories k s"
  assumes "separated H" and "vm_inv H F (kcached k) (vm_of k p)" and "\<not> is_locked (vm_of k p)" and "shm_ok H x"
    and "good_range (shm_target address x) (shm_size x)"
    and "ConvertPermissions perms = perm_ReadWrite \<or> isolated (shm_target address x) (shm_size x) MS_Shared (vm_of k p)"
    and "shm_accepts p address perms others x" and "all_free (shm_target address x) (shm_size x) (vm_of k p)"
  shows "\<exists>m. SharedMemory_Map s p address perms others k = Some (ResultSuccess, set_vm p m k) \<and> vm_inv H F (kcached k) m \<and> \<not> is_locked m \<and>
    pages (vma_map m) = set_range (shm_target address x) (concat (map (block_pages (ConvertPermissions perms) MS_Shared) (backing_blocks x)))
      (pages (vma_map (vm_of k p)))"
proof -
  let ?t = "shm_target address x"
  obtain m where m: "fold_opt (map_block (kcached k) MS_Shared (ConvertPermissions perms)) (backing_blocks x) (?t, vm_of k p) =
      Some (?t + shm_size x, m)" "vm_inv H F (kcached k) m" "\<not> is_locked m"
    "pages (vma_map m) = set_range ?t (concat (map (block_pages (ConvertPermissions perms) MS_Shared) (backing_blocks x))) (pages (vma_map (vm_of k p)))"
    using map_blocks_ok [OF assms(2-4), of "backing_blocks x" ?t "ConvertPermissions perms" MS_Shared] assms(5-7,9) by (auto simp: shm_ok_def)
  have w: "(if base_address x = 0 \<and> address = 0 then wrap_u32 (linear_heap_phys_offset x + LINEAR_HEAP_VADDR) else address) = ?t"
    "address \<noteq> 0 \<Longrightarrow> wrap_u32 (address + shm_size x) = address + shm_size x"
    using good_rangeD(4) [OF assms(6)] by (auto simp: shm_target_def split: if_splits)
  have "SharedMemory_Map s p address perms others k = Some (ResultSuccess, set_vm p m k)"
    unfolding SharedMemory_Map_def Let_def x_def [symmetric] allowed_to_def [symmetric] w(1)
    using assms(8,9) free_area_at_spec [OF assms(3,6)] m(1) w(2) by (auto simp: shm_accepts_def)
  then show ?thesis using m by blast
qed

text \<open>C35: Mapping a shared block.  For a block whose pages and an address space that are consistent, the call returns.  It succeeds exactly if the arguments
  fit what the creator of the block has declared and every page of the target range is free; then the range shows the pages of the
  block with exactly the requested permissions, none of which the creator withholds from the process, and no other page and no
  other process changes.  Otherwise the result is one of four errors and nothing changes.  This holds for the process that created the
  block too, with whatever address it was created: a comment in \<^verbatim>\<open>SharedMemory::Map\<close> says that the console refuses this case unless the
  address was zero, but the code does not check it.\<close>

theorem shm_map_refines:
  fixes k :: kernel and s p address :: nat
  defines "x \<equiv> shared_memories k s"
  defines "t \<equiv> shm_target address x"
  assumes "separated H" and "vm_inv H F (kcached k) (vm_of k p)" and "\<not> is_locked (vm_of k p)" and "shm_ok H x"
    and "good_range t (shm_size x)"
    and "ConvertPermissions perms = perm_ReadWrite \<or> isolated t (shm_size x) MS_Shared (vm_of k p)"
  shows "if shm_accepts p address perms others x \<and> all_free t (shm_size x) (vm_of k p) then
      \<exists>k'. SharedMemory_Map s p address perms others k = Some (ResultSuccess, k') \<and> vm_inv H F (kcached k') (vm_of k' p) \<and>
        pages (vma_map (vm_of k' p)) =
          set_range t (concat (map (block_pages (ConvertPermissions perms) MS_Shared) (backing_blocks x))) (pages (vma_map (vm_of k p))) \<and>
        ConvertPermissions perms AND NOT (ConvertPermissions (allowed_to p x)) = 0 \<and> (\<forall>q. q \<noteq> p \<longrightarrow> processes k' q = processes k q)
    else \<exists>e \<in> {ResultInvalidCombination, ResultWrongPermission, ResultInvalidAddress, ResultInvalidAddressState}.
      SharedMemory_Map s p address perms others k = Some (e, k)"
proof (cases "shm_accepts p address perms others x \<and> all_free t (shm_size x) (vm_of k p)")
  case True
  then obtain m where m: "SharedMemory_Map s p address perms others k = Some (ResultSuccess, set_vm p m k)" "vm_inv H F (kcached k) m"
    "pages (vma_map m) = set_range t (concat (map (block_pages (ConvertPermissions perms) MS_Shared) (backing_blocks x))) (pages (vma_map (vm_of k p)))"
    using SharedMemory_Map_ok [where s = s and k = k and others = others, folded x_def, OF assms(3-8) [unfolded t_def]] unfolding t_def by blast
  have "ConvertPermissions perms AND NOT (ConvertPermissions (allowed_to p x)) = 0"
    using True by (intro ConvertPermissions_mono) (simp add: shm_accepts_def)
  then show ?thesis
    using True m by (intro iffD2 [OF if_P] exI [of _ "set_vm p m k"]) (simp_all add: set_vm_def upd_process_def)
next
  case False
  have w: "(if base_address x = 0 \<and> address = 0 then wrap_u32 (linear_heap_phys_offset x + LINEAR_HEAP_VADDR) else address) = t"
    "address \<noteq> 0 \<Longrightarrow> wrap_u32 (address + shm_size x) = address + shm_size x"
    using good_rangeD(4) [OF assms(7)] by (auto simp: t_def shm_target_def split: if_splits)
  show ?thesis
    unfolding if_not_P [OF False] SharedMemory_Map_def Let_def x_def [symmetric] allowed_to_def [symmetric] w(1)
    using False free_area_at_spec [OF assms(4,7)] w(2) by (auto simp: shm_accepts_def)
qed

text \<open>Unmapping what was mapped gives the address space back: after a successful mapping, mapping the block again at the same address is
  refused, and unmapping it returns success and restores every page.\<close>

theorem shm_map_unmap:
  fixes k :: kernel and s p address :: nat
  defines "x \<equiv> shared_memories k s"
  defines "t \<equiv> shm_target address x"
  assumes "separated H" and "vm_inv H F (kcached k) (vm_of k p)" and "\<not> is_locked (vm_of k p)" and "shm_ok H x"
    and "good_range t (shm_size x)"
    and "ConvertPermissions perms = perm_ReadWrite \<or> isolated t (shm_size x) MS_Shared (vm_of k p)"
    and "shm_accepts p address perms others x" and "all_free t (shm_size x) (vm_of k p)"
  shows "\<exists>k1 k2. SharedMemory_Map s p address perms others k = Some (ResultSuccess, k1) \<and>
    SharedMemory_Map s p address perms others k1 = Some (ResultInvalidAddressState, k1) \<and>
    SharedMemory_Unmap s p t k1 = Some (ResultSuccess, k2) \<and> vm_inv H F (kcached k2) (vm_of k2 p) \<and>
    pages (vma_map (vm_of k2 p)) = pages (vma_map (vm_of k p))"
proof -
  obtain m where m: "SharedMemory_Map s p address perms others k = Some (ResultSuccess, set_vm p m k)" "vm_inv H F (kcached k) m" "\<not> is_locked m"
    "pages (vma_map m) = set_range t (concat (map (block_pages (ConvertPermissions perms) MS_Shared) (backing_blocks x))) (pages (vma_map (vm_of k p)))"
    using SharedMemory_Map_ok [where s = s and k = k and others = others, folded x_def, OF assms(3-10) [unfolded t_def]] unfolding t_def by blast
  let ?k1 = "set_vm p m k" and ?ps = "pages (vma_map (vm_of k p))"
  let ?bs = "concat (map (block_pages (ConvertPermissions perms) MS_Shared) (backing_blocks x))"
  note c = vm_invD(1) [OF assms(4)]
  note len = map_length [OF c]
  have bl: "length ?bs = shm_size x div CITRA_PAGE_SIZE"
    using blocks_length [of H "backing_blocks x"] assms(6) by (simp add: shm_ok_def)
  have rp: "range_pages t (shm_size x) (pages (vma_map m)) = ?bs" using set_range_pages(1) [OF assms(7) len bl] m(4) by simp
  have used: "fst q = BackingMemory" if "q \<in> set (range_pages t (shm_size x) (pages (vma_map m)))" for q
    using that unfolding rp by (auto simp: block_pages_def)
  obtain m2 where m2: "UnmapRange (kcached k) t (shm_size x) m = Some (ResultSuccess, m2)" "vm_inv H F (kcached k) m2"
    "pages (vma_map m2) = set_range t (replicate (shm_size x div CITRA_PAGE_SIZE) free_page) (pages (vma_map m))"
    using UnmapRange_ok [OF assms(3) m(2,3) assms(7)] used by blast
  have "pages (vma_map m2) = set_range t (replicate (shm_size x div CITRA_PAGE_SIZE) free_page) ?ps"
    using m2(3) m(4) set_range_pages(3) [OF assms(7) len bl] by simp
  also have "replicate (shm_size x div CITRA_PAGE_SIZE) free_page = range_pages t (shm_size x) ?ps"
  proof (rule sym, rule replicate_eqI)
    show "length (range_pages t (shm_size x) ?ps) = shm_size x div CITRA_PAGE_SIZE" by (rule range_pages_length [OF assms(7) len])
    show "q = free_page" if "q \<in> set (range_pages t (shm_size x) ?ps)" for q
      using free_pages_blank [OF c, of q] that assms(10) by (auto simp: range_pages_def dest: in_set_takeD in_set_dropD)
  qed
  finally have restored: "pages (vma_map m2) = ?ps" using set_range_self [OF assms(7) len] by simp
  have sh: "shared_memories ?k1 s = x" "memory ?k1 = memory k" by (simp_all add: x_def set_vm_def upd_process_def)
  have w: "(if base_address x = 0 \<and> address = 0 then wrap_u32 (linear_heap_phys_offset x + LINEAR_HEAP_VADDR) else address) = t"
    "address \<noteq> 0 \<Longrightarrow> wrap_u32 (address + shm_size x) = address + shm_size x"
    using good_rangeD(4) [OF assms(7)] by (auto simp: t_def shm_target_def split: if_splits)
  have "range_pages t (shm_size x) (pages (vma_map m)) \<noteq> []" unfolding rp using bl good_rangeD [OF assms(7)]
    by (metis div_greater_zero_iff dvd_imp_le length_greater_0_conv PAGE_pos(1))
  then have "\<not> all_free t (shm_size x) m" using used by (metis VMAType.distinct(1) list.set_sel(1))
  then have "SharedMemory_Map s p address perms others ?k1 = Some (ResultInvalidAddressState, ?k1)"
    unfolding SharedMemory_Map_def Let_def sh(1) allowed_to_def [symmetric] w(1)
    using assms(9) free_area_at_spec [OF m(2) assms(7)] w(2) by (auto simp: shm_accepts_def)
  moreover have "SharedMemory_Unmap s p t ?k1 = Some (ResultSuccess, set_vm p m2 ?k1)"
    unfolding SharedMemory_Unmap_def sh using m2(1) by simp
  moreover have "vm_of (set_vm p m2 ?k1) p = m2" "memory (set_vm p m2 ?k1) = memory k" by (simp_all add: set_vm_def upd_process_def)
  ultimately show ?thesis using m(1) m2(2) restored by (intro exI [of _ ?k1] exI [of _ "set_vm p m2 ?k1"]) simp
qed


section \<open>Creation and destruction\<close>

lemma upd_shm_frame [simp]:
  "shared_memories (upd_shm s f k) s' = (if s' = s then f (shared_memories k s) else shared_memories k s')"
  "memory_regions (upd_shm s f k) = memory_regions k" "processes (upd_shm s f k) = processes k" "memory (upd_shm s f k) = memory k"
  "resource_limits (upd_shm s f k) = resource_limits k"
  by (simp_all add: upd_shm_def)

lemma shm_frames [simp]:
  "num_shared_memories (upd_process p f k) = num_shared_memories k" "num_shared_memories (set_region r reg k) = num_shared_memories k"
  "shared_memories (upd_process p f k) = shared_memories k" "shared_memories (set_region r reg k) = shared_memories k"
  "memory_regions (upd_process p f k) = memory_regions k" "memory_regions (set_region r reg k) r = reg"
  "processes (upd_process p f k) p = f (processes k p)" "processes (set_region r reg k) = processes k"
  "resource_limits (upd_process p f k) = resource_limits k" "resource_limits (set_region r reg k) = resource_limits k"
  "memory (upd_process p f k) = memory k"
  by (simp_all add: upd_process_def set_region_def)

lemma release_object:
  assumes "rl_valid (resource_limits k (resource_limit (processes k p)))"
  shows "\<exists>b R. release_limit p RSharedMemory 1 k = Some (b, k\<lparr>resource_limits := R\<rparr>)"
proof -
  let ?r = "resource_limits k (resource_limit (processes k p))"
  have "type_index RSharedMemory < type_index RMax" "rl_small 1" by (simp_all add: rl_small_def)
  from Release_cases [OF assms this] obtain b r where "Release (type_index RSharedMemory) 1 ?r = Some (b, r)"
    by (cases "1 \<le> rl_balance ?r (type_index RSharedMemory)") simp_all
  then have "release_limit p RSharedMemory 1 k =
      Some (b, k\<lparr>resource_limits := (resource_limits k)(resource_limit (processes k p) := r)\<rparr>)"
    by (simp only: release_limit_def Let_def option.map prod.case)
  then show ?thesis by blast
qed

context interval_sets
begin

lemma add_single: "a < b \<Longrightarrow> icl_add ops [] (a, b) = [(a, b)]"
  by (intro normal_unique) (simp_all add: add_normal add_elems)

lemma linear_allocate_at:
  assumes "region_inv r" "\<not> region_locked r" "0 < sz" "\<exists>a. {a..<a + sz} \<subseteq> free_set r"
  shows "\<exists>a. Region_LinearAllocate ops sz r = Some (Some a, take_block ops (a, a + sz) sz r) \<and> {a..<a + sz} \<subseteq> free_set r \<and>
    a + sz < 2 ^ 32 \<and> a + sz \<le> region_base r + region_size r"
proof -
  obtain i where i: "find (\<lambda>i. snd i - fst i \<ge> sz) (free_blocks r) = Some i" "i \<in> set (free_blocks r)" "sz \<le> snd i - fst i"
    using first_fit [OF region_invD(1) [OF assms(1)] assms(3)] assms(4) by (auto simp: free_set_def split: option.splits)
  note b = free_block_bound [OF assms(1) i(2)]
  have s: "{fst i..<fst i + sz} \<subseteq> free_set r" using i(3) b(3) by (auto simp: subset_iff)
  then have "fst i + sz - 1 \<in> free_set r" using assms(3) by auto
  then have "fst i + sz \<le> region_base r + region_size r" using region_invD(3) [OF assms(1)] assms(3) by fastforce
  moreover have lt: "fst i + sz < 2 ^ 32" using i(3) b(1,2) by simp
  ultimately show ?thesis using assms(2) i(1) s by (auto simp: Region_LinearAllocate_def)
qed

lemma linear_allocate_none:
  assumes "region_inv r" "\<not> region_locked r" "0 < sz" "\<nexists>a. {a..<a + sz} \<subseteq> free_set r"
  shows "Region_LinearAllocate ops sz r = Some (None, r)"
proof -
  have "find (\<lambda>i. snd i - fst i \<ge> sz) (free_blocks r) = None"
    using first_fit [OF region_invD(1) [OF assms(1)] assms(3)] assms(4) free_block_bound(3) [OF assms(1)]
    by (fastforce simp: find_None_iff subset_iff)
  then show ?thesis using assms(2) by (simp add: Region_LinearAllocate_def)
qed

end

text \<open>C36: A block of the linear heap lives on memory of its own.  If the region has enough consecutive free offsets, creating the block takes
  such offsets, sets their bytes and no others to zero, and charges the owner with its size; destroying the block then gives
  the offsets back and takes the charge away, so that the region and the account are as before.  If the region has no room the
  creation stops at an assertion.\<close>

theorem shm_create_destroy:
  fixes k :: kernel and p sz :: nat and region :: MemoryRegion
  defines "r \<equiv> GetMemoryRegion region"
  assumes "interval_sets ops" and "region_inv (memory_regions k r)" and "\<not> region_locked (memory_regions k r)"
    and "region_base (memory_regions k r) + region_size (memory_regions k r) \<le> FCRAM_N3DS_SIZE" and "0 < sz"
    and "rl_valid (resource_limits k (resource_limit (processes k p)))" and "memory_used (processes k p) + sz < 2 ^ 32"
  shows "if \<exists>a. {a..<a + sz} \<subseteq> free_set (memory_regions k r) then
      \<exists>s k1 k2 a. CreateSharedMemory ops (Some p) sz perms others 0 region k = Some (Inr s, k1) \<and>
        {a..<a + sz} \<subseteq> free_set (memory_regions k r) \<and> free_set (memory_regions k1 r) = free_set (memory_regions k r) - {a..<a + sz} \<and>
        backing_blocks (shared_memories k1 s) = [fcram_block (memory k) (a, a + sz)] \<and>
        (\<forall>b. host_memory (memory k1) b =
          (if b \<in> {fcram (memory k) + a..<fcram (memory k) + a + sz} then 0 else host_memory (memory k) b)) \<and>
        memory_used (processes k1 p) = memory_used (processes k p) + sz \<and>
        delete_SharedMemory ops (shared_memories k1 s) k1 = Some k2 \<and> memory_regions k2 r = memory_regions k r \<and>
        memory_used (processes k2 p) = memory_used (processes k p)
    else CreateSharedMemory ops (Some p) sz perms others 0 region k = None"
proof -
  let ?reg = "memory_regions k r" and ?ms = "memory k"
  let ?x = "new_SharedMemory\<lparr>shm_owner := Some p, shm_size := sz, shm_region := r, shm_permissions := perms, other_permissions := others\<rparr>"
  have cr: "CreateSharedMemory ops (Some p) sz perms others 0 region k = map_option (\<lambda>(s, k). (Inr s, k)) (create_linear ops ?x k)"
    by (simp add: CreateSharedMemory_def r_def)
  show ?thesis
  proof (cases "\<exists>a. {a..<a + sz} \<subseteq> free_set ?reg")
    case False
    then show ?thesis
      unfolding cr using interval_sets.linear_allocate_none [OF assms(2-4,6)] by (simp add: create_linear_def)
  next
    case True
    obtain a where a: "Region_LinearAllocate ops sz ?reg = Some (Some a, take_block ops (a, a + sz) sz ?reg)" "{a..<a + sz} \<subseteq> free_set ?reg"
      "a + sz < 2 ^ 32" "a + sz \<le> FCRAM_N3DS_SIZE"
      using interval_sets.linear_allocate_at [OF assms(2-4,6) True] assms(5) by fastforce
    let ?reg1 = "take_block ops (a, a + sz) sz ?reg" and ?s = "num_shared_memories k"
    let ?x1 = "?x\<lparr>backing_blocks := [fcram_block ?ms (a, a + sz)], shm_holding_memory := [(a, a + sz)], linear_heap_phys_offset := a\<rparr>"
    define ms where "ms = host_write (fcram ?ms + a) (replicate sz 0) ?ms"
    define k1 where "k1 = snd (add_shm ?x1 (upd_process p (\<lambda>pr. pr\<lparr>memory_used := wrap_u32 (memory_used pr + sz)\<rparr>)
      ((set_region r ?reg1 k)\<lparr>memory := ms\<rparr>)))"
    have fz: "fill_zero a (a + sz) ?ms = Some ms" using a(4) by (simp add: fill_zero_def GetFCRAMPointer_def ms_def)
    obtain ref where ref: "GetFCRAMRef ?ms a = Some ref" "fcram_block ?ms (a, a + sz) = (ref, sz)"
      using a(4) assms(6) by (simp_all add: GetFCRAMRef_def new_ref_def fcram_block_def)
    have "create_linear ops ?x k = Some (?s, k1)"
      using a(1,3) fz ref interval_sets.add_single [OF assms(2), of a "a + sz"] assms(6)
      by (simp add: create_linear_def new_SharedMemory_def add_shm_def k1_def Let_def)
    then have run: "CreateSharedMemory ops (Some p) sz perms others 0 region k = Some (Inr ?s, k1)" unfolding cr by simp
    have f: "memory_regions k1 r = ?reg1" "shared_memories k1 ?s = ?x1" "memory k1 = ms" "resource_limits k1 = resource_limits k"
      "processes k1 p = (processes k p)\<lparr>memory_used := memory_used (processes k p) + sz\<rparr>"
      using assms(8) by (simp_all add: k1_def add_shm_def)
    have ivl: "ivl (a, a + sz) \<subseteq> free_set ?reg" using a(2) by (simp add: ivl_def)
    note tb = interval_sets.take_block [OF assms(2,3) ivl] and fr = interval_sets.free_taken [OF assms(2-4) ivl assms(6)]
    have h: "host_memory ms b = (if b \<in> {fcram ?ms + a..<fcram ?ms + a + sz} then 0 else host_memory ?ms b)" for b
      by (auto simp: ms_def host_write_def)
    have v1: "rl_valid (resource_limits (set_region r ?reg k1) (resource_limit (processes (set_region r ?reg k1) p)))"
      using assms(7) by (simp add: f)
    obtain b R where R: "release_limit p RSharedMemory 1 (set_region r ?reg k1) = Some (b, (set_region r ?reg k1)\<lparr>resource_limits := R\<rparr>)"
      using release_object [OF v1] by blast
    define k2 where "k2 = upd_process p (\<lambda>pr. pr\<lparr>memory_used := sub_u32 (memory_used pr) sz\<rparr>) ((set_region r ?reg k1)\<lparr>resource_limits := R\<rparr>)"
    have "delete_SharedMemory ops ?x1 k1 = Some k2"
      using fr R by (simp add: delete_SharedMemory_def new_SharedMemory_def f(1) k2_def)
    moreover have "memory_regions k2 r = ?reg" "memory_used (processes k2 p) = memory_used (processes k p)"
      using f(5) assms(8) by (simp_all add: k2_def sub_u32_def)
    ultimately show ?thesis
      using True run a(2) tb(2) f h by (intro iffD2 [OF if_P] exI [of _ ?s] exI [of _ k1] exI [of _ k2] exI [of _ a] conjI) simp_all
  qed
qed

text \<open>C37: A creation that fails corrupts the account of the owner.  When a page of the range given for the block is not private memory with read
  and write permission, the creation reports an error and takes nothing; but the destructor of the unfinished object, whose base
  address is still zero, subtracts the size of the block from what the owner uses, although it was never added.\<close>

theorem shm_failed_create_accounting:
  fixes k :: kernel and p sz address :: nat
  assumes "separated H" and "vm_inv H True (kcached k) (vm_of k p)" and "\<not> is_locked (vm_of k p)" and "good_range address sz" and "address \<noteq> 0"
    and "rl_valid (resource_limits k (resource_limit (processes k p)))"
    and "\<not> (\<forall>(ty, q, st, a) \<in> set (range_pages address sz (pages (vma_map (vm_of k p)))).
      ty = BackingMemory \<and> st = MS_Private \<and> q AND perm_ReadWrite = perm_ReadWrite)"
  shows "\<exists>k'. CreateSharedMemory ops (Some p) sz perms others address region k = Some (Inl ResultInvalidAddressState, k') \<and>
    memory_used (processes k' p) = sub_u32 (memory_used (processes k p)) sz \<and> vm_of k' p = vm_of k p \<and>
    memory_regions k' = memory_regions k \<and> shared_memories k' = shared_memories k"
proof -
  let ?x = "new_SharedMemory\<lparr>shm_owner := Some p, shm_size := sz, shm_region := GetMemoryRegion region, shm_permissions := perms,
    other_permissions := others\<rparr>"
  have ch: "ChangeMemoryState (kcached k) address sz MS_Private perm_ReadWrite MS_Locked (ConvertPermissions perms) (vm_of k p) =
      Some (ResultInvalidAddressState, vm_of k p)"
    using ChangeMemoryState_spec [OF assms(1-4), of MS_Private perm_ReadWrite MS_Locked "ConvertPermissions perms"] assms(7) by (simp only: if_False)
  obtain b R where R: "release_limit p RSharedMemory 1 k = Some (b, k\<lparr>resource_limits := R\<rparr>)" using release_object [OF assms(6)] by blast
  define k' where "k' = upd_process p (\<lambda>pr. pr\<lparr>memory_used := sub_u32 (memory_used pr) sz\<rparr>) (k\<lparr>resource_limits := R\<rparr>)"
  have "delete_SharedMemory ops ?x k = Some k'" using R by (simp add: delete_SharedMemory_def new_SharedMemory_def k'_def)
  moreover have "IsError ResultInvalidAddressState" by (simp add: raw_value_simps IsError_iff_bit)
  ultimately have "CreateSharedMemory ops (Some p) sz perms others address region k = Some (Inl ResultInvalidAddressState, k')"
    using ch assms(5) by (simp add: CreateSharedMemory_def create_mapped_def set_vm_self Let_def)
  then show ?thesis by (intro exI [of _ k']) (simp add: k'_def)
qed


section \<open>Examples\<close>

text \<open>The process of \<^const>\<open>demo_proc\<close> owns a block of two pages of FCRAM that it may read and write and others may read.\<close>

definition demo_block :: SharedMemory where
  "demo_block = new_SharedMemory\<lparr>linear_heap_phys_offset := 0x4000, backing_blocks := [fcram_block demo_memory (0x4000, 0x6000)],
     shm_size := 0x2000, shm_permissions := 3, other_permissions := 1, shm_owner := Some 0\<rparr>"

definition demo_shm :: kernel where
  "demo_shm = upd_shm 0 (\<lambda>_. demo_block) demo_proc"

lemma demo_shm_ok:
  "shared_memories demo_shm 0 = demo_block" "vm_of demo_shm 0 = demo_vm" "memory demo_shm = demo_memory" "shm_ok demo_fcram demo_block"
  "shm_target 0 demo_block = 0x14004000" "shm_size demo_block = 0x2000" "good_range 0x14004000 0x2000" "all_free 0x14004000 0x2000 demo_vm"
  "isolated 0x14004000 0x2000 MS_Shared demo_vm" "shm_accepts 0 0 1 DontCare demo_block" "\<not> shm_accepts 0 0 5 DontCare demo_block"
proof -
  show "good_range 0x14004000 0x2000" by (simp add: good_range_def MAX_ADDRESS_def CITRA_PAGE_SIZE_def)
  show "all_free 0x14004000 0x2000 demo_vm" by (simp add: range_pages_def demo_vm_inv free_page_def)
  show "isolated 0x14004000 0x2000 MS_Shared demo_vm" by (simp add: isolated_def demo_vm_inv free_page_def page_key_def)
qed (simp_all add: demo_shm_def demo_block_def new_SharedMemory_def shm_ok_def shm_target_def shm_accepts_def allowed_to_def
    fcram_block_def good_block_def demo_fcram_def demo_memory_def ref_ok_def CITRA_PAGE_SIZE_def FCRAM_N3DS_SIZE_def area_defs)

lemma demo_shm_vm:
  "separated demo_fcram" "vm_inv demo_fcram F (kcached demo_shm) (vm_of demo_shm 0)" "\<not> is_locked (vm_of demo_shm 0)"
  using proc_okD(6,9,10) [OF demo_proc_ok] by (simp_all add: demo_shm_ok)

theorem shm_map_refines_witness:
  "(\<exists>k'. SharedMemory_Map 0 0 0 1 DontCare demo_shm = Some (ResultSuccess, k')) \<and>
   (\<exists>e. SharedMemory_Map 0 0 0 5 DontCare demo_shm = Some (e, demo_shm))"
proof -
  note th = shm_map_refines [OF demo_shm_vm, where F = True and s = 0 and address = 0 and others = DontCare, unfolded demo_shm_ok(1,2,5,6), OF demo_shm_ok(4,7)]
  have "\<exists>k'. SharedMemory_Map 0 0 0 1 DontCare demo_shm = Some (ResultSuccess, k')"
    using iffD1 [OF if_P, OF conjI [OF demo_shm_ok(10,8)] th [OF disjI2 [OF demo_shm_ok(9)]]] by blast
  moreover have "\<exists>e. SharedMemory_Map 0 0 0 5 DontCare demo_shm = Some (e, demo_shm)"
    using iffD1 [OF if_not_P, OF _ th [OF disjI2 [OF demo_shm_ok(9)]], of 5] demo_shm_ok(11) by blast
  ultimately show ?thesis ..
qed

theorem shm_map_unmap_witness:
  "\<exists>k1 k2. SharedMemory_Map 0 0 0 1 DontCare demo_shm = Some (ResultSuccess, k1) \<and>
     SharedMemory_Unmap 0 0 0x14004000 k1 = Some (ResultSuccess, k2)"
  using shm_map_unmap [OF demo_shm_vm, where s = 0 and address = 0 and others = DontCare, unfolded demo_shm_ok(1,2,5,6),
      OF demo_shm_ok(4,7) disjI2 [OF demo_shm_ok(9)] demo_shm_ok(10,8)] by blast

lemma demo_fits: "{0x1000..<0x1000 + 0x1000} \<subseteq> free_set (memory_regions demo_proc (GetMemoryRegion APPLICATION))"
  by (auto simp: free_set_def demo_region_def)

theorem shm_create_destroy_witness:
  "\<exists>s k1 k2. CreateSharedMemory list_icl (Some 0) 0x1000 3 1 0 APPLICATION demo_proc = Some (Inr s, k1) \<and>
     delete_SharedMemory list_icl (shared_memories k1 s) k1 = Some k2 \<and> memory_used (processes k2 0) = 0"
proof -
  let ?r = "GetMemoryRegion APPLICATION"
  have "region_base (memory_regions demo_proc ?r) + region_size (memory_regions demo_proc ?r) \<le> FCRAM_N3DS_SIZE"
    "region_inv (memory_regions demo_proc ?r)" "\<not> region_locked (memory_regions demo_proc ?r)" "(0 :: nat) < 0x1000"
    "memory_used (processes demo_proc 0) + 0x1000 < 2 ^ 32" "memory_used (processes demo_proc 0) = 0"
    by (simp_all add: FCRAM_N3DS_SIZE_def) (simp add: demo_region_def)
  note f = this
  note th = shm_create_destroy [OF li.interval_sets_axioms f(2,3,1,4) proc_okD(11) [OF demo_proc_ok] f(5), of 3 1]
  show ?thesis using th demo_fits f(6) by (simp only: if_P) metis
qed

theorem shm_failed_create_accounting_witness:
  "\<exists>k'. CreateSharedMemory list_icl (Some 0) 0x1000 3 1 0x08000000 APPLICATION demo_proc = Some (Inl ResultInvalidAddressState, k') \<and>
     memory_used (processes demo_proc 0) = 0 \<and> memory_used (processes k' 0) = 0xFFFFF000"
proof -
  have g: "good_range 0x08000000 0x1000" by (simp add: good_range_def MAX_ADDRESS_def CITRA_PAGE_SIZE_def)
  have "range_pages 0x08000000 0x1000 (pages (vma_map (vm_of demo_proc 0))) = [free_page]"
    by (simp add: range_pages_def demo_vm_inv CITRA_PAGE_SIZE_def MAX_ADDRESS_def)
  then show ?thesis
    using shm_failed_create_accounting [OF proc_okD(6,9,10) [OF demo_proc_ok] g _ proc_okD(11) [OF demo_proc_ok],
        where ops = list_icl and perms = 3 and others = 1 and region = APPLICATION]
    by (auto simp: free_page_def sub_u32_def)
qed

end
