(* ===== verification/Svc_Sync.thy ===== *)
theory Svc_Sync
  imports Processes Address_Arbiter
begin

unbundle bit_operations_syntax

text \<open>
  The system calls on threads and synchronisation objects of \<^verbatim>\<open>core/hle/kernel/svc.cpp\<close>: handles are looked up in the table of
  the current process, the operations on the objects are those of the component theories.  The output of a call is
  part of its result; the wrappers that move arguments between registers and functions are not modelled.  A call
  is made by the current thread of the current core.
\<close>

section \<open>Handles\<close>

primrec obj_ref :: "kobj \<Rightarrow> nat" where
  "obj_ref (OThread n) = n" | "obj_ref (OProcess n) = n" | "obj_ref (OMutex n) = n" | "obj_ref (OSemaphore n) = n"
| "obj_ref (OEvent n) = n" | "obj_ref (OTimer n) = n" | "obj_ref (OAddressArbiter n) = n" | "obj_ref (OResourceLimit n) = n"
| "obj_ref (OSharedMemory n) = n" | "obj_ref (OClientPort n) = n" | "obj_ref (OServerPort n) = n"
| "obj_ref (OClientSession n) = n" | "obj_ref (OServerSession n) = n" | "obj_ref (OOther T n) = n"

text \<open>Waitable objects; server ports and sessions are outside the model.\<close>

fun wait_ref_of :: "kobj \<Rightarrow> wait_ref option" where
  "wait_ref_of (OThread t) = Some (WThread t)"
| "wait_ref_of (OMutex m) = Some (WMutex m)"
| "wait_ref_of (OSemaphore s) = Some (WSemaphore s)"
| "wait_ref_of (OEvent e) = Some (WEvent e)"
| "wait_ref_of (OTimer i) = Some (WTimer i)"
| "wait_ref_of (OServerPort p) = Some (WServerPort p)"
| "wait_ref_of (OServerSession s) = Some (WServerSession s)"
| "wait_ref_of _ = None"

definition lookup_handle :: "handle \<Rightarrow> kernel \<Rightarrow> kobj option" where
  "lookup_handle h k =
     GetGeneric (map_option OThread (GetCurrentThread k)) (OProcess (current_process k))
       (handle_table (processes k (current_process k))) h"

definition get_object :: "HandleType \<Rightarrow> handle \<Rightarrow> kernel \<Rightarrow> nat option" where
  "get_object T h k = map_option obj_ref (DynamicObjectCast GetHandleType T (lookup_handle h k))"

text \<open>The cast to \<^verbatim>\<open>WaitObject\<close>: the inner option tells whether there is such an object.\<close>

definition get_wait_object :: "handle \<Rightarrow> kernel \<Rightarrow> wait_ref option option" where
  "get_wait_object h k =
     (case lookup_handle h k of
        None \<Rightarrow> Some None
      | Some ob \<Rightarrow> if IsWaitable (GetHandleType ob) then map_option Some (wait_ref_of ob) else Some None)"

text \<open>
  Entering a new object into the table of the current process; when the table is full the new object, if nothing else refers to
  it, is destroyed.
\<close>

definition create_handle :: "kobj \<Rightarrow> (kernel \<Rightarrow> kernel option) \<Rightarrow> kernel \<Rightarrow> (handle result_val \<times> kernel) option" where
  "create_handle ob destroy k =
     (let p = current_process k in
      case HandleTable_Create ob (handle_table (processes k p)) of
        Inl e \<Rightarrow> map_option (Pair (Inl e)) (destroy k)
      | Inr (h, t) \<Rightarrow> Some (Inr h, upd_process p (\<lambda>pr. pr\<lparr>handle_table := t\<rparr>) k))"

definition SVC_CloseHandle :: "handle \<Rightarrow> kernel \<Rightarrow> result \<times> kernel" where
  "SVC_CloseHandle h k =
     (let p = current_process k in
      case HandleTable_Close h (handle_table (processes k p)) of
        Inl e \<Rightarrow> (e, k)
      | Inr t \<Rightarrow> (ResultSuccess, upd_process p (\<lambda>pr. pr\<lparr>handle_table := t\<rparr>) k))"

definition SVC_DuplicateHandle :: "handle \<Rightarrow> kernel \<Rightarrow> handle result_val \<times> kernel" where
  "SVC_DuplicateHandle h k =
     (let p = current_process k in
      case HandleTable_Duplicate (map_option OThread (GetCurrentThread k)) (OProcess p) h (handle_table (processes k p)) of
        Inl e \<Rightarrow> (Inl e, k)
      | Inr (h', t) \<Rightarrow> (Inr h', upd_process p (\<lambda>pr. pr\<lparr>handle_table := t\<rparr>) k))"


section \<open>Waiting\<close>

text \<open>The end of every wait that puts the caller to sleep.\<close>

definition sleep_until :: "nat \<Rightarrow> bool \<Rightarrow> int \<Rightarrow> kernel \<Rightarrow> kernel option" where
  "sleep_until t output ns k = do {
     k1 \<leftarrow> WakeAfterDelay t ns False k;
     Some (PrepareReschedule (upd_thread t (\<lambda>th. th\<lparr>wakeup_callback := Some (SVC_SyncCallback output)\<rparr>) k1))
   }"

definition WaitSynchronization1 :: "handle \<Rightarrow> int \<Rightarrow> kernel \<Rightarrow> (result \<times> kernel) option" where
  "WaitSynchronization1 h ns k = do {
     ob \<leftarrow> get_wait_object h k;
     t \<leftarrow> GetCurrentThread k;
     case ob of
       None \<Rightarrow> Some (ResultInvalidHandle, k)
     | Some w \<Rightarrow>
         if ShouldWait w t k then
           if ns = 0 then Some (ResultTimeout, k)
           else map_option (Pair ResultTimeout) (sleep_until t False ns
             (upd_thread t (\<lambda>th. th\<lparr>status := WaitSynchAny\<rparr>)
               (AddWaitingThread w t (upd_thread t (\<lambda>th. th\<lparr>wait_objects := [w]\<rparr>) k))))
         else map_option (Pair ResultSuccess) (Acquire w t k)
   }"

definition begin_wait :: "nat \<Rightarrow> wait_ref list \<Rightarrow> ThreadStatus \<Rightarrow> kernel \<Rightarrow> kernel" where
  "begin_wait t ws st k =
     upd_thread t (\<lambda>th. th\<lparr>wait_objects := ws\<rparr>)
       (fold (\<lambda>w. AddWaitingThread w t) ws (upd_thread t (\<lambda>th. th\<lparr>status := st\<rparr>) k))"

text \<open>The handles are read from guest memory one after the other; the first that is no wait object ends the loop.\<close>

fun read_handles :: "nat \<Rightarrow> nat \<Rightarrow> wait_ref list \<Rightarrow> kernel \<Rightarrow> (wait_ref list result_val \<times> kernel) option" where
  "read_handles 0 addr ws k = Some (Inr ws, k)"
| "read_handles (Suc n) addr ws k = do {
     (h, k1) \<leftarrow> Read32 addr k;
     ob \<leftarrow> get_wait_object (word_of_nat h) k1;
     case ob of
       None \<Rightarrow> Some (Inl ResultInvalidHandle, k1)
     | Some w \<Rightarrow> read_handles n (wrap_u32 (addr + 4)) (ws @ [w]) k1
   }"

definition wait_for_all :: "nat \<Rightarrow> wait_ref list \<Rightarrow> int \<Rightarrow> kernel \<Rightarrow> ((result \<times> int option) \<times> kernel) option" where
  "wait_for_all t ws ns k =
     (if list_all (\<lambda>w. \<not> ShouldWait w t k) ws then
        map_option (Pair (ResultSuccess, None)) (fold_opt (\<lambda>w. Acquire w t) ws k)
      else if ns = 0 then Some ((ResultTimeout, None), k)
      else map_option (Pair (ResultTimeout, Some (-1))) (sleep_until t False ns (begin_wait t ws WaitSynchAll k)))"

definition wait_for_any :: "nat \<Rightarrow> wait_ref list \<Rightarrow> int \<Rightarrow> kernel \<Rightarrow> ((result \<times> int option) \<times> kernel) option" where
  "wait_for_any t ws ns k =
     (case dropWhile (\<lambda>w. ShouldWait w t k) ws of
        w # rest \<Rightarrow> map_option (Pair (ResultSuccess, Some (int (length ws - length (w # rest))))) (Acquire w t k)
      | [] \<Rightarrow>
          if ns = 0 then Some ((ResultTimeout, None), k)
          else map_option (Pair (ResultTimeout, Some (-1))) (sleep_until t True ns (begin_wait t ws WaitSynchAny k)))"

definition WaitSynchronizationN :: "nat \<Rightarrow> int \<Rightarrow> bool \<Rightarrow> int \<Rightarrow> kernel \<Rightarrow> ((result \<times> int option) \<times> kernel) option" where
  "WaitSynchronizationN handles_address handle_count wait_all ns k = do {
     t \<leftarrow> GetCurrentThread k;
     if \<not> IsValidVirtualAddress (page_table (vm_of k (current_process k))) handles_address then Some ((ResultInvalidPointer, None), k)
     else if handle_count < 0 then Some ((ResultOutOfRange, None), k)
     else do {
       (r, k1) \<leftarrow> read_handles (nat handle_count) handles_address [] k;
       case r of
         Inl e \<Rightarrow> Some ((e, None), k1)
       | Inr ws \<Rightarrow> if wait_all then wait_for_all t ws ns k1 else wait_for_any t ws ns k1
     }
   }"

definition SVC_SleepThread :: "int \<Rightarrow> kernel \<Rightarrow> kernel option" where
  "SVC_SleepThread ns k = do {
     let c = current_cpu k;
     ready \<leftarrow> HaveReadyThreads c k;
     if ns = 0 \<and> \<not> ready then Some k
     else do {
       k1 \<leftarrow> WaitCurrentThread_Sleep c k;
       t \<leftarrow> GetCurrentThread k1;
       k2 \<leftarrow> WakeAfterDelay t ns False k1;
       Some (PrepareReschedule k2)
     }
   }"


section \<open>Creating objects\<close>

definition OutOfSharedMems :: u32 where "OutOfSharedMems = 11"
definition OutOfThreads :: u32 where "OutOfThreads = 12"
definition OutOfMutexes :: u32 where "OutOfMutexes = 13"
definition OutOfSemaphores :: u32 where "OutOfSemaphores = 14"
definition OutOfEvents :: u32 where "OutOfEvents = 15"
definition OutOfTimers :: u32 where "OutOfTimers = 16"
definition OutOfAddressArbiters :: u32 where "OutOfAddressArbiters = 51"

text \<open>
  What the calls that create an object share: count it against the limit of the process, create it, and enter it into the table.  The
  creation of the object may fail, and then the count stays.
\<close>

definition reserve_and_create ::
  "ResourceLimitType \<Rightarrow> u32 \<Rightarrow> (kernel \<Rightarrow> ((kobj \<times> (kernel \<Rightarrow> kernel option)) result_val \<times> kernel) option) \<Rightarrow> kernel \<Rightarrow>
     (handle result_val \<times> kernel) option" where
  "reserve_and_create ty code create k = do {
     (ok, k1) \<leftarrow> reserve_limit (current_process k) ty 1 k;
     if \<not> ok then Some (Inl (Result code ''OS'' S_OutOfResource L_Status), k1)
     else do {
       (r, k2) \<leftarrow> create k1;
       case r of
         Inl e \<Rightarrow> Some (Inl e, k2)
       | Inr (ob, destroy) \<Rightarrow> create_handle ob destroy k2
     }
   }"

definition current_limit :: "kernel \<Rightarrow> nat" where
  "current_limit k = resource_limit (processes k (current_process k))"

text \<open>The destructors of objects that nothing refers to but the limit they count against.\<close>

definition drop_object :: "ResourceLimitType \<Rightarrow> kernel \<Rightarrow> kernel option" where
  "drop_object ty k = map_option snd (release_limit (current_process k) ty 1 k)"

definition drop_timer :: "nat \<Rightarrow> kernel \<Rightarrow> kernel option" where
  "drop_timer i k =
     (let k1 = Timer_Cancel i k in
      drop_object RTimer (k1\<lparr>timer_callback_table := (timer_callback_table k1)(callback_id (ktimers k1 i) := None)\<rparr>))"

text \<open>A mutex that its creator holds is not destroyed with its handle.\<close>

definition SVC_CreateMutex :: "nat \<Rightarrow> nat \<Rightarrow> kernel \<Rightarrow> (handle result_val \<times> kernel) option" where
  "SVC_CreateMutex initial_locked uninitialized =
     reserve_and_create RMutex OutOfMutexes (\<lambda>k. do {
       (m, k1) \<leftarrow> CreateMutex (initial_locked \<noteq> 0) uninitialized k;
       Some (Inr (OMutex m, if initial_locked \<noteq> 0 then Some else drop_object RMutex),
             upd_mutex m (\<lambda>mt. mt\<lparr>mutex_limit := Some (current_limit k)\<rparr>) k1)
     })"

definition SVC_CreateSemaphore :: "int \<Rightarrow> int \<Rightarrow> kernel \<Rightarrow> (handle result_val \<times> kernel) option" where
  "SVC_CreateSemaphore initial maximum =
     reserve_and_create RSemaphore OutOfSemaphores (\<lambda>k.
       Some (case CreateSemaphore initial maximum k of
           Inl e \<Rightarrow> (Inl e, k)
         | Inr (s, k1) \<Rightarrow> (Inr (OSemaphore s, drop_object RSemaphore),
                          upd_semaphore s (\<lambda>x. x\<lparr>semaphore_limit := Some (current_limit k)\<rparr>) k1)))"

text \<open>A number that is no reset type behaves as one that is neither one-shot nor pulse.\<close>

definition reset_type_of :: "nat \<Rightarrow> ResetType" where
  "reset_type_of n = (if n = 0 then OneShot else if n = 2 then Pulse else Sticky)"

definition SVC_CreateEvent :: "nat \<Rightarrow> kernel \<Rightarrow> (handle result_val \<times> kernel) option" where
  "SVC_CreateEvent rt =
     reserve_and_create REvent OutOfEvents (\<lambda>k.
       let (e, k1) = CreateEvent (reset_type_of rt) k in
       Some (Inr (OEvent e, drop_object REvent), upd_event e (\<lambda>x. x\<lparr>event_limit := Some (current_limit k)\<rparr>) k1))"

definition SVC_CreateTimer :: "nat \<Rightarrow> kernel \<Rightarrow> (handle result_val \<times> kernel) option" where
  "SVC_CreateTimer rt =
     reserve_and_create RTimer OutOfTimers (\<lambda>k.
       let (i, k1) = CreateTimer (reset_type_of rt) k in
       Some (Inr (OTimer i, drop_timer i), upd_ktimer i (\<lambda>x. x\<lparr>timer_limit := Some (current_limit k)\<rparr>) k1))"

definition SVC_CreateAddressArbiter :: "kernel \<Rightarrow> (handle result_val \<times> kernel) option" where
  "SVC_CreateAddressArbiter =
     reserve_and_create RAddressArbiter OutOfAddressArbiters (\<lambda>k.
       let (a, k1) = CreateAddressArbiter k in
       Some (Inr (OAddressArbiter a, drop_object RAddressArbiter), upd_arbiter a (\<lambda>x. x\<lparr>arb_limit := Some (current_limit k)\<rparr>) k1))"

definition FPSCR_THREAD :: u32 where "FPSCR_THREAD = 0x03C00000"

text \<open>
  The number of the processor: the default is the ideal processor of the process, and \<open>-1\<close> is processor 0.  A thread is referred to
  by the list of its manager, so that it lives on without a handle.
\<close>

definition target_processor :: "int \<Rightarrow> kernel \<Rightarrow> int result_val option" where
  "target_processor processor k = do {
     let n = (if processor = ThreadProcessorIdDefault then ideal_processor (processes k (current_process k)) else processor);
     assert_opt (n \<noteq> ThreadProcessorIdDefault);
     Some (if n = ThreadProcessorIdAll then Inr 0 else if n \<in> {0, 1, 2, 3} then Inr n else Inl ResultOutOfRange)
   }"

definition SVC_CreateThread ::
  "icl \<Rightarrow> nat \<Rightarrow> u32 \<Rightarrow> nat \<Rightarrow> nat \<Rightarrow> int \<Rightarrow> kernel \<Rightarrow> (handle result_val \<times> kernel) option" where
  "SVC_CreateThread ops entry arg stack prio processor k =
     (if \<not> prio \<le> ThreadPrioLowest then Some (Inl ResultOutOfRange, k)
      else do {
        let p = current_process k;
        limit \<leftarrow> GetLimitValue (resource_limits k (current_limit k)) (type_index RPriority);
        if \<not> (nat (limit mod 2 ^ 32) \<le> prio \<or> no_thread_restrictions (processes k p)) then Some (Inl ResultNotAuthorized, k)
        else do {
          n \<leftarrow> target_processor processor k;
          case n of
            Inl e \<Rightarrow> Some (Inl e, k)
          | Inr c \<Rightarrow>
              reserve_and_create RThread OutOfThreads (\<lambda>k. do {
                (r, k1) \<leftarrow> CreateThread ops entry prio arg c stack p True k;
                Some (case r of
                    Inl e \<Rightarrow> (Inl e, k1)
                  | Inr t \<Rightarrow> (Inr (OThread t, Some),
                      PrepareReschedule (upd_thread t (\<lambda>th. th\<lparr>thread_context := (thread_context th)\<lparr>fpscr := FPSCR_THREAD\<rparr>\<rparr>) k1)))
              }) k
        }
      })"


section \<open>Operations on objects\<close>

definition on_object :: "HandleType \<Rightarrow> handle \<Rightarrow> (nat \<Rightarrow> kernel \<Rightarrow> kernel option) \<Rightarrow> kernel \<Rightarrow> (result \<times> kernel) option" where
  "on_object T h f k =
     (case get_object T h k of
        None \<Rightarrow> Some (ResultInvalidHandle, k)
      | Some n \<Rightarrow> map_option (Pair ResultSuccess) (f n k))"

definition SVC_ReleaseMutex :: "handle \<Rightarrow> kernel \<Rightarrow> (result \<times> kernel) option" where
  "SVC_ReleaseMutex h k =
     (case get_object HMutex h k of
        None \<Rightarrow> Some (ResultInvalidHandle, k)
      | Some m \<Rightarrow> Option.bind (GetCurrentThread k) (\<lambda>t. Mutex_Release m t k))"

definition SVC_ReleaseSemaphore :: "handle \<Rightarrow> int \<Rightarrow> kernel \<Rightarrow> (int result_val \<times> kernel) option" where
  "SVC_ReleaseSemaphore h release_count k =
     (case get_object HSemaphore h k of
        None \<Rightarrow> Some (Inl ResultInvalidHandle, k)
      | Some s \<Rightarrow> Semaphore_Release s release_count k)"

definition SVC_SignalEvent :: "handle \<Rightarrow> kernel \<Rightarrow> (result \<times> kernel) option" where
  "SVC_SignalEvent h = on_object HEvent h Event_Signal"

definition SVC_ClearEvent :: "handle \<Rightarrow> kernel \<Rightarrow> (result \<times> kernel) option" where
  "SVC_ClearEvent h = on_object HEvent h (\<lambda>e k. Some (Event_Clear e k))"

definition SVC_ClearTimer :: "handle \<Rightarrow> kernel \<Rightarrow> (result \<times> kernel) option" where
  "SVC_ClearTimer h = on_object HTimer h (\<lambda>i k. Some (Timer_Clear i k))"

definition SVC_SetTimer :: "handle \<Rightarrow> int \<Rightarrow> int \<Rightarrow> kernel \<Rightarrow> (result \<times> kernel) option" where
  "SVC_SetTimer h initial interval k =
     (if \<not> (initial \<ge> 0 \<and> interval \<ge> 0) then Some (ResultOutOfRangeKernel, k)
      else on_object HTimer h (\<lambda>i. Timer_Set i initial interval) k)"

definition SVC_CancelTimer :: "handle \<Rightarrow> kernel \<Rightarrow> (result \<times> kernel) option" where
  "SVC_CancelTimer h = on_object HTimer h (\<lambda>i k. Some (Timer_Cancel i k))"

definition arbitration_type :: "nat \<Rightarrow> ArbitrationType option" where
  "arbitration_type n =
     (if n < 5 then Some ([AT_Signal, WaitIfLessThan, DecrementAndWaitIfLessThan, WaitIfLessThanWithTimeout,
                           DecrementAndWaitIfLessThanWithTimeout] ! n)
      else None)"

definition SVC_ArbitrateAddress ::
  "(nat \<Rightarrow> int \<Rightarrow> int) \<Rightarrow> handle \<Rightarrow> nat \<Rightarrow> nat \<Rightarrow> nat \<Rightarrow> int \<Rightarrow> kernel \<Rightarrow> (result \<times> kernel) option" where
  "SVC_ArbitrateAddress scale h address ty v ns k =
     (case get_object HAddressArbiter h k of
        None \<Rightarrow> Some (ResultInvalidHandle, k)
      | Some a \<Rightarrow> do {
          t \<leftarrow> GetCurrentThread k;
          (r, k1) \<leftarrow> ArbitrateAddress scale a t (arbitration_type ty) address (wrap_s32 (int v)) (ns mod 2 ^ 64) k;
          Some (r, PrepareReschedule k1)
        })"

definition SVC_ExitThread :: "kernel \<Rightarrow> kernel option" where
  "SVC_ExitThread k = map_option PrepareReschedule (ExitCurrentThread (current_cpu k) k)"

definition SVC_GetThreadPriority :: "handle \<Rightarrow> kernel \<Rightarrow> nat result_val" where
  "SVC_GetThreadPriority h k =
     (case get_object HThread h k of None \<Rightarrow> Inl ResultInvalidHandle | Some t \<Rightarrow> Inr (current_priority (threads k t)))"

text \<open>The pending mutexes of the thread are updated in the order of the set.\<close>

definition SVC_SetThreadPriority :: "handle \<Rightarrow> nat \<Rightarrow> kernel \<Rightarrow> (result \<times> kernel) option" where
  "SVC_SetThreadPriority h prio k =
     (if \<not> prio \<le> ThreadPrioLowest then Some (ResultOutOfRange, k)
      else case get_object HThread h k of
        None \<Rightarrow> Some (ResultInvalidHandle, k)
      | Some t \<Rightarrow> do {
          limit \<leftarrow> GetLimitValue (resource_limits k (current_limit k)) (type_index RPriority);
          if \<not> nat (limit mod 2 ^ 32) \<le> prio then Some (ResultNotAuthorized, k)
          else do {
            k1 \<leftarrow> SetPriority t prio k;
            let k2 = Thread_UpdatePriority t k1;
            Some (ResultSuccess, PrepareReschedule (fold Mutex_UpdatePriority (pending_mutexes (threads k2 t)) k2))
          }
        })"

definition SVC_GetThreadId :: "handle \<Rightarrow> kernel \<Rightarrow> nat result_val" where
  "SVC_GetThreadId h k =
     (case get_object HThread h k of None \<Rightarrow> Inl ResultInvalidHandle | Some t \<Rightarrow> Inr (thread_id (threads k t)))"

definition SVC_GetProcessId :: "handle \<Rightarrow> kernel \<Rightarrow> nat result_val" where
  "SVC_GetProcessId h k =
     (case get_object HProcess h k of None \<Rightarrow> Inl ResultInvalidHandle | Some p \<Rightarrow> Inr (process_id (processes k p)))"

definition SVC_GetProcessIdOfThread :: "handle \<Rightarrow> kernel \<Rightarrow> nat result_val option" where
  "SVC_GetProcessIdOfThread h k =
     (case get_object HThread h k of
        None \<Rightarrow> Some (Inl ResultInvalidHandle)
      | Some t \<Rightarrow> map_option (\<lambda>p. Inr (process_id (processes k p))) (owner_process (threads k t)))"

definition SVC_OpenProcess :: "nat \<Rightarrow> kernel \<Rightarrow> (handle result_val \<times> kernel) option" where
  "SVC_OpenProcess pid k =
     (case GetProcessById pid k of
        None \<Rightarrow> Some (Inl (Result 24 ''OS'' S_WrongArgument L_Permanent), k)
      | Some p \<Rightarrow> create_handle (OProcess p) Some k)"

definition ResultThreadNotFound :: result where
  "ResultThreadNotFound = Result 25 ''OS'' S_WrongArgument L_Permanent"

definition SVC_OpenThread :: "handle \<Rightarrow> nat \<Rightarrow> kernel \<Rightarrow> (handle result_val \<times> kernel) option" where
  "SVC_OpenThread process_handle tid k =
     (if process_handle = 0 then Some (Inl ResultThreadNotFound, k)
      else case get_object HProcess process_handle k of
        None \<Rightarrow> Some (Inl ResultInvalidHandle, k)
      | Some p \<Rightarrow>
          (case find (\<lambda>t. owner_process (threads k t) = Some p \<and> thread_id (threads k t) = tid)
                  (concat (map (\<lambda>c. thread_list (thread_managers k c)) [0..<num_cores k])) of
             None \<Rightarrow> Some (Inl ResultThreadNotFound, k)
           | Some t \<Rightarrow> create_handle (OThread t) Some k))"

definition SVC_GetSystemTick :: "(nat \<Rightarrow> int \<Rightarrow> int) \<Rightarrow> kernel \<Rightarrow> int \<times> kernel" where
  "SVC_GetSystemTick scale k = (Timer_GetTicks (timers (timing k) ! current_cpu k), add_ticks scale 150 k)"


lemma upd_process_frame [simp]:
  "threads (upd_process p f k) = threads k" "num_threads (upd_process p f k) = num_threads k" "mutexes (upd_process p f k) = mutexes k"
  "waiting_threads (upd_process p f k) = waiting_threads k" "thread_managers (upd_process p f k) = thread_managers k"
  "events (upd_process p f k) = events k" "num_events (upd_process p f k) = num_events k"
  "timing (upd_process p f k) = timing k" "current_process (upd_process p f k) = current_process k"
  "current_cpu (upd_process p f k) = current_cpu k" "memory (upd_process p f k) = memory k"
  "resource_limits (upd_process p f k) = resource_limits k" "current_page_table (upd_process p f k) = current_page_table k"
  "processes (upd_process p f k) q = (if q = p then f (processes k p) else processes k q)"
  by (simp_all add: upd_process_def)


section \<open>Going to sleep\<close>

lemma Mutex_Update_id: "thread_id (threads (Mutex_UpdatePriority m k) u) = thread_id (threads k u)"
proof -
  obtain p where "threads (Mutex_UpdatePriority m k) u = (threads k u)\<lparr>current_priority := p\<rparr>"
    using prio_frame_Mutex_Update [of k m] unfolding prio_frame_def by blast
  then show ?thesis by simp
qed

lemma Add_fields:
  "core_id (threads (AddWaitingThread w t k) u) = core_id (threads k u)"
  "thread_id (threads (AddWaitingThread w t k) u) = thread_id (threads k u)"
  "timing (AddWaitingThread w t k) = timing k"
  by (cases w; simp add: AddWaitingThread_def WaitObject_AddWaitingThread_def Mutex_Update_id
      prio_frame_fields [OF prio_frame_Mutex_Update])+

text \<open>Entering the lists of several objects.\<close>

definition joined :: "nat \<Rightarrow> wait_ref list \<Rightarrow> (wait_ref \<Rightarrow> nat list) \<Rightarrow> wait_ref \<Rightarrow> nat list" where
  "joined t ws q w = q w @ (if w \<in> set ws \<and> t \<notin> set (q w) then [t] else [])"

lemma Add_all:
  assumes "sched_inv k" "mutex_inv k"
  shows "sched_inv (fold (\<lambda>w. AddWaitingThread w t) ws k) \<and> mutex_inv (fold (\<lambda>w. AddWaitingThread w t) ws k) \<and>
    leave_frame k (fold (\<lambda>w. AddWaitingThread w t) ws k) \<and>
    waiting_threads (fold (\<lambda>w. AddWaitingThread w t) ws k) = joined t ws (waiting_threads k) \<and>
    timing (fold (\<lambda>w. AddWaitingThread w t) ws k) = timing k \<and>
    core_id (threads (fold (\<lambda>w. AddWaitingThread w t) ws k) u) = core_id (threads k u) \<and>
    thread_id (threads (fold (\<lambda>w. AddWaitingThread w t) ws k) u) = thread_id (threads k u)"
  using assms
proof (induction ws arbitrary: k)
  case Nil
  then show ?case by (simp add: leave_frame_refl joined_def fun_eq_iff)
next
  case (Cons w ws)
  let ?k = "AddWaitingThread w t k"
  have st: "sched_inv ?k" "mutex_inv ?k" "leave_frame k ?k"
    "waiting_threads ?k = (waiting_threads k)(w := (if t \<in> set (waiting_threads k w) then waiting_threads k w
                                else waiting_threads k w @ [t]))"
    using Add_step [OF Cons.prems] by auto
  have "joined t ws (waiting_threads ?k) = joined t (w # ws) (waiting_threads k)"
    by (auto simp: joined_def st(4) fun_eq_iff)
  then show ?case using Cons.IH [OF st(1,2)] leave_frame_trans [OF st(3)] by (simp add: Add_fields)
qed

text \<open>The thread \<open>t\<close> sleeps on the objects \<open>ws\<close>: its own record, the lists of the objects, the event of the timeout, and what of
  the objects and registers is as before.\<close>

definition objects_kept :: "kernel \<Rightarrow> kernel \<Rightarrow> bool" where
  "objects_kept k k' \<longleftrightarrow> semaphores k' = semaphores k \<and> events k' = events k \<and> ktimers k' = ktimers k \<and>
     (\<forall>m. lock_count (mutexes k' m) = lock_count (mutexes k m) \<and> holding_thread (mutexes k' m) = holding_thread (mutexes k m)) \<and>
     (\<forall>u. thread_context (threads k' u) = thread_context (threads k u))"

definition asleep :: "nat \<Rightarrow> wait_ref list \<Rightarrow> ThreadStatus \<Rightarrow> bool \<Rightarrow> int \<Rightarrow> kernel \<Rightarrow> kernel \<Rightarrow> bool" where
  "asleep t ws st output ns k k' \<longleftrightarrow>
     status (threads k' t) = st \<and> wait_objects (threads k' t) = ws \<and> wakeup_callback (threads k' t) = Some (SVC_SyncCallback output) \<and>
     (\<forall>u. u \<noteq> t \<longrightarrow> status (threads k' u) = status (threads k u) \<and> wait_objects (threads k' u) = wait_objects (threads k u)) \<and>
     (\<forall>w. waiting_threads k' w = waiting_threads k w @ (if w \<in> set ws then [t] else [])) \<and>
     (ns \<noteq> -1 \<and> \<not> event_queue_locked (timing k) \<longrightarrow> wake_scheduled t ns k (timing k')) \<and>
     objects_kept k k' \<and> reschedule_pending k'"

lemma caller_in_no_list: "kinv k \<Longrightarrow> caller k t \<Longrightarrow> t \<notin> set (waiting_threads k w)"
  using wait_invD(3) [OF kinvD(3), of k t w] by (simp add: caller_def)

text \<open>Both ways in which the calls put a thread to sleep end in a state of this shape.\<close>

lemma entered_kinv:
  assumes inv: "kinv k" and c: "caller k t" and st: "waits_synch st" "st = WaitSynchAll \<longrightarrow> distinct ws"
    and s: "sched_inv k1" "mutex_inv k1" "num_threads k1 = num_threads k" "waiting_threads k1 = joined t ws (waiting_threads k)"
    and th: "status (threads k1 t) = st" "wait_objects (threads k1 t) = ws"
      "\<And>u. u \<noteq> t \<Longrightarrow> status (threads k1 u) = status (threads k u) \<and> wait_objects (threads k1 u) = wait_objects (threads k u)"
      "\<And>u. wakeup_callback (threads k1 u) = wakeup_callback (threads k u)"
  shows "kinv k1"
proof -
  note wi = wait_invD [OF kinvD(3) [OF inv]]
  have t: "t < num_threads k" "wakeup_callback (threads k t) = None" using c by (simp_all add: caller_def)
  have j: "joined t ws (waiting_threads k) w = waiting_threads k w @ (if w \<in> set ws then [t] else [])" for w
    using caller_in_no_list [OF inv c] by (simp add: joined_def)
  have "wait_inv k1"
  proof (rule wait_invI)
    fix w u
    show "distinct (waiting_threads k1 w)" using wi(1) caller_in_no_list [OF inv c] by (simp add: s(4) j)
    show "u \<in> set (waiting_threads k1 w) \<Longrightarrow> u < num_threads k1" using wi(2) t by (auto simp: s(3,4) j split: if_splits)
    show "u < num_threads k1 \<Longrightarrow> u \<in> set (waiting_threads k1 w) \<longleftrightarrow> w \<in> set (wait_objects (threads k1 u))"
      using wi(3) [of u w] th(2,3) caller_in_no_list [OF inv c, of w] by (cases "u = t") (simp_all add: s(3,4) j)
    show "u < num_threads k1 \<Longrightarrow> wait_objects (threads k1 u) \<noteq> [] \<Longrightarrow> waits_synch (status (threads k1 u)) \<and>
        callback_ok (status (threads k1 u)) (wakeup_callback (threads k1 u))"
      using wi(4,5) [of u] th st(1) t by (cases "u = t") (simp_all add: s(3))
    show "u < num_threads k1 \<Longrightarrow> status (threads k1 u) = WaitSynchAll \<Longrightarrow> distinct (wait_objects (threads k1 u))"
      using wi(6) [of u] th st(2) by (cases "u = t") (simp_all add: s(3))
  qed
  with s show ?thesis by (simp add: kinv_def)
qed

lemma kinv_callback:
  assumes "kinv k" "callback_ok (status (threads k t)) cb"
  shows "kinv (upd_thread t (\<lambda>th. th\<lparr>wakeup_callback := cb\<rparr>) k)" (is "kinv ?k")
  unfolding kinv_def
proof (intro conjI)
  show "sched_inv ?k" using kinvD(1) [OF assms(1)] by (rule sched_inv_upd_thread) simp_all
  show "mutex_inv ?k" using kinvD(2) [OF assms(1)] by (rule mutex_inv_cong) simp_all
  note wi = wait_invD [OF kinvD(3) [OF assms(1)]]
  show "wait_inv ?k"
  proof (rule wait_invI)
    fix w u
    show "distinct (waiting_threads ?k w)" using wi(1) by simp
    show "u \<in> set (waiting_threads ?k w) \<Longrightarrow> u < num_threads ?k" using wi(2) by simp
    show "u < num_threads ?k \<Longrightarrow> u \<in> set (waiting_threads ?k w) \<longleftrightarrow> w \<in> set (wait_objects (threads ?k u))" using wi(3) [of u w] by simp
    show "u < num_threads ?k \<Longrightarrow> wait_objects (threads ?k u) \<noteq> [] \<Longrightarrow> waits_synch (status (threads ?k u)) \<and>
        callback_ok (status (threads ?k u)) (wakeup_callback (threads ?k u))"
      using wi(4,5) [of u] assms(2) by (cases "u = t") simp_all
    show "u < num_threads ?k \<Longrightarrow> status (threads ?k u) = WaitSynchAll \<Longrightarrow> distinct (wait_objects (threads ?k u))"
      using wi(6) [of u] by (cases "u = t") simp_all
  qed
qed

lemma sleep_until_asleep:
  assumes inv: "kinv k1" and t: "t < num_threads k1"
    and timer: "current_timer (timing k) < length (timers (timing k))"
    and same: "timing k1 = timing k" "core_id (threads k1 t) = core_id (threads k t)" "thread_id (threads k1 t) = thread_id (threads k t)"
    and wq: "\<And>w. waiting_threads k1 w = waiting_threads k w @ (if w \<in> set ws then [t] else [])"
    and th: "status (threads k1 t) = st" "wait_objects (threads k1 t) = ws"
      "\<And>u. u \<noteq> t \<Longrightarrow> status (threads k1 u) = status (threads k u) \<and> wait_objects (threads k1 u) = wait_objects (threads k u)"
    and kept: "objects_kept k k1"
  shows "\<exists>k'. sleep_until t output ns k1 = Some k' \<and> kinv k' \<and> asleep t ws st output ns k k'"
proof -
  obtain T where T: "WakeAfterDelay t ns False k1 = Some (k1\<lparr>timing := T\<rparr>)"
    "ns \<noteq> -1 \<and> \<not> event_queue_locked (timing k1) \<longrightarrow> wake_scheduled t ns k1 T"
    using WakeAfterDelay_scheduled [of k1 t ns] timer same(1) by auto
  let ?k = "upd_thread t (\<lambda>th. th\<lparr>wakeup_callback := Some (SVC_SyncCallback output)\<rparr>) (k1\<lparr>timing := T\<rparr>)"
  define k' where "k' = PrepareReschedule ?k"
  have "kinv k'"
    unfolding k'_def using kinv_callback [of "k1\<lparr>timing := T\<rparr>" t] inv by (subst kinv_same [of _ ?k]) simp_all
  moreover have "objects_kept k k'" using kept unfolding k'_def objects_kept_def by simp
  moreover from this have "asleep t ws st output ns k k'"
    using T(2) th wq same unfolding asleep_def k'_def by (simp add: wake_scheduled_def) (simp add: PrepareReschedule_def)
  ultimately show ?thesis using T(1) by (simp add: sleep_until_def k'_def)
qed

lemma caller_list: "kinv k \<Longrightarrow> caller k t \<Longrightarrow> joined t ws (waiting_threads k) w = waiting_threads k w @ (if w \<in> set ws then [t] else [])"
  by (simp add: joined_def caller_in_no_list)

lemma begin_wait_entered:
  assumes inv: "kinv k" and c: "caller k t" and st: "waits_synch st" "st = WaitSynchAll \<longrightarrow> distinct ws"
  shows "kinv (begin_wait t ws st k)" "status (threads (begin_wait t ws st k) t) = st" "wait_objects (threads (begin_wait t ws st k) t) = ws"
    "num_threads (begin_wait t ws st k) = num_threads k"
    "u \<noteq> t \<Longrightarrow> status (threads (begin_wait t ws st k) u) = status (threads k u) \<and>
       wait_objects (threads (begin_wait t ws st k) u) = wait_objects (threads k u)"
    "waiting_threads (begin_wait t ws st k) w = waiting_threads k w @ (if w \<in> set ws then [t] else [])"
    "timing (begin_wait t ws st k) = timing k" "core_id (threads (begin_wait t ws st k) t) = core_id (threads k t)"
    "thread_id (threads (begin_wait t ws st k) t) = thread_id (threads k t)" "objects_kept k (begin_wait t ws st k)"
    "same_env k (begin_wait t ws st k)"
proof -
  let ?k0 = "upd_thread t (\<lambda>th. th\<lparr>status := st\<rparr>) k"
  let ?k1 = "fold (\<lambda>w. AddWaitingThread w t) ws ?k0" and ?k2 = "begin_wait t ws st k"
  have cs: "t < num_threads k" "status (threads k t) = Running" using c by (simp_all add: caller_def)
  have s0: "sched_inv ?k0"
    using kinvD(1) [OF inv] by (rule sched_inv_upd_thread) (use cs st(1) in \<open>auto simp: waits_synch_def\<close>)
  have m0: "mutex_inv ?k0" using kinvD(2) [OF inv] by (rule mutex_inv_cong) simp_all
  have a: "sched_inv ?k1" "mutex_inv ?k1" "leave_frame ?k0 ?k1" "waiting_threads ?k1 = joined t ws (waiting_threads k)"
    "timing ?k1 = timing k" "core_id (threads ?k1 t) = core_id (threads k t)" "thread_id (threads ?k1 t) = thread_id (threads k t)"
    using Add_all [OF s0 m0, of t ws t] by simp_all
  note lf = leave_frameD [OF a(3)]
  have s2: "sched_inv ?k2" unfolding begin_wait_def using a(1) by (rule sched_inv_upd_thread) simp_all
  have m2: "mutex_inv ?k2" unfolding begin_wait_def using a(2) by (rule mutex_inv_cong) simp_all
  have th: "status (threads ?k2 t) = st" "wait_objects (threads ?k2 t) = ws" "num_threads ?k2 = num_threads k"
    "u \<noteq> t \<Longrightarrow> status (threads ?k2 u) = status (threads k u) \<and> wait_objects (threads ?k2 u) = wait_objects (threads k u)"
    "wakeup_callback (threads ?k2 u) = wakeup_callback (threads k u)" "waiting_threads ?k2 = joined t ws (waiting_threads k)" for u
    by (simp_all add: begin_wait_def lf a)
  show "kinv ?k2" by (rule entered_kinv [OF inv c st s2 m2]) (simp_all add: th)
  show "objects_kept k ?k2" using a(3) by (simp add: objects_kept_def begin_wait_def leave_frame_def)
  show "status (threads ?k2 t) = st" "wait_objects (threads ?k2 t) = ws" "num_threads ?k2 = num_threads k" by (rule th)+
  show "u \<noteq> t \<Longrightarrow> status (threads ?k2 u) = status (threads k u) \<and> wait_objects (threads ?k2 u) = wait_objects (threads k u)" by (rule th)
  show "waiting_threads ?k2 w = waiting_threads k w @ (if w \<in> set ws then [t] else [])" by (simp add: th(6) caller_list [OF inv c])
  show "timing ?k2 = timing k" "core_id (threads ?k2 t) = core_id (threads k t)" "thread_id (threads ?k2 t) = thread_id (threads k t)"
    by (simp_all add: begin_wait_def lf a)
  show "same_env k ?k2" using a(3) by (simp add: begin_wait_def leave_frame_def same_env_def)
qed

lemma begin_wait_sleeps:
  assumes inv: "kinv k" and c: "caller k t" and st: "waits_synch st" "st = WaitSynchAll \<longrightarrow> distinct ws"
    and timer: "current_timer (timing k) < length (timers (timing k))"
  shows "\<exists>k'. sleep_until t output ns (begin_wait t ws st k) = Some k' \<and> kinv k' \<and> asleep t ws st output ns k k'"
proof -
  note b = begin_wait_entered [OF inv c st]
  have "t < num_threads k" using c by (simp add: caller_def)
  then show ?thesis by (intro sleep_until_asleep) (use timer in \<open>simp_all add: b\<close>)
qed

lemma wait_one_sleeps:
  assumes inv: "kinv k" and c: "caller k t" and timer: "current_timer (timing k) < length (timers (timing k))"
  shows "\<exists>k'. sleep_until t False ns (upd_thread t (\<lambda>th. th\<lparr>status := WaitSynchAny\<rparr>)
      (AddWaitingThread w t (upd_thread t (\<lambda>th. th\<lparr>wait_objects := [w]\<rparr>) k))) = Some k' \<and> kinv k' \<and>
    asleep t [w] WaitSynchAny False ns k k'"
proof -
  let ?k0 = "upd_thread t (\<lambda>th. th\<lparr>wait_objects := [w]\<rparr>) k"
  let ?k1 = "AddWaitingThread w t ?k0"
  let ?k2 = "upd_thread t (\<lambda>th. th\<lparr>status := WaitSynchAny\<rparr>) ?k1"
  have cs: "t < num_threads k" "status (threads k t) = Running" using c by (simp_all add: caller_def)
  have s0: "sched_inv ?k0" using kinvD(1) [OF inv] by (rule sched_inv_upd_thread) simp_all
  have m0: "mutex_inv ?k0" using kinvD(2) [OF inv] by (rule mutex_inv_cong) simp_all
  have a: "sched_inv ?k1" "mutex_inv ?k1" "leave_frame ?k0 ?k1" "waiting_threads ?k1 = joined t [w] (waiting_threads k)"
    "timing ?k1 = timing k" "core_id (threads ?k1 t) = core_id (threads k t)" "thread_id (threads ?k1 t) = thread_id (threads k t)"
    using Add_all [OF s0 m0, of t "[w]" t] by simp_all
  note lf = leave_frameD [OF a(3)]
  have s2: "sched_inv ?k2" using a(1) by (rule sched_inv_upd_thread) (simp_all add: lf cs)
  have m2: "mutex_inv ?k2" using a(2) by (rule mutex_inv_cong) simp_all
  have "kinv ?k2" by (rule entered_kinv [OF inv c, of WaitSynchAny "[w]", OF _ _ s2 m2]) (simp_all add: lf a waits_synch_def)
  moreover have "objects_kept k ?k2" using a(3) by (simp add: objects_kept_def leave_frame_def)
  ultimately show ?thesis
    by (intro sleep_until_asleep) (use cs timer in \<open>simp_all add: lf a caller_list [OF inv c]\<close>)
qed


section \<open>Properties of waiting\<close>

text \<open>C22: Waiting for one object.  A running thread that waits for a handle gets the invalid-handle error and no effect if the handle names
  no object that can be waited for; it acquires the object at once if that is available, and keeps running; with a timeout of zero it gets the
  timeout error and no effect.  Otherwise it is put to sleep: it is appended to the list of the object and of no
  other, no other thread changes, and the event of its timeout is scheduled unless it waits forever.  All
  consistency is kept in every case.\<close>

theorem wait_synchronization_1:
  assumes "kinv k" and "GetCurrentThread k = Some t" and "caller k t" and "current_timer (timing k) < length (timers (timing k))"
    and "get_wait_object h k = Some ob" and "\<And>m. lock_count (mutexes k m) < 2 ^ 31 - 1"
  shows "\<exists>r k'. WaitSynchronization1 h ns k = Some (r, k') \<and> kinv k' \<and>
    (case ob of
       None \<Rightarrow> r = ResultInvalidHandle \<and> k' = k
     | Some w \<Rightarrow>
         if \<not> ShouldWait w t k then r = ResultSuccess \<and> Acquire w t k = Some k' \<and> status (threads k' t) = Running
         else r = ResultTimeout \<and> (if ns = 0 then k' = k else asleep t [w] WaitSynchAny False ns k k'))"
proof (cases ob)
  case None
  then show ?thesis using assms(1,2,5) by (simp add: WaitSynchronization1_def)
next
  case (Some w)
  have t: "t < num_threads k" "status (threads k t) = Running" using assms(3) by (simp_all add: caller_def)
  show ?thesis
  proof (cases "ShouldWait w t k")
    case False
    then obtain k' where "Acquire w t k = Some k'" "kinv k'" "acq_frame w k k'"
      using Acquire_step [OF assms(1) t(1) False] assms(6) by blast
    then show ?thesis using Some False assms(2,5) t(2) acq_frameD(3) by (simp add: WaitSynchronization1_def)
  next
    case True
    then show ?thesis
      using Some assms(1,2,5) wait_one_sleeps [OF assms(1,3,4), of ns w] by (cases "ns = 0") (auto simp: WaitSynchronization1_def)
  qed
qed

text \<open>The words of guest memory that hold the handles of a wait for several objects.\<close>

definition handles_at :: "nat \<Rightarrow> nat \<Rightarrow> wait_ref list \<Rightarrow> kernel \<Rightarrow> bool" where
  "handles_at p addr ws k \<longleftrightarrow> addr + 4 * length ws \<le> 2 ^ 32 \<and> (\<forall>i < length ws. plain_word k p (addr + 4 * i) \<and>
     get_wait_object (word_of_nat (word_at k p (addr + 4 * i))) k = Some (Some (ws ! i)))"

lemma read_handles_spec: "handles_at p addr ws k \<Longrightarrow> read_handles (length ws) addr us k = Some (Inr (us @ ws), k)"
proof (induction ws arbitrary: addr us)
  case (Cons w ws)
  have h: "plain_word k p addr" "get_wait_object (word_of_nat (word_at k p addr)) k = Some (Some w)"
    using Cons.prems unfolding handles_at_def by (auto dest: spec [of _ 0])
  show ?case
  proof (cases "ws = []")
    case True
    then show ?thesis using h by (simp add: Read32_plain)
  next
    case False
    have le: "addr + 4 * length (w # ws) \<le> 2 ^ 32" using Cons.prems by (simp add: handles_at_def)
    then have "wrap_u32 (addr + 4) = addr + 4" using False by (cases ws) (simp_all add: wrap_u32_def)
    moreover have "handles_at p (addr + 4) ws k"
      using Cons.prems le unfolding handles_at_def by (auto dest: spec [of _ "Suc _"] simp: algebra_simps)
    ultimately show ?thesis using h Cons.IH [of "addr + 4" "us @ [w]"] by (simp add: Read32_plain)
  qed
qed simp

text \<open>The search of a wait for any object.\<close>

lemma wait_for_any_cases:
  "(\<forall>w \<in> set ws. ShouldWait w t k) \<and>
     wait_for_any t ws ns k = (if ns = 0 then Some ((ResultTimeout, None), k)
       else map_option (Pair (ResultTimeout, Some (-1))) (sleep_until t True ns (begin_wait t ws WaitSynchAny k))) \<or>
   (\<exists>i < length ws. \<not> ShouldWait (ws ! i) t k \<and> (\<forall>j < i. ShouldWait (ws ! j) t k) \<and>
     wait_for_any t ws ns k = map_option (Pair (ResultSuccess, Some (int i))) (Acquire (ws ! i) t k))"
proof (cases "dropWhile (\<lambda>w. ShouldWait w t k) ws")
  case Nil
  then have "\<forall>w \<in> set ws. ShouldWait w t k" by (simp add: dropWhile_eq_Nil_conv)
  then show ?thesis unfolding wait_for_any_def Nil by simp
next
  case (Cons w rest)
  let ?i = "length (takeWhile (\<lambda>w. ShouldWait w t k) ws)"
  have w: "\<not> ShouldWait w t k" using hd_dropWhile [of "\<lambda>w. ShouldWait w t k" ws] Cons by simp
  have l: "length ws = ?i + length (w # rest)" using Cons by (metis length_append takeWhile_dropWhile_id)
  have wi: "ws ! ?i = w" using Cons by (metis nth_append_length takeWhile_dropWhile_id)
  have "\<forall>j < ?i. ShouldWait (ws ! j) t k" by (metis nth_mem set_takeWhileD takeWhile_nth)
  moreover have "wait_for_any t ws ns k = map_option (Pair (ResultSuccess, Some (int ?i))) (Acquire (ws ! ?i) t k)"
    unfolding wait_for_any_def Cons list.case wi using l by simp
  ultimately show ?thesis using w wi l by (intro disjI2 exI [of _ ?i]) simp
qed

text \<open>C19: Waiting for several objects.  The handles are read from guest memory.  A wait for all acquires every object if
  all are available; a wait for any acquires the first available one in the order of the handles and returns its position.
  Otherwise a timeout of zero is the timeout error without effect, and any other timeout puts the thread to sleep in the lists of
  exactly these objects, with the output \<open>-1\<close>.  All consistency is kept in every case.\<close>

theorem wait_synchronization_n:
  assumes "kinv k" and "GetCurrentThread k = Some t" and "caller k t" and "current_timer (timing k) < length (timers (timing k))"
    and "IsValidVirtualAddress (page_table (vm_of k (current_process k))) addr" and "handles_at p addr ws k" and "wait_all \<longrightarrow> distinct ws"
    and "\<And>m. lock_count (mutexes k m) + int (length ws) < 2 ^ 31"
  shows "\<exists>r out k'. WaitSynchronizationN addr (int (length ws)) wait_all ns k = Some ((r, out), k') \<and> kinv k' \<and>
    (if wait_all \<and> (\<forall>w \<in> set ws. \<not> ShouldWait w t k) then r = ResultSuccess \<and> out = None \<and> fold_opt (\<lambda>w. Acquire w t) ws k = Some k'
     else if \<not> wait_all \<and> (\<exists>w \<in> set ws. \<not> ShouldWait w t k) then
       r = ResultSuccess \<and> (\<exists>i < length ws. out = Some (int i) \<and> Acquire (ws ! i) t k = Some k' \<and> (\<forall>j < i. ShouldWait (ws ! j) t k))
     else r = ResultTimeout \<and>
       (if ns = 0 then out = None \<and> k' = k
        else out = Some (-1) \<and> asleep t ws (if wait_all then WaitSynchAll else WaitSynchAny) (\<not> wait_all) ns k k'))"
proof -
  have t: "t < num_threads k" using assms(3) by (simp add: caller_def)
  have e: "WaitSynchronizationN addr (int (length ws)) wait_all ns k =
      (if wait_all then wait_for_all t ws ns k else wait_for_any t ws ns k)"
    using assms(2,5) read_handles_spec [OF assms(6), of "[]"] by (simp add: WaitSynchronizationN_def)
  show ?thesis
  proof (cases wait_all)
    case True
    note sl = begin_wait_sleeps [OF assms(1,3) _ _ assms(4), of WaitSynchAll ws False ns]
    show ?thesis
    proof (cases "list_all (\<lambda>w. \<not> ShouldWait w t k) ws")
      case a: True
      then show ?thesis
        unfolding e using True Acquire_all [OF assms(1) t _ a assms(8)] assms(7) by (auto simp: wait_for_all_def list_all_iff)
    next
      case a: False
      then show ?thesis
        unfolding e using True sl assms(1,7) by (cases "ns = 0") (auto simp: wait_for_all_def list_all_iff waits_synch_def)
    qed
  next
    case False
    note sl = begin_wait_sleeps [OF assms(1,3) _ _ assms(4), of WaitSynchAny ws True ns]
    from wait_for_any_cases [of ws t k ns] show ?thesis
    proof (elim disjE exE conjE)
      assume "\<forall>w \<in> set ws. ShouldWait w t k" "wait_for_any t ws ns k = (if ns = 0 then Some ((ResultTimeout, None), k)
        else map_option (Pair (ResultTimeout, Some (-1))) (sleep_until t True ns (begin_wait t ws WaitSynchAny k)))"
      then show ?thesis unfolding e using False sl assms(1) by (cases "ns = 0") (auto simp: waits_synch_def)
    next
      fix i assume i: "i < length ws" "\<not> ShouldWait (ws ! i) t k" "\<forall>j < i. ShouldWait (ws ! j) t k"
        "wait_for_any t ws ns k = map_option (Pair (ResultSuccess, Some (int i))) (Acquire (ws ! i) t k)"
      have "lock_count (mutexes k m) < 2 ^ 31 - 1" for m using assms(8) [of m] i(1) by linarith
      then obtain k' where "Acquire (ws ! i) t k = Some k'" "kinv k'" using Acquire_step [OF assms(1) t i(2)] by blast
      moreover have "\<exists>w \<in> set ws. \<not> ShouldWait w t k" using i(1,2) nth_mem by blast
      ultimately show ?thesis unfolding e using False i by auto
    qed
  qed
qed


text \<open>The register that holds the result of the call.\<close>

abbreviation result_register :: "kernel \<Rightarrow> nat \<Rightarrow> u32" where
  "result_register k t \<equiv> cpu_registers (thread_context (threads k t)) ! 0"

text \<open>A thread that leaves its lists after its callback has run.\<close>

lemma leave_and_resume:
  assumes "kinv k" "t < num_threads k" "waits_synch (status (threads k t))"
  shows "\<exists>k'. ResumeFromWait t (leave_waits t k) = Some k' \<and> kinv k' \<and> status (threads k' t) = Ready \<and>
    wait_objects (threads k' t) = [] \<and> wakeup_callback (threads k' t) = None \<and>
    thread_context (threads k' t) = thread_context (threads k t) \<and> events k' = events k \<and> hle_notifier k' = hle_notifier (leave_waits t k) \<and>
    (\<forall>w. waiting_threads k' w = removeAll t (waiting_threads k w)) \<and>
    (\<forall>u. u \<noteq> t \<longrightarrow> status (threads k' u) = status (threads k u) \<and> wait_objects (threads k' u) = wait_objects (threads k u))"
proof -
  note lw = leave_waits_step [OF assms(1,2)]
  let ?k = "leave_waits t k"
  have can: "can_resume (status (threads ?k t))" using assms(3) by (auto simp: lw(5) waits_synch_def can_resume_def)
  have run: "ResumeFromWait t ?k = Some (make_ready t ?k)" using can lw(2) by (simp add: ResumeFromWait_cases)
  have "kinv (make_ready t ?k)" using make_ready_kinv [OF lw(1) _ can lw(2)] assms(2) lw(4) by simp
  moreover have "thread_context (threads ?k t) = thread_context (threads k t)"
    using lw(9) by (simp add: leave_waits_def leave_frame_def)
  moreover have "events (make_ready t ?k) = events k" using leave_waits_objects(1) [of t k] by simp
  ultimately show ?thesis
    using run by (intro exI [of _ "make_ready t ?k"]) (simp add: make_ready_threads lw)
qed

text \<open>C21: A wait ends with its timeout.  When the event of the timeout fires for a thread that sleeps on any number of objects, its callback
  returns: the thread is ready, the result register holds the timeout error, it is in the list of no object any more, and
  no other thread is affected; all consistency is kept.\<close>

theorem wait_times_out:
  assumes "kinv k" and "t < num_threads k" and "waits_synch (status (threads k t))"
    and "wakeup_callback (threads k t) = Some (SVC_SyncCallback b)" and "cpu_registers (thread_context (threads k t)) \<noteq> []"
    and "wakeup_callback_table (thread_managers k c) (thread_id (threads k t)) = Some t"
  shows "\<exists>k'. ThreadWakeupCallback c (thread_id (threads k t)) k = Some k' \<and> kinv k' \<and> status (threads k' t) = Ready \<and>
    result_register k' t = ResultTimeout \<and> wait_objects (threads k' t) = [] \<and> wakeup_callback (threads k' t) = None \<and>
    (\<forall>w. waiting_threads k' w = removeAll t (waiting_threads k w)) \<and>
    (\<forall>u. u \<noteq> t \<longrightarrow> status (threads k' u) = status (threads k u) \<and> wait_objects (threads k' u) = wait_objects (threads k u))"
proof -
  define k1 where "k1 = SetWaitSynchronizationResult t ResultTimeout k"
  have k1: "kinv k1" "num_threads k1 = num_threads k" "waiting_threads k1 = waiting_threads k"
    "status (threads k1 u) = status (threads k u)" "wait_objects (threads k1 u) = wait_objects (threads k u)"
    "result_register k1 t = ResultTimeout" for u
    unfolding k1_def SetWaitSynchronizationResult_def using kinv_upd_context [OF assms(1)] assms(5) by simp_all
  have "run_wakeup_callback Timeout t None k = Some k1" using assms(4) by (simp add: run_wakeup_callback_def k1_def)
  then have run: "ThreadWakeupCallback c (thread_id (threads k t)) k = ResumeFromWait t (leave_waits t k1)"
    using assms(3,6) by (auto simp: ThreadWakeupCallback_def waits_synch_def)
  from leave_and_resume [of k1 t] assms(2,3) show ?thesis unfolding run by (auto simp: k1)
qed

text \<open>The steps of a signal that has one waiter.\<close>

lemma signal_sole_waiter:
  assumes inv: "kinv k" and w: "waiting_threads k (WEvent e) = [t]" and st: "status (threads k t) = WaitSynchAny"
    and cb: "wakeup_callback (threads k t) = Some (SVC_SyncCallback False)" and regs: "cpu_registers (thread_context (threads k t)) \<noteq> []"
  shows "\<exists>k'. Event_Signal e k = Some k' \<and> kinv k' \<and> status (threads k' t) = Ready \<and> result_register k' t = ResultSuccess \<and>
    wait_objects (threads k' t) = [] \<and> (\<forall>w. waiting_threads k' w = removeAll t (waiting_threads k w)) \<and>
    (event_signaled (events k' e) \<longleftrightarrow> event_reset_type (events k e) = Sticky)"
proof -
  let ?w = "WEvent e" and ?k0 = "upd_event e (\<lambda>x. x\<lparr>event_signaled := True\<rparr>) k"
  have t: "t < num_threads k" using waits_synch_waiting(1) [OF kinvD(3) [OF inv], of t ?w] w by simp
  have prio: "current_priority (threads k t) < 64" using sched_invD(2) [OF kinvD(1) [OF inv] t] by (simp add: thread_ok_def)
  define k1 where "k1 = upd_event e (\<lambda>x. x\<lparr>event_signaled := event_reset_type x \<noteq> OneShot\<rparr>) k"
  define k2 where "k2 = SetWaitSynchronizationResult t ResultSuccess k1"
  have acq: "Acquire ?w t ?k0 = Some k1"
    by (simp add: Event_Acquire_def k1_def upd_event_def Let_def)
  have kinv2: "kinv k2"
    unfolding k2_def SetWaitSynchronizationResult_def k1_def
    using kinv_cong_objects [OF inv] by (intro kinv_upd_context) simp
  have cb2: "run_wakeup_callback Signal t (Some ?w) k1 = Some k2" using cb by (simp add: run_wakeup_callback_def k1_def k2_def)
  have f2: "num_threads k2 = num_threads k" "status (threads k2 t) = WaitSynchAny" "waiting_threads k2 = waiting_threads k"
    "result_register k2 t = ResultSuccess"
    "events k2 e = (events k e)\<lparr>event_signaled := event_reset_type (events k e) \<noteq> OneShot\<rparr>"
    using st regs by (simp_all add: k2_def k1_def SetWaitSynchronizationResult_def)
  obtain k3 where k3: "ResumeFromWait t (leave_waits t k2) = Some k3" "kinv k3" "status (threads k3 t) = Ready"
    "wait_objects (threads k3 t) = []" "thread_context (threads k3 t) = thread_context (threads k2 t)" "events k3 = events k2"
    "\<And>w. waiting_threads k3 w = removeAll t (waiting_threads k2 w)"
    using leave_and_resume [OF kinv2, of t] t f2 by (auto simp: waits_synch_def)
  have "GetHighestPriorityReadyThread ?w ?k0 = Some (Some t)"
    using st prio by (simp add: GetHighestPriorityReadyThread_def w ready_to_run_def prio_defs)
  moreover have "wake_one ?w t ?k0 = Some k3"
    using acq cb2 k3(1) st by (simp add: wake_one_def)
  moreover have "wake_loop (Suc 0) ?w k3 = Some k3"
    by (rule loop_stops [OF k3(2)]) (simp add: k3(7) f2 w)
  ultimately have loop: "wake_loop (length (waiting_threads ?k0 ?w) + 1) ?w ?k0 = Some k3"
    using w by simp
  define k4 where "k4 = (if hle_notifier k3 ?w then k3\<lparr>hle_notified := hle_notified k3 @ [?w]\<rparr> else k3)"
  have f4: "kinv k4" "threads k4 = threads k3" "events k4 = events k3" "waiting_threads k4 = waiting_threads k3"
    using k3(2) by (simp_all add: k4_def)
  define k' where "k' = (if event_reset_type (events k4 e) = Pulse then upd_event e (\<lambda>x. x\<lparr>event_signaled := False\<rparr>) k4 else k4)"
  have "Event_Signal e k = Some k'"
    using loop by (simp add: Event_Signal_def WakeupAllWaitingThreads_def WaitObject_WakeupAll_def k'_def k4_def)
  moreover have "kinv k'" using f4(1) kinv_cong_objects [OF f4(1)] by (simp add: k'_def)
  moreover have "event_signaled (events k' e) \<longleftrightarrow> event_reset_type (events k e) = Sticky"
    by (cases "event_reset_type (events k e)") (simp_all add: k'_def f4 k3(6) f2)
  ultimately show ?thesis
    using k3 f2 f4 by (intro exI [of _ k']) (simp add: k'_def)
qed

text \<open>C20: A wait ends with a signal.  A thread that sleeps as the only waiter of an event that is not signalled is woken by the
  first signal of the event: it is ready, in no list any more, and its result register holds success instead of the timeout
  error; afterwards the event is signalled exactly if it is sticky.\<close>

theorem wait_then_signal:
  assumes "kinv k" and "GetCurrentThread k = Some t" and "caller k t" and "current_timer (timing k) < length (timers (timing k))"
    and "get_wait_object h k = Some (Some (WEvent e))" and "\<not> event_signaled (events k e)" and "waiting_threads k (WEvent e) = []"
    and "ns \<noteq> 0" and "cpu_registers (thread_context (threads k t)) \<noteq> []"
  shows "\<exists>k1 k2. WaitSynchronization1 h ns k = Some (ResultTimeout, k1) \<and> status (threads k1 t) = WaitSynchAny \<and>
    Event_Signal e k1 = Some k2 \<and> kinv k2 \<and> status (threads k2 t) = Ready \<and> result_register k2 t = ResultSuccess \<and>
    wait_objects (threads k2 t) = [] \<and> (\<forall>w. t \<notin> set (waiting_threads k2 w)) \<and>
    (event_signaled (events k2 e) \<longleftrightarrow> event_reset_type (events k e) = Sticky)"
proof -
  let ?w = "WEvent e"
  obtain k1 where k1: "WaitSynchronization1 h ns k = Some (ResultTimeout, k1)" "kinv k1" "asleep t [?w] WaitSynchAny False ns k k1"
    using wait_one_sleeps [OF assms(1,3,4), of ns ?w] assms(2,5,6,8) by (auto simp: WaitSynchronization1_def)
  have st: "status (threads k1 t) = WaitSynchAny" "wakeup_callback (threads k1 t) = Some (SVC_SyncCallback False)"
    "waiting_threads k1 w = waiting_threads k w @ (if w = ?w then [t] else [])" "events k1 = events k"
    "thread_context (threads k1 t) = thread_context (threads k t)" for w
    using k1(3) by (auto simp: asleep_def objects_kept_def)
  show ?thesis
    using signal_sole_waiter [OF k1(2), of e t] st assms(7,9) k1(1) by auto
qed


section \<open>Properties of creating objects\<close>

definition used :: "ResourceLimitType \<Rightarrow> kernel \<Rightarrow> int" where
  "used ty k = rl_balance (resource_limits k (current_limit k)) (type_index ty)"

definition allowed :: "ResourceLimitType \<Rightarrow> kernel \<Rightarrow> int" where
  "allowed ty k = rl_cap (resource_limits k (current_limit k)) (type_index ty)"

abbreviation current_table :: "kernel \<Rightarrow> kobj HandleTable" where
  "current_table k \<equiv> handle_table (processes k (current_process k))"

abbreviation limit_ok :: "kernel \<Rightarrow> bool" where
  "limit_ok k \<equiv> rl_valid (resource_limits k (current_limit k))"

definition counted :: "ResourceLimitType \<Rightarrow> int \<Rightarrow> kernel \<Rightarrow> kernel" where
  "counted ty n k = k\<lparr>resource_limits := (resource_limits k)(current_limit k :=
     (resource_limits k (current_limit k))\<lparr>m_current_values :=
        (m_current_values (resource_limits k (current_limit k)))[type_index ty := n]\<rparr>)\<rparr>"

lemma reserve_one:
  assumes "limit_ok k" "type_index ty < type_index RMax"
  shows "reserve_limit (current_process k) ty 1 k = Some (if used ty k < allowed ty k then (True, counted ty (used ty k + 1) k) else (False, k))"
proof (cases "used ty k < allowed ty k")
  case True
  then have "Reserve (type_index ty) 1 (resource_limits k (current_limit k)) = Some (True, (resource_limits k (current_limit k))\<lparr>m_current_values :=
      (m_current_values (resource_limits k (current_limit k)))[type_index ty := used ty k + 1]\<rparr>)"
    using Reserve_cases [OF assms, of 1] by (simp add: used_def allowed_def rl_small_def)
  then have "reserve_limit (current_process k) ty 1 k = Some (True, counted ty (used ty k + 1) k)"
    by (simp add: reserve_limit_def counted_def current_limit_def Let_def)
  then show ?thesis using True by simp
next
  case False
  then have "Reserve (type_index ty) 1 (resource_limits k (current_limit k)) = Some (False, resource_limits k (current_limit k))"
    using Reserve_cases [OF assms, of 1] by (simp add: used_def allowed_def rl_small_def)
  then have "reserve_limit (current_process k) ty 1 k = Some (False, k)"
    by (simp add: reserve_limit_def current_limit_def Let_def)
  then show ?thesis using False by simp
qed

lemma reserve_and_create_made:
  assumes "limit_ok k" "type_index ty < type_index RMax" "used ty k < allowed ty k"
    "create (counted ty (used ty k + 1) k) = Some (Inr (ob, destroy), k2)"
  shows "reserve_and_create ty code create k = create_handle ob destroy k2"
  using assms(3,4) by (simp add: reserve_and_create_def reserve_one [OF assms(1,2)])


lemma counted_facts [simp]:
  "processes (counted ty n k) = processes k" "current_process (counted ty n k) = current_process k" "current_limit (counted ty n k) = current_limit k"
  "thread_managers (counted ty n k) = thread_managers k" "current_cpu (counted ty n k) = current_cpu k"
  "num_events (counted ty n k) = num_events k" "events (counted ty n k) = events k" "num_semaphores (counted ty n k) = num_semaphores k"
  by (simp_all add: counted_def current_limit_def)

lemma used_counted: "limit_ok k \<Longrightarrow> type_index ty < type_index RMax \<Longrightarrow> used ty (counted ty n k) = n"
  by (simp add: used_def current_limit_def counted_def rl_balance_def rl_valid_def)

lemma release_one:
  assumes "limit_ok k" "type_index ty < type_index RMax" "used ty k < allowed ty k" "resource_limits k' = resource_limits (counted ty (used ty k + 1) k)"
    "processes k' = processes k" "current_process k' = current_process k"
  shows "drop_object ty k' = Some (k'\<lparr>resource_limits := resource_limits k\<rparr>)"
proof -
  let ?l = "current_limit k" and ?i = "type_index ty"
  let ?r = "(resource_limits k ?l)\<lparr>m_current_values := (m_current_values (resource_limits k ?l))[?i := used ty k + 1]\<rparr>"
  have v: "rl_valid ?r" using assms(1-3) by (auto simp: rl_valid_def used_def allowed_def rl_balance_def rl_cap_def nth_list_update)
  have len: "?i < length (m_current_values (resource_limits k ?l))" using assms(1,2) by (simp add: rl_valid_def)
  have b: "rl_balance ?r ?i = used ty k + 1" using len assms(2) by (simp add: rl_balance_def)
  have z: "0 \<le> used ty k" using assms(1,2) by (simp add: used_def rl_balance_def rl_valid_def)
  have "(m_current_values (resource_limits k ?l))[?i := used ty k] = m_current_values (resource_limits k ?l)"
    using len assms(2) by (simp add: used_def rl_balance_def)
  then have "Release ?i 1 ?r = Some (True, resource_limits k ?l)"
    using Release_cases [OF v assms(2), of 1] z unfolding b by (simp add: rl_small_def)
  moreover have "resource_limit (processes k' (current_process k')) = ?l" using assms(5,6) by (simp add: current_limit_def)
  moreover have "resource_limits k' ?l = ?r" "resource_limits k' = (resource_limits k)(?l := ?r)" using assms(4) by (simp_all add: counted_def)
  ultimately show ?thesis by (simp add: drop_object_def release_limit_def Let_def)
qed

text \<open>What the calls that create an object without further failure have in common.\<close>

definition created :: "ResourceLimitType \<Rightarrow> u32 \<Rightarrow> kobj \<Rightarrow> kernel \<Rightarrow> (handle result_val \<times> kernel) option \<Rightarrow> bool" where
  "created ty code ob k res \<longleftrightarrow> (\<exists>r k'. res = Some (r, k') \<and>
     (if used ty k \<ge> allowed ty k then r = Inl (Result code ''OS'' S_OutOfResource L_Status) \<and> k' = k
      else if ht_full (current_table k) then r = Inl ResultOutOfHandles \<and> resource_limits k' = resource_limits k \<and> processes k' = processes k
      else \<exists>h. r = Inr h \<and> ht_inv (current_table k') \<and> used ty k' = used ty k + 1 \<and> lookup_handle h k = None \<and>
        (\<forall>T. get_object T h k' = (if T = GetHandleType ob then Some (obj_ref ob) else None)) \<and>
        (\<forall>h'. key_of h' \<noteq> key_of h \<longrightarrow> lookup_handle h' k' = lookup_handle h' k)))"

lemma reserve_and_create_spec:
  assumes inv: "ht_inv (current_table k)" and lim: "limit_ok k" "type_index ty < type_index RMax"
    and c: "create (counted ty (used ty k + 1) k) = Some (Inr (ob, drop_object ty), k2)"
    and same: "processes k2 = processes k" "resource_limits k2 = resource_limits (counted ty (used ty k + 1) k)"
      "current_process k2 = current_process k" "thread_managers k2 = thread_managers k" "current_cpu k2 = current_cpu k"
  shows "created ty code ob k (reserve_and_create ty code create k)"
proof (cases "used ty k < allowed ty k")
  case False
  then show ?thesis by (simp add: created_def reserve_and_create_def reserve_one [OF lim])
next
  case True
  have run: "reserve_and_create ty code create k = create_handle ob (drop_object ty) k2"
    by (rule reserve_and_create_made [where create = create, OF lim True c])
  show ?thesis
  proof (rule Create_or_full [OF inv, of ob])
    assume full: "HandleTable_Create ob (current_table k) = Inl ResultOutOfHandles"
    then have f: "ht_full (current_table k)" using ht.create_law [OF inv, of ob] by auto
    show ?thesis
      unfolding run created_def using True f full same release_one [OF lim True same(2,1,3)]
      by (simp add: create_handle_def)
  next
    fix h t
    assume made: "HandleTable_Create ob (current_table k) = Inr (h, t)" "ht_inv t" "view (current_table k) (key_of h) = None"
      "view t = (view (current_table k))(key_of h \<mapsto> ob)"
    then have f: "\<not> ht_full (current_table k)" using ht.create_cases [OF inv] by blast
    let ?k = "upd_process (current_process k) (\<lambda>pr. pr\<lparr>handle_table := t\<rparr>) k2"
    have r: "create_handle ob (drop_object ty) k2 = Some (Inr h, ?k)" using made(1) same by (simp add: create_handle_def)
    have "h \<noteq> CurrentThread \<and> h \<noteq> CurrentProcess" using view_not_pseudo [of t h ob] made(4) by simp
    then have "lookup_handle h ?k = Some ob" "lookup_handle h k = None"
      using made(3,4) same by (simp_all add: lookup_handle_def GetGeneric_eq)
    moreover have "lookup_handle h' ?k = lookup_handle h' k" if "key_of h' \<noteq> key_of h" for h'
      using that made(4) same by (simp add: lookup_handle_def GetGeneric_eq GetCurrentThread_def)
    moreover have "used ty ?k = used ty k + 1"
      using used_counted [OF lim, of "used ty k + 1"] same by (simp add: used_def current_limit_def)
    ultimately show ?thesis
      unfolding run r created_def using True f made(2) same(3) by (simp add: get_object_def DynamicObjectCast_def)
  qed
qed

text \<open>C38: Creating an event.  When the limit of the process for events is reached the call reports it and changes nothing; when the handle table is
  full the new event is destroyed again, so that neither the count nor the table changes.  Otherwise the call returns a handle that named
  nothing before and now names the new event and nothing of any other type, all other handles keep their
  meaning, the count of events grows by one, and the new event is not signalled.\<close>

theorem svc_create_event:
  assumes "ht_inv (current_table k)" and "limit_ok k"
  shows "created REvent OutOfEvents (OEvent (num_events k)) k (SVC_CreateEvent rt k) \<and>
    (\<forall>h k'. SVC_CreateEvent rt k = Some (Inr h, k') \<longrightarrow> events k' (num_events k) =
       \<lparr>event_reset_type = reset_type_of rt, event_signaled = False, event_limit = Some (current_limit k)\<rparr>)"
proof -
  let ?create = "\<lambda>k. let (e, k1) = CreateEvent (reset_type_of rt) k in
     Some (Inr (OEvent e, drop_object REvent), upd_event e (\<lambda>x. x\<lparr>event_limit := Some (current_limit k)\<rparr>) k1)"
  define ev where "ev = \<lparr>event_reset_type = reset_type_of rt, event_signaled = False, event_limit = Some (current_limit k)\<rparr>"
  define k1 where "k1 = counted REvent (used REvent k + 1) k"
  define k2 where "k2 = k1\<lparr>num_events := num_events k + 1, events := (events k)(num_events k := ev)\<rparr>"
  have c: "?create k1 = Some (Inr (OEvent (num_events k), drop_object REvent), k2)"
    by (simp add: k2_def k1_def ev_def CreateEvent_def upd_event_def Let_def)
  have t: "type_index REvent < type_index RMax" by simp
  have "created REvent OutOfEvents (OEvent (num_events k)) k (SVC_CreateEvent rt k)"
    unfolding SVC_CreateEvent_def
    by (rule reserve_and_create_spec [where ?k2.0 = k2, OF assms t]) (use c in \<open>simp_all add: k1_def k2_def\<close>)
  moreover have "events k' (num_events k) = ev" if "SVC_CreateEvent rt k = Some (Inr h, k')" for h k'
  proof -
    have "used REvent k < allowed REvent k"
      using that reserve_one [OF assms(2) t] by (auto simp: SVC_CreateEvent_def reserve_and_create_def split: if_splits)
    then have "create_handle (OEvent (num_events k)) (drop_object REvent) k2 = Some (Inr h, k')"
      using that reserve_and_create_made [where create = ?create and code = OutOfEvents, OF assms(2) t _ c [unfolded k1_def]] by (simp add: SVC_CreateEvent_def)
    then have "events k' = events k2" by (auto simp: create_handle_def Let_def split: sum.splits)
    then show ?thesis by (simp add: k2_def)
  qed
  ultimately show ?thesis by (simp add: ev_def)
qed


text \<open>A semaphore that cannot be created is counted all the same.  With an initial count above the maximum the call reports the error and creates
  nothing, but the count of semaphores of the process has grown by one and nothing will release it: after as many such calls
  as the limit allows, every call reports that the process is out of semaphores.\<close>

theorem svc_create_semaphore_leak:
  assumes "limit_ok k" and "initial > maximum"
  shows "\<exists>k'. SVC_CreateSemaphore initial maximum k =
      Some (Inl (if used RSemaphore k < allowed RSemaphore k then ResultInvalidCombinationKernel
                 else Result OutOfSemaphores ''OS'' S_OutOfResource L_Status), k') \<and>
    used RSemaphore k' = min (used RSemaphore k + 1) (allowed RSemaphore k) \<and> allowed RSemaphore k' = allowed RSemaphore k \<and>
    processes k' = processes k \<and> semaphores k' = semaphores k \<and> num_semaphores k' = num_semaphores k \<and> limit_ok k'"
proof (cases "used RSemaphore k < allowed RSemaphore k")
  case True
  let ?k = "counted RSemaphore (used RSemaphore k + 1) k"
  have t: "type_index RSemaphore < type_index RMax" by simp
  have "SVC_CreateSemaphore initial maximum k = Some (Inl ResultInvalidCombinationKernel, ?k)"
    using True assms(2) by (simp add: SVC_CreateSemaphore_def reserve_and_create_def reserve_one [OF assms(1) t] CreateSemaphore_def)
  moreover have "allowed RSemaphore ?k = allowed RSemaphore k"
    by (simp add: allowed_def) (simp add: counted_def current_limit_def rl_cap_def)
  moreover have "limit_ok ?k"
    using True assms(1) t by (auto simp: counted_def current_limit_def rl_valid_def used_def allowed_def rl_balance_def rl_cap_def nth_list_update)
  moreover have "semaphores ?k = semaphores k" by (simp add: counted_def)
  ultimately show ?thesis using True used_counted [OF assms(1) t] by (intro exI [of _ ?k]) simp
next
  case False
  moreover have "used RSemaphore k \<le> allowed RSemaphore k"
    using assms(1) by (simp add: rl_valid_def used_def allowed_def rl_balance_def rl_cap_def)
  ultimately show ?thesis using assms(1) by (simp add: SVC_CreateSemaphore_def reserve_and_create_def reserve_one)
qed


section \<open>An example\<close>

text \<open>The thread of \<open>demo_caller\<close> is the current one, and its process has one handle, which names an event and is
  stored in its memory.\<close>

definition demo_handles :: "kobj HandleTable" where
  "demo_handles = new_HandleTable\<lparr>next_free_slot := 1, next_generation := 2,
     generations := (generations (new_HandleTable :: kobj HandleTable))[0 := 1], objects := (replicate MAX_COUNT None)[0 := Some (OEvent 0)]\<rparr>"

definition demo_svc :: kernel where
  "demo_svc = (upd_manager 0 (\<lambda>m. m\<lparr>current_thread := Some 0\<rparr>)
     (upd_process 0 (\<lambda>p. p\<lparr>handle_table := demo_handles\<rparr>) demo_caller))
       \<lparr>memory := host_write (word_ptr demo_caller 0 0x100000) (bytes_of 4 1) demo_memory\<rparr>"

lemma demo_handles_create: "HandleTable_Create (OEvent 0) new_HandleTable = Inr (1, demo_handles)"
  by (simp add: HandleTable_Create_def demo_handles_def new_HandleTable_def HandleTable_Clear_def MAX_COUNT_def bump_generation_def Let_def)

lemma demo_handles_get: "GetGeneric c p demo_handles 1 = Some (OEvent 0)"
  by (simp add: GetGeneric_def IsValid_def demo_handles_def new_HandleTable_def HandleTable_Clear_def MAX_COUNT_def GetSlot_def GetGeneration_def
      CurrentThread_def CurrentProcess_def)

lemma demo_svc_ok:
  "kinv demo_svc" "GetCurrentThread demo_svc = Some 0" "caller demo_svc 0"
  "current_timer (timing demo_svc) < length (timers (timing demo_svc))" "get_wait_object 1 demo_svc = Some (Some (WEvent 0))"
  "IsValidVirtualAddress (page_table (vm_of demo_svc (current_process demo_svc))) 0x100000" "handles_at 0 0x100000 [WEvent 0] demo_svc"
  "lock_count (mutexes demo_svc m) = 0" "\<not> event_signaled (events demo_svc e)" "waiting_threads demo_svc w = []"
  "event_reset_type (events demo_svc e) = OneShot" "cpu_registers (thread_context (threads demo_svc 0)) \<noteq> []"
proof -
  show kinv: "kinv demo_svc" using demo_caller_ok(1) by (subst kinv_same [of _ demo_caller]) (simp_all add: demo_svc_def)
  have obj: "mutexes demo_svc = mutexes demo_kernel" "events demo_svc = events demo_kernel" "waiting_threads demo_svc = waiting_threads demo_kernel"
    "timing demo_svc = timing demo_kernel" "threads demo_svc = threads demo_caller" "current_process demo_svc = 0"
    by (simp_all add: demo_svc_def demo_caller_def demo_kernel_def new_KernelSystem_def)
  then show "lock_count (mutexes demo_svc m) = 0" "\<not> event_signaled (events demo_svc e)" "waiting_threads demo_svc w = []"
    "event_reset_type (events demo_svc e) = OneShot" by simp_all
  show "current_timer (timing demo_svc) < length (timers (timing demo_svc))" using demo_caller_ok(5) by (simp only: obj)
  show "caller demo_svc 0" using demo_caller_ok(3) by (simp add: caller_def obj) (simp add: demo_svc_def)
  show "GetCurrentThread demo_svc = Some 0" by (simp add: demo_svc_def GetCurrentThread_def demo_caller_def demo_kernel_def new_KernelSystem_def)
  show g: "get_wait_object 1 demo_svc = Some (Some (WEvent 0))"
    by (simp add: get_wait_object_def lookup_handle_def obj) (simp add: demo_svc_def demo_handles_get)
  show "IsValidVirtualAddress (page_table (vm_of demo_svc (current_process demo_svc))) 0x100000"
    unfolding obj by (simp add: demo_svc_def demo_caller_def IsValidVirtualAddress_def page_pointer_def demo_table_def CITRA_PAGE_SIZE_def)
  let ?k0 = "upd_manager 0 (\<lambda>m. m\<lparr>current_thread := Some 0\<rparr>) (upd_process 0 (\<lambda>p. p\<lparr>handle_table := demo_handles\<rparr>) demo_caller)"
  have "word_ptr ?k0 0 0x100000 = word_ptr demo_caller 0 0x100000" by (simp add: word_ptr_def)
  then have "word_at demo_svc 0 0x100000 = 1" using word_at_write [of ?k0 0 "0x100000" 1 demo_memory] by (simp add: demo_svc_def)
  moreover have "plain_word demo_svc 0 0x100000" using demo_caller_ok(4) by (simp add: plain_word_def demo_svc_def)
  ultimately show "handles_at 0 0x100000 [WEvent 0] demo_svc" using g by (simp add: handles_at_def)
  show "cpu_registers (thread_context (threads demo_svc 0)) \<noteq> []"
    unfolding obj by (simp add: demo_caller_def demo_kernel_def new_KernelSystem_def blank_thread_def)
qed


theorem wait_synchronization_1_witness:
  "\<exists>k'. WaitSynchronization1 1 5000 demo_svc = Some (ResultTimeout, k') \<and> kinv k' \<and> waiting_threads k' (WEvent 0) = [0]"
  using wait_synchronization_1 [OF demo_svc_ok(1-5), of 5000] demo_svc_ok(8-10) by (auto simp: asleep_def)

theorem wait_synchronization_n_witness:
  "\<exists>k'. WaitSynchronizationN 0x100000 1 True 5000 demo_svc = Some ((ResultTimeout, Some (-1)), k') \<and> kinv k' \<and>
     waiting_threads k' (WEvent 0) = [0] \<and> status (threads k' 0) = WaitSynchAll"
  using wait_synchronization_n [OF demo_svc_ok(1-4,6,7), of True 5000] demo_svc_ok(8-10) by (auto simp: asleep_def)

definition demo_sleeper :: kernel where
  "demo_sleeper = upd_manager 0 (\<lambda>m. m\<lparr>wakeup_callback_table := [0 \<mapsto> 0]\<rparr>) demo_wait"

lemma demo_sleeper_ok:
  "kinv demo_sleeper" "num_threads demo_sleeper = 1" "waits_synch (status (threads demo_sleeper 0))"
  "wakeup_callback (threads demo_sleeper 0) = Some (SVC_SyncCallback True)" "cpu_registers (thread_context (threads demo_sleeper 0)) \<noteq> []"
  "wakeup_callback_table (thread_managers demo_sleeper 0) 0 = Some 0" "thread_id (threads demo_sleeper 0) = 0"
  "waiting_threads demo_sleeper (WEvent 0) = [0]"
proof -
  show "kinv demo_sleeper" using demo_wait_inv by (subst kinv_same [of _ demo_wait]) (simp_all add: demo_sleeper_def)
qed (simp_all add: demo_sleeper_def waits_synch_def demo_wait_def demo_kernel_def new_KernelSystem_def blank_thread_def)

theorem wait_times_out_witness:
  "\<exists>k'. ThreadWakeupCallback 0 0 demo_sleeper = Some k' \<and> result_register k' 0 = ResultTimeout \<and> waiting_threads k' (WEvent 0) = []"
  using wait_times_out [of demo_sleeper 0 True 0] demo_sleeper_ok by auto

theorem wait_then_signal_witness:
  "\<exists>k1 k2. WaitSynchronization1 1 5000 demo_svc = Some (ResultTimeout, k1) \<and> Event_Signal 0 k1 = Some k2 \<and>
     result_register k2 0 = ResultSuccess \<and> \<not> event_signaled (events k2 0)"
  using wait_then_signal [OF demo_svc_ok(1-5), of 5000] demo_svc_ok(9-12) by auto


text \<open>A process with a new table and a limit of eight of each resource.\<close>

definition demo_creator :: kernel where
  "demo_creator = demo_svc\<lparr>resource_limits := (\<lambda>_. demo_limit), processes := (\<lambda>_. new_Process)\<rparr>"

lemma demo_creator_ok:
  "ht_inv (current_table demo_creator)" "\<not> ht_full (current_table demo_creator)" "limit_ok demo_creator"
  "used REvent demo_creator < allowed REvent demo_creator" "used RSemaphore demo_creator < allowed RSemaphore demo_creator"
proof -
  show "ht_inv (current_table demo_creator)" by (simp add: demo_creator_def new_Process_def ht_inv_new)
  show "\<not> ht_full (current_table demo_creator)"
    using ht_full_iff [OF ht_inv_new] by (simp add: demo_creator_def new_Process_def MAX_COUNT_def)
  show "limit_ok demo_creator" by (auto simp: demo_creator_def rl_valid_def demo_limit_def nth_replicate)
  show "used REvent demo_creator < allowed REvent demo_creator" "used RSemaphore demo_creator < allowed RSemaphore demo_creator"
    by (simp_all add: used_def allowed_def rl_balance_def rl_cap_def demo_creator_def demo_limit_def)
qed

theorem svc_create_event_witness:
  "\<exists>h k'. SVC_CreateEvent 1 demo_creator = Some (Inr h, k') \<and> get_object HEvent h k' = Some (num_events demo_creator) \<and>
     get_object HTimer h k' = None"
  using svc_create_event [OF demo_creator_ok(1,3), of 1] demo_creator_ok(2,4) by (auto simp: created_def)

theorem svc_create_semaphore_leak_witness:
  "\<exists>k'. SVC_CreateSemaphore 2 1 demo_creator = Some (Inl ResultInvalidCombinationKernel, k') \<and>
     used RSemaphore k' = used RSemaphore demo_creator + 1"
  using svc_create_semaphore_leak [OF demo_creator_ok(3), of 1 2] demo_creator_ok(5) by auto

end
