(* ===== verification/Svc_Memory.thy ===== *)
theory Svc_Memory
  imports Shared_Memory Svc_Sync
begin

unbundle bit_operations_syntax

text \<open>
  The system calls of \<^verbatim>\<open>core/hle/kernel/svc.cpp\<close> on memory, processes and resource limits.  The arguments of a call are numbers below
  \<open>2 ^ 32\<close>; interval sets of boost are the argument \<open>ops\<close>.
\<close>

section \<open>Memory of the current process\<close>

definition MEMOP_REGION_MASK :: u32 where "MEMOP_REGION_MASK = 0xF00"
definition MEMOP_OPERATION_MASK :: u32 where "MEMOP_OPERATION_MASK = 0xFF"
definition MEMOP_LINEAR :: u32 where "MEMOP_LINEAR = 0x10000"

datatype ControlMemoryOperation = MEMOP_FREE | MEMOP_COMMIT | MEMOP_MAP | MEMOP_UNMAP | MEMOP_PROTECT

definition memop_of :: "u32 \<Rightarrow> ControlMemoryOperation option" where
  "memop_of operation =
     (let n = operation AND NOT MEMOP_REGION_MASK AND MEMOP_OPERATION_MASK in
      if n = 1 then Some MEMOP_FREE else if n = 3 then Some MEMOP_COMMIT else if n = 4 then Some MEMOP_MAP
      else if n = 5 then Some MEMOP_UNMAP else if n = 6 then Some MEMOP_PROTECT else None)"

text \<open>The output of a call that may leave its argument alone.\<close>

definition out_addr :: "nat result_val \<Rightarrow> result \<times> nat option" where
  "out_addr r = (case r of Inl e \<Rightarrow> (e, None) | Inr a \<Rightarrow> (ResultSuccess, Some a))"

definition control_free :: "icl \<Rightarrow> nat \<Rightarrow> nat \<Rightarrow> nat \<Rightarrow> kernel \<Rightarrow> ((result \<times> nat option) \<times> kernel) option" where
  "control_free ops p addr0 sz k = do {
     (res, k1) \<leftarrow>
       (if HEAP_VADDR \<le> addr0 \<and> addr0 < HEAP_VADDR_END then Process_HeapFree ops p addr0 sz k
        else do {
          r \<leftarrow> memory_region (processes k p);
          if GetLinearHeapBase (processes k p) (memory_regions k r) \<le> addr0 \<and>
             addr0 < GetLinearHeapLimit (processes k p) (memory_regions k r)
          then Process_LinearFree ops p addr0 sz k else Some (ResultInvalidAddress, k)
        });
     Some ((res, if IsError res then None else Some addr0), k1)
   }"

definition ControlMemory ::
  "icl \<Rightarrow> nat \<Rightarrow> nat \<Rightarrow> nat \<Rightarrow> u32 \<Rightarrow> u32 \<Rightarrow> kernel \<Rightarrow> ((result \<times> nat option) \<times> kernel) option" where
  "ControlMemory ops addr0 addr1 sz operation perms k =
     (let p = current_process k; vperms = ucast perms in
      if \<not> page_aligned addr0 then Some ((ResultMisalignedAddress, None), k)
      else if \<not> page_aligned addr1 then Some ((ResultMisalignedAddress, None), k)
      else if \<not> page_aligned sz then Some ((ResultMisalignedSize, None), k)
      else if perms AND 3 \<noteq> perms then Some ((ResultInvalidCombination, None), k)
      else case memop_of operation of
        Some MEMOP_FREE \<Rightarrow> control_free ops p addr0 sz k
      | Some MEMOP_COMMIT \<Rightarrow>
          map_option (map_prod out_addr id)
            (if operation AND MEMOP_LINEAR \<noteq> 0 then Process_LinearAllocate ops p addr0 sz vperms k
             else Process_HeapAllocate ops p addr0 sz vperms MS_Private False k)
      | Some MEMOP_MAP \<Rightarrow> map_option (map_prod (\<lambda>r. (r, None)) id) (Process_Map p addr0 addr1 sz vperms False k)
      | Some MEMOP_UNMAP \<Rightarrow> map_option (map_prod (\<lambda>r. (r, None)) id) (Process_Unmap p addr0 addr1 sz vperms False k)
      | Some MEMOP_PROTECT \<Rightarrow>
          map_option (\<lambda>(r, m). ((r, None), set_vm p m k)) (ReprotectRange (kcached k) addr0 sz vperms (vm_of k p))
      | None \<Rightarrow> Some ((ResultInvalidCombination, None), k))"

record MemoryInfo =
  mi_base_address :: nat
  mi_size :: nat
  mi_permission :: nat
  mi_state :: nat

fun state_code :: "MemoryState \<Rightarrow> nat" where
  "state_code MS_Free = 0" | "state_code MS_Reserved = 1" | "state_code MS_IO = 2" | "state_code MS_Static = 3"
| "state_code MS_Code = 4" | "state_code MS_Private = 5" | "state_code MS_Shared = 6" | "state_code MS_Continuous = 7"
| "state_code MS_Aliased = 8" | "state_code MS_Alias = 9" | "state_code MS_AliasCode = 10" | "state_code MS_Locked = 11"

definition same_info :: "VirtualMemoryArea \<Rightarrow> VirtualMemoryArea \<Rightarrow> bool" where
  "same_info v w \<longleftrightarrow> permissions w = permissions v \<and> meminfo_state w = meminfo_state v"

text \<open>The two searches start at the area of the address and go down and up to the first area that differs.\<close>

definition QueryProcessMemory :: "handle \<Rightarrow> nat \<Rightarrow> kernel \<Rightarrow> MemoryInfo result_val option" where
  "QueryProcessMemory h addr k =
     (case get_object HProcess h k of
        None \<Rightarrow> Some (Inl ResultInvalidHandle)
      | Some p \<Rightarrow> do {
          let l = vma_map (vm_of k p);
          i \<leftarrow> FindVMA addr l;
          if i = length l then Some (Inl ResultInvalidAddress)
          else do {
            let lower = l ! (i - length (takeWhile (same_info (l ! i)) (rev (take i l))));
            let upper = l ! (i + length (takeWhile (same_info (l ! i)) (drop i l)) - 1);
            Some (Inr \<lparr>mi_base_address = vbase lower, mi_size = sub_u32 (wrap_u32 (vbase upper + vsize upper)) (vbase lower),
                       mi_permission = unat (permissions (l ! i)), mi_state = state_code (meminfo_state (l ! i))\<rparr>)
          }
        })"

definition QueryMemory :: "nat \<Rightarrow> kernel \<Rightarrow> MemoryInfo result_val option" where
  "QueryMemory = QueryProcessMemory CurrentProcess"

definition ConvertVaToPa :: "nat \<Rightarrow> kernel \<Rightarrow> nat option" where
  "ConvertVaToPa addr k = do {
     let l = vma_map (vm_of k (current_process k));
     i \<leftarrow> FindVMA addr l;
     if i = length l \<or> vtype (l ! i) \<noteq> BackingMemory then Some 0
     else do {
       off \<leftarrow> GetFCRAMOffset (memory k) (GetPtr (backing_memory (l ! i)) + addr - vbase (l ! i));
       Some (wrap_u32 (off + FCRAM_PADDR))
     }
   }"


section \<open>Shared memory\<close>

definition PROCESS_IMAGE_VADDR :: nat where "PROCESS_IMAGE_VADDR = 0x00100000"

definition SVC_MapMemoryBlock :: "handle \<Rightarrow> nat \<Rightarrow> u32 \<Rightarrow> u32 \<Rightarrow> kernel \<Rightarrow> (result \<times> kernel) option" where
  "SVC_MapMemoryBlock h addr perms others k =
     (case get_object HSharedMemory h k of
        None \<Rightarrow> Some (ResultInvalidHandle, k)
      | Some s \<Rightarrow>
          if perms \<in> {1, 2, 3, 4, 5, 6, 7, DontCare} then SharedMemory_Map s (current_process k) addr perms others k
          else Some (ResultInvalidCombination, k))"

definition SVC_UnmapMemoryBlock :: "handle \<Rightarrow> nat \<Rightarrow> kernel \<Rightarrow> (result \<times> kernel) option" where
  "SVC_UnmapMemoryBlock h addr k =
     (case get_object HSharedMemory h k of
        None \<Rightarrow> Some (ResultInvalidHandle, k)
      | Some s \<Rightarrow> SharedMemory_Unmap s (current_process k) addr k)"

definition VerifyPermissions :: "u32 \<Rightarrow> bool" where
  "VerifyPermissions perm \<longleftrightarrow> perm \<in> {0, 1, 2, 3, DontCare}"

definition SVC_CreateMemoryBlock ::
  "icl \<Rightarrow> nat \<Rightarrow> nat \<Rightarrow> u32 \<Rightarrow> u32 \<Rightarrow> kernel \<Rightarrow> (handle result_val \<times> kernel) option" where
  "SVC_CreateMemoryBlock ops addr sz mine others k =
     (if sz mod CITRA_PAGE_SIZE \<noteq> 0 then Some (Inl ResultMisalignedSize, k)
      else if \<not> VerifyPermissions mine then Some (Inl ResultInvalidCombination, k)
      else if \<not> VerifyPermissions others then Some (Inl ResultInvalidCombination, k)
      else if (addr < PROCESS_IMAGE_VADDR \<or> wrap_u32 (addr + sz) > SHARED_MEMORY_VADDR_END) \<and> addr \<noteq> 0
        then Some (Inl ResultInvalidAddress, k)
      else reserve_and_create RSharedMemory OutOfSharedMems (\<lambda>k. do {
        let p = current_process k;
        region \<leftarrow> (if addr = 0 \<and> odd (process_flags (processes k p) div 2 ^ 6) then flags_region (process_flags (processes k p))
                   else Some BASE);
        (r, k1) \<leftarrow> CreateSharedMemory ops (Some p) sz mine others addr region k;
        Some (case r of
            Inl e \<Rightarrow> (Inl e, k1)
          | Inr s \<Rightarrow> (Inr (OSharedMemory s, \<lambda>k. delete_SharedMemory ops (shared_memories k s) k), k1))
      }) k)"


section \<open>Processes\<close>

definition SVC_ExitProcess :: "kernel \<Rightarrow> kernel option" where
  "SVC_ExitProcess k = TerminateProcess (current_process k) k"

definition SVC_TerminateProcess :: "handle \<Rightarrow> kernel \<Rightarrow> (result \<times> kernel) option" where
  "SVC_TerminateProcess h = on_object HProcess h TerminateProcess"

text \<open>The sizes that the two calls on memory of another process accept are rounded up to pages.\<close>

definition round_up :: "nat \<Rightarrow> nat" where
  "round_up sz = (if sz mod CITRA_PAGE_SIZE \<noteq> 0 then wrap_u32 (sz - sz mod CITRA_PAGE_SIZE + CITRA_PAGE_SIZE) else sz)"

definition linear_area :: "nat \<Rightarrow> VMManager \<Rightarrow> VirtualMemoryArea option option" where
  "linear_area addr m = do {
     i \<leftarrow> FindVMA addr (vma_map m);
     Some (if i < length (vma_map m) \<and> vtype (vma_map m ! i) = BackingMemory \<and> meminfo_state (vma_map m ! i) = MS_Continuous
           then Some (vma_map m ! i) else None)
   }"

definition perm_ReadWriteExecute :: VMAPermission where "perm_ReadWriteExecute = 1 OR 2 OR 4"

definition MapProcessMemoryEx :: "handle \<Rightarrow> nat \<Rightarrow> handle \<Rightarrow> nat \<Rightarrow> nat \<Rightarrow> kernel \<Rightarrow> (result \<times> kernel) option" where
  "MapProcessMemoryEx dst_handle dst_address src_handle src_address sz k =
     (case (get_object HProcess dst_handle k, get_object HProcess src_handle k) of
        (Some dst, Some src) \<Rightarrow> do {
          let n = round_up sz;
          area \<leftarrow> linear_area src_address (vm_of k src);
          case area of
            None \<Rightarrow> Some (ResultInvalidAddress, k)
          | Some v \<Rightarrow> do {
              let offset = sub_u32 src_address (vbase v);
              if \<not> wrap_u32 (offset + n) \<le> vsize v then Some (ResultInvalidAddress, k)
              else do {
                let ptr = GetPtr (backing_memory v) + offset;
                assert_opt (fcram (memory k) \<le> ptr);
                ref \<leftarrow> GetFCRAMRef (memory k) (ptr - fcram (memory k));
                (r, m) \<leftarrow> MapBackingMemory (kcached k) dst_address ref n MS_Continuous (vm_of k dst);
                case r of
                  Inl e \<Rightarrow> Some (ResultInvalidAddressState, set_vm dst m k)
                | Inr i \<Rightarrow> do {
                    (m1, _) \<leftarrow> Reprotect (kcached k) perm_ReadWriteExecute i m;
                    Some (ResultSuccess, set_vm dst m1 k)
                  }
              }
            }
        }
      | _ \<Rightarrow> Some (ResultInvalidHandle, k))"

definition UnmapProcessMemoryEx :: "handle \<Rightarrow> nat \<Rightarrow> nat \<Rightarrow> kernel \<Rightarrow> (result \<times> kernel) option" where
  "UnmapProcessMemoryEx h dst_address sz k =
     (case get_object HProcess h k of
        None \<Rightarrow> Some (ResultInvalidHandle, k)
      | Some p \<Rightarrow> do {
          area \<leftarrow> linear_area dst_address (vm_of k p);
          case area of
            None \<Rightarrow> Some (ResultInvalidAddress, k)
          | Some v \<Rightarrow> do {
              (_, m) \<leftarrow> UnmapRange (kcached k) dst_address (round_up sz) (vm_of k p);
              Some (ResultSuccess, set_vm p m k)
            }
        })"


text \<open>
  Making all memory of a process accessible.  The loop keeps an iterator to the area it changes; when the change merges
  the area into the one before it the iterator refers to an erased element, which the loop then uses.  The loop goes to a later area
  each time, so as many iterations as there are areas, and one more, are enough.
\<close>

fun rwx_loop :: "(nat \<Rightarrow> bool) \<Rightarrow> nat \<Rightarrow> nat \<Rightarrow> VMManager \<Rightarrow> VMManager option" where
  "rwx_loop cached 0 i m = None"
| "rwx_loop cached (Suc n) i m =
     (if i < length (vma_map m) then
        if meminfo_state (vma_map m ! i) = MS_Free then rwx_loop cached n (i + 1) m
        else do {
          (m1, j) \<leftarrow> Reprotect cached perm_ReadWriteExecute i m;
          assert_opt (j = i);
          rwx_loop cached n (i + 1) m1
        }
      else Some m)"

definition schedule_threads :: "nat \<Rightarrow> nat \<Rightarrow> nat \<Rightarrow> nat \<Rightarrow> kernel \<Rightarrow> kernel option" where
  "schedule_threads p lock magic t k =
     (if owner_process (threads k t) \<noteq> Some p then Some k
      else do {
        (x, k1) \<leftarrow> Read32 (tls_address (threads k t)) k;
        if x = magic then Some k1
        else do {
          cur \<leftarrow> GetCurrentThread k1;
          Some (if thread_id (threads k1 t) = thread_id (threads k1 cur) then k1
                else upd_thread t (\<lambda>th. th\<lparr>can_schedule := lock = 0\<rparr>) k1)
        }
      })"

text \<open>The event that tells of changes of the memory layout belongs to the plugin loader, which is an argument.\<close>

definition ControlProcess ::
  "(kernel \<Rightarrow> (handle result_val \<times> kernel)) option \<Rightarrow> handle \<Rightarrow> nat \<Rightarrow> nat \<Rightarrow> nat \<Rightarrow> kernel \<Rightarrow> (result \<times> kernel) option" where
  "ControlProcess plgldr h op varg2 varg3 k =
     (case get_object HProcess h k of
        None \<Rightarrow> Some (ResultInvalidHandle, k)
      | Some p \<Rightarrow>
          if op = 1 then map_option (\<lambda>m. (ResultSuccess, set_vm p m k)) (rwx_loop (kcached k) (length (vma_map (vm_of k p)) + 1) 0 (vm_of k p))
          else if op = 2 then
            case plgldr of
              None \<Rightarrow> Some (ResultNotFound, k)
            | Some f \<Rightarrow>
                (case f k of
                   (Inl e, k1) \<Rightarrow> Some (e, k1)
                 | (Inr e, k1) \<Rightarrow> map_option (Pair ResultSuccess) (Write32 varg2 (unat e) k1))
          else if op = 6 then
            map_option (Pair ResultSuccess) (fold_opt (schedule_threads p varg2 varg3)
              (concat (map (\<lambda>c. thread_list (thread_managers k c)) [0..<num_cores k])) k)
          else if op = 7 then Some (ResultSuccess, upd_process p (\<lambda>pr. pr\<lparr>no_thread_restrictions := (varg2 = 1)\<rparr>) k)
          else Some (ResultNotImplemented, k))"

fun list_processes :: "nat list \<Rightarrow> nat \<Rightarrow> int \<Rightarrow> int \<Rightarrow> kernel \<Rightarrow> (int \<times> kernel) option" where
  "list_processes [] out array_count n k = Some (n, k)"
| "list_processes (p # ps) out array_count n k =
     (if n \<ge> array_count then Some (n, k)
      else Option.bind (Write32 (wrap_u32 (out + 4 * nat n)) (process_id (processes k p)) k)
             (list_processes ps out array_count (n + 1)))"

definition GetProcessList :: "nat \<Rightarrow> int \<Rightarrow> kernel \<Rightarrow> (int result_val \<times> kernel) option" where
  "GetProcessList out array_count k =
     (if \<not> IsValidVirtualAddress (page_table (vm_of k (current_process k))) out then Some (Inl ResultInvalidPointer, k)
      else map_option (map_prod Inr id) (list_processes (process_list k) out array_count 0 k))"


section \<open>Resource limits\<close>

definition Read64 :: "nat \<Rightarrow> kernel \<Rightarrow> (nat \<times> kernel) option" where
  "Read64 addr k = do {
     p \<leftarrow> current_page_table k;
     (x, ms) \<leftarrow> Read 8 addr (page_table (vm_of k p)) (memory k);
     Some (x, k\<lparr>memory := ms\<rparr>)
   }"

definition Write64 :: "nat \<Rightarrow> nat \<Rightarrow> kernel \<Rightarrow> kernel option" where
  "Write64 addr x k = do {
     p \<leftarrow> current_page_table k;
     ms \<leftarrow> Write 8 addr x (page_table (vm_of k p)) (memory k);
     Some (k\<lparr>memory := ms\<rparr>)
   }"

definition SVC_GetResourceLimit :: "handle \<Rightarrow> kernel \<Rightarrow> (handle result_val \<times> kernel) option" where
  "SVC_GetResourceLimit h k =
     (case get_object HProcess h k of
        None \<Rightarrow> Some (Inl ResultInvalidHandle, k)
      | Some p \<Rightarrow> create_handle (OResourceLimit (resource_limit (processes k p))) Some k)"

text \<open>One value of the two calls that report values; only one of them checks the name.\<close>

definition report_value ::
  "(ResourceLimit \<Rightarrow> nat \<Rightarrow> int option) \<Rightarrow> bool \<Rightarrow> nat \<Rightarrow> nat \<Rightarrow> nat \<Rightarrow> nat \<Rightarrow> kernel \<Rightarrow> (result \<times> kernel) option" where
  "report_value get checked values limit names i k = do {
     (name, k1) \<leftarrow> Read32 (wrap_u32 (names + 4 * i)) k;
     if checked \<and> \<not> name < type_index RMax then Some (ResultInvalidEnumValue, k1)
     else do {
       v \<leftarrow> get (resource_limits k1 limit) name;
       k2 \<leftarrow> Write64 (wrap_u32 (values + 8 * i)) (nat (v mod 2 ^ 64)) k1;
       Some (ResultSuccess, k2)
     }
   }"

text \<open>A loop over indices that an error ends.\<close>

fun try_loop :: "(nat \<Rightarrow> kernel \<Rightarrow> (result \<times> kernel) option) \<Rightarrow> nat list \<Rightarrow> kernel \<Rightarrow> (result \<times> kernel) option" where
  "try_loop f [] k = Some (ResultSuccess, k)"
| "try_loop f (i # is) k = do {
     (r, k1) \<leftarrow> f i k;
     if r \<noteq> ResultSuccess then Some (r, k1) else try_loop f is k1
   }"

definition GetResourceLimitCurrentValues :: "nat \<Rightarrow> handle \<Rightarrow> nat \<Rightarrow> nat \<Rightarrow> kernel \<Rightarrow> (result \<times> kernel) option" where
  "GetResourceLimitCurrentValues values h names name_count k =
     (case get_object HResourceLimit h k of
        None \<Rightarrow> Some (ResultInvalidHandle, k)
      | Some l \<Rightarrow> try_loop (report_value GetCurrentValue False values l names) [0..<name_count] k)"

definition GetResourceLimitLimitValues :: "nat \<Rightarrow> handle \<Rightarrow> nat \<Rightarrow> nat \<Rightarrow> kernel \<Rightarrow> (result \<times> kernel) option" where
  "GetResourceLimitLimitValues values h names name_count k =
     (case get_object HResourceLimit h k of
        None \<Rightarrow> Some (ResultInvalidHandle, k)
      | Some l \<Rightarrow> try_loop (report_value GetLimitValue True values l names) [0..<name_count] k)"

text \<open>The upper half of a commit limit goes to the word at offset \<open>0x40\<close> of the configuration memory.\<close>

definition set_limit_value :: "nat \<Rightarrow> nat \<Rightarrow> nat \<Rightarrow> nat \<Rightarrow> kernel \<Rightarrow> (result \<times> kernel) option" where
  "set_limit_value limit names resource_list i k = do {
     (name, k1) \<leftarrow> Read32 (wrap_u32 (names + 4 * i)) k;
     if \<not> name < type_index RMax then Some (ResultInvalidEnumValue, k1)
     else do {
       (x, k2) \<leftarrow> Read64 (wrap_u32 (resource_list + 8 * i)) k1;
       let high = wrap_s32 (int (x div 2 ^ 32));
       if \<not> high \<ge> 0 then Some (ResultOutOfRangeKernel, k2)
       else do {
         let k3 = (if name = type_index RCommit \<and> high \<noteq> 0
                   then k2\<lparr>memory := host_write (config_mem_ptr k2 + 0x40) (bytes_of 4 (nat high)) (memory k2)\<rparr> else k2);
         r \<leftarrow> SetLimitValue name (wrap_s32 (int x)) (resource_limits k3 limit);
         Some (ResultSuccess, k3\<lparr>resource_limits := (resource_limits k3)(limit := r)\<rparr>)
       }
     }
   }"

definition SetResourceLimitLimitValues :: "handle \<Rightarrow> nat \<Rightarrow> nat \<Rightarrow> nat \<Rightarrow> kernel \<Rightarrow> (result \<times> kernel) option" where
  "SetResourceLimitLimitValues h names resource_list name_count k =
     (case get_object HResourceLimit h k of
        None \<Rightarrow> Some (ResultInvalidHandle, k)
      | Some l \<Rightarrow> try_loop (set_limit_value l names resource_list) [0..<name_count] k)"



section \<open>Information\<close>

text \<open>A call that reports information gives its result and, where it sets it, the output.\<close>

definition GetProcessInfo :: "string \<Rightarrow> handle \<Rightarrow> nat \<Rightarrow> kernel \<Rightarrow> (result \<times> int option) option" where
  "GetProcessInfo name h ty k =
     (case get_object HProcess h k of
        None \<Rightarrow> Some (ResultInvalidHandle, None)
      | Some p \<Rightarrow>
          let pr = processes k p; seg = cs_segments (codeset pr) in
          if ty = 0 \<or> ty = 2 then
            Some (if memory_used pr mod CITRA_PAGE_SIZE \<noteq> 0 then ResultMisalignedSize else ResultSuccess, Some (int (memory_used pr)))
          else if ty \<in> {1, 3, 4, 5, 6, 7, 8} then Some (ResultSuccess, None)
          else if ty = 20 then Some (ResultSuccess, Some (int (sub_u32 FCRAM_PADDR (GetLinearHeapAreaAddress pr))))
          else if ty \<in> {21, 22, 23} then Some (ResultNotImplemented, None)
          else if ty = 0x10000 then
            Some (ResultSuccess, Some (wrap_s64 (int (of_bytes (take 8 (map of_char (takeWhile (\<lambda>c. c \<noteq> CHR 0x00) name) @ replicate 8 0))))))
          else if ty = 0x10001 then Some (ResultSuccess, Some (wrap_s64 (int (program_id pr))))
          else if 0x10002 \<le> ty \<and> ty \<le> 0x10004 then
            do { assert_opt (ty - 0x10002 < length seg); Some (ResultSuccess, Some (int (snd (snd (seg ! (ty - 0x10002)))))) }
          else if 0x10005 \<le> ty \<and> ty \<le> 0x10007 then
            do { assert_opt (ty - 0x10005 < length seg); Some (ResultSuccess, Some (int (fst (snd (seg ! (ty - 0x10005)))))) }
          else Some (ResultInvalidEnumValue, None))"

definition GetThreadInfo :: "handle \<Rightarrow> nat \<Rightarrow> kernel \<Rightarrow> int result_val" where
  "GetThreadInfo h ty k =
     (case get_object HThread h k of
        None \<Rightarrow> Inl ResultInvalidHandle
      | Some t \<Rightarrow> if ty = 0x10000 then Inr (int (tls_address (threads k t))) else Inl ResultInvalidEnumValue)"

text \<open>The reference count of an object is not part of the state; it is an argument.\<close>

definition GetHandleInfo :: "(kobj \<Rightarrow> int) \<Rightarrow> handle \<Rightarrow> nat \<Rightarrow> kernel \<Rightarrow> int result_val" where
  "GetHandleInfo use_count h ty k =
     (case lookup_handle h k of
        None \<Rightarrow> Inl ResultInvalidHandle
      | Some ob \<Rightarrow>
          if ty = 0 then Inr (case ob of OProcess p \<Rightarrow> wrap_s64 (creation_time_ticks (processes k p)) | _ \<Rightarrow> 0)
          else if ty = 1 then Inr (use_count ob - 1)
          else if ty = 2 \<or> ty = 0x32107 then Inr 0
          else Inl ResultInvalidEnumValue)"

text \<open>The strings that describe the build come from the build system and are an argument: name, version, date, branch and description.\<close>

definition CopyStringPart :: "u8 list \<Rightarrow> string \<Rightarrow> nat \<Rightarrow> nat \<Rightarrow> u8 list" where
  "CopyStringPart out inp offset max_length =
     (if offset < length inp
      then take (max_length - 1) (map of_char (drop offset inp) @ replicate (max_length - 1) 0) @ [0]
      else out[0 := 0])"

definition build_info :: "string \<times> string \<times> string \<times> string \<times> string \<Rightarrow> int \<Rightarrow> (string \<times> nat) option" where
  "build_info = (\<lambda>(name, version, date, branch, desc) param.
     map_of [(10, (name, 0)), (11, (version, 0)), (20, (date, 0)), (21, (date, 7)), (22, (date, 14)), (23, (date, 21)),
             (30, (branch, 0)), (31, (branch, 7)), (40, (desc, 0)), (41, (desc, 7))] param)"

definition GetSystemInfo ::
  "string \<times> string \<times> string \<times> string \<times> string \<Rightarrow> u8 list \<Rightarrow> nat \<Rightarrow> int \<Rightarrow> kernel \<Rightarrow> result \<times> int" where
  "GetSystemInfo build out ty param k =
     (let used_of = (\<lambda>r. region_used (memory_regions k (GetMemoryRegion r))) in
      if ty = 0 then (ResultSuccess,
        if param = 0 then int (wrap_u32 (used_of APPLICATION + used_of SYSTEM + used_of BASE))
        else if param = 1 then int (used_of APPLICATION)
        else if param = 2 then int (used_of SYSTEM)
        else if param = 3 then int (used_of BASE) else 0)
      else if ty = 26 then (ResultSuccess, 5)
      else if ty = 0x10001 then (if num_cores k = 4 then ResultSuccess else ResultInvalidEnumValue, 0)
      else if ty = 0x20000 then (ResultSuccess,
        if param = 0 then 1
        else case build_info build param of
            None \<Rightarrow> 0
          | Some (str, offset) \<Rightarrow> wrap_s64 (int (of_bytes (CopyStringPart out str offset 8))))
      else (ResultSuccess, 0))"



section \<open>Querying memory\<close>

text \<open>The run of equal areas around one area.\<close>

lemma run_around:
  fixes l :: "'a list"
  assumes "i < length l" "P (l ! i)"
  defines "lo \<equiv> i - length (takeWhile P (rev (take i l)))" and "hi \<equiv> i + length (takeWhile P (drop i l)) - 1"
  shows "\<exists>xs ys zs. l = xs @ ys @ zs \<and> length xs = lo \<and> length xs + length ys = hi + 1 \<and> lo \<le> i \<and> i \<le> hi \<and> (\<forall>v \<in> set ys. P v) \<and>
    (xs = [] \<or> \<not> P (last xs)) \<and> (zs = [] \<or> \<not> P (hd zs))"
proof -
  define b where "b = takeWhile P (rev (take i l))"
  define c where "c = takeWhile P (drop i l)"
  let ?xs = "rev (dropWhile P (rev (take i l)))" and ?zs = "dropWhile P (drop i l)"
  have t: "take i l = ?xs @ rev b"
    unfolding b_def by (metis rev_append rev_rev_ident takeWhile_dropWhile_id)
  have d: "drop i l = c @ ?zs" unfolding c_def by simp
  have l: "l = ?xs @ (rev b @ c) @ ?zs" using t d by (metis append_assoc append_take_drop_id)
  have lt: "length ?xs + length b = i" using t assms(1) by (metis length_append length_rev length_take min.absorb4)
  have c0: "c \<noteq> []" using assms(1,2) unfolding c_def by (metis Cons_nth_drop_Suc list.distinct(1) takeWhile.simps(2))
  have lo: "length ?xs = lo" using lt unfolding lo_def b_def by simp
  have hi: "hi + 1 = i + length c" using c0 unfolding hi_def c_def by (cases "takeWhile P (drop i l)") simp_all
  have "length ?xs + length (rev b @ c) = hi + 1" using lt hi by simp
  moreover have "\<forall>v \<in> set (rev b @ c). P v" unfolding b_def c_def by (auto dest: set_takeWhileD)
  moreover have "?xs = [] \<or> \<not> P (last ?xs)" using hd_dropWhile [of P "rev (take i l)"] by (auto simp: last_rev)
  moreover have "?zs = [] \<or> \<not> P (hd ?zs)" using hd_dropWhile [of P "drop i l"] by auto
  moreover have "lo \<le> i" "i \<le> hi" using hi c0 unfolding lo_def by (simp_all, cases c, auto)
  ultimately show ?thesis using l lo by (intro exI [of _ ?xs] exI [of _ "rev b @ c"] exI [of _ ?zs]) simp
qed

definition page_info :: "page \<Rightarrow> VMAPermission \<times> MemoryState" where
  "page_info p = (fst (snd p), fst (snd (snd p)))"

abbreviation area_info :: "VirtualMemoryArea \<Rightarrow> VMAPermission \<times> MemoryState" where
  "area_info v \<equiv> (permissions v, meminfo_state v)"

lemma same_info_iff: "same_info v w \<longleftrightarrow> area_info w = area_info v"
  by (auto simp: same_info_def)

lemma page_attrs_info: "p \<in> set (page_attrs v) \<Longrightarrow> page_info p = area_info v"
  by (auto simp: page_attrs_def page_info_def)

lemma pages_info: "p \<in> set (pages l) \<Longrightarrow> \<exists>v \<in> set l. page_info p = area_info v"
  using page_attrs_info by (induction l) fastforce+

lemma page_attrs_some: "vma_ok H v \<Longrightarrow> page_attrs v \<noteq> []"
  using vma_has_page [of H v] by auto

text \<open>The first and the last page of a chain of areas.\<close>

lemma pages_ends:
  assumes "chain H a l b" "l \<noteq> []"
  shows "pages l \<noteq> []" "page_info (pages l ! 0) = area_info (hd l)" "page_info (pages l ! (length (pages l) - 1)) = area_info (last l)"
proof -
  have ok: "page_attrs v \<noteq> []" if "v \<in> set l" for v using chain_bases [OF assms(1) that] page_attrs_some by blast
  obtain v ys where l: "l = v # ys" using assms(2) by (cases l) auto
  have "0 < length (page_attrs v)" using ok [of v] l by (simp only: length_greater_0_conv) simp
  then show "pages l \<noteq> []" "page_info (pages l ! 0) = area_info (hd l)"
    using page_attrs_info [OF nth_mem, of 0 v] by (auto simp: l nth_append simp del: page_attrs_length)
  obtain xs w where r: "l = xs @ [w]" using assms(2) by (metis append_butlast_last_id)
  have n: "page_attrs w \<noteq> []" using ok [of w] r by simp
  then have "last (pages l) \<in> set (page_attrs w)" by (simp add: r)
  then have "page_info (last (pages l)) = area_info w" by (rule page_attrs_info)
  moreover have "pages l \<noteq> []" using n by (simp add: r)
  ultimately show "page_info (pages l ! (length (pages l) - 1)) = area_info (last l)" by (simp add: r last_conv_nth)
qed

lemma chain_last: "chain H a l b \<Longrightarrow> l \<noteq> [] \<Longrightarrow> vbase (last l) + vsize (last l) = b"
  by (induction l arbitrary: a) auto

lemma state_code_inj: "state_code a = state_code b \<longleftrightarrow> a = b"
  by (cases a; cases b) simp_all

text \<open>What is reported for an area, as numbers.\<close>

definition info_codes :: "VMAPermission \<times> MemoryState \<Rightarrow> nat \<times> nat" where
  "info_codes = (\<lambda>(q, st). (unat q, state_code st))"

lemma info_codes_inj: "info_codes x = info_codes y \<longleftrightarrow> x = y"
  by (cases x; cases y) (simp add: info_codes_def state_code_inj word_unat_eq_iff)

lemma chain_pages_div:
  assumes "chain H a l b" "CITRA_PAGE_SIZE dvd a"
  shows "length (pages l) = b div CITRA_PAGE_SIZE - a div CITRA_PAGE_SIZE"
proof -
  obtain x where x: "a = CITRA_PAGE_SIZE * x" using assms(2) by blast
  have "b = CITRA_PAGE_SIZE * (x + length (pages l))"
    using chain_pages_length [OF assms(1)] chain_le [OF assms(1)] x by (simp add: algebra_simps)
  then show ?thesis using x by simp
qed

lemma run_pages:
  assumes ch: "chain H 0 xs a" "chain H a ys b" "chain H b zs MAX_ADDRESS" and ys: "\<forall>w \<in> set ys. area_info w = q"
    and xs: "xs = [] \<or> area_info (last xs) \<noteq> q" and zs: "zs = [] \<or> area_info (hd zs) \<noteq> q"
    and j: "j < MAX_ADDRESS div CITRA_PAGE_SIZE"
  shows "in_range a (b - a) j \<Longrightarrow> page_info (pages (xs @ ys @ zs) ! j) = q"
    "Suc j = a div CITRA_PAGE_SIZE \<Longrightarrow> page_info (pages (xs @ ys @ zs) ! j) \<noteq> q"
    "j = b div CITRA_PAGE_SIZE \<Longrightarrow> page_info (pages (xs @ ys @ zs) ! j) \<noteq> q"
proof -
  let ?P = CITRA_PAGE_SIZE
  have le: "a \<le> b" "b \<le> MAX_ADDRESS" using ch chain_le by blast+
  have len: "length (pages xs) = a div ?P" "length (pages ys) = b div ?P - a div ?P" "length (pages zs) = MAX_ADDRESS div ?P - b div ?P"
    using chain_pages_div [OF ch(1)] chain_pages_div [OF ch(2)] chain_pages_div [OF ch(3)]
      chain_aligned [OF ch(1)] chain_aligned [OF ch(2)] by simp_all
  show "page_info (pages (xs @ ys @ zs) ! j) = q" if "in_range a (b - a) j"
  proof -
    have "a div ?P \<le> j" "j < b div ?P" using that le(1) by (simp_all add: in_range_def)
    moreover from this have "j - a div ?P < b div ?P - a div ?P" by (intro diff_less_mono)
    ultimately have "pages (xs @ ys @ zs) ! j = pages ys ! (j - a div ?P)" "j - a div ?P < length (pages ys)"
      using len by (simp_all add: nth_append)
    then have "pages (xs @ ys @ zs) ! j \<in> set (pages ys)" by simp
    then show ?thesis using pages_info ys by metis
  qed
  show "page_info (pages (xs @ ys @ zs) ! j) \<noteq> q" if "Suc j = a div ?P"
  proof -
    have "pages (xs @ ys @ zs) ! j = pages xs ! (length (pages xs) - 1)" "xs \<noteq> []" using len(1) that [symmetric] by (auto simp: nth_append)
    then show ?thesis using pages_ends(3) [OF ch(1)] xs by simp
  qed
  show "page_info (pages (xs @ ys @ zs) ! j) \<noteq> q" if "j = b div ?P"
  proof -
    have "a div ?P \<le> b div ?P" using le(1) by (rule div_le_mono)
    then have "pages (xs @ ys @ zs) ! j = pages zs ! 0" "zs \<noteq> []" using len that j by (auto simp: nth_append)
    then show ?thesis using pages_ends(2) [OF ch(3)] zs by simp
  qed
qed

text \<open>C39: Querying memory.  For an address beyond the address space the call reports an invalid address.  For every other address it reports
  a range of whole pages around it in which all pages have the permissions and the state of the page of the address, and
  which is as large as possible: the pages before and after it, if there are any, differ.\<close>

theorem query_memory_maximal:
  fixes addr :: nat
  assumes "vm_inv H F cached (vm_of k p)" and "get_object HProcess h k = Some p"
  shows "if addr \<ge> MAX_ADDRESS then QueryProcessMemory h addr k = Some (Inl ResultInvalidAddress)
    else \<exists>info. QueryProcessMemory h addr k = Some (Inr info) \<and> CITRA_PAGE_SIZE dvd mi_base_address info \<and> CITRA_PAGE_SIZE dvd mi_size info \<and>
      mi_base_address info \<le> addr \<and> addr < mi_base_address info + mi_size info \<and> mi_base_address info + mi_size info \<le> MAX_ADDRESS \<and>
      (\<forall>j < MAX_ADDRESS div CITRA_PAGE_SIZE.
         (in_range (mi_base_address info) (mi_size info) j \<longrightarrow>
            info_codes (page_info (pages (vma_map (vm_of k p)) ! j)) = (mi_permission info, mi_state info)) \<and>
         (Suc j = mi_base_address info div CITRA_PAGE_SIZE \<or> j = (mi_base_address info + mi_size info) div CITRA_PAGE_SIZE \<longrightarrow>
            info_codes (page_info (pages (vma_map (vm_of k p)) ! j)) \<noteq> (mi_permission info, mi_state info)))"
proof (cases "addr \<ge> MAX_ADDRESS")
  case True
  then show ?thesis using assms(2) by (simp add: QueryProcessMemory_def FindVMA_def)
next
  case False
  let ?l = "vma_map (vm_of k p)" and ?P = CITRA_PAGE_SIZE
  have c: "chain H 0 ?l MAX_ADDRESS" using vm_invD(1) [OF assms(1)] .
  obtain us v ws where v: "?l = us @ v # ws" "vbase v \<le> addr" "addr < vbase v + vsize v"
    using find_area [OF c, of addr] False by auto
  have f: "FindVMA addr ?l = Some (length us)" using FindVMA_eq [of H us v ws addr] c v by simp
  have nth: "?l ! length us = v" "length us < length ?l" using v(1) by simp_all
  let ?S = "same_info v" and ?i = "length us"
  let ?lo = "?i - length (takeWhile ?S (rev (take ?i ?l)))" and ?hi = "?i + length (takeWhile ?S (drop ?i ?l)) - 1"
  have Sv: "?S (?l ! ?i)" unfolding nth(1) by (simp add: same_info_def)
  obtain xs ys zs where r: "?l = xs @ ys @ zs" "length xs = ?lo" "length xs + length ys = ?hi + 1" "?lo \<le> ?i" "?i \<le> ?hi"
    "\<forall>w \<in> set ys. ?S w" "xs = [] \<or> \<not> ?S (last xs)" "zs = [] \<or> \<not> ?S (hd zs)"
    using run_around [where P = ?S, OF nth(2) Sv] by (elim exE conjE) (rule that)
  obtain a b where ch: "chain H 0 xs a" "chain H a ys b" "chain H b zs MAX_ADDRESS" using c r(1) by (auto simp: chain_append)
  have ys: "ys \<noteq> []" using r(2-5) by auto
  have hd: "?l ! ?lo = hd ys" "?l ! ?hi = last ys"
  proof -
    show "?l ! ?lo = hd ys" using ys by (subst r(1)) (simp add: r(2) [symmetric] nth_append hd_conv_nth)
    have "?hi = length xs + (length ys - 1)" using r(3) ys by (cases ys) simp_all
    then show "?l ! ?hi = last ys" using ys by (subst r(1)) (simp add: nth_append last_conv_nth)
  qed
  have vys: "v \<in> set ys"
  proof -
    have "?i - length xs < length ys" "length xs \<le> ?i" using r(2-5) by linarith+
    then have "?l ! ?i = ys ! (?i - length xs)" by (subst r(1)) (simp add: nth_append)
    then show ?thesis using nth(1) \<open>?i - length xs < length ys\<close> nth_mem by metis
  qed
  have le: "a \<le> b" "b \<le> MAX_ADDRESS" using ch chain_le by blast+
  have al: "?P dvd a" "?P dvd b" using chain_aligned [OF ch(1)] chain_aligned [OF ch(2)] by auto
  define info where "info = \<lparr>mi_base_address = a, mi_size = b - a, mi_permission = unat (permissions v), mi_state = state_code (meminfo_state v)\<rparr>"
  have "QueryProcessMemory h addr k = Some (Inr info)"
    using assms(2) f nth(2) chain_hd_base [OF ch(2) ys] chain_last [OF ch(2) ys] le
    by (simp add: QueryProcessMemory_def Let_def nth(1) hd hd(2) [simplified] info_def sub_wrap)
  moreover have "a \<le> addr" "addr < b" using chain_bases [OF ch(2) vys] v(2,3) by auto
  moreover have q: "info_codes x = (unat (permissions v), state_code (meminfo_state v)) \<longleftrightarrow> x = area_info v" for x
    using info_codes_inj [of x "area_info v"] by (simp add: info_codes_def)
  moreover have "\<forall>j < MAX_ADDRESS div ?P. (in_range a (b - a) j \<longrightarrow> page_info (pages ?l ! j) = area_info v) \<and>
      (Suc j = a div ?P \<or> j = b div ?P \<longrightarrow> page_info (pages ?l ! j) \<noteq> area_info v)"
    using run_pages [OF ch, of "area_info v"] r(6-8) unfolding r(1) same_info_iff by blast
  ultimately show ?thesis
    using False le al by (intro iffD2 [OF if_not_P] exI [of _ info]) (simp_all add: info_def)
qed

theorem query_memory_maximal_witness:
  "\<exists>info. QueryProcessMemory CurrentProcess 0x08000123 demo_proc = Some (Inr info) \<and> mi_base_address info \<le> 0x08000123 \<and>
     0x08000123 < mi_base_address info + mi_size info"
proof -
  have "get_object HProcess CurrentProcess demo_proc = Some 0"
    by (simp add: get_object_def lookup_handle_def GetGeneric_def CurrentThread_def CurrentProcess_def DynamicObjectCast_def demo_proc_def
        upd_process_def demo_kernel_def new_KernelSystem_def)
  from query_memory_maximal [OF proc_okD(9) [OF demo_proc_ok] this, of "0x08000123"] show ?thesis
    by (auto simp: MAX_ADDRESS_def)
qed


section \<open>Executable memory\<close>

definition executable :: "nat \<Rightarrow> kernel \<Rightarrow> nat set" where
  "executable p k = {a. \<exists>v \<in> set (vma_map (vm_of k p)). vbase v \<le> a \<and> a < vbase v + vsize v \<and> permissions v AND 4 \<noteq> 0}"

text \<open>All areas lie in the address space and the executable ones in a set of addresses.\<close>

definition fits :: "nat set \<Rightarrow> VirtualMemoryArea \<Rightarrow> bool" where
  "fits E v \<longleftrightarrow> vbase v + vsize v \<le> MAX_ADDRESS \<and> (permissions v AND 4 \<noteq> 0 \<longrightarrow> {vbase v..<vbase v + vsize v} \<subseteq> E)"

definition exec_in :: "nat set \<Rightarrow> VirtualMemoryArea list \<Rightarrow> bool" where
  "exec_in E l \<longleftrightarrow> (\<forall>v \<in> set l. fits E v)"

lemma exec_in_simps [simp]:
  "exec_in E []" "exec_in E (v # l) \<longleftrightarrow> fits E v \<and> exec_in E l" "exec_in E (xs @ ys) \<longleftrightarrow> exec_in E xs \<and> exec_in E ys"
  by (auto simp: exec_in_def)

lemma exec_in_part [simp]: "exec_in E l \<Longrightarrow> exec_in E (take i l)" "exec_in E l \<Longrightarrow> exec_in E (drop i l)"
  by (auto simp: exec_in_def dest: in_set_takeD in_set_dropD)

lemma exec_in_nth: "exec_in E l \<Longrightarrow> i < length l \<Longrightarrow> fits E (l ! i)"
  by (simp add: exec_in_def)

lemma exec_in_update [simp]: "exec_in E l \<Longrightarrow> fits E v \<Longrightarrow> exec_in E (l[i := v])"
  by (auto simp: exec_in_def dest: set_update_subset_insert [THEN subsetD])

lemma fits_parts:
  assumes "fits E v" "off < vsize v"
  shows "fits E (v\<lparr>vsize := off\<rparr>)" "fits E (v\<lparr>vbase := wrap_u32 (vbase v + off), vsize := vsize v - off\<rparr>)"
    "fits E (v\<lparr>vbase := wrap_u32 (vbase v + off), vsize := vsize v - off, backing_memory := b\<rparr>)"
proof -
  have "vbase v + off < 2 ^ 32" using assms by (simp add: fits_def MAX_ADDRESS_def)
  then have "wrap_u32 (vbase v + off) = vbase v + off" by (simp add: wrap_u32_def)
  then show "fits E (v\<lparr>vsize := off\<rparr>)" "fits E (v\<lparr>vbase := wrap_u32 (vbase v + off), vsize := vsize v - off\<rparr>)"
    "fits E (v\<lparr>vbase := wrap_u32 (vbase v + off), vsize := vsize v - off, backing_memory := b\<rparr>)"
    using assms by (fastforce simp: fits_def)+
qed

lemma SplitVMA_exec:
  assumes "SplitVMA i off l = Some (l', j)" "exec_in E l" "i < length l"
  shows "exec_in E l'" "j < length l'" "length l' = length l + 1"
  using assms fits_parts [OF exec_in_nth [OF assms(2,3)]]
  by (auto simp: SplitVMA_def Let_def assert_opt_def split: bind_splits if_splits VMAType.splits)

lemma merged_fits:
  assumes "CanBeMergedWith v w = Some True" "fits E v" "fits E w"
  shows "fits E (v\<lparr>vsize := wrap_u32 (vsize v + vsize w)\<rparr>)"
proof -
  have "wrap_u32 (vbase v + vsize v) = vbase w" "permissions w = permissions v"
    using assms(1) by (auto simp: CanBeMergedWith_def mergeable_def assert_opt_def bind_eq_Some_conv split: if_splits)
  then have e: "vbase w = vbase v + vsize v" using assms(2) by (simp add: fits_def)
  then have "vsize v + vsize w \<le> MAX_ADDRESS" using assms(3) by (simp add: fits_def)
  then have "wrap_u32 (vsize v + vsize w) = vsize v + vsize w" by (simp add: wrap_u32_def MAX_ADDRESS_def)
  moreover have "{vbase v..<vbase v + (vsize v + vsize w)} = {vbase v..<vbase v + vsize v} \<union> {vbase w..<vbase w + vsize w}"
    using ivl_disj_un_two(3) [of "vbase v" "vbase w" "vbase w + vsize w"] e by (simp add: add.assoc)
  ultimately show ?thesis using assms(2,3) e \<open>permissions w = permissions v\<close> by (auto simp: fits_def)
qed

lemma MergeAdjacent_exec:
  assumes "MergeAdjacent i l = Some (l', j)" "exec_in E l" "i < length l"
  shows "exec_in E l'" "j < length l'"
proof -
  obtain l1 where x: "(if i + 1 < length l then do {
              b \<leftarrow> CanBeMergedWith (l ! i) (l ! (i + 1));
              Some (if b then take i l @ [(l ! i)\<lparr>vsize := wrap_u32 (vsize (l ! i) + vsize (l ! (i + 1)))\<rparr>] @ drop (i + 2) l
                    else l)
            } else Some l) = Some l1"
    and r: "(if i > 0 then do {
       b \<leftarrow> CanBeMergedWith (l1 ! (i - 1)) (l1 ! i);
       Some (if b then (take (i - 1) l1 @
                          [(l1 ! (i - 1))\<lparr>vsize := wrap_u32 (vsize (l1 ! (i - 1)) + vsize (l1 ! i))\<rparr>] @ drop (i + 1) l1,
                        i - 1)
             else (l1, i))
     } else Some (l1, i)) = Some (l', j)"
    using assms(1) unfolding MergeAdjacent_def by (simp only: bind_eq_Some_conv) blast
  have p1: "exec_in E l1" "i < length l1"
    using x assms(2,3) exec_in_nth [OF assms(2)] merged_fits [of "l ! i" "l ! (i + 1)" E]
    by (auto simp: bind_eq_Some_conv split: if_splits)
  show "exec_in E l'" "j < length l'"
    using r p1 exec_in_nth [OF p1(1), of "i - 1"] exec_in_nth [OF p1] merged_fits [of "l1 ! (i - 1)" "l1 ! i" E]
    by (auto simp: bind_eq_Some_conv split: if_splits)
qed

lemma upper_bound_le: "upper_bound t l \<le> length l"
  by (simp add: upper_bound_def length_takeWhile_le)

lemma FindVMA_less: "FindVMA t l = Some i \<Longrightarrow> i < length l \<or> t \<ge> MAX_ADDRESS \<and> i = length l"
  using upper_bound_le [of t l] by (auto simp: FindVMA_def split: if_splits)

lemma CarveVMA_exec:
  assumes "CarveVMA base sz l = Some (Inr (l', j))" "exec_in E l"
  shows "exec_in E l'" "j < length l'"
proof -
  let ?s = "\<lambda>i. sub_u32 base (vbase (l ! i))" and ?e = "\<lambda>i. wrap_u32 (sub_u32 base (vbase (l ! i)) + sz)"
  obtain i l1 where i: "i < length l"
    and l1: "(if ?e i \<noteq> vsize (l ! i) then map_option fst (SplitVMA i (?e i) l) else Some l) = Some l1"
    and r: "(if ?s i \<noteq> 0 then map_option Inr (SplitVMA i (?s i) l1) else Some (Inr (l1, i))) = Some (Inr (l', j) :: result + _)"
    using assms(1) FindVMA_less [of base l] unfolding CarveVMA_def Let_def
    by (auto simp: bind_eq_Some_conv assert_opt_def split: if_splits)
  have p1: "exec_in E l1" "i < length l1"
    using l1 assms(2) i SplitVMA_exec [OF _ assms(2) i] by (auto split: if_splits)
  show "exec_in E l'" "j < length l'"
    using r p1 SplitVMA_exec [OF _ p1] by (auto split: if_splits)
qed

lemma CarveVMARange_exec:
  assumes "CarveVMARange target sz l = Some (Inr (l', j))" "exec_in E l" "sz < 2 ^ 32"
  shows "exec_in E l'" "j < length l'"
proof -
  let ?e = "wrap_u32 (target + sz)"
  obtain i l1 i1 j1 where e: "?e \<ge> target" "?e \<le> MAX_ADDRESS" "sz > 0" and i: "FindVMA target l = Some i"
    and l1: "(if target \<noteq> vbase (l ! i) then SplitVMA i (sub_u32 target (vbase (l ! i))) l else Some (l, i)) = Some (l1, i1)"
    and j1: "FindVMA ?e l1 = Some j1" "j = i1"
    and l2: "(if j1 \<noteq> length l1 \<and> ?e \<noteq> vbase (l1 ! j1) then map_option fst (SplitVMA j1 (sub_u32 ?e (vbase (l1 ! j1))) l1)
             else Some l1) = Some l'"
    using assms(1) unfolding CarveVMARange_def Let_def by (auto simp: bind_eq_Some_conv assert_opt_def split: if_splits)
  have "target < MAX_ADDRESS"
  proof (rule ccontr)
    assume "\<not> target < MAX_ADDRESS"
    then have "target = MAX_ADDRESS" "?e = MAX_ADDRESS" using e by simp_all
    then have w: "(MAX_ADDRESS + sz) mod 2 ^ 32 = MAX_ADDRESS" by (simp add: wrap_u32_def)
    show False
    proof (cases "MAX_ADDRESS + sz < 2 ^ 32")
      case True
      then show False using w e(3) by simp
    next
      case over: False
      then have "(MAX_ADDRESS + sz) mod 2 ^ 32 = (MAX_ADDRESS + sz - 2 ^ 32) mod 2 ^ 32" by (intro le_mod_geq) simp
      moreover have "MAX_ADDRESS + sz - 2 ^ 32 < MAX_ADDRESS" "MAX_ADDRESS < 2 ^ 32" using over assms(3) by (simp_all add: MAX_ADDRESS_def)
      ultimately show False using w by simp
    qed
  qed
  then have il: "i < length l" using FindVMA_less [OF i] by auto
  have p1: "exec_in E l1" "i1 < length l1" using l1 assms(2) il SplitVMA_exec [OF _ assms(2) il] by (auto split: if_splits)
  have jl: "j1 \<noteq> length l1 \<Longrightarrow> j1 < length l1" using FindVMA_less [OF j1(1)] by auto
  show "exec_in E l'" "j < length l'"
    using l2 p1 j1(2) SplitVMA_exec [OF _ p1(1) jl] by (auto split: if_splits)
qed

lemma change_vma_exec:
  assumes "change_vma cached f i m = Some (m', j)" "exec_in E (vma_map m)" "i < length (vma_map m)" "fits E (f (vma_map m ! i))"
  shows "exec_in E (vma_map m')" "j < length (vma_map m')"
proof -
  obtain l where l: "MergeAdjacent i ((vma_map m)[i := f (vma_map m ! i)]) = Some (l, j)" "vma_map m' = l"
    using assms(1) by (auto simp: change_vma_def bind_eq_Some_conv Let_def)
  show "exec_in E (vma_map m')" "j < length (vma_map m')"
    using MergeAdjacent_exec [OF l(1), of E] assms(2-4) l(2) by auto
qed

definition keeps_exec :: "nat set \<Rightarrow> (nat \<Rightarrow> VMManager \<Rightarrow> (VMManager \<times> nat) option) \<Rightarrow> bool" where
  "keeps_exec E step \<longleftrightarrow> (\<forall>i m m' j. step i m = Some (m', j) \<longrightarrow> exec_in E (vma_map m) \<longrightarrow> i < length (vma_map m) \<longrightarrow>
     exec_in E (vma_map m') \<and> j < length (vma_map m'))"

lemma keeps_change:
  assumes "\<And>v. vbase (f v) = vbase v \<and> vsize (f v) = vsize v \<and> permissions (f v) AND 4 = 0"
  shows "keeps_exec E (change_vma cached f)"
proof -
  have "fits E (f v)" if "fits E v" for v using that assms by (simp add: fits_def)
  then show ?thesis unfolding keeps_exec_def using change_vma_exec exec_in_nth by blast
qed

lemma keeps_Unmap: "keeps_exec E (Unmap cached)"
  using keeps_change [of free_vma E cached] unfolding keeps_exec_def
  by (auto simp: Unmap_def free_vma_def perm_None_def bind_eq_Some_conv)

lemma keeps_Reprotect: "q AND 4 = 0 \<Longrightarrow> keeps_exec E (Reprotect cached q)"
  using keeps_change [of "\<lambda>v. v\<lparr>permissions := q\<rparr>" E cached] unfolding keeps_exec_def
  by (auto simp: Reprotect_def bind_eq_Some_conv)

lemma range_loop_exec:
  assumes "keeps_exec E step"
  shows "range_loop step e n i m = Some m' \<Longrightarrow> exec_in E (vma_map m) \<Longrightarrow> exec_in E (vma_map m')"
proof (induction n arbitrary: i m)
  case (Suc n)
  show ?case
  proof (cases "i < length (vma_map m) \<and> vbase (vma_map m ! i) < e")
    case True
    then obtain m1 i1 where "step i m = Some (m1, i1)" "range_loop step e n (i1 + 1) m1 = Some m'"
      using Suc.prems(1) by (auto simp: bind_eq_Some_conv)
    then show ?thesis using Suc.IH assms True Suc.prems(2) unfolding keeps_exec_def by blast
  qed (use Suc.prems in auto)
qed simp

lemma on_range_exec:
  assumes "keeps_exec E step" "on_range step target sz m = Some (r, m')" "exec_in E (vma_map m)" "sz < 2 ^ 32"
  shows "exec_in E (vma_map m')"
proof -
  obtain c where c: "CarveVMARange target sz (vma_map m) = Some c" using assms(2) by (auto simp: on_range_def bind_eq_Some_conv)
  show ?thesis
  proof (cases c)
    case (Inl e)
    then show ?thesis using assms(2,3) c by (simp add: on_range_def)
  next
    case (Inr li)
    then obtain l i where li: "c = Inr (l, i)" by (cases li) auto
    then have "range_loop step (wrap_u32 (target + sz)) (length l + 1) i (m\<lparr>vma_map := l\<rparr>) = Some m'"
      using assms(2) c by (auto simp: on_range_def bind_eq_Some_conv)
    then show ?thesis
      by (rule range_loop_exec [OF assms(1)]) (use CarveVMARange_exec(1) [OF c [unfolded li] assms(3,4)] in simp)
  qed
qed

lemma UnmapRange_exec:
  "UnmapRange cached target sz m = Some (r, m') \<Longrightarrow> exec_in E (vma_map m) \<Longrightarrow> sz < 2 ^ 32 \<Longrightarrow> exec_in E (vma_map m')"
  using on_range_exec [OF keeps_Unmap, of cached target sz m]
  by (auto simp: UnmapRange_def bind_eq_Some_conv split: if_splits)

lemma ReprotectRange_exec:
  "ReprotectRange cached target sz q m = Some (r, m') \<Longrightarrow> exec_in E (vma_map m) \<Longrightarrow> sz < 2 ^ 32 \<Longrightarrow> q AND 4 = 0 \<Longrightarrow> exec_in E (vma_map m')"
  using on_range_exec [OF keeps_Reprotect, of q cached target sz m]
  by (auto simp: ReprotectRange_def bind_eq_Some_conv split: if_splits)

lemma ChangeMemoryState_exec:
  "ChangeMemoryState cached target sz s q s' q' m = Some (r, m') \<Longrightarrow> exec_in E (vma_map m) \<Longrightarrow> sz < 2 ^ 32 \<Longrightarrow> q' AND 4 = 0 \<Longrightarrow>
     exec_in E (vma_map m')"
  using on_range_exec [OF keeps_change, of "\<lambda>v. v\<lparr>permissions := q', meminfo_state := s'\<rparr>" cached target sz m r m']
  by (auto simp: ChangeMemoryState_def Let_def bind_eq_Some_conv split: if_splits)

lemma MapBackingMemory_exec:
  assumes "MapBackingMemory cached target ref sz st m = Some (r, m')" "exec_in E (vma_map m)"
  shows "exec_in E (vma_map m')" "r = Inr i \<Longrightarrow> i < length (vma_map m')"
proof -
  obtain c where c: "CarveVMA target sz (vma_map m) = Some c" using assms(1) by (auto simp: MapBackingMemory_def bind_eq_Some_conv split: if_splits)
  have "exec_in E (vma_map m') \<and> (r = Inr i \<longrightarrow> i < length (vma_map m'))"
  proof (cases c)
    case (Inl e)
    then show ?thesis using assms(1,2) c by (auto simp: MapBackingMemory_def bind_eq_Some_conv split: if_splits)
  next
    case (Inr lj)
    then obtain l j where li: "c = Inr (l, j)" by (cases lj) auto
    then obtain i1 where "change_vma cached (\<lambda>v. v\<lparr>vtype := BackingMemory, permissions := perm_ReadWrite, meminfo_state := st,
        backing_memory := ref\<rparr>) j (m\<lparr>vma_map := l\<rparr>) = Some (m', i1)" "r = Inr i1"
      using assms(1) c by (auto simp: MapBackingMemory_def bind_eq_Some_conv split: if_splits)
    moreover have "exec_in E l" "j < length l" using CarveVMA_exec [OF c [unfolded li] assms(2)] .
    moreover have "fits E ((l ! j)\<lparr>vtype := BackingMemory, permissions := perm_ReadWrite, meminfo_state := st, backing_memory := ref\<rparr>)"
      using exec_in_nth [OF calculation(3,4)] by (simp add: fits_def perm_ReadWrite_def)
    ultimately show ?thesis using change_vma_exec [of cached _ j "m\<lparr>vma_map := l\<rparr>" m' i1 E] by auto
  qed
  then show "exec_in E (vma_map m')" "r = Inr i \<Longrightarrow> i < length (vma_map m')" by auto
qed

lemma map_block_exec:
  assumes "map_block cached st q b (t, m) = Some (t', m')" "exec_in E (vma_map m)" "q AND 4 = 0"
  shows "exec_in E (vma_map m')"
proof -
  obtain r m1 i j where r: "MapBackingMemory cached t (fst b) (snd b) st m = Some (r, m1)" "Unwrap r = Some i"
    "Reprotect cached q i m1 = Some (m', j)"
    using assms(1) by (cases b) (auto simp: map_block_def bind_eq_Some_conv)
  then have "r = Inr i" by (cases r) (auto simp: Unwrap_def)
  then show ?thesis
    using keeps_Reprotect [OF assms(3), of E cached] r(3) MapBackingMemory_exec [OF r(1) assms(2)] unfolding keeps_exec_def by blast
qed

lemma map_blocks_exec:
  assumes "q AND 4 = 0"
  shows "fold_opt (map_block cached st q) bs (t, m) = Some (t', m') \<Longrightarrow> exec_in E (vma_map m) \<Longrightarrow> exec_in E (vma_map m')"
proof (induction bs arbitrary: t m)
  case (Cons b bs)
  then obtain t1 m1 where "map_block cached st q b (t, m) = Some (t1, m1)" "fold_opt (map_block cached st q) bs (t1, m1) = Some (t', m')"
    by (auto simp: bind_eq_Some_conv)
  then show ?case using map_block_exec [OF _ Cons.prems(2) assms] Cons.IH by blast
qed simp

text \<open>The same for the operations of a process.\<close>

abbreviation vm_exec :: "nat set \<Rightarrow> nat \<Rightarrow> kernel \<Rightarrow> bool" where
  "vm_exec E p k \<equiv> exec_in E (vma_map (vm_of k p))"

lemma limit_processes:
  "reserve_limit p ty n k = Some (b, k') \<Longrightarrow> processes k' = processes k" "release_limit p ty n k = Some (b, k') \<Longrightarrow> processes k' = processes k"
  by (auto simp: reserve_limit_def release_limit_def Let_def)

lemma set_vm_vm [simp]: "vm_of (set_vm p m k) p = m"
  by (simp add: set_vm_def)

lemma set_region_processes [simp]: "processes (set_region r reg k) = processes k" by (simp add: set_region_def)

lemma heap_blocks_exec:
  assumes "q AND 4 = 0"
  shows "fold_opt (heap_block st q p) is (t, k) = Some (t', k') \<Longrightarrow> vm_exec E p k \<Longrightarrow> vm_exec E p k'"
proof (induction "is" arbitrary: t k)
  case (Cons i "is")
  then obtain t1 k1 where s: "heap_block st q p i (t, k) = Some (t1, k1)" "fold_opt (heap_block st q p) is (t1, k1) = Some (t', k')"
    by (auto simp: bind_eq_Some_conv)
  then obtain m ref where "map_block (kcached k) st q (ref, snd i - fst i) (t, vm_of k p) = Some (t1, m)" "vm_of k1 p = m"
    by (auto simp: heap_block_def bind_eq_Some_conv)
  then have "vm_exec E p k1" using map_block_exec [OF _ Cons.prems(2) assms] by blast
  then show ?case using Cons.IH s(2) by blast
qed simp

lemma HeapAllocate_exec:
  assumes "Process_HeapAllocate ops p target sz q st skip k = Some (r, k')" "vm_exec E p k" "q AND 4 = 0"
  shows "vm_exec E p k'"
proof (cases "vm_of k' p = vm_of k p")
  case False
  then obtain blocks reg r0 t k1 b where h: "fold_opt (heap_block st q p) blocks (target, set_region r0 reg k) = Some (t, k1)"
    "reserve_limit p RCommit (as_s32 sz) (upd_process p (\<lambda>pr. pr\<lparr>holding_memory := icl_add_set ops (holding_memory pr) blocks,
       memory_used := wrap_u32 (memory_used pr + sz)\<rparr>) k1) = Some (b, k')"
    using assms(1) unfolding Process_HeapAllocate_def Let_def
    by (auto simp: bind_eq_Some_conv split: if_splits)
  show ?thesis using heap_blocks_exec [OF assms(3) h(1)] assms(2) limit_processes(1) [OF h(2)] by simp
qed (use assms(2) in simp)

lemma free_blocks_vm: "fold_opt (free_block ops p r) bs k = Some k' \<Longrightarrow> vm_of k' p = vm_of k p"
proof (induction bs arbitrary: k)
  case (Cons b bs)
  then obtain k1 where s: "free_block ops p r b k = Some k1" "fold_opt (free_block ops p r) bs k1 = Some k'"
    by (auto simp: bind_eq_Some_conv)
  then have "vm_of k1 p = vm_of k p" by (cases b) (auto simp: free_block_def bind_eq_Some_conv)
  then show ?case using Cons.IH [OF s(2)] by simp
qed simp

lemma HeapFree_exec:
  assumes "Process_HeapFree ops p target sz k = Some (r, k')" "vm_exec E p k" "sz < 2 ^ 32"
  shows "vm_exec E p k'"
proof (cases "vm_of k' p = vm_of k p")
  case False
  then obtain c where c: "GetBackingBlocksForRange target sz (vm_of k p) = Some c" "\<not> outside HEAP_VADDR HEAP_VADDR_END target sz" "sz \<noteq> 0"
    using assms(1) by (auto simp: Process_HeapFree_def bind_eq_Some_conv split: if_splits)
  then obtain blocks where "c = Inr blocks" using assms(1) False by (cases c) (auto simp: Process_HeapFree_def)
  then obtain r0 k1 res m b where h: "fold_opt (free_block ops p r0) blocks k = Some k1"
    "UnmapRange (kcached k1) target sz (vm_of k1 p) = Some (res, m)"
    "release_limit p RCommit (as_s32 sz) (upd_process p (\<lambda>pr. pr\<lparr>memory_used := sub_u32 (memory_used pr) sz\<rparr>) (set_vm p m k1)) = Some (b, k')"
    using assms(1) c unfolding Process_HeapFree_def Let_def by (auto simp: bind_eq_Some_conv split: if_splits)
  show ?thesis
    using UnmapRange_exec [OF h(2) _ assms(3)] free_blocks_vm [OF h(1)] assms(2) limit_processes(2) [OF h(3)] by simp
qed (use assms(2) in simp)

lemma linear_map_exec:
  assumes "linear_map ops p target off sz q k = Some (r, k')" "vm_exec E p k" "q AND 4 = 0"
  shows "vm_exec E p k'"
proof -
  obtain ref t m ms b where h: "map_block (kcached k) MS_Continuous q (ref, sz) (target, vm_of k p) = Some (t, m)"
    "reserve_limit p RCommit (as_s32 sz) (upd_process p (\<lambda>pr. pr\<lparr>holding_memory := icl_add ops (holding_memory pr) (off, wrap_u32 (off + sz)),
       memory_used := wrap_u32 (memory_used pr + sz)\<rparr>) (set_vm p m (k\<lparr>memory := ms\<rparr>))) = Some (b, k')"
    using assms(1) unfolding linear_map_def Let_def by (auto simp: bind_eq_Some_conv)
  show ?thesis using map_block_exec [OF h(1) assms(2-3)] limit_processes(1) [OF h(2)] by simp
qed

lemma LinearAllocate_exec:
  assumes "Process_LinearAllocate ops p target sz q k = Some (r, k')" "vm_exec E p k" "q AND 4 = 0"
  shows "vm_exec E p k'"
proof (cases "vm_of k' p = vm_of k p")
  case False
  then obtain r0 reg t off where "linear_map ops p t off sz q (set_region r0 reg k) = Some (r, k')"
    using assms(1) unfolding Process_LinearAllocate_def Let_def
    by (auto simp: bind_eq_Some_conv split: if_splits option.splits)
  then show ?thesis using linear_map_exec [OF _ _ assms(3)] assms(2) by fastforce
qed (use assms(2) in simp)

lemma LinearFree_exec:
  assumes "Process_LinearFree ops p target sz k = Some (r, k')" "vm_exec E p k" "sz < 2 ^ 32"
  shows "vm_exec E p k'"
proof (cases "vm_of k' p = vm_of k p")
  case False
  then obtain res m where u: "UnmapRange (kcached k) target sz (vm_of k p) = Some (res, m)" "vm_of k' p = m"
    using assms(1) unfolding Process_LinearFree_def Let_def
    by (auto simp: bind_eq_Some_conv dest: limit_processes(2) split: if_splits)
  then show ?thesis using UnmapRange_exec [OF u(1) assms(2,3)] by simp
qed (use assms(2) in simp)

lemma Unmap_exec:
  assumes "Process_Unmap p target source sz q False k = Some (r, k')" "vm_exec E p k" "q AND 4 = 0" "sz < 2 ^ 32"
  shows "vm_exec E p k'"
proof (cases "outside HEAP_VADDR HEAP_VADDR_END source sz \<or> overlapping source target sz")
  case True
  then show ?thesis using assms(1,2) by (auto simp: Process_Unmap_def split: if_splits)
next
  case False
  then obtain res m where u: "UnmapRange (kcached k) target sz (vm_of k p) = Some (res, m)"
    using assms(1) by (auto simp: Process_Unmap_def bind_eq_Some_conv)
  have m: "exec_in E (vma_map m)" using UnmapRange_exec [OF u assms(2,4)] .
  then show ?thesis
    using assms(1) u False ChangeMemoryState_exec [OF _ m assms(4,3)] by (auto simp: Process_Unmap_def Let_def split: if_splits)
qed

lemma Map_exec:
  assumes "Process_Map p target source sz q False k = Some (r, k')" "vm_exec E p k" "q AND 4 = 0" "sz < 2 ^ 32"
  shows "vm_exec E p k'"
proof (cases "vm_of k' p = vm_of k p")
  case False
  then obtain free where f: "\<not> outside HEAP_VADDR HEAP_VADDR_END source sz" "\<not> overlapping source target sz"
    "free_area_at target sz (vm_of k p) = Some free" "free"
    using assms(1) by (auto simp: Process_Map_def bind_eq_Some_conv split: if_splits)
  then obtain res m where c: "ChangeMemoryState (kcached k) source sz MS_Private perm_ReadWrite MS_Aliased perm_ReadWrite (vm_of k p) = Some (res, m)"
    using assms(1) by (auto simp: Process_Map_def Let_def bind_eq_Some_conv)
  have m: "exec_in E (vma_map m)" using ChangeMemoryState_exec [OF c assms(2,4)] by (simp add: perm_ReadWrite_def)
  show ?thesis
  proof (cases "vm_of k' p = m")
    case changed: False
    then have "\<not> IsError res" using assms(1) f c by (auto simp: Process_Map_def Let_def)
    then obtain b where b: "GetBackingBlocksForRange source sz m = Some b"
      using assms(1) f c by (auto simp: Process_Map_def Let_def bind_eq_Some_conv)
    then obtain blocks where "b = Inr blocks"
      using assms(1) f c changed \<open>\<not> IsError res\<close> by (cases b) (auto simp: Process_Map_def Let_def)
    then obtain t m1 where "fold_opt (map_block (kcached k) MS_Alias q) blocks (target, m) = Some (t, m1)" "vm_of k' p = m1"
      using assms(1) f c b \<open>\<not> IsError res\<close> by (auto simp: Process_Map_def Let_def bind_eq_Some_conv)
    then show ?thesis using map_blocks_exec [OF assms(3) _ m] by blast
  qed (use m in simp)
qed (use assms(2) in simp)

lemma control_free_exec:
  assumes "control_free ops p addr0 sz k = Some (r, k')" "vm_exec E p k" "sz < 2 ^ 32"
  shows "vm_exec E p k'"
  using assms HeapFree_exec LinearFree_exec
  unfolding control_free_def by (auto simp: bind_eq_Some_conv split: if_splits; blast)

lemma vm_exec_start:
  assumes "vm_inv H F cached (vm_of k p)"
  shows "vm_exec (executable p k) p k"
proof -
  have "vbase v + vsize v \<le> MAX_ADDRESS" if "v \<in> set (vma_map (vm_of k p))" for v
    using that assms by (auto simp: vm_inv_def dest: chain_bases)
  then show ?thesis by (auto simp: exec_in_def fits_def executable_def)
qed

text \<open>C5: Memory control never makes memory executable.  Whatever the operation, the addresses and the permissions a program
  asks for, and whether the call succeeds or reports an error, an address of the process that can be executed after the call could
  already be executed before it.\<close>

theorem control_memory_no_execute:
  assumes "vm_inv H F cached (vm_of k (current_process k))"
    and "ControlMemory ops addr0 addr1 sz operation perms k = Some (r, k')" and "sz < 2 ^ 32"
  shows "executable (current_process k) k' \<subseteq> executable (current_process k) k"
proof -
  let ?p = "current_process k"
  define E where "E = executable ?p k"
  have old: "vm_exec E ?p k"
    using vm_exec_start [OF assms(1)] by (simp add: E_def)
  have "vm_exec E ?p k'"
  proof (cases "perms AND 3 = perms")
    case False
    then show ?thesis using assms(2) old by (auto simp: ControlMemory_def Let_def split: if_splits)
  next
    case True
    have "(ucast perms :: VMAPermission) AND 4 = ucast (perms AND 3) AND 4" using True by simp
    also have "\<dots> = ucast perms AND (3 AND 4)" by (simp only: unsigned_and_eq and.assoc) simp
    finally have q: "(ucast perms :: VMAPermission) AND 4 = 0" by simp
    show ?thesis
    proof (cases "page_aligned addr0 \<and> page_aligned addr1 \<and> page_aligned sz \<and> memop_of operation \<noteq> None")
      case False
      then show ?thesis using assms(2) old by (auto simp: ControlMemory_def Let_def split: if_splits)
    next
      case ok: True
      then obtain x where x: "memop_of operation = Some x" by blast
      note c = assms(2) [unfolded ControlMemory_def Let_def x option.case]
      show ?thesis
        using c ok True HeapAllocate_exec [OF _ old q] LinearAllocate_exec [OF _ old q] Map_exec [OF _ old q assms(3)]
          Unmap_exec [OF _ old q assms(3)] ReprotectRange_exec [OF _ old assms(3) q] control_free_exec [OF _ old assms(3)]
        by (cases x) (auto split: if_splits)
    qed
  qed
  then have "\<forall>v \<in> set (vma_map (vm_of k' ?p)). permissions v AND 4 \<noteq> 0 \<longrightarrow> {vbase v..<vbase v + vsize v} \<subseteq> E"
    by (simp add: exec_in_def fits_def)
  then show ?thesis unfolding E_def executable_def by fastforce
qed

lemma demo_commit: "\<exists>k'. Process_HeapAllocate list_icl 0 0x08000000 0x1000 perm_ReadWrite MS_Private False demo_proc = Some (Inr 0x08000000, k')"
proof -
  let ?reg = "demo_region\<lparr>free_blocks := [(0x1000, 0x2000), (0x4000, 0x5000)], region_used := 0x3000\<rparr>" and ?A = "[(0x5000, 0x6000)] :: (nat \<times> nat) list"
  let ?k = "set_region 0 ?reg demo_proc"
  note ok = proc_okD [OF demo_proc_ok [of True]]
  have g: "good_range 0x08000000 0x1000" by (simp add: good_range_def MAX_ADDRESS_def CITRA_PAGE_SIZE_def)
  have free: "all_free 0x08000000 0x1000 demo_vm" by (simp add: range_pages_def demo_vm_inv free_page_def)
  have fa: "free_area_at 0x08000000 0x1000 (vm_of demo_proc 0) = Some True" using free_area_at_spec [OF ok(9) g] free by simp
  have reg: "Region_HeapAllocate list_icl 0x1000 demo_region = Some (?A, ?reg)"
    by (simp add: Region_HeapAllocate_def demo_region_def wrap_u32_def list_icl_def list_cut_def icl_sub_set_def)
  have b: "fcram_block demo_memory (0x5000, 0x6000) = (Some \<lparr>block_ptr = 0x10000, block_size = FCRAM_N3DS_SIZE, ref_offset = 0x5000\<rparr>, 0x1000)"
    by (simp add: fcram_block_def demo_memory_def)
  have "ref_ok demo_fcram (fst (fcram_block demo_memory (0x5000, 0x6000))) 0x1000"
    by (simp add: b ref_ok_def demo_fcram_def FCRAM_N3DS_SIZE_def)
  then obtain m where m: "map_block (kcached demo_proc) MS_Private perm_ReadWrite (fcram_block demo_memory (0x5000, 0x6000)) (0x08000000, demo_vm) =
      Some (0x08001000, m)"
    using map_block_ok [OF ok(6,9,10) g _ _ disjI1, of "fst (fcram_block demo_memory (0x5000, 0x6000))" perm_ReadWrite MS_Private] free by (auto simp: b)
  have k: "vm_of ?k 0 = demo_vm" "memory ?k = demo_memory" by (simp_all add: set_region_def)
  have "in_fcram (0x5000, 0x6000)" by (simp add: in_fcram_def FCRAM_N3DS_SIZE_def)
  then have f: "fold_opt (heap_block MS_Private perm_ReadWrite 0) ?A (0x08000000, ?k) =
      Some (0x08001000, set_vm 0 m (?k\<lparr>memory := zero_blocks ?A demo_memory\<rparr>))"
    using m k heap_fold [of ?A MS_Private perm_ReadWrite 0 "0x08000000" ?k] by (simp del: fold_opt.simps) simp
  let ?k2 = "upd_process 0 (\<lambda>pr. pr\<lparr>holding_memory := icl_add_set list_icl (holding_memory pr) ?A,
      memory_used := wrap_u32 (memory_used pr + 0x1000)\<rparr>) (set_vm 0 m (?k\<lparr>memory := zero_blocks ?A demo_memory\<rparr>))"
  have "resource_limits ?k2 = resource_limits demo_proc" "resource_limit (processes ?k2 0) = 0"
    by (simp_all add: upd_process_def set_vm_def set_region_def)
  then obtain x R where R: "reserve_limit 0 RCommit (as_s32 0x1000) ?k2 = Some (x, ?k2\<lparr>resource_limits := R\<rparr>)"
    using reserve_commit [of ?k2 0 "0x1000"] ok(11) by (auto simp: FCRAM_N3DS_SIZE_def)
  show ?thesis using fa reg f R by (simp add: Process_HeapAllocate_def area_defs outside_def wrap_u32_def del: fold_opt.simps)
qed

theorem control_memory_no_execute_witness:
  "\<exists>k'. ControlMemory list_icl 0x08000000 0 0x1000 3 3 demo_proc = Some ((ResultSuccess, Some 0x08000000), k') \<and>
     executable 0 k' \<subseteq> executable 0 demo_proc \<and> executable 0 demo_proc = {}"
proof -
  have p: "current_process demo_proc = 0" by (simp add: demo_proc_def upd_process_def new_KernelSystem_def)
  obtain k' where "Process_HeapAllocate list_icl 0 0x08000000 0x1000 (ucast (3 :: u32)) MS_Private False demo_proc = Some (Inr 0x08000000, k')"
    using demo_commit by (auto simp: perm_ReadWrite_def)
  then have c: "ControlMemory list_icl 0x08000000 0 0x1000 3 3 demo_proc = Some ((ResultSuccess, Some 0x08000000), k')"
    by (simp add: ControlMemory_def Let_def p memop_of_def MEMOP_REGION_MASK_def MEMOP_OPERATION_MASK_def MEMOP_LINEAR_def page_aligned_def CITRA_PAGE_SIZE_def out_addr_def)
  have "vm_inv demo_fcram True (kcached demo_proc) (vm_of demo_proc (current_process demo_proc))" using proc_okD(9) [OF demo_proc_ok [of True]] p by simp
  then have "executable 0 k' \<subseteq> executable 0 demo_proc" using control_memory_no_execute [OF _ c] p by simp
  moreover have "executable 0 demo_proc = {}" by (auto simp: executable_def demo_vm_def blank_vma_def perm_None_def)
  ultimately show ?thesis using c by blast
qed

text \<open>Names of resources.  The call that reports the limits refuses a name that is no resource; the call that reports the current values does not
  look at the name, and reads its table out of bounds.\<close>

theorem resource_names_unchecked:
  assumes "get_object HResourceLimit h k = Some l" and "rl_valid (resource_limits k l)"
    and "Read32 names k = Some (name, k1)" and "type_index RMax \<le> name" and "names < 2 ^ 32" and "0 < n"
  shows "GetResourceLimitLimitValues values h names n k = Some (ResultInvalidEnumValue, k1)"
    and "GetResourceLimitCurrentValues values h names n k = None"
proof -
  have ne: "ResultInvalidEnumValue \<noteq> ResultSuccess" by code_simp
  have i: "[0..<n] = 0 # [1..<n]" using assms(6) by (simp add: upt_conv_Cons)
  have k1: "resource_limits k1 = resource_limits k" using assms(3) by (auto simp: Read32_def bind_eq_Some_conv)
  have r: "Read32 (wrap_u32 (names + 4 * 0)) k = Some (name, k1)" using assms(3,5) by (simp add: wrap_u32_def)
  have g: "GetCurrentValue (resource_limits k1 l) name = None"
    using assms(2,4) k1 by (simp add: GetCurrentValue_def rl_valid_def)
  have "report_value GetLimitValue True values l names 0 k = Some (ResultInvalidEnumValue, k1)"
    using r assms(4) by (simp add: report_value_def)
  then show "GetResourceLimitLimitValues values h names n k = Some (ResultInvalidEnumValue, k1)"
    using assms(1) ne by (simp add: GetResourceLimitLimitValues_def i)
  have "report_value GetCurrentValue False values l names 0 k = None" using r g by (simp add: report_value_def)
  then show "GetResourceLimitCurrentValues values h names n k = None"
    using assms(1) by (simp add: GetResourceLimitCurrentValues_def i)
qed

text \<open>Making all memory accessible.  When two neighbouring areas in use differ only in their permissions, and the second one is not yet
  executable, the change of the second merges it into the first and erases it; the loop then goes on from the erased element.\<close>

theorem rwx_erased_iterator:
  assumes "vma_map m = v # w # l" and "meminfo_state v = st" "meminfo_state w = st" "st \<noteq> MS_Free"
    and "mergeable (v\<lparr>permissions := perm_ReadWriteExecute\<rparr>) (w\<lparr>permissions := perm_ReadWriteExecute\<rparr>)"
    and "permissions w \<noteq> perm_ReadWriteExecute"
  shows "rwx_loop cached n 0 m = None"
proof -
  let ?q = perm_ReadWriteExecute
  let ?v = "v\<lparr>permissions := ?q\<rparr>" and ?w = "w\<lparr>permissions := ?q\<rparr>"
  have no: "\<not> mergeable ?v w" using assms(6) by (auto simp: mergeable_def)
  have first: "vma_map m1 = ?v # w # l \<and> j = 0" if "Reprotect cached ?q 0 m = Some (m1, j)" for m1 j
    using that assms(1) no by (auto simp: Reprotect_def change_vma_def MergeAdjacent_def CanBeMergedWith_def Let_def bind_eq_Some_conv split: if_splits)
  have second: "j = 0" if m1: "vma_map m1 = ?v # w # l" "Reprotect cached ?q 1 m1 = Some (m2, j)" for m1 m2 j
  proof -
    obtain l2 where x: "MergeAdjacent 1 (?v # ?w # l) = Some (l2, j)"
      using m1(2) unfolding Reprotect_def change_vma_def Let_def m1(1) by (auto simp: bind_eq_Some_conv split: if_splits)
    have "mergeable ?v (?w\<lparr>vsize := z\<rparr>)" for z using assms(5) by (simp add: mergeable_def)
    then show ?thesis using x assms(5) by (auto simp: MergeAdjacent_def CanBeMergedWith_def bind_eq_Some_conv split: if_splits)
  qed
  have "rwx_loop cached i 1 m1 = None" if "vma_map m1 = ?v # w # l" for i m1
    using second [OF that] that assms(3,4) by (cases i; cases "Reprotect cached ?q 1 m1") auto
  then show ?thesis
    using first assms(1,2,4) by (cases n; cases "Reprotect cached ?q 0 m") auto
qed

theorem rwx_erased_iterator_witness:
  "rwx_loop (\<lambda>_. False) 4 0 (demo_vm\<lparr>vma_map := [heap_area 0 0x1000 perm_ReadWrite 0x5000, heap_area 0x1000 0x1000 perm_Read 0x6000,
     free_from 0x2000]\<rparr>) = None"
  by (rule rwx_erased_iterator [where st = MS_Private and v = "heap_area 0 0x1000 perm_ReadWrite 0x5000"
        and w = "heap_area 0x1000 0x1000 perm_Read 0x6000" and l = "[free_from 0x2000]"])
    (simp_all add: heap_area_def mergeable_def GetPtr_def perm_Read_def perm_ReadWriteExecute_def)

end
