(* ===== verification/Sessions.thy ===== *)
theory Sessions
  imports Svc_Sync
begin

text \<open>
  Ports and sessions: \<^verbatim>\<open>client_port.cpp\<close>, \<^verbatim>\<open>server_port.cpp\<close>, \<^verbatim>\<open>client_session.cpp\<close>, \<^verbatim>\<open>server_session.cpp\<close>, the list of
  sessions that a handler of the emulator keeps (\<^verbatim>\<open>hle_ipc.cpp\<close>), and the system calls of \<^verbatim>\<open>svc.cpp\<close> that use them.

  A client connects to a port and sends requests on its end of a session; a server waits on its end, receives the
  request and replies.  What a handler of the emulator does with a request is code of the services: the
  argument \<open>handle\<close>, a function of the number of the handler, the session, the thread, the context of the request and the kernel.  The
  destructors of the two ends are operations; when they run depends on reference counts, which are only followed for a new session
  that found no place in a table of handles.
\<close>

section \<open>Ports and sessions\<close>

definition upd_client_port :: "nat \<Rightarrow> (ClientPort \<Rightarrow> ClientPort) \<Rightarrow> kernel \<Rightarrow> kernel" where
  "upd_client_port p f k = k\<lparr>client_ports := (client_ports k)(p := f (client_ports k p))\<rparr>"

definition upd_server_port :: "nat \<Rightarrow> (ServerPort \<Rightarrow> ServerPort) \<Rightarrow> kernel \<Rightarrow> kernel" where
  "upd_server_port p f k = k\<lparr>server_ports := (server_ports k)(p := f (server_ports k p))\<rparr>"

definition upd_session :: "nat \<Rightarrow> (Session \<Rightarrow> Session) \<Rightarrow> kernel \<Rightarrow> kernel" where
  "upd_session p f k = k\<lparr>sessions := (sessions k)(p := f (sessions k p))\<rparr>"

definition CreatePortPair :: "nat \<Rightarrow> string \<Rightarrow> kernel \<Rightarrow> (nat \<times> nat) \<times> kernel" where
  "CreatePortPair maximum name k =
     (let sp = num_server_ports k; cp = num_client_ports k in
      ((sp, cp),
       upd_client_port cp (\<lambda>_. \<lparr>cp_server_port = sp, max_sessions = maximum, active_sessions = 0, cp_name = name @ ''_Client''\<rparr>)
         (upd_server_port sp (\<lambda>_. \<lparr>sp_name = name @ ''_Server'', pending_sessions = [], sp_hle_handler = None\<rparr>)
           (k\<lparr>num_server_ports := sp + 1, num_client_ports := cp + 1\<rparr>))))"

definition ServerSession_Create :: "string \<Rightarrow> kernel \<Rightarrow> nat \<times> kernel" where
  "ServerSession_Create name k =
     (let s = num_server_sessions k in
      (s, upd_server_session s (\<lambda>_. new_ServerSession\<lparr>server_name := name\<rparr>) (k\<lparr>num_server_sessions := s + 1\<rparr>)))"

definition CreateSessionPair :: "string \<Rightarrow> nat option \<Rightarrow> kernel \<Rightarrow> (nat \<times> nat) \<times> kernel" where
  "CreateSessionPair name port k =
     (let (s, k1) = ServerSession_Create (name @ ''_Server'') k;
          c = num_client_sessions k1; p = num_sessions k1
      in ((s, c),
          upd_server_session s (\<lambda>x. x\<lparr>server_parent := p\<rparr>)
            (k1\<lparr>client_sessions := (client_sessions k1)(c := \<lparr>client_parent = p, client_name = name @ ''_Client''\<rparr>),
                sessions := (sessions k1)(p := \<lparr>session_client = Some c, session_server = Some s, session_port = port\<rparr>),
                num_client_sessions := c + 1, num_sessions := p + 1\<rparr>)))"

definition AddNamedPort :: "string \<Rightarrow> nat \<Rightarrow> kernel \<Rightarrow> kernel" where
  "AddNamedPort name p k =
     (if named_ports k name = None then k\<lparr>named_ports := (named_ports k)(name \<mapsto> p)\<rparr> else k)"

definition ClientConnected :: "nat \<Rightarrow> nat \<Rightarrow> kernel \<Rightarrow> kernel" where
  "ClientConnected h s k =
     (upd_server_session s (\<lambda>x. x\<lparr>hle_handler := Some h\<rparr>) k)
       \<lparr>connected_sessions := (connected_sessions k)(h := connected_sessions k h @ [s])\<rparr>"

definition ClientDisconnected :: "nat \<Rightarrow> nat \<Rightarrow> kernel \<Rightarrow> kernel" where
  "ClientDisconnected h s k =
     (upd_server_session s (\<lambda>x. x\<lparr>hle_handler := None\<rparr>) k)
       \<lparr>connected_sessions := (connected_sessions k)(h := filter (\<lambda>x. x \<noteq> s) (connected_sessions k h))\<rparr>"

definition ClientPort_Connect :: "nat \<Rightarrow> kernel \<Rightarrow> (nat result_val \<times> kernel) option" where
  "ClientPort_Connect cp k =
     (if \<not> active_sessions (client_ports k cp) < max_sessions (client_ports k cp) then Some (Inl ResultMaxConnectionsReached, k)
      else do {
        let k1 = upd_client_port cp (\<lambda>x. x\<lparr>active_sessions := wrap_u32 (active_sessions x + 1)\<rparr>) k;
        let sp = cp_server_port (client_ports k1 cp);
        let ((s, c), k2) = CreateSessionPair (sp_name (server_ports k1 sp)) (Some cp) k1;
        let k3 = (case sp_hle_handler (server_ports k2 sp) of
            Some h \<Rightarrow> ClientConnected h s k2
          | None \<Rightarrow> upd_server_port sp (\<lambda>x. x\<lparr>pending_sessions := pending_sessions x @ [s]\<rparr>) k2);
        k4 \<leftarrow> WakeupAllWaitingThreads (WServerPort sp) k3;
        Some (Inr c, k4)
      })"

definition ConnectionClosed :: "nat \<Rightarrow> kernel \<Rightarrow> kernel option" where
  "ConnectionClosed cp k =
     (if active_sessions (client_ports k cp) > 0
      then Some (upd_client_port cp (\<lambda>x. x\<lparr>active_sessions := active_sessions x - 1\<rparr>) k) else None)"

definition ServerPort_Accept :: "nat \<Rightarrow> kernel \<Rightarrow> nat result_val \<times> kernel" where
  "ServerPort_Accept sp k =
     (if pending_sessions (server_ports k sp) = [] then (Inl ResultNoPendingSessions, k)
      else (Inr (last (pending_sessions (server_ports k sp))),
            upd_server_port sp (\<lambda>x. x\<lparr>pending_sessions := butlast (pending_sessions x)\<rparr>) k))"

text \<open>The two destructors.\<close>

definition ClientSession_destroy :: "nat \<Rightarrow> kernel \<Rightarrow> kernel option" where
  "ClientSession_destroy c k =
     (let p = client_parent (client_sessions k c) in
      case session_server (sessions k p) of
        None \<Rightarrow> Some (upd_session p (\<lambda>x. x\<lparr>session_client := None\<rparr>) k)
      | Some s \<Rightarrow>
          let k1 = (case hle_handler (server_sessions k s) of Some h \<Rightarrow> ClientDisconnected h s k | None \<Rightarrow> k);
              k2 = upd_server_session s (\<lambda>x. x\<lparr>pending_requesting_threads := [], currently_handling := None\<rparr>) k1
          in WakeupAllWaitingThreads (WServerSession s) (upd_session p (\<lambda>x. x\<lparr>session_client := None\<rparr>) k2))"

definition ServerSession_destroy :: "nat \<Rightarrow> kernel \<Rightarrow> kernel option" where
  "ServerSession_destroy s k = do {
     let p = server_parent (server_sessions k s);
     k1 \<leftarrow> (case session_port (sessions k p) of Some cp \<Rightarrow> ConnectionClosed cp k | None \<Rightarrow> Some k);
     Some (upd_session p (\<lambda>x. x\<lparr>session_server := None\<rparr>) k1)
   }"

definition IPCDelayNanoseconds :: int where "IPCDelayNanoseconds = 39000"

type_synonym service = "nat \<Rightarrow> nat \<Rightarrow> nat \<Rightarrow> HLERequestContext \<Rightarrow> kernel \<Rightarrow> (HLERequestContext \<times> kernel) option"

text \<open>
  A request to a handler of the emulator: the command buffer with the targets of static buffers behind it is read, translated and handed
  over, and unless the handler put the thread to sleep the response is written back.  The words of a context that nobody wrote are
  \<open>junk\<close>.
\<close>

definition hle_request :: "service \<Rightarrow> u32 list \<Rightarrow> nat \<Rightarrow> nat \<Rightarrow> nat \<Rightarrow> kernel \<Rightarrow> kernel option" where
  "hle_request handle junk h s t k = do {
     p \<leftarrow> owner_process (threads k t);
     (bs, k1) \<leftarrow> ReadBlock p (GetCommandBufferAddress t k) (4 * (COMMAND_BUFFER_LENGTH + 2 * MAX_STATIC_BUFFERS)) k;
     (ctx, k2) \<leftarrow> PopulateFromIncomingCommandBuffer (words_of bs) p (new_HLERequestContext junk) k1;
     (ctx', k3) \<leftarrow> handle h s t ctx k2;
     assert_opt (status (threads k3 t) = Running \<or> status (threads k3 t) = WaitHleEvent);
     if status (threads k3 t) = Running then do {
       (ws, k4) \<leftarrow> WriteToOutgoingCommandBuffer (words_of bs) p ctx' k3;
       WriteBlock p (GetCommandBufferAddress t k4) (bytes_of_words ws) k4
     } else Some k3
   }"

definition HandleSyncRequest :: "service \<Rightarrow> u32 list \<Rightarrow> nat \<Rightarrow> nat \<Rightarrow> kernel \<Rightarrow> (result \<times> kernel) option" where
  "HandleSyncRequest handle junk s t k = do {
     k1 \<leftarrow> (case hle_handler (server_sessions k s) of None \<Rightarrow> Some k | Some h \<Rightarrow> hle_request handle junk h s t k);
     k2 \<leftarrow> (if status (threads k1 t) = Running then
              let k' = upd_thread t (\<lambda>th. th\<lparr>status := WaitIPC\<rparr>) k1 in
              if hle_handler (server_sessions k' s) \<noteq> None then WakeAfterDelay t IPCDelayNanoseconds False k'
              else Some (upd_server_session s (\<lambda>x. x\<lparr>pending_requesting_threads := pending_requesting_threads x @ [t]\<rparr>) k')
            else Some k1);
     k3 \<leftarrow> WakeupAllWaitingThreads (WServerSession s) k2;
     Some (ResultSuccess, k3)
   }"

definition ClientSession_SendSyncRequest :: "service \<Rightarrow> u32 list \<Rightarrow> nat \<Rightarrow> nat \<Rightarrow> kernel \<Rightarrow> (result \<times> kernel) option" where
  "ClientSession_SendSyncRequest handle junk c t k =
     (case session_server (sessions k (client_parent (client_sessions k c))) of
        None \<Rightarrow> Some (ResultSessionClosed, k)
      | Some s \<Rightarrow> HandleSyncRequest handle junk s t k)"


section \<open>System calls\<close>

definition PortNameMaxLength :: nat where "PortNameMaxLength = 11"

text \<open>
  When a new client end finds no place in the table it is destroyed; with a handler of the emulator the server end, which only the
  handler kept, goes with it, otherwise it waits in the port.
\<close>

definition drop_client :: "nat \<Rightarrow> kernel \<Rightarrow> kernel option" where
  "drop_client c k =
     (case session_server (sessions k (client_parent (client_sessions k c))) of
        None \<Rightarrow> ClientSession_destroy c k
      | Some s \<Rightarrow> do {
          k1 \<leftarrow> ClientSession_destroy c k;
          if hle_handler (server_sessions k s) \<noteq> None then ServerSession_destroy s k1 else Some k1
        })"

definition connect_and_create :: "nat \<Rightarrow> kernel \<Rightarrow> (handle result_val \<times> kernel) option" where
  "connect_and_create cp k = do {
     (r, k1) \<leftarrow> ClientPort_Connect cp k;
     case r of
       Inl e \<Rightarrow> Some (Inl e, k1)
     | Inr c \<Rightarrow> create_handle (OClientSession c) (drop_client c) k1
   }"

definition SVC_ConnectToPort :: "nat \<Rightarrow> kernel \<Rightarrow> (handle result_val \<times> kernel) option" where
  "SVC_ConnectToPort port_name_address k =
     (if \<not> IsValidVirtualAddress (page_table (vm_of k (current_process k))) port_name_address then Some (Inl ResultNotFound, k)
      else do {
        p \<leftarrow> current_page_table k;
        (cs, ms) \<leftarrow> ReadCString port_name_address (PortNameMaxLength + 1) (page_table (vm_of k p)) (memory k);
        let k1 = k\<lparr>memory := ms\<rparr>;
        if length cs > PortNameMaxLength then Some (Inl ResultPortNameTooLong, k1)
        else case named_ports k1 (map char_of cs) of
          None \<Rightarrow> Some (Inl ResultNotFound, k1)
        | Some cp \<Rightarrow> connect_and_create cp k1
      })"

definition SVC_SendSyncRequest :: "service \<Rightarrow> u32 list \<Rightarrow> handle \<Rightarrow> kernel \<Rightarrow> (result \<times> kernel) option" where
  "SVC_SendSyncRequest handle junk h k =
     (case get_object HClientSession h k of
        None \<Rightarrow> Some (ResultInvalidHandle, k)
      | Some c \<Rightarrow> do {
          let k1 = PrepareReschedule k;
          t \<leftarrow> GetCurrentThread k1;
          ClientSession_SendSyncRequest handle junk c t k1
        })"

text \<open>The reply: the error with the index, if the call ends there, and the new state.\<close>

definition send_reply :: "nat \<Rightarrow> handle \<Rightarrow> kernel \<Rightarrow> ((result \<times> int option) option \<times> kernel) option" where
  "send_reply t reply_target k =
     (case get_object HServerSession reply_target k of
        None \<Rightarrow> Some (Some (ResultInvalidHandle, None), k)
      | Some s \<Rightarrow>
          let request_thread = currently_handling (server_sessions k s);
              k1 = upd_server_session s (\<lambda>x. x\<lparr>currently_handling := None\<rparr>) k
          in if request_thread = None \<or> session_client (sessions k1 (server_parent (server_sessions k1 s))) = None
             then Some (Some (ResultSessionClosed, Some (-1)), k1)
             else do {
               c \<leftarrow> request_thread;
               (r, bufs, k2) \<leftarrow> TranslateCommandBuffer (\<lambda>k. host_alloc k (memory k)) t c (GetCommandBufferAddress t k1)
                 (GetCommandBufferAddress c k1) (mapped_buffer_context (server_sessions k1 s)) True k1;
               assert_opt (IsSuccess r);
               k3 \<leftarrow> ResumeFromWait c (upd_server_session s (\<lambda>x. x\<lparr>mapped_buffer_context := bufs\<rparr>) k2);
               Some (None, k3)
             })"

definition receive_next :: "nat \<Rightarrow> wait_ref list \<Rightarrow> bool \<Rightarrow> kernel \<Rightarrow> ((result \<times> int option) \<times> kernel) option" where
  "receive_next t ws replied k =
     (if ws = [] then Some ((if replied then ResultSuccess else 0xE7E3FFFF, Some 0), k)
      else case dropWhile (\<lambda>w. ShouldWait w t k) ws of
        w # rest \<Rightarrow> do {
          k1 \<leftarrow> Acquire w t k;
          (r, k2) \<leftarrow> receive_from w t k1;
          Some ((r, Some (int (length ws - length (w # rest)))), k2)
        }
      | [] \<Rightarrow> Some ((ResultSuccess, Some (-1)),
          PrepareReschedule (upd_thread t (\<lambda>th. th\<lparr>wakeup_callback := Some SVC_IPCCallback\<rparr>) (begin_wait t ws WaitSynchAny k))))"

definition SVC_ReplyAndReceive :: "nat \<Rightarrow> int \<Rightarrow> handle \<Rightarrow> kernel \<Rightarrow> ((result \<times> int option) \<times> kernel) option" where
  "SVC_ReplyAndReceive handles_address handle_count reply_target k =
     (if \<not> IsValidVirtualAddress (page_table (vm_of k (current_process k))) handles_address then Some ((ResultInvalidPointer, None), k)
      else if handle_count < 0 then Some ((ResultOutOfRange, None), k)
      else do {
        (r, k1) \<leftarrow> read_handles (nat handle_count) handles_address [] k;
        case r of
          Inl e \<Rightarrow> Some ((e, None), k1)
        | Inr ws \<Rightarrow> do {
            t \<leftarrow> GetCurrentThread k1;
            (header, k2) \<leftarrow> Read32 (GetCommandBufferAddress t k1) k1;
            let replies = (reply_target \<noteq> 0 \<and> command_id (word_of_nat header) \<noteq> 0xFFFF);
            (e, k3) \<leftarrow> (if replies then send_reply t reply_target k2 else Some (None, k2));
            case e of Some err \<Rightarrow> Some (err, k3) | None \<Rightarrow> receive_next t ws replies k3
          }
      })"

text \<open>The two calls that create pairs; a first handle stays open when there is no place for the second.\<close>

definition SVC_CreatePort :: "nat \<Rightarrow> nat \<Rightarrow> kernel \<Rightarrow> ((handle \<times> handle) result_val \<times> kernel) option" where
  "SVC_CreatePort name_address maximum k = do {
     assert_opt (name_address = 0);
     let ((sp, cp), k1) = CreatePortPair maximum ''UnknownPort'' k;
     (r, k2) \<leftarrow> create_handle (OClientPort cp) Some k1;
     case r of
       Inl e \<Rightarrow> Some (Inl e, k2)
     | Inr hc \<Rightarrow> do {
         (r', k3) \<leftarrow> create_handle (OServerPort sp) Some k2;
         Some (case r' of Inl e \<Rightarrow> Inl e | Inr hs \<Rightarrow> Inr (hs, hc), k3)
       }
   }"

definition SVC_CreateSession :: "kernel \<Rightarrow> ((handle \<times> handle) result_val \<times> kernel) option" where
  "SVC_CreateSession k = do {
     let ((s, c), k1) = CreateSessionPair ''Unknown'' None k;
     (r, k2) \<leftarrow> create_handle (OServerSession s) (\<lambda>k. Option.bind (ServerSession_destroy s k) (ClientSession_destroy c)) k1;
     case r of
       Inl e \<Rightarrow> Some (Inl e, k2)
     | Inr hs \<Rightarrow> do {
         (r', k3) \<leftarrow> create_handle (OClientSession c) (ClientSession_destroy c) k2;
         Some (case r' of Inl e \<Rightarrow> Inl e | Inr hc \<Rightarrow> Inr (hs, hc), k3)
       }
   }"

definition SVC_CreateSessionToPort :: "handle \<Rightarrow> kernel \<Rightarrow> (handle result_val \<times> kernel) option" where
  "SVC_CreateSessionToPort client_port_handle k =
     (case get_object HClientPort client_port_handle k of
        None \<Rightarrow> Some (Inl ResultInvalidHandle, k)
      | Some cp \<Rightarrow> connect_and_create cp k)"

text \<open>A session that was accepted and finds no place in the table is destroyed.\<close>

definition SVC_AcceptSession :: "handle \<Rightarrow> kernel \<Rightarrow> (handle result_val \<times> kernel) option" where
  "SVC_AcceptSession server_port_handle k =
     (case get_object HServerPort server_port_handle k of
        None \<Rightarrow> Some (Inl ResultInvalidHandle, k)
      | Some sp \<Rightarrow>
          (case ServerPort_Accept sp k of
             (Inl e, k1) \<Rightarrow> Some (Inl e, k1)
           | (Inr s, k1) \<Rightarrow> create_handle (OServerSession s) (ServerSession_destroy s) k1))"


section \<open>What waking leaves alone\<close>

lemma Remove_env [simp]: "same_env k (RemoveWaitingThread w t k)"
proof -
  have "same_env k (Mutex_UpdatePriority m (upd_thread t f (set_waiting w g k)))" for m f g
    by (rule same_env_trans [OF _ prio_frame_fields(9) [OF prio_frame_Mutex_Update]]) (simp add: same_env_def)
  then show ?thesis
    by (cases w) (simp_all add: RemoveWaitingThread_def WaitObject_RemoveWaitingThread_def, simp_all add: same_env_def)
qed

lemma leave_waits_env: "same_env k (leave_waits t k)"
proof -
  have "same_env k (fold (\<lambda>ob. RemoveWaitingThread ob t) ws k)" for ws
    by (induction ws arbitrary: k) (auto intro: same_env_trans [OF Remove_env])
  from this [of "wait_objects (threads k t)"] show ?thesis by (simp add: leave_waits_def same_env_def)
qed

lemma Resume_env: "ResumeFromWait t k = Some k' \<Longrightarrow> same_env k k'"
  by (auto simp: ResumeFromWait_cases same_env_def split: if_splits)

lemma receive_links:
  assumes "receive_from w t k = Some (r, k')"
  shows "same_links k k'"
proof -
  have "k' = k \<or> (\<exists>s bufs k1. k' = upd_server_session s (\<lambda>x. x\<lparr>mapped_buffer_context := bufs\<rparr>) k1 \<and> ipc_frame k k1)"
    using assms by (auto simp: receive_from_def ReceiveIPCRequest_def bind_eq_Some_conv dest: TranslateCommandBuffer_frame
        split: wait_ref.splits if_splits)
  then show ?thesis by (auto simp: same_links_def ipc_frame_fields)
qed

lemma set_result_links [simp]:
  "same_links k (SetWaitSynchronizationResult t r k)" "same_links k (SetWaitSynchronizationOutput t i k)"
  by (simp_all add: same_links_def SetWaitSynchronizationResult_def SetWaitSynchronizationOutput_def)

lemma callback_links:
  assumes "run_wakeup_callback reason t ob k = Some k'"
  shows "same_links k k'"
proof (cases "wakeup_callback (threads k t)")
  case None
  then show ?thesis using assms by (simp add: run_wakeup_callback_def)
next
  case (Some cb)
  then have w: "WakeUp cb reason t ob k = Some k'" using assms by (simp add: run_wakeup_callback_def)
  show ?thesis
  proof (cases cb)
    case (SVC_SyncCallback b)
    then show ?thesis
      using w by (auto simp: Let_def bind_eq_Some_conv split: if_splits option.splits
          intro: same_links_trans [OF set_result_links(1) set_result_links(2)])
  next
    case SVC_IPCCallback
    then obtain x r k1 i where "receive_from x t k = Some (r, k1)"
      "k' = SetWaitSynchronizationOutput t i (SetWaitSynchronizationResult t r k1)"
      using w by (auto simp: bind_eq_Some_conv Let_def split: if_splits)
    then show ?thesis using receive_links same_links_trans set_result_links by metis
  next
    case (ArbiterCallback a)
    then show ?thesis using w by (auto simp: upd_arbiter_def same_links_def split: if_splits)
  qed
qed

lemma Acquire_all_links: "fold_opt (\<lambda>ob. Acquire ob t) ws k = Some k' \<Longrightarrow> same_links k k'"
proof (induction ws arbitrary: k)
  case (Cons w ws)
  then show ?case using Acquire_links same_links_trans by (auto simp: bind_eq_Some_conv) blast
qed simp

lemma wake_one_links:
  assumes "wake_one w t k = Some k'"
  shows "same_links k k'"
proof -
  obtain k1 k2 where k1: "(if status (threads k t) \<noteq> WaitSynchAll then Acquire w t k
      else fold_opt (\<lambda>ob. Acquire ob t) (wait_objects (threads k t)) k) = Some k1"
    and k2: "run_wakeup_callback Signal t (Some w) k1 = Some k2" "ResumeFromWait t (leave_waits t k2) = Some k'"
    using assms by (auto simp: wake_one_def bind_eq_Some_conv)
  have "same_links k k1" using k1 Acquire_links Acquire_all_links by (auto split: if_splits)
  moreover have "same_links k2 k'" by (intro same_env_links same_env_trans [OF leave_waits_env Resume_env [OF k2(2)]])
  ultimately show ?thesis using callback_links [OF k2(1)] same_links_trans by blast
qed

lemma wake_loop_links: "wake_loop n w k = Some k' \<Longrightarrow> same_links k k'"
proof (induction n arbitrary: k)
  case (Suc n)
  then show ?case
    using wake_one_links same_links_trans by (auto simp: bind_eq_Some_conv split: option.splits) blast
qed simp

lemma WaitObject_WakeupAll_links: "WaitObject_WakeupAll w k = Some k' \<Longrightarrow> same_links k k'"
proof -
  have n: "same_links k1 (if b then k1\<lparr>hle_notified := xs\<rparr> else k1)" for k1 b xs by (simp add: same_links_def)
  assume "WaitObject_WakeupAll w k = Some k'"
  then obtain k1 where k1: "wake_loop (length (waiting_threads k w) + 1) w k = Some k1"
    "k' = (if hle_notifier k1 w then k1\<lparr>hle_notified := hle_notified k1 @ [w]\<rparr> else k1)"
    unfolding WaitObject_WakeupAll_def bind_eq_Some_conv by blast
  show ?thesis unfolding k1(2) by (rule same_links_trans [OF wake_loop_links [OF k1(1)] n])
qed

lemma Wakeup_links:
  assumes "WakeupAllWaitingThreads w k = Some k'"
  shows "same_links k k'"
proof -
  obtain k1 where k1: "WaitObject_WakeupAll w k = Some k1" and e: "k' = (case w of
         WEvent e \<Rightarrow> if event_reset_type (events k1 e) = Pulse
                     then upd_event e (\<lambda>x. x\<lparr>event_signaled := False\<rparr>) k1 else k1
       | WTimer i \<Rightarrow> if timer_reset_type (ktimers k1 i) = Pulse
                     then upd_ktimer i (\<lambda>x. x\<lparr>timer_signaled := False\<rparr>) k1 else k1
       | _ \<Rightarrow> k1)"
    using assms unfolding WakeupAllWaitingThreads_def bind_eq_Some_conv by blast
  have "same_links k1 k'" unfolding e by (cases w) (simp_all add: same_links_def)
  with WaitObject_WakeupAll_links [OF k1] show ?thesis by (rule same_links_trans)
qed


section \<open>The links between ports and sessions\<close>

definition live_sessions :: "kernel \<Rightarrow> nat \<Rightarrow> nat set" where
  "live_sessions k cp = {p. p < num_sessions k \<and> session_port (sessions k p) = Some cp \<and> session_server (sessions k p) \<noteq> None}"

text \<open>
  A port counts its live sessions and has at most as many as its maximum; the ends of a session point to it; and the sessions that
  wait in a port are live sessions of that port.
\<close>

definition ports_ok :: "kernel \<Rightarrow> bool" where
  "ports_ok k \<longleftrightarrow> (\<forall>cp < num_client_ports k. cp_server_port (client_ports k cp) < num_server_ports k \<and>
     active_sessions (client_ports k cp) = card (live_sessions k cp) \<and>
     active_sessions (client_ports k cp) \<le> max_sessions (client_ports k cp) \<and> max_sessions (client_ports k cp) < 2 ^ 32)"

definition ends_ok :: "kernel \<Rightarrow> bool" where
  "ends_ok k \<longleftrightarrow> (\<forall>p < num_sessions k.
     (\<forall>c. session_client (sessions k p) = Some c \<longrightarrow> c < num_client_sessions k \<and> client_parent (client_sessions k c) = p) \<and>
     (\<forall>s. session_server (sessions k p) = Some s \<longrightarrow> s < num_server_sessions k \<and> server_parent (server_sessions k s) = p) \<and>
     (\<forall>cp. session_port (sessions k p) = Some cp \<longrightarrow> cp < num_client_ports k)) \<and>
     (\<forall>s < num_server_sessions k. server_parent (server_sessions k s) < num_sessions k) \<and>
     (\<forall>c < num_client_sessions k. client_parent (client_sessions k c) < num_sessions k)"

definition server_live :: "kernel \<Rightarrow> nat \<Rightarrow> bool" where
  "server_live k s \<longleftrightarrow> s < num_server_sessions k \<and> session_server (sessions k (server_parent (server_sessions k s))) = Some s"

definition pending_ok :: "kernel \<Rightarrow> bool" where
  "pending_ok k \<longleftrightarrow> (\<forall>sp < num_server_ports k. distinct (pending_sessions (server_ports k sp)) \<and>
     (\<forall>s \<in> set (pending_sessions (server_ports k sp)). server_live k s \<and>
        (\<exists>cp. session_port (sessions k (server_parent (server_sessions k s))) = Some cp \<and> cp_server_port (client_ports k cp) = sp)))"

definition session_inv :: "kernel \<Rightarrow> bool" where
  "session_inv k \<longleftrightarrow> ports_ok k \<and> ends_ok k \<and> pending_ok k"

lemma finite_live [simp]: "finite (live_sessions k cp)"
  by (simp add: live_sessions_def)

lemma same_links_inv: "same_links k k' \<Longrightarrow> session_inv k' = session_inv k"
  by (simp add: same_links_def session_inv_def ports_ok_def ends_ok_def pending_ok_def server_live_def live_sessions_def)

lemma link_updates [simp]:
  "client_ports (upd_client_port cp f k) i = (if i = cp then f (client_ports k cp) else client_ports k i)"
  "server_ports (upd_client_port cp f k) = server_ports k" "sessions (upd_client_port cp f k) = sessions k"
  "client_sessions (upd_client_port cp f k) = client_sessions k" "server_sessions (upd_client_port cp f k) = server_sessions k"
  "num_client_ports (upd_client_port cp f k) = num_client_ports k" "num_server_ports (upd_client_port cp f k) = num_server_ports k"
  "num_sessions (upd_client_port cp f k) = num_sessions k" "num_client_sessions (upd_client_port cp f k) = num_client_sessions k"
  "num_server_sessions (upd_client_port cp f k) = num_server_sessions k"
  "server_ports (upd_server_port sp g k) j = (if j = sp then g (server_ports k sp) else server_ports k j)"
  "client_ports (upd_server_port sp g k) = client_ports k" "sessions (upd_server_port sp g k) = sessions k"
  "client_sessions (upd_server_port sp g k) = client_sessions k" "server_sessions (upd_server_port sp g k) = server_sessions k"
  "num_client_ports (upd_server_port sp g k) = num_client_ports k" "num_server_ports (upd_server_port sp g k) = num_server_ports k"
  "num_sessions (upd_server_port sp g k) = num_sessions k" "num_client_sessions (upd_server_port sp g k) = num_client_sessions k"
  "num_server_sessions (upd_server_port sp g k) = num_server_sessions k"
  "sessions (upd_session p h k) q = (if q = p then h (sessions k p) else sessions k q)"
  "client_ports (upd_session p h k) = client_ports k" "server_ports (upd_session p h k) = server_ports k"
  "client_sessions (upd_session p h k) = client_sessions k" "server_sessions (upd_session p h k) = server_sessions k"
  "num_client_ports (upd_session p h k) = num_client_ports k" "num_server_ports (upd_session p h k) = num_server_ports k"
  "num_sessions (upd_session p h k) = num_sessions k" "num_client_sessions (upd_session p h k) = num_client_sessions k"
  "num_server_sessions (upd_session p h k) = num_server_sessions k"
  by (simp_all add: upd_client_port_def upd_server_port_def upd_session_def)

lemma live_upd_client_port [simp]: "live_sessions (upd_client_port cp f k) x = live_sessions k x"
  by (simp add: live_sessions_def)

lemma ports_ok_cong:
  assumes "num_client_ports k' = num_client_ports k" "num_server_ports k' = num_server_ports k"
    "\<And>cp. client_ports k' cp = client_ports k cp" "\<And>cp. live_sessions k' cp = live_sessions k cp"
  shows "ports_ok k' = ports_ok k"
  using assms by (simp add: ports_ok_def)

lemma CreatePortPair_inv:
  assumes "session_inv k" "maximum < 2 ^ 32" "CreatePortPair maximum name k = (ps, k')"
  shows "session_inv k'"
proof -
  have live: "live_sessions k' cp = live_sessions k cp" for cp
    using assms(3) by (auto simp: CreatePortPair_def Let_def live_sessions_def)
  have "live_sessions k (num_client_ports k) = {}"
    using assms(1) by (fastforce simp: session_inv_def ends_ok_def live_sessions_def)
  then have "ports_ok k'"
    using assms unfolding ports_ok_def live session_inv_def by (auto simp: CreatePortPair_def Let_def less_Suc_eq)
  moreover have "ends_ok k'"
    using assms(1,3) unfolding session_inv_def ends_ok_def by (auto simp: CreatePortPair_def Let_def)
  moreover have "pending_ok k'"
    unfolding pending_ok_def
  proof (intro allI impI)
    fix sp assume "sp < num_server_ports k'"
    then have sp: "sp < num_server_ports k \<or> sp = num_server_ports k" using assms(3) by (auto simp: CreatePortPair_def Let_def)
    have "cp < num_client_ports k" if "server_live k s" "session_port (sessions k (server_parent (server_sessions k s))) = Some cp" for s cp
      using assms(1) that by (auto simp: session_inv_def ends_ok_def server_live_def)
    then show "distinct (pending_sessions (server_ports k' sp)) \<and>
       (\<forall>s \<in> set (pending_sessions (server_ports k' sp)). server_live k' s \<and>
        (\<exists>cp. session_port (sessions k' (server_parent (server_sessions k' s))) = Some cp \<and> cp_server_port (client_ports k' cp) = sp))"
      using assms(1,3) sp unfolding session_inv_def pending_ok_def
      by (fastforce simp: CreatePortPair_def Let_def server_live_def)
  qed
  ultimately show ?thesis by (simp add: session_inv_def)
qed

lemma CreateSessionPair_fields:
  assumes "CreateSessionPair name port k = ((s, c), k')"
  shows "s = num_server_sessions k" "c = num_client_sessions k" "client_ports k' = client_ports k" "server_ports k' = server_ports k"
    "sessions k' = (sessions k)(num_sessions k := \<lparr>session_client = Some c, session_server = Some s, session_port = port\<rparr>)"
    "client_sessions k' = (client_sessions k)(c := \<lparr>client_parent = num_sessions k, client_name = name @ ''_Client''\<rparr>)"
    "server_sessions k' = (server_sessions k)(s := new_ServerSession\<lparr>server_name := name @ ''_Server'', server_parent := num_sessions k\<rparr>)"
    "num_client_ports k' = num_client_ports k" "num_server_ports k' = num_server_ports k" "num_sessions k' = Suc (num_sessions k)"
    "num_client_sessions k' = Suc c" "num_server_sessions k' = Suc s"
  using assms by (auto simp: CreateSessionPair_def ServerSession_Create_def Let_def upd_server_session_def)

lemma CreateSessionPair_inv:
  assumes inv: "ends_ok k" "pending_ok k" and c: "CreateSessionPair name port k = ((s, c), k')"
    and "\<And>cp. port = Some cp \<Longrightarrow> cp < num_client_ports k"
  shows "ends_ok k'" "pending_ok k'"
    "live_sessions k' cp = (if port = Some cp then insert (num_sessions k) (live_sessions k cp) else live_sessions k cp)"
proof -
  note f = CreateSessionPair_fields [OF c]
  show "ends_ok k'" unfolding ends_ok_def
  proof (intro conjI allI impI)
    fix p assume "p < num_sessions k'"
    then have p: "p < num_sessions k \<or> p = num_sessions k" by (auto simp: f(10))
    { fix x assume "session_client (sessions k' p) = Some x"
      then show "x < num_client_sessions k'" "client_parent (client_sessions k' x) = p"
        using p inv(1) unfolding ends_ok_def by (fastforce simp: f split: if_splits)+ }
    { fix x assume "session_server (sessions k' p) = Some x"
      then show "x < num_server_sessions k'" "server_parent (server_sessions k' x) = p"
        using p inv(1) unfolding ends_ok_def by (fastforce simp: f split: if_splits)+ }
    { fix x assume "session_port (sessions k' p) = Some x"
      then show "x < num_client_ports k'"
        using p inv(1) assms(4) unfolding ends_ok_def by (auto simp: f split: if_splits) }
  next
    fix x assume "x < num_server_sessions k'"
    then show "server_parent (server_sessions k' x) < num_sessions k'"
      using inv(1) unfolding ends_ok_def by (auto simp: f less_Suc_eq)
  next
    fix x assume "x < num_client_sessions k'"
    then show "client_parent (client_sessions k' x) < num_sessions k'"
      using inv(1) unfolding ends_ok_def by (auto simp: f less_Suc_eq)
  qed
  have "x < num_server_sessions k \<Longrightarrow> server_parent (server_sessions k x) \<noteq> num_sessions k" for x
    using inv(1) unfolding ends_ok_def by (metis less_irrefl)
  then show "pending_ok k'"
    using inv(2) unfolding pending_ok_def server_live_def by (fastforce simp: f)
  show "live_sessions k' cp = (if port = Some cp then insert (num_sessions k) (live_sessions k cp) else live_sessions k cp)"
    by (auto simp: live_sessions_def f less_Suc_eq)
qed


lemma connect_session:
  assumes "session_inv k" "cp < num_client_ports k" "ClientPort_Connect cp k = Some (Inr c, k')"
  shows "session_inv k'" "c = num_client_sessions k" "client_parent (client_sessions k' c) = num_sessions k"
    "live_sessions k' cp = insert (num_sessions k) (live_sessions k cp)"
    "session_client (sessions k' (num_sessions k)) = Some c" "session_server (sessions k' (num_sessions k)) = Some (num_server_sessions k)"
    "sp_hle_handler (server_ports k (cp_server_port (client_ports k cp))) = None \<Longrightarrow>
       pending_sessions (server_ports k' (cp_server_port (client_ports k cp))) =
       pending_sessions (server_ports k (cp_server_port (client_ports k cp))) @ [num_server_sessions k]"
    "sp_hle_handler (server_ports k (cp_server_port (client_ports k cp))) = Some h \<Longrightarrow>
       hle_handler (server_sessions k' (num_server_sessions k)) = Some h"
    "active_sessions (client_ports k cp) < max_sessions (client_ports k cp)" "num_client_ports k' = num_client_ports k"
proof -
  let ?sp = "cp_server_port (client_ports k cp)"
  let ?k1 = "upd_client_port cp (\<lambda>x. x\<lparr>active_sessions := wrap_u32 (active_sessions x + 1)\<rparr>) k"
  show room: "active_sessions (client_ports k cp) < max_sessions (client_ports k cp)"
    proof (rule ccontr)
    assume "\<not> ?thesis"
    then show False using assms(3) by (simp add: ClientPort_Connect_def)
  qed
  define X where "X = CreateSessionPair (sp_name (server_ports k ?sp)) (Some cp) ?k1"
  define s c' k2 where "s = fst (fst X)" and "c' = snd (fst X)" and "k2 = snd X"
  then have k2: "CreateSessionPair (sp_name (server_ports k ?sp)) (Some cp) ?k1 = ((s, c'), k2)" by (simp add: X_def)
  define k3 where "k3 = (case sp_hle_handler (server_ports k2 ?sp) of
            Some h \<Rightarrow> ClientConnected h s k2
          | None \<Rightarrow> upd_server_port ?sp (\<lambda>x. x\<lparr>pending_sessions := pending_sessions x @ [s]\<rparr>) k2)"
  have cps: "cp_server_port (client_ports ?k1 cp) = ?sp" "server_ports ?k1 = server_ports k" by simp_all
  have b: "ClientPort_Connect cp k = Option.bind (WakeupAllWaitingThreads (WServerPort ?sp) k3) (\<lambda>k4. Some (Inr c', k4))"
    unfolding ClientPort_Connect_def Let_def cps k2 k3_def using room by simp
  from assms(3) [unfolded b] have w: "WakeupAllWaitingThreads (WServerPort ?sp) k3 = Some k'" and c: "c' = c"
    by (auto simp: bind_eq_Some_conv)
  note f = CreateSessionPair_fields [OF k2]
  have inv: "ports_ok k" "ends_ok k" "pending_ok k" using assms(1) by (simp_all add: session_inv_def)
  have e1: "ends_ok ?k1" using inv(2) by (simp add: ends_ok_def)
  have "server_live ?k1 x = server_live k x" "cp_server_port (client_ports ?k1 x) = cp_server_port (client_ports k x)" for x
    by (simp_all add: server_live_def)
  then have p1: "pending_ok ?k1" using inv(3) unfolding pending_ok_def by (simp del: link_updates(1))
  have sp0: "?sp < num_server_ports k" using inv(1) assms(2) by (simp add: ports_ok_def)
  have c2: "ends_ok k2" "pending_ok k2"
    "\<And>x. live_sessions k2 x = (if Some cp = Some x then insert (num_sessions k) (live_sessions k x) else live_sessions k x)"
    using CreateSessionPair_inv [OF e1 p1 k2] assms(2) by simp_all
  have f3: "client_ports k3 = client_ports k2" "sessions k3 = sessions k2" "client_sessions k3 = client_sessions k2"
    "num_client_ports k3 = num_client_ports k2" "num_server_ports k3 = num_server_ports k2" "num_sessions k3 = num_sessions k2"
    "num_client_sessions k3 = num_client_sessions k2" "num_server_sessions k3 = num_server_sessions k2"
    "server_parent (server_sessions k3 x) = server_parent (server_sessions k2 x)" for x
    by (simp_all add: k3_def ClientConnected_def split: option.split)
  have "live_sessions k3 x = live_sessions k2 x" for x by (simp add: live_sessions_def f3)
  then have l3: "live_sessions k3 x = (if cp = x then insert (num_sessions k) (live_sessions k x) else live_sessions k x)" for x
    by (simp add: c2(3))
  have new: "num_sessions k \<notin> live_sessions k x" for x by (simp add: live_sessions_def)
  have "active_sessions (client_ports k cp) < 2 ^ 32 - 1"
    using inv(1) assms(2) room by (auto simp: ports_ok_def)
  then have "wrap_u32 (active_sessions (client_ports k cp) + 1) = active_sessions (client_ports k cp) + 1"
    by (simp add: wrap_u32_def)
  then have "ports_ok k3"
    using inv(1) room new assms(2) unfolding ports_ok_def l3 by (auto simp: f3 f)
  moreover have "ends_ok k3" using c2(1) by (simp add: ends_ok_def f3)
  moreover have "pending_ok k3"
  proof (cases "sp_hle_handler (server_ports k2 ?sp)")
    case None
    then have sp: "server_ports k3 x = (if x = ?sp then (server_ports k ?sp)\<lparr>pending_sessions := pending_sessions (server_ports k ?sp) @ [s]\<rparr>
        else server_ports k x)" for x by (simp add: k3_def f)
    have "s \<notin> set (pending_sessions (server_ports k ?sp))"
      using inv(3) sp0 by (auto simp: pending_ok_def server_live_def f(1))
    moreover have "server_live k3 s" "session_port (sessions k3 (server_parent (server_sessions k3 s))) = Some cp"
      "cp_server_port (client_ports k3 cp) = ?sp"
      by (simp_all add: server_live_def f3 f)
    moreover have "server_live k3 x = server_live k2 x" for x by (simp add: server_live_def f3)
    ultimately show ?thesis
      using c2(2) unfolding pending_ok_def by (auto simp: sp f3 f(4,9))
  next
    case (Some h)
    then have "server_ports k3 = server_ports k2" by (simp add: k3_def ClientConnected_def)
    then show ?thesis using c2(2) by (simp add: pending_ok_def server_live_def f3)
  qed
  ultimately have "session_inv k3" by (simp add: session_inv_def)
  then show "session_inv k'" using same_links_inv [OF Wakeup_links [OF w]] by simp
  note sl = Wakeup_links [OF w, unfolded same_links_def]
  show "num_client_ports k' = num_client_ports k" using sl by (simp add: f f3)
  show "c = num_client_sessions k" using f(2) c by simp
  then show "client_parent (client_sessions k' c) = num_sessions k" "session_client (sessions k' (num_sessions k)) = Some c"
    "session_server (sessions k' (num_sessions k)) = Some (num_server_sessions k)"
    using sl by (simp_all add: f f3 c)
  show "live_sessions k' cp = insert (num_sessions k) (live_sessions k cp)"
    using l3 [of cp] sl by (simp add: live_sessions_def)
  show "sp_hle_handler (server_ports k ?sp) = None \<Longrightarrow> pending_sessions (server_ports k' ?sp) =
       pending_sessions (server_ports k ?sp) @ [num_server_sessions k]"
    using sl by (simp add: k3_def f)
  show "sp_hle_handler (server_ports k ?sp) = Some h \<Longrightarrow> hle_handler (server_sessions k' (num_server_sessions k)) = Some h"
    using sl by (simp add: k3_def f ClientConnected_def)
qed

lemma accept_session:
  assumes "session_inv k" "ServerPort_Accept sp k = (r, k')"
  shows "session_inv k'"
proof -
  have f: "client_ports k' = client_ports k" "sessions k' = sessions k" "client_sessions k' = client_sessions k"
    "server_sessions k' = server_sessions k" "num_client_ports k' = num_client_ports k" "num_server_ports k' = num_server_ports k"
    "num_sessions k' = num_sessions k" "num_client_sessions k' = num_client_sessions k" "num_server_sessions k' = num_server_sessions k"
    "pending_sessions (server_ports k' x) = (if x = sp then butlast (pending_sessions (server_ports k x)) else pending_sessions (server_ports k x))" for x
    using assms(2) by (auto simp: ServerPort_Accept_def split: if_splits)
  have l: "live_sessions k' x = live_sessions k x" for x by (simp add: live_sessions_def f)
  have "ports_ok k'" using assms(1) ports_ok_cong [of k' k] by (simp add: session_inv_def l f)
  moreover have "ends_ok k'" using assms(1) by (simp add: session_inv_def ends_ok_def f)
  moreover have "pending_ok k'"
    using assms(1) unfolding session_inv_def pending_ok_def f by (auto simp: server_live_def f distinct_butlast dest: in_set_butlastD)
  ultimately show ?thesis by (simp add: session_inv_def)
qed

lemma close_client_inv:
  assumes inv: "session_inv k" and d: "ClientSession_destroy c k = Some k'"
  shows "session_inv k'"
proof -
  let ?p = "client_parent (client_sessions k c)"
  have closed: "session_inv (upd_session ?p (\<lambda>x. x\<lparr>session_client := None\<rparr>) k1)"
    if "session_inv k1" for k1
  proof -
    have l: "live_sessions (upd_session ?p (\<lambda>x. x\<lparr>session_client := None\<rparr>) k1) cp = live_sessions k1 cp" for cp
      by (auto simp: live_sessions_def)
    have "ends_ok (upd_session ?p (\<lambda>x. x\<lparr>session_client := None\<rparr>) k1)" using that unfolding session_inv_def ends_ok_def by simp
    moreover have "server_live (upd_session ?p (\<lambda>x. x\<lparr>session_client := None\<rparr>) k1) s = server_live k1 s"
      "session_port (sessions (upd_session ?p (\<lambda>x. x\<lparr>session_client := None\<rparr>) k1) q) = session_port (sessions k1 q)" for s q
      by (auto simp: server_live_def)
    moreover have "ports_ok (upd_session ?p (\<lambda>x. x\<lparr>session_client := None\<rparr>) k1)"
      using that ports_ok_cong [OF _ _ _ l] by (simp add: session_inv_def)
    ultimately show ?thesis
      using that unfolding session_inv_def pending_ok_def by (simp del: link_updates(21))
  qed
  show ?thesis
  proof (cases "session_server (sessions k ?p)")
    case None
    then show ?thesis using d closed [OF inv] by (simp add: ClientSession_destroy_def Let_def)
  next
    case (Some s)
    define k1 where "k1 = (case hle_handler (server_sessions k s) of Some h \<Rightarrow> ClientDisconnected h s k | None \<Rightarrow> k)"
    define k2 where "k2 = upd_server_session s (\<lambda>x. x\<lparr>pending_requesting_threads := [], currently_handling := None\<rparr>) k1"
    have w: "WakeupAllWaitingThreads (WServerSession s) (upd_session ?p (\<lambda>x. x\<lparr>session_client := None\<rparr>) k2) = Some k'"
      using d Some by (simp add: ClientSession_destroy_def Let_def k1_def k2_def)
    have "session_inv k2"
      using inv unfolding k2_def k1_def
      by (auto simp: session_inv_def ports_ok_def ends_ok_def pending_ok_def server_live_def live_sessions_def ClientDisconnected_def
          split: option.splits)
    then show ?thesis using same_links_inv [OF Wakeup_links [OF w]] closed by simp
  qed
qed

lemma close_server_inv:
  assumes inv: "session_inv k" and s: "server_live k s"
  shows "\<exists>k'. ServerSession_destroy s k = Some k' \<and> ((\<forall>sp. s \<notin> set (pending_sessions (server_ports k sp))) \<longrightarrow> session_inv k')"
proof -
  let ?p = "server_parent (server_sessions k s)"
  have p: "?p < num_sessions k" "session_server (sessions k ?p) = Some s"
    using inv s unfolding session_inv_def ends_ok_def server_live_def by auto
  define cpo where "cpo = session_port (sessions k ?p)"
  have act: "active_sessions (client_ports k cp) > 0" "?p \<in> live_sessions k cp" "cp < num_client_ports k" if "cpo = Some cp" for cp
  proof -
    have port: "session_port (sessions k ?p) = Some cp" using that by (simp add: cpo_def)
    show cp: "cp < num_client_ports k" using inv p(1) port unfolding session_inv_def ends_ok_def by blast
    show "?p \<in> live_sessions k cp" using p port by (simp add: live_sessions_def)
    then have "card (live_sessions k cp) > 0" by (auto simp: card_gt_0_iff)
    then show "active_sessions (client_ports k cp) > 0" using inv cp by (simp add: session_inv_def ports_ok_def)
  qed
  define k1 where "k1 = (case cpo of Some cp \<Rightarrow> upd_client_port cp (\<lambda>x. x\<lparr>active_sessions := active_sessions x - 1\<rparr>) k | None \<Rightarrow> k)"
  let ?k' = "upd_session ?p (\<lambda>x. x\<lparr>session_server := None\<rparr>) k1"
  have e: "ServerSession_destroy s k = Some ?k'"
    using act(1) by (simp add: ServerSession_destroy_def Let_def k1_def cpo_def ConnectionClosed_def split: option.split)
  have f: "sessions k1 = sessions k" "server_ports k1 = server_ports k" "client_sessions k1 = client_sessions k" "server_sessions k1 = server_sessions k"
    "num_client_ports k1 = num_client_ports k" "num_server_ports k1 = num_server_ports k" "num_sessions k1 = num_sessions k"
    "num_client_sessions k1 = num_client_sessions k" "num_server_sessions k1 = num_server_sessions k"
    "cp_server_port (client_ports k1 x) = cp_server_port (client_ports k x)" "max_sessions (client_ports k1 x) = max_sessions (client_ports k x)"
    "active_sessions (client_ports k1 x) = (if cpo = Some x then active_sessions (client_ports k x) - 1 else active_sessions (client_ports k x))" for x
    by (auto simp: k1_def split: option.split)
  have l: "live_sessions ?k' x = (if cpo = Some x then live_sessions k x - {?p} else live_sessions k x)" for x
    by (auto simp: live_sessions_def f cpo_def)
  have "ports_ok ?k'"
    using inv act(2) unfolding session_inv_def ports_ok_def l by (auto simp: f card_Diff_singleton)
  moreover have "ends_ok ?k'" using inv unfolding session_inv_def ends_ok_def by (auto simp: f)
  moreover have "pending_ok ?k'" if free: "\<forall>sp. s \<notin> set (pending_sessions (server_ports k sp))"
  proof -
    have "server_live ?k' x \<longleftrightarrow> server_live k x \<and> x \<noteq> s" for x
      using p by (auto simp: server_live_def f)
    moreover have "session_port (sessions ?k' q) = session_port (sessions k q)" for q by (simp add: f)
    moreover have "x \<noteq> s" if "x \<in> set (pending_sessions (server_ports k sp))" for x sp using that free by auto
    ultimately show ?thesis
      using inv unfolding session_inv_def pending_ok_def by (simp add: f del: link_updates(21))
  qed
  ultimately show ?thesis using e by (simp add: session_inv_def)
qed


text \<open>Requests without a handler of the emulator and replies keep the links.\<close>

lemma request_links:
  assumes "hle_handler (server_sessions k s) = None" "HandleSyncRequest handle junk s t k = Some (r, k')"
  shows "same_links k k'"
proof -
  have l: "same_links k (upd_server_session s (\<lambda>x. x\<lparr>pending_requesting_threads := pending_requesting_threads x @ [t]\<rparr>)
      (upd_thread t (\<lambda>th. th\<lparr>status := WaitIPC\<rparr>) k))" by (simp add: same_links_def)
  obtain k2 where "k2 = k \<or> k2 = upd_server_session s (\<lambda>x. x\<lparr>pending_requesting_threads := pending_requesting_threads x @ [t]\<rparr>)
      (upd_thread t (\<lambda>th. th\<lparr>status := WaitIPC\<rparr>) k)" and w: "WakeupAllWaitingThreads (WServerSession s) k2 = Some k'"
    using assms by (cases "status (threads k t) = Running") (auto simp: HandleSyncRequest_def Let_def bind_eq_Some_conv)
  then have "same_links k k2" using l by auto
  then show ?thesis using Wakeup_links [OF w] by (rule same_links_trans)
qed

lemma reply_links:
  assumes "send_reply t h k = Some (e, k')"
  shows "same_links k k'"
proof (cases "get_object HServerSession h k")
  case None
  then show ?thesis using assms by (simp add: send_reply_def)
next
  case (Some s)
  let ?k1 = "upd_server_session s (\<lambda>x. x\<lparr>currently_handling := None\<rparr>) k"
  have l1: "same_links k ?k1" by (simp add: same_links_def)
  show ?thesis
  proof (cases "k' = ?k1")
    case False
    then obtain c r bufs k2 where t: "TranslateCommandBuffer (\<lambda>k. host_alloc k (memory k)) t c (GetCommandBufferAddress t ?k1)
        (GetCommandBufferAddress c ?k1) (mapped_buffer_context (server_sessions ?k1 s)) True ?k1 = Some (r, bufs, k2)"
      and r: "ResumeFromWait c (upd_server_session s (\<lambda>x. x\<lparr>mapped_buffer_context := bufs\<rparr>) k2) = Some k'"
      using assms Some by (auto simp: send_reply_def Let_def bind_eq_Some_conv assert_opt_def split: if_splits)
    have "same_links ?k1 (upd_server_session s (\<lambda>x. x\<lparr>mapped_buffer_context := bufs\<rparr>) k2)"
      using TranslateCommandBuffer_frame [OF t] by (simp add: same_links_def ipc_frame_fields)
    then show ?thesis using l1 same_env_links [OF Resume_env [OF r]] same_links_trans by blast
  qed (simp add: l1)
qed

text \<open>The operations on ports and sessions.  A server end that still waits in a port is not destroyed.\<close>

inductive session_step :: "kernel \<Rightarrow> kernel \<Rightarrow> bool" where
  port: "maximum < 2 ^ 32 \<Longrightarrow> CreatePortPair maximum name k = (ps, k') \<Longrightarrow> session_step k k'"
| session: "CreateSessionPair name None k = (ends, k') \<Longrightarrow> session_step k k'"
| connect: "cp < num_client_ports k \<Longrightarrow> ClientPort_Connect cp k = Some (r, k') \<Longrightarrow> session_step k k'"
| accept: "ServerPort_Accept sp k = (r, k') \<Longrightarrow> session_step k k'"
| request: "hle_handler (server_sessions k s) = None \<Longrightarrow> HandleSyncRequest handle junk s t k = Some (r, k') \<Longrightarrow> session_step k k'"
| receive: "receive_from w t k = Some (r, k') \<Longrightarrow> session_step k k'"
| reply: "send_reply t h k = Some (e, k') \<Longrightarrow> session_step k k'"
| close_client: "ClientSession_destroy c k = Some k' \<Longrightarrow> session_step k k'"
| close_server: "server_live k s \<Longrightarrow> (\<And>sp. s \<notin> set (pending_sessions (server_ports k sp))) \<Longrightarrow> ServerSession_destroy s k = Some k' \<Longrightarrow>
    session_step k k'"

lemma session_step_inv: "session_step k k' \<Longrightarrow> session_inv k \<Longrightarrow> session_inv k'"
proof (induction rule: session_step.induct)
  case (port maximum name k ps k')
  then show ?case using CreatePortPair_inv by blast
next
  case (session name k ends k')
  obtain s c where e: "CreateSessionPair name None k = ((s, c), k')" using session.hyps by (cases ends) simp
  have inv: "ends_ok k" "pending_ok k" "ports_ok k" using session.prems by (simp_all add: session_inv_def)
  note ci = CreateSessionPair_inv [OF inv(1,2) e] and f = CreateSessionPair_fields [OF e]
  have "ports_ok k'" using inv(3) ci(3) by (subst ports_ok_cong [of k' k]) (simp_all add: f)
  then show ?case using ci(1,2) by (simp add: session_inv_def)
next
  case (connect cp k r k')
  show ?case
  proof (cases r)
    case (Inl e)
    then have "k' = k" using connect.hyps(2) by (auto simp: ClientPort_Connect_def Let_def bind_eq_Some_conv split: if_splits prod.splits)
    then show ?thesis using connect.prems by simp
  next
    case (Inr c)
    then show ?thesis using connect_session(1) connect by blast
  qed
next
  case (accept sp k r k')
  then show ?case using accept_session by blast
next
  case (request k s handle junk t r k')
  then show ?case using same_links_inv [OF request_links] by blast
next
  case (receive w t k r k')
  then show ?case using same_links_inv [OF receive_links] by blast
next
  case (reply t h k e k')
  then show ?case using same_links_inv [OF reply_links] by blast
next
  case (close_client c k k')
  then show ?case using close_client_inv by blast
next
  case (close_server k s k')
  then show ?case using close_server_inv by fastforce
qed

text \<open>C6: Connections are counted and bounded.  Whatever sequence of creating ports and sessions, connecting, accepting,
  requests, replies and closing of ends a consistent kernel goes through, the counter of each port is the number of its
  sessions whose server end is alive, at most the maximum of the port, and it does not wrap.  Destroying
  the server end of a session never trips the assertion of the port's counter, both ends of a session lead back to it, and a
  session that waits to be accepted is alive and belongs to the port it waits in.\<close>

theorem port_connections_bounded:
  assumes "session_inv k" and "session_step\<^sup>*\<^sup>* k k'"
  shows "session_inv k' \<and>
    (\<forall>cp < num_client_ports k'. active_sessions (client_ports k' cp) = card (live_sessions k' cp) \<and>
       card (live_sessions k' cp) \<le> max_sessions (client_ports k' cp) \<and> active_sessions (client_ports k' cp) < 2 ^ 32) \<and>
    (\<forall>s. server_live k' s \<longrightarrow> ServerSession_destroy s k' \<noteq> None)"
proof -
  have inv: "session_inv k'" using assms(2,1) by (induction rule: rtranclp_induct) (auto intro: session_step_inv)
  then have p: "ports_ok k'" by (simp add: session_inv_def)
  have "active_sessions (client_ports k' cp) = card (live_sessions k' cp) \<and>
       card (live_sessions k' cp) \<le> max_sessions (client_ports k' cp) \<and> active_sessions (client_ports k' cp) < 2 ^ 32"
    if "cp < num_client_ports k'" for cp
    using p that unfolding ports_ok_def by (metis le_less_trans)
  moreover have "ServerSession_destroy s k' \<noteq> None" if "server_live k' s" for s using close_server_inv [OF inv that] by auto
  ultimately show ?thesis using inv by blast
qed

lemma session_inv_demo: "session_inv demo_kernel"
  by (simp add: session_inv_def ports_ok_def ends_ok_def pending_ok_def demo_kernel_def new_KernelSystem_def)

definition demo_port :: kernel where
  "demo_port = snd (CreatePortPair 1 ''srv:'' demo_kernel)"

lemma demo_port_simps [simp]:
  "num_client_ports demo_port = 1" "max_sessions (client_ports demo_port 0) = 1" "active_sessions (client_ports demo_port 0) = 0"
  "cp_server_port (client_ports demo_port 0) = 0" "sp_hle_handler (server_ports demo_port 0) = None" "num_client_sessions demo_port = 0"
  "num_sessions demo_port = 0" "num_server_sessions demo_port = 0" "waiting_threads demo_port = (\<lambda>_. [])" "hle_notifier demo_port w = False"
  "pending_sessions (server_ports demo_port 0) = []" "num_server_ports demo_port = 1"
  by (simp_all add: demo_port_def CreatePortPair_def Let_def demo_kernel_def new_KernelSystem_def upd_client_port_def upd_server_port_def)

lemma demo_port_step: "session_step demo_kernel demo_port"
  by (rule session_step.port [of 1 "''srv:''" demo_kernel "fst (CreatePortPair 1 ''srv:'' demo_kernel)"]) (simp_all add: demo_port_def)

lemma demo_connect: "\<exists>k'. ClientPort_Connect 0 demo_port = Some (Inr 0, k')"
proof -
  have w: "waiting_threads k w = [] \<Longrightarrow> \<not> hle_notifier k w \<Longrightarrow> WakeupAllWaitingThreads (WServerPort sp) k = Some k" if "w = WServerPort sp" for k w sp
    using that by (simp add: WakeupAllWaitingThreads_def WaitObject_WakeupAll_def GetHighestPriorityReadyThread_def)
  show ?thesis
    by (simp add: ClientPort_Connect_def Let_def CreateSessionPair_def ServerSession_Create_def w upd_client_port_def upd_server_port_def
        upd_server_session_def)
qed

theorem port_connections_bounded_witness:
  "\<exists>k'. ClientPort_Connect 0 demo_port = Some (Inr 0, k') \<and> session_step\<^sup>*\<^sup>* demo_kernel k' \<and> card (live_sessions k' 0) \<le> max_sessions (client_ports k' 0)"
proof -
  obtain k' where k': "ClientPort_Connect 0 demo_port = Some (Inr 0, k')" using demo_connect by blast
  have s: "session_step\<^sup>*\<^sup>* demo_kernel k'"
    using demo_port_step session_step.connect [OF _ k'] by simp
  have "num_client_ports k' = 1" using connect_session(10) [OF session_step_inv [OF demo_port_step session_inv_demo] _ k'] by simp
  then show ?thesis using port_connections_bounded [OF session_inv_demo s] k' s by auto
qed

end
