(* ===== verification/Requests.thy ===== *)
theory Requests
  imports Sessions
begin

text \<open>
  Requests and replies between two guest threads: a request wakes a thread that waits on the server end and arrives in
  its command buffer, and a reply arrives at the client and wakes it.
\<close>

section \<open>Waking a receiver\<close>

lemma first_best_unique:
  assumes "first_best w k ts b t" "first_best w k ts b u"
  shows "t = u"
proof -
  obtain xs ys where t: "ts = xs @ t # ys" "ready_to_run w k t"
    "\<forall>v \<in> set xs. ready_to_run w k v \<longrightarrow> current_priority (threads k t) < current_priority (threads k v)"
    "\<forall>v \<in> set ys. ready_to_run w k v \<longrightarrow> current_priority (threads k t) \<le> current_priority (threads k v)"
    using assms(1) by (auto simp: first_best_def)
  obtain xs' ys' where u: "ts = xs' @ u # ys'" "ready_to_run w k u"
    "\<forall>v \<in> set xs'. ready_to_run w k v \<longrightarrow> current_priority (threads k u) < current_priority (threads k v)"
    "\<forall>v \<in> set ys'. ready_to_run w k v \<longrightarrow> current_priority (threads k u) \<le> current_priority (threads k v)"
    using assms(2) by (auto simp: first_best_def)
  from t(1) u(1) consider "xs = xs' \<and> t = u" | "t \<in> set xs' \<and> u \<in> set ys" | "u \<in> set xs \<and> t \<in> set ys'"
    by (auto simp: append_eq_append_conv2 append_eq_Cons_conv Cons_eq_append_conv)
  then show ?thesis
  proof cases
    case 2
    then show ?thesis using t(2,4) u(2,3) by fastforce
  next
    case 3
    then show ?thesis using t(2,3) u(2,4) by fastforce
  qed simp
qed

lemma kinv_objects [simp]:
  "kinv (upd_server_session s f k) = kinv k" "kinv (upd_client_port cp g k) = kinv k" "kinv (upd_server_port sp h k) = kinv k"
  "kinv (upd_session p j k) = kinv k" "kinv (PrepareReschedule k) = kinv k"
  by (rule kinv_same; simp add: upd_client_port_def upd_server_port_def upd_session_def)+

lemma kinv_ipc: "ipc_frame k k' \<Longrightarrow> kinv k' = kinv k"
  by (rule kinv_same) (simp_all add: ipc_frame_fields)

abbreviation take_request :: "nat \<Rightarrow> nat list \<Rightarrow> nat \<Rightarrow> kernel \<Rightarrow> kernel" where
  "take_request t ps s \<equiv> upd_server_session s (\<lambda>x. x\<lparr>currently_handling := Some t, pending_requesting_threads := ps\<rparr>)"

lemma acquire_request:
  assumes "client_open s k" "pending_requesting_threads (server_sessions k s) = ps @ [t]" "currently_handling (server_sessions k s) = None"
  shows "Acquire (WServerSession s) u k = Some (take_request t ps s k)"
proof -
  have "upd_server_session s (\<lambda>x. x\<lparr>currently_handling := Some (last (pending_requesting_threads x)),
      pending_requesting_threads := butlast (pending_requesting_threads x)\<rparr>) k = take_request t ps s k"
    using assms(2) by (simp add: upd_server_session_def)
  then show ?thesis using assms by (auto simp: ServerSession_Acquire_def client_open_def)
qed

text \<open>
  The registers with which the receiver continues: the result and the index of the session among its objects.
\<close>

definition resumes_with :: "nat \<Rightarrow> wait_ref \<Rightarrow> result \<Rightarrow> kernel \<Rightarrow> kernel \<Rightarrow> bool" where
  "resumes_with u w r k k' \<longleftrightarrow> (\<exists>i. GetWaitObjectIndex u w k = Some i \<and>
     cpu_registers (thread_context (threads k' u)) = (cpu_registers (thread_context (threads k u)))[0 := r, 1 := word_of_int i])"

lemma wake_receiver_one:
  assumes inv: "kinv k" and w: "u \<in> set (waiting_threads k (WServerSession s))"
    and st: "status (threads k u) = WaitSynchAny" and cb: "wakeup_callback (threads k u) = Some SVC_IPCCallback"
    and op: "client_open s k" "pending_requesting_threads (server_sessions k s) = ps @ [t]" "currently_handling (server_sessions k s) = None"
    and tr: "TranslateCommandBuffer (\<lambda>k. host_alloc k (memory k)) t u (GetCommandBufferAddress t k) (GetCommandBufferAddress u k)
      (mapped_buffer_context (server_sessions k s)) False (take_request t ps s k) = Some (ResultSuccess, bufs, k2)"
  shows "\<exists>k'. wake_one (WServerSession s) u k = Some k' \<and> kinv k' \<and> memory k' = memory k2 \<and> processes k' = processes k2 \<and>
    server_sessions k' s = (server_sessions k s)\<lparr>currently_handling := Some t, pending_requesting_threads := ps, mapped_buffer_context := bufs\<rparr> \<and>
    (\<forall>v. status (threads k' v) = (if v = u then Ready else status (threads k v))) \<and> wait_objects (threads k' u) = [] \<and>
    (\<forall>x. waiting_threads k' x = removeAll u (waiting_threads k x)) \<and> resumes_with u (WServerSession s) ResultSuccess k k' \<and> client_open s k'"
proof -
  let ?w = "WServerSession s" and ?k1 = "take_request t ps s k"
  let ?k3 = "upd_server_session s (\<lambda>x. x\<lparr>mapped_buffer_context := bufs\<rparr>) k2"
  note wt = waits_synch_waiting [OF kinvD(3) [OF inv] w]
  note fr = ipc_frame_fields [OF TranslateCommandBuffer_frame [OF tr]]
  have acq: "Acquire ?w u k = Some ?k1" by (rule acquire_request [OF op])
  have addr: "GetCommandBufferAddress v ?k1 = GetCommandBufferAddress v k" for v by (simp add: GetCommandBufferAddress_def)
  have s0: "\<not> IsError ResultSuccess" by (simp add: IsError_def ResultSuccess_def ExtractValue_def)
  have "receive_from ?w u ?k1 = Some (ResultSuccess, ?k3)"
    using op(1) tr s0 by (auto simp: receive_from_def ReceiveIPCRequest_def client_open_def addr)
  moreover have k3: "kinv ?k3" "threads ?k3 = threads k" "waiting_threads ?k3 = waiting_threads k" "num_threads ?k3 = num_threads k"
    using inv kinv_ipc [OF TranslateCommandBuffer_frame [OF tr]] by (simp_all add: fr)
  have ne: "wait_objects (threads ?k3 u) \<noteq> []" using wt(2) k3(2) by auto
  obtain i where i: "GetWaitObjectIndex u ?w (SetWaitSynchronizationResult u ResultSuccess ?k3) = Some i"
    "kinv (SetWaitSynchronizationOutput u i (SetWaitSynchronizationResult u ResultSuccess ?k3))"
    using callback_results [OF k3(1) ne] by blast
  define k4 where "k4 = SetWaitSynchronizationOutput u i (SetWaitSynchronizationResult u ResultSuccess ?k3)"
  have cb4: "run_wakeup_callback Signal u (Some ?w) ?k1 = Some k4"
    using cb st i calculation by (simp add: run_wakeup_callback_def k4_def)
  have f4: "num_threads k4 = num_threads k" "waiting_threads k4 = waiting_threads k" "same_env ?k3 k4"
    "status (threads k4 v) = status (threads k v)" "wait_objects (threads k4 v) = wait_objects (threads k v)" for v
    by (simp_all add: k4_def SetWaitSynchronizationOutput_def SetWaitSynchronizationResult_def same_env_def k3 fr)
  have u4: "u < num_threads k4" using wt(1) f4(1) by simp
  note lw = leave_waits_step [OF i(2) [folded k4_def] u4]
  let ?k5 = "make_ready u (leave_waits u k4)"
  have can: "can_resume (status (threads (leave_waits u k4) u))" using st by (simp add: lw f4 can_resume_def)
  have e: "wake_one ?w u k = Some ?k5"
    using acq st cb4 can lw(2) by (simp add: wake_one_def ResumeFromWait_cases)
  have env: "same_env ?k3 ?k5"
    using same_env_trans [OF f4(3) leave_waits_env [of k4 u]] by (simp add: same_env_def)
  have "GetWaitObjectIndex u ?w k = Some i"
    using i(1) k3(2) by (simp add: GetWaitObjectIndex_def SetWaitSynchronizationResult_def Let_def fr)
  moreover have "thread_context (threads ?k5 u) = thread_context (threads k4 u)"
    using lw(9) by (simp add: make_ready_threads leave_waits_def leave_frame_def)
  ultimately have "resumes_with u ?w ResultSuccess k ?k5"
    by (simp add: resumes_with_def k4_def SetWaitSynchronizationOutput_def SetWaitSynchronizationResult_def k3 fr)
  moreover have "kinv ?k5" using make_ready_kinv [OF lw(1) _ can lw(2)] u4 lw(4) by simp
  moreover have "memory ?k5 = memory k2" "processes ?k5 = processes k2" "server_sessions ?k5 = server_sessions ?k3" "sessions ?k5 = sessions k2"
    using env by (simp_all add: same_env_def)
  ultimately show ?thesis
    using e op(1) by (simp add: make_ready_threads lw f4 fr client_open_def)
qed


text \<open>While a request is handled nobody else is woken.\<close>

lemma wake_receiver:
  assumes inv: "kinv k" and best: "first_best (WServerSession s) k (waiting_threads k (WServerSession s)) 64 u"
    and st: "status (threads k u) = WaitSynchAny" and cb: "wakeup_callback (threads k u) = Some SVC_IPCCallback"
    and op: "client_open s k" "pending_requesting_threads (server_sessions k s) = ps @ [t]" "currently_handling (server_sessions k s) = None"
    and tr: "TranslateCommandBuffer (\<lambda>k. host_alloc k (memory k)) t u (GetCommandBufferAddress t k) (GetCommandBufferAddress u k)
      (mapped_buffer_context (server_sessions k s)) False (take_request t ps s k) = Some (ResultSuccess, bufs, k2)"
  shows "\<exists>k'. WakeupAllWaitingThreads (WServerSession s) k = Some k' \<and> kinv k' \<and> memory k' = memory k2 \<and> processes k' = processes k2 \<and>
    server_sessions k' s = (server_sessions k s)\<lparr>currently_handling := Some t, pending_requesting_threads := ps, mapped_buffer_context := bufs\<rparr> \<and>
    (\<forall>v. status (threads k' v) = (if v = u then Ready else status (threads k v))) \<and> wait_objects (threads k' u) = [] \<and>
    (\<forall>x. waiting_threads k' x = removeAll u (waiting_threads k x)) \<and> resumes_with u (WServerSession s) ResultSuccess k k'"
proof -
  let ?w = "WServerSession s"
  have w: "u \<in> set (waiting_threads k ?w)" using first_best_less [OF best] by simp
  obtain k1 where k1: "wake_one ?w u k = Some k1" "kinv k1" "memory k1 = memory k2" "processes k1 = processes k2"
    "server_sessions k1 s = (server_sessions k s)\<lparr>currently_handling := Some t, pending_requesting_threads := ps, mapped_buffer_context := bufs\<rparr>"
    "\<forall>v. status (threads k1 v) = (if v = u then Ready else status (threads k v))" "wait_objects (threads k1 u) = []"
    "\<forall>x. waiting_threads k1 x = removeAll u (waiting_threads k x)" "resumes_with u ?w ResultSuccess k k1" "client_open s k1"
    using wake_receiver_one [OF inv w st cb op tr] by blast
  have "ShouldWait ?w v k1" for v using k1(5,10) by (simp add: client_open_def)
  then have none: "\<forall>v \<in> set (waiting_threads k1 ?w). \<not> ready_to_run ?w k1 v" by (simp add: ready_to_run_def)
  obtain u' where u': "GetHighestPriorityReadyThread ?w k = Some (Some u')" "first_best ?w k (waiting_threads k ?w) 64 u'"
    using Highest_spec [OF inv, of ?w] first_best_less [OF best] by blast
  have "u' = u" using first_best_unique [OF u'(2) best] .
  obtain n where n: "length (waiting_threads k ?w) + 1 = Suc (Suc n)" using w by (cases "waiting_threads k ?w") auto
  have "wake_loop (length (waiting_threads k ?w) + 1) ?w k = wake_loop (Suc n) ?w k1"
    unfolding n using u'(1) \<open>u' = u\<close> k1(1) by simp
  then have "wake_loop (length (waiting_threads k ?w) + 1) ?w k = Some k1" using loop_stops [OF k1(2) none] by metis
  then have "WakeupAllWaitingThreads ?w k = Some (if hle_notifier k1 ?w then k1\<lparr>hle_notified := hle_notified k1 @ [?w]\<rparr> else k1)"
    by (simp add: WakeupAllWaitingThreads_def WaitObject_WakeupAll_def del: wake_loop.simps)
  then show ?thesis using k1(2-9) by (cases "hle_notifier k1 ?w") (simp_all add: resumes_with_def)
qed


section \<open>Requests\<close>

text \<open>
  A command without descriptors can be copied from the buffer of the thread \<open>t\<close> of process \<open>p\<close> to that of the thread \<open>u\<close> of process \<open>q\<close>.
\<close>

definition plain_transfer :: "kernel \<Rightarrow> nat \<Rightarrow> nat \<Rightarrow> nat \<Rightarrow> nat \<Rightarrow> u32 \<Rightarrow> bool" where
  "plain_transfer k p q t u header \<longleftrightarrow>
     owner_process (threads k t) = Some p \<and> owner_process (threads k u) = Some q \<and> quiet (memory k) \<and>
     block_ok (page_table (vm_of k p)) (memory k) (GetCommandBufferAddress t k) (4 * COMMAND_BUFFER_LENGTH) \<and>
     block_ok (page_table (vm_of k q)) (memory k) (GetCommandBufferAddress u k) (4 * COMMAND_BUFFER_LENGTH) \<and>
     (\<forall>i < 4 * COMMAND_BUFFER_LENGTH. byte_loc (page_table (vm_of k q)) (memory k) (GetCommandBufferAddress u k + i) \<noteq> None) \<and>
     words_of (guest_bytes k p (GetCommandBufferAddress t k) 4) ! 0 = header \<and> translate_params_size header = 0"

abbreviation command_of :: "kernel \<Rightarrow> nat \<Rightarrow> nat \<Rightarrow> u32 \<Rightarrow> u8 list" where
  "command_of k p a header \<equiv> guest_bytes k p a (4 * (1 + normal_params_size header))"

lemma plain_transfer_cong:
  assumes "memory k' = memory k" "processes k' = processes k" "\<And>v. owner_process (threads k' v) = owner_process (threads k v)"
    "\<And>v. tls_address (threads k' v) = tls_address (threads k v)"
  shows "plain_transfer k' p q t u header = plain_transfer k p q t u header"
  using assms by (simp add: plain_transfer_def GetCommandBufferAddress_def)

lemma plain_transfer_runs:
  assumes "plain_transfer k p q t u header"
  shows "\<exists>k'. TranslateCommandBuffer alloc t u (GetCommandBufferAddress t k) (GetCommandBufferAddress u k) bufs reply k =
      Some (ResultSuccess, bufs, k') \<and> processes k' = processes k \<and>
    command_of k' q (GetCommandBufferAddress u k) header = command_of k p (GetCommandBufferAddress t k) header"
proof -
  obtain k' where k': "TranslateCommandBuffer alloc t u (GetCommandBufferAddress t k) (GetCommandBufferAddress u k) bufs reply k = Some (ResultSuccess, bufs, k')"
    "command_of k' q (GetCommandBufferAddress u k) header = command_of k p (GetCommandBufferAddress t k) header" "k' = k\<lparr>memory := memory k'\<rparr>"
    using assms plain_command [of k t p u q "GetCommandBufferAddress t k" "GetCommandBufferAddress u k" header alloc bufs reply]
    unfolding plain_transfer_def by blast
  have "processes k' = processes k" by (subst k'(3)) simp
  with k'(1,2) show ?thesis by blast
qed

text \<open>The first of the most urgent threads of a list.\<close>

definition first_urgent :: "kernel \<Rightarrow> nat list \<Rightarrow> nat \<Rightarrow> bool" where
  "first_urgent k ts u \<longleftrightarrow> (\<exists>xs ys. ts = xs @ u # ys \<and> (\<forall>v \<in> set xs. current_priority (threads k u) < current_priority (threads k v)) \<and>
     (\<forall>v \<in> set ys. current_priority (threads k u) \<le> current_priority (threads k v)))"

text \<open>C2: A request arrives.  A running thread sends a request without descriptors on its end of an open session for which no request is being handled, while
  threads wait on the other end for requests.  The call succeeds: the caller sleeps until the reply, the first of the
  most urgent waiting threads is made ready, with the result and the index of the session in its registers, in no list of waiting
  threads any more, and with the command of the caller in its command buffer; the session handles the request of the caller
  and all other threads are as before.\<close>

theorem request_delivered:
  assumes "kinv k" and "GetCurrentThread k = Some t" and "caller k t"
    and "get_object HClientSession h k = Some c" and "session_server (sessions k (client_parent (client_sessions k c))) = Some s"
    and "client_open s k" and "hle_handler (server_sessions k s) = None" and "currently_handling (server_sessions k s) = None"
    and "first_urgent k (waiting_threads k (WServerSession s)) u"
    and "status (threads k u) = WaitSynchAny" and "wakeup_callback (threads k u) = Some SVC_IPCCallback"
    and "plain_transfer k p q t u header"
  shows "\<exists>k'. SVC_SendSyncRequest handle junk h k = Some (ResultSuccess, k') \<and> kinv k' \<and>
    (\<forall>v. status (threads k' v) = (if v = t then WaitIPC else if v = u then Ready else status (threads k v))) \<and>
    currently_handling (server_sessions k' s) = Some t \<and>
    pending_requesting_threads (server_sessions k' s) = pending_requesting_threads (server_sessions k s) \<and>
    command_of k' q (GetCommandBufferAddress u k) header = command_of k p (GetCommandBufferAddress t k) header \<and>
    wait_objects (threads k' u) = [] \<and> (\<forall>x. waiting_threads k' x = removeAll u (waiting_threads k x)) \<and>
    resumes_with u (WServerSession s) ResultSuccess k k'"
proof -
  let ?w = "WServerSession s" and ?ps = "pending_requesting_threads (server_sessions k s)"
  have t: "t < num_threads k" "status (threads k t) = Running" "wait_objects (threads k t) = []" using assms(3) by (simp_all add: caller_def)
  have tu: "t \<noteq> u" using t(2) assms(10) by auto
  let ?k1 = "upd_thread t (\<lambda>th. th\<lparr>status := WaitIPC\<rparr>) (PrepareReschedule k)"
  let ?k2 = "upd_server_session s (\<lambda>x. x\<lparr>pending_requesting_threads := pending_requesting_threads x @ [t]\<rparr>) ?k1"
  have call: "SVC_SendSyncRequest handle junk h k = Option.bind (WakeupAllWaitingThreads ?w ?k2) (\<lambda>k3. Some (ResultSuccess, k3))"
    using assms(2,4,5,7) t(2)
    by (simp add: SVC_SendSyncRequest_def ClientSession_SendSyncRequest_def HandleSyncRequest_def Let_def GetCurrentThread_def)
  have "kinv ?k1" by (rule kinv_upd_idle) (use assms(1) t in simp_all)
  then have k2: "kinv ?k2" by simp
  have open2: "client_open s ?k2" "pending_requesting_threads (server_sessions ?k2 s) = ?ps @ [t]" "currently_handling (server_sessions ?k2 s) = None"
    using assms(6,8) by (simp_all add: client_open_def)
  have st2: "status (threads ?k2 u) = WaitSynchAny" "wakeup_callback (threads ?k2 u) = Some SVC_IPCCallback" using assms(10,11) tu by simp_all
  obtain xs ys where xy: "waiting_threads k ?w = xs @ u # ys" "\<forall>v \<in> set xs. current_priority (threads k u) < current_priority (threads k v)"
    "\<forall>v \<in> set ys. current_priority (threads k u) \<le> current_priority (threads k v)"
    using assms(9) by (auto simp: first_urgent_def)
  have u: "u < num_threads k" using waits_synch_waiting(1) [OF kinvD(3) [OF assms(1)], of u ?w] xy(1) by simp
  have "ready_to_run ?w ?k2 u" using open2 st2 by (simp add: ready_to_run_def)
  moreover have "current_priority (threads k u) < 64" using sched_invD(2) [OF kinvD(1) [OF assms(1)] u] by (simp add: thread_ok_def)
  ultimately have best: "first_best ?w ?k2 (waiting_threads ?k2 ?w) 64 u"
    unfolding first_best_def using xy tu by (intro exI [of _ xs] exI [of _ ys]) auto
  let ?k3 = "take_request t ?ps s ?k2"
  have "plain_transfer ?k3 p q t u header" using assms(12) by (subst plain_transfer_cong [of _ k]) simp_all
  from plain_transfer_runs [OF this, of "\<lambda>k. host_alloc k (memory k)" "mapped_buffer_context (server_sessions ?k2 s)" False]
  obtain k4 where k4: "TranslateCommandBuffer (\<lambda>k. host_alloc k (memory k)) t u (GetCommandBufferAddress t ?k2) (GetCommandBufferAddress u ?k2)
      (mapped_buffer_context (server_sessions ?k2 s)) False ?k3 = Some (ResultSuccess, mapped_buffer_context (server_sessions ?k2 s), k4)"
    "processes k4 = processes k" "command_of k4 q (GetCommandBufferAddress u k) header = command_of k p (GetCommandBufferAddress t k) header"
    using tu by (auto simp: GetCommandBufferAddress_def)
  obtain k' where k': "WakeupAllWaitingThreads ?w ?k2 = Some k'" "kinv k'" "memory k' = memory k4" "processes k' = processes k4"
    "server_sessions k' s = (server_sessions ?k2 s)\<lparr>currently_handling := Some t, pending_requesting_threads := ?ps,
       mapped_buffer_context := mapped_buffer_context (server_sessions ?k2 s)\<rparr>"
    "\<forall>v. status (threads k' v) = (if v = u then Ready else status (threads ?k2 v))" "wait_objects (threads k' u) = []"
    "\<forall>x. waiting_threads k' x = removeAll u (waiting_threads ?k2 x)" "resumes_with u ?w ResultSuccess ?k2 k'"
    using wake_receiver [OF k2 best st2 open2 k4(1)] by blast
  have "resumes_with u ?w ResultSuccess k k'"
    using k'(9) tu by (simp add: resumes_with_def GetWaitObjectIndex_def Let_def)
  then show ?thesis
    using call k' k4(3) tu by (intro exI [of _ k']) simp
qed


section \<open>Replies\<close>

lemma send_reply_plain:
  assumes inv: "kinv k" and h: "get_object HServerSession h k = Some s" and op: "client_open s k" "currently_handling (server_sessions k s) = Some t"
    and t: "t < num_threads k" "status (threads k t) = WaitIPC" "wait_objects (threads k t) = []"
    and tr: "plain_transfer k q p u t header"
  shows "\<exists>k'. send_reply u h k = Some (None, k') \<and> kinv k' \<and>
    threads k' = (threads k)(t := (threads k t)\<lparr>wakeup_callback := None, status := Ready\<rparr>) \<and>
    server_sessions k' = (server_sessions k)(s := (server_sessions k s)\<lparr>currently_handling := None\<rparr>) \<and>
    num_threads k' = num_threads k \<and> waiting_threads k' = waiting_threads k \<and> mutexes k' = mutexes k \<and> semaphores k' = semaphores k \<and>
    events k' = events k \<and> ktimers k' = ktimers k \<and> server_ports k' = server_ports k \<and> sessions k' = sessions k \<and> processes k' = processes k \<and>
    command_of k' p (GetCommandBufferAddress t k) header = command_of k q (GetCommandBufferAddress u k) header"
proof -
  let ?k1 = "upd_server_session s (\<lambda>x. x\<lparr>currently_handling := None\<rparr>) k"
  let ?b = "mapped_buffer_context (server_sessions k s)"
  have "plain_transfer ?k1 q p u t header" using tr by (subst plain_transfer_cong [of _ k]) simp_all
  from plain_transfer_runs [OF this, of "\<lambda>k. host_alloc k (memory k)" ?b True]
  obtain k2 where k2: "TranslateCommandBuffer (\<lambda>k. host_alloc k (memory k)) u t (GetCommandBufferAddress u ?k1) (GetCommandBufferAddress t ?k1)
      ?b True ?k1 = Some (ResultSuccess, ?b, k2)" "processes k2 = processes k"
    "command_of k2 p (GetCommandBufferAddress t k) header = command_of k q (GetCommandBufferAddress u k) header"
    by (auto simp: GetCommandBufferAddress_def)
  note fr = ipc_frame_fields [OF TranslateCommandBuffer_frame [OF k2(1)]]
  let ?k3 = "upd_server_session s (\<lambda>x. x\<lparr>mapped_buffer_context := ?b\<rparr>) k2"
  have k3: "kinv ?k3" using inv kinv_ipc [OF TranslateCommandBuffer_frame [OF k2(1)]] by simp
  have t3: "t < num_threads ?k3" "can_resume (status (threads ?k3 t))" "wait_objects (threads ?k3 t) = []"
    using t by (simp_all add: fr can_resume_def)
  let ?k4 = "make_ready t ?k3"
  have "ResumeFromWait t ?k3 = Some ?k4" using t3 by (simp add: ResumeFromWait_cases)
  moreover have "IsSuccess ResultSuccess" by (simp add: IsSuccess_def ResultSuccess_def ExtractValue_def)
  moreover have "\<not> session_client (sessions ?k1 (server_parent (server_sessions ?k1 s))) = None" using op(1) by (auto simp: client_open_def)
  ultimately have run: "send_reply u h k = Some (None, ?k4)"
    unfolding send_reply_def Let_def using h op(2) k2(1) by simp
  have "kinv ?k4" by (rule make_ready_kinv [OF k3 t3])
  moreover have "threads ?k4 = (threads k)(t := (threads k t)\<lparr>wakeup_callback := None, status := Ready\<rparr>)"
    by (auto simp: make_ready_threads fr)
  moreover have "server_sessions ?k4 = (server_sessions k)(s := (server_sessions k s)\<lparr>currently_handling := None\<rparr>)"
    by (auto simp: fr fun_eq_iff)
  ultimately show ?thesis using run k2(2,3) by (intro exI [of _ ?k4]) (simp add: fr)
qed

text \<open>C3: A reply arrives and the server waits again.  A server thread replies, with a command without descriptors, to the request that its
  session is handling, and passes objects none of which is available.  The call succeeds with the index -1: the client is made ready and finds
  the command of the server in its command buffer, the session handles no request any more, and the server sleeps, at the
  end of the lists of exactly the objects it passed, as a thread that receives requests.  All other threads are as before.\<close>

theorem reply_delivered:
  assumes "kinv k" and "GetCurrentThread k = Some u" and "caller k u"
    and "IsValidVirtualAddress (page_table (vm_of k (current_process k))) addr" and "handles_at r addr ws k" and "ws \<noteq> []"
    and "plain_word k r (GetCommandBufferAddress u k)" and "command_id (word_of_nat (word_at k r (GetCommandBufferAddress u k))) \<noteq> 0xFFFF"
    and "h \<noteq> 0" and "get_object HServerSession h k = Some s" and "client_open s k" and "currently_handling (server_sessions k s) = Some t"
    and "t < num_threads k" and "status (threads k t) = WaitIPC" and "wait_objects (threads k t) = []"
    and "plain_transfer k q p u t header"
    and "\<And>w. w \<in> set ws \<Longrightarrow> ShouldWait w u k \<and> (w = WServerSession s \<longrightarrow> pending_requesting_threads (server_sessions k s) = [])"
  shows "\<exists>k'. SVC_ReplyAndReceive addr (int (length ws)) h k = Some ((ResultSuccess, Some (-1)), k') \<and> kinv k' \<and>
    (\<forall>v. status (threads k' v) = (if v = t then Ready else if v = u then WaitSynchAny else status (threads k v))) \<and>
    command_of k' p (GetCommandBufferAddress t k) header = command_of k q (GetCommandBufferAddress u k) header \<and>
    currently_handling (server_sessions k' s) = None \<and> wait_objects (threads k' u) = ws \<and> wakeup_callback (threads k' u) = Some SVC_IPCCallback \<and>
    (\<forall>w. waiting_threads k' w = waiting_threads k w @ (if w \<in> set ws then [u] else [])) \<and> reschedule_pending k'"
proof -
  have tu: "t \<noteq> u" using assms(3,14) by (auto simp: caller_def)
  obtain k3 where k3: "send_reply u h k = Some (None, k3)" "kinv k3"
    "threads k3 = (threads k)(t := (threads k t)\<lparr>wakeup_callback := None, status := Ready\<rparr>)"
    "server_sessions k3 = (server_sessions k)(s := (server_sessions k s)\<lparr>currently_handling := None\<rparr>)"
    "num_threads k3 = num_threads k" "waiting_threads k3 = waiting_threads k" "mutexes k3 = mutexes k" "semaphores k3 = semaphores k"
    "events k3 = events k" "ktimers k3 = ktimers k" "server_ports k3 = server_ports k" "sessions k3 = sessions k" "processes k3 = processes k"
    "command_of k3 p (GetCommandBufferAddress t k) header = command_of k q (GetCommandBufferAddress u k) header"
    using send_reply_plain [OF assms(1,10-16)] by blast
  have wait: "ShouldWait w u k3" if "w \<in> set ws" for w
  proof (cases "w = WServerSession s")
    case True
    then show ?thesis using assms(11) assms(17) [OF that] by (simp add: k3(4,12) client_open_def)
  next
    case False
    then show ?thesis using assms(17) [OF that] assms(14) by (cases w) (auto simp: k3)
  qed
  have c3: "caller k3 u" using assms(3) tu by (simp add: caller_def k3)
  have ws: "waits_synch WaitSynchAny" by (simp add: waits_synch_def)
  note b = begin_wait_entered [OF k3(2) c3 ws, of ws]
  let ?k4 = "begin_wait u ws WaitSynchAny k3"
  let ?k' = "PrepareReschedule (upd_thread u (\<lambda>th. th\<lparr>wakeup_callback := Some SVC_IPCCallback\<rparr>) ?k4)"
  have d: "dropWhile (\<lambda>w. ShouldWait w u k3) ws = []" using wait by (simp add: dropWhile_eq_Nil_conv)
  have "receive_next u ws True k3 = Some ((ResultSuccess, Some (-1)), ?k')" unfolding receive_next_def d using assms(6) by simp
  then have run: "SVC_ReplyAndReceive addr (int (length ws)) h k = Some ((ResultSuccess, Some (-1)), ?k')"
    using assms(2,4,8,9) read_handles_spec [OF assms(5), of "[]"] Read32_plain [OF assms(7)] k3(1) by (simp add: SVC_ReplyAndReceive_def Let_def)
  have "kinv (upd_thread u (\<lambda>th. th\<lparr>wakeup_callback := Some SVC_IPCCallback\<rparr>) ?k4)" by (rule kinv_callback) (simp_all add: b)
  then have "kinv ?k'" by simp
  moreover have "status (threads ?k' v) = (if v = t then Ready else if v = u then WaitSynchAny else status (threads k v))" for v
    using b(2) b(5) [of v] tu by (cases "v = u"; cases "v = t") (simp_all add: k3)
  moreover have "memory ?k' = memory k3" "processes ?k' = processes k3" "server_sessions ?k' = server_sessions k3"
    using b(11) by (simp_all add: same_env_def)
  then have "command_of ?k' p (GetCommandBufferAddress t k) header = command_of k q (GetCommandBufferAddress u k) header"
    "currently_handling (server_sessions ?k' s) = None" using k3(14) by (simp_all add: k3(4))
  moreover have "reschedule_pending ?k'" by (simp add: PrepareReschedule_def)
  ultimately show ?thesis using run b(3) b(6) by (intro exI [of _ ?k']) (simp add: k3(6))
qed


section \<open>An example\<close>

text \<open>
  Two threads of a process with a session between them: thread 0 runs and has the handle 1 for an end of the session, thread 2
  is at the other end.  Their command buffers are the two pages of \<^const>\<open>demo_table\<close>; the first holds a command with one word, and
  the handle is stored behind it.
\<close>

definition demo_base :: Thread where
  "demo_base = blank_thread\<lparr>nominal_priority := 48, current_priority := 48, owner_process := Some 0\<rparr>"

definition one_handle :: "kobj \<Rightarrow> kobj HandleTable" where
  "one_handle ob = new_HandleTable\<lparr>next_free_slot := 1, next_generation := 2,
     generations := (generations (new_HandleTable :: kobj HandleTable))[0 := 1], objects := (replicate MAX_COUNT None)[0 := Some ob]\<rparr>"

lemma one_handle_get: "GetGeneric c p (one_handle ob) 1 = Some ob"
  by (simp add: GetGeneric_def IsValid_def one_handle_def new_HandleTable_def HandleTable_Clear_def MAX_COUNT_def GetSlot_def GetGeneration_def
      CurrentThread_def CurrentProcess_def)

definition demo_words :: MemorySystem where
  "demo_words = host_write 0x10200 (bytes_of 4 1) (host_write 0x10000 (bytes_of 4 (unat (MakeHeader 1 1 0))) demo_memory)"

definition demo_pair :: "Thread \<Rightarrow> Thread \<Rightarrow> (wait_ref \<Rightarrow> nat list) \<Rightarrow> kobj \<Rightarrow> ServerSession \<Rightarrow> kernel" where
  "demo_pair a b wq ob ss = (upd_manager 0 (\<lambda>m. m\<lparr>current_thread := Some 0\<rparr>) demo_kernel)
     \<lparr>threads := (\<lambda>_. demo_base)(0 := a, 2 := b), num_threads := 3, waiting_threads := wq, current_page_table := Some 0,
      processes := (\<lambda>_. new_Process\<lparr>handle_table := one_handle ob, vm_manager := (vm_manager new_Process)\<lparr>page_table := demo_table\<rparr>\<rparr>),
      sessions := (\<lambda>_. \<lparr>session_client = Some 0, session_server = Some 0, session_port = None\<rparr>),
      client_sessions := (\<lambda>_. \<lparr>client_parent = 0, client_name = []\<rparr>), server_sessions := (\<lambda>_. ss), memory := demo_words\<rparr>"

lemma demo_pair_simps [simp]:
  "threads (demo_pair a b wq ob ss) = (\<lambda>_. demo_base)(0 := a, 2 := b)" "num_threads (demo_pair a b wq ob ss) = 3"
  "waiting_threads (demo_pair a b wq ob ss) = wq" "current_page_table (demo_pair a b wq ob ss) = Some 0"
  "page_table (vm_of (demo_pair a b wq ob ss) p) = demo_table" "handle_table (processes (demo_pair a b wq ob ss) p) = one_handle ob"
  "sessions (demo_pair a b wq ob ss) = (\<lambda>_. \<lparr>session_client = Some 0, session_server = Some 0, session_port = None\<rparr>)"
  "client_sessions (demo_pair a b wq ob ss) = (\<lambda>_. \<lparr>client_parent = 0, client_name = []\<rparr>)"
  "server_sessions (demo_pair a b wq ob ss) = (\<lambda>_. ss)" "memory (demo_pair a b wq ob ss) = demo_words"
  "mutexes (demo_pair a b wq ob ss) = mutexes demo_kernel" "rq (demo_pair a b wq ob ss) c = rq demo_kernel c"
  "GetCurrentThread (demo_pair a b wq ob ss) = Some 0"
  by (simp_all add: demo_pair_def GetCurrentThread_def) (simp add: demo_kernel_def new_KernelSystem_def)+

lemma demo_pair_kinv:
  assumes "\<And>x. x \<in> {a, b} \<Longrightarrow> current_priority x = 48 \<and> nominal_priority x = 48 \<and> core_id x = 0 \<and> status x \<noteq> Ready \<and> held_mutexes x = []"
    and "wait_inv (demo_pair a b wq ob ss)"
  shows "kinv (demo_pair a b wq ob ss)"
proof -
  let ?k = "demo_pair a b wq ob ss"
  have th: "current_priority (threads ?k t) = 48 \<and> nominal_priority (threads ?k t) = 48 \<and> core_id (threads ?k t) = 0 \<and>
      status (threads ?k t) \<noteq> Ready \<and> held_mutexes (threads ?k t) = []" for t
    using assms(1) by (simp add: demo_base_def blank_thread_def)
  have "queue_ok ?k c" for c
    using sched_invD(1) [OF demo_kernel_inv, of c] th unfolding queue_ok_def by (auto simp: blank_thread_def)
  moreover have "thread_ok ?k t" for t
    using sched_invD(2) [OF demo_kernel_inv, of 0] th by (simp add: thread_ok_def blank_thread_def del: demo_pair_simps(1))
  moreover have "mutex_inv ?k" using th by (intro mutex_invI) (simp_all del: demo_pair_simps(1))
  ultimately show ?thesis using assms(2) by (simp add: kinv_def sched_inv_def)
qed

lemma demo_words_read:
  "word_at (demo_pair a b wq ob ss) 0 0x100200 = 1" "word_at (demo_pair a b wq ob ss) 0 0x100000 = unat (MakeHeader 1 1 0)"
  "plain_word (demo_pair a b wq ob ss) 0 0x100000" "plain_word (demo_pair a b wq ob ss) 0 0x100200"
proof -
  have p: "page_pointer demo_table 0x100200 = 0x10000" "page_pointer demo_table 0x100000 = 0x10000"
    by (simp_all add: page_pointer_def demo_table_def CITRA_PAGE_SIZE_def GetPtr_def)
  then show "plain_word (demo_pair a b wq ob ss) 0 0x100000" "plain_word (demo_pair a b wq ob ss) 0 0x100200" by (simp_all add: plain_word_def)
  have r: "host_read demo_words 0x10200 4 = bytes_of 4 1"
    using host_read_write [of "0x10200" "bytes_of 4 1"] unfolding demo_words_def length_bytes_of by simp
  have r0: "host_read demo_words 0x10000 4 = bytes_of 4 (unat (MakeHeader 1 1 0))"
    by (rule nth_equalityI) (simp_all add: host_read_def demo_words_def host_write_def)
  show "word_at (demo_pair a b wq ob ss) 0 0x100200 = 1"
    using of_bytes_bytes_of [of 4 1] by (simp add: word_at_def word_ptr_def p CITRA_PAGE_SIZE_def r)
  show "word_at (demo_pair a b wq ob ss) 0 0x100000 = unat (MakeHeader 1 1 0)"
    using of_bytes_bytes_of [of 4 "unat (MakeHeader 1 1 0)"]
    by (simp add: word_at_def word_ptr_def p CITRA_PAGE_SIZE_def r0 unsigned_less [of "MakeHeader 1 1 0", simplified])
qed

lemma demo_pair_transfer:
  assumes "owner_process a = Some 0" "owner_process b = Some 0" "tls_address a = 0xFFF80" "tls_address b = 0x100F80"
  shows "GetCommandBufferAddress 0 (demo_pair a b wq ob ss) = 0x100000" "GetCommandBufferAddress 2 (demo_pair a b wq ob ss) = 0x101000"
    "plain_transfer (demo_pair a b wq ob ss) 0 0 0 2 (MakeHeader 1 1 0)"
proof -
  let ?k = "demo_pair a b wq ob ss" and ?h = "MakeHeader 1 1 0"
  show a: "GetCommandBufferAddress 0 ?k = 0x100000" "GetCommandBufferAddress 2 ?k = 0x101000"
    using assms by (simp_all add: GetCommandBufferAddress_def wrap_u32_def)
  have four: "4 * COMMAND_BUFFER_LENGTH = 0x100" by (simp add: COMMAND_BUFFER_LENGTH_def)
  have b: "guest_byte demo_table demo_words (0x100000 + i) = bytes_of 4 (unat ?h) ! i" if "i < 4" for i
    using demo_ipc_loc(1) [of i demo_words] that by (simp add: guest_byte_def demo_words_def host_write_def)
  have "map (guest_byte demo_table demo_words) [0x100000..<0x100000 + 4] = bytes_of 4 (unat ?h)"
    by (rule map_upt_bytes) (use b in simp_all)
  moreover have "words_of (bytes_of 4 (unat ?h)) ! 0 = ?h"
    using of_bytes_bytes_of [of 4 "unat ?h"] by (simp add: words_of_def unsigned_less [of ?h, simplified])
  ultimately have "words_of (guest_bytes ?k 0 0x100000 4) ! 0 = ?h" by simp
  moreover have "translate_params_size ?h = 0" by code_simp
  moreover have "quiet demo_words" by (simp add: quiet_def demo_words_def host_write_def demo_memory_def)
  ultimately show "plain_transfer ?k 0 0 0 2 ?h"
    using assms(1,2) demo_ipc_block [of demo_words] demo_ipc_loc(2) [of _ demo_words] unfolding plain_transfer_def a four by simp
qed


definition demo_first :: Thread where
  "demo_first = demo_base\<lparr>status := Running, tls_address := 0xFFF80\<rparr>"

text \<open>Before the request thread 2 waits on the session.\<close>

definition demo_request :: kernel where
  "demo_request = demo_pair demo_first
     (demo_base\<lparr>status := WaitSynchAny, tls_address := 0x100F80, wait_objects := [WServerSession 0], wakeup_callback := Some SVC_IPCCallback\<rparr>)
     (\<lambda>w. if w = WServerSession 0 then [2] else []) (OClientSession 0) new_ServerSession"

lemma demo_request_ok:
  "kinv demo_request" "caller demo_request 0" "get_object HClientSession 1 demo_request = Some 0" "client_open 0 demo_request"
  "plain_transfer demo_request 0 0 0 2 (MakeHeader 1 1 0)" "first_urgent demo_request (waiting_threads demo_request (WServerSession 0)) 2"
proof -
  have "wait_inv demo_request"
    unfolding demo_request_def
    by (rule wait_invI) (auto simp: demo_first_def demo_base_def blank_thread_def waits_synch_def split: if_splits)
  then show "kinv demo_request"
    unfolding demo_request_def by (intro demo_pair_kinv) (auto simp: demo_first_def demo_base_def blank_thread_def)
  show "caller demo_request 0" by (simp add: demo_request_def caller_def demo_first_def demo_base_def blank_thread_def)
  show "get_object HClientSession 1 demo_request = Some 0"
    by (simp add: get_object_def lookup_handle_def demo_request_def one_handle_get DynamicObjectCast_def)
  show "client_open 0 demo_request" by (simp add: client_open_def demo_request_def)
  show "plain_transfer demo_request 0 0 0 2 (MakeHeader 1 1 0)"
    unfolding demo_request_def by (rule demo_pair_transfer) (simp_all add: demo_first_def demo_base_def)
  have "waiting_threads demo_request (WServerSession 0) = [2]" by (simp add: demo_request_def)
  then show "first_urgent demo_request (waiting_threads demo_request (WServerSession 0)) 2"
    unfolding first_urgent_def by (intro exI [of _ "[]"]) simp
qed

theorem request_delivered_witness:
  "\<exists>k'. SVC_SendSyncRequest (\<lambda>_ _ _ _ _. None) [] 1 demo_request = Some (ResultSuccess, k') \<and> status (threads k' 0) = WaitIPC \<and>
     status (threads k' 2) = Ready \<and> currently_handling (server_sessions k' 0) = Some 0"
proof -
  have "GetCurrentThread demo_request = Some 0" "session_server (sessions demo_request (client_parent (client_sessions demo_request 0))) = Some 0"
    "hle_handler (server_sessions demo_request 0) = None" "currently_handling (server_sessions demo_request 0) = None"
    "status (threads demo_request 2) = WaitSynchAny" "wakeup_callback (threads demo_request 2) = Some SVC_IPCCallback"
    by (simp_all add: demo_request_def new_ServerSession_def)
  from request_delivered [OF demo_request_ok(1) this(1) demo_request_ok(2,3) this(2) demo_request_ok(4) this(3,4) demo_request_ok(6) this(5,6) demo_request_ok(5),
      of "\<lambda>_ _ _ _ _. None" "[]"]
  show ?thesis by auto
qed

text \<open>Before the reply thread 2 waits for the answer of thread 0.\<close>

definition demo_reply :: kernel where
  "demo_reply = demo_pair demo_first (demo_base\<lparr>status := WaitIPC, tls_address := 0x100F80\<rparr>) (\<lambda>_. []) (OServerSession 0)
     (new_ServerSession\<lparr>currently_handling := Some 2\<rparr>)"

lemma demo_reply_ok:
  "kinv demo_reply" "caller demo_reply 0" "get_object HServerSession 1 demo_reply = Some 0" "client_open 0 demo_reply"
  "plain_transfer demo_reply 0 0 0 2 (MakeHeader 1 1 0)" "GetCommandBufferAddress 0 demo_reply = 0x100000"
  "handles_at 0 0x100200 [WServerSession 0] demo_reply" "IsValidVirtualAddress (page_table (vm_of demo_reply (current_process demo_reply))) 0x100200"
proof -
  have "wait_inv demo_reply"
    unfolding demo_reply_def by (rule wait_invI) (auto simp: demo_first_def demo_base_def blank_thread_def split: if_splits)
  then show "kinv demo_reply"
    unfolding demo_reply_def by (intro demo_pair_kinv) (auto simp: demo_first_def demo_base_def blank_thread_def)
  show "caller demo_reply 0" by (simp add: demo_reply_def caller_def demo_first_def demo_base_def blank_thread_def)
  show "get_object HServerSession 1 demo_reply = Some 0"
    by (simp add: get_object_def lookup_handle_def demo_reply_def one_handle_get DynamicObjectCast_def)
  show "client_open 0 demo_reply" by (simp add: client_open_def demo_reply_def)
  show "plain_transfer demo_reply 0 0 0 2 (MakeHeader 1 1 0)" "GetCommandBufferAddress 0 demo_reply = 0x100000"
    unfolding demo_reply_def by (rule demo_pair_transfer; simp add: demo_first_def demo_base_def)+
  have "get_wait_object 1 demo_reply = Some (Some (WServerSession 0))"
    by (simp add: get_wait_object_def lookup_handle_def demo_reply_def one_handle_get)
  then show "handles_at 0 0x100200 [WServerSession 0] demo_reply"
    using demo_words_read(1,4) unfolding demo_reply_def by (simp add: handles_at_def)
  show "IsValidVirtualAddress (page_table (vm_of demo_reply (current_process demo_reply))) 0x100200"
    by (simp add: demo_reply_def IsValidVirtualAddress_def page_pointer_def demo_table_def CITRA_PAGE_SIZE_def)
qed

theorem reply_delivered_witness:
  "\<exists>k'. SVC_ReplyAndReceive 0x100200 1 1 demo_reply = Some ((ResultSuccess, Some (-1)), k') \<and> status (threads k' 2) = Ready \<and>
     status (threads k' 0) = WaitSynchAny \<and> waiting_threads k' (WServerSession 0) = [0]"
proof -
  have c: "GetCurrentThread demo_reply = Some 0" "currently_handling (server_sessions demo_reply 0) = Some 2" "2 < num_threads demo_reply"
    "status (threads demo_reply 2) = WaitIPC" "wait_objects (threads demo_reply 2) = []"
    by (simp_all add: demo_reply_def demo_base_def blank_thread_def)
  have p: "plain_word demo_reply 0 (GetCommandBufferAddress 0 demo_reply)" "word_at demo_reply 0 (GetCommandBufferAddress 0 demo_reply) = unat (MakeHeader 1 1 0)"
    unfolding demo_reply_ok(6) using demo_words_read(2,3) by (simp_all add: demo_reply_def)
  have "command_id (MakeHeader 1 1 0) = 1" by code_simp
  then have i: "command_id (word_of_nat (word_at demo_reply 0 (GetCommandBufferAddress 0 demo_reply))) \<noteq> 0xFFFF" unfolding p(2) by simp
  have w: "ShouldWait w 0 demo_reply \<and> (w = WServerSession 0 \<longrightarrow> pending_requesting_threads (server_sessions demo_reply 0) = [])"
    if "w \<in> set [WServerSession 0]" for w
    using that by (simp add: demo_reply_def new_ServerSession_def)
  have q: "waiting_threads demo_reply (WServerSession 0) = []" by (simp add: demo_reply_def)
  from reply_delivered [OF demo_reply_ok(1) c(1) demo_reply_ok(2,8,7) _ p(1) i _ demo_reply_ok(3,4) c(2-5) demo_reply_ok(5) w] q
  show ?thesis by auto
qed

end
