(* ===== verification/Spec2Isabelle.thy ===== *)
theory Spec2Isabelle
  imports Results Thread_Queue Resource_Limits Handle_Tables Binary_Heap Core_Timing Kernel_Objects Kernel_Threads Wait_Objects Scheduler
    VM_Manager Memory_Region Memory_System Process_Memory Processes Address_Arbiter Shared_Memory Svc_Sync Svc_Memory Ipc
    Sessions Requests
begin

text \<open>
  \<^bold>\<open>The kernel of the emulated console.\<close>  The repository is an emulator of a handheld console with a VR front end.  Its core
  logic is the high-level emulation of the operating system kernel under \<^verbatim>\<open>src/core/hle/kernel\<close>, the timing of the emulated
  processors in \<^verbatim>\<open>src/core/core_timing.cpp\<close>, and the guest memory in \<^verbatim>\<open>src/core/memory.cpp\<close>.  This library models that code and
  proves it correct, component by component.

  \<^bold>\<open>The parts and how they interact.\<close>  A guest program runs in threads.  The thread manager of each emulated core keeps the ready
  threads in a multi-level queue and switches between them.  Threads wait on wait objects (mutexes, semaphores, events, timers,
  other threads, and the server ends of ports and sessions) and on address arbiters, and are woken by releases, signals, timeouts and requests.  Timeouts are events in the
  queue of the timer of a core; advancing a timer calls the kernel back.  Processes own an address space, made of areas that map guest
  pages to host memory, and take that memory from three regions of physical memory; resource limits count what they use.
  Handles name kernel objects in a table per process.  Processes talk to each other and to the services of the emulator through
  sessions, opened at a port: a client sends a command buffer and sleeps, the kernel copies and translates the buffer into that of a
  server thread that waits on the session, and the reply goes the other way.  Guest memory is read and written through the page table that the
  address space maintains and the rasterizer marks.

  \<^bold>\<open>Theories\<close>, in the order of their imports, with the code they model:
  \<^item> \<open>Prelude\<close>: the collections of rewrite rules, wrap-around of machine integers, assertions and folds in the option monad.
  \<^item> \<open>Memory_Map\<close>: page size and areas of \<^verbatim>\<open>core/memory.h\<close>.
  \<^item> \<open>Results\<close>: \<^verbatim>\<open>common/bit_field.h\<close>, \<^verbatim>\<open>core/hle/result.h\<close>, \<^verbatim>\<open>kernel/errors.h\<close>: result codes as packed 32-bit words.
  \<^item> \<open>Thread_Queue\<close>: \<^verbatim>\<open>common/thread_queue_list.h\<close>: the ready queue with its chain of used levels; locale for its clients.
  \<^item> \<open>Resource_Limits\<close>: \<^verbatim>\<open>kernel/resource_limit.cpp\<close>: limits at \<^verbatim>\<open>s32\<close>, reserving and releasing.
  \<^item> \<open>Handle_Tables\<close>: \<^verbatim>\<open>kernel/handle_table.cpp\<close>, \<^verbatim>\<open>object.h\<close>: slots, generations and the free list threaded through them.
  \<^item> \<open>Binary_Heap\<close>: the heap functions of the standard library on a vector, which the event queues use.
  \<^item> \<open>Core_Timing\<close>: \<^verbatim>\<open>core_timing.cpp\<close>, \<^verbatim>\<open>core_timing.h\<close>: conversions, event queues, advancing, slices.
  \<^item> \<open>VM_Manager\<close>: \<^verbatim>\<open>kernel/vm_manager.cpp\<close>, \<^verbatim>\<open>common/memory_ref.h\<close>: areas of an address space and page tables.
  \<^item> \<open>Memory_Region\<close>: \<^verbatim>\<open>kernel/memory.cpp\<close>: the allocator of physical memory over an interval set of boost.
  \<^item> \<open>Memory_System\<close>: \<^verbatim>\<open>core/memory.cpp\<close>: guest memory through page tables, blocks, cached pages.
  \<^item> \<open>Kernel_Objects\<close>: the records of threads, wait objects, processes and of the kernel itself.
  \<^item> \<open>Kernel_Threads\<close>: priorities and resuming of \<^verbatim>\<open>kernel/thread.cpp\<close>.
  \<^item> \<open>Process_Memory\<close>: the memory of a process in \<^verbatim>\<open>kernel/process.cpp\<close>: heap, linear heap, thread local storage, aliases.
  \<^item> \<open>Ipc\<close>: \<^verbatim>\<open>core/hle/ipc.h\<close>, \<^verbatim>\<open>kernel/ipc.cpp\<close> and \<^verbatim>\<open>kernel/hle_ipc.cpp\<close>: command buffers and their translation.
  \<^item> \<open>Wait_Objects\<close>: \<^verbatim>\<open>kernel/wait_object.cpp\<close>, \<^verbatim>\<open>mutex.cpp\<close>, \<^verbatim>\<open>semaphore.cpp\<close>, \<^verbatim>\<open>event.cpp\<close>, \<^verbatim>\<open>timer.cpp\<close>, waiting on the server
    ends of ports and sessions, and the callbacks of waits.
  \<^item> \<open>Scheduler\<close>: rescheduling, context switches, creation and end of threads of \<^verbatim>\<open>kernel/thread.cpp\<close>.
  \<^item> \<open>Processes\<close>: creation, start and end of processes and their capabilities, in \<^verbatim>\<open>kernel/process.cpp\<close>.
  \<^item> \<open>Address_Arbiter\<close>: \<^verbatim>\<open>kernel/address_arbiter.cpp\<close>.
  \<^item> \<open>Shared_Memory\<close>: \<^verbatim>\<open>kernel/shared_memory.cpp\<close>: blocks that processes map into their address spaces.
  \<^item> \<open>Svc_Sync\<close>: the system calls of \<^verbatim>\<open>kernel/svc.cpp\<close> on handles, threads and synchronisation objects.
  \<^item> \<open>Svc_Memory\<close>: its calls on the memory of processes and on resource limits, and those that report information.
  \<^item> \<open>Sessions\<close>: \<^verbatim>\<open>kernel/client_port.cpp\<close>, \<^verbatim>\<open>server_port.cpp\<close>, \<^verbatim>\<open>client_session.cpp\<close>, \<^verbatim>\<open>server_session.cpp\<close> and their system calls.
  \<^item> \<open>Requests\<close>: how a request and its reply travel through a session, across all of the above.

  \<^bold>\<open>State and effects.\<close>  A class of the code is a record; objects are numbers into the tables of the record \<^typ>\<open>kernel\<close>, so
  that shared pointers that alias are equal numbers.  A member function is a definition that takes and returns the state it changes.  A
  result of \<^term>\<open>None\<close> is a failed assertion, an access the language leaves undefined or fuel that ran out; error codes are
  values.  Machine integers are words where the code works on bits, and \<^typ>\<open>nat\<close> or \<^typ>\<open>int\<close> with the wrap-around written out
  elsewhere; signed overflow, which C++ leaves undefined, wraps around as in the compiled code (lock counts, semaphore counts, limits,
  the decrement of an arbiter).  Interval sets of boost, the scaling of ticks, the rasterizer and the services of the emulator (the argument
  \<open>handle\<close> of a request) are arguments, and the addresses that the host gives to new buffers are a function in the state; the
  laws of the interval sets are the locale \<open>interval_sets\<close>, which a list implementation satisfies.

  \<^bold>\<open>What is shown.\<close>  The ready queue keeps its chain exact and pops the most urgent thread; every change of priorities and states
  keeps it equal to the ready threads.  Rescheduling runs a most urgent thread.  Waking an object returns, leaves no waiter that
  could run, and hands mutexes over to the most urgent waiter that can run; holders of mutexes stay as urgent as the mutexes.  The event queues are
  heaps with distinct insertion numbers along every sequence of operations, and timer events fire exactly when due, in order.  Handles
  look up what they were created for and stale ones stay invalid.  The list of areas of an address space refines a table of pages, and each
  operation changes exactly the pages of its range.  The allocator of a region returns exactly the requested number of free
  offsets and heap allocation composes it with mapping, zero filling and accounting.  Blocks of guest memory are read and
  written as their bytes.  Arbiters wake the specified threads in the specified order.  The system
  calls that wait read their handles from guest memory and acquire or sleep as specified, and a wait ends with a signal or its timeout;
  calls that create objects return fresh handles of the right type and keep the counts of the limits.  Memory control never
  makes memory executable, and memory queries report maximal ranges.  Commands without
  descriptors are copied, handles in commands arrive for the same objects, and buffers that are lent come back.  A port has at most its maximum
  of sessions, along every sequence of operations; a request reaches the most urgent server thread that waits for it, and the reply the client.  Where the code does not do what it
  means to do, the theorem states what it does.

  \<^bold>\<open>Fuel.\<close>  Three loops are not structural: waking the waiters of an object runs at most once per waiting thread and the loop of the
  scheduler at most once per queued thread, and the definitions pass these counts; advancing a timer calls back into the kernel, so
  its fuel is an argument and \<open>Advance_returns\<close> states how much is enough.  The loops over the areas of an address space take the number of
  areas as fuel.

  \<^bold>\<open>Not modelled.\<close>  Serialization of states, logging, the reference counts of objects and with them the moment at which destructors run, debugging identifiers, conversions through floating point, the contents of the configuration and
  shared pages, services that put the calling thread to sleep, the register wrappers of system calls, and everything outside the kernel, the timing and the memory: processor
  emulation, services, loaders, graphics, audio, front ends and vendored libraries, which are host input and output or large
  tables behind the interfaces above.
\<close>

end
